(* ===== verification/Prelude.thy ===== *)
theory Prelude
  imports Main "HOL-Library.Word" "HOL-Library.Monad_Syntax"
begin

text \<open>
  Vocabulary shared by every component of the development.

  \<^item> Machine integers of the C code: \<open>u8\<close>, \<open>u32\<close>, \<open>i32\<close>, \<open>u64\<close>, \<open>i64\<close> are words of that
    width; a signed comparison of the C code is written on \<open>sint\<close>.
  \<^item> \<open>ofold\<close>: a C loop over a list whose body may abort (an \<open>assert\<close> or \<open>abort()\<close>).
  \<^item> The list operations of \<open>sys/queue.h\<close> on lists without duplicates: \<open>TAILQ_NEXT\<close>,
    \<open>TAILQ_PREV\<close>, \<open>TAILQ_INSERT_BEFORE\<close>, \<open>TAILQ_INSERT_AFTER\<close>; \<open>TAILQ_REMOVE\<close> is
    \<open>remove1\<close>, \<open>TAILQ_INSERT_TAIL\<close> is \<open>@\<close>, \<open>LIST_INSERT_HEAD\<close> is \<open>#\<close>.
\<close>

unbundle bit_operations_syntax

type_synonym u8 = "8 word"
type_synonym u32 = "32 word"
type_synonym i32 = "32 word"
type_synonym u64 = "64 word"
type_synonym i64 = "64 word"
type_synonym bytes = "8 word list"

named_theorems queue_simps \<open>laws of the sys/queue.h operations\<close>
named_theorems frame \<open>fields an operation leaves alone\<close>

section \<open>Loops that may abort\<close>

fun ofold :: "('a \<Rightarrow> 's \<Rightarrow> 's option) \<Rightarrow> 'a list \<Rightarrow> 's \<Rightarrow> 's option" where
  "ofold f [] s = Some s"
| "ofold f (x # xs) s = (case f x s of None \<Rightarrow> None | Some s' \<Rightarrow> ofold f xs s')"

lemma ofold_append:
  "ofold f (xs @ ys) s = (case ofold f xs s of None \<Rightarrow> None | Some s' \<Rightarrow> ofold f ys s')"
  by (induction xs arbitrary: s) (auto split: option.splits)

lemma ofold_invariant:
  assumes "ofold f xs s = Some t" and "P s"
    and "\<And>x u v. x \<in> set xs \<Longrightarrow> P u \<Longrightarrow> f x u = Some v \<Longrightarrow> P v"
  shows "P t"
  using assms
proof (induction xs arbitrary: s)
  case Nil
  then show ?case by simp
next
  case (Cons x xs)
  from Cons.prems(1) obtain u where u: "f x s = Some u" "ofold f xs u = Some t"
    by (auto split: option.splits)
  show ?case
    by (rule Cons.IH[OF u(2)]) (use Cons.prems u(1) in auto)
qed

lemma ofold_total:
  assumes "P s" and "\<And>x u. x \<in> set xs \<Longrightarrow> P u \<Longrightarrow> \<exists>v. f x u = Some v \<and> P v"
  shows "\<exists>t. ofold f xs s = Some t \<and> P t"
  using assms
proof (induction xs arbitrary: s)
  case Nil
  then show ?case by simp
next
  case (Cons x xs)
  from Cons.prems obtain u where "f x s = Some u" "P u"
    by (metis list.set_intros(1))
  with Cons.IH[of u] Cons.prems(2) show ?case by simp
qed

lemma ofold_cong:
  assumes "\<And>x u. x \<in> set xs \<Longrightarrow> f x u = g x u"
  shows "ofold f xs s = ofold g xs s"
  using assms by (induction xs arbitrary: s) (auto split: option.splits)

text \<open>A loop whose body computes \<open>Some (g x s)\<close> is an ordinary fold.\<close>

lemma ofold_pure: "ofold (\<lambda>x s. Some (g x s)) xs s = Some (fold g xs s)"
  by (induction xs arbitrary: s) auto

section \<open>The queues of sys/queue.h\<close>

fun next_of :: "'a \<Rightarrow> 'a list \<Rightarrow> 'a option" where
  "next_of x (y # z # zs) = (if y = x then Some z else next_of x (z # zs))"
| "next_of x _ = None"

fun prev_of :: "'a \<Rightarrow> 'a list \<Rightarrow> 'a option" where
  "prev_of x (y # z # zs) = (if z = x then Some y else prev_of x (z # zs))"
| "prev_of x _ = None"

fun insert_before :: "'a \<Rightarrow> 'a \<Rightarrow> 'a list \<Rightarrow> 'a list" where
  "insert_before b x [] = [x]"
| "insert_before b x (y # ys) = (if y = b then x # y # ys else y # insert_before b x ys)"

fun insert_after :: "'a \<Rightarrow> 'a \<Rightarrow> 'a list \<Rightarrow> 'a list" where
  "insert_after a x [] = [x]"
| "insert_after a x (y # ys) = (if y = a then y # x # ys else y # insert_after a x ys)"

lemma set_insert_before [queue_simps]: "set (insert_before b x xs) = insert x (set xs)"
  by (induction xs) auto

lemma distinct_insert_before [queue_simps]:
  "distinct (insert_before b x xs) \<longleftrightarrow> x \<notin> set xs \<and> distinct xs"
  by (induction xs) (auto simp: set_insert_before)

lemma set_insert_after [queue_simps]: "set (insert_after a x xs) = insert x (set xs)"
  by (induction xs) auto

lemma distinct_insert_after [queue_simps]:
  "distinct (insert_after a x xs) \<longleftrightarrow> x \<notin> set xs \<and> distinct xs"
  by (induction xs) (auto simp: set_insert_after)

lemma length_insert_before [queue_simps]: "length (insert_before b x xs) = Suc (length xs)"
  by (induction xs) auto

lemma next_of_Some_in: "next_of x xs = Some y \<Longrightarrow> y \<in> set xs"
  by (induction x xs rule: next_of.induct) (auto split: if_splits)

lemma not_next_of_self: "distinct xs \<Longrightarrow> next_of x xs \<noteq> Some x"
  by (induction x xs rule: next_of.induct) (auto split: if_splits)

text \<open>Moving an element to where it already is leaves the list as it was.\<close>

lemma insert_before_next:
  "distinct xs \<Longrightarrow> x \<in> set xs \<Longrightarrow> next_of x xs = Some b \<Longrightarrow> insert_before b x (remove1 x xs) = xs"
  by (induction x xs rule: next_of.induct) (auto split: if_splits dest: next_of_Some_in)

lemma append_next_None:
  "distinct xs \<Longrightarrow> x \<in> set xs \<Longrightarrow> next_of x xs = None \<Longrightarrow> remove1 x xs @ [x] = xs"
  by (induction x xs rule: next_of.induct) (auto split: if_splits)

lemma remove1_notin_id [queue_simps]: "x \<notin> set xs \<Longrightarrow> remove1 x xs = xs"
  by (rule remove1_idem)

lemma distinct_set_remove1 [queue_simps]: "distinct xs \<Longrightarrow> set (remove1 x xs) = set xs - {x}"
  by (rule set_remove1_eq)

end
