(* ===== verification/Float32.thy ===== *)
theory Float32
  imports Prelude
begin

text \<open>
  The C type \<open>float\<close> as its IEEE 754 binary32 bit pattern, with the four operations the
  property code performs on it: equality, ordering, conversion from \<open>int\<close> (round to nearest,
  ties to even) and conversion to \<open>int\<close> (truncation; undefined out of range and on NaN, which
  is \<open>None\<close>).
\<close>

type_synonym f32 = "32 word"

definition f32_mag :: "f32 \<Rightarrow> int" where
  "f32_mag x = uint x mod 2 ^ 31"

definition f32_neg :: "f32 \<Rightarrow> bool" where
  "f32_neg x \<longleftrightarrow> 2 ^ 31 \<le> uint x"

definition f32_exp :: "f32 \<Rightarrow> int" where
  "f32_exp x = f32_mag x div 2 ^ 23"

definition f32_man :: "f32 \<Rightarrow> int" where
  "f32_man x = f32_mag x mod 2 ^ 23"

definition f32_nan :: "f32 \<Rightarrow> bool" where
  "f32_nan x \<longleftrightarrow> f32_exp x = 255 \<and> f32_man x \<noteq> 0"

text \<open>Sign and magnitude order the non-NaN patterns as IEEE does, with both zeros equal.\<close>

definition f32_key :: "f32 \<Rightarrow> int" where
  "f32_key x = (if f32_neg x then - f32_mag x else f32_mag x)"

definition f32_eq :: "f32 \<Rightarrow> f32 \<Rightarrow> bool" where
  "f32_eq x y \<longleftrightarrow> \<not> f32_nan x \<and> \<not> f32_nan y \<and> f32_key x = f32_key y"

definition f32_lt :: "f32 \<Rightarrow> f32 \<Rightarrow> bool" where
  "f32_lt x y \<longleftrightarrow> \<not> f32_nan x \<and> \<not> f32_nan y \<and> f32_key x < f32_key y"

text \<open>The number of significant bits of a magnitude below \<open>2 ^ 32\<close>.\<close>

fun bit_len :: "nat \<Rightarrow> int \<Rightarrow> nat" where
  "bit_len 0 n = 0"
| "bit_len (Suc k) n = (if n \<le> 0 then 0 else Suc (bit_len k (n div 2)))"

text \<open>Rounding a magnitude of \<open>L\<close> bits to 24 significant bits, ties to even.\<close>

definition round24 :: "nat \<Rightarrow> int \<Rightarrow> int" where
  "round24 L a =
     (if L \<le> 24 then a * 2 ^ (24 - L)
      else let q = a div 2 ^ (L - 24); r = a mod 2 ^ (L - 24); h = 2 ^ (L - 25)
           in if h < r \<or> (h = r \<and> odd q) then q + 1 else q)"

definition f32_of_int :: "i32 \<Rightarrow> f32" where
  "f32_of_int v =
     (let a = \<bar>sint v\<bar>; L = bit_len 32 a
      in if a = 0 then 0
         else word_of_int ((if sint v < 0 then 2 ^ 31 else 0)
                + (int L + 126) * 2 ^ 23 + (round24 L a - 2 ^ 23)))"

definition f32_trunc :: "f32 \<Rightarrow> int" where
  "f32_trunc x =
     (let m = f32_man x + 2 ^ 23; e = f32_exp x;
          a = (if e < 127 then 0
               else if 150 \<le> e then m * 2 ^ nat (e - 150) else m div 2 ^ nat (150 - e))
      in if f32_neg x then - a else a)"

definition int_of_f32 :: "f32 \<Rightarrow> i32 option" where
  "int_of_f32 x =
     (if f32_exp x = 255 \<or> f32_trunc x < - (2 ^ 31) \<or> 2 ^ 31 \<le> f32_trunc x then None
      else Some (word_of_int (f32_trunc x)))"

lemma f32_eq_refl: "\<not> f32_nan x \<Longrightarrow> f32_eq x x"
  by (simp add: f32_eq_def)

lemma f32_lt_irrefl: "\<not> f32_lt x x"
  by (simp add: f32_lt_def)

lemmas f32_defs = f32_of_int_def round24_def int_of_f32_def f32_trunc_def f32_lt_def f32_eq_def
  f32_key_def f32_nan_def f32_man_def f32_exp_def f32_neg_def f32_mag_def

end
