(* ===== verification/Prop_State.thy ===== *)
theory Prop_State
  imports Float32
begin

text \<open>
  The state of the property system: \<open>struct prop\<close>, \<open>struct prop_sub\<close>, \<open>prop_notify_t\<close>,
  \<open>struct prop_courier\<close> and \<open>prop_sub_dispatch_t\<close> of \<open>src/prop/prop_i.h\<close> as records in an
  explicit store. A pointer is an identifier; a slot handed back to its pool has reference
  count 0 and its identifier is not reused. Flag words are sets of flags. Everything here runs
  under \<open>prop_mutex\<close>, so one operation is one state transformer; an \<open>assert\<close> that fails, an
  \<open>abort()\<close>, or a walk that does not end is \<open>None\<close>.
\<close>

type_synonym pid = nat
type_synonym sid = nat
type_synonym cid = nat
type_synonym did = nat
type_synonym vid = nat

section \<open>Properties\<close>

datatype pflag =
    PROP_CLIPPED_VALUE | PROP_NAME_NOT_ALLOCATED | PROP_XREFED_ORIGINATOR | PROP_MONITORED
  | PROP_MULTI_SUB | PROP_MULTI_NOTIFY | PROP_MARKED | PROP_INT_MARKED
  | PROP_HAVE_MORE | PROP_HAVE_MORE_YES

datatype str_type = PROP_STR_UTF8 | PROP_STR_RICH

text \<open>
  \<open>hp_type\<close> and the payload union are one datatype. The bounds of a number are \<open>None\<close> while
  the union's \<open>min\<close> and \<open>max\<close> members are indeterminate.
\<close>

datatype payload =
    PROP_VOID
  | PROP_DIR "pid list" "pid option"
  | PROP_RSTRING string str_type
  | PROP_CSTRING string
  | PROP_FLOAT f32 "(f32 \<times> f32) option"
  | PROP_INT i32 "(i32 \<times> i32) option"
  | PROP_URI "string option" "string option"
  | PROP_PROP pid
  | PROP_ZOMBIE
  | PROP_PROXY

record prop_t =
  hp_refcount :: int
  hp_name :: "string option"
  hp_parent :: "pid option"
  hp_value_subscriptions :: "sid list"
  hp_canonical_subscriptions :: "sid list"
  hp_originator :: "pid option"
  hp_targets :: "pid list"
  hp_type :: payload
  hp_xref :: nat
  hp_flags :: "pflag set"

section \<open>Subscriptions\<close>

datatype sflag =
    PROP_SUB_TRACK_DESTROY | PROP_SUB_DEBUG | PROP_SUB_SUBSCRIPTION_MONITOR | PROP_SUB_EXPEDITE
  | PROP_SUB_MULTI | PROP_SUB_INTERNAL | PROP_SUB_IGNORE_VOID | PROP_SUB_TRACK_DESTROY_EXP
  | PROP_SUB_SEND_VALUE_PROP | PROP_SUB_NO_INITIAL_UPDATE | PROP_SUB_EARLY_DEL_CHILD
  | PROP_SUB_DIRECT_UPDATE | PROP_SUB_DONTLOCK | PROP_SUB_SINGLETON | PROP_SUB_ALT_PATH

text \<open>\<open>hps_dispatch_mode\<close> with the \<open>hps_dispatch\<close> pointer each mode gives a meaning to.\<close>

datatype dispatch =
    MODE_COURIER cid
  | MODE_GLOBAL "did option"
  | MODE_GROUP did

record prop_sub_t =
  hps_flags :: "sflag set"
  hps_dispatch :: dispatch
  hps_lock :: "nat option"
  hps_callback :: nat
  hps_opaque :: nat
  hps_value_prop :: "pid option"
  hps_canonical_prop :: "pid option"
  hps_origins :: "pid list"
  hps_refcount :: int
  hps_zombie :: bool
  hps_proxy :: bool
  hps_pending_unlink :: bool

section \<open>Notifications, couriers, dispatch structures\<close>

datatype prop_event =
    EV_SET_VOID | EV_SET_RSTRING | EV_SET_CSTRING | EV_SET_INT | EV_SET_FLOAT | EV_SET_DIR
  | EV_SET_URI | EV_SET_PROP | EV_ADD_CHILD | EV_ADD_CHILD_BEFORE | EV_ADD_CHILD_VECTOR
  | EV_ADD_CHILD_VECTOR_BEFORE | EV_ADD_CHILD_VECTOR_DIRECT | EV_DEL_CHILD | EV_MOVE_CHILD
  | EV_SELECT_CHILD | EV_REQ_NEW_CHILD | EV_REQ_DELETE_VECTOR | EV_REQ_DELETE | EV_DESTROYED
  | EV_VALUE_PROP | EV_EXT_EVENT | EV_SUBSCRIPTION_MONITOR_ACTIVE | EV_HAVE_MORE_CHILDS_YES
  | EV_HAVE_MORE_CHILDS_NO | EV_WANT_MORE_CHILDS | EV_SUGGEST_FOCUS | EV_REQ_MOVE_CHILD

datatype notify_val =
    NV_none
  | NV_prop "pid option"
  | NV_propv vid "pid list"
  | NV_float f32
  | NV_int i32
  | NV_rstring string str_type
  | NV_cstring string
  | NV_uri "string option" "string option"
  | NV_event nat

record prop_notify_t =
  hpn_sub :: sid
  hpn_event :: prop_event
  hpn_val :: notify_val
  hpn_prop_extra :: "pid option"
  hpn_selected :: bool

record prop_courier_t =
  pc_queue_nor :: "prop_notify_t list"
  pc_queue_exp :: "prop_notify_t list"
  pc_dispatch_queue :: "prop_notify_t list"
  pc_free_queue :: "prop_notify_t list"
  pc_refcount :: int
  pc_entry_lock :: "nat option"
  pc_run :: bool

record prop_sub_dispatch_t =
  psd_notifications :: "prop_notify_t list"
  psd_wait_queue :: "did list"
  psd_refcount :: int

text \<open>Requests handed to the proxy connection of a remote property (\<open>prop_proxy.c\<close>).\<close>

datatype proxy_req =
    PX_SET_STRING pid string str_type
  | PX_SET_INT pid i32
  | PX_SET_FLOAT pid f32
  | PX_SET_VOID pid
  | PX_ADD_INT pid i32
  | PX_TOGGLE_INT pid
  | PX_SEND_EVENT pid nat
  | PX_REQ_MOVE pid "pid option"
  | PX_SELECT pid
  | PX_CREATE pid string
  | PX_DESTROY pid
  | PX_LINK pid pid
  | PX_WANT_MORE sid
  | PX_SUBSCRIBE sid pid "string list option"
  | PX_UNSUBSCRIBE sid
  | PX_MAKE pid "string list"

record pst =
  props :: "pid \<Rightarrow> prop_t"
  pnext :: pid
  subs :: "sid \<Rightarrow> prop_sub_t"
  snext :: sid
  couriers :: "cid \<Rightarrow> prop_courier_t"
  psds :: "did \<Rightarrow> prop_sub_dispatch_t"
  psdnext :: did
  pv_refcount :: "vid \<Rightarrow> int"
  vnext :: vid
  prop_global_dispatch_queue :: "did list"
  calls :: "prop_notify_t list"
  pnq :: "prop_notify_t list"
  proxy_log :: "proxy_req list"

section \<open>Access\<close>

definition upd_prop :: "pid \<Rightarrow> (prop_t \<Rightarrow> prop_t) \<Rightarrow> pst \<Rightarrow> pst" where
  "upd_prop p f st = st\<lparr>props := (props st)(p := f (props st p))\<rparr>"

definition upd_sub :: "sid \<Rightarrow> (prop_sub_t \<Rightarrow> prop_sub_t) \<Rightarrow> pst \<Rightarrow> pst" where
  "upd_sub s f st = st\<lparr>subs := (subs st)(s := f (subs st s))\<rparr>"

definition upd_courier :: "cid \<Rightarrow> (prop_courier_t \<Rightarrow> prop_courier_t) \<Rightarrow> pst \<Rightarrow> pst" where
  "upd_courier c f st = st\<lparr>couriers := (couriers st)(c := f (couriers st c))\<rparr>"

definition upd_psd :: "did \<Rightarrow> (prop_sub_dispatch_t \<Rightarrow> prop_sub_dispatch_t) \<Rightarrow> pst \<Rightarrow> pst" where
  "upd_psd d f st = st\<lparr>psds := (psds st)(d := f (psds st d))\<rparr>"

lemmas upd_defs = upd_prop_def upd_sub_def upd_courier_def upd_psd_def

definition type_of :: "pst \<Rightarrow> pid \<Rightarrow> payload" where
  "type_of st p = hp_type (props st p)"

definition is_dir :: "payload \<Rightarrow> bool" where
  "is_dir v = (case v of PROP_DIR _ _ \<Rightarrow> True | _ \<Rightarrow> False)"

definition childs_of :: "payload \<Rightarrow> pid list" where
  "childs_of v = (case v of PROP_DIR cs _ \<Rightarrow> cs | _ \<Rightarrow> [])"

definition selected_of :: "payload \<Rightarrow> pid option" where
  "selected_of v = (case v of PROP_DIR _ sel \<Rightarrow> sel | _ \<Rightarrow> None)"

abbreviation hp_childs :: "pst \<Rightarrow> pid \<Rightarrow> pid list" where
  "hp_childs st p \<equiv> childs_of (type_of st p)"

abbreviation hp_selected :: "pst \<Rightarrow> pid \<Rightarrow> pid option" where
  "hp_selected st p \<equiv> selected_of (type_of st p)"

definition set_type :: "pid \<Rightarrow> payload \<Rightarrow> pst \<Rightarrow> pst" where
  "set_type p v = upd_prop p (\<lambda>x. x\<lparr>hp_type := v\<rparr>)"

text \<open>Writing \<open>hp_childs\<close> or \<open>hp_selected\<close> of a directory.\<close>

definition set_childs :: "pid \<Rightarrow> pid list \<Rightarrow> pst \<Rightarrow> pst" where
  "set_childs p cs st = set_type p (PROP_DIR cs (hp_selected st p)) st"

definition set_selected :: "pid \<Rightarrow> pid option \<Rightarrow> pst \<Rightarrow> pst" where
  "set_selected p sel st = set_type p (PROP_DIR (hp_childs st p) sel) st"

lemma payload_sel [simp]:
  "is_dir (PROP_DIR cs sel)" "childs_of (PROP_DIR cs sel) = cs" "selected_of (PROP_DIR cs sel) = sel"
  by (simp_all add: is_dir_def childs_of_def selected_of_def)

lemma childs_of_nondir: "\<not> is_dir v \<Longrightarrow> childs_of v = []"
  by (auto simp: is_dir_def childs_of_def split: payload.splits)

lemma is_dirE: "is_dir v \<Longrightarrow> v = PROP_DIR (childs_of v) (selected_of v)"
  by (auto simp: is_dir_def split: payload.splits)

lemma is_dir_simps [simp]:
  "\<not> is_dir PROP_VOID" "\<not> is_dir PROP_ZOMBIE" "\<not> is_dir PROP_PROXY" "\<not> is_dir (PROP_RSTRING s t)"
  "\<not> is_dir (PROP_CSTRING s)" "\<not> is_dir (PROP_FLOAT f fr)" "\<not> is_dir (PROP_INT i ir)"
  "\<not> is_dir (PROP_URI a b)" "\<not> is_dir (PROP_PROP q)"
  by (simp_all add: is_dir_def)

subsection \<open>What each update leaves alone\<close>

lemma upd_prop_sel [simp]:
  "props (upd_prop p f st) = (props st)(p := f (props st p))"
  "pnext (upd_prop p f st) = pnext st" "subs (upd_prop p f st) = subs st"
  "snext (upd_prop p f st) = snext st" "couriers (upd_prop p f st) = couriers st"
  "psds (upd_prop p f st) = psds st" "psdnext (upd_prop p f st) = psdnext st"
  "prop_global_dispatch_queue (upd_prop p f st) = prop_global_dispatch_queue st"
  "calls (upd_prop p f st) = calls st" "pnq (upd_prop p f st) = pnq st"
  "proxy_log (upd_prop p f st) = proxy_log st" "pv_refcount (upd_prop p f st) = pv_refcount st"
  "vnext (upd_prop p f st) = vnext st"
  by (simp_all add: upd_prop_def)

lemma upd_sub_sel [simp]:
  "subs (upd_sub p f st) = (subs st)(p := f (subs st p))"
  "pnext (upd_sub p f st) = pnext st" "props (upd_sub p f st) = props st"
  "snext (upd_sub p f st) = snext st" "couriers (upd_sub p f st) = couriers st"
  "psds (upd_sub p f st) = psds st" "psdnext (upd_sub p f st) = psdnext st"
  "prop_global_dispatch_queue (upd_sub p f st) = prop_global_dispatch_queue st"
  "calls (upd_sub p f st) = calls st" "pnq (upd_sub p f st) = pnq st"
  "proxy_log (upd_sub p f st) = proxy_log st" "pv_refcount (upd_sub p f st) = pv_refcount st"
  "vnext (upd_sub p f st) = vnext st"
  by (simp_all add: upd_sub_def)

lemma upd_courier_sel [simp]:
  "couriers (upd_courier c f st) = (couriers st)(c := f (couriers st c))"
  "pnext (upd_courier c f st) = pnext st" "props (upd_courier c f st) = props st"
  "subs (upd_courier c f st) = subs st" "snext (upd_courier c f st) = snext st"
  "psds (upd_courier c f st) = psds st" "psdnext (upd_courier c f st) = psdnext st"
  "prop_global_dispatch_queue (upd_courier c f st) = prop_global_dispatch_queue st"
  "calls (upd_courier c f st) = calls st" "pnq (upd_courier c f st) = pnq st"
  "proxy_log (upd_courier c f st) = proxy_log st" "pv_refcount (upd_courier c f st) = pv_refcount st"
  "vnext (upd_courier c f st) = vnext st"
  by (simp_all add: upd_courier_def)

lemma upd_psd_sel [simp]:
  "psds (upd_psd d f st) = (psds st)(d := f (psds st d))"
  "pnext (upd_psd d f st) = pnext st" "props (upd_psd d f st) = props st"
  "subs (upd_psd d f st) = subs st" "snext (upd_psd d f st) = snext st"
  "couriers (upd_psd d f st) = couriers st" "psdnext (upd_psd d f st) = psdnext st"
  "prop_global_dispatch_queue (upd_psd d f st) = prop_global_dispatch_queue st"
  "calls (upd_psd d f st) = calls st" "pnq (upd_psd d f st) = pnq st"
  "proxy_log (upd_psd d f st) = proxy_log st" "pv_refcount (upd_psd d f st) = pv_refcount st"
  "vnext (upd_psd d f st) = vnext st"
  by (simp_all add: upd_psd_def)

lemma type_of_upd_prop [simp]:
  "type_of (upd_prop p f st) q = (if q = p then hp_type (f (props st p)) else type_of st q)"
  by (simp add: type_of_def)

lemma type_of_upd_other [simp]:
  "type_of (upd_sub s g st) q = type_of st q" "type_of (upd_courier c k st) q = type_of st q"
  "type_of (upd_psd d l st) q = type_of st q"
  by (simp_all add: type_of_def)

lemma type_of_set_type [simp]: "type_of (set_type p v st) q = (if q = p then v else type_of st q)"
  by (simp add: set_type_def)

lemma set_type_sel [simp]:
  "props (set_type p v st) = (props st)(p := (props st p)\<lparr>hp_type := v\<rparr>)"
  "pnext (set_type p v st) = pnext st" "subs (set_type p v st) = subs st"
  "snext (set_type p v st) = snext st" "couriers (set_type p v st) = couriers st"
  "psds (set_type p v st) = psds st" "psdnext (set_type p v st) = psdnext st"
  "prop_global_dispatch_queue (set_type p v st) = prop_global_dispatch_queue st"
  "calls (set_type p v st) = calls st" "pnq (set_type p v st) = pnq st"
  "proxy_log (set_type p v st) = proxy_log st" "pv_refcount (set_type p v st) = pv_refcount st"
  "vnext (set_type p v st) = vnext st"
  by (simp_all add: set_type_def)

section \<open>Reference counts\<close>

text \<open>\<open>prop_ref_inc\<close>: NULL is passed through.\<close>

definition prop_ref_inc :: "pid option \<Rightarrow> pst \<Rightarrow> pst" where
  "prop_ref_inc po st =
     (case po of None \<Rightarrow> st
      | Some p \<Rightarrow> upd_prop p (\<lambda>x. x\<lparr>hp_refcount := hp_refcount x + 1\<rparr>) st)"

text \<open>
  \<open>prop_ref_dec_locked\<close>: the last reference asserts that the property is a zombie before the
  slot goes back to \<open>prop_pool\<close>.
\<close>

definition prop_ref_dec_locked :: "pid option \<Rightarrow> pst \<Rightarrow> pst option" where
  "prop_ref_dec_locked po st =
     (case po of None \<Rightarrow> Some st
      | Some p \<Rightarrow>
          let st1 = upd_prop p (\<lambda>x. x\<lparr>hp_refcount := hp_refcount x - 1\<rparr>) st
          in if hp_refcount (props st1 p) \<noteq> 0 then Some st1
             else if type_of st1 p = PROP_ZOMBIE then Some st1 else None)"

definition prop_psd_release :: "did \<Rightarrow> pst \<Rightarrow> pst" where
  "prop_psd_release d = upd_psd d (\<lambda>x. x\<lparr>psd_refcount := psd_refcount x - 1\<rparr>)"

definition prop_sub_ref_dec_locked :: "sid \<Rightarrow> pst \<Rightarrow> pst" where
  "prop_sub_ref_dec_locked s st =
     (let st1 = upd_sub s (\<lambda>x. x\<lparr>hps_refcount := hps_refcount x - 1\<rparr>) st
      in if hps_refcount (subs st1 s) \<noteq> 0 then st1
         else case hps_dispatch (subs st1 s) of
                MODE_GROUP d \<Rightarrow> prop_psd_release d st1
              | _ \<Rightarrow> st1)"

text \<open>
  A property vector (\<open>prop_vec_t\<close>) is its identity, which carries the reference count, and its
  contents, which no longer change once the vector is shared.
\<close>

type_synonym prop_vec = "vid \<times> pid list"

definition prop_vec_create :: "pst \<Rightarrow> prop_vec \<times> pst" where
  "prop_vec_create st =
     ((vnext st, []), st\<lparr>vnext := Suc (vnext st), pv_refcount := (pv_refcount st)(vnext st := 1)\<rparr>)"

definition prop_vec_append :: "prop_vec \<Rightarrow> pid \<Rightarrow> pst \<Rightarrow> (prop_vec \<times> pst) option" where
  "prop_vec_append pv p st =
     (if pv_refcount st (fst pv) = 1
      then Some ((fst pv, snd pv @ [p]), prop_ref_inc (Some p) st) else None)"

definition prop_vec_addref :: "prop_vec \<Rightarrow> pst \<Rightarrow> pst" where
  "prop_vec_addref pv st =
     st\<lparr>pv_refcount := (pv_refcount st)(fst pv := pv_refcount st (fst pv) + 1)\<rparr>"

definition prop_vec_release :: "prop_vec \<Rightarrow> pst \<Rightarrow> pst option" where
  "prop_vec_release pv st =
     (let st1 = st\<lparr>pv_refcount := (pv_refcount st)(fst pv := pv_refcount st (fst pv) - 1)\<rparr>
      in if pv_refcount st1 (fst pv) \<noteq> 0 then Some st1
         else ofold (\<lambda>p. prop_ref_dec_locked (Some p)) (snd pv) st1)"

fun prop_vec_appends :: "prop_vec \<Rightarrow> pid list \<Rightarrow> pst \<Rightarrow> (prop_vec \<times> pst) option" where
  "prop_vec_appends pv [] st = Some (pv, st)"
| "prop_vec_appends pv (p # ps) st =
     (case prop_vec_append pv p st of None \<Rightarrow> None
      | Some (pv', st') \<Rightarrow> prop_vec_appends pv' ps st')"

text \<open>\<open>prop_xref_addref\<close>: the extended count is limited to 255.\<close>

definition prop_xref_addref :: "pid option \<Rightarrow> pst \<Rightarrow> pst option" where
  "prop_xref_addref po st =
     (case po of None \<Rightarrow> Some st
      | Some p \<Rightarrow> if hp_xref (props st p) < 255
                  then Some (upd_prop p (\<lambda>x. x\<lparr>hp_xref := hp_xref x + 1\<rparr>) st) else None)"

end
