(* ===== verification/Prop_Courier.thy ===== *)
theory Prop_Courier
  imports Prop_State
begin

text \<open>
  Notifications and their delivery (\<open>src/prop/prop_core.c\<close>): a notification holds a reference
  on its subscription and on the properties it names; it is queued on the subscription's
  courier, or on a dispatch structure served by the global dispatch threads; a courier is
  drained by its thread, by polling or by waiting. A callback is recorded in \<open>calls\<close>.
\<close>

section \<open>Building and freeing notifications\<close>

definition mk_notify :: "sid \<Rightarrow> prop_event \<Rightarrow> notify_val \<Rightarrow> prop_notify_t" where
  "mk_notify s ev v = \<lparr>hpn_sub = s, hpn_event = ev, hpn_val = v, hpn_prop_extra = None,
                       hpn_selected = False\<rparr>"

text \<open>\<open>prop_get_notify\<close>: the new notification takes a reference on the subscription.\<close>

definition prop_get_notify :: "sid \<Rightarrow> pst \<Rightarrow> pst" where
  "prop_get_notify s = upd_sub s (\<lambda>x. x\<lparr>hps_refcount := hps_refcount x + 1\<rparr>)"

definition nv_prop :: "notify_val \<Rightarrow> pid option" where
  "nv_prop v = (case v of NV_prop po \<Rightarrow> po | _ \<Rightarrow> None)"

definition release_propv :: "notify_val \<Rightarrow> pst \<Rightarrow> pst option" where
  "release_propv v st = (case v of NV_propv vi ps \<Rightarrow> prop_vec_release (vi, ps) st | _ \<Rightarrow> Some st)"

definition prop_notify_free_payload :: "prop_notify_t \<Rightarrow> pst \<Rightarrow> pst option" where
  "prop_notify_free_payload n st =
     (case hpn_event n of
        EV_ADD_CHILD_BEFORE \<Rightarrow>
          do { st1 \<leftarrow> prop_ref_dec_locked (hpn_prop_extra n) st; prop_ref_dec_locked (nv_prop (hpn_val n)) st1 }
      | EV_MOVE_CHILD \<Rightarrow>
          do { st1 \<leftarrow> prop_ref_dec_locked (hpn_prop_extra n) st; prop_ref_dec_locked (nv_prop (hpn_val n)) st1 }
      | EV_REQ_MOVE_CHILD \<Rightarrow>
          do { st1 \<leftarrow> prop_ref_dec_locked (hpn_prop_extra n) st; prop_ref_dec_locked (nv_prop (hpn_val n)) st1 }
      | EV_SELECT_CHILD \<Rightarrow>
          do { st1 \<leftarrow> prop_ref_dec_locked (hpn_prop_extra n) st; prop_ref_dec_locked (nv_prop (hpn_val n)) st1 }
      | EV_ADD_CHILD \<Rightarrow> prop_ref_dec_locked (nv_prop (hpn_val n)) st
      | EV_DEL_CHILD \<Rightarrow> prop_ref_dec_locked (nv_prop (hpn_val n)) st
      | EV_REQ_NEW_CHILD \<Rightarrow> prop_ref_dec_locked (nv_prop (hpn_val n)) st
      | EV_SUGGEST_FOCUS \<Rightarrow> prop_ref_dec_locked (nv_prop (hpn_val n)) st
      | EV_SET_PROP \<Rightarrow> prop_ref_dec_locked (nv_prop (hpn_val n)) st
      | EV_ADD_CHILD_VECTOR_BEFORE \<Rightarrow>
          do { st1 \<leftarrow> prop_ref_dec_locked (hpn_prop_extra n) st; release_propv (hpn_val n) st1 }
      | EV_REQ_DELETE_VECTOR \<Rightarrow> release_propv (hpn_val n) st
      | EV_ADD_CHILD_VECTOR \<Rightarrow> release_propv (hpn_val n) st
      | EV_ADD_CHILD_VECTOR_DIRECT \<Rightarrow> release_propv (hpn_val n) st
      | _ \<Rightarrow> Some st)"

definition prop_notify_free :: "prop_notify_t \<Rightarrow> pst \<Rightarrow> pst option" where
  "prop_notify_free n st =
     map_option (prop_sub_ref_dec_locked (hpn_sub n)) (prop_notify_free_payload n st)"

text \<open>
  \<open>notify_invoke\<close>: the callback is called with the payload, then the notification's references
  on properties are dropped. An event of the \<open>PROP_VALUE_PROP\<close> kind drops its reference here.
\<close>

definition notify_invoke :: "prop_notify_t \<Rightarrow> pst \<Rightarrow> pst option" where
  "notify_invoke n st =
     (let st0 = st\<lparr>calls := calls st @ [n]\<rparr>
      in case hpn_event n of
           EV_ADD_CHILD \<Rightarrow> prop_ref_dec_locked (nv_prop (hpn_val n)) st0
         | EV_ADD_CHILD_BEFORE \<Rightarrow>
             do { st1 \<leftarrow> prop_ref_dec_locked (nv_prop (hpn_val n)) st0; prop_ref_dec_locked (hpn_prop_extra n) st1 }
         | EV_MOVE_CHILD \<Rightarrow>
             do { st1 \<leftarrow> prop_ref_dec_locked (nv_prop (hpn_val n)) st0; prop_ref_dec_locked (hpn_prop_extra n) st1 }
         | EV_SELECT_CHILD \<Rightarrow>
             do { st1 \<leftarrow> prop_ref_dec_locked (nv_prop (hpn_val n)) st0; prop_ref_dec_locked (hpn_prop_extra n) st1 }
         | EV_REQ_MOVE_CHILD \<Rightarrow>
             do { st1 \<leftarrow> prop_ref_dec_locked (nv_prop (hpn_val n)) st0; prop_ref_dec_locked (hpn_prop_extra n) st1 }
         | EV_DEL_CHILD \<Rightarrow> prop_ref_dec_locked (nv_prop (hpn_val n)) st0
         | EV_REQ_NEW_CHILD \<Rightarrow> prop_ref_dec_locked (nv_prop (hpn_val n)) st0
         | EV_SUGGEST_FOCUS \<Rightarrow> prop_ref_dec_locked (nv_prop (hpn_val n)) st0
         | EV_SET_PROP \<Rightarrow> prop_ref_dec_locked (nv_prop (hpn_val n)) st0
         | EV_VALUE_PROP \<Rightarrow> prop_ref_dec_locked (nv_prop (hpn_val n)) st0
         | EV_REQ_DELETE_VECTOR \<Rightarrow> release_propv (hpn_val n) st0
         | EV_ADD_CHILD_VECTOR \<Rightarrow> release_propv (hpn_val n) st0
         | EV_ADD_CHILD_VECTOR_DIRECT \<Rightarrow> release_propv (hpn_val n) st0
         | EV_ADD_CHILD_VECTOR_BEFORE \<Rightarrow>
             do { st1 \<leftarrow> release_propv (hpn_val n) st0; prop_ref_dec_locked (hpn_prop_extra n) st1 }
         | _ \<Rightarrow> Some st0)"

section \<open>Queueing\<close>

text \<open>
  \<open>courier_enqueue0\<close>. Waking the courier (\<open>courier_notify\<close>) or a dispatch thread
  (\<open>prop_global_dispatch_wakeup\<close>) signals a thread and leaves this state alone.
\<close>

definition courier_enqueue0 :: "sid \<Rightarrow> prop_notify_t \<Rightarrow> bool \<Rightarrow> pst \<Rightarrow> pst" where
  "courier_enqueue0 s n expedite st =
     (case hps_dispatch (subs st s) of
        MODE_COURIER c \<Rightarrow>
          if expedite then upd_courier c (\<lambda>x. x\<lparr>pc_queue_exp := pc_queue_exp x @ [n]\<rparr>) st
          else upd_courier c (\<lambda>x. x\<lparr>pc_queue_nor := pc_queue_nor x @ [n]\<rparr>) st
      | MODE_GLOBAL None \<Rightarrow>
          let d = psdnext st;
              st1 = st\<lparr>psdnext := Suc d,
                       prop_global_dispatch_queue := prop_global_dispatch_queue st @ [d]\<rparr>;
              st2 = upd_psd d (\<lambda>_. \<lparr>psd_notifications = [n], psd_wait_queue = [], psd_refcount = 0\<rparr>) st1
          in upd_sub s (\<lambda>x. x\<lparr>hps_dispatch := MODE_GLOBAL (Some d)\<rparr>) st2
      | MODE_GLOBAL (Some d) \<Rightarrow>
          upd_psd d (\<lambda>x. x\<lparr>psd_notifications := psd_notifications x @ [n]\<rparr>) st
      | MODE_GROUP d \<Rightarrow>
          let st1 = (if psd_notifications (psds st d) = []
                     then st\<lparr>prop_global_dispatch_queue := prop_global_dispatch_queue st @ [d]\<rparr>
                     else st)
          in upd_psd d (\<lambda>x. x\<lparr>psd_notifications := psd_notifications x @ [n]\<rparr>) st1)"

definition prop_courier_enqueue :: "sid \<Rightarrow> prop_notify_t \<Rightarrow> pst \<Rightarrow> pst" where
  "prop_courier_enqueue s n st =
     courier_enqueue0 s n (PROP_SUB_EXPEDITE \<in> hps_flags (subs st s)) st"

section \<open>Delivery\<close>

datatype lockmode = LOCKMGR_LOCK | LOCKMGR_TRY

text \<open>
  \<open>prop_dispatch_one\<close>. \<open>busy\<close> are the locks other threads hold: trying one of them fails and
  returns 1 (here \<open>True\<close>), locking waits for it. A zombie subscription is not called.
\<close>

definition prop_dispatch_one ::
  "nat set \<Rightarrow> prop_notify_t \<Rightarrow> lockmode \<Rightarrow> pst \<Rightarrow> (bool \<times> pst) option" where
  "prop_dispatch_one busy n mode st =
     (let s = subs st (hpn_sub n)
      in if PROP_SUB_INTERNAL \<in> hps_flags s then None
         else if mode = LOCKMGR_TRY \<and> (\<exists>l \<in> busy. hps_lock s = Some l) then Some (True, st)
         else if hps_zombie s then map_option (Pair False) (prop_notify_free_payload n st)
         else map_option (Pair False) (notify_invoke n st))"

definition dispatch_locked :: "prop_notify_t \<Rightarrow> pst \<Rightarrow> pst option" where
  "dispatch_locked n st = map_option snd (prop_dispatch_one {} n LOCKMGR_LOCK st)"

definition prop_notify_dispatch :: "prop_notify_t list \<Rightarrow> pst \<Rightarrow> pst option" where
  "prop_notify_dispatch q st =
     map_option (fold (\<lambda>n. prop_sub_ref_dec_locked (hpn_sub n)) q) (ofold dispatch_locked q st)"

text \<open>Taking everything off a courier: expedited notifications first.\<close>

definition take_queues :: "cid \<Rightarrow> pst \<Rightarrow> prop_notify_t list \<times> pst" where
  "take_queues c st =
     (pc_queue_exp (couriers st c) @ pc_queue_nor (couriers st c),
      upd_courier c (\<lambda>x. x\<lparr>pc_queue_exp := [], pc_queue_nor := []\<rparr>) st)"

definition prop_courier_poll :: "cid \<Rightarrow> pst \<Rightarrow> pst option" where
  "prop_courier_poll c st = (case take_queues c st of (q, st1) \<Rightarrow> prop_notify_dispatch q st1)"

text \<open>
  \<open>prop_courier_wait_and_dispatch\<close> after the wait: \<open>None\<close> while both queues are empty, the
  thread then sleeps on \<open>pc_cond\<close>.
\<close>

definition prop_courier_wait :: "cid \<Rightarrow> pst \<Rightarrow> (prop_notify_t list \<times> pst) option" where
  "prop_courier_wait c st =
     (if pc_queue_exp (couriers st c) = [] \<and> pc_queue_nor (couriers st c) = [] then None
      else Some (take_queues c st))"

definition prop_courier_check :: "cid \<Rightarrow> pst \<Rightarrow> bool" where
  "prop_courier_check c st \<longleftrightarrow>
     pc_queue_exp (couriers st c) \<noteq> [] \<or> pc_queue_nor (couriers st c) \<noteq> []"

text \<open>
  One turn of the courier thread's loop: all expedited notifications and the first normal one.
  With nothing queued the thread sleeps and the state is as before.
\<close>

definition prop_courier_turn :: "cid \<Rightarrow> pst \<Rightarrow> pst option" where
  "prop_courier_turn c st =
     (let pc = couriers st c
      in if pc_queue_exp pc = [] \<and> pc_queue_nor pc = [] then Some st
         else let q_exp = pc_queue_exp pc; q_nor = take 1 (pc_queue_nor pc);
                  st1 = upd_courier c
                          (\<lambda>x. x\<lparr>pc_queue_exp := [], pc_queue_nor := drop 1 (pc_queue_nor pc)\<rparr>) st
              in do { st2 \<leftarrow> prop_notify_dispatch q_exp st1; prop_notify_dispatch q_nor st2 })"

text \<open>When \<open>pc_run\<close> is cleared the thread frees what is left on both queues.\<close>

definition prop_courier_exit :: "cid \<Rightarrow> pst \<Rightarrow> pst option" where
  "prop_courier_exit c st =
     do { st1 \<leftarrow> ofold prop_notify_free (pc_queue_exp (couriers st c))
                  (upd_courier c (\<lambda>x. x\<lparr>pc_queue_exp := []\<rparr>) st);
          ofold prop_notify_free (pc_queue_nor (couriers st c))
                  (upd_courier c (\<lambda>x. x\<lparr>pc_queue_nor := []\<rparr>) st1) }"

text \<open>
  \<open>prop_courier_poll_timed\<close>: when the mutex is free, the queues move behind what is left to
  dispatch and the dispatched notifications are freed; then notifications are dispatched until
  the time is up, here after \<open>k + 1\<close> of them (the clock is read after each). A \<open>maxtime\<close> of
  -1 is \<open>None\<close>: an ordinary poll.
\<close>

fun dispatch_upto :: "nat \<Rightarrow> cid \<Rightarrow> pst \<Rightarrow> pst option" where
  "dispatch_upto k c st =
     (case pc_dispatch_queue (couriers st c) of
        [] \<Rightarrow> Some st
      | n # ns \<Rightarrow>
          (case dispatch_locked n st of
             None \<Rightarrow> None
           | Some st1 \<Rightarrow>
               let st2 = upd_courier c (\<lambda>x. x\<lparr>pc_dispatch_queue := ns,
                                               pc_free_queue := pc_free_queue x @ [n]\<rparr>) st1
               in case k of 0 \<Rightarrow> Some st2 | Suc k' \<Rightarrow> dispatch_upto k' c st2))"

definition prop_courier_poll_timed :: "bool \<Rightarrow> nat option \<Rightarrow> cid \<Rightarrow> pst \<Rightarrow> pst option" where
  "prop_courier_poll_timed mutex_free maxtime c st =
     (case maxtime of
        None \<Rightarrow> prop_courier_poll c st
      | Some k \<Rightarrow>
          let pc = couriers st c;
              st1 = (if mutex_free
                     then fold (\<lambda>n. prop_sub_ref_dec_locked (hpn_sub n)) (pc_free_queue pc)
                            (upd_courier c (\<lambda>x. x\<lparr>pc_dispatch_queue :=
                                  pc_dispatch_queue x @ pc_queue_exp x @ pc_queue_nor x,
                                pc_queue_exp := [], pc_queue_nor := [], pc_free_queue := []\<rparr>) st)
                     else st)
          in dispatch_upto k c st1)"

end
