(* ===== verification/Prop_Notify.thy ===== *)
theory Prop_Notify
  imports Prop_Courier
begin

text \<open>
  What a property tells its subscriptions (the \<open>prop_build_notify_*\<close> and \<open>prop_notify_*\<close>
  functions of \<open>src/prop/prop_core.c\<close>). An internal subscription, or one in direct mode, is
  called at once (recorded in \<open>calls\<close>); every other one gets a queued notification. The call
  back of an internal subscription runs code of its owner, which is not part of this state.
\<close>

definition is_internal :: "pst \<Rightarrow> sid \<Rightarrow> bool" where
  "is_internal st s \<longleftrightarrow> PROP_SUB_INTERNAL \<in> hps_flags (subs st s)"

definition call_now :: "prop_notify_t \<Rightarrow> pst \<Rightarrow> pst" where
  "call_now n st = st\<lparr>calls := calls st @ [n]\<rparr>"

text \<open>A notification goes to the deferred queue of \<open>prop_link0\<close> when there is one.\<close>

definition enqueue_or_defer :: "bool \<Rightarrow> sid \<Rightarrow> prop_notify_t \<Rightarrow> pst \<Rightarrow> pst" where
  "enqueue_or_defer deferred s n st =
     (if deferred then st\<lparr>pnq := pnq st @ [n]\<rparr> else prop_courier_enqueue s n st)"

text \<open>The event and payload that carry a value; zombies and proxies have none (\<open>abort()\<close>).\<close>

fun value_event :: "payload \<Rightarrow> (prop_event \<times> notify_val) option" where
  "value_event (PROP_RSTRING s t) = Some (EV_SET_RSTRING, NV_rstring s t)"
| "value_event (PROP_CSTRING s) = Some (EV_SET_CSTRING, NV_cstring s)"
| "value_event (PROP_URI t u) = Some (EV_SET_URI, NV_uri t u)"
| "value_event (PROP_FLOAT f _) = Some (EV_SET_FLOAT, NV_float f)"
| "value_event (PROP_INT i _) = Some (EV_SET_INT, NV_int i)"
| "value_event (PROP_DIR _ _) = Some (EV_SET_DIR, NV_none)"
| "value_event PROP_VOID = Some (EV_SET_VOID, NV_none)"
| "value_event (PROP_PROP p) = Some (EV_SET_PROP, NV_prop (Some p))"
| "value_event PROP_ZOMBIE = None"
| "value_event PROP_PROXY = None"

text \<open>The direct call passes \<open>PROP_SET_DIR\<close> where the queued one has \<open>PROP_SET_PROP\<close>.\<close>

definition direct_event :: "payload \<Rightarrow> (prop_event \<times> notify_val) option" where
  "direct_event v =
     (case v of PROP_PROP p \<Rightarrow> Some (EV_SET_DIR, NV_prop (Some p)) | _ \<Rightarrow> value_event v)"

definition prop_build_notify_value :: "sid \<Rightarrow> bool \<Rightarrow> pid \<Rightarrow> bool \<Rightarrow> pst \<Rightarrow> pst option" where
  "prop_build_notify_value s direct p deferred st =
     (let fl = hps_flags (subs st s); v = type_of st p
      in if PROP_SUB_IGNORE_VOID \<in> fl \<and> v = PROP_VOID then Some st
         else if PROP_SUB_DEBUG \<in> fl \<and> v = PROP_PROXY then None
         else if (direct \<or> PROP_SUB_INTERNAL \<in> fl) \<and> \<not> deferred then
           (let st1 = (if PROP_SUB_SEND_VALUE_PROP \<in> fl
                       then call_now (mk_notify s EV_VALUE_PROP (NV_prop (Some p))) st else st)
            in case direct_event v of None \<Rightarrow> None
               | Some (ev, nv) \<Rightarrow> Some (call_now (mk_notify s ev nv) st1))
         else
           (let st1 = (if PROP_SUB_SEND_VALUE_PROP \<in> fl
                       then enqueue_or_defer deferred s (mk_notify s EV_VALUE_PROP (NV_prop (Some p)))
                              (prop_ref_inc (Some p) (prop_get_notify s st))
                       else st);
                st2 = prop_get_notify s st1
            in case value_event v of None \<Rightarrow> None
               | Some (ev, nv) \<Rightarrow>
                   Some (enqueue_or_defer deferred s (mk_notify s ev nv) (prop_ref_inc (nv_prop nv) st2))))"

definition prop_notify_void :: "sid \<Rightarrow> pst \<Rightarrow> pst" where
  "prop_notify_void s st =
     (let fl = hps_flags (subs st s)
      in if PROP_SUB_IGNORE_VOID \<in> fl then st
         else if PROP_SUB_INTERNAL \<in> fl
              then call_now (mk_notify s EV_SET_VOID (NV_prop (hps_value_prop (subs st s)))) st
         else prop_courier_enqueue s (mk_notify s EV_SET_VOID NV_none) (prop_get_notify s st))"

text \<open>Destruction is expedited for the subscriptions that asked for it.\<close>

definition wants_exp :: "sflag set \<Rightarrow> bool" where
  "wants_exp fl \<longleftrightarrow> PROP_SUB_EXPEDITE \<in> fl \<or> PROP_SUB_TRACK_DESTROY_EXP \<in> fl"

definition prop_notify_simple :: "pid \<Rightarrow> sid option \<Rightarrow> prop_event \<Rightarrow> pst \<Rightarrow> pst" where
  "prop_notify_simple p skipme ev st =
     fold (\<lambda>s st. if Some s = skipme then st
                  else courier_enqueue0 s (mk_notify s ev NV_none) (wants_exp (hps_flags (subs st s)))
                         (prop_get_notify s st))
       (hp_value_subscriptions (props st p)) st"

definition prop_notify_destroyed :: "sid \<Rightarrow> pst \<Rightarrow> pst" where
  "prop_notify_destroyed s st =
     (let fl = hps_flags (subs st s)
      in if PROP_SUB_INTERNAL \<in> fl then call_now (mk_notify s EV_DESTROYED NV_none) st
         else courier_enqueue0 s (mk_notify s EV_DESTROYED NV_none) (wants_exp fl)
                (prop_get_notify s st))"

text \<open>
  \<open>prop_notify_value\<close>: the property's own subscriptions, then the \<open>PROP_SUB_MULTI\<close>
  subscriptions of the properties above it. The walk up ends at the root; \<open>pnext\<close> steps are
  enough when no property is its own ancestor.
\<close>

fun ancestors :: "nat \<Rightarrow> pst \<Rightarrow> pid \<Rightarrow> pid list option" where
  "ancestors 0 st p = None"
| "ancestors (Suc k) st p =
     (case hp_parent (props st p) of None \<Rightarrow> Some []
      | Some q \<Rightarrow> map_option ((#) q) (ancestors k st q))"

definition notify_multi :: "pid \<Rightarrow> pst \<Rightarrow> pst option" where
  "notify_multi q st =
     (if PROP_MULTI_SUB \<in> hp_flags (props st q)
      then ofold (\<lambda>s st. if PROP_SUB_MULTI \<in> hps_flags (subs st s)
                         then prop_build_notify_value s False q False st else Some st)
             (hp_value_subscriptions (props st q)) st
      else Some st)"

definition prop_notify_value :: "pid \<Rightarrow> sid option \<Rightarrow> pst \<Rightarrow> pst option" where
  "prop_notify_value p skipme st =
     do { st1 \<leftarrow> ofold (\<lambda>s st. if Some s = skipme then Some st
                    else case hps_value_prop (subs st s) of None \<Rightarrow> None
                         | Some vp \<Rightarrow> prop_build_notify_value s False vp False st)
            (hp_value_subscriptions (props st p)) st;
          if PROP_MULTI_NOTIFY \<in> hp_flags (props st1 p)
          then (case ancestors (Suc (pnext st1)) st1 p of None \<Rightarrow> None
                | Some qs \<Rightarrow> ofold notify_multi qs st1)
          else Some st1 }"

definition prop_build_notify_child :: "sid \<Rightarrow> pid option \<Rightarrow> prop_event \<Rightarrow> bool \<Rightarrow> bool \<Rightarrow> pst \<Rightarrow> pst" where
  "prop_build_notify_child s po ev direct flags st =
     (let n = (mk_notify s ev (NV_prop po))\<lparr>hpn_selected := flags\<rparr>
      in if direct \<or> is_internal st s then call_now n st
         else prop_courier_enqueue s n (prop_ref_inc po (prop_get_notify s st)))"

definition prop_notify_child :: "pid option \<Rightarrow> pid \<Rightarrow> prop_event \<Rightarrow> sid option \<Rightarrow> pst \<Rightarrow> pst" where
  "prop_notify_child child parent ev skipme st =
     fold (\<lambda>s st. if Some s = skipme then st else prop_build_notify_child s child ev False False st)
       (hp_value_subscriptions (props st parent)) st"

text \<open>
  \<open>prop_build_notify_child2\<close> takes a reference on its first property without looking at it:
  with NULL and a queued subscription it writes through a null pointer.
\<close>

definition prop_build_notify_child2 ::
  "sid \<Rightarrow> pid option \<Rightarrow> pid option \<Rightarrow> prop_event \<Rightarrow> bool \<Rightarrow> pst \<Rightarrow> pst option" where
  "prop_build_notify_child2 s po extra ev direct st =
     (let n = (mk_notify s ev (NV_prop po))\<lparr>hpn_prop_extra := extra\<rparr>
      in if direct \<or> is_internal st s then Some (call_now n st)
         else case po of None \<Rightarrow> None
              | Some p \<Rightarrow>
                  Some (prop_courier_enqueue s n
                          (prop_ref_inc extra (prop_ref_inc (Some p) (prop_get_notify s st)))))"

definition prop_notify_child2 ::
  "pid option \<Rightarrow> pid \<Rightarrow> pid option \<Rightarrow> prop_event \<Rightarrow> sid option \<Rightarrow> pst \<Rightarrow> pst option" where
  "prop_notify_child2 child parent sibling ev skipme st =
     ofold (\<lambda>s st. if Some s = skipme then Some st
                   else prop_build_notify_child2 s child sibling ev False st)
       (hp_value_subscriptions (props st parent)) st"

definition prop_build_notify_childv ::
  "sid \<Rightarrow> prop_vec \<Rightarrow> prop_event \<Rightarrow> pid option \<Rightarrow> bool \<Rightarrow> pst \<Rightarrow> pst" where
  "prop_build_notify_childv s pv ev p2 direct st =
     (let n = (mk_notify s ev (NV_propv (fst pv) (snd pv)))\<lparr>hpn_prop_extra := p2\<rparr>
      in if direct \<or> is_internal st s then call_now n st
         else prop_courier_enqueue s n
                (prop_ref_inc p2 (prop_vec_addref pv (prop_get_notify s st))))"

definition prop_notify_childv ::
  "prop_vec \<Rightarrow> pid \<Rightarrow> prop_event \<Rightarrow> sid option \<Rightarrow> pid option \<Rightarrow> pst \<Rightarrow> pst" where
  "prop_notify_childv pv parent ev skipme p2 st =
     fold (\<lambda>s st. if Some s = skipme then st else prop_build_notify_childv s pv ev p2 False st)
       (hp_value_subscriptions (props st parent)) st"

text \<open>\<open>prop_send_ext_event0\<close> follows the links to the originator; a cycle never ends.\<close>

fun follow_originator :: "nat \<Rightarrow> pst \<Rightarrow> pid \<Rightarrow> pid option" where
  "follow_originator 0 st p = None"
| "follow_originator (Suc k) st p =
     (case hp_originator (props st p) of None \<Rightarrow> Some p | Some q \<Rightarrow> follow_originator k st q)"

definition prop_send_ext_event :: "pid \<Rightarrow> nat \<Rightarrow> pst \<Rightarrow> pst option" where
  "prop_send_ext_event p e st =
     (if type_of st p = PROP_PROXY then Some (st\<lparr>proxy_log := proxy_log st @ [PX_SEND_EVENT p e]\<rparr>)
      else map_option (\<lambda>q. fold (\<lambda>s st. prop_courier_enqueue s (mk_notify s EV_EXT_EVENT (NV_event e))
                                          (prop_get_notify s st))
                             (hp_value_subscriptions (props st q)) st)
             (follow_originator (Suc (pnext st)) st p))"

definition prop_send_event :: "pid \<Rightarrow> prop_event \<Rightarrow> pst \<Rightarrow> pst" where
  "prop_send_event p ev st =
     fold (\<lambda>s st. if is_internal st s then call_now (mk_notify s ev NV_none) st
                  else prop_courier_enqueue s (mk_notify s ev NV_none) (prop_get_notify s st))
       (hp_value_subscriptions (props st p)) st"

definition prop_send_subscription_monitor_active :: "pid \<Rightarrow> pst \<Rightarrow> pst" where
  "prop_send_subscription_monitor_active p st =
     fold (\<lambda>s st. if PROP_SUB_SUBSCRIPTION_MONITOR \<in> hps_flags (subs st s)
                  then prop_courier_enqueue s (mk_notify s EV_SUBSCRIPTION_MONITOR_ACTIVE NV_none)
                         (prop_get_notify s st)
                  else st)
       (hp_value_subscriptions (props st p)) st"

end
