(* ===== verification/Prop_Tree.thy ===== *)
theory Prop_Tree
  imports Prop_Notify
begin

text \<open>
  The tree of properties (\<open>src/prop/prop_core.c\<close>): creating a property, inserting it, moving it
  among its siblings, giving it another parent, and the flags that flow down the tree.
\<close>

section \<open>Cleaning a property before its type changes\<close>

text \<open>The first answer of a search over a list of children, where each answer may not end.\<close>

fun first_answer :: "('a \<Rightarrow> 'b option option) \<Rightarrow> 'a list \<Rightarrow> 'b option option" where
  "first_answer f [] = Some None"
| "first_answer f (x # xs) =
     (case f x of None \<Rightarrow> None | Some (Some y) \<Rightarrow> Some (Some y) | Some None \<Rightarrow> first_answer f xs)"

fun prop_check_canonical_subs_descending :: "nat \<Rightarrow> pst \<Rightarrow> pid \<Rightarrow> sid option option" where
  "prop_check_canonical_subs_descending 0 st p = None"
| "prop_check_canonical_subs_descending (Suc k) st p =
     first_answer (\<lambda>c. case hp_canonical_subscriptions (props st c) of
                         s # _ \<Rightarrow> Some (Some s)
                       | [] \<Rightarrow> prop_check_canonical_subs_descending k st c)
       (hp_childs st p)"

text \<open>
  \<open>prop_clean\<close>, with the function that destroys the children of a directory as an argument: it
  is tied to \<open>prop_destroy_childs0\<close> below. The result \<open>True\<close> is the return value 1, a refusal.
\<close>

definition prop_clean_with ::
  "(pid \<Rightarrow> pst \<Rightarrow> pst option) \<Rightarrow> pid \<Rightarrow> pst \<Rightarrow> (bool \<times> pst) option" where
  "prop_clean_with destroy_childs p st =
     (if PROP_CLIPPED_VALUE \<in> hp_flags (props st p) then Some (True, st)
      else case type_of st p of
             PROP_DIR _ _ \<Rightarrow>
               (case prop_check_canonical_subs_descending (Suc (pnext st)) st p of
                  None \<Rightarrow> None
                | Some (Some _) \<Rightarrow> Some (True, st)
                | Some None \<Rightarrow> map_option (Pair False) (destroy_childs p st))
           | PROP_ZOMBIE \<Rightarrow> Some (True, st)
           | PROP_PROXY \<Rightarrow> Some (True, st)
           | PROP_PROP q \<Rightarrow> map_option (Pair False) (prop_ref_dec_locked (Some q) st)
           | _ \<Rightarrow> Some (False, st))"

text \<open>
  \<open>prop_make_dir\<close> calls \<open>prop_clean\<close> on a property that is no directory, so the argument is
  never used (\<open>prop_make_dir_clean\<close> below); a refusal aborts.
\<close>

definition prop_make_dir :: "pid \<Rightarrow> sid option \<Rightarrow> pst \<Rightarrow> pst option" where
  "prop_make_dir p skipme st =
     (if is_dir (type_of st p) then Some st
      else case prop_clean_with (\<lambda>_ _. None) p st of
             Some (False, st1) \<Rightarrow> prop_notify_value p skipme (set_type p (PROP_DIR [] None) st1)
           | _ \<Rightarrow> None)"

lemma prop_make_dir_clean:
  "\<not> is_dir (type_of st p) \<Longrightarrow>
   prop_clean_with d p st = prop_clean_with (\<lambda>_ _. None) p st"
  by (auto simp: prop_clean_with_def is_dir_def split: payload.splits)

section \<open>Flags that flow down\<close>

fun prop_flood_flag :: "nat \<Rightarrow> pflag set \<Rightarrow> pflag set \<Rightarrow> pid \<Rightarrow> pst \<Rightarrow> pst option" where
  "prop_flood_flag 0 sf cf p st = None"
| "prop_flood_flag (Suc k) sf cf p st =
     (let st1 = upd_prop p (\<lambda>x. x\<lparr>hp_flags := (hp_flags x \<union> sf) - cf\<rparr>) st
      in ofold (prop_flood_flag k sf cf) (hp_childs st1 p) st1)"

definition prop_flood_flag_on_childs :: "pflag set \<Rightarrow> pflag set \<Rightarrow> pid \<Rightarrow> pst \<Rightarrow> pst option" where
  "prop_flood_flag_on_childs sf cf p st =
     ofold (prop_flood_flag (Suc (pnext st)) sf cf) (hp_childs st p) st"

definition prop_set_multi :: "pid \<Rightarrow> pst \<Rightarrow> pst option" where
  "prop_set_multi p st =
     (if PROP_MULTI_SUB \<in> hp_flags (props st p) then Some st
      else let st1 = upd_prop p (\<lambda>x. x\<lparr>hp_flags := insert PROP_MULTI_SUB (hp_flags x)\<rparr>) st
           in if is_dir (type_of st1 p) then prop_flood_flag_on_childs {PROP_MULTI_NOTIFY} {} p st1
              else Some st1)"

definition prop_clr_multi :: "pid \<Rightarrow> pst \<Rightarrow> pst option" where
  "prop_clr_multi p st =
     (let st1 = upd_prop p (\<lambda>x. x\<lparr>hp_flags := hp_flags x - {PROP_MULTI_SUB}\<rparr>) st
      in if is_dir (type_of st1 p) \<and> PROP_MULTI_NOTIFY \<notin> hp_flags (props st1 p)
         then prop_flood_flag_on_childs {} {PROP_MULTI_NOTIFY} p st1 else Some st1)"

text \<open>What a new child of \<open>parent\<close> inherits.\<close>

definition inherit_multi :: "pid \<Rightarrow> pid \<Rightarrow> pst \<Rightarrow> pst option" where
  "inherit_multi p parent st =
     (if PROP_MULTI_SUB \<in> hp_flags (props st parent) \<or> PROP_MULTI_NOTIFY \<in> hp_flags (props st parent)
      then prop_flood_flag (Suc (pnext st)) {PROP_MULTI_NOTIFY} {} p st else Some st)"

section \<open>Creating\<close>

text \<open>The list of children is a member of a directory only: anything else is foreign memory.\<close>

definition prop_insert :: "pid \<Rightarrow> pid \<Rightarrow> pid option \<Rightarrow> sid option \<Rightarrow> pst \<Rightarrow> pst option" where
  "prop_insert p parent before skipme st =
     (if \<not> is_dir (type_of st parent) then None
      else case before of
        Some b \<Rightarrow>
          if hp_parent (props st b) = Some parent
          then prop_notify_child2 (Some p) parent before EV_ADD_CHILD_BEFORE skipme
                 (set_childs parent (insert_before b p (hp_childs st parent)) st)
          else None
      | None \<Rightarrow>
          Some (prop_notify_child (Some p) parent EV_ADD_CHILD skipme
                  (set_childs parent (hp_childs st parent @ [p]) st)))"

definition prop_make :: "string option \<Rightarrow> bool \<Rightarrow> pid option \<Rightarrow> pst \<Rightarrow> pid \<times> pst" where
  "prop_make name noalloc parent st =
     (pnext st,
      st\<lparr>props := (props st)(pnext st :=
            \<lparr>hp_refcount = 1, hp_name = name, hp_parent = parent, hp_value_subscriptions = [],
             hp_canonical_subscriptions = [], hp_originator = None, hp_targets = [],
             hp_type = PROP_VOID, hp_xref = 1,
             hp_flags = (if noalloc then {PROP_NAME_NOT_ALLOCATED} else {})\<rparr>),
         pnext := Suc (pnext st)\<rparr>)"

text \<open>The child of a directory with a given name.\<close>

definition find_child :: "pst \<Rightarrow> pid \<Rightarrow> string \<Rightarrow> pid option" where
  "find_child st parent name =
     List.find (\<lambda>c. hp_name (props st c) = Some name) (hp_childs st parent)"

text \<open>
  A child of a remote property is made by the proxy connection; here it is a new property of
  type \<open>PROP_PROXY\<close>.
\<close>

definition prop_proxy_create :: "pid \<Rightarrow> string \<Rightarrow> pst \<Rightarrow> pid \<times> pst" where
  "prop_proxy_create parent name st =
     (case prop_make (Some name) False None st of
        (p, st1) \<Rightarrow> (p, (set_type p PROP_PROXY st1)\<lparr>proxy_log := proxy_log st @ [PX_CREATE parent name]\<rparr>))"

definition prop_create0 ::
  "pid \<Rightarrow> string option \<Rightarrow> sid option \<Rightarrow> bool \<Rightarrow> pst \<Rightarrow> (pid \<times> pst) option" where
  "prop_create0 parent name skipme noalloc st =
     (if type_of st parent = PROP_ZOMBIE then None
      else if type_of st parent = PROP_PROXY then
        (case name of None \<Rightarrow> None | Some nm \<Rightarrow> Some (prop_proxy_create parent nm st))
      else do {
        st1 \<leftarrow> prop_make_dir parent skipme st;
        (case Option.bind name (find_child st1 parent) of
           Some hp \<Rightarrow>
             Some (hp, if PROP_NAME_NOT_ALLOCATED \<notin> hp_flags (props st1 hp) \<and> noalloc
                       then upd_prop hp (\<lambda>x. x\<lparr>hp_name := name,
                              hp_flags := insert PROP_NAME_NOT_ALLOCATED (hp_flags x)\<rparr>) st1
                       else st1)
         | None \<Rightarrow>
             (case prop_make name noalloc (Some parent) st1 of
                (hp, st2) \<Rightarrow>
                  do { st3 \<leftarrow> inherit_multi hp parent st2;
                       st4 \<leftarrow> prop_insert hp parent None skipme st3;
                       Some (hp, st4) })) })"

definition prop_create_ex ::
  "pid option \<Rightarrow> string option \<Rightarrow> sid option \<Rightarrow> bool \<Rightarrow> bool \<Rightarrow> pst \<Rightarrow> (pid option \<times> pst) option" where
  "prop_create_ex parent name skipme noalloc incref st =
     do { (p, st1) \<leftarrow>
            (case parent of
               Some q \<Rightarrow> if type_of st q \<noteq> PROP_ZOMBIE
                         then map_option (\<lambda>(p, st'). (Some p, st')) (prop_create0 q name skipme noalloc st)
                         else Some (None, st)
             | None \<Rightarrow> Some (None, st));
          Some (p, if incref then prop_ref_inc p st1 else st1) }"

definition prop_create_root_ex :: "string option \<Rightarrow> bool \<Rightarrow> pst \<Rightarrow> pid \<times> pst" where
  "prop_create_root_ex name noalloc st = prop_make name noalloc None st"

fun create_path :: "pid \<Rightarrow> string list \<Rightarrow> pst \<Rightarrow> (pid \<times> pst) option" where
  "create_path p [] st = Some (p, st)"
| "create_path p (n # ns) st =
     (case prop_create0 p (Some n) None False st of None \<Rightarrow> None | Some (q, st1) \<Rightarrow> create_path q ns st1)"

definition prop_create_multi :: "pid \<Rightarrow> string list \<Rightarrow> pst \<Rightarrow> (pid \<times> pst) option" where
  "prop_create_multi p names st =
     (if type_of st p = PROP_ZOMBIE then Some (p, prop_ref_inc (Some p) st)
      else map_option (\<lambda>(q, st1). (q, prop_ref_inc (Some q) st1)) (create_path p names st))"

text \<open>
  \<open>TAILQ_INSERT_AFTER\<close>, or \<open>TAILQ_INSERT_HEAD\<close> for NULL; an \<open>after\<close> that is not on the list
  corrupts it.
\<close>

definition tailq_insert_after :: "pid option \<Rightarrow> pid \<Rightarrow> pid list \<Rightarrow> pid list option" where
  "tailq_insert_after after p cs =
     (case after of None \<Rightarrow> Some (p # cs)
      | Some a \<Rightarrow> if a \<in> set cs then Some (insert_after a p cs) else None)"

text \<open>
  \<open>prop_create_after\<close>: a new child is announced with \<open>PROP_ADD_CHILD_BEFORE\<close> when it has no
  successor, and with \<open>PROP_ADD_CHILD\<close> when it has one.
\<close>

definition prop_create_after ::
  "pid option \<Rightarrow> string \<Rightarrow> pid option \<Rightarrow> sid option \<Rightarrow> pst \<Rightarrow> (pid option \<times> pst) option" where
  "prop_create_after parent name after skipme st =
     (case parent of
        None \<Rightarrow> Some (None, st)
      | Some q \<Rightarrow>
          if type_of st q = PROP_ZOMBIE then Some (None, st)
          else do {
            st1 \<leftarrow> prop_make_dir q skipme st;
            (case find_child st1 q name of
               None \<Rightarrow>
                 (case prop_make (Some name) False (Some q) st1 of
                    (p, st2) \<Rightarrow> do {
                      cs \<leftarrow> tailq_insert_after after p (hp_childs st2 q);
                      let st3 = set_childs q cs st2 in
                      (case next_of p cs of
                         None \<Rightarrow> map_option (Pair (Some p))
                                   (prop_notify_child2 (Some p) q None EV_ADD_CHILD_BEFORE skipme st3)
                       | Some _ \<Rightarrow> Some (Some p, prop_notify_child (Some p) q EV_ADD_CHILD skipme st3)) })
             | Some p \<Rightarrow>
                 if prev_of p (hp_childs st1 q) = after then Some (Some p, st1)
                 else do {
                   cs \<leftarrow> tailq_insert_after after p (remove1 p (hp_childs st1 q));
                   map_option (Pair (Some p))
                     (prop_notify_child2 (Some p) q (next_of p cs) EV_MOVE_CHILD skipme
                        (set_childs q cs st1)) }) })"

section \<open>Moving\<close>

definition prop_move0 :: "pid \<Rightarrow> pid option \<Rightarrow> sid option \<Rightarrow> pst \<Rightarrow> pst option" where
  "prop_move0 p before skipme st =
     (if before = Some p then None
      else if (case before of None \<Rightarrow> False
               | Some b \<Rightarrow> hp_parent (props st p) \<noteq> hp_parent (props st b)) then Some st
      else case hp_parent (props st p) of
             None \<Rightarrow> Some st
           | Some parent \<Rightarrow>
               let cs = hp_childs st parent
               in if next_of p cs = before then Some st
                  else if \<not> is_dir (type_of st parent) then None
                  else let cs1 = remove1 p cs;
                           cs2 = (case before of Some b \<Rightarrow> insert_before b p cs1 | None \<Rightarrow> cs1 @ [p])
                       in prop_notify_child2 (Some p) parent before EV_MOVE_CHILD skipme
                            (set_childs parent cs2 st))"

definition prop_req_move0 :: "pid \<Rightarrow> pid option \<Rightarrow> sid option \<Rightarrow> pst \<Rightarrow> pst option" where
  "prop_req_move0 p before skipme st =
     (if before = Some p then Some st
      else if type_of st p = PROP_PROXY then
        (if skipme = None then Some (st\<lparr>proxy_log := proxy_log st @ [PX_REQ_MOVE p before]\<rparr>) else None)
      else case hp_parent (props st p) of
             None \<Rightarrow> None
           | Some parent \<Rightarrow>
               if next_of p (hp_childs st parent) = before then Some st
               else prop_notify_child2 (Some p) parent before EV_REQ_MOVE_CHILD skipme st)"

text \<open>\<open>TAILQ_REMOVE\<close> from the children of a directory; on anything else it walks foreign memory.\<close>

definition remove_child :: "pid \<Rightarrow> pid \<Rightarrow> pst \<Rightarrow> pst option" where
  "remove_child parent p st =
     (if is_dir (type_of st parent)
      then Some (upd_prop p (\<lambda>x. x\<lparr>hp_parent := None\<rparr>)
                  (set_childs parent (remove1 p (hp_childs st parent)) st))
      else None)"

definition deselect :: "pid \<Rightarrow> pid \<Rightarrow> pst \<Rightarrow> pst" where
  "deselect parent p st = (if hp_selected st parent = Some p then set_selected parent None st else st)"

definition prop_unparent0 :: "pid \<Rightarrow> pst \<Rightarrow> pst option" where
  "prop_unparent0 p st =
     (case hp_parent (props st p) of
        None \<Rightarrow> Some st
      | Some parent \<Rightarrow>
          if PROP_MULTI_NOTIFY \<in> hp_flags (props st p) then None
          else map_option (deselect parent p)
                 (remove_child parent p (prop_notify_child (Some p) parent EV_DEL_CHILD None st)))"

text \<open>The loop of \<open>prop_unparent_childs\<close> passes the directory itself to \<open>prop_unparent0\<close>.\<close>

definition prop_unparent_childs :: "pid \<Rightarrow> pst \<Rightarrow> pst option" where
  "prop_unparent_childs p st =
     (if is_dir (type_of st p) then ofold (\<lambda>c. prop_unparent0 p) (hp_childs st p) st else Some st)"

definition prop_set_parent0 ::
  "pid \<Rightarrow> pid \<Rightarrow> pid option \<Rightarrow> sid option \<Rightarrow> pst \<Rightarrow> (bool \<times> pst) option" where
  "prop_set_parent0 p parent before skipme st =
     (if type_of st parent = PROP_ZOMBIE then Some (False, st)
      else do {
        st1 \<leftarrow> prop_make_dir parent skipme st;
        if hp_parent (props st1 p) \<noteq> Some parent then
          do { st2 \<leftarrow> prop_unparent0 p st1;
               let st3 = upd_prop p (\<lambda>x. x\<lparr>hp_parent := Some parent\<rparr>) st2 in
               do { st4 \<leftarrow> inherit_multi p parent st3;
                    map_option (Pair True) (prop_insert p parent before skipme st4) } }
        else map_option (Pair True) (prop_move0 p before skipme st1) })"

end
