(* ===== verification/Prop_Link.thy ===== *)
theory Prop_Link
  imports Prop_Tree
begin

text \<open>
  Links between properties (\<open>src/prop/prop_core.c\<close>): a property whose \<open>hp_originator\<close> is set
  takes its value from there, so linking moves the subscriptions below the destination to the
  corresponding properties below the source, and unlinking moves back those that followed the
  broken link. A subscription remembers the links it followed in \<open>hps_origins\<close>: NULL is the
  empty list, \<open>hps_origin\<close> one element, \<open>hps_pots\<close> two or more. Recursions over trees and
  chains of links take a fuel argument; out of fuel is \<open>None\<close>, as a walk that does not end.
\<close>

fun prop_value_compare :: "payload \<Rightarrow> payload \<Rightarrow> bool option" where
  "prop_value_compare (PROP_RSTRING a _) (PROP_RSTRING b _) = Some (a = b)"
| "prop_value_compare (PROP_CSTRING a) (PROP_CSTRING b) = Some (a = b)"
| "prop_value_compare (PROP_URI t u) (PROP_URI t' u') =
     (case (t, t') of
        (Some a, Some b) \<Rightarrow>
          (if a \<noteq> b then Some False
           else case (u, u') of (Some c, Some d) \<Rightarrow> Some (c = d) | _ \<Rightarrow> None)
      | _ \<Rightarrow> None)"
| "prop_value_compare (PROP_FLOAT a _) (PROP_FLOAT b _) = Some (f32_eq a b)"
| "prop_value_compare (PROP_INT a _) (PROP_INT b _) = Some (a = b)"
| "prop_value_compare PROP_VOID PROP_VOID = Some True"
| "prop_value_compare PROP_ZOMBIE PROP_ZOMBIE = Some True"
| "prop_value_compare _ _ = Some False"

text \<open>Taking a subscription off the list of its value property.\<close>

definition unlink_value_sub :: "sid \<Rightarrow> pid \<Rightarrow> pst \<Rightarrow> pst" where
  "unlink_value_sub s p =
     upd_prop p (\<lambda>x. x\<lparr>hp_value_subscriptions := remove1 s (hp_value_subscriptions x)\<rparr>)"

definition gen_add_flags :: "pid \<Rightarrow> pid \<Rightarrow> pst \<Rightarrow> bool" where
  "gen_add_flags c p st \<longleftrightarrow> hp_selected st p = Some c"

text \<open>
  \<open>retarget_subscription\<close> in its three parts: leaving the old value property, a directory being
  flushed out first; entering the new one; telling its value and its children.
\<close>

definition retarget_leave :: "pid \<Rightarrow> sid \<Rightarrow> sid option \<Rightarrow> pst \<Rightarrow> (bool \<times> pst) option" where
  "retarget_leave p s skipme st =
     (case hps_value_prop (subs st s) of
        None \<Rightarrow> Some (False, st)
      | Some v \<Rightarrow>
          (let st1 = (if is_dir (type_of st v) \<and> Some s \<noteq> skipme then prop_notify_void s st else st)
           in map_option (\<lambda>e. (e, unlink_value_sub s v st1))
                (prop_value_compare (type_of st v) (type_of st p))))"

definition retarget_enter :: "pid \<Rightarrow> sid \<Rightarrow> pst \<Rightarrow> pst" where
  "retarget_enter p s st =
     (let st1 = upd_sub s (\<lambda>x. x\<lparr>hps_value_prop := Some p\<rparr>)
                  (upd_prop p (\<lambda>x. x\<lparr>hp_value_subscriptions := s # hp_value_subscriptions x\<rparr>) st)
      in if PROP_MONITORED \<in> hp_flags (props st1 p)
         then prop_send_subscription_monitor_active p st1 else st1)"

definition retarget_tell :: "pid \<Rightarrow> sid \<Rightarrow> bool \<Rightarrow> pst \<Rightarrow> pst option" where
  "retarget_tell p s deferred st =
     map_option
       (\<lambda>st1. fold (\<lambda>c st. prop_build_notify_child s (Some c) EV_ADD_CHILD False (gen_add_flags c p st) st)
                (hp_childs st1 p) st1)
       (prop_build_notify_value s False p deferred
          (upd_sub s (\<lambda>x. x\<lparr>hps_pending_unlink := deferred\<rparr>) st))"

definition retarget_subscription ::
  "pid \<Rightarrow> sid \<Rightarrow> sid option \<Rightarrow> bool \<Rightarrow> pst \<Rightarrow> pst option" where
  "retarget_subscription p s skipme deferred st =
     (if hps_value_prop (subs st s) = Some p then Some st
      else case retarget_leave p s skipme st of
             None \<Rightarrow> None
           | Some (equal, st1) \<Rightarrow>
               let st2 = retarget_enter p s st1
               in if Some s = skipme \<or> equal then Some st2 else retarget_tell p s deferred st2)"

definition prepend_origin :: "sid \<Rightarrow> pid \<Rightarrow> pst \<Rightarrow> pst" where
  "prepend_origin s pre st =
     (if pre \<in> set (hps_origins (subs st s)) then st
      else prop_ref_inc (Some pre) (upd_sub s (\<lambda>x. x\<lparr>hps_origins := pre # hps_origins x\<rparr>) st))"

definition prepend_origins :: "sid \<Rightarrow> pid list \<Rightarrow> pst \<Rightarrow> pst" where
  "prepend_origins s pv st = fold (prepend_origin s) pv st"

fun search_for_linkage :: "nat \<Rightarrow> pst \<Rightarrow> pid \<Rightarrow> pid \<Rightarrow> bool option" where
  "search_for_linkage 0 st src link = None"
| "search_for_linkage (Suc k) st src link =
     do { q \<leftarrow> follow_originator (Suc (pnext st)) st src;
          if \<exists>s \<in> set (hp_value_subscriptions (props st q)). link \<in> set (hps_origins (subs st s))
          then Some True
          else map_option (\<lambda>r. r \<noteq> None)
                 (first_answer
                    (\<lambda>c. if hp_name (props st c) = None then Some None
                         else map_option (\<lambda>b. if b then Some () else None)
                                (search_for_linkage k st c link))
                    (hp_childs st q)) }"

text \<open>One subscription of the broken link's source goes back to the destination.\<close>

definition restore_one ::
  "pid \<Rightarrow> sid option \<Rightarrow> bool \<Rightarrow> pid \<Rightarrow> pid list \<Rightarrow> sid \<Rightarrow> pst \<Rightarrow> pst option" where
  "restore_one dst skipme deferred broken pv s st =
     (if broken \<notin> set (hps_origins (subs st s)) then Some st
      else do {
        st1 \<leftarrow> prop_ref_dec_locked (Some broken)
                  (upd_sub s (\<lambda>x. x\<lparr>hps_origins := remove1 broken (hps_origins x)\<rparr>) st);
        st2 \<leftarrow> retarget_subscription dst s skipme deferred st1;
        Some (prepend_origins s pv st2) })"

fun restore_and_descend ::
  "nat \<Rightarrow> pid \<Rightarrow> pid \<Rightarrow> sid option \<Rightarrow> bool \<Rightarrow> pid \<Rightarrow> pid list \<Rightarrow> pst \<Rightarrow> pst option" where
  "restore_and_descend 0 dst src skipme deferred broken pv st = None"
| "restore_and_descend (Suc k) dst src skipme deferred broken pv st =
     do { st1 \<leftarrow> ofold (restore_one dst skipme deferred broken pv)
                    (hp_value_subscriptions (props st src)) st;
          ofold (\<lambda>c st.
            (case hp_name (props st c) of
               None \<Rightarrow> Some st
             | Some nm \<Rightarrow>
                 do { q \<leftarrow> follow_originator (Suc (pnext st)) st c;
                      found \<leftarrow> search_for_linkage (Suc (pnext st)) st q broken;
                      if \<not> found then Some st
                      else do {
                        (z, st2) \<leftarrow> prop_create0 dst (Some nm) None
                                       (PROP_NAME_NOT_ALLOCATED \<in> hp_flags (props st c)) st;
                        st3 \<leftarrow> (if is_dir (type_of st2 c) then prop_make_dir z skipme st2 else Some st2);
                        restore_and_descend k z q skipme deferred broken pv st3 } }))
            (hp_childs st1 src) st1 }"

fun prop_follow_and_unlink ::
  "nat \<Rightarrow> pid \<Rightarrow> pid \<Rightarrow> sid option \<Rightarrow> bool \<Rightarrow> pid list \<Rightarrow> pst \<Rightarrow> pst option" where
  "prop_follow_and_unlink 0 dst src skipme deferred pv st = None"
| "prop_follow_and_unlink (Suc k) dst src skipme deferred pv st =
     (case hp_originator (props st src) of
        Some q \<Rightarrow> prop_follow_and_unlink k dst q skipme deferred (pv @ [src]) st
      | None \<Rightarrow>
          do { found \<leftarrow> search_for_linkage (Suc (pnext st)) st src dst;
               if found
               then restore_and_descend (Suc (pnext st)) dst src skipme deferred dst pv st
               else Some st })"

text \<open>
  \<open>prop_unlink0\<close>, with \<open>prop_destroy0\<close> as an argument: it drops the reference a hard link holds
  on its source.
\<close>

definition prop_unlink0_with ::
  "(pid \<Rightarrow> pst \<Rightarrow> (bool \<times> pst) option) \<Rightarrow> pid \<Rightarrow> sid option \<Rightarrow> bool \<Rightarrow> pst \<Rightarrow> pst option" where
  "prop_unlink0_with destroy dst skipme deferred st =
     (case hp_originator (props st dst) of
        None \<Rightarrow> None
      | Some src \<Rightarrow>
          do { st1 \<leftarrow> prop_follow_and_unlink (Suc (pnext st)) dst src skipme deferred []
                         (upd_prop src (\<lambda>x. x\<lparr>hp_targets := remove1 dst (hp_targets x)\<rparr>)
                           (upd_prop dst (\<lambda>x. x\<lparr>hp_originator := None\<rparr>) st));
               if PROP_XREFED_ORIGINATOR \<in> hp_flags (props st1 dst)
               then map_option (\<lambda>(_, st2). upd_prop dst
                       (\<lambda>x. x\<lparr>hp_flags := hp_flags x - {PROP_XREFED_ORIGINATOR}\<rparr>) st2)
                      (destroy src st1)
               else Some st1 })"

text \<open>All subscriptions of the destination move to the source, then those of its children.\<close>

fun relink_subscriptions ::
  "nat \<Rightarrow> pid \<Rightarrow> pid \<Rightarrow> sid option \<Rightarrow> pid list \<Rightarrow> pst \<Rightarrow> pst option" where
  "relink_subscriptions 0 src dst skipme pv st = None"
| "relink_subscriptions (Suc k) src dst skipme pv st =
     (case hp_originator (props st src) of
        Some q \<Rightarrow> relink_subscriptions k q dst skipme (pv @ [src]) st
      | None \<Rightarrow>
          if src = dst then None
          else do {
            st1 \<leftarrow> ofold (\<lambda>s st. map_option (prepend_origins s pv)
                               (retarget_subscription src s skipme False (unlink_value_sub s dst st)))
                      (hp_value_subscriptions (props st dst)) st;
            if \<not> is_dir (type_of st1 dst) then Some st1
            else if \<not> is_dir (type_of st1 src) \<and> type_of st1 src \<noteq> PROP_VOID then Some st1
            else do {
              st2 \<leftarrow> prop_make_dir src skipme st1;
              ofold (\<lambda>c st.
                (case hp_name (props st c) of
                   None \<Rightarrow> Some st
                 | Some nm \<Rightarrow>
                     do { (z, st3) \<leftarrow> prop_create0 src (Some nm) None
                                         (PROP_NAME_NOT_ALLOCATED \<in> hp_flags (props st c)) st;
                          st4 \<leftarrow> (if is_dir (type_of st3 c) then prop_make_dir z skipme st3 else Some st3);
                          relink_subscriptions k z c skipme pv st4 }))
                (hp_childs st2 dst) st2 } })"

datatype link_mode = PROP_LINK_NORMAL | PROP_LINK_XREFED | PROP_LINK_XREFED_IF_ORPHANED

text \<open>
  The notifications the unlink deferred: those the new link has already replaced are freed, the
  others are delivered now.
\<close>

definition flush_deferred :: "prop_notify_t \<Rightarrow> pst \<Rightarrow> pst option" where
  "flush_deferred n st =
     (let s = hpn_sub n
      in if hps_pending_unlink (subs st s)
         then let st1 = upd_sub s (\<lambda>x. x\<lparr>hps_pending_unlink := False\<rparr>) st
              in if is_internal st1 s
                 then map_option (prop_sub_ref_dec_locked s) (notify_invoke n st1)
                 else Some (prop_courier_enqueue s n st1)
         else prop_notify_free n st)"

definition prop_link0_with ::
  "(pid \<Rightarrow> pst \<Rightarrow> (bool \<times> pst) option) \<Rightarrow> pid \<Rightarrow> pid \<Rightarrow> sid option \<Rightarrow> link_mode \<Rightarrow> pst \<Rightarrow> pst option" where
  "prop_link0_with destroy src dst skipme hard st =
     (if src = dst then None
      else if type_of st src = PROP_ZOMBIE \<or> type_of st dst = PROP_ZOMBIE then Some st
      else if hp_originator (props st dst) = Some src then Some st
      else do {
        st1 \<leftarrow> (if hp_originator (props st dst) \<noteq> None
                  then prop_unlink0_with destroy dst skipme True (st\<lparr>pnq := []\<rparr>)
                  else Some (st\<lparr>pnq := []\<rparr>));
        st2 \<leftarrow> (if hard = PROP_LINK_XREFED
                     \<or> (hard = PROP_LINK_XREFED_IF_ORPHANED \<and> hp_parent (props st1 src) = None)
                  then prop_xref_addref (Some src)
                         (upd_prop dst (\<lambda>x. x\<lparr>hp_flags := insert PROP_XREFED_ORIGINATOR (hp_flags x)\<rparr>) st1)
                  else Some st1);
        let st3 = upd_prop src (\<lambda>x. x\<lparr>hp_targets := dst # hp_targets x\<rparr>)
                    (upd_prop dst (\<lambda>x. x\<lparr>hp_originator := Some src\<rparr>) st2)
        in do {
          st4 \<leftarrow> relink_subscriptions (Suc (pnext st3 + pnext st3)) src dst skipme [dst] st3;
          ofold flush_deferred (pnq st4) (st4\<lparr>pnq := []\<rparr>) } })"

end
