(* ===== verification/Prop_Destroy.thy ===== *)
theory Prop_Destroy
  imports Prop_Link
begin

text \<open>
  Destroying properties (\<open>src/prop/prop_core.c\<close>). \<open>prop_destroy0\<close> drops one extended reference;
  with the last one it breaks the links from the property, destroys its children, turns it into
  a zombie, detaches its subscriptions and leaves its parent. The function calls itself on
  children and on the sources of hard links: the helpers take it as the argument \<open>destroy\<close>,
  and the recursion carries fuel, one unit per nested call.
\<close>

type_synonym destroyer = "pid \<Rightarrow> pst \<Rightarrow> (bool \<times> pst) option"

definition prop_remove_from_originator :: "destroyer \<Rightarrow> pid \<Rightarrow> pst \<Rightarrow> pst option" where
  "prop_remove_from_originator destroy p st =
     (case hp_originator (props st p) of
        None \<Rightarrow> None
      | Some q \<Rightarrow>
          let st1 = upd_prop q (\<lambda>x. x\<lparr>hp_targets := remove1 p (hp_targets x)\<rparr>) st
          in do { st2 \<leftarrow> (if PROP_XREFED_ORIGINATOR \<in> hp_flags (props st1 p)
                           then map_option (\<lambda>(_, st'). upd_prop p
                                   (\<lambda>x. x\<lparr>hp_flags := hp_flags x - {PROP_XREFED_ORIGINATOR}\<rparr>) st')
                                  (destroy q st1)
                           else Some st1);
                  Some (upd_prop p (\<lambda>x. x\<lparr>hp_originator := None\<rparr>) st2) })"

fun recursive_unlink :: "nat \<Rightarrow> destroyer \<Rightarrow> pid \<Rightarrow> pst \<Rightarrow> pst option" where
  "recursive_unlink 0 destroy p st = None"
| "recursive_unlink (Suc k) destroy p st =
     (case hp_targets (props st p) of
        [] \<Rightarrow> Some st
      | c # _ \<Rightarrow>
          do { st1 \<leftarrow> recursive_unlink k destroy c st;
               st2 \<leftarrow> prop_unlink0_with destroy c None False st1;
               recursive_unlink k destroy p st2 })"

text \<open>A child that survives the destruction of its directory is detached from it.\<close>

definition prop_destroy_child :: "destroyer \<Rightarrow> pid \<Rightarrow> pid \<Rightarrow> pst \<Rightarrow> pst option" where
  "prop_destroy_child destroy p c st =
     (case destroy c st of
        None \<Rightarrow> None
      | Some (True, st1) \<Rightarrow> Some st1
      | Some (False, st1) \<Rightarrow> remove_child p c (prop_notify_child (Some c) p EV_DEL_CHILD None st1))"

text \<open>The subscriptions of \<open>parent\<close> that want to hear of a deleted child early, and the others.\<close>

definition notify_del_child :: "bool \<Rightarrow> pid \<Rightarrow> pid \<Rightarrow> pst \<Rightarrow> pst" where
  "notify_del_child early c parent st =
     fold (\<lambda>s st. if (PROP_SUB_EARLY_DEL_CHILD \<in> hps_flags (subs st s)) = early
                  then prop_build_notify_child s (Some c) EV_DEL_CHILD False False st else st)
       (hp_value_subscriptions (props st parent)) st"

definition tracks_destroy :: "sflag set \<Rightarrow> bool" where
  "tracks_destroy fl \<longleftrightarrow> PROP_SUB_TRACK_DESTROY \<in> fl \<or> PROP_SUB_TRACK_DESTROY_EXP \<in> fl"

definition drop_canonical_sub :: "pid \<Rightarrow> sid \<Rightarrow> pst \<Rightarrow> pst" where
  "drop_canonical_sub p s st =
     (let st1 = upd_sub s (\<lambda>x. x\<lparr>hps_canonical_prop := None\<rparr>)
                  (upd_prop p (\<lambda>x. x\<lparr>hp_canonical_subscriptions := remove1 s (hp_canonical_subscriptions x)\<rparr>) st)
      in if tracks_destroy (hps_flags (subs st1 s)) then prop_notify_destroyed s st1 else st1)"

definition drop_value_sub :: "pid \<Rightarrow> sid \<Rightarrow> pst \<Rightarrow> pst" where
  "drop_value_sub p s st =
     (let st1 = (if tracks_destroy (hps_flags (subs st s)) then st else prop_notify_void s st)
      in upd_sub s (\<lambda>x. x\<lparr>hps_value_prop := None\<rparr>) (unlink_value_sub s p st1))"

text \<open>The payload goes: children first for a directory, references for the rest.\<close>

definition destroy_payload :: "destroyer \<Rightarrow> pid \<Rightarrow> pst \<Rightarrow> pst option" where
  "destroy_payload destroy p st =
     (case type_of st p of
        PROP_ZOMBIE \<Rightarrow> None
      | PROP_DIR cs _ \<Rightarrow> ofold (prop_destroy_child destroy p) cs st
      | PROP_PROP q \<Rightarrow> prop_ref_dec_locked (Some q) st
      | _ \<Rightarrow> Some st)"

text \<open>The subscriptions leave, first the canonical ones, then those of the value.\<close>

definition drop_subs :: "pid \<Rightarrow> pst \<Rightarrow> pst" where
  "drop_subs p st =
     (let st1 = fold (drop_canonical_sub p) (hp_canonical_subscriptions (props st p)) st
      in fold (drop_value_sub p) (hp_value_subscriptions (props st1 p)) st1)"

text \<open>The zombie leaves its originator and its parent, and drops the tree's reference.\<close>

definition destroy_leave :: "destroyer \<Rightarrow> pid \<Rightarrow> pid option \<Rightarrow> pst \<Rightarrow> (bool \<times> pst) option" where
  "destroy_leave destroy p parent st =
     do { st1 \<leftarrow> (if hp_originator (props st p) \<noteq> None
                    then prop_remove_from_originator destroy p st else Some st);
          st2 \<leftarrow> (case parent of None \<Rightarrow> Some st1
                    | Some q \<Rightarrow> map_option (deselect q p)
                                 (remove_child q p (notify_del_child False p q st1)));
          map_option (Pair True) (prop_ref_dec_locked (Some p) st2) }"

definition destroy_live :: "destroyer \<Rightarrow> pid \<Rightarrow> pid option \<Rightarrow> pst \<Rightarrow> (bool \<times> pst) option" where
  "destroy_live destroy p parent st =
     (if type_of st p = PROP_PROXY then
        (if hp_originator (props st p) \<noteq> None then None
         else map_option (Pair True)
                (prop_ref_dec_locked (Some p)
                  ((set_type p PROP_ZOMBIE st)\<lparr>proxy_log := proxy_log st @ [PX_DESTROY p]\<rparr>)))
      else do {
        st1 \<leftarrow> destroy_payload destroy p st;
        destroy_leave destroy p parent (drop_subs p (set_type p PROP_ZOMBIE st1)) })"

definition prop_destroy0_body :: "destroyer \<Rightarrow> destroyer" where
  "prop_destroy0_body destroy p st =
     (let parent = hp_parent (props st p);
          st1 = upd_prop p (\<lambda>x. x\<lparr>hp_xref := (hp_xref x + 255) mod 256\<rparr>) st
      in if type_of st p = PROP_ZOMBIE then Some (False, st)
         else if hp_xref (props st1 p) \<noteq> 0 then Some (False, st1)
         else do {
           st2 \<leftarrow> recursive_unlink (Suc (pnext st1)) destroy p st1;
           destroy_live destroy p parent
             (case parent of None \<Rightarrow> st2 | Some q \<Rightarrow> notify_del_child True p q st2) })"

fun prop_destroy0 :: "nat \<Rightarrow> destroyer" where
  "prop_destroy0 0 p st = None"
| "prop_destroy0 (Suc k) p st = prop_destroy0_body (prop_destroy0 k) p st"

definition destroy_now :: destroyer where
  "destroy_now p st = prop_destroy0 (Suc (pnext st + pnext st)) p st"

definition prop_destroy :: "pid option \<Rightarrow> pst \<Rightarrow> pst option" where
  "prop_destroy po st = (case po of None \<Rightarrow> Some st | Some p \<Rightarrow> map_option snd (destroy_now p st))"

definition prop_destroy_childs0 :: "pid \<Rightarrow> pst \<Rightarrow> pst option" where
  "prop_destroy_childs0 p st =
     (let childs = hp_childs st p
      in do { st1 \<leftarrow> prop_notify_value p None (set_type p PROP_VOID st);
              ofold (\<lambda>c st.
                       map_option snd (destroy_now c
                         (upd_prop c (\<lambda>x. x\<lparr>hp_parent := None\<rparr>) (notify_del_child True c p st))))
                childs st1 })"

definition prop_destroy_childs :: "pid option \<Rightarrow> pst \<Rightarrow> pst option" where
  "prop_destroy_childs po st =
     (case po of None \<Rightarrow> Some st
      | Some p \<Rightarrow> if is_dir (type_of st p) then prop_destroy_childs0 p st else Some st)"

definition prop_clean :: "pid \<Rightarrow> pst \<Rightarrow> (bool \<times> pst) option" where
  "prop_clean = prop_clean_with prop_destroy_childs0"

fun prop_void_childs0 :: "nat \<Rightarrow> pid \<Rightarrow> pst \<Rightarrow> pst option" where
  "prop_void_childs0 0 p st = None"
| "prop_void_childs0 (Suc k) p st =
     (if type_of st p = PROP_ZOMBIE then Some st
      else if is_dir (type_of st p) then ofold (prop_void_childs0 k) (hp_childs st p) st
      else case prop_clean p st of
             None \<Rightarrow> None
           | Some (True, st1) \<Rightarrow> Some st1
           | Some (False, st1) \<Rightarrow> prop_notify_value p None (set_type p PROP_VOID st1))"

definition prop_void_childs :: "pid option \<Rightarrow> pst \<Rightarrow> pst option" where
  "prop_void_childs po st =
     (case po of None \<Rightarrow> Some st | Some p \<Rightarrow> prop_void_childs0 (Suc (pnext st)) p st)"

definition prop_destroy_by_name :: "pid \<Rightarrow> string option \<Rightarrow> pst \<Rightarrow> pst option" where
  "prop_destroy_by_name p name st =
     (if \<not> is_dir (type_of st p) then Some st
      else case name of
             None \<Rightarrow>
               ofold (\<lambda>c st. if hp_name (props st c) = None
                             then prop_destroy_child destroy_now p c st else Some st)
                 (hp_childs st p) st
           | Some nm \<Rightarrow>
               (case find_child st p nm of None \<Rightarrow> Some st
                | Some c \<Rightarrow> prop_destroy_child destroy_now p c st))"

definition prop_destroy_first :: "pid \<Rightarrow> pst \<Rightarrow> pst option" where
  "prop_destroy_first p st =
     (if \<not> is_dir (type_of st p) then Some st
      else case hp_childs st p of [] \<Rightarrow> Some st | c # _ \<Rightarrow> prop_destroy_child destroy_now p c st)"

definition prop_destroy_marked_childs :: "pid \<Rightarrow> pst \<Rightarrow> pst option" where
  "prop_destroy_marked_childs p st =
     (if is_dir (type_of st p)
      then ofold (\<lambda>c st. if PROP_MARKED \<in> hp_flags (props st c)
                         then map_option snd (destroy_now c st) else Some st)
             (hp_childs st p) st
      else Some st)"

text \<open>
  \<open>prop_set_parent_vector\<close>: a whole vector of properties becomes children of \<open>parent\<close>; without
  a living parent they are destroyed.
\<close>

definition set_parent_elem :: "pid \<Rightarrow> pid option \<Rightarrow> pid \<Rightarrow> pst \<Rightarrow> pst option" where
  "set_parent_elem parent before p st =
     do { st2 \<leftarrow> inherit_multi p parent (upd_prop p (\<lambda>x. x\<lparr>hp_parent := Some parent\<rparr>) st);
          Some (set_childs parent
                  (case before of Some b \<Rightarrow> insert_before b p (hp_childs st2 parent)
                   | None \<Rightarrow> hp_childs st2 parent @ [p]) st2) }"

definition prop_set_parent_vector ::
  "prop_vec \<Rightarrow> pid option \<Rightarrow> pid option \<Rightarrow> sid option \<Rightarrow> pst \<Rightarrow> pst option" where
  "prop_set_parent_vector pv parent before skipme st =
     (case parent of
        None \<Rightarrow> ofold (\<lambda>p st. map_option snd (destroy_now p st)) (snd pv) st
      | Some q \<Rightarrow>
          if type_of st q = PROP_ZOMBIE
          then ofold (\<lambda>p st. map_option snd (destroy_now p st)) (snd pv) st
          else do {
            st1 \<leftarrow> prop_make_dir q None st;
            st2 \<leftarrow> ofold (set_parent_elem q before) (snd pv) st1;
            Some (prop_notify_childv pv q
                    (if before \<noteq> None then EV_ADD_CHILD_VECTOR_BEFORE else EV_ADD_CHILD_VECTOR)
                    skipme before st2) })"

section \<open>Links, with the recursion tied\<close>

definition prop_unlink0 :: "pid \<Rightarrow> sid option \<Rightarrow> bool \<Rightarrow> pst \<Rightarrow> pst option" where
  "prop_unlink0 = prop_unlink0_with destroy_now"

definition prop_link0 :: "pid \<Rightarrow> pid \<Rightarrow> sid option \<Rightarrow> link_mode \<Rightarrow> pst \<Rightarrow> pst option" where
  "prop_link0 = prop_link0_with destroy_now"

definition prop_unlink_exl :: "pid \<Rightarrow> sid option \<Rightarrow> pst \<Rightarrow> pst option" where
  "prop_unlink_exl p skipme st =
     (if type_of st p = PROP_PROXY then None
      else if type_of st p \<noteq> PROP_ZOMBIE \<and> hp_originator (props st p) \<noteq> None
           then prop_unlink0 p skipme False st else Some st)"

definition prop_link_exl :: "pid option \<Rightarrow> pid \<Rightarrow> sid option \<Rightarrow> link_mode \<Rightarrow> pst \<Rightarrow> pst option" where
  "prop_link_exl src dst skipme hard st =
     (case src of
        None \<Rightarrow> prop_unlink_exl dst skipme st
      | Some q \<Rightarrow>
          if type_of st q = PROP_PROXY \<and> type_of st dst = PROP_PROXY then
            (if skipme = None then Some (st\<lparr>proxy_log := proxy_log st @ [PX_LINK q dst]\<rparr>) else None)
          else if type_of st q = PROP_PROXY \<or> type_of st dst = PROP_PROXY then None
          else prop_link0 q dst skipme hard st)"

definition prop_link_ex :: "pid option \<Rightarrow> pid option \<Rightarrow> sid option \<Rightarrow> link_mode \<Rightarrow> pst \<Rightarrow> pst option" where
  "prop_link_ex src dst skipme hard st =
     (case dst of None \<Rightarrow> Some st | Some d \<Rightarrow> prop_link_exl src d skipme hard st)"

definition prop_unlink_ex :: "pid option \<Rightarrow> sid option \<Rightarrow> pst \<Rightarrow> pst option" where
  "prop_unlink_ex po skipme st =
     (case po of None \<Rightarrow> Some st | Some p \<Rightarrow> prop_unlink_exl p skipme st)"

end
