(* ===== verification/Prop_Value.thy ===== *)
theory Prop_Value
  imports Prop_Destroy
begin

text \<open>
  Setting and reading values (\<open>prop_set_*\<close>, \<open>prop_add_*\<close>, \<open>prop_toggle_int\<close>,
  \<open>prop_set_*_clipping_range\<close>, \<open>prop_copy\<close>, \<open>prop_seti\<close> and the path setters of
  \<open>src/prop/prop_core.c\<close>). A setter leaves a zombie alone, hands the request on for a remote
  property, refuses when the property cannot change its type, says nothing when the value is
  already there, and otherwise stores the value and notifies everyone but \<open>skipme\<close>.
\<close>

section \<open>The common shape\<close>

text \<open>Clean the property, then store and notify; a refusal leaves the state as it is.\<close>

definition clean_then_set :: "pid \<Rightarrow> sid option \<Rightarrow> payload \<Rightarrow> pst \<Rightarrow> pst option" where
  "clean_then_set p skipme v st =
     (case prop_clean p st of
        None \<Rightarrow> None
      | Some (True, st1) \<Rightarrow> Some st1
      | Some (False, st1) \<Rightarrow> prop_notify_value p skipme (set_type p v st1))"

definition to_proxy :: "proxy_req \<Rightarrow> pst \<Rightarrow> pst" where
  "to_proxy r st = st\<lparr>proxy_log := proxy_log st @ [r]\<rparr>"

section \<open>Strings\<close>

definition prop_set_void_exl :: "pid \<Rightarrow> sid option \<Rightarrow> pst \<Rightarrow> pst option" where
  "prop_set_void_exl p skipme st =
     (case type_of st p of
        PROP_ZOMBIE \<Rightarrow> Some st
      | PROP_PROXY \<Rightarrow> Some (to_proxy (PX_SET_VOID p) st)
      | PROP_VOID \<Rightarrow> Some st
      | _ \<Rightarrow> clean_then_set p skipme PROP_VOID st)"

definition prop_set_void_ex :: "pid option \<Rightarrow> sid option \<Rightarrow> pst \<Rightarrow> pst option" where
  "prop_set_void_ex po skipme st =
     (case po of None \<Rightarrow> Some st | Some p \<Rightarrow> prop_set_void_exl p skipme st)"

definition prop_set_string_exl :: "pid \<Rightarrow> sid option \<Rightarrow> string \<Rightarrow> str_type \<Rightarrow> pst \<Rightarrow> pst option" where
  "prop_set_string_exl p skipme str ty st =
     (case type_of st p of
        PROP_ZOMBIE \<Rightarrow> Some st
      | PROP_PROXY \<Rightarrow> Some (to_proxy (PX_SET_STRING p str ty) st)
      | PROP_RSTRING old _ \<Rightarrow>
          if old = str then Some st
          else prop_notify_value p skipme (set_type p (PROP_RSTRING str ty) st)
      | _ \<Rightarrow> clean_then_set p skipme (PROP_RSTRING str ty) st)"

definition prop_set_string_ex ::
  "pid option \<Rightarrow> sid option \<Rightarrow> string option \<Rightarrow> str_type \<Rightarrow> pst \<Rightarrow> pst option" where
  "prop_set_string_ex po skipme str ty st =
     (case po of None \<Rightarrow> Some st
      | Some p \<Rightarrow>
          (case str of None \<Rightarrow> prop_set_void_ex po skipme st
           | Some s \<Rightarrow> prop_set_string_exl p skipme s ty st))"

definition prop_set_rstring_exl :: "pid \<Rightarrow> sid option \<Rightarrow> string \<Rightarrow> str_type \<Rightarrow> pst \<Rightarrow> pst option" where
  "prop_set_rstring_exl p skipme rstr ty st =
     (case type_of st p of
        PROP_ZOMBIE \<Rightarrow> Some st
      | PROP_PROXY \<Rightarrow> Some (to_proxy (PX_SET_STRING p rstr ty) st)
      | PROP_RSTRING old _ \<Rightarrow>
          if old = rstr then Some st
          else prop_notify_value p skipme (set_type p (PROP_RSTRING rstr ty) st)
      | _ \<Rightarrow> clean_then_set p skipme (PROP_RSTRING rstr ty) st)"

definition prop_set_rstring_ex ::
  "pid option \<Rightarrow> sid option \<Rightarrow> string option \<Rightarrow> str_type \<Rightarrow> pst \<Rightarrow> pst option" where
  "prop_set_rstring_ex po skipme rstr ty st =
     (case po of None \<Rightarrow> Some st
      | Some p \<Rightarrow>
          (case rstr of None \<Rightarrow> prop_set_void_ex po skipme st
           | Some s \<Rightarrow> prop_set_rstring_exl p skipme s ty st))"

definition prop_set_cstring_exl :: "pid \<Rightarrow> sid option \<Rightarrow> string \<Rightarrow> pst \<Rightarrow> pst option" where
  "prop_set_cstring_exl p skipme cstr st =
     (case type_of st p of
        PROP_ZOMBIE \<Rightarrow> Some st
      | PROP_PROXY \<Rightarrow> Some (to_proxy (PX_SET_STRING p cstr PROP_STR_UTF8) st)
      | PROP_CSTRING old \<Rightarrow>
          if old = cstr then Some st
          else prop_notify_value p skipme (set_type p (PROP_CSTRING cstr) st)
      | _ \<Rightarrow> clean_then_set p skipme (PROP_CSTRING cstr) st)"

definition prop_set_cstring_ex ::
  "pid option \<Rightarrow> sid option \<Rightarrow> string option \<Rightarrow> pst \<Rightarrow> pst option" where
  "prop_set_cstring_ex po skipme cstr st =
     (case po of None \<Rightarrow> Some st
      | Some p \<Rightarrow>
          (case cstr of None \<Rightarrow> prop_set_void_ex po skipme st
           | Some s \<Rightarrow> prop_set_cstring_exl p skipme s st))"

text \<open>A NULL part of a URI compares as the empty string.\<close>

definition or_empty :: "string option \<Rightarrow> string" where
  "or_empty so = (case so of None \<Rightarrow> [] | Some s \<Rightarrow> s)"

definition prop_set_uri_ex ::
  "pid option \<Rightarrow> sid option \<Rightarrow> string option \<Rightarrow> string option \<Rightarrow> pst \<Rightarrow> pst option" where
  "prop_set_uri_ex po skipme title url st =
     (case po of None \<Rightarrow> Some st
      | Some p \<Rightarrow>
          if title = None \<and> url = None then prop_set_void_ex po skipme st
          else (case type_of st p of
                  PROP_ZOMBIE \<Rightarrow> Some st
                | PROP_URI t u \<Rightarrow>
                    if or_empty t = or_empty title \<and> or_empty u = or_empty url then Some st
                    else prop_notify_value p skipme (set_type p (PROP_URI title url) st)
                | _ \<Rightarrow> clean_then_set p skipme (PROP_URI title url) st))"

section \<open>Numbers\<close>

text \<open>Bounding a number by its range; without a range the C code reads indeterminate bytes.\<close>

definition clip_i32 :: "(i32 \<times> i32) option \<Rightarrow> i32 \<Rightarrow> i32 option" where
  "clip_i32 r v =
     (case r of None \<Rightarrow> None
      | Some (mn, mx) \<Rightarrow>
          let v1 = (if sint mx < sint v then mx else v)
          in Some (if sint v1 < sint mn then mn else v1))"

definition clip_f32 :: "(f32 \<times> f32) option \<Rightarrow> f32 \<Rightarrow> f32 option" where
  "clip_f32 r v =
     (case r of None \<Rightarrow> None
      | Some (mn, mx) \<Rightarrow>
          let v1 = (if f32_lt mx v then mx else v)
          in Some (if f32_lt v1 mn then mn else v1))"

definition prop_int_to_float :: "i32 \<Rightarrow> (i32 \<times> i32) option \<Rightarrow> payload" where
  "prop_int_to_float v r = PROP_FLOAT (f32_of_int v) (map_option (map_prod f32_of_int f32_of_int) r)"

definition prop_float_to_int :: "f32 \<Rightarrow> (f32 \<times> f32) option \<Rightarrow> payload option" where
  "prop_float_to_int v r =
     (case r of
        None \<Rightarrow> map_option (\<lambda>i. PROP_INT i None) (int_of_f32 v)
      | Some (mn, mx) \<Rightarrow>
          do { i \<leftarrow> int_of_f32 v; a \<leftarrow> int_of_f32 mn; b \<leftarrow> int_of_f32 mx;
               Some (PROP_INT i (Some (a, b))) })"

text \<open>\<open>prop_get_float_locked\<close>: the property as a float, or \<open>None\<close> inside for a refusal.\<close>

definition prop_get_float_locked :: "pid option \<Rightarrow> pst \<Rightarrow> (pid option \<times> pst) option" where
  "prop_get_float_locked po st =
     (case po of
        None \<Rightarrow> Some (None, st)
      | Some p \<Rightarrow>
          (case type_of st p of
             PROP_ZOMBIE \<Rightarrow> Some (None, st)
           | PROP_INT i r \<Rightarrow> Some (Some p, set_type p (prop_int_to_float i r) st)
           | PROP_FLOAT _ _ \<Rightarrow> Some (Some p, st)
           | _ \<Rightarrow>
               (case prop_clean p st of
                  None \<Rightarrow> None
                | Some (True, st1) \<Rightarrow> Some (None, st1)
                | Some (False, st1) \<Rightarrow> Some (Some p, set_type p (PROP_FLOAT 0 None) st1))))"

definition float_parts :: "payload \<Rightarrow> f32 \<times> (f32 \<times> f32) option" where
  "float_parts v = (case v of PROP_FLOAT f r \<Rightarrow> (f, r) | _ \<Rightarrow> (0, None))"

definition prop_set_float_exl :: "pid option \<Rightarrow> sid option \<Rightarrow> f32 \<Rightarrow> pst \<Rightarrow> pst option" where
  "prop_set_float_exl po skipme v st =
     (case po of
        Some p \<Rightarrow>
          if type_of st p = PROP_PROXY then Some (to_proxy (PX_SET_FLOAT p v) st)
          else (case prop_get_float_locked po st of
                  None \<Rightarrow> None
                | Some (None, st1) \<Rightarrow> Some st1
                | Some (Some q, st1) \<Rightarrow>
                    (let (f, r) = float_parts (type_of st1 q)
                     in if f32_eq f v then Some st1
                        else do { w \<leftarrow> (if PROP_CLIPPED_VALUE \<in> hp_flags (props st1 q)
                                          then clip_f32 r v else Some v);
                                  prop_notify_value q skipme (set_type q (PROP_FLOAT w r) st1) }))
      | None \<Rightarrow> Some st)"

definition prop_set_float_clipping_range :: "pid option \<Rightarrow> f32 \<Rightarrow> f32 \<Rightarrow> pst \<Rightarrow> pst option" where
  "prop_set_float_clipping_range po mn mx st =
     (case prop_get_float_locked po st of
        None \<Rightarrow> None
      | Some (None, st1) \<Rightarrow> Some st1
      | Some (Some q, st1) \<Rightarrow>
          (let f = fst (float_parts (type_of st1 q));
               st2 = set_type q (PROP_FLOAT f (Some (mn, mx)))
                       (upd_prop q (\<lambda>x. x\<lparr>hp_flags := insert PROP_CLIPPED_VALUE (hp_flags x)\<rparr>) st1)
           in do { n \<leftarrow> clip_f32 (Some (mn, mx)) f;
                   if f32_eq n f then Some st2
                   else prop_notify_value q None (set_type q (PROP_FLOAT n (Some (mn, mx))) st2) }))"

text \<open>
  \<open>prop_set_int_exl\<close>. Only a property that is an integer already clips its new value; the range
  of a float turned integer is converted, and the value stored as it is.
\<close>

definition prop_set_int_exl :: "pid \<Rightarrow> sid option \<Rightarrow> i32 \<Rightarrow> pst \<Rightarrow> pst option" where
  "prop_set_int_exl p skipme v st =
     (case type_of st p of
        PROP_ZOMBIE \<Rightarrow> Some st
      | PROP_PROXY \<Rightarrow> Some (to_proxy (PX_SET_INT p v) st)
      | PROP_INT old r \<Rightarrow>
          if old = v then Some st
          else do { w \<leftarrow> (if PROP_CLIPPED_VALUE \<in> hp_flags (props st p) then clip_i32 r v else Some v);
                    prop_notify_value p skipme (set_type p (PROP_INT w r) st) }
      | PROP_FLOAT f fr \<Rightarrow>
          (case prop_float_to_int f fr of
             Some (PROP_INT _ r) \<Rightarrow> prop_notify_value p skipme (set_type p (PROP_INT v r) st)
           | _ \<Rightarrow> None)
      | _ \<Rightarrow> clean_then_set p skipme (PROP_INT v None) st)"

definition prop_set_int_ex :: "pid option \<Rightarrow> sid option \<Rightarrow> i32 \<Rightarrow> pst \<Rightarrow> pst option" where
  "prop_set_int_ex po skipme v st =
     (case po of None \<Rightarrow> Some st | Some p \<Rightarrow> prop_set_int_exl p skipme v st)"

text \<open>
  The property as an integer, for the operations that work on the old value: \<open>None\<close> inside for
  a refusal.
\<close>

definition make_int :: "pid \<Rightarrow> pst \<Rightarrow> ((i32 \<times> (i32 \<times> i32) option) option \<times> pst) option" where
  "make_int p st =
     (case type_of st p of
        PROP_INT i r \<Rightarrow> Some (Some (i, r), st)
      | PROP_FLOAT f fr \<Rightarrow>
          (case prop_float_to_int f fr of
             Some (PROP_INT i r) \<Rightarrow> Some (Some (i, r), set_type p (PROP_INT i r) st)
           | _ \<Rightarrow> None)
      | _ \<Rightarrow>
          (case prop_clean p st of
             None \<Rightarrow> None
           | Some (True, st1) \<Rightarrow> Some (None, st1)
           | Some (False, st1) \<Rightarrow> Some (Some (0, None), set_type p (PROP_INT 0 None) st1)))"

text \<open>Signed addition: the C code has no defined result on overflow.\<close>

definition add_i32 :: "i32 \<Rightarrow> i32 \<Rightarrow> i32 option" where
  "add_i32 a b = (let n = sint a + sint b in if - (2 ^ 31) \<le> n \<and> n < 2 ^ 31 then Some (a + b) else None)"

definition prop_add_int_ex :: "pid option \<Rightarrow> sid option \<Rightarrow> i32 \<Rightarrow> pst \<Rightarrow> pst option" where
  "prop_add_int_ex po skipme v st =
     (case po of None \<Rightarrow> Some st
      | Some p \<Rightarrow>
          if type_of st p = PROP_PROXY then Some (to_proxy (PX_ADD_INT p v) st)
          else if type_of st p = PROP_ZOMBIE then Some st
          else (case make_int p st of
                  None \<Rightarrow> None
                | Some (None, st1) \<Rightarrow> Some st1
                | Some (Some (i, r), st1) \<Rightarrow>
                    do { n \<leftarrow> add_i32 i v;
                         w \<leftarrow> (if PROP_CLIPPED_VALUE \<in> hp_flags (props st1 p) then clip_i32 r n else Some n);
                         if w = i then Some st1
                         else prop_notify_value p skipme (set_type p (PROP_INT w r) st1) }))"

definition prop_toggle_int_ex :: "pid option \<Rightarrow> sid option \<Rightarrow> pst \<Rightarrow> pst option" where
  "prop_toggle_int_ex po skipme st =
     (case po of None \<Rightarrow> Some st
      | Some p \<Rightarrow>
          if type_of st p = PROP_PROXY then Some (to_proxy (PX_TOGGLE_INT p) st)
          else if type_of st p = PROP_ZOMBIE then Some st
          else (case make_int p st of
                  None \<Rightarrow> None
                | Some (None, st1) \<Rightarrow> Some st1
                | Some (Some (i, r), st1) \<Rightarrow>
                    prop_notify_value p skipme
                      (set_type p (PROP_INT (if i = 0 then 1 else 0) r) st1)))"

definition prop_set_int_clipping_range :: "pid option \<Rightarrow> i32 \<Rightarrow> i32 \<Rightarrow> pst \<Rightarrow> pst option" where
  "prop_set_int_clipping_range po mn mx st =
     (case po of None \<Rightarrow> Some st
      | Some p \<Rightarrow>
          if type_of st p = PROP_ZOMBIE then Some st
          else (case make_int p st of
                  None \<Rightarrow> None
                | Some (None, st1) \<Rightarrow> Some st1
                | Some (Some (i, r), st1) \<Rightarrow>
                    (let st2 = set_type p (PROP_INT i (Some (mn, mx)))
                                 (upd_prop p (\<lambda>x. x\<lparr>hp_flags := insert PROP_CLIPPED_VALUE (hp_flags x)\<rparr>) st1)
                     in do { n \<leftarrow> clip_i32 (Some (mn, mx)) i;
                             if n = i then Some st2
                             else prop_notify_value p None (set_type p (PROP_INT n (Some (mn, mx))) st2) })))"

section \<open>References, copies, paths\<close>

definition prop_set_prop_exl :: "pid \<Rightarrow> sid option \<Rightarrow> pid \<Rightarrow> pst \<Rightarrow> pst option" where
  "prop_set_prop_exl p skipme target st =
     (case type_of st p of
        PROP_ZOMBIE \<Rightarrow> Some st
      | PROP_PROP q \<Rightarrow>
          if q = target then Some st
          else do { st1 \<leftarrow> prop_ref_dec_locked (Some q) st;
                    prop_notify_value p skipme
                      (set_type p (PROP_PROP target) (prop_ref_inc (Some target) st1)) }
      | _ \<Rightarrow>
          (case prop_clean p st of
             None \<Rightarrow> None
           | Some (True, st1) \<Rightarrow> Some st1
           | Some (False, st1) \<Rightarrow>
               prop_notify_value p skipme (set_type p (PROP_PROP target) (prop_ref_inc (Some target) st1))))"

definition prop_copy_ex :: "pid option \<Rightarrow> sid option \<Rightarrow> pid option \<Rightarrow> pst \<Rightarrow> pst option" where
  "prop_copy_ex dsto skipme src st =
     (case dsto of None \<Rightarrow> Some st
      | Some dst \<Rightarrow>
          (case src of None \<Rightarrow> prop_set_void_exl dst skipme st
           | Some q \<Rightarrow>
               (case type_of st q of
                  PROP_INT i _ \<Rightarrow> prop_set_int_exl dst skipme i st
                | PROP_FLOAT f _ \<Rightarrow> prop_set_float_exl (Some dst) skipme f st
                | PROP_RSTRING s _ \<Rightarrow> prop_set_rstring_exl dst skipme s PROP_STR_UTF8 st
                | PROP_CSTRING s \<Rightarrow> prop_set_cstring_exl dst skipme s st
                | _ \<Rightarrow> prop_set_void_exl dst skipme st)))"

text \<open>The variadic argument of \<open>prop_seti\<close>, by its tag.\<close>

datatype set_arg =
    SET_STRING "string option" | SET_RSTRING "string option" | SET_INT i32 | SET_FLOAT f32
  | SET_VOID | SET_PROP pid | SET_LINK "pid option"

definition prop_seti :: "sid option \<Rightarrow> pid \<Rightarrow> set_arg \<Rightarrow> pst \<Rightarrow> pst option" where
  "prop_seti skipme p a st =
     (case a of
        SET_STRING None \<Rightarrow> prop_set_void_exl p skipme st
      | SET_STRING (Some s) \<Rightarrow> prop_set_string_exl p skipme s PROP_STR_UTF8 st
      | SET_RSTRING None \<Rightarrow> prop_set_void_exl p skipme st
      | SET_RSTRING (Some s) \<Rightarrow> prop_set_rstring_exl p skipme s PROP_STR_UTF8 st
      | SET_INT i \<Rightarrow> prop_set_int_exl p skipme i st
      | SET_FLOAT f \<Rightarrow> prop_set_float_exl (Some p) skipme f st
      | SET_VOID \<Rightarrow> prop_set_void_exl p skipme st
      | SET_PROP q \<Rightarrow> prop_set_prop_exl p skipme q st
      | SET_LINK q \<Rightarrow> prop_link_exl q p skipme PROP_LINK_NORMAL st)"

text \<open>
  Walking a path of names and creating what is missing; a zombie on the way ends it (\<open>None\<close>
  inside).
\<close>

fun setv_path :: "sid option \<Rightarrow> pid \<Rightarrow> string list \<Rightarrow> pst \<Rightarrow> (pid option \<times> pst) option" where
  "setv_path skipme p [] st = Some (Some p, st)"
| "setv_path skipme p (n # ns) st =
     (if type_of st p = PROP_ZOMBIE then Some (None, st)
      else case (if is_dir (type_of st p) then find_child st p n else None) of
             Some c \<Rightarrow> setv_path skipme c ns st
           | None \<Rightarrow>
               (case prop_create0 p (Some n) skipme False st of None \<Rightarrow> None
                | Some (c, st1) \<Rightarrow> setv_path skipme c ns st1))"

definition prop_setv_ex :: "sid option \<Rightarrow> pid option \<Rightarrow> string list \<Rightarrow> set_arg \<Rightarrow> pst \<Rightarrow> pst option" where
  "prop_setv_ex skipme po names a st =
     (case po of None \<Rightarrow> Some st
      | Some p \<Rightarrow>
          if type_of st p = PROP_ZOMBIE then Some st
          else (case setv_path skipme p names st of
                  None \<Rightarrow> None
                | Some (None, st1) \<Rightarrow> Some st1
                | Some (Some q, st1) \<Rightarrow> prop_seti skipme q a st1))"

text \<open>
  \<open>prop_setdn\<close> splits its path at the dots: an empty rest ends the walk, and the last property
  is looked at once more before the value is set.
\<close>

function split_dots :: "string \<Rightarrow> string list" where
  "split_dots s =
     (if s = [] then []
      else takeWhile (\<lambda>c. c \<noteq> CHR ''.'') s #
           (case dropWhile (\<lambda>c. c \<noteq> CHR ''.'') s of [] \<Rightarrow> [] | _ # r \<Rightarrow> split_dots r))"
  by pat_completeness auto

termination split_dots
proof (relation "measure length")
  fix s :: string and x r
  assume "dropWhile (\<lambda>c. c \<noteq> CHR ''.'') s = x # r"
  then show "(r, s) \<in> measure length"
    using length_dropWhile_le[of "\<lambda>c. c \<noteq> CHR ''.''" s] by simp
qed simp

declare split_dots.simps [simp del]

definition prop_setdn :: "sid option \<Rightarrow> pid option \<Rightarrow> string option \<Rightarrow> set_arg \<Rightarrow> pst \<Rightarrow> pst option" where
  "prop_setdn skipme po str a st =
     (case po of None \<Rightarrow> Some st
      | Some p \<Rightarrow>
          (case setv_path skipme p (case str of None \<Rightarrow> [] | Some s \<Rightarrow> split_dots s) st of
             None \<Rightarrow> None
           | Some (None, st1) \<Rightarrow> Some st1
           | Some (Some q, st1) \<Rightarrow>
               if type_of st1 q = PROP_ZOMBIE then Some st1 else prop_seti skipme q a st1))"

definition prop_set_ex :: "pid option \<Rightarrow> string option \<Rightarrow> bool \<Rightarrow> set_arg \<Rightarrow> pst \<Rightarrow> pst option" where
  "prop_set_ex po name noalloc a st =
     (case po of None \<Rightarrow> Some st
      | Some p \<Rightarrow>
          if type_of st p = PROP_ZOMBIE then Some st
          else do { (q, st1) \<leftarrow> prop_create0 p name None noalloc st; prop_seti None q a st1 })"

end
