(* ===== verification/Clib.thy ===== *)
theory Clib
  imports Prelude
begin

text \<open>
  The C library functions on characters and numbers the components use: \<open>isspace\<close>,
  \<open>isdigit\<close>, \<open>atoi\<close> (\<open>None\<close> outside the range of \<open>int\<close>, where C has no defined result) and
  the \<open>%d\<close> and \<open>%u\<close> conversions of \<open>snprintf\<close>, with the law that \<open>atoi\<close> reads what \<open>%d\<close> prints.
\<close>

definition is_digit :: "char \<Rightarrow> bool" where
  "is_digit c \<longleftrightarrow> (48::nat) \<le> of_char c \<and> (of_char c :: nat) \<le> 57"

definition digit_val :: "char \<Rightarrow> nat" where
  "digit_val c = of_char c - 48"

definition digit_char :: "nat \<Rightarrow> char" where
  "digit_char d = char_of (48 + d)"

definition is_c_space :: "char \<Rightarrow> bool" where
  "is_c_space c \<longleftrightarrow> (of_char c :: nat) = 32 \<or> (9 \<le> (of_char c :: nat) \<and> (of_char c :: nat) \<le> 13)"

definition digits_from :: "int \<Rightarrow> string \<Rightarrow> int" where
  "digits_from a s = foldl (\<lambda>a c. a * 10 + int (digit_val c)) a s"

definition digits_val :: "string \<Rightarrow> int" where
  "digits_val s = digits_from 0 (takeWhile is_digit s)"

definition c_atoi :: "string \<Rightarrow> int option" where
  "c_atoi s =
     (let t = dropWhile is_c_space s;
          v = (case t of [] \<Rightarrow> 0
               | c # r \<Rightarrow> if c = CHR ''-'' then - digits_val r
                         else if c = CHR ''+'' then digits_val r else digits_val t)
      in if - (2 ^ 31) \<le> v \<and> v < 2 ^ 31 then Some v else None)"

fun nat_dec :: "nat \<Rightarrow> string" where
  "nat_dec n = (if n < 10 then [digit_char n] else nat_dec (n div 10) @ [digit_char (n mod 10)])"

declare nat_dec.simps [simp del]

definition int_dec :: "int \<Rightarrow> string" where
  "int_dec i = (if i < 0 then CHR ''-'' # nat_dec (nat (- i)) else nat_dec (nat i))"

section \<open>Laws\<close>

lemma of_char_digit_char: "d < 10 \<Longrightarrow> (of_char (digit_char d) :: nat) = 48 + d"
  by (simp add: digit_char_def)

lemma digit_char_facts:
  assumes "d < 10"
  shows "is_digit (digit_char d)" "digit_val (digit_char d) = d" "\<not> is_c_space (digit_char d)"
    "digit_char d \<noteq> CHR ''-''" "digit_char d \<noteq> CHR ''+''"
proof -
  have c: "(of_char (digit_char d) :: nat) = 48 + d" by (rule of_char_digit_char[OF assms])
  show "is_digit (digit_char d)" "digit_val (digit_char d) = d" "\<not> is_c_space (digit_char d)"
    using c assms by (simp_all add: is_digit_def digit_val_def is_c_space_def)
  show "digit_char d \<noteq> CHR ''-''"
  proof
    assume "digit_char d = CHR ''-''"
    with c have "48 + d = (of_char CHR ''-'' :: nat)" by simp
    then show False by simp
  qed
  show "digit_char d \<noteq> CHR ''+''"
  proof
    assume "digit_char d = CHR ''+''"
    with c have "48 + d = (of_char CHR ''+'' :: nat)" by simp
    then show False by simp
  qed
qed

lemma digits_from_append: "digits_from a (s @ t) = digits_from (digits_from a s) t"
  by (simp add: digits_from_def)

lemma nat_dec_digits: "list_all is_digit (nat_dec n)"
proof (induction n rule: nat_dec.induct)
  case (1 n)
  then show ?case
    by (subst nat_dec.simps) (simp add: digit_char_facts)
qed

lemma digits_from_nat_dec: "digits_from 0 (nat_dec n) = int n"
proof (induction n rule: nat_dec.induct)
  case (1 n)
  show ?case
  proof (cases "n < 10")
    case True
    then show ?thesis by (subst nat_dec.simps) (simp add: digits_from_def digit_char_facts)
  next
    case False
    have "digits_from 0 (nat_dec n) = digits_from (int (n div 10)) [digit_char (n mod 10)]"
      using 1[OF False] False by (subst nat_dec.simps) (simp add: digits_from_append)
    also have "\<dots> = int (n div 10) * 10 + int (n mod 10)"
      by (simp add: digits_from_def digit_char_facts)
    also have "\<dots> = int n" by presburger
    finally show ?thesis .
  qed
qed

lemma digits_val_nat_dec: "digits_val (nat_dec n) = int n"
proof -
  have "takeWhile is_digit (nat_dec n) = nat_dec n"
    using nat_dec_digits[of n] by (subst takeWhile_eq_all_conv) (simp add: list_all_iff)
  then show ?thesis unfolding digits_val_def by (simp only: digits_from_nat_dec)
qed

lemma nat_dec_hd: "\<exists>d r. d < 10 \<and> nat_dec n = digit_char d # r"
proof (induction n rule: nat_dec.induct)
  case (1 n)
  show ?case
  proof (cases "n < 10")
    case True
    then show ?thesis by (subst nat_dec.simps) auto
  next
    case False
    then show ?thesis using 1[OF False] by (subst nat_dec.simps) auto
  qed
qed

lemma c_atoi_int_dec:
  assumes "- (2 ^ 31) \<le> i" and "i < 2 ^ 31"
  shows "c_atoi (int_dec i) = Some i"
proof (cases "i < 0")
  case True
  then show ?thesis using assms
    by (simp add: c_atoi_def int_dec_def digits_val_nat_dec is_c_space_def)
next
  case False
  obtain d r where d: "d < 10" "nat_dec (nat i) = digit_char d # r" using nat_dec_hd by blast
  show ?thesis
    using digits_val_nat_dec[of "nat i"] False assms
    by (simp add: c_atoi_def int_dec_def d digit_char_facts)
qed

end
