(* ===== verification/Prop_Subscribe.thy ===== *)
theory Prop_Subscribe
  imports Prop_Value Clib
begin

text \<open>
  Finding properties by name and subscribing to them (\<open>src/prop/prop_core.c\<close>). A subscription
  names a property: the \<open>canonical\<close> one is reached without following links, the \<open>value\<close> one by
  following every link on the way; the links followed are the subscription's origins. A new
  subscription hears the present value and children at once.
\<close>

section \<open>Looking up names\<close>

text \<open>The loop over \<open>hp_originator\<close>, with the links it passes.\<close>

fun follow_chain :: "nat \<Rightarrow> pst \<Rightarrow> pid \<Rightarrow> (pid \<times> pid list) option" where
  "follow_chain 0 st p = None"
| "follow_chain (Suc k) st p =
     (case hp_originator (props st p) of
        None \<Rightarrow> Some (p, [])
      | Some q \<Rightarrow> map_option (\<lambda>(r, ch). (r, p # ch)) (follow_chain k st q))"

definition follow_if :: "bool \<Rightarrow> pst \<Rightarrow> pid \<Rightarrow> (pid \<times> pid list) option" where
  "follow_if follow st p = (if follow then follow_chain (Suc (pnext st)) st p else Some (p, []))"

definition child_at :: "pid list \<Rightarrow> int \<Rightarrow> pid option" where
  "child_at cs i = (if 0 \<le> i \<and> i < int (length cs) then Some (cs ! nat i) else None)"

text \<open>
  \<open>prop_subfind\<close>: a void property on the way becomes a directory, a missing child is created, a
  property with a value of its own ends the search (the first component is then \<open>None\<close>).
\<close>

fun prop_subfind ::
  "bool \<Rightarrow> bool \<Rightarrow> string list \<Rightarrow> pid \<Rightarrow> pid list \<Rightarrow> pst \<Rightarrow> (pid option \<times> pid list \<times> pst) option" where
  "prop_subfind follow index [] p chain st =
     map_option (\<lambda>(q, ch). (Some q, chain @ ch, st)) (follow_if follow st p)"
| "prop_subfind follow index (n # ns) p chain st =
     do { (q, ch) \<leftarrow> follow_if follow st p;
          if \<not> is_dir (type_of st q) \<and> type_of st q \<noteq> PROP_VOID then Some (None, [], st)
          else do {
            st1 \<leftarrow> (if is_dir (type_of st q) then Some st
                     else prop_notify_value q None (set_type q (PROP_DIR [] None) st));
            if index \<and> n \<noteq> [] \<and> hd n = CHR ''*'' then
              do { i \<leftarrow> c_atoi (tl n);
                   (case child_at (hp_childs st1 q) i of
                      None \<Rightarrow> Some (None, [], st1)
                    | Some c \<Rightarrow> prop_subfind follow index ns c (chain @ ch) st1) }
            else
              (case find_child st1 q n of
                 Some c \<Rightarrow> prop_subfind follow index ns c (chain @ ch) st1
               | None \<Rightarrow>
                   (case prop_create0 q (Some n) None False st1 of
                      None \<Rightarrow> None
                    | Some (c, st2) \<Rightarrow> prop_subfind follow index ns c (chain @ ch) st2)) } }"

text \<open>
  The roots of a lookup: \<open>roots\<close> is the list of \<open>prop_root_node_t\<close>, latest tag first, \<open>rv\<close> the
  root vector. The global tree is the property \<open>prop_init\<close> makes first.
\<close>

definition prop_global :: pid where
  "prop_global = 0"

definition no_prop :: prop_t where
  "no_prop = \<lparr>hp_refcount = 0, hp_name = None, hp_parent = None, hp_value_subscriptions = [],
             hp_canonical_subscriptions = [], hp_originator = None, hp_targets = [],
             hp_type = PROP_ZOMBIE, hp_xref = 0, hp_flags = {}\<rparr>"

definition no_sub :: prop_sub_t where
  "no_sub = \<lparr>hps_flags = {}, hps_dispatch = MODE_GLOBAL None, hps_lock = None, hps_callback = 0,
            hps_opaque = 0, hps_value_prop = None, hps_canonical_prop = None, hps_origins = [],
            hps_refcount = 0, hps_zombie = True, hps_proxy = False, hps_pending_unlink = False\<rparr>"

definition no_courier :: prop_courier_t where
  "no_courier = \<lparr>pc_queue_nor = [], pc_queue_exp = [], pc_dispatch_queue = [], pc_free_queue = [],
                pc_refcount = 0, pc_entry_lock = None, pc_run = False\<rparr>"

definition prop_init :: pst where
  "prop_init = snd (prop_make (Some ''global'') True None
     \<lparr>props = (\<lambda>_. no_prop), pnext = prop_global, subs = (\<lambda>_. no_sub), snext = 0,
      couriers = (\<lambda>_. no_courier),
      psds = (\<lambda>_. \<lparr>psd_notifications = [], psd_wait_queue = [], psd_refcount = 0\<rparr>), psdnext = 0,
      pv_refcount = (\<lambda>_. 0), vnext = 0, prop_global_dispatch_queue = [], calls = [], pnq = [],
      proxy_log = []\<rparr>)"

type_synonym roots = "(pid \<times> string option) list"
type_synonym root_vec = "(string \<times> pid option) list"

definition prop_resolve_tree :: "pst \<Rightarrow> string \<Rightarrow> roots \<Rightarrow> root_vec \<Rightarrow> pid option" where
  "prop_resolve_tree st name prl prv =
     (if name = ''global'' then Some prop_global
      else case List.find (\<lambda>(n, po). po \<noteq> None \<and> n = name) prv of
             Some (_, po) \<Rightarrow> po
           | None \<Rightarrow> map_option fst
                       (List.find (\<lambda>(p, n). hp_name (props st p) = Some name \<or> n = Some name) prl))"

section \<open>The tags of a lookup or a subscription\<close>

datatype prop_tag =
    TAG_NAME_VECTOR "string list"
  | TAG_NAMESTR "string option"
  | TAG_CALLBACK nat nat
  | TAG_DISPATCH_GROUP did
  | TAG_COURIER "cid option"
  | TAG_ROOT "pid option"
  | TAG_NAMED_ROOT "pid option" "string option"
  | TAG_ROOT_VECTOR root_vec
  | TAG_MUTEX "nat option"

datatype sub_mode = SUB_MODE_COURIER | SUB_MODE_GLOBAL | SUB_MODE_GROUP

record sub_args =
  sa_name :: "string list option"
  sa_cb :: nat
  sa_opaque :: nat
  sa_pc :: "cid option"
  sa_psd :: "did option"
  sa_mode :: sub_mode
  sa_lock :: "nat option"
  sa_roots :: roots
  sa_prv :: root_vec

definition no_args :: sub_args where
  "no_args = \<lparr>sa_name = None, sa_cb = 0, sa_opaque = 0, sa_pc = None, sa_psd = None,
              sa_mode = SUB_MODE_GLOBAL, sa_lock = None, sa_roots = [], sa_prv = []\<rparr>"

text \<open>A dotted name: empty segments are skipped, the last one is always kept.\<close>

fun namestr_split :: "string \<Rightarrow> string \<Rightarrow> string list" where
  "namestr_split cur [] = [cur]"
| "namestr_split cur (c # cs) =
     (if c = CHR ''.'' then (if cur = [] then [] else [cur]) @ namestr_split [] cs
      else namestr_split (cur @ [c]) cs)"

fun parse_tag :: "prop_tag \<Rightarrow> sub_args \<Rightarrow> sub_args option" where
  "parse_tag (TAG_NAME_VECTOR ns) a = Some (if sa_name a = None then a\<lparr>sa_name := Some ns\<rparr> else a)"
| "parse_tag (TAG_NAMESTR so) a =
     Some (case so of None \<Rightarrow> a
           | Some s \<Rightarrow> if sa_name a = None then a\<lparr>sa_name := Some (namestr_split [] s)\<rparr> else a)"
| "parse_tag (TAG_CALLBACK cb op) a = Some (a\<lparr>sa_cb := cb, sa_opaque := op\<rparr>)"
| "parse_tag (TAG_DISPATCH_GROUP d) a =
     (if sa_pc a \<noteq> None then None else Some (a\<lparr>sa_mode := SUB_MODE_GROUP, sa_psd := Some d\<rparr>))"
| "parse_tag (TAG_COURIER c) a =
     (if sa_psd a \<noteq> None then None
      else Some (a\<lparr>sa_pc := c, sa_mode := (if c \<noteq> None then SUB_MODE_COURIER else sa_mode a)\<rparr>))"
| "parse_tag (TAG_ROOT po) a =
     Some (case po of None \<Rightarrow> a | Some p \<Rightarrow> a\<lparr>sa_roots := (p, None) # sa_roots a\<rparr>)"
| "parse_tag (TAG_NAMED_ROOT po n) a =
     Some (case po of None \<Rightarrow> a
           | Some p \<Rightarrow> if n = None then a else a\<lparr>sa_roots := (p, n) # sa_roots a\<rparr>)"
| "parse_tag (TAG_ROOT_VECTOR v) a = Some (a\<lparr>sa_prv := v\<rparr>)"
| "parse_tag (TAG_MUTEX l) a = Some (a\<lparr>sa_lock := l\<rparr>)"

definition parse_tags :: "prop_tag list \<Rightarrow> sub_args option" where
  "parse_tags ts = ofold parse_tag ts no_args"

definition prop_get_by_name ::
  "string list \<Rightarrow> bool \<Rightarrow> roots \<Rightarrow> root_vec \<Rightarrow> pst \<Rightarrow> (pid option \<times> pst) option" where
  "prop_get_by_name name follow prl prv st =
     (case name of
        [] \<Rightarrow> None
      | n # ns \<Rightarrow>
          (case prop_resolve_tree st n prl prv of
             None \<Rightarrow> Some (None, st)
           | Some p \<Rightarrow>
               if type_of st p = PROP_ZOMBIE then Some (None, st)
               else if type_of st p = PROP_PROXY then
                 (case prop_make None False None st of
                    (q, st1) \<Rightarrow> Some (Some q, prop_ref_inc (Some q)
                      ((set_type q PROP_PROXY st1)\<lparr>proxy_log := proxy_log st @ [PX_MAKE p ns]\<rparr>)))
               else map_option (\<lambda>(r, _, st1). (r, prop_ref_inc r st1))
                      (prop_subfind follow True ns p [] st)))"

section \<open>Subscribing\<close>

text \<open>
  Which properties the subscription is about: canonical, value, the links followed, and whether
  a proxy connection serves it. \<open>origin_chain\<close> has 16 elements, the terminator included.
\<close>

definition sub_target ::
  "sflag set \<Rightarrow> sub_args \<Rightarrow> pst \<Rightarrow> (pid option \<times> pid option \<times> pid list \<times> bool \<times> pst) option" where
  "sub_target flags a st =
     (case sa_name a of
        None \<Rightarrow>
          (case sa_roots a of
             [] \<Rightarrow> Some (None, None, [], False, st)
           | (p, _) # _ \<Rightarrow>
               if type_of st p = PROP_PROXY then Some (Some p, Some p, [], True, st)
               else map_option (\<lambda>(v, ch). (Some p, Some v, ch, False, st))
                      (follow_chain (Suc (pnext st)) st p))
      | Some name \<Rightarrow>
          do { (po, ns) \<leftarrow>
                 (if PROP_SUB_ALT_PATH \<in> flags
                  then Some ((case sa_roots a of [] \<Rightarrow> None | (p, _) # _ \<Rightarrow> Some p), name)
                  else case name of [] \<Rightarrow> None
                       | n # ns \<Rightarrow> Some (prop_resolve_tree st n (sa_roots a) (sa_prv a), ns));
               (case po of
                  None \<Rightarrow> Some (None, None, [], False, st)
                | Some p \<Rightarrow>
                    if type_of st p = PROP_ZOMBIE then Some (None, None, [], False, st)
                    else if type_of st p = PROP_PROXY then Some (Some p, Some p, [], True, st)
                    else do { (canonical, _, st1) \<leftarrow> prop_subfind False False ns p [] st;
                              (val, ch, st2) \<leftarrow> prop_subfind True False ns p [] st1;
                              Some (canonical, val, ch, False, st2) }) })"

text \<open>The name handed to the proxy: what is left of the name vector.\<close>

definition proxy_name :: "sflag set \<Rightarrow> sub_args \<Rightarrow> string list option" where
  "proxy_name flags a =
     (if PROP_SUB_ALT_PATH \<in> flags then sa_name a else map_option tl (sa_name a))"

definition has_sub :: "sub_args \<Rightarrow> pst \<Rightarrow> pid \<Rightarrow> bool" where
  "has_sub a st v \<longleftrightarrow>
     (\<exists>s \<in> set (hp_value_subscriptions (props st v)).
        hps_callback (subs st s) = sa_cb a \<and> hps_opaque (subs st s) = sa_opaque a)"

definition live_prop :: "pst \<Rightarrow> pid option \<Rightarrow> pid option" where
  "live_prop st po =
     (case po of None \<Rightarrow> None | Some p \<Rightarrow> if type_of st p = PROP_ZOMBIE then None else po)"

text \<open>
  The new subscription: a courier or a dispatch group is referenced, and its lock taken over; a
  chain of one link is \<open>hps_origin\<close>, a longer one is kept in order in \<open>hps_pots\<close>.
\<close>

definition make_sub ::
  "sflag set \<Rightarrow> sub_args \<Rightarrow> pid option \<Rightarrow> pid option \<Rightarrow> pid list \<Rightarrow> bool \<Rightarrow> pst \<Rightarrow> (sid \<times> pst) option" where
  "make_sub flags a canonical val chain px st =
     do { (disp, lk, st1) \<leftarrow>
            (case sa_mode a of
               SUB_MODE_COURIER \<Rightarrow>
                 (case sa_pc a of None \<Rightarrow> None
                  | Some c \<Rightarrow> Some (MODE_COURIER c, pc_entry_lock (couriers st c),
                                upd_courier c (\<lambda>x. x\<lparr>pc_refcount := pc_refcount x + 1\<rparr>) st))
             | SUB_MODE_GLOBAL \<Rightarrow> Some (MODE_GLOBAL None, sa_lock a, st)
             | SUB_MODE_GROUP \<Rightarrow>
                 (case sa_psd a of None \<Rightarrow> None
                  | Some d \<Rightarrow> Some (MODE_GROUP d, sa_lock a,
                                upd_psd d (\<lambda>x. x\<lparr>psd_refcount := psd_refcount x + 1\<rparr>) st)));
          let s = snext st;
              st2 = upd_sub s (\<lambda>_. \<lparr>hps_flags = flags, hps_dispatch = disp, hps_lock = lk,
                       hps_callback = sa_cb a, hps_opaque = sa_opaque a, hps_value_prop = val,
                       hps_canonical_prop = canonical, hps_origins = chain, hps_refcount = 1,
                       hps_zombie = False, hps_proxy = px, hps_pending_unlink = False\<rparr>)
                     (st1\<lparr>snext := Suc s\<rparr>)
          in Some (s, fold (\<lambda>p. prop_ref_inc (Some p)) chain st2) }"

text \<open>Registering on the canonical property; the answer says whether to wake its monitors.\<close>

definition sub_canonical :: "sid \<Rightarrow> pid \<Rightarrow> pst \<Rightarrow> (bool \<times> pst) option" where
  "sub_canonical s c st =
     (let fl = hps_flags (subs st s);
          st1 = upd_prop c (\<lambda>x. x\<lparr>hp_canonical_subscriptions := s # hp_canonical_subscriptions x\<rparr>) st;
          mon = PROP_SUB_SUBSCRIPTION_MONITOR \<in> fl \<and> PROP_MONITORED \<notin> hp_flags (props st1 c);
          st2 = (if mon then upd_prop c (\<lambda>x. x\<lparr>hp_flags := insert PROP_MONITORED (hp_flags x)\<rparr>) st1
                 else st1);
          act = mon \<and> (\<exists>t \<in> set (hp_value_subscriptions (props st2 c)).
                          PROP_SUB_SUBSCRIPTION_MONITOR \<notin> hps_flags (subs st2 t))
      in if PROP_SUB_MULTI \<in> fl then map_option (Pair act) (prop_set_multi c st2)
         else Some (act, st2))"

definition is_direct :: "sflag set \<Rightarrow> bool" where
  "is_direct fl \<longleftrightarrow> PROP_SUB_DIRECT_UPDATE \<in> fl \<or> PROP_SUB_INTERNAL \<in> fl"

text \<open>What a new subscription is told of the children of its value property.\<close>

definition initial_childs :: "sid \<Rightarrow> pid \<Rightarrow> pst \<Rightarrow> pst option" where
  "initial_childs s v st =
     (let direct = is_direct (hps_flags (subs st s)); cs = hp_childs st v
      in if hp_selected st v = None then
           (case prop_vec_create st of
              (pv0, st0) \<Rightarrow>
                do { (pv, st1) \<leftarrow> prop_vec_appends pv0 cs st0;
                     prop_vec_release pv
                       (prop_build_notify_childv s pv
                          (if direct then EV_ADD_CHILD_VECTOR_DIRECT else EV_ADD_CHILD_VECTOR)
                          None direct st1) })
         else Some (fold (\<lambda>c st. prop_build_notify_child s (Some c) EV_ADD_CHILD direct
                                   (gen_add_flags c v st) st) cs st))"

definition initial_have_more :: "sid \<Rightarrow> pid \<Rightarrow> pst \<Rightarrow> pst" where
  "initial_have_more s v st =
     (if PROP_HAVE_MORE \<in> hp_flags (props st v) then
        let ev = (if PROP_HAVE_MORE_YES \<in> hp_flags (props st v)
                  then EV_HAVE_MORE_CHILDS_YES else EV_HAVE_MORE_CHILDS_NO);
            n = mk_notify s ev NV_none
        in if is_direct (hps_flags (subs st s)) then call_now n st
           else prop_courier_enqueue s n (prop_get_notify s st)
      else st)"

definition sub_value :: "sid \<Rightarrow> pid \<Rightarrow> pst \<Rightarrow> pst option" where
  "sub_value s v st =
     (let fl = hps_flags (subs st s);
          st1 = upd_prop v (\<lambda>x. x\<lparr>hp_value_subscriptions := s # hp_value_subscriptions x\<rparr>) st
      in do { st2 \<leftarrow>
                (if PROP_SUB_NO_INITIAL_UPDATE \<in> fl then Some st1
                 else do { st2 \<leftarrow> prop_build_notify_value s (is_direct fl) v False st1;
                           if is_dir (type_of st2 v) \<and> PROP_SUB_MULTI \<notin> fl
                           then map_option (initial_have_more s v) (initial_childs s v st2)
                           else Some st2 });
              Some (if PROP_SUB_SUBSCRIPTION_MONITOR \<notin> fl \<and> PROP_MONITORED \<in> hp_flags (props st2 v)
                    then prop_send_subscription_monitor_active v st2 else st2) })"

definition prop_subscribe :: "sflag set \<Rightarrow> prop_tag list \<Rightarrow> pst \<Rightarrow> (sid option \<times> pst) option" where
  "prop_subscribe flags tags st =
     do { a \<leftarrow> parse_tags tags;
          (canonical0, value0, chain, px, st1) \<leftarrow> sub_target flags a st;
          dup \<leftarrow> (if PROP_SUB_SINGLETON \<in> flags
                   then map_option (has_sub a st1) value0 else Some False);
          if 16 \<le> length chain then None
          else if dup then Some (None, st1)
          else let val = live_prop st1 value0; canonical = live_prop st1 canonical0
          in do {
            (s, st2) \<leftarrow> make_sub flags a canonical val chain px st1;
            if px then
              (case val of None \<Rightarrow> None
               | Some v \<Rightarrow> Some (Some s, to_proxy (PX_SUBSCRIBE s v (proxy_name flags a)) st2))
            else do {
              (act, st3) \<leftarrow> (case canonical of None \<Rightarrow> Some (False, st2)
                               | Some c \<Rightarrow> sub_canonical s c st2);
              st4 \<leftarrow> (case val of None \<Rightarrow> Some st3 | Some v \<Rightarrow> sub_value s v st3);
              let st5 = (case canonical of
                           Some c \<Rightarrow> if act then prop_send_subscription_monitor_active c st4 else st4
                         | None \<Rightarrow> st4)
              in if canonical = None \<and> tracks_destroy flags then
                   (if is_direct flags
                    then Some (None, call_now (mk_notify s EV_DESTROYED NV_none) st5)
                    else Some (Some s, prop_notify_destroyed s st5))
                 else Some (Some s, st5) } } }"

section \<open>Unsubscribing\<close>

definition leave_canonical :: "sid \<Rightarrow> pid \<Rightarrow> pst \<Rightarrow> pst option" where
  "leave_canonical s c st =
     (let fl = hps_flags (subs st s);
          st1 = upd_prop c (\<lambda>x. x\<lparr>hp_canonical_subscriptions := remove1 s (hp_canonical_subscriptions x)\<rparr>) st;
          rest = map (\<lambda>t. hps_flags (subs st1 t)) (hp_canonical_subscriptions (props st1 c))
      in if PROP_SUB_SUBSCRIPTION_MONITOR \<in> fl \<or> PROP_SUB_MULTI \<in> fl then
           (if hp_flags (props st1 c) \<inter> {PROP_MONITORED, PROP_MULTI_SUB} = {} then None
            else let st2 = (if \<exists>f \<in> set rest. PROP_SUB_SUBSCRIPTION_MONITOR \<in> f then st1
                            else upd_prop c (\<lambda>x. x\<lparr>hp_flags := hp_flags x - {PROP_MONITORED}\<rparr>) st1)
                 in if \<exists>f \<in> set rest. PROP_SUB_MULTI \<in> f then Some st2 else prop_clr_multi c st2)
         else Some st1)"

definition prop_unsubscribe0 :: "sid \<Rightarrow> pst \<Rightarrow> pst option" where
  "prop_unsubscribe0 s st =
     (if hps_zombie (subs st s) then None
      else let st1 = upd_sub s (\<lambda>x. x\<lparr>hps_zombie := True\<rparr>) st;
               st2 = (case hps_dispatch (subs st1 s) of
                        MODE_COURIER c \<Rightarrow> upd_courier c (\<lambda>x. x\<lparr>pc_refcount := pc_refcount x - 1\<rparr>) st1
                      | _ \<Rightarrow> st1)
      in do {
        st3 \<leftarrow>
          (if hps_proxy (subs st2 s) then Some (to_proxy (PX_UNSUBSCRIBE s) st2)
           else do {
             st3 \<leftarrow> ofold (\<lambda>p. prop_ref_dec_locked (Some p)) (hps_origins (subs st2 s)) st2;
             let st4 = (case hps_value_prop (subs st3 s) of
                          None \<Rightarrow> st3
                        | Some v \<Rightarrow> upd_sub s (\<lambda>x. x\<lparr>hps_value_prop := None\<rparr>) (unlink_value_sub s v st3))
             in (case hps_canonical_prop (subs st4 s) of
                   None \<Rightarrow> Some st4
                 | Some c \<Rightarrow> map_option (upd_sub s (\<lambda>x. x\<lparr>hps_canonical_prop := None\<rparr>))
                              (leave_canonical s c st4)) });
        Some (prop_sub_ref_dec_locked s st3) })"

definition prop_unsubscribe :: "sid option \<Rightarrow> pst \<Rightarrow> pst option" where
  "prop_unsubscribe so st = (case so of None \<Rightarrow> Some st | Some s \<Rightarrow> prop_unsubscribe0 s st)"

definition prop_sub_reemit :: "sid option \<Rightarrow> pst \<Rightarrow> pst option" where
  "prop_sub_reemit so st =
     (case so of None \<Rightarrow> Some st
      | Some s \<Rightarrow> (case hps_value_prop (subs st s) of None \<Rightarrow> None
                   | Some v \<Rightarrow> prop_build_notify_value s False v False st))"

end
