(* ===== verification/Prop_Request.thy ===== *)
theory Prop_Request
  imports Prop_Subscribe
begin

text \<open>
  The remaining requests of \<open>src/prop/prop_core.c\<close>: selecting a child, asking the owner of a
  directory for changes, looking properties up, reading values, marking children, and the
  life of couriers and dispatch groups.
\<close>

section \<open>Selection and focus\<close>

definition prop_select_ex :: "pid \<Rightarrow> pid option \<Rightarrow> sid option \<Rightarrow> pst \<Rightarrow> pst option" where
  "prop_select_ex p extra skipme st =
     (case type_of st p of
        PROP_ZOMBIE \<Rightarrow> Some st
      | PROP_PROXY \<Rightarrow> Some (to_proxy (PX_SELECT p) st)
      | _ \<Rightarrow>
          (case hp_parent (props st p) of
             None \<Rightarrow> Some st
           | Some parent \<Rightarrow>
               if is_dir (type_of st parent)
               then map_option (set_selected parent (Some p))
                      (prop_notify_child2 (Some p) parent extra EV_SELECT_CHILD skipme st)
               else None))"

definition prop_unselect_ex :: "pid \<Rightarrow> sid option \<Rightarrow> pst \<Rightarrow> pst option" where
  "prop_unselect_ex parent skipme st =
     (if is_dir (type_of st parent)
      then map_option (set_selected parent None)
             (prop_notify_child2 None parent None EV_SELECT_CHILD skipme st)
      else Some st)"

definition prop_select_by_value_ex :: "pid \<Rightarrow> string \<Rightarrow> sid option \<Rightarrow> pst \<Rightarrow> pst option" where
  "prop_select_by_value_ex p name skipme st =
     (if is_dir (type_of st p)
      then let c = find_child st p name
           in map_option (set_selected p c) (prop_notify_child2 c p None EV_SELECT_CHILD skipme st)
      else Some st)"

definition prop_suggest_focus0 :: "pid \<Rightarrow> pst \<Rightarrow> pst option" where
  "prop_suggest_focus0 p st =
     (if type_of st p = PROP_ZOMBIE then Some st
      else case hp_parent (props st p) of
             None \<Rightarrow> Some st
           | Some parent \<Rightarrow>
               if is_dir (type_of st parent)
               then Some (prop_notify_child (Some p) parent EV_SUGGEST_FOCUS None st) else None)"

section \<open>Asking the owner\<close>

definition prop_request_new_child :: "pid \<Rightarrow> pst \<Rightarrow> pst" where
  "prop_request_new_child p st =
     (if is_dir (type_of st p) \<or> type_of st p = PROP_VOID
      then prop_notify_child None p EV_REQ_NEW_CHILD None st else st)"

text \<open>The parent is looked at without a test: a property without one is a null pointer here.\<close>

definition prop_request_delete :: "pid \<Rightarrow> pst \<Rightarrow> pst option" where
  "prop_request_delete c st =
     (if type_of st c = PROP_PROXY \<or> type_of st c = PROP_ZOMBIE then Some st
      else let st1 = prop_notify_simple c None EV_REQ_DELETE st
           in case hp_parent (props st c) of
                None \<Rightarrow> None
              | Some p \<Rightarrow>
                  if is_dir (type_of st1 p) then
                    (case prop_vec_create st1 of
                       (pv0, st2) \<Rightarrow>
                         do { (pv, st3) \<leftarrow> prop_vec_append pv0 c st2;
                              prop_vec_release pv
                                (prop_notify_childv pv p EV_REQ_DELETE_VECTOR None None st3) })
                  else Some st1)"

definition prop_request_delete_multi :: "prop_vec \<Rightarrow> pst \<Rightarrow> pst option" where
  "prop_request_delete_multi pv st =
     (case snd pv of
        [] \<Rightarrow> None
      | c # _ \<Rightarrow>
          (case hp_parent (props st c) of None \<Rightarrow> None
           | Some p \<Rightarrow> Some (prop_notify_childv pv p EV_REQ_DELETE_VECTOR None None st)))"

definition prop_want_more_childs0 :: "sid \<Rightarrow> pst \<Rightarrow> pst option" where
  "prop_want_more_childs0 s st =
     (if hps_proxy (subs st s) then Some (to_proxy (PX_WANT_MORE s) st)
      else case hps_value_prop (subs st s) of None \<Rightarrow> None
           | Some v \<Rightarrow> Some (prop_send_event v EV_WANT_MORE_CHILDS st))"

definition prop_have_more_childs0 :: "pid \<Rightarrow> bool \<Rightarrow> pst \<Rightarrow> pst" where
  "prop_have_more_childs0 p yes st =
     prop_send_event p (if yes then EV_HAVE_MORE_CHILDS_YES else EV_HAVE_MORE_CHILDS_NO)
       (upd_prop p (\<lambda>x. x\<lparr>hp_flags := hp_flags x \<union> {PROP_HAVE_MORE}
                                      \<union> (if yes then {PROP_HAVE_MORE_YES} else {})\<rparr>) st)"

section \<open>Looking up\<close>

definition prop_follow :: "pid \<Rightarrow> pst \<Rightarrow> (pid \<times> pst) option" where
  "prop_follow p st =
     map_option (\<lambda>q. (q, prop_ref_inc (Some q) st)) (follow_originator (Suc (pnext st)) st p)"

definition prop_get_prop :: "pid option \<Rightarrow> pst \<Rightarrow> pid option \<times> pst" where
  "prop_get_prop po st =
     (let r = (case po of None \<Rightarrow> None
               | Some p \<Rightarrow> (case type_of st p of PROP_PROP q \<Rightarrow> Some q | _ \<Rightarrow> Some p))
      in (r, prop_ref_inc r st))"

definition prop_compare :: "pid \<Rightarrow> pid \<Rightarrow> pst \<Rightarrow> bool option" where
  "prop_compare a b st =
     do { p \<leftarrow> follow_originator (Suc (pnext st)) st a;
          q \<leftarrow> follow_originator (Suc (pnext st)) st b;
          Some (p = q) }"

fun find_path :: "pst \<Rightarrow> pid \<Rightarrow> string list \<Rightarrow> pid option option" where
  "find_path st p [] = Some (Some p)"
| "find_path st p (n # ns) =
     (if \<not> is_dir (type_of st p) then Some None
      else case find_child st p n of
             None \<Rightarrow> Some None
           | Some c \<Rightarrow> (case follow_originator (Suc (pnext st)) st c of
                          None \<Rightarrow> None | Some q \<Rightarrow> find_path st q ns))"

definition prop_findv :: "pid \<Rightarrow> string list \<Rightarrow> pst \<Rightarrow> (pid option \<times> pst) option" where
  "prop_findv p names st =
     do { q \<leftarrow> follow_originator (Suc (pnext st)) st p;
          r \<leftarrow> find_path st q names;
          Some (r, prop_ref_inc r st) }"

fun prop_find0 :: "pst \<Rightarrow> pid \<Rightarrow> string list \<Rightarrow> pid option" where
  "prop_find0 st p [] = Some p"
| "prop_find0 st p (n # ns) =
     (if \<not> is_dir (type_of st p) then None
      else case find_child st p n of None \<Rightarrow> None | Some c \<Rightarrow> prop_find0 st c ns)"

definition prop_find :: "pid \<Rightarrow> string list \<Rightarrow> pst \<Rightarrow> pid option \<times> pst" where
  "prop_find p names st = (let r = prop_find0 st p names in (r, prop_ref_inc r st))"

definition prop_first_child :: "pid option \<Rightarrow> pst \<Rightarrow> pid option \<times> pst" where
  "prop_first_child po st =
     (let r = (case po of None \<Rightarrow> None
               | Some p \<Rightarrow> (case hp_childs st p of [] \<Rightarrow> None | c # _ \<Rightarrow> Some c))
      in (r, prop_ref_inc r st))"

text \<open>
  \<open>prop_get_int\<close>: the number a value stands for; \<open>None\<close> where the C conversion is undefined or
  reads a null pointer.
\<close>

definition int_value :: "payload \<Rightarrow> int option" where
  "int_value v =
     (case v of
        PROP_RSTRING s _ \<Rightarrow> c_atoi s
      | PROP_CSTRING s \<Rightarrow> c_atoi s
      | PROP_URI (Some t) _ \<Rightarrow> c_atoi t
      | PROP_URI None _ \<Rightarrow> None
      | PROP_FLOAT f _ \<Rightarrow> map_option sint (int_of_f32 f)
      | PROP_INT i _ \<Rightarrow> Some (sint i)
      | _ \<Rightarrow> Some 0)"

definition prop_get_int :: "pid \<Rightarrow> string list \<Rightarrow> pst \<Rightarrow> int option" where
  "prop_get_int p names st =
     (case prop_find0 st p names of None \<Rightarrow> Some 0 | Some q \<Rightarrow> int_value (type_of st q))"

text \<open>The names of the children that have a value; an unnamed one is called by its position.\<close>

fun names_from :: "pst \<Rightarrow> nat \<Rightarrow> pid list \<Rightarrow> string list" where
  "names_from st i [] = []"
| "names_from st i (c # cs) =
     (if type_of st c = PROP_VOID \<or> type_of st c = PROP_ZOMBIE then names_from st i cs
      else (case hp_name (props st c) of Some n \<Rightarrow> n | None \<Rightarrow> CHR ''*'' # nat_dec i)
             # names_from st (Suc i) cs)"

definition prop_get_name_of_childs :: "pid \<Rightarrow> pst \<Rightarrow> string list option" where
  "prop_get_name_of_childs p st =
     (if is_dir (type_of st p) then Some (names_from st 0 (hp_childs st p)) else None)"

section \<open>Marks\<close>

definition prop_mark_childs :: "pid option \<Rightarrow> pst \<Rightarrow> pst" where
  "prop_mark_childs po st =
     (case po of None \<Rightarrow> st
      | Some p \<Rightarrow> fold (\<lambda>c. upd_prop c (\<lambda>x. x\<lparr>hp_flags := insert PROP_MARKED (hp_flags x)\<rparr>))
                    (hp_childs st p) st)"

definition prop_unmark :: "pid option \<Rightarrow> pst \<Rightarrow> pst" where
  "prop_unmark po st =
     (case po of None \<Rightarrow> st
      | Some p \<Rightarrow> upd_prop p (\<lambda>x. x\<lparr>hp_flags := hp_flags x - {PROP_MARKED}\<rparr>) st)"

definition prop_is_marked :: "pid \<Rightarrow> pst \<Rightarrow> bool" where
  "prop_is_marked p st \<longleftrightarrow> PROP_MARKED \<in> hp_flags (props st p)"

section \<open>Couriers and dispatch groups\<close>

definition prop_courier_create :: "cid \<Rightarrow> pst \<Rightarrow> pst" where
  "prop_courier_create c = upd_courier c (\<lambda>_. no_courier)"

definition prop_courier_create_thread :: "cid \<Rightarrow> nat option \<Rightarrow> pst \<Rightarrow> pst" where
  "prop_courier_create_thread c lk st =
     upd_courier c (\<lambda>x. x\<lparr>pc_entry_lock := lk, pc_run := True\<rparr>) (prop_courier_create c st)"

definition prop_courier_stop :: "cid \<Rightarrow> pst \<Rightarrow> pst" where
  "prop_courier_stop c = upd_courier c (\<lambda>x. x\<lparr>pc_run := False\<rparr>)"

definition prop_dispatch_group_create :: "pst \<Rightarrow> did \<times> pst" where
  "prop_dispatch_group_create st =
     (psdnext st,
      upd_psd (psdnext st) (\<lambda>_. \<lparr>psd_notifications = [], psd_wait_queue = [], psd_refcount = 1\<rparr>)
        (st\<lparr>psdnext := Suc (psdnext st)\<rparr>))"

definition prop_dispatch_group_destroy :: "did \<Rightarrow> pst \<Rightarrow> pst" where
  "prop_dispatch_group_destroy = prop_psd_release"

end
