(* ===== verification/Prop_Shape.thy ===== *)
theory Prop_Shape
  imports Prop_Request
begin

text \<open>
  What notification leaves alone. The \<open>shape\<close> of a state is everything but its queues and
  reference counts; queueing, calling and reference counting do not change it. The \<open>stream\<close> of
  a courier subscription is what it has been and will be called with, in order; queueing for
  another subscription does not change it.
\<close>

section \<open>The shape of a state\<close>

definition sub_core :: "prop_sub_t \<Rightarrow> prop_sub_t" where
  "sub_core x = x\<lparr>hps_refcount := 0,
     hps_dispatch := (case hps_dispatch x of MODE_GLOBAL _ \<Rightarrow> MODE_GLOBAL None | m \<Rightarrow> m)\<rparr>"

type_synonym pshape = "(pid \<Rightarrow> prop_t) \<times> pid \<times> (sid \<Rightarrow> prop_sub_t) \<times> sid \<times> prop_notify_t list"

definition shape :: "pst \<Rightarrow> pshape" where
  "shape st = (\<lambda>p. (props st p)\<lparr>hp_refcount := 0\<rparr>, pnext st, \<lambda>s. sub_core (subs st s), snext st, pnq st)"

lemma prop_core_eqD:
  assumes "x\<lparr>hp_refcount := 0\<rparr> = y\<lparr>hp_refcount := 0\<rparr>"
  shows "hp_name x = hp_name y \<and> hp_parent x = hp_parent y \<and> hp_type x = hp_type y
    \<and> hp_value_subscriptions x = hp_value_subscriptions y
    \<and> hp_canonical_subscriptions x = hp_canonical_subscriptions y
    \<and> hp_originator x = hp_originator y \<and> hp_targets x = hp_targets y
    \<and> hp_xref x = hp_xref y \<and> hp_flags x = hp_flags y"
  using assms by (cases x; cases y) simp

lemma sub_core_eqD:
  assumes "sub_core x = sub_core y"
  shows "hps_flags x = hps_flags y \<and> hps_value_prop x = hps_value_prop y
    \<and> hps_canonical_prop x = hps_canonical_prop y \<and> hps_origins x = hps_origins y
    \<and> hps_zombie x = hps_zombie y \<and> hps_proxy x = hps_proxy y
    \<and> hps_pending_unlink x = hps_pending_unlink y \<and> hps_callback x = hps_callback y
    \<and> hps_opaque x = hps_opaque y \<and> hps_lock x = hps_lock y
    \<and> (hps_dispatch x = MODE_COURIER c \<longleftrightarrow> hps_dispatch y = MODE_COURIER c)"
  using assms by (cases x; cases y) (auto simp: sub_core_def split: dispatch.splits)

lemma shape_eqD:
  assumes "shape st = shape st'"
  shows "type_of st p = type_of st' p" "hp_name (props st p) = hp_name (props st' p)"
    "hp_parent (props st p) = hp_parent (props st' p)"
    "hp_value_subscriptions (props st p) = hp_value_subscriptions (props st' p)"
    "hp_canonical_subscriptions (props st p) = hp_canonical_subscriptions (props st' p)"
    "hp_originator (props st p) = hp_originator (props st' p)"
    "hp_targets (props st p) = hp_targets (props st' p)"
    "hp_xref (props st p) = hp_xref (props st' p)" "hp_flags (props st p) = hp_flags (props st' p)"
    "pnext st = pnext st'" "snext st = snext st'" "pnq st = pnq st'"
    "hps_flags (subs st s) = hps_flags (subs st' s)"
    "hps_value_prop (subs st s) = hps_value_prop (subs st' s)"
    "hps_canonical_prop (subs st s) = hps_canonical_prop (subs st' s)"
    "hps_origins (subs st s) = hps_origins (subs st' s)"
    "hps_zombie (subs st s) = hps_zombie (subs st' s)"
    "hps_proxy (subs st s) = hps_proxy (subs st' s)"
    "hps_pending_unlink (subs st s) = hps_pending_unlink (subs st' s)"
    "hps_dispatch (subs st s) = MODE_COURIER c \<longleftrightarrow> hps_dispatch (subs st' s) = MODE_COURIER c"
proof -
  from assms have p: "(props st p)\<lparr>hp_refcount := 0\<rparr> = (props st' p)\<lparr>hp_refcount := 0\<rparr>"
    and s: "sub_core (subs st s) = sub_core (subs st' s)"
    and n: "pnext st = pnext st'" "snext st = snext st'"
    by (simp_all add: shape_def fun_eq_iff)
  show "type_of st p = type_of st' p" "hp_name (props st p) = hp_name (props st' p)"
    "hp_parent (props st p) = hp_parent (props st' p)"
    "hp_value_subscriptions (props st p) = hp_value_subscriptions (props st' p)"
    "hp_canonical_subscriptions (props st p) = hp_canonical_subscriptions (props st' p)"
    "hp_originator (props st p) = hp_originator (props st' p)"
    "hp_targets (props st p) = hp_targets (props st' p)"
    "hp_xref (props st p) = hp_xref (props st' p)" "hp_flags (props st p) = hp_flags (props st' p)"
    using prop_core_eqD[OF p] by (simp_all add: type_of_def)
  show "hps_flags (subs st s) = hps_flags (subs st' s)"
    "hps_value_prop (subs st s) = hps_value_prop (subs st' s)"
    "hps_canonical_prop (subs st s) = hps_canonical_prop (subs st' s)"
    "hps_origins (subs st s) = hps_origins (subs st' s)"
    "hps_zombie (subs st s) = hps_zombie (subs st' s)"
    "hps_proxy (subs st s) = hps_proxy (subs st' s)"
    "hps_pending_unlink (subs st s) = hps_pending_unlink (subs st' s)"
    "hps_dispatch (subs st s) = MODE_COURIER c \<longleftrightarrow> hps_dispatch (subs st' s) = MODE_COURIER c"
    using sub_core_eqD[OF s] by auto
qed (use assms in \<open>simp_all add: shape_def\<close>)

section \<open>The stream of a subscription\<close>

text \<open>The events that tell a subscription about its value or its children.\<close>

definition tells :: "prop_event \<Rightarrow> bool" where
  "tells ev \<longleftrightarrow> ev \<in> {EV_SET_VOID, EV_SET_RSTRING, EV_SET_CSTRING, EV_SET_INT, EV_SET_FLOAT, EV_SET_DIR,
     EV_SET_URI, EV_SET_PROP, EV_ADD_CHILD, EV_ADD_CHILD_BEFORE, EV_ADD_CHILD_VECTOR,
     EV_ADD_CHILD_VECTOR_BEFORE, EV_ADD_CHILD_VECTOR_DIRECT, EV_DEL_CHILD, EV_MOVE_CHILD}"

definition told :: "sid \<Rightarrow> prop_notify_t list \<Rightarrow> prop_notify_t list" where
  "told s ns = filter (\<lambda>n. hpn_sub n = s \<and> tells (hpn_event n)) ns"

definition stream :: "sid \<Rightarrow> cid \<Rightarrow> pst \<Rightarrow> prop_notify_t list" where
  "stream s c st = told s (calls st @ pc_dispatch_queue (couriers st c) @ pc_queue_nor (couriers st c))"

text \<open>What waits for the subscription elsewhere than on the normal queue of its courier.\<close>

definition stray :: "sid \<Rightarrow> cid \<Rightarrow> pst \<Rightarrow> (cid \<Rightarrow> prop_notify_t list) \<times> (did \<Rightarrow> prop_notify_t list)" where
  "stray s c st =
     (\<lambda>c'. told s (pc_queue_exp (couriers st c')
                   @ (if c' = c then [] else pc_dispatch_queue (couriers st c') @ pc_queue_nor (couriers st c'))),
      \<lambda>d. if d < psdnext st then told s (psd_notifications (psds st d)) else [])"

definition obs :: "sid \<Rightarrow> cid \<Rightarrow> pst \<Rightarrow> pshape \<times> prop_notify_t list
    \<times> (cid \<Rightarrow> prop_notify_t list) \<times> (did \<Rightarrow> prop_notify_t list)" where
  "obs s c st = (shape st, stream s c st, stray s c st)"

lemma obs_eqI:
  "shape st = shape st' \<Longrightarrow> stream s c st = stream s c st' \<Longrightarrow> stray s c st = stray s c st' \<Longrightarrow>
   obs s c st = obs s c st'"
  by (simp add: obs_def)

lemma obs_shape: "obs s c st = obs s c st' \<Longrightarrow> shape st = shape st'"
  by (simp add: obs_def)

lemma obs_stream: "obs s c st = obs s c st' \<Longrightarrow> stream s c st = stream s c st'"
  by (simp add: obs_def)

lemma obs_stray: "obs s c st = obs s c st' \<Longrightarrow> stray s c st = stray s c st'"
  by (simp add: obs_def)

lemma told_simps [simp]:
  "told s [] = []" "told s (ns @ ms) = told s ns @ told s ms"
  "told s (n # ns) = (if hpn_sub n = s \<and> tells (hpn_event n) then n # told s ns else told s ns)"
  by (simp_all add: told_def)

subsection \<open>Reference counts\<close>

lemma shape_upd_ref:
  "shape (upd_prop p (\<lambda>x. x\<lparr>hp_refcount := g x\<rparr>) st) = shape st"
  "shape (upd_sub s' (\<lambda>x. x\<lparr>hps_refcount := h x\<rparr>) st) = shape st"
  "shape (upd_courier cc k st) = shape st" "shape (upd_psd d l st) = shape st"
  by (auto simp: shape_def sub_core_def upd_defs fun_eq_iff)

lemma stream_upd:
  "stream s c (upd_prop p f st) = stream s c st" "stream s c (upd_sub s' g st) = stream s c st"
  "stream s c (set_type p v st) = stream s c st"
  "stream s c (upd_psd d h st) = stream s c st"
  "stray s c (upd_prop p f st) = stray s c st" "stray s c (upd_sub s' g st) = stray s c st"
  "stray s c (set_type p v st) = stray s c st"
  by (simp_all add: stream_def stray_def cong: if_cong)

lemma stray_psd_ref [simp]:
  "stray s c (upd_psd d (\<lambda>x. x\<lparr>psd_refcount := k x\<rparr>) st) = stray s c st"
  by (auto simp: stray_def fun_eq_iff)

lemma obs_ref_inc [frame, simp]: "obs s c (prop_ref_inc po st) = obs s c st"
  by (cases po) (simp_all add: prop_ref_inc_def obs_def shape_upd_ref stream_upd)

lemma obs_get_notify [frame, simp]: "obs s c (prop_get_notify s' st) = obs s c st"
  by (simp add: prop_get_notify_def obs_def shape_upd_ref stream_upd)

lemma obs_ref_dec [frame]: "prop_ref_dec_locked po st = Some st' \<Longrightarrow> obs s c st' = obs s c st"
  by (cases po) (auto simp: prop_ref_dec_locked_def obs_def shape_upd_ref stream_upd Let_def
      split: if_splits)

lemma obs_psd_release [frame, simp]: "obs s c (prop_psd_release d st) = obs s c st"
  by (simp add: prop_psd_release_def obs_def shape_upd_ref stream_upd)

lemma obs_sub_ref_dec [frame, simp]: "obs s c (prop_sub_ref_dec_locked s' st) = obs s c st"
  by (simp add: prop_sub_ref_dec_locked_def Let_def obs_def shape_upd_ref stream_upd
      prop_psd_release_def split: dispatch.split)

lemma obs_fields [frame, simp]:
  "obs s c (st\<lparr>pv_refcount := a\<rparr>) = obs s c st" "obs s c (st\<lparr>vnext := b\<rparr>) = obs s c st"
  "obs s c (st\<lparr>proxy_log := f\<rparr>) = obs s c st"
  "obs s c (st\<lparr>prop_global_dispatch_queue := h\<rparr>) = obs s c st"
  by (simp_all add: obs_def shape_def stream_def stray_def cong: if_cong)

lemma obs_ofold_ref_dec [frame]:
  "ofold (\<lambda>p. prop_ref_dec_locked (Some p)) ps st = Some st' \<Longrightarrow> obs s c st' = obs s c st"
  by (rule ofold_invariant[where P = "\<lambda>u. obs s c u = obs s c st"])
     (assumption, rule refl, metis obs_ref_dec)

lemma obs_vec_release [frame]: "prop_vec_release pv st = Some st' \<Longrightarrow> obs s c st' = obs s c st"
  unfolding prop_vec_release_def Let_def
  by (fastforce split: if_splits dest: obs_ofold_ref_dec)

lemma obs_vec_addref [frame, simp]: "obs s c (prop_vec_addref pv st) = obs s c st"
  by (simp add: prop_vec_addref_def)

subsection \<open>Queueing\<close>

lemma shape_enqueue0: "shape (courier_enqueue0 s' n ex st) = shape st"
proof (cases "hps_dispatch (subs st s')")
  case (MODE_COURIER cc)
  then show ?thesis by (simp add: courier_enqueue0_def shape_upd_ref)
next
  case (MODE_GLOBAL od)
  then show ?thesis
    by (cases od) (auto simp: courier_enqueue0_def shape_def sub_core_def upd_defs Let_def fun_eq_iff)
next
  case (MODE_GROUP d)
  then show ?thesis by (simp add: courier_enqueue0_def shape_def upd_defs Let_def)
qed

lemma stream_enqueue_other:
  "hpn_sub n \<noteq> s \<or> \<not> tells (hpn_event n) \<Longrightarrow> stream s c (courier_enqueue0 s' n ex st) = stream s c st"
  by (auto simp: courier_enqueue0_def stream_def upd_defs Let_def split: dispatch.split option.split)

lemma stray_cong:
  assumes "\<And>c'. told s (pc_queue_exp (couriers st' c')) = told s (pc_queue_exp (couriers st c'))"
    and "\<And>c'. c' \<noteq> c \<Longrightarrow> told s (pc_dispatch_queue (couriers st' c')) = told s (pc_dispatch_queue (couriers st c'))"
    and "\<And>c'. c' \<noteq> c \<Longrightarrow> told s (pc_queue_nor (couriers st' c')) = told s (pc_queue_nor (couriers st c'))"
    and "\<And>d. (if d < psdnext st' then told s (psd_notifications (psds st' d)) else [])
            = (if d < psdnext st then told s (psd_notifications (psds st d)) else [])"
  shows "stray s c st' = stray s c st"
  using assms by (auto simp: stray_def fun_eq_iff)

lemma stray_enqueue_other:
  assumes "hpn_sub n \<noteq> s \<or> \<not> tells (hpn_event n)"
  shows "stray s c (courier_enqueue0 s' n ex st) = stray s c st"
proof -
  have n: "told s [n] = []" using assms by auto
  show ?thesis
  proof (cases "hps_dispatch (subs st s')")
    case (MODE_COURIER cc)
    with n show ?thesis by (intro stray_cong) (simp_all add: courier_enqueue0_def)
  next
    case (MODE_GLOBAL od)
    with n show ?thesis
      by (cases od; intro stray_cong) (simp_all add: courier_enqueue0_def Let_def)
  next
    case (MODE_GROUP d)
    with n show ?thesis by (intro stray_cong) (simp_all add: courier_enqueue0_def Let_def)
  qed
qed

lemma obs_enqueue_other [frame]:
  "hpn_sub n \<noteq> s \<or> \<not> tells (hpn_event n) \<Longrightarrow> obs s c (courier_enqueue0 s' n ex st) = obs s c st"
  by (simp add: obs_def shape_enqueue0 stream_enqueue_other stray_enqueue_other)

lemma stream_enqueue_same:
  assumes "hps_dispatch (subs st s) = MODE_COURIER c" "hpn_sub n = s" "tells (hpn_event n)"
  shows "stream s c (courier_enqueue0 s n False st) = stream s c st @ [n]"
    "stray s c (courier_enqueue0 s n False st) = stray s c st"
  using assms by (auto simp: courier_enqueue0_def stream_def stray_def upd_defs fun_eq_iff)

lemma shape_call_now: "shape (call_now n st) = shape st"
  by (simp add: call_now_def shape_def)

lemma obs_call_other [frame]:
  "hpn_sub n \<noteq> s \<or> \<not> tells (hpn_event n) \<Longrightarrow> obs s c (call_now n st) = obs s c st"
  by (auto simp: call_now_def obs_def shape_def stream_def stray_def cong: if_cong)

lemma mk_notify_sel [simp]:
  "hpn_sub (mk_notify s ev v) = s" "hpn_event (mk_notify s ev v) = ev" "hpn_val (mk_notify s ev v) = v"
  "hpn_prop_extra (mk_notify s ev v) = None" "hpn_selected (mk_notify s ev v) = False"
  by (simp_all add: mk_notify_def)

section \<open>Notification changes no shape\<close>

lemma shape_of_obs: "(\<And>s c. obs s c st' = obs s c st) \<Longrightarrow> shape st' = shape st"
  by (meson obs_shape)

lemma shape_simps [simp]:
  "shape (prop_ref_inc po st) = shape st" "shape (prop_get_notify s' st) = shape st"
  "shape (prop_sub_ref_dec_locked s' st) = shape st" "shape (prop_vec_addref pv st) = shape st"
  "shape (call_now n st) = shape st" "shape (courier_enqueue0 s' n ex st) = shape st"
  "shape (prop_courier_enqueue s' n st) = shape st"
  "shape (st\<lparr>proxy_log := f\<rparr>) = shape st"
  unfolding shape_call_now shape_enqueue0 prop_courier_enqueue_def
  by (rule shape_of_obs, simp)+

lemma shape_enqueue_or_defer [simp]: "shape (enqueue_or_defer False s' n st) = shape st"
  by (simp add: enqueue_or_defer_def)

lemma shape_build_notify_value [frame]:
  "prop_build_notify_value s' dr p False st = Some st' \<Longrightarrow> shape st' = shape st"
  unfolding prop_build_notify_value_def
  by (auto simp: Let_def split: if_splits option.splits)

lemma shape_notify_void [simp]: "shape (prop_notify_void s' st) = shape st"
  by (simp add: prop_notify_void_def Let_def)

lemma shape_notify_destroyed [simp]: "shape (prop_notify_destroyed s' st) = shape st"
  by (simp add: prop_notify_destroyed_def Let_def)

lemma shape_build_child [simp]: "shape (prop_build_notify_child s' po ev dr fl st) = shape st"
  by (simp add: prop_build_notify_child_def Let_def)

lemma shape_build_child2 [frame]:
  "prop_build_notify_child2 s' po ex ev dr st = Some st' \<Longrightarrow> shape st' = shape st"
  by (auto simp: prop_build_notify_child2_def Let_def split: if_splits option.splits)

lemma shape_build_childv [simp]: "shape (prop_build_notify_childv s' pv ev p2 dr st) = shape st"
  by (simp add: prop_build_notify_childv_def Let_def)

lemma shape_fold: "(\<And>x u. shape (f x u) = shape u) \<Longrightarrow> shape (fold f xs st) = shape st"
  by (induction xs arbitrary: st) auto

lemma shape_ofold:
  "ofold f xs st = Some st' \<Longrightarrow> (\<And>x u v. f x u = Some v \<Longrightarrow> shape v = shape u) \<Longrightarrow> shape st' = shape st"
  by (rule ofold_invariant[where P = "\<lambda>u. shape u = shape st"]) auto

lemma shape_notify_child [simp]: "shape (prop_notify_child po q ev sk st) = shape st"
  by (simp add: prop_notify_child_def shape_fold)

lemma shape_notify_childv [simp]: "shape (prop_notify_childv pv q ev sk p2 st) = shape st"
  by (simp add: prop_notify_childv_def shape_fold)

lemma shape_notify_del_child [simp]: "shape (notify_del_child e p q st) = shape st"
  by (simp add: notify_del_child_def shape_fold)

lemma shape_send_event [simp]: "shape (prop_send_event p ev st) = shape st"
  by (simp add: prop_send_event_def shape_fold)

lemma shape_monitor_active [simp]: "shape (prop_send_subscription_monitor_active p st) = shape st"
  by (simp add: prop_send_subscription_monitor_active_def shape_fold)

lemma shape_notify_simple [simp]: "shape (prop_notify_simple p sk ev st) = shape st"
  by (simp add: prop_notify_simple_def shape_fold)

lemma shape_notify_child2 [frame]:
  "prop_notify_child2 po q ex ev sk st = Some st' \<Longrightarrow> shape st' = shape st"
  unfolding prop_notify_child2_def
  by (rule shape_ofold) (auto split: if_splits dest: shape_build_child2)

lemma shape_notify_multi [frame]: "notify_multi q st = Some st' \<Longrightarrow> shape st' = shape st"
  unfolding notify_multi_def
  by (auto split: if_splits dest!: shape_ofold intro: shape_build_notify_value)

lemma shape_notify_value [frame]: "prop_notify_value p sk st = Some st' \<Longrightarrow> shape st' = shape st"
proof -
  assume a: "prop_notify_value p sk st = Some st'"
  then obtain st1 where
    1: "ofold (\<lambda>s st. if Some s = sk then Some st
          else case hps_value_prop (subs st s) of None \<Rightarrow> None
               | Some vp \<Rightarrow> prop_build_notify_value s False vp False st)
        (hp_value_subscriptions (props st p)) st = Some st1"
    and 2: "(if PROP_MULTI_NOTIFY \<in> hp_flags (props st1 p)
          then (case ancestors (Suc (pnext st1)) st1 p of None \<Rightarrow> None
                | Some qs \<Rightarrow> ofold notify_multi qs st1)
          else Some st1) = Some st'"
    unfolding prop_notify_value_def by (auto simp: bind_eq_Some_conv)
  have "shape st1 = shape st"
    by (rule shape_ofold[OF 1]) (auto split: if_splits option.splits dest: shape_build_notify_value)
  moreover have "shape st' = shape st1"
    using 2 by (auto split: if_splits option.splits dest!: shape_ofold intro: shape_notify_multi)
  ultimately show ?thesis by simp
qed

end
