(* ===== verification/Prop_Inv.thy ===== *)
theory Prop_Inv
  imports Prop_Shape
begin

text \<open>
  The structural invariant of the property tree, and the contract under which any further
  invariant is kept by every operation. \<open>tree_ok\<close> says that children lists have no duplicates
  and that a listed child names the directory as its parent; identifiers in use are allocated; no notification
  is deferred outside \<open>prop_link0\<close>.
  The locale \<open>prop_inv\<close> lists the steps the operations are made of; an invariant that every
  step keeps is kept by every operation (theory \<open>Prop_Kept\<close>).
\<close>

section \<open>The tree\<close>

definition ids_ok :: "pst \<Rightarrow> bool" where
  "ids_ok st \<longleftrightarrow> (\<forall>p. (\<forall>c \<in> set (hp_childs st p). c < pnext st)
     \<and> (\<forall>q. hp_parent (props st p) = Some q \<longrightarrow> q < pnext st)
     \<and> (\<forall>q. hp_originator (props st p) = Some q \<longrightarrow> q < pnext st)
     \<and> (\<forall>t \<in> set (hp_targets (props st p)). t < pnext st))"

definition tree_ok :: "pst \<Rightarrow> bool" where
  "tree_ok st \<longleftrightarrow> ids_ok st \<and> pnq st = [] \<and> (\<forall>p. distinct (hp_childs st p))
     \<and> (\<forall>p c. c \<in> set (hp_childs st p) \<longrightarrow> hp_parent (props st c) = Some p)"

text \<open>What an operation that moves nothing does: it allocates, and detaches.\<close>

definition adv :: "pst \<Rightarrow> pst \<Rightarrow> bool" where
  "adv st st' \<longleftrightarrow> pnext st \<le> pnext st' \<and>
     (\<forall>x < pnext st.
        (hp_parent (props st' x) = hp_parent (props st x) \<or> hp_parent (props st' x) = None) \<and>
        (\<forall>q. x \<in> set (hp_childs st' q) \<longrightarrow> x \<in> set (hp_childs st q)))"

lemma adv_refl: "adv st st"
  by (simp add: adv_def)

lemma adv_trans: "adv st st1 \<Longrightarrow> adv st1 st2 \<Longrightarrow> adv st st2"
  unfolding adv_def by (metis le_trans less_le_trans)

lemma advD:
  assumes "adv st st'" "x < pnext st"
  shows "hp_parent (props st' x) = hp_parent (props st x) \<or> hp_parent (props st' x) = None"
    "x \<in> set (hp_childs st' q) \<Longrightarrow> x \<in> set (hp_childs st q)" "x < pnext st'"
  using assms by (auto simp: adv_def)

lemma tree_okD:
  assumes "tree_ok st"
  shows "c \<in> set (hp_childs st p) \<Longrightarrow> c < pnext st"
    "c \<in> set (hp_childs st p) \<Longrightarrow> hp_parent (props st c) = Some p"
    "hp_parent (props st p) = Some q \<Longrightarrow> q < pnext st"
    "hp_originator (props st p) = Some q \<Longrightarrow> q < pnext st"
    "t \<in> set (hp_targets (props st p)) \<Longrightarrow> t < pnext st"
    "distinct (hp_childs st p)" "pnq st = []"
  using assms by (auto simp: tree_ok_def ids_ok_def)

text \<open>Both depend on the tree part of the state only.\<close>

definition same_tree :: "pst \<Rightarrow> pst \<Rightarrow> bool" where
  "same_tree st st' \<longleftrightarrow> pnext st' = pnext st \<and> pnq st' = pnq st \<and> (\<forall>p. type_of st' p = type_of st p
     \<and> hp_parent (props st' p) = hp_parent (props st p)
     \<and> hp_originator (props st' p) = hp_originator (props st p)
     \<and> hp_targets (props st' p) = hp_targets (props st p))"

lemma same_tree_refl [simp]: "same_tree st st"
  by (simp add: same_tree_def)

lemma same_tree_trans: "same_tree st st1 \<Longrightarrow> same_tree st1 st2 \<Longrightarrow> same_tree st st2"
  by (simp add: same_tree_def)

lemma same_tree_ok: "same_tree st st' \<Longrightarrow> tree_ok st' = tree_ok st"
  by (simp add: same_tree_def tree_ok_def ids_ok_def)

lemma same_tree_adv: "same_tree st st' \<Longrightarrow> adv st st'"
  by (simp add: same_tree_def adv_def)

lemma shape_same_tree: "shape st' = shape st \<Longrightarrow> same_tree st st'"
  unfolding same_tree_def by (simp add: shape_eqD(1,3,6,7,10,12)[of st' st])

lemma upd_prop_same_tree:
  assumes "\<And>x. hp_type (f x) = hp_type x" "\<And>x. hp_parent (f x) = hp_parent x"
    "\<And>x. hp_originator (f x) = hp_originator x" "\<And>x. hp_targets (f x) = hp_targets x"
  shows "same_tree st (upd_prop p f st)"
  using assms by (simp add: same_tree_def type_of_def)

lemma upd_sub_same_tree: "same_tree st (upd_sub s f st)"
  by (simp add: same_tree_def)

subsection \<open>The steps that change the tree\<close>

lemma type_make:
  "type_of (snd (prop_make n b po st)) q = (if q = pnext st then PROP_VOID else type_of st q)"
  "pnq (snd (prop_make n b po st)) = pnq st"
  "pnext (snd (prop_make n b po st)) = Suc (pnext st)" "subs (snd (prop_make n b po st)) = subs st"
  "q \<noteq> pnext st \<Longrightarrow> props (snd (prop_make n b po st)) q = props st q"
  "hp_parent (props (snd (prop_make n b po st)) q) = (if q = pnext st then po else hp_parent (props st q))"
  "hp_originator (props (snd (prop_make n b po st)) q)
     = (if q = pnext st then None else hp_originator (props st q))"
  "hp_targets (props (snd (prop_make n b po st)) q) = (if q = pnext st then [] else hp_targets (props st q))"
  "hp_value_subscriptions (props (snd (prop_make n b po st)) q)
     = (if q = pnext st then [] else hp_value_subscriptions (props st q))"
  "childs_of PROP_VOID = []"
  by (simp_all add: prop_make_def type_of_def childs_of_def)

lemma tree_ok_make:
  assumes "tree_ok st" and "\<And>q. po = Some q \<Longrightarrow> q < pnext st"
  shows "tree_ok (snd (prop_make n b po st))" "adv st (snd (prop_make n b po st))"
    "pnext st \<notin> set (hp_childs (snd (prop_make n b po st)) q)"
proof -
  have f: "\<And>p. pnext st \<notin> set (hp_childs st p)" using tree_okD(1)[OF assms(1)] by blast
  show "tree_ok (snd (prop_make n b po st))"
    using assms(2) f tree_okD[OF assms(1)]
    by (auto simp: tree_ok_def ids_ok_def type_make less_Suc_eq)
  show "adv st (snd (prop_make n b po st))" by (simp add: adv_def type_make)
  show "pnext st \<notin> set (hp_childs (snd (prop_make n b po st)) q)"
    using f[of q] by (simp add: type_make)
qed

lemma tree_ok_set_type:
  assumes "tree_ok st" and "\<not> is_dir v \<or> childs_of v = []"
  shows "tree_ok (set_type p v st)" "adv st (set_type p v st)"
proof -
  have "childs_of v = []" using assms(2) childs_of_nondir by blast
  then show "tree_ok (set_type p v st)"
    using tree_okD[OF assms(1)] by (auto simp: tree_ok_def ids_ok_def)
  show "adv st (set_type p v st)" using \<open>childs_of v = []\<close> by (simp add: adv_def)
qed

lemma tree_ok_set_childs:
  assumes t: "tree_ok st" and d: "distinct cs" and c: "\<And>c. c \<in> set cs \<Longrightarrow> hp_parent (props st c) = Some q"
    and l: "\<And>c. c \<in> set cs \<Longrightarrow> c < pnext st"
  shows "tree_ok (set_childs q cs st)"
  using tree_okD[OF t] d c l by (auto simp: tree_ok_def ids_ok_def set_childs_def)

lemma adv_set_childs: "set cs \<subseteq> set (hp_childs st q) \<Longrightarrow> adv st (set_childs q cs st)"
  by (auto simp: adv_def set_childs_def)

lemma set_childs_sel [simp]:
  "type_of (set_childs q cs st) p = (if p = q then PROP_DIR cs (hp_selected st q) else type_of st p)"
  "hp_parent (props (set_childs q cs st) p) = hp_parent (props st p)"
  "pnext (set_childs q cs st) = pnext st" "pnq (set_childs q cs st) = pnq st"
  "subs (set_childs q cs st) = subs st"
  "snext (set_childs q cs st) = snext st"
  "hp_value_subscriptions (props (set_childs q cs st) p) = hp_value_subscriptions (props st p)"
  by (simp_all add: set_childs_def)

lemma set_selected_sel [simp]:
  "type_of (set_selected q sel st) p = (if p = q then PROP_DIR (hp_childs st q) sel else type_of st p)"
  "hp_parent (props (set_selected q sel st) p) = hp_parent (props st p)"
  "pnext (set_selected q sel st) = pnext st" "pnq (set_selected q sel st) = pnq st"
  "subs (set_selected q sel st) = subs st"
  "hp_value_subscriptions (props (set_selected q sel st) p) = hp_value_subscriptions (props st p)"
  by (simp_all add: set_selected_def)

lemma tree_ok_set_selected:
  assumes "tree_ok st" shows "tree_ok (set_selected q sel st)" "adv st (set_selected q sel st)"
proof -
  show "tree_ok (set_selected q sel st)"
    using tree_okD[OF assms] by (auto simp: tree_ok_def ids_ok_def set_selected_def)
  show "adv st (set_selected q sel st)" by (simp add: adv_def)
qed

lemma adv_upd_prop:
  "(\<And>x. hp_type (f x) = hp_type x) \<Longrightarrow> (\<And>x. hp_parent (f x) = hp_parent x \<or> hp_parent (f x) = None) \<Longrightarrow>
   adv st (upd_prop p f st)"
  by (simp add: adv_def type_of_def)

lemma tree_ok_insert:
  assumes t: "tree_ok st" and p: "hp_parent (props st p) = Some parent" "p < pnext st"
    and n: "p \<notin> set (hp_childs st parent)" and r: "prop_insert p parent before sk st = Some st'"
  shows "tree_ok st'" "pnext st' = pnext st" "hp_parent (props st' x) = hp_parent (props st x)"
    "set (hp_childs st' q) \<subseteq> insert p (set (hp_childs st q))"
proof -
  define cs where "cs = (case before of Some b \<Rightarrow> insert_before b p (hp_childs st parent)
                         | None \<Rightarrow> hp_childs st parent @ [p])"
  have s: "shape st' = shape (set_childs parent cs st)"
    using r by (auto simp: prop_insert_def cs_def split: option.splits if_splits dest: shape_notify_child2)
  have k: "tree_ok (set_childs parent cs st)"
    by (rule tree_ok_set_childs[OF t])
       (use tree_okD[OF t] p n in \<open>auto simp: cs_def queue_simps split: option.splits\<close>)
  note st = shape_same_tree[OF s]
  show "tree_ok st'" using same_tree_ok[OF st] k by simp
  show "pnext st' = pnext st" "hp_parent (props st' x) = hp_parent (props st x)"
    "set (hp_childs st' q) \<subseteq> insert p (set (hp_childs st q))"
    using st by (auto simp: same_tree_def cs_def queue_simps split: option.splits)
qed

lemma tree_ok_move:
  assumes t: "tree_ok st" and r: "prop_move0 p before sk st = Some st'" and m: "p < pnext st"
  shows "tree_ok st'" "pnext st' = pnext st"
proof -
  have "tree_ok st' \<and> pnext st' = pnext st"
  proof (cases "st' = st")
    case True then show ?thesis using t by simp
  next
    case False
    then obtain parent where q: "hp_parent (props st p) = Some parent"
      using r by (auto simp: prop_move0_def split: if_splits option.splits)
    define cs where "cs = (case before of Some b \<Rightarrow> insert_before b p (remove1 p (hp_childs st parent))
                           | None \<Rightarrow> remove1 p (hp_childs st parent) @ [p])"
    have s: "shape st' = shape (set_childs parent cs st)"
      using r False q by (auto simp: prop_move0_def cs_def Let_def split: option.splits if_splits
          dest: shape_notify_child2)
    have k: "tree_ok (set_childs parent cs st)"
      by (rule tree_ok_set_childs[OF t])
         (use tree_okD[OF t] m q in \<open>auto simp: cs_def queue_simps split: option.splits\<close>)
    note st = shape_same_tree[OF s]
    show ?thesis using same_tree_ok[OF st] k st by (simp add: same_tree_def)
  qed
  then show "tree_ok st'" "pnext st' = pnext st" by simp_all
qed

lemma tree_ok_remove_child:
  assumes t: "tree_ok st" and p: "hp_parent (props st p) = Some q \<or> hp_parent (props st p) = None"
    and r: "remove_child q p st = Some st'"
  shows "tree_ok st'" "adv st st'" "hp_parent (props st' p) = None"
proof -
  have n: "p \<notin> set (hp_childs st x)" if "x \<noteq> q" for x
    using tree_okD(2)[OF t, of p x] p that by auto
  have e: "st' = upd_prop p (\<lambda>x. x\<lparr>hp_parent := None\<rparr>) (set_childs q (remove1 p (hp_childs st q)) st)"
    using r by (simp add: remove_child_def split: if_splits)
  have "tree_ok (set_childs q (remove1 p (hp_childs st q)) st)"
    by (rule tree_ok_set_childs[OF t])
       (use tree_okD[OF t] in \<open>auto dest: notin_set_remove1 simp: queue_simps\<close>)
  moreover have "p \<notin> set (hp_childs (set_childs q (remove1 p (hp_childs st q)) st) x)" for x
    using n tree_okD(6)[OF t, of q] by (simp add: queue_simps)
  ultimately show "tree_ok st'" unfolding e by (auto simp: tree_ok_def ids_ok_def type_of_def)
  show "adv st st'" unfolding e
    by (rule adv_trans[OF adv_set_childs[OF set_remove1_subset] adv_upd_prop]) simp_all
  show "hp_parent (props st' p) = None" unfolding e by simp
qed

lemma tree_ok_deselect:
  assumes "tree_ok st" shows "tree_ok (deselect q p st)" "adv st (deselect q p st)"
  using tree_ok_set_selected[OF assms] assms adv_refl by (simp_all add: deselect_def)

lemma tree_ok_upd_prop:
  assumes t: "tree_ok st" and "\<And>x. hp_type (f x) = hp_type x"
    and "hp_parent (f (props st p)) = hp_parent (props st p)
      \<or> (\<forall>q. p \<notin> set (hp_childs st q)) \<and> (\<forall>q. hp_parent (f (props st p)) = Some q \<longrightarrow> q < pnext st)"
    and "\<And>q. hp_originator (f (props st p)) = Some q \<Longrightarrow> q < pnext st"
    and "\<And>q. q \<in> set (hp_targets (f (props st p))) \<Longrightarrow> q < pnext st"
  shows "tree_ok (upd_prop p f st)"
  using assms(2-) tree_okD[OF t] by (auto simp: tree_ok_def ids_ok_def type_of_def)

end
