(* ===== verification/Prop_Kept.thy ===== *)
theory Prop_Kept
  imports Prop_Inv
begin

text \<open>
  The contract \<open>prop_inv\<close> of an invariant of the property system, and what it gives: every
  operation that only allocates, retypes, links, unlinks and destroys keeps the invariant and
  the tree, whatever the recursion does.
\<close>

definition ok :: "(pst \<Rightarrow> bool) \<Rightarrow> pst \<Rightarrow> bool" where
  "ok I st \<longleftrightarrow> I st \<and> tree_ok st"

definition go :: "(pst \<Rightarrow> bool) \<Rightarrow> pst \<Rightarrow> pst \<Rightarrow> bool" where
  "go I st st' \<longleftrightarrow> ok I st' \<and> adv st st'"

lemma okD: "ok I st \<Longrightarrow> I st" "ok I st \<Longrightarrow> tree_ok st"
  by (simp_all add: ok_def)

lemma goD: "go I st st' \<Longrightarrow> ok I st'" "go I st st' \<Longrightarrow> adv st st'"
  "go I st st' \<Longrightarrow> p < pnext st \<Longrightarrow> p < pnext st'"
  by (auto simp: go_def adv_def)

lemma go_refl: "ok I st \<Longrightarrow> go I st st"
  by (simp add: go_def adv_refl)

lemma go_trans: "go I st st1 \<Longrightarrow> go I st1 st2 \<Longrightarrow> go I st st2"
  unfolding go_def using adv_trans by blast

lemma go_ofold:
  assumes "ofold f xs st = Some st'" and "ok I st"
    and "\<And>x u v. x \<in> set xs \<Longrightarrow> go I st u \<Longrightarrow> f x u = Some v \<Longrightarrow> go I u v"
  shows "go I st st'"
  by (rule ofold_invariant[where P = "go I st", OF assms(1) go_refl[OF assms(2)]])
     (meson assms(3) go_trans)

lemma go_fold:
  assumes "ok I st" and "\<And>x u. x \<in> set xs \<Longrightarrow> go I st u \<Longrightarrow> go I u (f x u)"
  shows "go I st (fold f xs st)"
proof -
  have "ofold (\<lambda>x s. Some (f x s)) xs st = Some (fold f xs st)" by (rule ofold_pure)
  then show ?thesis by (rule go_ofold[OF _ assms(1)]) (use assms(2) in auto)
qed

text \<open>Notifications that tell nothing of values or children change no stream.\<close>

lemma obs_fold: "(\<And>x u. obs s c (f x u) = obs s c u) \<Longrightarrow> obs s c (fold f xs st) = obs s c st"
  by (induction xs arbitrary: st) auto

lemma obs_ofold:
  "ofold f xs st = Some st' \<Longrightarrow> (\<And>x u v. f x u = Some v \<Longrightarrow> obs s c v = obs s c u) \<Longrightarrow>
   obs s c st' = obs s c st"
  by (rule ofold_invariant[where P = "\<lambda>u. obs s c u = obs s c st"]) auto

lemma obs_courier_enqueue:
  "hpn_sub n \<noteq> s \<or> \<not> tells (hpn_event n) \<Longrightarrow> obs s c (prop_courier_enqueue s' n st) = obs s c st"
  by (simp add: prop_courier_enqueue_def obs_enqueue_other)

lemma obs_build_child_aside [frame]:
  "\<not> tells ev \<Longrightarrow> obs s c (prop_build_notify_child s' po ev dr fl st) = obs s c st"
  by (simp add: prop_build_notify_child_def Let_def obs_call_other obs_courier_enqueue)

lemma obs_notify_child_aside [frame]:
  "\<not> tells ev \<Longrightarrow> obs s c (prop_notify_child po q ev sk st) = obs s c st"
  unfolding prop_notify_child_def by (rule obs_fold) (simp add: obs_build_child_aside)

lemma obs_notify_child2_aside [frame]:
  "\<not> tells ev \<Longrightarrow> prop_notify_child2 po q ex ev sk st = Some st' \<Longrightarrow> obs s c st' = obs s c st"
  unfolding prop_notify_child2_def
  by (erule obs_ofold)
     (auto simp: prop_build_notify_child2_def Let_def obs_call_other obs_courier_enqueue
       split: if_splits option.splits)

lemma obs_monitor_active [frame, simp]:
  "obs s c (prop_send_subscription_monitor_active p st) = obs s c st"
  unfolding prop_send_subscription_monitor_active_def
  by (rule obs_fold) (simp add: obs_courier_enqueue tells_def)

lemma obs_send_event [frame]:
  "\<not> tells ev \<Longrightarrow> obs s c (prop_send_event p ev st) = obs s c st"
  unfolding prop_send_event_def
  by (rule obs_fold) (simp add: obs_courier_enqueue obs_call_other)

lemma obs_notify_simple [frame]:
  "\<not> tells ev \<Longrightarrow> obs s c (prop_notify_simple p sk ev st) = obs s c st"
  unfolding prop_notify_simple_def by (rule obs_fold) (simp add: obs_enqueue_other)

lemma obs_notify_destroyed [frame, simp]: "obs s c (prop_notify_destroyed s' st) = obs s c st"
  by (simp add: prop_notify_destroyed_def Let_def obs_enqueue_other obs_call_other tells_def)

lemma obs_to_proxy [frame, simp]: "obs s c (to_proxy r st) = obs s c st"
  by (simp add: to_proxy_def)

lemma inherit_tree:
  assumes "inherit_multi p q st = Some st'" shows "same_tree st st'"
proof -
  have fl: "prop_flood_flag k sf cf p st = Some st' \<Longrightarrow> same_tree st st'" for k sf cf p st st'
  proof (induction k arbitrary: p st st')
    case 0 then show ?case by simp
  next
    case (Suc k)
    let ?st1 = "upd_prop p (\<lambda>x. x\<lparr>hp_flags := (hp_flags x \<union> sf) - cf\<rparr>) st"
    have "ofold (prop_flood_flag k sf cf) (hp_childs ?st1 p) ?st1 = Some st'"
      using Suc.prems by (simp add: Let_def)
    then have "same_tree ?st1 st'"
      by (rule ofold_invariant[where P = "same_tree ?st1"]) (auto intro: Suc.IH same_tree_trans)
    then show ?case by (rule same_tree_trans[rotated]) (simp add: upd_prop_same_tree)
  qed
  show ?thesis
    using assms fl by (auto simp: inherit_multi_def simp del: prop_flood_flag.simps split: if_splits)
qed

section \<open>The contract\<close>

locale prop_inv =
  fixes Inv :: "pst \<Rightarrow> bool" and skip_ok :: "sid option \<Rightarrow> bool"
  assumes skip_None: "skip_ok None"
    and quiet: "\<And>st st'. Inv st \<Longrightarrow> (\<And>s c. obs s c st' = obs s c st) \<Longrightarrow> Inv st'"
    and field: "\<And>st p f. Inv st \<Longrightarrow> (\<And>x. hp_type (f x) = hp_type x) \<Longrightarrow>
      (\<And>x. hp_value_subscriptions (f x) = hp_value_subscriptions x) \<Longrightarrow> Inv (upd_prop p f st)"
    and subfield: "\<And>st s f. Inv st \<Longrightarrow> (\<And>x. hps_flags (f x) = hps_flags x) \<Longrightarrow>
      (\<And>x. hps_dispatch (f x) = hps_dispatch x) \<Longrightarrow> (\<And>x. hps_value_prop (f x) = hps_value_prop x) \<Longrightarrow>
      (\<And>x. hps_zombie (f x) = hps_zombie x) \<Longrightarrow> Inv (upd_sub s f st)"
    and make: "\<And>st n b po. ok Inv st \<Longrightarrow> Inv (snd (prop_make n b po st))"
    and retype: "\<And>st st' p v sk. Inv st \<Longrightarrow> \<not> is_dir v \<or> childs_of v = [] \<Longrightarrow> skip_ok sk \<Longrightarrow>
      prop_notify_value p sk (set_type p v st) = Some st' \<Longrightarrow> Inv st'"
    and silent: "\<And>st p v. Inv st \<Longrightarrow> \<not> is_dir (type_of st p) \<Longrightarrow> type_of st p \<noteq> PROP_ZOMBIE \<Longrightarrow>
      \<not> is_dir v \<Longrightarrow> Inv (set_type p v st)"
    and insert: "\<And>st st' p q b sk. Inv st \<Longrightarrow> skip_ok sk \<Longrightarrow> prop_insert p q b sk st = Some st' \<Longrightarrow> Inv st'"
    and move: "\<And>st st' p b sk. Inv st \<Longrightarrow> skip_ok sk \<Longrightarrow> prop_move0 p b sk st = Some st' \<Longrightarrow> Inv st'"
    and detach: "\<And>st st' p q. Inv st \<Longrightarrow>
      remove_child q p (prop_notify_child (Some p) q EV_DEL_CHILD None st) = Some st' \<Longrightarrow> Inv st'"
    and early: "\<And>st p q. Inv st \<Longrightarrow> Inv (notify_del_child True p q st)"
    and detach_late: "\<And>st st' p q. Inv st \<Longrightarrow>
      remove_child q p (notify_del_child False p q st) = Some st' \<Longrightarrow> Inv st'"
    and select: "\<And>st q sel. Inv st \<Longrightarrow> is_dir (type_of st q) \<Longrightarrow> Inv (set_selected q sel st)"
    and vector: "\<And>st st' q b pv ev sk. ok Inv st \<Longrightarrow> is_dir (type_of st q) \<Longrightarrow> skip_ok sk \<Longrightarrow>
      ev = (if b \<noteq> None then EV_ADD_CHILD_VECTOR_BEFORE else EV_ADD_CHILD_VECTOR) \<Longrightarrow>
      ofold (set_parent_elem q b) (snd pv) st = Some st' \<Longrightarrow>
      Inv (prop_notify_childv pv q ev sk b st')"
    and retarget: "\<And>st st' p s sk. ok Inv st \<Longrightarrow> p < pnext st \<Longrightarrow> skip_ok sk \<Longrightarrow>
      retarget_subscription p s sk False st = Some st' \<Longrightarrow> Inv st'"
    and retarget_moved: "\<And>st st' p q s sk. ok Inv st \<Longrightarrow> p < pnext st \<Longrightarrow> skip_ok sk \<Longrightarrow>
      p \<noteq> q \<Longrightarrow>
      retarget_subscription p s sk False (unlink_value_sub s q st) = Some st' \<Longrightarrow> Inv st'"
    and zombify: "\<And>st p. Inv st \<Longrightarrow> Inv (set_type p PROP_ZOMBIE st)"
    and drop_all: "\<And>st p. Inv st \<Longrightarrow> type_of st p = PROP_ZOMBIE \<Longrightarrow>
      Inv (fold (drop_value_sub p) (hp_value_subscriptions (props st p)) st)"
begin

lemma ok_quiet: "ok Inv st \<Longrightarrow> (\<And>s c. obs s c st' = obs s c st) \<Longrightarrow> go Inv st st'"
  unfolding go_def ok_def
  using quiet same_tree_ok same_tree_adv shape_same_tree[OF shape_of_obs] by blast

lemma ok_same: "ok Inv st \<Longrightarrow> Inv st' \<Longrightarrow> same_tree st st' \<Longrightarrow> go Inv st st'"
  unfolding go_def ok_def using same_tree_ok same_tree_adv by blast

lemma ok_shape: "ok Inv st \<Longrightarrow> Inv st' \<Longrightarrow> shape st' = shape st \<Longrightarrow> go Inv st st'"
  by (rule ok_same[OF _ _ shape_same_tree])

lemma go_field:
  assumes "ok Inv st" "\<And>x. hp_type (f x) = hp_type x"
    "\<And>x. hp_value_subscriptions (f x) = hp_value_subscriptions x"
    "\<And>x. hp_parent (f x) = hp_parent x" "\<And>x. hp_originator (f x) = hp_originator x"
    "\<And>x. hp_targets (f x) = hp_targets x"
  shows "go Inv st (upd_prop p f st)"
  by (rule ok_same[OF assms(1) field upd_prop_same_tree]) (use assms okD in auto)

lemma go_subfield:
  assumes "ok Inv st" "\<And>x. hps_flags (f x) = hps_flags x" "\<And>x. hps_dispatch (f x) = hps_dispatch x"
    "\<And>x. hps_value_prop (f x) = hps_value_prop x" "\<And>x. hps_zombie (f x) = hps_zombie x"
  shows "go Inv st (upd_sub s f st)"
  by (rule ok_same[OF assms(1) subfield upd_sub_same_tree]) (use assms okD in auto)

text \<open>A change of links: only allocated properties are named.\<close>

lemma go_links:
  assumes "ok Inv st" "\<And>x. hp_type (f x) = hp_type x"
    "\<And>x. hp_value_subscriptions (f x) = hp_value_subscriptions x"
    "\<And>x. hp_parent (f x) = hp_parent x"
    "\<And>q. hp_originator (f (props st p)) = Some q \<Longrightarrow> q < pnext st"
    "\<And>q. q \<in> set (hp_targets (f (props st p))) \<Longrightarrow> q < pnext st"
  shows "go Inv st (upd_prop p f st)"
proof -
  have "Inv (upd_prop p f st)" by (rule field) (use assms okD in auto)
  moreover have "tree_ok (upd_prop p f st)"
    by (rule tree_ok_upd_prop) (use assms okD in auto)
  moreover have "adv st (upd_prop p f st)" using assms(2,4) by (simp add: adv_def type_of_def)
  ultimately show ?thesis by (simp add: go_def ok_def)
qed

lemma ref_inc: "ok Inv st \<Longrightarrow> go Inv st (prop_ref_inc po st)"
  by (rule ok_quiet) simp_all

lemma ref_dec: "ok Inv st \<Longrightarrow> prop_ref_dec_locked po st = Some st' \<Longrightarrow> go Inv st st'"
  by (rule ok_quiet) (simp_all add: obs_ref_dec)

lemma notify_retype:
  assumes "ok Inv st" "\<not> is_dir v \<or> childs_of v = []" "skip_ok sk"
    "prop_notify_value p sk (set_type p v st) = Some st'"
  shows "go Inv st st'"
proof -
  have i: "Inv st'" by (rule retype[OF okD(1)[OF assms(1)] assms(2-4)])
  have t: "same_tree (set_type p v st) st'"
    by (rule shape_same_tree[OF shape_notify_value[OF assms(4)]])
  show ?thesis
    using i tree_ok_set_type[OF okD(2)[OF assms(1)] assms(2)] same_tree_ok[OF t]
      adv_trans[OF _ same_tree_adv[OF t]] by (simp add: go_def ok_def)
qed

lemma silent_retype:
  assumes "ok Inv st" "\<not> is_dir (type_of st p)" "type_of st p \<noteq> PROP_ZOMBIE" "\<not> is_dir v"
  shows "go Inv st (set_type p v st)"
  using silent[OF okD(1)[OF assms(1)] assms(2-4)] tree_ok_set_type[OF okD(2)[OF assms(1)]] assms(4)
  by (simp add: go_def ok_def)

subsection \<open>Cleaning, creating, inserting\<close>

lemma clean_with:
  assumes "ok Inv st" "prop_clean_with d p st = Some (r, st')"
    and d: "\<And>st'. is_dir (type_of st p) \<Longrightarrow> d p st = Some st' \<Longrightarrow> go Inv st st'"
  shows "go Inv st st'"
  using assms go_refl[OF assms(1)] ref_dec[OF assms(1)]
  by (auto simp: prop_clean_with_def is_dir_def split: if_splits payload.splits option.splits)

lemma make_dir:
  assumes "ok Inv st" "skip_ok sk" "prop_make_dir p sk st = Some st'"
  shows "go Inv st st'"
proof (cases "is_dir (type_of st p)")
  case True
  then show ?thesis using assms go_refl by (simp add: prop_make_dir_def)
next
  case False
  with assms(3) obtain st1 where 1: "prop_clean_with (\<lambda>_ _. None) p st = Some (False, st1)"
    and 2: "prop_notify_value p sk (set_type p (PROP_DIR [] None) st1) = Some st'"
    by (auto simp: prop_make_dir_def split: option.splits prod.splits bool.splits)
  have g: "go Inv st st1" by (rule clean_with[OF assms(1) 1]) simp
  show ?thesis
    by (rule go_trans[OF g notify_retype[OF goD(1)[OF g] _ assms(2) 2]]) simp
qed

lemma flood: "ok Inv st \<Longrightarrow> prop_flood_flag k sf cf p st = Some st' \<Longrightarrow> go Inv st st'"
proof (induction k arbitrary: p st st')
  case 0
  then show ?case by simp
next
  case (Suc k)
  let ?st1 = "upd_prop p (\<lambda>x. x\<lparr>hp_flags := (hp_flags x \<union> sf) - cf\<rparr>) st"
  have g: "go Inv st ?st1" by (rule go_field[OF Suc.prems(1)]) simp_all
  have "ofold (prop_flood_flag k sf cf) (hp_childs ?st1 p) ?st1 = Some st'"
    using Suc.prems(2) by (simp add: Let_def)
  then have "go Inv ?st1 st'" by (rule go_ofold[OF _ goD(1)[OF g]]) (meson Suc.IH goD(1))
  then show ?case by (rule go_trans[OF g])
qed

lemma flood_on_childs:
  assumes "ok Inv st" "prop_flood_flag_on_childs sf cf p st = Some st'" shows "go Inv st st'"
  using assms(2) unfolding prop_flood_flag_on_childs_def
  by (rule go_ofold[OF _ assms(1)]) (meson flood goD(1))

lemma set_multi:
  assumes "ok Inv st" "prop_set_multi p st = Some st'" shows "go Inv st st'"
proof -
  let ?st1 = "upd_prop p (\<lambda>x. x\<lparr>hp_flags := Set.insert PROP_MULTI_SUB (hp_flags x)\<rparr>) st"
  have g: "go Inv st ?st1" by (rule go_field[OF assms(1)]) simp_all
  show ?thesis
    using assms(2) g go_refl[OF assms(1)] go_trans[OF g flood_on_childs[OF goD(1)[OF g]]]
    by (auto simp: prop_set_multi_def Let_def split: if_splits)
qed

lemma clr_multi:
  assumes "ok Inv st" "prop_clr_multi p st = Some st'" shows "go Inv st st'"
proof -
  let ?st1 = "upd_prop p (\<lambda>x. x\<lparr>hp_flags := hp_flags x - {PROP_MULTI_SUB}\<rparr>) st"
  have g: "go Inv st ?st1" by (rule go_field[OF assms(1)]) simp_all
  show ?thesis
    using assms(2) g go_trans[OF g flood_on_childs[OF goD(1)[OF g]]]
    by (auto simp: prop_clr_multi_def Let_def split: if_splits)
qed

lemma inherit: "ok Inv st \<Longrightarrow> inherit_multi p q st = Some st' \<Longrightarrow> go Inv st st'"
  using flood go_refl by (auto simp: inherit_multi_def simp del: prop_flood_flag.simps split: if_splits)

lemma insert_new:
  assumes "ok Inv st" "hp_parent (props st p) = Some q" "p < pnext st" "p \<notin> set (hp_childs st q)"
    "skip_ok sk" "prop_insert p q b sk st = Some st'"
  shows "ok Inv st'"
  using insert[OF okD(1)[OF assms(1)] assms(5,6)]
    tree_ok_insert(1)[OF okD(2)[OF assms(1)] assms(2,3,4,6)] by (simp add: ok_def)

lemma make_new:
  assumes "ok Inv st" "\<And>q. po = Some q \<Longrightarrow> q < pnext st"
  shows "go Inv st (snd (prop_make n b po st))"
  using make[OF assms(1)] tree_ok_make(1,2)[OF okD(2)[OF assms(1)] assms(2)] by (simp add: go_def ok_def)


lemma insert_made:
  assumes "ok Inv st" "q < pnext st" "skip_ok sk"
    and i: "inherit_multi (pnext st) q (snd (prop_make n b (Some q) st)) = Some st3"
    and r: "prop_insert (pnext st) q bf sk st3 = Some st4"
  shows "go Inv st st4" "pnext st < pnext st4"
proof -
  let ?p = "pnext st" and ?st2 = "snd (prop_make n b (Some q) st)"
  have g2: "go Inv st ?st2" by (rule make_new[OF assms(1)]) (use assms(2) in simp)
  have g3: "go Inv ?st2 st3" by (rule inherit[OF goD(1)[OF g2] i])
  note t = inherit_tree[OF i]
  have f: "?p \<notin> set (hp_childs ?st2 q)" by (rule tree_ok_make(3)[OF okD(2)[OF assms(1)]]) (use assms(2) in simp)
  have p3: "hp_parent (props st3 ?p) = Some q" "?p < pnext st3" "?p \<notin> set (hp_childs st3 q)"
    using t f by (auto simp: same_tree_def type_make)
  note T = tree_ok_insert(2,3,4)[OF okD(2)[OF goD(1)[OF g3]] p3 r]
  have "adv st st3" by (rule goD(2)[OF go_trans[OF g2 g3]])
  then have "adv st st4"
    using T(1,2) T(3) unfolding adv_def by (metis insertE less_irrefl subsetD)
  then show "go Inv st st4"
    using insert_new[OF goD(1)[OF g3] p3 assms(3) r] by (simp add: go_def)
  show "?p < pnext st4" using T(1) p3(2) by simp
qed

lemma find_child_in: "find_child st q n = Some c \<Longrightarrow> c \<in> set (hp_childs st q)"
  unfolding find_child_def by (metis find_Some_iff nth_mem)

lemma create0:
  assumes "ok Inv st" "q < pnext st" "skip_ok sk" and r: "prop_create0 q nm sk na st = Some (p, st')"
  shows "go Inv st st'" "p < pnext st'"
proof -
  have "go Inv st st' \<and> p < pnext st'"
  proof (cases "type_of st q = PROP_PROXY")
    case True
    then obtain n where e: "prop_proxy_create q n st = (p, st')"
      using r by (auto simp: prop_create0_def split: option.splits)
    let ?st1 = "snd (prop_make (Some n) False None st)"
    have g: "go Inv st ?st1" by (rule make_new[OF assms(1)]) simp
    have m: "fst (prop_make (Some n) False None st) = pnext st" by (simp add: prop_make_def)
    have e': "st' = (set_type (pnext st) PROP_PROXY ?st1)\<lparr>proxy_log := proxy_log st @ [PX_CREATE q n]\<rparr>"
      "p = pnext st"
      using e m by (auto simp: prop_proxy_create_def split: prod.splits)
    have g2: "go Inv ?st1 (set_type (pnext st) PROP_PROXY ?st1)"
      by (rule silent_retype[OF goD(1)[OF g]]) (simp_all add: type_make)
    have g3: "go Inv (set_type (pnext st) PROP_PROXY ?st1) st'"
      unfolding e' by (rule ok_quiet[OF goD(1)[OF g2]]) simp
    have "pnext st < pnext ?st1" by (simp add: type_make)
    with g2 g3 have "p < pnext st'" unfolding e'(2) using goD(3) by blast
    then show ?thesis using go_trans[OF g go_trans[OF g2 g3]] by simp
  next
    case False
    with r obtain st1 where 1: "prop_make_dir q sk st = Some st1"
      and 2: "(case Option.bind nm (find_child st1 q) of
           Some hp \<Rightarrow>
             Some (hp, if PROP_NAME_NOT_ALLOCATED \<notin> hp_flags (props st1 hp) \<and> na
                       then upd_prop hp (\<lambda>x. x\<lparr>hp_name := nm,
                              hp_flags := Set.insert PROP_NAME_NOT_ALLOCATED (hp_flags x)\<rparr>) st1
                       else st1)
         | None \<Rightarrow>
             (case prop_make nm na (Some q) st1 of
                (hp, st2) \<Rightarrow>
                  do { st3 \<leftarrow> inherit_multi hp q st2;
                       st4 \<leftarrow> prop_insert hp q None sk st3;
                       Some (hp, st4) })) = Some (p, st')"
      by (auto simp: prop_create0_def bind_eq_Some_conv split: if_splits)
    have g1: "go Inv st st1" by (rule make_dir[OF assms(1,3) 1])
    note ok1 = goD(1)[OF g1] and q1 = goD(3)[OF g1 assms(2)]
    show ?thesis
    proof (cases "Option.bind nm (find_child st1 q)")
      case (Some hp)
      then obtain n where "find_child st1 q n = Some hp" by (cases nm) auto
      then have hp: "hp < pnext st1" using tree_okD(1)[OF okD(2)[OF ok1] find_child_in] by blast
      have g: "go Inv st1 st'"
        using 2 Some go_refl[OF ok1] go_field[OF ok1] by (auto split: if_splits)
      with 2 Some hp goD(3)[OF g] go_trans[OF g1 g] show ?thesis by auto
    next
      case None
      have m: "prop_make nm na (Some q) st1 = (pnext st1, snd (prop_make nm na (Some q) st1))"
        by (simp add: prop_make_def)
      from 2 None m obtain st3 where p: "p = pnext st1"
        and i: "inherit_multi (pnext st1) q (snd (prop_make nm na (Some q) st1)) = Some st3"
        and ins: "prop_insert (pnext st1) q None sk st3 = Some st'"
        by (auto simp: bind_eq_Some_conv split: prod.splits)
      show ?thesis
        using insert_made[OF ok1 q1 assms(3) i ins] go_trans[OF g1] p by simp
    qed
  qed
  then show "go Inv st st'" "p < pnext st'" by simp_all
qed

subsection \<open>Detaching\<close>

lemma remove_child_go:
  assumes "ok Inv st" "hp_parent (props st p) = Some q \<or> hp_parent (props st p) = None"
    "shape st1 = shape st" "remove_child q p st1 = Some st'" "Inv st'"
  shows "go Inv st st'" "hp_parent (props st' p) = None"
proof -
  note t = shape_same_tree[OF assms(3)]
  have k: "tree_ok st1" using same_tree_ok[OF t] okD(2)[OF assms(1)] by simp
  have p: "hp_parent (props st1 p) = Some q \<or> hp_parent (props st1 p) = None"
    using assms(2) t by (simp add: same_tree_def)
  show "go Inv st st'" "hp_parent (props st' p) = None"
    using tree_ok_remove_child[OF k p assms(4)] assms(5) adv_trans[OF same_tree_adv[OF t]]
    by (simp_all add: go_def ok_def)
qed

lemma deselect: assumes "ok Inv st" shows "go Inv st (deselect q p st)"
proof (cases "hp_selected st q = Some p")
  case True
  then have d: "is_dir (type_of st q)" by (auto simp: is_dir_def selected_of_def split: payload.splits)
  show ?thesis
    using True tree_ok_set_selected[OF okD(2)[OF assms]] select[OF okD(1)[OF assms] d]
    by (simp add: deselect_def go_def ok_def)
next
  case False
  then show ?thesis using go_refl[OF assms] by (simp add: deselect_def)
qed

lemma unparent0:
  assumes "ok Inv st" "prop_unparent0 p st = Some st'"
  shows "go Inv st st'" "hp_parent (props st' p) = None"
proof -
  have "go Inv st st' \<and> hp_parent (props st' p) = None"
  proof (cases "hp_parent (props st p)")
    case None
    then show ?thesis using assms go_refl by (simp add: prop_unparent0_def)
  next
    case (Some q)
    with assms(2) obtain st1 where
      1: "remove_child q p (prop_notify_child (Some p) q EV_DEL_CHILD None st) = Some st1"
      and 2: "st' = deselect q p st1"
      by (auto simp: prop_unparent0_def split: if_splits)
    have g: "go Inv st st1" "hp_parent (props st1 p) = None"
      using remove_child_go[OF assms(1) _ _ 1 detach[OF okD(1)[OF assms(1)] 1]] Some by simp_all
    show ?thesis
      using go_trans[OF g(1) deselect[OF goD(1)[OF g(1)]]] g(2) 2 by (simp add: deselect_def)
  qed
  then show "go Inv st st'" "hp_parent (props st' p) = None" by simp_all
qed

end

end
