(* ===== verification/Prop_Kept_Link.thy ===== *)
theory Prop_Kept_Link
  imports Prop_Kept
begin

text \<open>
  Linking, unlinking and destroying keep every invariant of the contract \<open>prop_inv\<close>. The
  recursion of \<open>prop_destroy0\<close> is itself a contract, \<open>destroyer_inv\<close>: its helpers keep the
  invariant for every destroyer that does.
\<close>

lemma follow_originator_less:
  assumes "tree_ok st" "p < pnext st" "follow_originator k st p = Some q"
  shows "q < pnext st"
  using assms(2,3)
proof (induction k arbitrary: p)
  case 0 then show ?case by simp
next
  case (Suc k)
  then show ?case using tree_okD(4)[OF assms(1)] by (auto split: option.splits)
qed

lemma unlink_same_tree: "same_tree st (unlink_value_sub s v st)"
  by (simp add: unlink_value_sub_def upd_prop_same_tree)

lemma retarget_leave_same_tree: "retarget_leave p s sk st = Some (e, st1) \<Longrightarrow> same_tree st st1"
  by (auto simp: retarget_leave_def Let_def split: option.splits if_splits
      intro: unlink_same_tree same_tree_trans[OF shape_same_tree unlink_same_tree])

lemma retarget_enter_same_tree: "same_tree st (retarget_enter p s st)"
proof -
  have "same_tree st (upd_sub s (\<lambda>x. x\<lparr>hps_value_prop := Some p\<rparr>)
          (upd_prop p (\<lambda>x. x\<lparr>hp_value_subscriptions := s # hp_value_subscriptions x\<rparr>) st))"
    by (rule same_tree_trans[OF upd_prop_same_tree upd_sub_same_tree]) simp_all
  then show ?thesis
    using same_tree_trans[OF _ shape_same_tree[OF shape_monitor_active]]
    by (simp add: retarget_enter_def Let_def)
qed

lemma retarget_tell_same_tree:
  assumes "retarget_tell p s False st = Some st'" shows "same_tree st st'"
proof -
  have "shape st' = shape (upd_sub s (\<lambda>x. x\<lparr>hps_pending_unlink := False\<rparr>) st)"
    using assms by (auto simp: retarget_tell_def shape_fold dest: shape_build_notify_value)
  then show ?thesis by (rule same_tree_trans[OF upd_sub_same_tree shape_same_tree])
qed

lemma retarget_same_tree:
  "retarget_subscription p s sk False st = Some st' \<Longrightarrow> same_tree st st'"
  by (auto simp: retarget_subscription_def Let_def split: if_splits option.splits
      dest!: retarget_leave_same_tree retarget_tell_same_tree
      intro: same_tree_trans[OF _ retarget_enter_same_tree]
             same_tree_trans[OF _ same_tree_trans[OF retarget_enter_same_tree]])

context prop_inv begin

lemma retarget_go:
  assumes "ok Inv st" "p < pnext st" "skip_ok sk" "retarget_subscription p s sk False st = Some st'"
  shows "go Inv st st'"
  by (rule ok_same[OF assms(1) retarget[OF assms] retarget_same_tree[OF assms(4)]])

lemma retarget_moved_go:
  assumes "ok Inv st" "p < pnext st" "skip_ok sk" "p \<noteq> q"
    "retarget_subscription p s sk False (unlink_value_sub s q st) = Some st'"
  shows "go Inv st st'"
proof (rule ok_same[OF assms(1) retarget_moved[OF assms]])
  have "same_tree st (unlink_value_sub s q st)" by (simp add: unlink_value_sub_def upd_prop_same_tree)
  then show "same_tree st st'" by (rule same_tree_trans[OF _ retarget_same_tree[OF assms(5)]])
qed

lemma prepend: "ok Inv st \<Longrightarrow> go Inv st (prepend_origins s pv st)"
  unfolding prepend_origins_def
proof (rule go_fold, assumption)
  fix p u assume "go Inv st u"
  then have k: "ok Inv u" by (rule goD)
  have g: "go Inv u (upd_sub s (\<lambda>x. x\<lparr>hps_origins := p # hps_origins x\<rparr>) u)"
    by (rule go_subfield[OF k]) simp_all
  show "go Inv u (prepend_origin s p u)"
    using go_trans[OF g ref_inc[OF goD(1)[OF g]]] go_refl[OF k] by (simp add: prepend_origin_def)
qed

lemma restore_one:
  assumes "ok Inv st" "dst < pnext st" "skip_ok sk" "restore_one dst sk False b pv s st = Some st'"
  shows "go Inv st st'"
proof (cases "b \<in> set (hps_origins (subs st s))")
  case False then show ?thesis using assms go_refl by (simp add: restore_one_def)
next
  case True
  let ?u = "upd_sub s (\<lambda>x. x\<lparr>hps_origins := remove1 b (hps_origins x)\<rparr>) st"
  from True assms(4) obtain st1 st2 where 1: "prop_ref_dec_locked (Some b) ?u = Some st1"
    and 2: "retarget_subscription dst s sk False st1 = Some st2" and 3: "st' = prepend_origins s pv st2"
    by (auto simp: restore_one_def bind_eq_Some_conv)
  have g0: "go Inv st ?u" by (rule go_subfield[OF assms(1)]) simp_all
  have g1: "go Inv st st1" by (rule go_trans[OF g0 ref_dec[OF goD(1)[OF g0] 1]])
  have g2: "go Inv st st2"
    by (rule go_trans[OF g1 retarget_go[OF goD(1)[OF g1] goD(3)[OF g1 assms(2)] assms(3) 2]])
  show ?thesis unfolding 3 by (rule go_trans[OF g2 prepend[OF goD(1)[OF g2]]])
qed

lemma created_dir:
  assumes "ok Inv st" "q < pnext st" "skip_ok sk" "prop_create0 q nm None na st = Some (z, st2)"
    "(if is_dir (type_of st2 c) then prop_make_dir z sk st2 else Some st2) = Some st3"
  shows "go Inv st st3" "z < pnext st3"
proof -
  have g: "go Inv st st2" "z < pnext st2" by (rule create0[OF assms(1,2) skip_None assms(4)])+
  have g2: "go Inv st2 st3"
    using assms(5) make_dir[OF goD(1)[OF g(1)] assms(3)] go_refl[OF goD(1)[OF g(1)]]
    by (auto split: if_splits)
  show "go Inv st st3" by (rule go_trans[OF g(1) g2])
  show "z < pnext st3" by (rule goD(3)[OF g2 g(2)])
qed

lemma restore_descend:
  assumes "ok Inv st" "dst < pnext st" "skip_ok sk"
    "restore_and_descend k dst src sk False b pv st = Some st'"
  shows "go Inv st st'"
  using assms
proof (induction k arbitrary: dst src st st')
  case 0 then show ?case by simp
next
  case (Suc k)
  from Suc.prems(4) obtain st1 where
    1: "ofold (restore_one dst sk False b pv) (hp_value_subscriptions (props st src)) st = Some st1"
    and 2: "ofold (\<lambda>c st.
            (case hp_name (props st c) of
               None \<Rightarrow> Some st
             | Some nm \<Rightarrow>
                 do { q \<leftarrow> follow_originator (Suc (pnext st)) st c;
                      found \<leftarrow> search_for_linkage (Suc (pnext st)) st q b;
                      if \<not> found then Some st
                      else do {
                        (z, st2) \<leftarrow> prop_create0 dst (Some nm) None
                                       (PROP_NAME_NOT_ALLOCATED \<in> hp_flags (props st c)) st;
                        st3 \<leftarrow> (if is_dir (type_of st2 c) then prop_make_dir z sk st2 else Some st2);
                        restore_and_descend k z q sk False b pv st3 } }))
            (hp_childs st1 src) st1 = Some st'"
    by (auto simp: bind_eq_Some_conv)
  have g1: "go Inv st st1"
    by (rule go_ofold[OF 1 Suc.prems(1)]) (meson restore_one goD Suc.prems(2,3))
  have "go Inv st1 st'"
  proof (rule go_ofold[OF 2 goD(1)[OF g1]])
    fix c u v
    assume gu: "go Inv st1 u" and r: "(case hp_name (props u c) of
               None \<Rightarrow> Some u
             | Some nm \<Rightarrow>
                 do { q \<leftarrow> follow_originator (Suc (pnext u)) u c;
                      found \<leftarrow> search_for_linkage (Suc (pnext u)) u q b;
                      if \<not> found then Some u
                      else do {
                        (z, st2) \<leftarrow> prop_create0 dst (Some nm) None
                                       (PROP_NAME_NOT_ALLOCATED \<in> hp_flags (props u c)) u;
                        st3 \<leftarrow> (if is_dir (type_of st2 c) then prop_make_dir z sk st2 else Some st2);
                        restore_and_descend k z q sk False b pv st3 } }) = Some v"
    note ku = goD(1)[OF gu] and du = goD(3)[OF gu goD(3)[OF g1 Suc.prems(2)]]
    show "go Inv u v"
    proof (cases "v = u")
      case True then show ?thesis using go_refl[OF ku] by simp
    next
      case False
      with r obtain nm q z st2 st3 where
        2: "prop_create0 dst (Some nm) None (PROP_NAME_NOT_ALLOCATED \<in> hp_flags (props u c)) u = Some (z, st2)"
        and 3: "(if is_dir (type_of st2 c) then prop_make_dir z sk st2 else Some st2) = Some st3"
        and 4: "restore_and_descend k z q sk False b pv st3 = Some v"
        by (fastforce simp: bind_eq_Some_conv simp del: follow_originator.simps search_for_linkage.simps
            split: option.splits if_splits)
      have g: "go Inv u st3" "z < pnext st3" by (rule created_dir[OF ku du Suc.prems(3) 2 3])+
      show ?thesis
        by (rule go_trans[OF g(1) Suc.IH[OF goD(1)[OF g(1)] g(2) Suc.prems(3) 4]])
    qed
  qed
  with g1 show ?case by (rule go_trans)
qed

lemma follow_and_unlink:
  assumes "ok Inv st" "dst < pnext st" "skip_ok sk"
    "prop_follow_and_unlink k dst src sk False pv st = Some st'"
  shows "go Inv st st'"
  using assms(4)
proof (induction k arbitrary: src pv)
  case 0 then show ?case by simp
next
  case (Suc k)
  then show ?case
    using restore_descend[OF assms(1,2,3)] go_refl[OF assms(1)]
    by (auto simp: bind_eq_Some_conv simp del: restore_and_descend.simps search_for_linkage.simps
        split: option.splits if_splits)
qed

lemma relink:
  assumes "ok Inv st" "src < pnext st" "skip_ok sk"
    "relink_subscriptions k src dst sk pv st = Some st'"
  shows "go Inv st st'"
  using assms
proof (induction k arbitrary: src dst pv st st')
  case 0 then show ?case by simp
next
  case (Suc k)
  note k0 = Suc.prems(1) and s0 = Suc.prems(2) and sk = Suc.prems(3)
  show ?case
  proof (cases "hp_originator (props st src)")
    case (Some q)
    have "q < pnext st" by (rule tree_okD(4)[OF okD(2)[OF k0] Some])
    then show ?thesis using Suc.IH[OF k0 _ sk] Suc.prems(4) Some by simp
  next
    case None
    with Suc.prems(4) have ne: "src \<noteq> dst" by auto
    from None ne Suc.prems(4) obtain st1 where
      1: "ofold (\<lambda>s st. map_option (prepend_origins s pv)
                   (retarget_subscription src s sk False (unlink_value_sub s dst st)))
            (hp_value_subscriptions (props st dst)) st = Some st1"
      and 2: "(if \<not> is_dir (type_of st1 dst) then Some st1
            else if \<not> is_dir (type_of st1 src) \<and> type_of st1 src \<noteq> PROP_VOID then Some st1
            else do {
              st2 \<leftarrow> prop_make_dir src sk st1;
              ofold (\<lambda>c st.
                (case hp_name (props st c) of
                   None \<Rightarrow> Some st
                 | Some nm \<Rightarrow>
                     do { (z, st3) \<leftarrow> prop_create0 src (Some nm) None
                                         (PROP_NAME_NOT_ALLOCATED \<in> hp_flags (props st c)) st;
                          st4 \<leftarrow> (if is_dir (type_of st3 c) then prop_make_dir z sk st3 else Some st3);
                          relink_subscriptions k z c sk pv st4 }))
                (hp_childs st2 dst) st2 }) = Some st'"
      by (auto simp: bind_eq_Some_conv)
    have g1: "go Inv st st1"
    proof (rule go_ofold[OF 1 k0])
      fix s u v
      assume gu: "go Inv st u" and r: "map_option (prepend_origins s pv)
                   (retarget_subscription src s sk False (unlink_value_sub s dst u)) = Some v"
      then obtain w where w: "retarget_subscription src s sk False (unlink_value_sub s dst u) = Some w"
        and v: "v = prepend_origins s pv w" by auto
      have g: "go Inv u w"
        by (rule retarget_moved_go[OF goD(1)[OF gu] goD(3)[OF gu s0] sk ne w])
      show "go Inv u v" unfolding v by (rule go_trans[OF g prepend[OF goD(1)[OF g]]])
    qed
    show ?thesis
    proof (cases "st' = st1")
      case True then show ?thesis using g1 by simp
    next
      case False
      with 2 obtain st2 where d: "prop_make_dir src sk st1 = Some st2"
        and f: "ofold (\<lambda>c st.
                (case hp_name (props st c) of
                   None \<Rightarrow> Some st
                 | Some nm \<Rightarrow>
                     do { (z, st3) \<leftarrow> prop_create0 src (Some nm) None
                                         (PROP_NAME_NOT_ALLOCATED \<in> hp_flags (props st c)) st;
                          st4 \<leftarrow> (if is_dir (type_of st3 c) then prop_make_dir z sk st3 else Some st3);
                          relink_subscriptions k z c sk pv st4 }))
                (hp_childs st2 dst) st2 = Some st'"
        by (auto simp: bind_eq_Some_conv split: if_splits)
      have g2: "go Inv st st2" by (rule go_trans[OF g1 make_dir[OF goD(1)[OF g1] sk d]])
      have "go Inv st2 st'"
      proof (rule go_ofold[OF f goD(1)[OF g2]])
        fix c u v
        assume gu: "go Inv st2 u" and r: "(case hp_name (props u c) of
                   None \<Rightarrow> Some u
                 | Some nm \<Rightarrow>
                     do { (z, st3) \<leftarrow> prop_create0 src (Some nm) None
                                         (PROP_NAME_NOT_ALLOCATED \<in> hp_flags (props u c)) u;
                          st4 \<leftarrow> (if is_dir (type_of st3 c) then prop_make_dir z sk st3 else Some st3);
                          relink_subscriptions k z c sk pv st4 }) = Some v"
        note ku = goD(1)[OF gu] and su = goD(3)[OF gu goD(3)[OF g2 s0]]
        show "go Inv u v"
        proof (cases "hp_name (props u c)")
          case None then show ?thesis using r go_refl[OF ku] by simp
        next
          case (Some nm)
          with r obtain z st3 st4 where
            3: "prop_create0 src (Some nm) None (PROP_NAME_NOT_ALLOCATED \<in> hp_flags (props u c)) u = Some (z, st3)"
            and 4: "(if is_dir (type_of st3 c) then prop_make_dir z sk st3 else Some st3) = Some st4"
            and 5: "relink_subscriptions k z c sk pv st4 = Some v"
            by (auto simp: bind_eq_Some_conv)
          have g: "go Inv u st4" "z < pnext st4" by (rule created_dir[OF ku su sk 3 4])+
          show ?thesis by (rule go_trans[OF g(1) Suc.IH[OF goD(1)[OF g(1)] g(2) sk 5]])
        qed
      qed
      with g2 show ?thesis by (rule go_trans)
    qed
  qed
qed

end

end
