(* ===== verification/Prop_Kept_Destroy.thy ===== *)
theory Prop_Kept_Destroy
  imports Prop_Kept_Link
begin

text \<open>
  The contract of a destroyer, as \<open>prop_destroy0\<close>'s helpers use it, and the recursion that
  provides it.
\<close>

context prop_inv begin

lemma go_untarget:
  assumes "ok Inv st" shows "go Inv st (upd_prop q (\<lambda>x. x\<lparr>hp_targets := remove1 p (hp_targets x)\<rparr>) st)"
proof (rule go_links[OF assms])
  fix t assume "t \<in> set (hp_targets (props st q\<lparr>hp_targets := remove1 p (hp_targets (props st q))\<rparr>))"
  then have "t \<in> set (remove1 p (hp_targets (props st q)))" by simp
  then have "t \<in> set (hp_targets (props st q))" using set_remove1_subset by (rule subsetD[rotated])
  then show "t < pnext st" by (rule tree_okD(5)[OF okD(2)[OF assms]])
qed (use tree_okD(4)[OF okD(2)[OF assms]] in simp_all)

end

locale destroyer_inv = prop_inv +
  fixes destroy :: destroyer
  assumes destroys: "\<And>st p r st'. ok Inv st \<Longrightarrow> p < pnext st \<Longrightarrow> destroy p st = Some (r, st') \<Longrightarrow> go Inv st st'"
begin

lemma unlink0:
  assumes "ok Inv st" "dst < pnext st" "skip_ok sk" "prop_unlink0_with destroy dst sk False st = Some st'"
  shows "go Inv st st'"
proof -
  from assms(4) obtain src where src: "hp_originator (props st dst) = Some src"
    by (auto simp: prop_unlink0_with_def split: option.splits)
  let ?a = "upd_prop dst (\<lambda>x. x\<lparr>hp_originator := None\<rparr>) st"
  let ?b = "upd_prop src (\<lambda>x. x\<lparr>hp_targets := remove1 dst (hp_targets x)\<rparr>) ?a"
  from src assms(4) obtain st1 where
    1: "prop_follow_and_unlink (Suc (pnext st)) dst src sk False [] ?b = Some st1"
    and 2: "(if PROP_XREFED_ORIGINATOR \<in> hp_flags (props st1 dst)
             then map_option (\<lambda>(_, st2). upd_prop dst
                       (\<lambda>x. x\<lparr>hp_flags := hp_flags x - {PROP_XREFED_ORIGINATOR}\<rparr>) st2)
                      (destroy src st1)
             else Some st1) = Some st'"
    by (auto simp: prop_unlink0_with_def bind_eq_Some_conv simp del: prop_follow_and_unlink.simps)
  note T = tree_okD[OF okD(2)]
  have ga: "go Inv st ?a"
    by (rule go_links[OF assms(1)]) (use T(4,5)[OF assms(1)] in auto)
  have gb: "go Inv st ?b" by (rule go_trans[OF ga go_untarget[OF goD(1)[OF ga]]])
  have g1: "go Inv st st1"
    by (rule go_trans[OF gb follow_and_unlink[OF goD(1)[OF gb] goD(3)[OF gb assms(2)] assms(3) 1]])
  have s1: "src < pnext st1" by (rule goD(3)[OF g1 T(4)[OF assms(1) src]])
  show ?thesis
  proof (cases "PROP_XREFED_ORIGINATOR \<in> hp_flags (props st1 dst)")
    case True
    with 2 obtain r st2 where d: "destroy src st1 = Some (r, st2)"
      and e: "st' = upd_prop dst (\<lambda>x. x\<lparr>hp_flags := hp_flags x - {PROP_XREFED_ORIGINATOR}\<rparr>) st2"
      by auto
    have g2: "go Inv st st2" by (rule go_trans[OF g1 destroys[OF goD(1)[OF g1] s1 d]])
    show ?thesis unfolding e
      by (rule go_trans[OF g2 go_field[OF goD(1)[OF g2]]]) simp_all
  next
    case False with 2 g1 show ?thesis by simp
  qed
qed

lemma from_originator:
  assumes "ok Inv st" "p < pnext st" "prop_remove_from_originator destroy p st = Some st'"
  shows "go Inv st st'"
proof -
  note T = tree_okD[OF okD(2)]
  from assms(3) obtain q where q: "hp_originator (props st p) = Some q"
    by (auto simp: prop_remove_from_originator_def split: option.splits)
  let ?a = "upd_prop q (\<lambda>x. x\<lparr>hp_targets := remove1 p (hp_targets x)\<rparr>) st"
  have ga: "go Inv st ?a" by (rule go_untarget[OF assms(1)])
  from assms(3) q obtain st2 where
    1: "(if PROP_XREFED_ORIGINATOR \<in> hp_flags (props ?a p)
         then map_option (\<lambda>(_, st'). upd_prop p
                 (\<lambda>x. x\<lparr>hp_flags := hp_flags x - {PROP_XREFED_ORIGINATOR}\<rparr>) st') (destroy q ?a)
         else Some ?a) = Some st2"
    and 2: "st' = upd_prop p (\<lambda>x. x\<lparr>hp_originator := None\<rparr>) st2"
    by (auto simp: prop_remove_from_originator_def Let_def bind_eq_Some_conv)
  have g2: "go Inv st st2"
  proof (cases "PROP_XREFED_ORIGINATOR \<in> hp_flags (props ?a p)")
    case True
    with 1 obtain r st3 where d: "destroy q ?a = Some (r, st3)"
      and e: "st2 = upd_prop p (\<lambda>x. x\<lparr>hp_flags := hp_flags x - {PROP_XREFED_ORIGINATOR}\<rparr>) st3"
      by (auto split: if_splits)
    have g3: "go Inv st st3"
      by (rule go_trans[OF ga destroys[OF goD(1)[OF ga] goD(3)[OF ga T(4)[OF assms(1) q]] d]])
    show ?thesis unfolding e by (rule go_trans[OF g3 go_field[OF goD(1)[OF g3]]]) simp_all
  next
    case False with 1 ga show ?thesis by (auto split: if_splits)
  qed
  show ?thesis unfolding 2
    by (rule go_trans[OF g2 go_links[OF goD(1)[OF g2]]]) (use T(5)[OF goD(1)[OF g2]] in auto)
qed

lemma recursive_unlink_go:
  assumes "ok Inv st" "p < pnext st" "recursive_unlink k destroy p st = Some st'"
  shows "go Inv st st'"
  using assms
proof (induction k arbitrary: p st st')
  case 0 then show ?case by simp
next
  case (Suc k)
  show ?case
  proof (cases "hp_targets (props st p)")
    case Nil then show ?thesis using Suc.prems go_refl by simp
  next
    case (Cons c cs)
    with Suc.prems(3) obtain st1 st2 where 1: "recursive_unlink k destroy c st = Some st1"
      and 2: "prop_unlink0_with destroy c None False st1 = Some st2"
      and 3: "recursive_unlink k destroy p st2 = Some st'"
      by (auto simp: bind_eq_Some_conv)
    have c: "c < pnext st" by (rule tree_okD(5)[OF okD(2)[OF Suc.prems(1)], of c p]) (simp add: Cons)
    have g1: "go Inv st st1" by (rule Suc.IH[OF Suc.prems(1) c 1])
    have g2: "go Inv st st2"
      by (rule go_trans[OF g1 unlink0[OF goD(1)[OF g1] goD(3)[OF g1 c] skip_None 2]])
    show ?thesis
      by (rule go_trans[OF g2 Suc.IH[OF goD(1)[OF g2] goD(3)[OF g2 Suc.prems(2)] 3]])
  qed
qed

lemma destroy_child:
  assumes "ok Inv st" "c < pnext st" "hp_parent (props st c) = Some p \<or> hp_parent (props st c) = None"
    "prop_destroy_child destroy p c st = Some st'"
  shows "go Inv st st'"
proof -
  from assms(4) obtain r st1 where d: "destroy c st = Some (r, st1)"
    and e: "(if r then Some st1 else remove_child p c (prop_notify_child (Some c) p EV_DEL_CHILD None st1)) = Some st'"
    by (auto simp: prop_destroy_child_def split: option.splits prod.splits bool.splits)
  have g: "go Inv st st1" by (rule destroys[OF assms(1,2) d])
  show ?thesis
  proof (cases r)
    case True with e g show ?thesis by simp
  next
    case False
    with e have f: "remove_child p c (prop_notify_child (Some c) p EV_DEL_CHILD None st1) = Some st'" by simp
    have pa: "hp_parent (props st1 c) = Some p \<or> hp_parent (props st1 c) = None"
      using advD(1)[OF goD(2)[OF g] assms(2)] assms(3) by auto
    show ?thesis
      by (rule go_trans[OF g remove_child_go(1)[OF goD(1)[OF g] pa _ f detach[OF okD(1)[OF goD(1)[OF g]] f]]])
         simp
  qed
qed

lemma destroy_childs_loop:
  assumes "ok Inv st" "\<And>c. c \<in> set cs \<Longrightarrow> hp_parent (props st c) = Some p \<and> c < pnext st"
    "ofold (prop_destroy_child destroy p) cs st = Some st'"
  shows "go Inv st st'"
proof (rule go_ofold[OF assms(3,1)])
  fix c u v assume c: "c \<in> set cs" and g: "go Inv st u" and r: "prop_destroy_child destroy p c u = Some v"
  have "hp_parent (props u c) = Some p \<or> hp_parent (props u c) = None"
    using advD(1)[OF goD(2)[OF g], of c] assms(2)[OF c] by auto
  from destroy_child[OF goD(1)[OF g] goD(3)[OF g] this r] show "go Inv u v"
    using assms(2)[OF c] by simp
qed

lemma payload:
  assumes "ok Inv st" "destroy_payload destroy p st = Some st'" shows "go Inv st st'"
proof (cases "type_of st p")
  case (PROP_DIR cs sel)
  show ?thesis
    by (rule destroy_childs_loop[OF assms(1), of cs p])
       (use assms(2) PROP_DIR tree_okD(1,2)[OF okD(2)[OF assms(1)], of _ p] in \<open>auto simp: destroy_payload_def\<close>)
next
  case (PROP_PROP q)
  then show ?thesis using ref_dec[OF assms(1)] assms(2) by (simp add: destroy_payload_def)
qed (use assms go_refl in \<open>simp_all add: destroy_payload_def\<close>)

lemma early_go: "ok Inv st \<Longrightarrow> go Inv st (notify_del_child True p q st)"
  by (rule ok_shape[OF _ early]) (simp_all add: okD)

lemma zombify_go: "ok Inv st \<Longrightarrow> go Inv st (set_type p PROP_ZOMBIE st)"
  using zombify okD tree_ok_set_type by (simp add: go_def ok_def)

lemma drop_canonical: "ok Inv st \<Longrightarrow> go Inv st (drop_canonical_sub p s st)"
proof -
  assume k: "ok Inv st"
  let ?a = "upd_prop p (\<lambda>x. x\<lparr>hp_canonical_subscriptions := remove1 s (hp_canonical_subscriptions x)\<rparr>) st"
  let ?b = "upd_sub s (\<lambda>x. x\<lparr>hps_canonical_prop := None\<rparr>) ?a"
  have a: "go Inv st ?a" by (rule go_field[OF k]) simp_all
  have b: "go Inv ?a ?b" by (rule go_subfield[OF goD(1)[OF a]]) simp_all
  have c: "go Inv ?b (drop_canonical_sub p s st)"
    by (rule ok_quiet[OF goD(1)[OF b]]) (simp add: drop_canonical_sub_def Let_def)
  show ?thesis by (rule go_trans[OF a go_trans[OF b c]])
qed

lemma drop_value_same_tree: "same_tree st (drop_value_sub p s st)"
proof -
  have "same_tree st u \<Longrightarrow> same_tree st (upd_sub s (\<lambda>x. x\<lparr>hps_value_prop := None\<rparr>) (unlink_value_sub s p u))" for u
    by (rule same_tree_trans[OF _ same_tree_trans[OF unlink_same_tree upd_sub_same_tree]])
  then show ?thesis by (simp add: drop_value_sub_def Let_def shape_same_tree)
qed

lemma drop_values:
  assumes "ok Inv st" "type_of st p = PROP_ZOMBIE"
  shows "go Inv st (fold (drop_value_sub p) (hp_value_subscriptions (props st p)) st)"
proof (rule ok_same[OF assms(1) drop_all[OF okD(1)[OF assms(1)] assms(2)]])
  show "same_tree st (fold (drop_value_sub p) xs st)" for xs
    by (induction xs arbitrary: st) (auto intro: same_tree_trans drop_value_same_tree)
qed

lemma drop_canonical_type: "type_of (fold (drop_canonical_sub p) xs st) q = type_of st q"
proof (induction xs arbitrary: st)
  case (Cons x xs)
  have "type_of (prop_notify_destroyed x u) q = type_of u q" for u
    by (rule shape_eqD(1)[OF shape_notify_destroyed])
  then have "type_of (drop_canonical_sub p x st) q = type_of st q"
    by (simp add: drop_canonical_sub_def Let_def) (simp add: type_of_def)
  with Cons show ?case by simp
qed simp

lemma leave_parent:
  assumes "ok Inv st" "hp_parent (props st p) = Some q \<or> hp_parent (props st p) = None"
    "map_option (deselect q p) (remove_child q p (notify_del_child False p q st)) = Some st'"
  shows "go Inv st st'"
proof -
  from assms(3) obtain st1 where 1: "remove_child q p (notify_del_child False p q st) = Some st1"
    and 2: "st' = deselect q p st1" by auto
  have g: "go Inv st st1"
    by (rule remove_child_go(1)[OF assms(1,2) _ 1 detach_late[OF okD(1)[OF assms(1)] 1]]) simp
  show ?thesis unfolding 2 by (rule go_trans[OF g deselect[OF goD(1)[OF g]]])
qed

lemma drop_subs:
  assumes "ok Inv st" "type_of st p = PROP_ZOMBIE" shows "go Inv st (drop_subs p st)"
proof -
  let ?u = "fold (drop_canonical_sub p) (hp_canonical_subscriptions (props st p)) st"
  have g: "go Inv st ?u" by (rule go_fold[OF assms(1)]) (rule drop_canonical[OF goD(1)])
  have z: "type_of ?u p = PROP_ZOMBIE" using assms(2) by (simp add: drop_canonical_type)
  show ?thesis
    unfolding drop_subs_def Let_def by (rule go_trans[OF g drop_values[OF goD(1)[OF g] z]])
qed

lemma leave:
  assumes "ok Inv st" "p < pnext st" "\<And>q. parent = Some q \<Longrightarrow>
      hp_parent (props st p) = Some q \<or> hp_parent (props st p) = None"
    and r: "destroy_leave destroy p parent st = Some (b, st')"
  shows "go Inv st st'"
proof -
  from r obtain st1 st2 where
    1: "(if hp_originator (props st p) \<noteq> None
           then prop_remove_from_originator destroy p st else Some st) = Some st1"
    and 2: "(case parent of None \<Rightarrow> Some st1
                | Some q \<Rightarrow> map_option (deselect q p)
                              (remove_child q p (notify_del_child False p q st1))) = Some st2"
    and 3: "prop_ref_dec_locked (Some p) st2 = Some st'"
    unfolding destroy_leave_def bind_eq_Some_conv by auto
  have g1: "go Inv st st1"
  proof (cases "hp_originator (props st p) \<noteq> None")
    case True
    with 1 have "prop_remove_from_originator destroy p st = Some st1" by simp
    then show ?thesis by (rule from_originator[OF assms(1,2)])
  next
    case False
    with 1 show ?thesis using go_refl[OF assms(1)] by simp
  qed
  have g2: "go Inv st st2"
  proof (cases parent)
    case None with 2 g1 show ?thesis by simp
  next
    case (Some q)
    have "hp_parent (props st1 p) = Some q \<or> hp_parent (props st1 p) = None"
      using advD(1)[OF goD(2)[OF g1] assms(2)] assms(3)[OF Some] by auto
    with 2 Some show ?thesis using go_trans[OF g1 leave_parent[OF goD(1)[OF g1]]] by simp
  qed
  show ?thesis by (rule go_trans[OF g2 ref_dec[OF goD(1)[OF g2] 3]])
qed

lemma live:
  assumes "ok Inv st" "p < pnext st" "\<And>q. parent = Some q \<Longrightarrow>
      hp_parent (props st p) = Some q \<or> hp_parent (props st p) = None"
    and r: "destroy_live destroy p parent st = Some (b, st')"
  shows "go Inv st st'"
proof (cases "type_of st p = PROP_PROXY")
  case True
  let ?z = "set_type p PROP_ZOMBIE st"
  let ?l = "?z\<lparr>proxy_log := proxy_log st @ [PX_DESTROY p]\<rparr>"
  have gz: "go Inv st ?z" by (rule zombify_go[OF assms(1)])
  have gl: "go Inv ?z ?l" by (rule ok_quiet[OF goD(1)[OF gz]]) simp
  from r True have "prop_ref_dec_locked (Some p) ?l = Some st'"
    by (auto simp: destroy_live_def split: if_splits)
  from ref_dec[OF goD(1)[OF gl] this] show ?thesis by (rule go_trans[OF gz go_trans[OF gl]])
next
  case False
  with r obtain st1 where 1: "destroy_payload destroy p st = Some st1"
    and 2: "destroy_leave destroy p parent (drop_subs p (set_type p PROP_ZOMBIE st1)) = Some (b, st')"
    by (auto simp: destroy_live_def bind_eq_Some_conv)
  let ?z = "set_type p PROP_ZOMBIE st1"
  have g1: "go Inv st st1" by (rule payload[OF assms(1) 1])
  have gz: "go Inv st ?z" by (rule go_trans[OF g1 zombify_go[OF goD(1)[OF g1]]])
  have gd: "go Inv st (drop_subs p ?z)"
    by (rule go_trans[OF gz drop_subs[OF goD(1)[OF gz]]]) simp
  show ?thesis
    by (rule go_trans[OF gd leave[OF goD(1)[OF gd] goD(3)[OF gd assms(2)] _ 2]])
       (use advD(1)[OF goD(2)[OF gd] assms(2)] assms(3) in metis)
qed

lemma body:
  assumes "ok Inv st" "p < pnext st" "prop_destroy0_body destroy p st = Some (b, st')"
  shows "go Inv st st'"
proof -
  let ?st1 = "upd_prop p (\<lambda>x. x\<lparr>hp_xref := (hp_xref x + 255) mod 256\<rparr>) st"
  let ?parent = "hp_parent (props st p)"
  have g1: "go Inv st ?st1" by (rule go_field[OF assms(1)]) simp_all
  show ?thesis
  proof (cases "type_of st p = PROP_ZOMBIE \<or> hp_xref (props ?st1 p) \<noteq> 0")
    case True
    then have "st' = st \<or> st' = ?st1"
      using assms(3) by (auto simp: prop_destroy0_body_def Let_def split: if_splits)
    with g1 go_refl[OF assms(1)] show ?thesis by blast
  next
    case False
    with assms(3) obtain st2 where
      2: "recursive_unlink (Suc (pnext ?st1)) destroy p ?st1 = Some st2"
      and 3: "destroy_live destroy p ?parent
           (case ?parent of None \<Rightarrow> st2 | Some q \<Rightarrow> notify_del_child True p q st2) = Some (b, st')"
      by (auto simp: prop_destroy0_body_def Let_def bind_eq_Some_conv simp del: recursive_unlink.simps)
    let ?st3 = "case ?parent of None \<Rightarrow> st2 | Some q \<Rightarrow> notify_del_child True p q st2"
    have g2: "go Inv st st2"
      by (rule go_trans[OF g1 recursive_unlink_go[OF goD(1)[OF g1] goD(3)[OF g1 assms(2)] 2]])
    have g3: "go Inv st ?st3"
      using g2 go_trans[OF g2 early_go[OF goD(1)[OF g2]]] by (simp split: option.split)
    show ?thesis
      by (rule go_trans[OF g3 live[OF goD(1)[OF g3] goD(3)[OF g3 assms(2)] _ 3]])
         (use advD(1)[OF goD(2)[OF g3] assms(2)] in metis)
  qed
qed

end

context prop_inv begin

lemma destroy0:
  assumes "ok Inv st" "p < pnext st" "prop_destroy0 k p st = Some (b, st')" shows "go Inv st st'"
  using assms
proof (induction k arbitrary: p st b st')
  case 0 then show ?case by simp
next
  case (Suc k)
  have "destroyer_inv Inv skip_ok (prop_destroy0 k)"
    by unfold_locales (rule Suc.IH)
  then show ?case using destroyer_inv.body Suc.prems by fastforce
qed

end

sublocale prop_inv \<subseteq> now: destroyer_inv Inv skip_ok destroy_now
  by unfold_locales (simp add: destroy_now_def destroy0 del: prop_destroy0.simps)

context prop_inv begin

lemma orphan_go:
  assumes "ok Inv st" "\<And>q. c \<notin> set (hp_childs st q)"
  shows "go Inv st (upd_prop c (\<lambda>x. x\<lparr>hp_parent := None\<rparr>) st)"
proof -
  let ?f = "upd_prop c (\<lambda>x. x\<lparr>hp_parent := None\<rparr>) st"
  have "Inv ?f" by (rule field[OF okD(1)[OF assms(1)]]) simp_all
  moreover have "tree_ok ?f"
    by (rule tree_ok_upd_prop[OF okD(2)[OF assms(1)]])
       (use assms(2) tree_okD[OF okD(2)[OF assms(1)]] in auto)
  moreover have "adv st ?f" by (simp add: adv_def type_of_def)
  ultimately show ?thesis by (simp add: go_def ok_def)
qed

lemma destroy_childs0:
  assumes "ok Inv st" "prop_destroy_childs0 p st = Some st'"
  shows "go Inv st st'"
proof -
  from assms(2) obtain st1 where
    1: "prop_notify_value p None (set_type p PROP_VOID st) = Some st1"
    and 2: "ofold (\<lambda>c st. map_option snd (destroy_now c
                         (upd_prop c (\<lambda>x. x\<lparr>hp_parent := None\<rparr>) (notify_del_child True c p st))))
                (hp_childs st p) st1 = Some st'"
    by (auto simp: prop_destroy_childs0_def Let_def bind_eq_Some_conv)
  note T = tree_okD[OF okD(2)[OF assms(1)]]
  have g1: "go Inv st st1" by (rule notify_retype[OF assms(1) _ skip_None 1]) simp
  have t1: "type_of st1 q = (if q = p then PROP_VOID else type_of st q)" for q
    using shape_eqD(1)[OF shape_notify_value[OF 1], of q] by simp
  have n1: "c \<notin> set (hp_childs st1 q)" if "c \<in> set (hp_childs st p)" for c q
    using T(2)[OF that] T(2)[of c q] by (auto simp: t1 type_make)
  have "go Inv st1 st'"
  proof (rule go_ofold[OF 2 goD(1)[OF g1]])
    fix c u v
    assume c: "c \<in> set (hp_childs st p)" and gu: "go Inv st1 u"
      and r: "map_option snd (destroy_now c
                (upd_prop c (\<lambda>x. x\<lparr>hp_parent := None\<rparr>) (notify_del_child True c p u))) = Some v"
    let ?e = "notify_del_child True c p u"
    let ?f = "upd_prop c (\<lambda>x. x\<lparr>hp_parent := None\<rparr>) ?e"
    have ge: "go Inv u ?e" by (rule now.early_go[OF goD(1)[OF gu]])
    have c1: "c < pnext st1" by (rule goD(3)[OF g1 T(1)[OF c]])
    have "c \<notin> set (hp_childs ?e q)" for q
      using n1[OF c] advD(2)[OF goD(2)[OF go_trans[OF gu ge]] c1] by blast
    then have gf: "go Inv ?e ?f" by (rule orphan_go[OF goD(1)[OF ge]])
    have cf: "c < pnext ?f" by (rule goD(3)[OF go_trans[OF gu go_trans[OF ge gf]] c1])
    from r obtain b where "destroy_now c ?f = Some (b, v)" by auto
    from now.destroys[OF goD(1)[OF gf] cf this] show "go Inv u v"
      by (rule go_trans[OF ge go_trans[OF gf]])
  qed
  then show ?thesis by (rule go_trans[OF g1])
qed

lemma clean: "ok Inv st \<Longrightarrow> prop_clean p st = Some (r, st') \<Longrightarrow> go Inv st st'"
  unfolding prop_clean_def by (rule clean_with) (assumption+, rule destroy_childs0)

end

end
