(* ===== verification/Prop_Kept_Ops.thy ===== *)
theory Prop_Kept_Ops
  imports Prop_Kept_Destroy
begin

text \<open>
  The operations of the property system as one type, and the theorem the contract \<open>prop_inv\<close>
  gives for all of them.
\<close>

section \<open>Setters\<close>

text \<open>The four outcomes of a simple setter.\<close>

inductive simple_set :: "pid \<Rightarrow> sid option \<Rightarrow> pst \<Rightarrow> pst \<Rightarrow> bool" for p sk st where
  same: "simple_set p sk st st"
| remote: "simple_set p sk st (to_proxy r st)"
| now: "prop_notify_value p sk (set_type p v st) = Some st' \<Longrightarrow> \<not> is_dir v \<Longrightarrow> simple_set p sk st st'"
| cleaned: "clean_then_set p sk v st = Some st' \<Longrightarrow> \<not> is_dir v \<Longrightarrow> simple_set p sk st st'"

context prop_inv begin

lemma clean_then_set_go:
  assumes "ok Inv st" "\<not> is_dir v" "skip_ok sk" "clean_then_set p sk v st = Some st'"
  shows "go Inv st st'"
proof -
  from assms(4) obtain b st1 where 1: "prop_clean p st = Some (b, st1)"
    and 2: "if b then st' = st1 else prop_notify_value p sk (set_type p v st1) = Some st'"
    by (auto simp: clean_then_set_def split: option.splits prod.splits bool.splits)
  have g: "go Inv st st1" by (rule clean[OF assms(1) 1])
  show ?thesis
    using 2 g go_trans[OF g notify_retype[OF goD(1)[OF g] _ assms(3)]] assms(2) by (auto split: if_splits)
qed

lemma proxy_go: "ok Inv st \<Longrightarrow> go Inv st (to_proxy r st)"
  by (rule ok_quiet) simp_all

lemma notify_after:
  assumes "go Inv st u" "prop_notify_value p sk (set_type p v u) = Some st'" "\<not> is_dir v" "skip_ok sk"
  shows "go Inv st st'"
  by (rule go_trans[OF assms(1) notify_retype[OF goD(1)[OF assms(1)] _ assms(4,2)]]) (use assms(3) in simp)

lemma set_simple:
  assumes "simple_set p sk st st'" "ok Inv st" "skip_ok sk" shows "go Inv st st'"
  using assms
proof (induction rule: simple_set.induct)
  case (now v st') then show ?case using notify_retype by blast
qed (auto intro: go_refl proxy_go clean_then_set_go)

lemma set_void: "ok Inv st \<Longrightarrow> skip_ok sk \<Longrightarrow> prop_set_void_exl p sk st = Some st' \<Longrightarrow> go Inv st st'"
  by (rule set_simple[where p = p])
     (auto simp: prop_set_void_exl_def split: payload.splits intro: simple_set.intros is_dir_simps)

lemma set_string:
  "ok Inv st \<Longrightarrow> skip_ok sk \<Longrightarrow> prop_set_string_exl p sk s ty st = Some st' \<Longrightarrow> go Inv st st'"
  by (rule set_simple[where p = p])
     (auto simp: prop_set_string_exl_def split: payload.splits if_splits
       intro: simple_set.intros is_dir_simps)

lemma set_rstring:
  "ok Inv st \<Longrightarrow> skip_ok sk \<Longrightarrow> prop_set_rstring_exl p sk s ty st = Some st' \<Longrightarrow> go Inv st st'"
  by (rule set_simple[where p = p])
     (auto simp: prop_set_rstring_exl_def split: payload.splits if_splits
       intro: simple_set.intros is_dir_simps)

lemma set_cstring:
  "ok Inv st \<Longrightarrow> skip_ok sk \<Longrightarrow> prop_set_cstring_exl p sk s st = Some st' \<Longrightarrow> go Inv st st'"
  by (rule set_simple[where p = p])
     (auto simp: prop_set_cstring_exl_def split: payload.splits if_splits
       intro: simple_set.intros is_dir_simps)

lemma set_uri:
  assumes "ok Inv st" "skip_ok sk" "prop_set_uri_ex po sk t u st = Some st'" shows "go Inv st st'"
proof (cases po)
  case None then show ?thesis using assms go_refl by (simp add: prop_set_uri_ex_def)
next
  case (Some p)
  show ?thesis
  proof (cases "t = None \<and> u = None")
    case True
    then show ?thesis using assms(3) Some set_void[OF assms(1,2)]
      by (simp add: prop_set_uri_ex_def prop_set_void_ex_def)
  next
    case False
    then have "simple_set p sk st st'" using assms(3) Some
      by (auto simp: prop_set_uri_ex_def split: payload.splits if_splits
          intro: simple_set.intros is_dir_simps)
    then show ?thesis using assms(1,2) by (rule set_simple)
  qed
qed

lemma set_int:
  assumes "ok Inv st" "skip_ok sk" "prop_set_int_exl p sk i st = Some st'" shows "go Inv st st'"
proof (rule set_simple[OF _ assms(1,2)])
  show "simple_set p sk st st'" using assms(3)
    by (auto simp: prop_set_int_exl_def bind_eq_Some_conv split: payload.splits if_splits option.splits
        intro: simple_set.intros is_dir_simps)
qed

lemma set_prop:
  assumes "ok Inv st" "skip_ok sk" "prop_set_prop_exl p sk q st = Some st'" shows "go Inv st st'"
proof -
  have set: "go Inv st st'"
    if g: "go Inv st u" and n: "prop_notify_value p sk (set_type p (PROP_PROP q) (prop_ref_inc (Some q) u)) = Some st'"
    for u
    by (rule go_trans[OF go_trans[OF g ref_inc[OF goD(1)[OF g]]]
          notify_retype[OF goD(1)[OF go_trans[OF g ref_inc[OF goD(1)[OF g]]]] _ assms(2) n]]) simp
  show ?thesis
  proof (cases "type_of st p = PROP_ZOMBIE \<or> type_of st p = PROP_PROP q")
    case True
    then show ?thesis using assms(3) go_refl[OF assms(1)] by (auto simp: prop_set_prop_exl_def)
  next
    case False
    show ?thesis
    proof (cases "\<exists>r. type_of st p = PROP_PROP r")
      case True
      then obtain r u where "prop_ref_dec_locked (Some r) st = Some u"
        "prop_notify_value p sk (set_type p (PROP_PROP q) (prop_ref_inc (Some q) u)) = Some st'"
        using assms(3) False by (auto simp: prop_set_prop_exl_def bind_eq_Some_conv)
      then show ?thesis using set[OF ref_dec[OF assms(1)]] by blast
    next
      case np: False
      then obtain b u where 1: "prop_clean p st = Some (b, u)"
        and 2: "if b then st' = u
          else prop_notify_value p sk (set_type p (PROP_PROP q) (prop_ref_inc (Some q) u)) = Some st'"
        using assms(3) False
        by (auto simp: prop_set_prop_exl_def split: payload.splits option.splits prod.splits bool.splits)
      show ?thesis using 2 set[OF clean[OF assms(1) 1]] clean[OF assms(1) 1] by (auto split: if_splits)
    qed
  qed
qed

text \<open>On a property that is no directory, cleaning changes no type.\<close>

lemma clean_nondir:
  assumes "\<not> is_dir (type_of st p)" "prop_clean p st = Some (b, st1)"
  shows "type_of st1 q = type_of st q" "\<not> b \<Longrightarrow> type_of st p \<noteq> PROP_ZOMBIE"
proof -
  have "prop_ref_dec_locked po st = Some st1 \<Longrightarrow> type_of st1 q = type_of st q" for po
    using shape_eqD(1)[OF obs_shape[OF obs_ref_dec]] .
  then show "type_of st1 q = type_of st q" "\<not> b \<Longrightarrow> type_of st p \<noteq> PROP_ZOMBIE"
    using assms by (auto simp: prop_clean_def prop_clean_with_def split: if_splits payload.splits)
qed

lemma get_float:
  assumes "ok Inv st" "\<not> is_dir (type_of st p)" "prop_get_float_locked (Some p) st = Some (r, st1)"
  shows "go Inv st st1" "\<And>q. r = Some q \<Longrightarrow> q = p"
proof -
  have "go Inv st st1 \<and> (\<forall>q. r = Some q \<longrightarrow> q = p)"
  proof (cases "st1 = st")
    case True then show ?thesis using assms(3) go_refl[OF assms(1)]
      by (auto simp: prop_get_float_locked_def split: payload.splits option.splits prod.splits bool.splits)
  next
    case False
    show ?thesis
    proof (cases "\<exists>i rg. type_of st p = PROP_INT i rg")
      case True
      then obtain i rg where "type_of st p = PROP_INT i rg" by blast
      then show ?thesis using assms(3) silent_retype[OF assms(1,2), of "prop_int_to_float i rg"]
        by (auto simp: prop_get_float_locked_def prop_int_to_float_def)
    next
      case ni: False
      then obtain b u where 1: "prop_clean p st = Some (b, u)"
        and 2: "if b then r = None \<and> st1 = u else r = Some p \<and> st1 = set_type p (PROP_FLOAT 0 None) u"
        using assms(3) False
        by (auto simp: prop_get_float_locked_def split: payload.splits option.splits prod.splits bool.splits)
      have g: "go Inv st u" by (rule clean[OF assms(1) 1])
      have "\<not> b \<Longrightarrow> go Inv u (set_type p (PROP_FLOAT 0 None) u)"
        by (rule silent_retype[OF goD(1)[OF g]]) (use clean_nondir[OF assms(2) 1] assms(2) in auto)
      then show ?thesis using 2 g go_trans[OF g] by (auto split: if_splits)
    qed
  qed
  then show "go Inv st st1" "\<And>q. r = Some q \<Longrightarrow> q = p" by auto
qed

lemma set_float:
  assumes "ok Inv st" "skip_ok sk" "\<not> is_dir (type_of st p)"
    "prop_set_float_exl (Some p) sk f st = Some st'"
  shows "go Inv st st'"
proof (cases "type_of st p = PROP_PROXY")
  case True then show ?thesis using assms(4) proxy_go[OF assms(1)] by (auto simp: prop_set_float_exl_def)
next
  case False
  with assms(4) obtain r st1 where 1: "prop_get_float_locked (Some p) st = Some (r, st1)"
    and 2: "st' = st1 \<or> (\<exists>w rg. prop_notify_value p sk (set_type p (PROP_FLOAT w rg) st1) = Some st')"
    using get_float(2)[OF assms(1,3)]
    by (auto simp: prop_set_float_exl_def bind_eq_Some_conv Let_def
        split: option.splits prod.splits if_splits)
  have g: "go Inv st st1" by (rule get_float(1)[OF assms(1,3) 1])
  show ?thesis
    using 2 g notify_after[OF g _ _ assms(2)] by (auto intro: is_dir_simps)
qed

lemma make_int_go:
  assumes "ok Inv st" "\<not> is_dir (type_of st p)" "type_of st p \<noteq> PROP_ZOMBIE" "make_int p st = Some (r, st1)"
  shows "go Inv st st1"
proof (cases "st1 = st")
  case True then show ?thesis using go_refl[OF assms(1)] by simp
next
  case False
  show ?thesis
  proof (cases "\<exists>f fr. type_of st p = PROP_FLOAT f fr")
    case True
    then show ?thesis using assms(4) silent_retype[OF assms(1-3)]
      by (auto simp: make_int_def split: option.splits payload.splits)
  next
    case ni: False
    then obtain b u where 1: "prop_clean p st = Some (b, u)"
      and 2: "if b then st1 = u else st1 = set_type p (PROP_INT 0 None) u"
      using assms(4) False
      by (auto simp: make_int_def split: payload.splits option.splits prod.splits bool.splits)
    have g: "go Inv st u" by (rule clean[OF assms(1) 1])
    have "go Inv u (set_type p (PROP_INT 0 None) u)"
      by (rule silent_retype[OF goD(1)[OF g]]) (use clean_nondir[OF assms(2) 1] assms(2,3) in auto)
    then show ?thesis using 2 g go_trans[OF g] by (auto split: if_splits)
  qed
qed

lemma int_arith:
  assumes "ok Inv st" "skip_ok sk" "\<not> is_dir (type_of st p)"
    "prop_add_int_ex (Some p) sk v st = Some st' \<or> prop_toggle_int_ex (Some p) sk st = Some st'"
  shows "go Inv st st'"
proof (cases "type_of st p = PROP_PROXY \<or> type_of st p = PROP_ZOMBIE")
  case True
  then show ?thesis using assms(4) proxy_go[OF assms(1)] go_refl[OF assms(1)]
    by (auto simp: prop_add_int_ex_def prop_toggle_int_ex_def)
next
  case False
  with assms(4) obtain r st1 where 1: "make_int p st = Some (r, st1)"
    and 2: "st' = st1 \<or> (\<exists>w rg. prop_notify_value p sk (set_type p (PROP_INT w rg) st1) = Some st')"
    by (auto simp: prop_add_int_ex_def prop_toggle_int_ex_def bind_eq_Some_conv
        split: option.splits prod.splits if_splits)
  have g: "go Inv st st1" by (rule make_int_go[OF assms(1,3) _ 1]) (use False in simp)
  show ?thesis
    using 2 g notify_after[OF g _ _ assms(2)] by (auto intro: is_dir_simps)
qed

lemma seti:
  assumes "ok Inv st" "skip_ok sk" "\<And>f. a = SET_FLOAT f \<Longrightarrow> \<not> is_dir (type_of st p)"
    "\<And>q. a \<noteq> SET_LINK q" "prop_seti sk p a st = Some st'"
  shows "go Inv st st'"
proof (cases a)
  case (SET_FLOAT f) then show ?thesis using assms set_float by (simp add: prop_seti_def)
next
  case (SET_STRING so) then show ?thesis using assms set_void set_string by (cases so) (auto simp: prop_seti_def)
next
  case (SET_RSTRING so) then show ?thesis using assms set_void set_rstring by (cases so) (auto simp: prop_seti_def)
qed (use assms set_int set_void set_prop in \<open>auto simp: prop_seti_def\<close>)

section \<open>Paths, moves and destruction\<close>

lemma path_go:
  assumes "ok Inv st" "p < pnext st" "skip_ok sk" "setv_path sk p ns st = Some (r, st')"
  shows "go Inv st st'" "\<And>q. r = Some q \<Longrightarrow> q < pnext st'"
proof -
  have "go Inv st st' \<and> (\<forall>q. r = Some q \<longrightarrow> q < pnext st')"
    using assms
  proof (induction ns arbitrary: p st)
    case Nil then show ?case using go_refl by auto
  next
    case (Cons n ns)
    note k = Cons.prems(1) and p = Cons.prems(2) and sk = Cons.prems(3)
    show ?case
    proof (cases "type_of st p = PROP_ZOMBIE")
      case True then show ?thesis using Cons.prems go_refl by auto
    next
      case nz: False
      show ?thesis
      proof (cases "if is_dir (type_of st p) then find_child st p n else None")
        case (Some c)
        then have "c < pnext st" using tree_okD(1)[OF okD(2)[OF k] find_child_in] by (auto split: if_splits)
        from Cons.IH[OF k this sk] Cons.prems(4) Some nz show ?thesis by simp
      next
        case None
        with Cons.prems(4) nz obtain c st1 where 1: "prop_create0 p (Some n) sk False st = Some (c, st1)"
          and 2: "setv_path sk c ns st1 = Some (r, st')"
          by (auto split: option.splits prod.splits)
        have g: "go Inv st st1" "c < pnext st1" by (rule create0[OF k p sk 1])+
        from Cons.IH[OF goD(1)[OF g(1)] g(2) sk 2] go_trans[OF g(1)] show ?thesis by blast
      qed
    qed
  qed
  then show "go Inv st st'" "\<And>q. r = Some q \<Longrightarrow> q < pnext st'" by auto
qed

lemma create_path_go:
  assumes "ok Inv st" "p < pnext st" "create_path p ns st = Some (q, st')"
  shows "go Inv st st'"
  using assms
proof (induction ns arbitrary: p st)
  case Nil then show ?case using go_refl by simp
next
  case (Cons n ns)
  then obtain c st1 where 1: "prop_create0 p (Some n) None False st = Some (c, st1)"
    and 2: "create_path c ns st1 = Some (q, st')"
    by (auto split: option.splits prod.splits)
  have g: "go Inv st st1" "c < pnext st1" by (rule create0[OF Cons.prems(1,2) skip_None 1])+
  show ?case by (rule go_trans[OF g(1) Cons.IH[OF goD(1)[OF g(1)] g(2) 2]])
qed

lemma set_parent0:
  assumes "ok Inv st" "p < pnext st" "q < pnext st" "skip_ok sk"
    "prop_set_parent0 p q b sk st = Some (r, st')"
  shows "ok Inv st'"
proof (cases "type_of st q = PROP_ZOMBIE")
  case True then show ?thesis using assms by (simp add: prop_set_parent0_def)
next
  case False
  with assms(5) obtain st1 where 1: "prop_make_dir q sk st = Some st1"
    and 2: "if hp_parent (props st1 p) \<noteq> Some q then
          \<exists>st2 st4. prop_unparent0 p st1 = Some st2
            \<and> inherit_multi p q (upd_prop p (\<lambda>x. x\<lparr>hp_parent := Some q\<rparr>) st2) = Some st4
            \<and> prop_insert p q b sk st4 = Some st'
        else prop_move0 p b sk st1 = Some st'"
    by (auto simp: prop_set_parent0_def bind_eq_Some_conv Let_def split: if_splits)
  have g1: "go Inv st st1" by (rule make_dir[OF assms(1,4) 1])
  note k1 = goD(1)[OF g1] and p1 = goD(3)[OF g1 assms(2)] and q1 = goD(3)[OF g1 assms(3)]
  show ?thesis
  proof (cases "hp_parent (props st1 p) = Some q")
    case True
    with 2 have m: "prop_move0 p b sk st1 = Some st'" by simp
    show ?thesis
      using move[OF okD(1)[OF k1] assms(4) m] tree_ok_move(1)[OF okD(2)[OF k1] m p1] by (simp add: ok_def)
  next
    case False
    with 2 obtain st2 st4 where u: "prop_unparent0 p st1 = Some st2"
      and i: "inherit_multi p q (upd_prop p (\<lambda>x. x\<lparr>hp_parent := Some q\<rparr>) st2) = Some st4"
      and n: "prop_insert p q b sk st4 = Some st'" by auto
    let ?st3 = "upd_prop p (\<lambda>x. x\<lparr>hp_parent := Some q\<rparr>) st2"
    have g2: "go Inv st1 st2" "hp_parent (props st2 p) = None" by (rule unparent0[OF k1 u])+
    note k2 = goD(1)[OF g2(1)]
    have np: "p \<notin> set (hp_childs st2 x)" for x using tree_okD(2)[OF okD(2)[OF k2], of p x] g2(2) by auto
    have i3: "Inv ?st3" by (rule field[OF okD(1)[OF k2]]) simp_all
    have t3: "tree_ok ?st3"
      by (rule tree_ok_upd_prop[OF okD(2)[OF k2]])
         (use np goD(3)[OF g2(1) q1] tree_okD(4,5)[OF okD(2)[OF k2]] in auto)
    have k3: "ok Inv ?st3" using i3 t3 by (simp add: ok_def)
    have g4: "go Inv ?st3 st4" by (rule inherit[OF k3 i])
    note t = inherit_tree[OF i]
    show ?thesis
      by (rule insert_new[OF goD(1)[OF g4] _ _ _ assms(4) n])
         (use t np goD(3)[OF g2(1) p1] in \<open>auto simp: same_tree_def type_of_def\<close>)
  qed
qed

lemma destroy_go:
  assumes "ok Inv st" "\<And>p. po = Some p \<Longrightarrow> p < pnext st" "prop_destroy po st = Some st'"
  shows "go Inv st st'"
proof (cases po)
  case None then show ?thesis using assms go_refl by (simp add: prop_destroy_def)
next
  case (Some p)
  then show ?thesis using assms now.destroys[OF assms(1)] by (auto simp: prop_destroy_def)
qed

lemma destroy_by_name_go:
  assumes "ok Inv st" "prop_destroy_by_name p n st = Some st'" shows "go Inv st st'"
proof (cases "is_dir (type_of st p)")
  case False then show ?thesis using assms go_refl by (simp add: prop_destroy_by_name_def)
next
  case True
  note T = tree_okD(1,2)[OF okD(2)[OF assms(1)], of _ p]
  show ?thesis
  proof (cases n)
    case (Some nm)
    show ?thesis
    proof (cases "find_child st p nm")
      case None then show ?thesis using assms True Some go_refl by (simp add: prop_destroy_by_name_def)
    next
      case f: (Some c)
      then have "prop_destroy_child destroy_now p c st = Some st'"
        using assms(2) True Some by (simp add: prop_destroy_by_name_def)
      then show ?thesis by (intro now.destroy_child[OF assms(1)]) (use T[OF find_child_in[OF f]] in auto)
    qed
  next
    case None
    with True assms(2) have r: "ofold (\<lambda>c st. if hp_name (props st c) = None
                  then prop_destroy_child destroy_now p c st else Some st) (hp_childs st p) st = Some st'"
      by (simp add: prop_destroy_by_name_def)
    show ?thesis
    proof (rule go_ofold[OF r assms(1)])
      fix c u v assume c: "c \<in> set (hp_childs st p)" and g: "go Inv st u"
        and s: "(if hp_name (props u c) = None then prop_destroy_child destroy_now p c u else Some u) = Some v"
      have pa: "hp_parent (props u c) = Some p \<or> hp_parent (props u c) = None"
        using advD(1)[OF goD(2)[OF g] T(1)[OF c]] T(2)[OF c] by auto
      show "go Inv u v"
        using s now.destroy_child[OF goD(1)[OF g] goD(3)[OF g T(1)[OF c]] pa] go_refl[OF goD(1)[OF g]]
        by (auto split: if_splits)
    qed
  qed
qed

lemma void_childs0:
  assumes "ok Inv st" "prop_void_childs0 k p st = Some st'" shows "go Inv st st'"
  using assms
proof (induction k arbitrary: p st st')
  case 0 then show ?case by simp
next
  case (Suc k)
  show ?case
  proof (cases "is_dir (type_of st p)")
    case True
    then have "type_of st p \<noteq> PROP_ZOMBIE" by auto
    with True Suc.prems(2) have "ofold (prop_void_childs0 k) (hp_childs st p) st = Some st'" by simp
    then show ?thesis by (rule go_ofold[OF _ Suc.prems(1)]) (meson Suc.IH goD(1))
  next
    case False
    show ?thesis
    proof (cases "type_of st p = PROP_ZOMBIE")
      case True then show ?thesis using Suc.prems go_refl by simp
    next
      case nz: False
      with False Suc.prems(2) obtain b st1 where 1: "prop_clean p st = Some (b, st1)"
        and 2: "if b then st' = st1 else prop_notify_value p None (set_type p PROP_VOID st1) = Some st'"
        by (auto split: option.splits prod.splits bool.splits)
      have g: "go Inv st st1" by (rule clean[OF Suc.prems(1) 1])
      show ?thesis
        using 2 g notify_after[OF g _ _ skip_None] by (auto split: if_splits intro: is_dir_simps)
    qed
  qed
qed

lemma link_fresh:
  assumes "ok Inv st" "src < pnext st" "dst < pnext st" "skip_ok sk"
    "hp_originator (props st dst) = None" "prop_link0 src dst sk hard st = Some st'"
  shows "go Inv st st'"
proof (cases "type_of st src = PROP_ZOMBIE \<or> type_of st dst = PROP_ZOMBIE \<or> src = dst")
  case True
  then show ?thesis using assms(6) go_refl[OF assms(1)]
    by (auto simp: prop_link0_def prop_link0_with_def split: if_splits)
next
  case False
  have e: "st\<lparr>pnq := []\<rparr> = st" using tree_okD(7)[OF okD(2)[OF assms(1)]] by simp
  let ?a = "upd_prop dst (\<lambda>x. x\<lparr>hp_flags := Set.insert PROP_XREFED_ORIGINATOR (hp_flags x)\<rparr>) st"
  from assms(5,6) False obtain st2 st4 where
    2: "(if hard = PROP_LINK_XREFED \<or> (hard = PROP_LINK_XREFED_IF_ORPHANED \<and> hp_parent (props st src) = None)
         then prop_xref_addref (Some src) ?a else Some st) = Some st2"
    and 4: "relink_subscriptions (Suc (pnext st2 + pnext st2)) src dst sk [dst]
         (upd_prop src (\<lambda>x. x\<lparr>hp_targets := dst # hp_targets x\<rparr>)
           (upd_prop dst (\<lambda>x. x\<lparr>hp_originator := Some src\<rparr>) st2)) = Some st4"
    and 5: "ofold flush_deferred (pnq st4) (st4\<lparr>pnq := []\<rparr>) = Some st'"
    by (auto simp: prop_link0_def prop_link0_with_def Let_def bind_eq_Some_conv e
        simp del: relink_subscriptions.simps)
  have g2: "go Inv st st2"
  proof -
    have ga: "go Inv st ?a" by (rule go_field[OF assms(1)]) simp_all
    have "go Inv ?a (upd_prop src (\<lambda>x. x\<lparr>hp_xref := hp_xref x + 1\<rparr>) ?a)"
      by (rule go_field[OF goD(1)[OF ga]]) simp_all
    with 2 ga go_refl[OF assms(1)] go_trans[OF ga] show ?thesis
      by (auto simp: prop_xref_addref_def split: if_splits)
  qed
  let ?b = "upd_prop dst (\<lambda>x. x\<lparr>hp_originator := Some src\<rparr>) st2"
  let ?c = "upd_prop src (\<lambda>x. x\<lparr>hp_targets := dst # hp_targets x\<rparr>) ?b"
  note T = tree_okD(4,5)[OF okD(2)]
  have gb: "go Inv st2 ?b"
    by (rule go_links[OF goD(1)[OF g2]]) (use T[OF goD(1)[OF g2]] goD(3)[OF g2 assms(2)] in auto)
  have gc: "go Inv ?b ?c"
  proof (rule go_links[OF goD(1)[OF gb]])
    fix q assume "q \<in> set (hp_targets (props ?b src\<lparr>hp_targets := dst # hp_targets (props ?b src)\<rparr>))"
    then have "q = dst \<or> q \<in> set (hp_targets (props ?b src))" by simp
    then show "q < pnext ?b" using T(2)[OF goD(1)[OF gb]] goD(3)[OF g2 assms(3)] by auto
  next
    fix q assume "hp_originator (props ?b src\<lparr>hp_targets := dst # hp_targets (props ?b src)\<rparr>) = Some q"
    then have "hp_originator (props ?b src) = Some q" by simp
    then show "q < pnext ?b" by (rule T(1)[OF goD(1)[OF gb]])
  qed simp_all
  have g3: "go Inv st ?c" by (rule go_trans[OF g2 go_trans[OF gb gc]])
  have g4: "go Inv st st4"
    by (rule go_trans[OF g3 relink[OF goD(1)[OF g3] goD(3)[OF g3 assms(2)] assms(4) 4]])
  have q: "pnq st4 = []" by (rule tree_okD(7)[OF okD(2)[OF goD(1)[OF g4]]])
  then have "st4\<lparr>pnq := []\<rparr> = st4" by simp
  with 5 q g4 show ?thesis by simp
qed

lemma unlink_go:
  assumes "ok Inv st" "p < pnext st" "skip_ok sk" "prop_unlink_exl p sk st = Some st'"
  shows "go Inv st st'"
  using assms(4) now.unlink0[OF assms(1-3)] go_refl[OF assms(1)]
  by (auto simp: prop_unlink_exl_def prop_unlink0_def split: if_splits)

lemma select_go:
  assumes "ok Inv st" "is_dir (type_of st q)" "prop_notify_child2 po q ex EV_SELECT_CHILD sk st = Some st1"
  shows "go Inv st (set_selected q sel st1)"
proof -
  have g: "go Inv st st1"
    by (rule ok_quiet[OF assms(1)]) (rule obs_notify_child2_aside[OF _ assms(3)], simp add: tells_def)
  have d: "is_dir (type_of st1 q)"
    using shape_eqD(1)[OF shape_notify_child2[OF assms(3)], of q] assms(2) by simp
  have "go Inv st1 (set_selected q sel st1)"
    using select[OF okD(1)[OF goD(1)[OF g]] d] tree_ok_set_selected[OF okD(2)[OF goD(1)[OF g]]]
    by (simp add: go_def ok_def)
  then show ?thesis by (rule go_trans[OF g])
qed

lemma vector_go:
  assumes "ok Inv st" "q < pnext st" "skip_ok sk" "distinct (snd pv)"
    "\<And>p. p \<in> set (snd pv) \<Longrightarrow> p < pnext st \<and> hp_parent (props st p) = None"
    "type_of st q \<noteq> PROP_ZOMBIE" "prop_set_parent_vector pv (Some q) b sk st = Some st'"
  shows "ok Inv st'"
proof -
  from assms(6,7) obtain st1 st2 where 1: "prop_make_dir q None st = Some st1"
    and 2: "ofold (set_parent_elem q b) (snd pv) st1 = Some st2"
    and 3: "st' = prop_notify_childv pv q
              (if b \<noteq> None then EV_ADD_CHILD_VECTOR_BEFORE else EV_ADD_CHILD_VECTOR) sk b st2"
    by (auto simp: prop_set_parent_vector_def bind_eq_Some_conv)
  have g1: "go Inv st st1" by (rule make_dir[OF assms(1) skip_None 1])
  note k1 = goD(1)[OF g1]
  have d1: "is_dir (type_of st1 q)"
  proof (cases "is_dir (type_of st q)")
    case True with 1 show ?thesis by (simp add: prop_make_dir_def)
  next
    case False
    with 1 obtain u where "prop_notify_value q None (set_type q (PROP_DIR [] None) u) = Some st1"
      by (auto simp: prop_make_dir_def split: option.splits prod.splits bool.splits)
    from shape_eqD(1)[OF shape_notify_value[OF this], of q] show ?thesis by simp
  qed
  have i: "Inv st'" unfolding 3 by (rule vector[OF k1 d1 assms(3) refl 2])
  have el: "tree_ok v \<and> is_dir (type_of v q) \<and> pnext v = pnext u
        \<and> (\<forall>x. x \<noteq> p \<longrightarrow> hp_parent (props v x) = hp_parent (props u x))"
    if r: "set_parent_elem q b p u = Some v" and t: "tree_ok u" and d: "is_dir (type_of u q)"
      and n: "hp_parent (props u p) = None" "p < pnext u" "q < pnext u" for p u v
  proof -
    let ?w = "upd_prop p (\<lambda>x. x\<lparr>hp_parent := Some q\<rparr>) u"
    from r obtain st3 where 3: "inherit_multi p q ?w = Some st3"
      and v: "v = set_childs q (case b of Some b \<Rightarrow> insert_before b p (hp_childs st3 q)
                   | None \<Rightarrow> hp_childs st3 q @ [p]) st3"
      by (auto simp: set_parent_elem_def bind_eq_Some_conv)
    have np: "p \<notin> set (hp_childs u x)" for x using tree_okD(2)[OF t, of p x] n(1) by auto
    have tw: "tree_ok ?w" by (rule tree_ok_upd_prop[OF t]) (use np n tree_okD(4,5)[OF t] in auto)
    note s = inherit_tree[OF 3]
    have t3: "tree_ok st3" using same_tree_ok[OF s] tw by simp
    have c3: "hp_childs st3 q = hp_childs u q" "pnext st3 = pnext u" "hp_parent (props st3 p) = Some q"
      using s by (auto simp: same_tree_def type_of_def)
    have "tree_ok v" unfolding v
      by (rule tree_ok_set_childs[OF t3])
         (use tree_okD(1,2)[OF t3, of _ q, unfolded c3(1,2)] tree_okD(6)[OF t3, of q, unfolded c3(1)] c3 np n(2)
          in \<open>auto simp: queue_simps split: option.splits\<close>)
    then show ?thesis using s by (simp add: v same_tree_def)
  qed
  have "tree_ok st2" if "ofold (set_parent_elem q b) ps u = Some st2" "tree_ok u" "is_dir (type_of u q)"
      "distinct ps" "\<forall>p \<in> set ps. p < pnext u \<and> hp_parent (props u p) = None" "q < pnext u" for ps u
    using that
  proof (induction ps arbitrary: u)
    case Nil then show ?case by simp
  next
    case (Cons p ps)
    from Cons.prems(1) obtain v where v: "set_parent_elem q b p u = Some v"
      and f: "ofold (set_parent_elem q b) ps v = Some st2" by (auto split: option.splits)
    have n: "hp_parent (props u p) = None" "p < pnext u" using Cons.prems(5) by auto
    note E = el[OF v Cons.prems(2,3) n Cons.prems(6)]
    show ?case by (rule Cons.IH[OF f]) (use E Cons.prems in auto)
  qed
  from this[OF 2 okD(2)[OF k1] d1 assms(4)] have t2: "tree_ok st2"
    using assms(2,5) goD(3)[OF g1] advD(1)[OF goD(2)[OF g1]] by fastforce
  have "tree_ok st'" using same_tree_ok[OF shape_same_tree[of st' st2]] t2 by (simp add: 3)
  with i show ?thesis by (simp add: ok_def)
qed

end

section \<open>All operations\<close>

text \<open>The requests of the interface, one constructor per function.\<close>

datatype prop_op =
    Op_create "pid option" "string option" "sid option" bool bool
  | Op_create_multi pid "string list"
  | Op_create_root "string option" bool
  | Op_move pid "pid option" "sid option"
  | Op_req_move pid "pid option" "sid option"
  | Op_unparent pid
  | Op_set_parent pid pid "pid option" "sid option"
  | Op_set_parent_vector vid "pid list" pid "pid option" "sid option"
  | Op_destroy "pid option"
  | Op_destroy_childs "pid option"
  | Op_destroy_by_name pid "string option"
  | Op_void_childs "pid option"
  | Op_set pid set_arg "sid option"
  | Op_setv "pid option" "string list" set_arg "sid option"
  | Op_set_cstring "pid option" "string option" "sid option"
  | Op_set_uri "pid option" "string option" "string option" "sid option"
  | Op_add_int pid i32 "sid option"
  | Op_toggle_int pid "sid option"
  | Op_select pid "pid option" "sid option"
  | Op_link pid pid "sid option" link_mode
  | Op_unlink "pid option" "sid option"
  | Op_want_more sid
  | Op_have_more pid bool
  | Op_send_event pid nat

fun exec :: "prop_op \<Rightarrow> pst \<Rightarrow> pst option" where
  "exec (Op_create q n sk na ir) st = map_option snd (prop_create_ex q n sk na ir st)"
| "exec (Op_create_multi p ns) st = map_option snd (prop_create_multi p ns st)"
| "exec (Op_create_root n na) st = Some (snd (prop_create_root_ex n na st))"
| "exec (Op_move p b sk) st = prop_move0 p b sk st"
| "exec (Op_req_move p b sk) st = prop_req_move0 p b sk st"
| "exec (Op_unparent p) st = prop_unparent0 p st"
| "exec (Op_set_parent p q b sk) st = map_option snd (prop_set_parent0 p q b sk st)"
| "exec (Op_set_parent_vector v ps q b sk) st = prop_set_parent_vector (v, ps) (Some q) b sk st"
| "exec (Op_destroy po) st = prop_destroy po st"
| "exec (Op_destroy_childs po) st = prop_destroy_childs po st"
| "exec (Op_destroy_by_name p n) st = prop_destroy_by_name p n st"
| "exec (Op_void_childs po) st = prop_void_childs po st"
| "exec (Op_set p a sk) st = prop_seti sk p a st"
| "exec (Op_setv po ns a sk) st = prop_setv_ex sk po ns a st"
| "exec (Op_set_cstring po s sk) st = prop_set_cstring_ex po sk s st"
| "exec (Op_set_uri po t u sk) st = prop_set_uri_ex po sk t u st"
| "exec (Op_add_int p v sk) st = prop_add_int_ex (Some p) sk v st"
| "exec (Op_toggle_int p sk) st = prop_toggle_int_ex (Some p) sk st"
| "exec (Op_select p ex sk) st = prop_select_ex p ex sk st"
| "exec (Op_link src dst sk m) st = prop_link_exl (Some src) dst sk m st"
| "exec (Op_unlink po sk) st = prop_unlink_ex po sk st"
| "exec (Op_want_more s) st = prop_want_more_childs0 s st"
| "exec (Op_have_more p y) st = Some (prop_have_more_childs0 p y st)"
| "exec (Op_send_event p e) st = prop_send_ext_event p e st"

text \<open>
  What a caller owes: the properties it names are allocated, the subscription to skip is one the
  invariant allows, a link's destination has no link yet, a property moved in a vector has no
  parent yet, and a number is not written over a directory.
\<close>

fun op_ok :: "(sid option \<Rightarrow> bool) \<Rightarrow> pst \<Rightarrow> prop_op \<Rightarrow> bool" where
  "op_ok sko st (Op_create q n sk na ir) = (sko sk \<and> (case q of None \<Rightarrow> True | Some p \<Rightarrow> p < pnext st))"
| "op_ok sko st (Op_create_multi p ns) = (p < pnext st)"
| "op_ok sko st (Op_create_root n na) = True"
| "op_ok sko st (Op_move p b sk) = (sko sk \<and> p < pnext st)"
| "op_ok sko st (Op_req_move p b sk) = True"
| "op_ok sko st (Op_unparent p) = True"
| "op_ok sko st (Op_set_parent p q b sk) = (sko sk \<and> p < pnext st \<and> q < pnext st)"
| "op_ok sko st (Op_set_parent_vector v ps q b sk) =
     (sko sk \<and> q < pnext st \<and> distinct ps \<and> type_of st q \<noteq> PROP_ZOMBIE
      \<and> list_all (\<lambda>p. p < pnext st \<and> hp_parent (props st p) = None) ps)"
| "op_ok sko st (Op_destroy po) = (case po of None \<Rightarrow> True | Some p \<Rightarrow> p < pnext st)"
| "op_ok sko st (Op_destroy_childs po) = True"
| "op_ok sko st (Op_destroy_by_name p n) = True"
| "op_ok sko st (Op_void_childs po) = True"
| "op_ok sko st (Op_set p a sk) =
     (sko sk \<and> (case a of SET_FLOAT f \<Rightarrow> \<not> is_dir (type_of st p) | SET_LINK q \<Rightarrow> False | _ \<Rightarrow> True))"
| "op_ok sko st (Op_setv po ns a sk) =
     (sko sk \<and> (case po of None \<Rightarrow> True | Some p \<Rightarrow> p < pnext st)
      \<and> (case a of SET_FLOAT f \<Rightarrow> False | SET_LINK q \<Rightarrow> False | _ \<Rightarrow> True))"
| "op_ok sko st (Op_set_cstring po s sk) = sko sk"
| "op_ok sko st (Op_set_uri po t u sk) = sko sk"
| "op_ok sko st (Op_add_int p v sk) = (sko sk \<and> \<not> is_dir (type_of st p))"
| "op_ok sko st (Op_toggle_int p sk) = (sko sk \<and> \<not> is_dir (type_of st p))"
| "op_ok sko st (Op_select p ex sk) = True"
| "op_ok sko st (Op_link src dst sk m) =
     (sko sk \<and> src < pnext st \<and> dst < pnext st \<and> hp_originator (props st dst) = None)"
| "op_ok sko st (Op_unlink po sk) = (sko sk \<and> (case po of None \<Rightarrow> True | Some p \<Rightarrow> p < pnext st))"
| "op_ok sko st (Op_want_more s) = True"
| "op_ok sko st (Op_have_more p y) = True"
| "op_ok sko st (Op_send_event p e) = True"

context prop_inv begin

lemma exec_create:
  assumes "ok Inv st" "exec op st = Some st'" "op_ok skip_ok st op"
    "(\<exists>q n sk na ir. op = Op_create q n sk na ir) \<or> (\<exists>p ns. op = Op_create_multi p ns)
     \<or> (\<exists>n na. op = Op_create_root n na)"
  shows "ok Inv st'"
proof -
  consider (c) q n sk na ir where "op = Op_create q n sk na ir" | (m) p ns where "op = Op_create_multi p ns"
    | (r) n na where "op = Op_create_root n na" using assms(4) by auto
  then show ?thesis
  proof cases
    case c
    then obtain po st1 where 1: "(case q of
               Some q \<Rightarrow> if type_of st q \<noteq> PROP_ZOMBIE
                         then map_option (\<lambda>(p, st'). (Some p, st')) (prop_create0 q n sk na st)
                         else Some (None, st)
             | None \<Rightarrow> Some (None, st)) = Some (po, st1)"
      and 2: "st' = (if ir then prop_ref_inc po st1 else st1)"
      using assms(2) by (auto simp: prop_create_ex_def bind_eq_Some_conv)
    have g: "go Inv st st1"
      using 1 assms(3) c create0(1)[OF assms(1)] go_refl[OF assms(1)]
      by (auto split: option.splits if_splits)
    show ?thesis using 2 goD(1)[OF g] goD(1)[OF ref_inc[OF goD(1)[OF g]]] by simp
  next
    case m
    have z: "type_of st p = PROP_ZOMBIE \<Longrightarrow> ok Inv st'"
      using assms(2) m goD(1)[OF ref_inc[OF assms(1)]] by (auto simp: prop_create_multi_def)
    have "ok Inv st'" if nz: "type_of st p \<noteq> PROP_ZOMBIE"
    proof -
      from nz assms(2) m obtain q st1 where 1: "create_path p ns st = Some (q, st1)"
        and 2: "st' = prop_ref_inc (Some q) st1" by (auto simp: prop_create_multi_def)
      have g: "go Inv st st1" by (rule create_path_go[OF assms(1) _ 1]) (use assms(3) m in simp)
      show ?thesis unfolding 2 by (rule goD(1)[OF ref_inc[OF goD(1)[OF g]]])
    qed
    with z show ?thesis by blast
  next
    case r
    then show ?thesis using assms(2) goD(1)[OF make_new[OF assms(1), of None]]
      by (auto simp: prop_create_root_ex_def)
  qed
qed

lemma ok_quiet_fun: "ok Inv st \<Longrightarrow> (\<And>s c. obs s c st' = obs s c st) \<Longrightarrow> ok Inv st'"
  by (rule goD(1)[OF ok_quiet])

lemma req_move_ok:
  assumes "ok Inv st" "prop_req_move0 p b sk st = Some st'" shows "ok Inv st'"
proof (rule ok_quiet_fun[OF assms(1)])
  have n: "\<not> tells EV_REQ_MOVE_CHILD" by (simp add: tells_def)
  fix s c show "obs s c st' = obs s c st"
    using assms(2) obs_notify_child2_aside[OF n]
    by (auto simp: prop_req_move0_def split: if_splits option.splits)
qed

lemma have_more_ok:
  assumes "ok Inv st" shows "ok Inv (prop_have_more_childs0 p y st)"
proof -
  let ?u = "upd_prop p (\<lambda>x. x\<lparr>hp_flags := hp_flags x \<union> {PROP_HAVE_MORE}
                                      \<union> (if y then {PROP_HAVE_MORE_YES} else {})\<rparr>) st"
  have g: "go Inv st ?u" by (rule go_field[OF assms]) simp_all
  show ?thesis unfolding prop_have_more_childs0_def
    by (rule ok_quiet_fun[OF goD(1)[OF g]]) (simp add: obs_send_event tells_def)
qed

lemma want_more_ok:
  assumes "ok Inv st" "prop_want_more_childs0 s st = Some st'" shows "ok Inv st'"
  by (rule ok_quiet_fun[OF assms(1)])
     (use assms(2) in \<open>auto simp: prop_want_more_childs0_def obs_send_event tells_def split: if_splits option.splits\<close>)

lemma send_event_ok:
  assumes "ok Inv st" "prop_send_ext_event p e st = Some st'" shows "ok Inv st'"
proof (rule ok_quiet_fun[OF assms(1)])
  fix s c
  have "obs s c (fold (\<lambda>s st. prop_courier_enqueue s (mk_notify s EV_EXT_EVENT (NV_event e))
          (prop_get_notify s st)) xs st) = obs s c st" for xs
    by (rule obs_fold) (simp add: obs_courier_enqueue tells_def)
  with assms(2) show "obs s c st' = obs s c st"
    by (auto simp: prop_send_ext_event_def simp del: follow_originator.simps split: if_splits)
qed

lemma select_ok:
  assumes "ok Inv st" "prop_select_ex p ex sk st = Some st'" shows "ok Inv st'"
proof -
  have "st' = st \<or> st' = to_proxy (PX_SELECT p) st \<or>
      (\<exists>q st1. is_dir (type_of st q) \<and> prop_notify_child2 (Some p) q ex EV_SELECT_CHILD sk st = Some st1
              \<and> st' = set_selected q (Some p) st1)"
    using assms(2) by (auto simp: prop_select_ex_def split: payload.splits option.splits if_splits)
  then show ?thesis using assms(1) goD(1)[OF select_go[OF assms(1)]] goD(1)[OF proxy_go[OF assms(1)]] by auto
qed

lemma setv_ok:
  assumes "ok Inv st" "\<And>p. po = Some p \<Longrightarrow> p < pnext st" "skip_ok sk" "\<And>f. a \<noteq> SET_FLOAT f" "\<And>q. a \<noteq> SET_LINK q"
    "prop_setv_ex sk po ns a st = Some st'"
  shows "ok Inv st'"
proof (cases "st' = st")
  case True with assms(1) show ?thesis by simp
next
  case False
  with assms(6) obtain p r st1 where po: "po = Some p" and 1: "setv_path sk p ns st = Some (r, st1)"
    and 2: "case r of None \<Rightarrow> st' = st1 | Some q \<Rightarrow> prop_seti sk q a st1 = Some st'"
    by (auto simp: prop_setv_ex_def split: option.splits if_splits)
  have g: "go Inv st st1" by (rule path_go(1)[OF assms(1) assms(2)[OF po] assms(3) 1])
  show ?thesis
    using 2 goD(1)[OF g] goD(1)[OF seti[OF goD(1)[OF g] assms(3)]] assms(4,5) by (auto split: option.splits)
qed

lemma destroy_childs_ok:
  assumes "ok Inv st" "prop_destroy_childs po st = Some st'" shows "ok Inv st'"
  using assms(2) assms(1) goD(1)[OF destroy_childs0[OF assms(1)]]
  by (auto simp: prop_destroy_childs_def split: option.splits if_splits)

lemma void_childs_ok:
  assumes "ok Inv st" "prop_void_childs po st = Some st'" shows "ok Inv st'"
  using assms(2) assms(1) goD(1)[OF void_childs0[OF assms(1)]]
  by (auto simp: prop_void_childs_def simp del: prop_void_childs0.simps split: option.splits)

lemma cstring_ok:
  assumes "ok Inv st" "skip_ok sk" "prop_set_cstring_ex po sk s st = Some st'" shows "ok Inv st'"
  using assms(3) assms(1) goD(1)[OF set_void[OF assms(1,2)]] goD(1)[OF set_cstring[OF assms(1,2)]]
  by (auto simp: prop_set_cstring_ex_def prop_set_void_ex_def split: option.splits)

lemma link_ok:
  assumes "ok Inv st" "src < pnext st" "dst < pnext st" "skip_ok sk" "hp_originator (props st dst) = None"
    "prop_link_exl (Some src) dst sk m st = Some st'"
  shows "ok Inv st'"
  using assms(6) goD(1)[OF link_fresh[OF assms(1-5)]] ok_quiet_fun[OF assms(1)]
  by (auto simp: prop_link_exl_def split: if_splits)

lemma exec_values:
  assumes "ok Inv st" "exec op st = Some st'" "op_ok skip_ok st op"
    "(\<exists>p a sk. op = Op_set p a sk) \<or> (\<exists>po ns a sk. op = Op_setv po ns a sk)
     \<or> (\<exists>po s sk. op = Op_set_cstring po s sk) \<or> (\<exists>po t u sk. op = Op_set_uri po t u sk)
     \<or> (\<exists>p v sk. op = Op_add_int p v sk) \<or> (\<exists>p sk. op = Op_toggle_int p sk)"
  shows "ok Inv st'"
  using assms(4)
proof (elim disjE exE)
  fix p a sk assume o: "op = Op_set p a sk"
  have "go Inv st st'"
    by (rule seti[OF assms(1), where p = p and sk = sk and a = a])
       (use assms(2,3) o in \<open>auto split: set_arg.splits\<close>)
  then show ?thesis by (rule goD)
next
  fix po ns a sk assume "op = Op_setv po ns a sk"
  then show ?thesis
    by (intro setv_ok[OF assms(1), of po sk a ns]) (use assms(2,3) in \<open>auto split: set_arg.splits\<close>)
next
  fix p v sk assume "op = Op_add_int p v sk"
  then show ?thesis using assms(2,3) goD(1)[OF int_arith[OF assms(1), where p = p and sk = sk]] by auto
next
  fix p sk assume "op = Op_toggle_int p sk"
  then show ?thesis using assms(2,3) goD(1)[OF int_arith[OF assms(1), where p = p and sk = sk]] by auto
qed (use assms(2,3) cstring_ok[OF assms(1)] goD(1)[OF set_uri[OF assms(1)]] in auto)

text \<open>Every operation keeps the invariant and the tree.\<close>

lemma exec_ok:
  assumes "ok Inv st" "op_ok skip_ok st op" "exec op st = Some st'" shows "ok Inv st'"
proof (cases op)
  case (Op_move p b sk)
  then have m: "prop_move0 p b sk st = Some st'" "skip_ok sk" "p < pnext st" using assms(2,3) by auto
  show ?thesis
    using move[OF okD(1)[OF assms(1)] m(2,1)] tree_ok_move(1)[OF okD(2)[OF assms(1)] m(1,3)]
    by (simp add: ok_def)
next
  case (Op_set_parent_vector v ps q b sk)
  then show ?thesis
    by (intro vector_go[OF assms(1), where q = q and sk = sk and pv = "(v, ps)" and b = b])
       (use assms(2,3) in \<open>auto simp: list_all_iff\<close>)
next
  case (Op_destroy po)
  then have "prop_destroy po st = Some st'" "\<And>p. po = Some p \<Longrightarrow> p < pnext st"
    using assms(2,3) by auto
  then show ?thesis using goD(1)[OF destroy_go[OF assms(1)]] by blast
next
  case (Op_unlink po sk)
  then show ?thesis using assms goD(1)[OF unlink_go[OF assms(1)]]
    by (auto simp: prop_unlink_ex_def split: option.splits)
qed (use assms exec_create[OF assms(1,3,2)] exec_values[OF assms(1,3,2)] req_move_ok[OF assms(1)]
       goD(1)[OF unparent0(1)[OF assms(1)]] set_parent0[OF assms(1)] destroy_childs_ok[OF assms(1)]
       goD(1)[OF destroy_by_name_go[OF assms(1)]] void_childs_ok[OF assms(1)] select_ok[OF assms(1)]
       link_ok[OF assms(1)] want_more_ok[OF assms(1)] have_more_ok[OF assms(1)]
       send_event_ok[OF assms(1)] in auto)

end

text \<open>Runs of operations, each called as it must be.\<close>

inductive prop_run :: "(sid option \<Rightarrow> bool) \<Rightarrow> pst \<Rightarrow> pst \<Rightarrow> bool" for sko where
  prop_run_none: "prop_run sko st st"
| prop_run_step: "prop_run sko st st1 \<Longrightarrow> op_ok sko st1 op \<Longrightarrow> exec op st1 = Some st2 \<Longrightarrow> prop_run sko st st2"

inductive_cases prop_runE: "prop_run sko st st'"

context prop_inv begin

lemma run_ok:
  assumes "prop_run skip_ok st st'" "ok Inv st" shows "ok Inv st'"
  using assms by (induction rule: prop_run.induct) (auto intro: exec_ok)

end

end
