(* ===== verification/Prop_Mirror.thy ===== *)
theory Prop_Mirror
  imports Prop_Kept_Ops
begin

text \<open>
  What a subscriber knows. An ordinary subscriber (served by a courier, not internal, expedited
  or multi) that does nothing but apply the notifications it gets, in the order it gets them, to
  a list of its own, has the children of its value property in that list, in order.
\<close>

section \<open>Replaying a stream\<close>

definition value_events :: "prop_event set" where
  "value_events = {EV_SET_VOID, EV_SET_RSTRING, EV_SET_CSTRING, EV_SET_INT, EV_SET_FLOAT, EV_SET_DIR,
     EV_SET_URI, EV_SET_PROP}"

definition place :: "pid option \<Rightarrow> pid \<Rightarrow> pid list \<Rightarrow> pid list" where
  "place b p cs = (case b of Some x \<Rightarrow> insert_before x p cs | None \<Rightarrow> cs @ [p])"

definition nv_propv :: "notify_val \<Rightarrow> pid list" where
  "nv_propv v = (case v of NV_propv _ ps \<Rightarrow> ps | _ \<Rightarrow> [])"

definition opt_list :: "pid option \<Rightarrow> pid list" where
  "opt_list po = (case po of None \<Rightarrow> [] | Some p \<Rightarrow> [p])"

text \<open>What a client does with one notification: a value replaces the children it knew.\<close>

definition replay1 :: "pid list \<Rightarrow> prop_notify_t \<Rightarrow> pid list" where
  "replay1 cs n =
     (if hpn_event n \<in> value_events then []
      else case hpn_event n of
             EV_ADD_CHILD \<Rightarrow> cs @ opt_list (nv_prop (hpn_val n))
           | EV_ADD_CHILD_BEFORE \<Rightarrow> fold (place (hpn_prop_extra n)) (opt_list (nv_prop (hpn_val n))) cs
           | EV_ADD_CHILD_VECTOR \<Rightarrow> cs @ nv_propv (hpn_val n)
           | EV_ADD_CHILD_VECTOR_DIRECT \<Rightarrow> cs @ nv_propv (hpn_val n)
           | EV_ADD_CHILD_VECTOR_BEFORE \<Rightarrow> fold (place (hpn_prop_extra n)) (nv_propv (hpn_val n)) cs
           | EV_MOVE_CHILD \<Rightarrow>
               fold (\<lambda>p cs. place (hpn_prop_extra n) p (remove1 p cs)) (opt_list (nv_prop (hpn_val n))) cs
           | EV_DEL_CHILD \<Rightarrow> fold remove1 (opt_list (nv_prop (hpn_val n))) cs
           | _ \<Rightarrow> cs)"

definition replay :: "prop_notify_t list \<Rightarrow> pid list" where
  "replay ns = foldl replay1 [] ns"

lemma replay_append: "replay (ns @ ms) = foldl replay1 (replay ns) ms"
  by (simp add: replay_def)

section \<open>The invariant\<close>

definition sub_plain :: "sid \<Rightarrow> cid \<Rightarrow> pst \<Rightarrow> bool" where
  "sub_plain s c st \<longleftrightarrow>
     hps_flags (subs st s) \<inter> {PROP_SUB_INTERNAL, PROP_SUB_EXPEDITE, PROP_SUB_MULTI, PROP_SUB_IGNORE_VOID,
                              PROP_SUB_EARLY_DEL_CHILD} = {}
     \<and> hps_dispatch (subs st s) = MODE_COURIER c \<and> \<not> hps_zombie (subs st s)"

definition sub_linked :: "sid \<Rightarrow> pst \<Rightarrow> bool" where
  "sub_linked s st \<longleftrightarrow>
     (\<forall>p. count_list (hp_value_subscriptions (props st p)) s
            = (if hps_value_prop (subs st s) = Some p then 1 else 0))
     \<and> (\<forall>v. hps_value_prop (subs st s) = Some v \<longrightarrow> v < pnext st)"

definition settled :: "sid \<Rightarrow> cid \<Rightarrow> pst \<Rightarrow> bool" where
  "settled s c st \<longleftrightarrow> stray s c st = (\<lambda>_. [], \<lambda>_. [])"

definition faithful :: "sid \<Rightarrow> cid \<Rightarrow> pst \<Rightarrow> bool" where
  "faithful s c st \<longleftrightarrow>
     (\<forall>v. hps_value_prop (subs st s) = Some v \<longrightarrow> type_of st v \<noteq> PROP_ZOMBIE \<longrightarrow>
          replay (stream s c st) = hp_childs st v)"

definition mirror :: "sid \<Rightarrow> cid \<Rightarrow> pst \<Rightarrow> bool" where
  "mirror s c st \<longleftrightarrow> sub_plain s c st \<and> sub_linked s st \<and> settled s c st \<and> faithful s c st"

text \<open>One step of the stream.\<close>

definition told_more :: "sid \<Rightarrow> cid \<Rightarrow> prop_notify_t list \<Rightarrow> pst \<Rightarrow> pst \<Rightarrow> bool" where
  "told_more s c ns st st' \<longleftrightarrow>
     shape st' = shape st \<and> stream s c st' = stream s c st @ ns \<and> stray s c st' = stray s c st"

lemma told_moreD:
  assumes "told_more s c ns st st'"
  shows "shape st' = shape st" "stream s c st' = stream s c st @ ns" "stray s c st' = stray s c st"
  using assms by (simp_all add: told_more_def)

lemma told_obs: "obs s c st' = obs s c st \<Longrightarrow> told_more s c [] st st'"
  by (simp add: told_more_def obs_def)

lemma told_refl: "told_more s c [] st st"
  by (simp add: told_more_def)

lemma told_trans: "told_more s c ns st st1 \<Longrightarrow> told_more s c ms st1 st2 \<Longrightarrow> told_more s c (ns @ ms) st st2"
  by (simp add: told_more_def)

lemma plain_shape: "shape st' = shape st \<Longrightarrow> sub_plain s c st' = sub_plain s c st"
  using shape_eqD(13,17,20)[of st' st] by (simp add: sub_plain_def)

lemma plain_shapeI: "shape st' = shape st \<Longrightarrow> sub_plain s c st \<Longrightarrow> sub_plain s c st'"
  using plain_shape by blast

lemma linked_shape: "shape st' = shape st \<Longrightarrow> sub_linked s st' = sub_linked s st"
  using shape_eqD(4,10,14)[of st' st] by (simp add: sub_linked_def)

lemma told_enqueue:
  assumes "sub_plain s c st" "hpn_sub n = s" "tells (hpn_event n)"
  shows "told_more s c [n] st (prop_courier_enqueue s n st)"
proof -
  have e: "PROP_SUB_EXPEDITE \<notin> hps_flags (subs st s)" using assms(1) by (auto simp: sub_plain_def)
  have "hps_dispatch (subs st s) = MODE_COURIER c" using assms(1) by (simp add: sub_plain_def)
  from stream_enqueue_same[OF this assms(2,3)] e show ?thesis
    by (simp add: told_more_def prop_courier_enqueue_def)
qed

lemma told_enqueue_ref:
  assumes "sub_plain s c st" "hpn_sub n = s" "tells (hpn_event n)" "obs s c st1 = obs s c st"
  shows "told_more s c [n] st (prop_courier_enqueue s n st1)"
proof -
  have "sub_plain s c st1" using assms(1) plain_shape[OF obs_shape[OF assms(4)]] by simp
  from told_trans[OF told_obs[OF assms(4)] told_enqueue[OF this assms(2,3)]] show ?thesis by simp
qed

lemma told_ofold:
  assumes "ofold f xs st = Some st'"
    and "\<And>x u v. x \<noteq> s \<Longrightarrow> f x u = Some v \<Longrightarrow> told_more s c [] u v"
    and "\<And>u v. shape u = shape st \<Longrightarrow> f s u = Some v \<Longrightarrow> told_more s c ns u v"
  shows "told_more s c (concat (replicate (count_list xs s) ns)) st st'"
  using assms(1,3)
proof (induction xs arbitrary: st)
  case Nil
  then show ?case by (simp add: told_refl)
next
  case (Cons x xs)
  from Cons.prems(1) obtain u where u: "f x st = Some u" "ofold f xs u = Some st'"
    by (auto split: option.splits)
  have h: "told_more s c (if x = s then ns else []) st u"
    using assms(2) Cons.prems(2) u(1) by auto
  have "told_more s c (concat (replicate (count_list xs s) ns)) u st'"
    by (rule Cons.IH[OF u(2)]) (use Cons.prems(2) told_moreD(1)[OF h] in simp)
  from told_trans[OF h this] show ?case by (cases "x = s") simp_all
qed

lemma told_fold:
  assumes "\<And>x u. x \<noteq> s \<Longrightarrow> told_more s c [] u (f x u)"
    and "\<And>u. shape u = shape st \<Longrightarrow> told_more s c ns u (f s u)"
  shows "told_more s c (concat (replicate (count_list xs s) ns)) st (fold f xs st)"
  by (rule told_ofold[OF ofold_pure]) (use assms in auto)

lemma linked_count:
  "sub_linked s st \<Longrightarrow> concat (replicate (count_list (hp_value_subscriptions (props st q)) s) ns)
     = (if hps_value_prop (subs st s) = Some q then ns else [])"
  by (simp add: sub_linked_def)

text \<open>How a changed state and the notifications about it fit together.\<close>

lemma mirrorI:
  assumes "mirror s c st" "told_more s c ns st0 st'" "stream s c st0 = stream s c st"
    "stray s c st0 = stray s c st" "sub_plain s c st0" "sub_linked s st0"
    and f: "\<And>v. hps_value_prop (subs st0 s) = Some v \<Longrightarrow> type_of st0 v \<noteq> PROP_ZOMBIE \<Longrightarrow>
      foldl replay1 (replay (stream s c st)) ns = hp_childs st0 v"
  shows "mirror s c st'"
proof -
  note sh = told_moreD(1)[OF assms(2)]
  have "faithful s c st'"
    unfolding faithful_def told_moreD(2)[OF assms(2)] assms(3) replay_append
    using f shape_eqD(1,14)[OF sh] by simp
  then show ?thesis
    using plain_shape[OF sh] linked_shape[OF sh] assms(1,4,5,6) told_moreD(3)[OF assms(2)]
    by (simp add: mirror_def settled_def)
qed

section \<open>What each notification tells the subscription\<close>

lemma told_child:
  assumes "sub_plain s c st" "sub_linked s st" "sk \<noteq> Some s" "tells ev"
  shows "told_more s c (if hps_value_prop (subs st s) = Some q then [mk_notify s ev (NV_prop po)] else [])
           st (prop_notify_child po q ev sk st)"
  unfolding prop_notify_child_def linked_count[OF assms(2), symmetric]
proof (rule told_fold)
  fix x u assume "x \<noteq> s"
  then show "told_more s c [] u (if Some x = sk then u else prop_build_notify_child x po ev False False u)"
    by (intro told_obs) (simp add: prop_build_notify_child_def Let_def obs_call_other obs_courier_enqueue)
next
  fix u assume "shape u = shape st"
  then have p: "sub_plain s c u" by (rule plain_shapeI[OF _ assms(1)])
  then have i: "\<not> is_internal u s" by (auto simp: sub_plain_def is_internal_def)
  have n: "(mk_notify s ev (NV_prop po))\<lparr>hpn_selected := False\<rparr> = mk_notify s ev (NV_prop po)"
    by (simp add: mk_notify_def)
  have e: "(if Some s = sk then u else prop_build_notify_child s po ev False False u)
      = prop_courier_enqueue s (mk_notify s ev (NV_prop po)) (prop_ref_inc po (prop_get_notify s u))"
    using assms(3) i by (simp add: prop_build_notify_child_def Let_def n)
  show "told_more s c [mk_notify s ev (NV_prop po)] u
          (if Some s = sk then u else prop_build_notify_child s po ev False False u)"
    unfolding e by (rule told_enqueue_ref[OF p]) (simp_all add: assms(4))
qed

lemma told_child2:
  assumes "sub_plain s c st" "sub_linked s st" "sk \<noteq> Some s" "tells ev"
    "prop_notify_child2 po q ex ev sk st = Some st'"
  shows "told_more s c (if hps_value_prop (subs st s) = Some q
             then [(mk_notify s ev (NV_prop po))\<lparr>hpn_prop_extra := ex\<rparr>] else []) st st'"
  unfolding linked_count[OF assms(2), symmetric]
proof (rule told_ofold[OF assms(5)[unfolded prop_notify_child2_def]])
  fix x u v assume "x \<noteq> s"
    and "(if Some x = sk then Some u else prop_build_notify_child2 x po ex ev False u) = Some v"
  then show "told_more s c [] u v"
    by (intro told_obs)
       (auto simp: prop_build_notify_child2_def Let_def obs_call_other obs_courier_enqueue
         split: if_splits option.splits)
next
  fix u v assume sh: "shape u = shape st"
    and r: "(if Some s = sk then Some u else prop_build_notify_child2 s po ex ev False u) = Some v"
  have p: "sub_plain s c u" by (rule plain_shapeI[OF sh assms(1)])
  then have i: "\<not> is_internal u s" by (auto simp: sub_plain_def is_internal_def)
  have e: "v = prop_courier_enqueue s ((mk_notify s ev (NV_prop po))\<lparr>hpn_prop_extra := ex\<rparr>)
      (prop_ref_inc ex (prop_ref_inc po (prop_get_notify s u)))"
    using assms(3) i r by (cases po) (simp_all add: prop_build_notify_child2_def Let_def)
  show "told_more s c [(mk_notify s ev (NV_prop po))\<lparr>hpn_prop_extra := ex\<rparr>] u v"
    unfolding e by (rule told_enqueue_ref[OF p]) (simp_all add: assms(4))
qed

lemma told_childv:
  assumes "sub_plain s c st" "sub_linked s st" "sk \<noteq> Some s" "tells ev"
  shows "told_more s c (if hps_value_prop (subs st s) = Some q
             then [(mk_notify s ev (NV_propv (fst pv) (snd pv)))\<lparr>hpn_prop_extra := p2\<rparr>] else [])
           st (prop_notify_childv pv q ev sk p2 st)"
  unfolding prop_notify_childv_def linked_count[OF assms(2), symmetric]
proof (rule told_fold)
  fix x u assume "x \<noteq> s"
  then show "told_more s c [] u (if Some x = sk then u else prop_build_notify_childv x pv ev p2 False u)"
    by (intro told_obs) (simp add: prop_build_notify_childv_def Let_def obs_call_other obs_courier_enqueue)
next
  fix u assume "shape u = shape st"
  then have p: "sub_plain s c u" by (rule plain_shapeI[OF _ assms(1)])
  then have i: "\<not> is_internal u s" by (auto simp: sub_plain_def is_internal_def)
  have e: "(if Some s = sk then u else prop_build_notify_childv s pv ev p2 False u)
      = prop_courier_enqueue s ((mk_notify s ev (NV_propv (fst pv) (snd pv)))\<lparr>hpn_prop_extra := p2\<rparr>)
          (prop_ref_inc p2 (prop_vec_addref pv (prop_get_notify s u)))"
    using assms(3) i by (simp add: prop_build_notify_childv_def Let_def)
  show "told_more s c [(mk_notify s ev (NV_propv (fst pv) (snd pv)))\<lparr>hpn_prop_extra := p2\<rparr>] u
          (if Some s = sk then u else prop_build_notify_childv s pv ev p2 False u)"
    unfolding e by (rule told_enqueue_ref[OF p]) (simp_all add: assms(4))
qed

lemma told_del_child:
  assumes "sub_plain s c st" "sub_linked s st"
  shows "told_more s c (if hps_value_prop (subs st s) = Some q \<and> \<not> e
             then [mk_notify s EV_DEL_CHILD (NV_prop (Some p))] else []) st (notify_del_child e p q st)"
proof -
  let ?ns = "if e then [] else [mk_notify s EV_DEL_CHILD (NV_prop (Some p))]"
  have n: "(mk_notify s EV_DEL_CHILD (NV_prop (Some p)))\<lparr>hpn_selected := False\<rparr>
      = mk_notify s EV_DEL_CHILD (NV_prop (Some p))" by (simp add: mk_notify_def)
  have "told_more s c (concat (replicate (count_list (hp_value_subscriptions (props st q)) s) ?ns)) st
          (notify_del_child e p q st)"
    unfolding notify_del_child_def
  proof (rule told_fold)
    fix x u assume "x \<noteq> s"
    then show "told_more s c [] u (if (PROP_SUB_EARLY_DEL_CHILD \<in> hps_flags (subs u x)) = e
        then prop_build_notify_child x (Some p) EV_DEL_CHILD False False u else u)"
      by (intro told_obs) (simp add: prop_build_notify_child_def Let_def obs_call_other obs_courier_enqueue)
  next
    fix u assume "shape u = shape st"
    then have pl: "sub_plain s c u" by (rule plain_shapeI[OF _ assms(1)])
    then have i: "\<not> is_internal u s" "PROP_SUB_EARLY_DEL_CHILD \<notin> hps_flags (subs u s)"
      by (auto simp: sub_plain_def is_internal_def)
    have "tells EV_DEL_CHILD" by (simp add: tells_def)
    then have t: "told_more s c [mk_notify s EV_DEL_CHILD (NV_prop (Some p))] u
        (prop_build_notify_child s (Some p) EV_DEL_CHILD False False u)"
      unfolding prop_build_notify_child_def Let_def using i(1)
      by (simp add: n) (rule told_enqueue_ref[OF pl], simp_all)
    show "told_more s c ?ns u (if (PROP_SUB_EARLY_DEL_CHILD \<in> hps_flags (subs u s)) = e
        then prop_build_notify_child s (Some p) EV_DEL_CHILD False False u else u)"
      using t i(2) told_refl by (cases e) simp_all
  qed
  then show ?thesis unfolding linked_count[OF assms(2)] by (cases e) (simp_all cong: if_cong)
qed

lemma told_build_value:
  assumes "sub_plain s c st" "prop_build_notify_value s False p False st = Some st'"
    "value_event (type_of st p) = Some (ev, nv)"
  shows "told_more s c [mk_notify s ev nv] st st'"
proof -
  have fl: "PROP_SUB_IGNORE_VOID \<notin> hps_flags (subs st s)" "PROP_SUB_INTERNAL \<notin> hps_flags (subs st s)"
    using assms(1) by (auto simp: sub_plain_def)
  define st1 where "st1 = (if PROP_SUB_SEND_VALUE_PROP \<in> hps_flags (subs st s)
       then prop_courier_enqueue s (mk_notify s EV_VALUE_PROP (NV_prop (Some p)))
              (prop_ref_inc (Some p) (prop_get_notify s st)) else st)"
  have o: "obs s c st1 = obs s c st"
    by (simp add: st1_def obs_courier_enqueue tells_def)
  have t: "tells ev" using assms(3) by (cases "type_of st p") (auto simp: tells_def)
  have "st' = prop_courier_enqueue s (mk_notify s ev nv) (prop_ref_inc (nv_prop nv) (prop_get_notify s st1))"
    using assms(2,3) fl
    by (auto simp: prop_build_notify_value_def Let_def enqueue_or_defer_def st1_def split: if_splits)
  then have e: "st' = prop_courier_enqueue s (mk_notify s ev nv)
      (prop_ref_inc (nv_prop nv) (prop_get_notify s st1))" .
  show ?thesis unfolding e by (rule told_enqueue_ref[OF assms(1)]) (simp_all add: t o)
qed

lemma told_build_value_other:
  assumes "x \<noteq> s" "prop_build_notify_value x False p False st = Some st'"
  shows "told_more s c [] st st'"
  using assms
  by (intro told_obs)
     (auto simp: prop_build_notify_value_def Let_def enqueue_or_defer_def obs_call_other obs_courier_enqueue
       split: if_splits option.splits)

lemma told_notify_multi:
  assumes "sub_plain s c st" "notify_multi q st = Some st'" shows "told_more s c [] st st'"
proof (cases "PROP_MULTI_SUB \<in> hp_flags (props st q)")
  case True
  with assms(2) have "ofold (\<lambda>x st. if PROP_SUB_MULTI \<in> hps_flags (subs st x)
       then prop_build_notify_value x False q False st else Some st)
     (hp_value_subscriptions (props st q)) st = Some st'" by (simp add: notify_multi_def)
  then have "told_more s c (concat (replicate (count_list (hp_value_subscriptions (props st q)) s) [])) st st'"
  proof (rule told_ofold)
    fix u v assume "shape u = shape st"
      and r: "(if PROP_SUB_MULTI \<in> hps_flags (subs u s)
               then prop_build_notify_value s False q False u else Some u) = Some v"
    from plain_shapeI[OF this(1) assms(1)] have "PROP_SUB_MULTI \<notin> hps_flags (subs u s)"
      by (auto simp: sub_plain_def)
    then show "told_more s c [] u v" using r told_refl by simp
  qed (auto split: if_splits intro: told_build_value_other told_refl)
  then show ?thesis by simp
next
  case False then show ?thesis using assms(2) told_refl by (simp add: notify_multi_def)
qed

text \<open>After a value notification nothing of the old children is left.\<close>

lemma replay1_value: "value_event v = Some (ev, nv) \<Longrightarrow> replay1 cs (mk_notify s ev nv) = []"
  by (cases v) (auto simp: replay1_def value_events_def)

lemma event_of:
  assumes "sub_plain s c u" and "(if Some s = sk then Some u
          else case hps_value_prop (subs u s) of None \<Rightarrow> None
               | Some vp \<Rightarrow> prop_build_notify_value s False vp False u) = Some w" and "sk \<noteq> Some s"
  shows "\<exists>vp ev nv. hps_value_prop (subs u s) = Some vp \<and> value_event (type_of u vp) = Some (ev, nv)
    \<and> prop_build_notify_value s False vp False u = Some w"
proof -
  from assms(2,3) obtain vp where vp: "hps_value_prop (subs u s) = Some vp"
    and b: "prop_build_notify_value s False vp False u = Some w" by (auto split: option.splits if_splits)
  have "PROP_SUB_IGNORE_VOID \<notin> hps_flags (subs u s)" "PROP_SUB_INTERNAL \<notin> hps_flags (subs u s)"
    using assms(1) by (auto simp: sub_plain_def)
  with b obtain ev nv where "value_event (type_of u vp) = Some (ev, nv)"
    by (auto simp: prop_build_notify_value_def Let_def split: if_splits option.splits)
  with vp b show ?thesis by blast
qed

lemma told_value_exact:
  assumes "sub_plain s c st" "sub_linked s st" "sk \<noteq> Some s" "prop_notify_value p sk st = Some st'"
  shows "\<exists>ns. told_more s c ns st st' \<and>
    (if hps_value_prop (subs st s) = Some p
     then \<exists>ev nv. value_event (type_of st p) = Some (ev, nv) \<and> ns = [mk_notify s ev nv] else ns = [])"
proof -
  from assms(4) obtain st1 where
    1: "ofold (\<lambda>s st. if Some s = sk then Some st
          else case hps_value_prop (subs st s) of None \<Rightarrow> None
               | Some vp \<Rightarrow> prop_build_notify_value s False vp False st)
        (hp_value_subscriptions (props st p)) st = Some st1"
    and 2: "(if PROP_MULTI_NOTIFY \<in> hp_flags (props st1 p)
          then (case ancestors (Suc (pnext st1)) st1 p of None \<Rightarrow> None
                | Some qs \<Rightarrow> ofold notify_multi qs st1)
          else Some st1) = Some st'"
    unfolding prop_notify_value_def by (auto simp: bind_eq_Some_conv)
  have mt: "told_more s c [] st1 st'" if pl: "sub_plain s c st1"
  proof -
    have "told_more s c [] st1 w" if "ofold notify_multi qs st1 = Some w" for qs w
      using that
    proof (rule ofold_invariant[where P = "told_more s c [] st1"])
      fix x u v assume "told_more s c [] st1 u" "notify_multi x u = Some v"
      moreover from this have "sub_plain s c u" using plain_shapeI[OF told_moreD(1) pl] by blast
      ultimately show "told_more s c [] st1 v" using told_trans told_notify_multi by fastforce
    qed (rule told_refl)
    then show ?thesis using 2 told_refl by (auto split: if_splits option.splits)
  qed
  define ns where "ns = (case hps_value_prop (subs st s) of None \<Rightarrow> []
    | Some v \<Rightarrow> (case value_event (type_of st v) of None \<Rightarrow> [] | Some (ev, nv) \<Rightarrow> [mk_notify s ev nv]))"
  have t1: "told_more s c (concat (replicate (count_list (hp_value_subscriptions (props st p)) s) ns)) st st1"
  proof (rule told_ofold[OF 1])
    fix u v assume sh: "shape u = shape st"
      and r: "(if Some s = sk then Some u
          else case hps_value_prop (subs u s) of None \<Rightarrow> None
               | Some vp \<Rightarrow> prop_build_notify_value s False vp False u) = Some v"
    have pl: "sub_plain s c u" using plain_shape[OF sh] assms(1) by simp
    from event_of[OF pl r assms(3)] obtain vp ev nv where vp: "hps_value_prop (subs u s) = Some vp"
      and e: "value_event (type_of u vp) = Some (ev, nv)"
      and b: "prop_build_notify_value s False vp False u = Some v" by blast
    have "ns = [mk_notify s ev nv]"
      using vp e shape_eqD(1,14)[OF sh] by (simp add: ns_def)
    with told_build_value[OF pl b e] show "told_more s c ns u v" by simp
  qed (auto split: if_splits option.splits intro: told_build_value_other told_refl)
  note t = told_trans[OF t1 mt[OF plain_shape[OF told_moreD(1)[OF t1], THEN iffD2, OF assms(1)]]]
  have c: "concat (replicate (count_list (hp_value_subscriptions (props st p)) s) ns)
     = (if hps_value_prop (subs st s) = Some p then ns else [])" by (rule linked_count[OF assms(2)])
  have nz: "\<exists>ev nv. value_event (type_of st p) = Some (ev, nv) \<and> ns = [mk_notify s ev nv]" if v: "hps_value_prop (subs st s) = Some p"
  proof -
    have "s \<in> set (hp_value_subscriptions (props st p))"
      using assms(2) v by (metis count_list_0_iff sub_linked_def zero_neq_one)
    then obtain ys zs where l: "hp_value_subscriptions (props st p) = ys @ s # zs"
      by (meson split_list)
    from 1[unfolded l ofold_append] obtain u w where u: "ofold (\<lambda>s st. if Some s = sk then Some st
          else case hps_value_prop (subs st s) of None \<Rightarrow> None
               | Some vp \<Rightarrow> prop_build_notify_value s False vp False st) ys st = Some u"
      and w: "(if Some s = sk then Some u
          else case hps_value_prop (subs u s) of None \<Rightarrow> None
               | Some vp \<Rightarrow> prop_build_notify_value s False vp False u) = Some w"
      by (auto split: option.splits)
    have sh: "shape u = shape st"
      by (rule shape_ofold[OF u]) (auto split: if_splits option.splits dest: shape_build_notify_value)
    from event_of[OF plain_shape[OF sh, THEN iffD2, OF assms(1)] w assms(3)] obtain vp ev nv where
      "hps_value_prop (subs u s) = Some vp" "value_event (type_of u vp) = Some (ev, nv)" by auto
    then show ?thesis using shape_eqD(1,14)[OF sh] v by (simp add: ns_def)
  qed
  show ?thesis using t c nz by (intro exI[of _ "if hps_value_prop (subs st s) = Some p then ns else []"]) auto
qed

lemma told_value:
  assumes "sub_plain s c st" "sub_linked s st" "sk \<noteq> Some s" "prop_notify_value p sk st = Some st'"
  shows "\<exists>ns. told_more s c ns st st' \<and>
    (if hps_value_prop (subs st s) = Some p then \<forall>cs. foldl replay1 cs ns = [] else ns = [])"
  using told_value_exact[OF assms] replay1_value by (fastforce split: if_splits)

section \<open>The invariant is kept by every step\<close>

lemma mirror_quiet: "mirror s c st \<Longrightarrow> obs s c st' = obs s c st \<Longrightarrow> mirror s c st'"
  by (rule mirrorI[of s c st "[]" st, OF _ told_obs]) (auto simp: mirror_def faithful_def)

text \<open>Changes of the state that leave the queues and the subscription's own record alone.\<close>

lemma mirror_change:
  assumes "mirror s c st" "stream s c st' = stream s c st" "stray s c st' = stray s c st"
    "subs st' s = subs st s" "pnext st \<le> pnext st'"
    "\<And>p. count_list (hp_value_subscriptions (props st' p)) s = count_list (hp_value_subscriptions (props st p)) s"
    "\<And>v. hps_value_prop (subs st s) = Some v \<Longrightarrow> type_of st' v \<noteq> PROP_ZOMBIE \<Longrightarrow>
       type_of st v \<noteq> PROP_ZOMBIE \<and> hp_childs st' v = hp_childs st v"
  shows "mirror s c st'"
proof (rule mirrorI[OF assms(1) told_refl assms(2,3)])
  show "sub_plain s c st'" using assms(1,4) by (simp add: mirror_def sub_plain_def)
  show "sub_linked s st'" using assms(1,4,5,6) by (auto simp: mirror_def sub_linked_def)
  fix v assume "hps_value_prop (subs st' s) = Some v" "type_of st' v \<noteq> PROP_ZOMBIE"
  then show "foldl replay1 (replay (stream s c st)) [] = hp_childs st' v"
    using assms(1,4) assms(7)[of v] by (simp add: mirror_def faithful_def)
qed

lemma mirror_field:
  assumes "mirror s c st" "\<And>x. hp_type (f x) = hp_type x"
    "\<And>x. hp_value_subscriptions (f x) = hp_value_subscriptions x"
  shows "mirror s c (upd_prop p f st)"
proof -
  have "type_of (upd_prop p f st) v = type_of st v" for v using assms(2) by (simp add: type_of_def)
  then show ?thesis by (intro mirror_change[OF assms(1)]) (simp_all add: stream_upd assms(3) del: type_of_upd_prop)
qed

lemma mirror_subfield:
  assumes "mirror s c st" "\<And>x. hps_flags (f x) = hps_flags x"
    "\<And>x. hps_dispatch (f x) = hps_dispatch x" "\<And>x. hps_value_prop (f x) = hps_value_prop x"
    "\<And>x. hps_zombie (f x) = hps_zombie x"
  shows "mirror s c (upd_sub x f st)"
proof -
  have v: "hps_value_prop (subs (upd_sub x f st) s) = hps_value_prop (subs st s)"
    "hps_flags (subs (upd_sub x f st) s) = hps_flags (subs st s)"
    "hps_dispatch (subs (upd_sub x f st) s) = hps_dispatch (subs st s)"
    "hps_zombie (subs (upd_sub x f st) s) = hps_zombie (subs st s)"
    using assms(2-) by simp_all
  have o: "props (upd_sub x f st) = props st" "pnext (upd_sub x f st) = pnext st"
    "type_of (upd_sub x f st) p = type_of st p" for p by simp_all
  show ?thesis using assms(1)
    unfolding mirror_def sub_plain_def sub_linked_def faithful_def settled_def stream_upd v o by blast
qed

lemma mirror_sub_other:
  assumes "mirror s c st" "x \<noteq> s" shows "mirror s c (upd_sub x f st)"
  by (rule mirror_change[OF assms(1)]) (use assms(2) in \<open>simp_all add: stream_upd\<close>)

lemma mirror_make: "mirror s c st \<Longrightarrow> mirror s c (snd (prop_make n b po st))"
proof -
  assume m: "mirror s c st"
  then have l: "hps_value_prop (subs st s) \<noteq> Some (pnext st)" by (auto simp: mirror_def sub_linked_def)
  have q: "stream s c (snd (prop_make n b po st)) = stream s c st"
    "stray s c (snd (prop_make n b po st)) = stray s c st"
    by (simp_all add: prop_make_def stream_def stray_def cong: if_cong)
  have "count_list (hp_value_subscriptions (props st (pnext st))) s = 0"
    using m l by (simp add: mirror_def sub_linked_def)
  then show ?thesis using q l
    by (intro mirror_change[OF m]) (auto simp: type_make)
qed

lemma mirror_type:
  assumes "mirror s c st" "\<And>v. hps_value_prop (subs st s) = Some v \<Longrightarrow> v = p \<Longrightarrow> t \<noteq> PROP_ZOMBIE \<Longrightarrow>
     type_of st p \<noteq> PROP_ZOMBIE \<and> childs_of t = hp_childs st p"
  shows "mirror s c (set_type p t st)"
  by (rule mirror_change[OF assms(1)]) (use assms(2) in \<open>auto simp: stream_upd\<close>)

lemma plain_set_type [simp]: "sub_plain s c (set_type p v st) = sub_plain s c st"
  by (simp add: sub_plain_def)

lemma vs_set_type:
  "hp_value_subscriptions (props (set_type p v st) q) = hp_value_subscriptions (props st q)"
  by simp

lemma linked_set_type [simp]: "sub_linked s (set_type p v st) = sub_linked s st"
  unfolding sub_linked_def vs_set_type by simp

lemma prop_core_type:
  assumes "x\<lparr>hp_refcount := 0\<rparr> = (y::prop_t)\<lparr>hp_refcount := 0\<rparr>"
  shows "x\<lparr>hp_type := v\<rparr>\<lparr>hp_refcount := 0\<rparr> = y\<lparr>hp_type := v\<rparr>\<lparr>hp_refcount := 0\<rparr>"
  using assms by (cases x; cases y) simp

lemma shape_set_type:
  assumes u: "shape u = shape st" shows "shape (set_type q v u) = shape (set_type q v st)"
proof -
  have p: "(props u p)\<lparr>hp_refcount := 0\<rparr> = (props st p)\<lparr>hp_refcount := 0\<rparr>" for p
    using u unfolding shape_def by (metis (no_types, lifting) prod.inject)
  have "(\<lambda>p. (props (set_type q v u) p)\<lparr>hp_refcount := 0\<rparr>)
      = (\<lambda>p. (props (set_type q v st) p)\<lparr>hp_refcount := 0\<rparr>)"
  proof
    fix r show "(props (set_type q v u) r)\<lparr>hp_refcount := 0\<rparr> = (props (set_type q v st) r)\<lparr>hp_refcount := 0\<rparr>"
      using p[of r] prop_core_type[OF p[of q]] by (cases "r = q") simp_all
  qed
  with u show ?thesis unfolding shape_def by simp
qed

lemma set_childs_eq: "set_childs q cs st = set_type q (PROP_DIR cs (hp_selected st q)) st"
  by (simp add: set_childs_def)

lemma mirror_retype:
  assumes m: "mirror s c st" "\<not> is_dir v \<or> childs_of v = []" "sk \<noteq> Some s"
    "prop_notify_value p sk (set_type p v st) = Some st'"
  shows "mirror s c st'"
proof -
  have pl: "sub_plain s c (set_type p v st)" "sub_linked s (set_type p v st)"
    using m(1) by (simp_all add: mirror_def)
  have cv: "childs_of v = []" using m(2) childs_of_nondir by blast
  from told_value[OF pl m(3,4)] obtain ns where t: "told_more s c ns (set_type p v st) st'"
    and ns: "if hps_value_prop (subs (set_type p v st) s) = Some p
             then \<forall>cs. foldl replay1 cs ns = [] else ns = []" by blast
  show ?thesis
    by (rule mirrorI[OF m(1) t _ _ pl])
       (use m(1) ns cv in \<open>auto simp: stream_upd mirror_def faithful_def split: if_splits\<close>)
qed

text \<open>A changed list of children, with the one notification that says how it changed.\<close>

lemma mirror_childs:
  assumes m: "mirror s c st" "is_dir (type_of st q)"
    and t: "told_more s c (if hps_value_prop (subs st s) = Some q then [n] else []) (set_childs q cs st) st'"
    and r: "replay1 (hp_childs st q) n = cs"
  shows "mirror s c st'"
proof (rule mirrorI[OF m(1) t])
  fix v assume v: "hps_value_prop (subs (set_childs q cs st) s) = Some v"
    and z: "type_of (set_childs q cs st) v \<noteq> PROP_ZOMBIE"
  have "type_of st v \<noteq> PROP_ZOMBIE" using z m(2) by (cases "v = q") auto
  then have f: "replay (stream s c st) = hp_childs st v" using m(1) v by (simp add: mirror_def faithful_def)
  show "foldl replay1 (replay (stream s c st)) (if hps_value_prop (subs st s) = Some q then [n] else [])
      = hp_childs (set_childs q cs st) v"
    using v f r by (cases "v = q") auto
qed (use m(1) in \<open>simp_all add: set_childs_eq stream_upd mirror_def\<close>)

lemma replay1_simps [simp]:
  "replay1 cs (mk_notify s EV_ADD_CHILD (NV_prop (Some p))) = cs @ [p]"
  "replay1 cs ((mk_notify s EV_ADD_CHILD_BEFORE (NV_prop (Some p)))\<lparr>hpn_prop_extra := b\<rparr>) = place b p cs"
  "replay1 cs ((mk_notify s EV_MOVE_CHILD (NV_prop (Some p)))\<lparr>hpn_prop_extra := b\<rparr>) = place b p (remove1 p cs)"
  "replay1 cs (mk_notify s EV_DEL_CHILD (NV_prop (Some p))) = remove1 p cs"
  "replay1 cs ((mk_notify s EV_ADD_CHILD_VECTOR (NV_propv v ps))\<lparr>hpn_prop_extra := b\<rparr>) = cs @ ps"
  "replay1 cs ((mk_notify s EV_ADD_CHILD_VECTOR_BEFORE (NV_propv v ps))\<lparr>hpn_prop_extra := b\<rparr>)
     = fold (place b) ps cs"
  by (simp_all add: replay1_def value_events_def opt_list_def nv_prop_def nv_propv_def)

lemma tells_simps [simp]:
  "tells EV_ADD_CHILD" "tells EV_ADD_CHILD_BEFORE" "tells EV_MOVE_CHILD" "tells EV_DEL_CHILD"
  "tells EV_ADD_CHILD_VECTOR" "tells EV_ADD_CHILD_VECTOR_BEFORE"
  by (simp_all add: tells_def)

lemma plain_linked_childs:
  assumes "mirror s c st" shows "sub_plain s c (set_childs q cs st)" "sub_linked s (set_childs q cs st)"
  using assms by (simp_all add: set_childs_eq mirror_def)

lemma mirror_insert:
  assumes m: "mirror s c st" "sk \<noteq> Some s" "prop_insert p q b sk st = Some st'"
  shows "mirror s c st'"
proof (cases b)
  case None
  let ?cs = "hp_childs st q @ [p]"
  have e: "is_dir (type_of st q)" "st' = prop_notify_child (Some p) q EV_ADD_CHILD sk (set_childs q ?cs st)"
    using m(3) None by (auto simp: prop_insert_def split: if_splits)
  have t: "told_more s c (if hps_value_prop (subs (set_childs q ?cs st) s) = Some q
      then [mk_notify s EV_ADD_CHILD (NV_prop (Some p))] else []) (set_childs q ?cs st) st'"
    unfolding e(2) by (rule told_child[OF plain_linked_childs[OF m(1)] m(2)]) simp
  show ?thesis by (rule mirror_childs[OF m(1) e(1) t[simplified]]) simp
next
  case (Some x)
  let ?cs = "insert_before x p (hp_childs st q)"
  have e: "is_dir (type_of st q)"
    "prop_notify_child2 (Some p) q (Some x) EV_ADD_CHILD_BEFORE sk (set_childs q ?cs st) = Some st'"
    using m(3) Some by (auto simp: prop_insert_def split: if_splits)
  have "tells EV_ADD_CHILD_BEFORE" by simp
  note t = told_child2[OF plain_linked_childs[OF m(1)] m(2) this e(2)]
  show ?thesis by (rule mirror_childs[OF m(1) e(1) t[simplified]]) (simp add: place_def)
qed

lemma mirror_move:
  assumes m: "mirror s c st" "sk \<noteq> Some s" "prop_move0 p b sk st = Some st'"
  shows "mirror s c st'"
proof (cases "st' = st")
  case True with m(1) show ?thesis by simp
next
  case False
  with m(3) obtain q where d: "is_dir (type_of st q)"
    and r: "prop_notify_child2 (Some p) q b EV_MOVE_CHILD sk
         (set_childs q (place b p (remove1 p (hp_childs st q))) st) = Some st'"
    by (auto simp: prop_move0_def Let_def place_def split: if_splits option.splits)
  have "tells EV_MOVE_CHILD" by simp
  note t = told_child2[OF plain_linked_childs[OF m(1)] m(2) this r]
  show ?thesis by (rule mirror_childs[OF m(1) d t[simplified]]) simp
qed

text \<open>Detaching: the notification first, then the removal.\<close>

lemma mirror_remove:
  assumes m: "mirror s c st" and u: "shape u = shape st" and r: "remove_child q p u = Some st'"
    and t: "told_more s c (if hps_value_prop (subs st s) = Some q
              then [mk_notify s EV_DEL_CHILD (NV_prop (Some p))] else []) st u"
  shows "mirror s c st'"
proof -
  have e: "is_dir (type_of u q)"
    "st' = upd_prop p (\<lambda>x. x\<lparr>hp_parent := None\<rparr>) (set_childs q (remove1 p (hp_childs u q)) u)"
    using r by (auto simp: remove_child_def split: if_splits)
  note sh = shape_eqD[OF u]
  let ?u = "set_childs q (remove1 p (hp_childs st q)) st"
  have d: "is_dir (type_of st q)" using e(1) sh(1) by simp
  let ?v = "set_childs q (remove1 p (hp_childs u q)) u"
  have "told_more s c (if hps_value_prop (subs st s) = Some q
              then [mk_notify s EV_DEL_CHILD (NV_prop (Some p))] else []) ?u ?v"
    using t shape_set_type[OF u, of q] sh(1)
    by (simp add: told_more_def set_childs_eq stream_upd)
  from mirror_childs[OF m d this] have "mirror s c ?v" by simp
  then show ?thesis unfolding e(2) by (rule mirror_field) simp_all
qed

lemma mirror_detach:
  assumes m: "mirror s c st" "remove_child q p (prop_notify_child (Some p) q EV_DEL_CHILD None st) = Some st'"
  shows "mirror s c st'"
proof -
  have pl: "sub_plain s c st" "sub_linked s st" using m(1) by (simp_all add: mirror_def)
  have "tells EV_DEL_CHILD" by simp
  from mirror_remove[OF m(1) _ m(2) told_child[OF pl _ this]] show ?thesis by simp
qed

lemma mirror_detach_late:
  assumes m: "mirror s c st" "remove_child q p (notify_del_child False p q st) = Some st'"
  shows "mirror s c st'"
proof -
  have pl: "sub_plain s c st" "sub_linked s st" using m(1) by (simp_all add: mirror_def)
  note t = told_del_child[OF pl, of q False p]
  from mirror_remove[OF m(1) _ m(2)] t show ?thesis by simp
qed

lemma mirror_early:
  assumes m: "mirror s c st" shows "mirror s c (notify_del_child True p q st)"
proof -
  have pl: "sub_plain s c st" "sub_linked s st" using m by (simp_all add: mirror_def)
  from told_del_child[OF pl, of q True p] have t: "told_more s c [] st (notify_del_child True p q st)" by simp
  show ?thesis by (rule mirrorI[OF m t]) (use m in \<open>auto simp: mirror_def faithful_def\<close>)
qed

lemma mirror_select:
  "mirror s c st \<Longrightarrow> is_dir (type_of st q) \<Longrightarrow> mirror s c (set_selected q sel st)"
  unfolding set_selected_def by (rule mirror_type) auto

lemma mirror_zombify: "mirror s c st \<Longrightarrow> mirror s c (set_type p PROP_ZOMBIE st)"
  by (rule mirror_type) auto

subsection \<open>A vector of children\<close>

text \<open>Everything but flags, parents and children lists.\<close>

definition same_queues :: "pst \<Rightarrow> pst \<Rightarrow> bool" where
  "same_queues st st' \<longleftrightarrow> subs st' = subs st \<and> couriers st' = couriers st \<and> calls st' = calls st
     \<and> psds st' = psds st \<and> psdnext st' = psdnext st
     \<and> (\<forall>p. hp_value_subscriptions (props st' p) = hp_value_subscriptions (props st p))"

lemma same_queues_trans: "same_queues st st1 \<Longrightarrow> same_queues st1 st2 \<Longrightarrow> same_queues st st2"
  by (simp add: same_queues_def)

lemma same_queues_flood: "prop_flood_flag k sf cf p st = Some st' \<Longrightarrow> same_queues st st'"
proof (induction k arbitrary: p st st')
  case 0 then show ?case by simp
next
  case (Suc k)
  let ?st1 = "upd_prop p (\<lambda>x. x\<lparr>hp_flags := (hp_flags x \<union> sf) - cf\<rparr>) st"
  have "ofold (prop_flood_flag k sf cf) (hp_childs ?st1 p) ?st1 = Some st'"
    using Suc.prems by (simp add: Let_def)
  then have "same_queues ?st1 st'"
  proof (rule ofold_invariant[where P = "same_queues ?st1"])
    show "same_queues ?st1 ?st1" by (simp add: same_queues_def)
  qed (meson Suc.IH same_queues_trans)
  moreover have "same_queues st ?st1" by (simp add: same_queues_def)
  ultimately show ?case by (meson same_queues_trans)
qed

lemma same_queues_inherit: "inherit_multi p q st = Some st' \<Longrightarrow> same_queues st st'"
  using same_queues_flood
  by (auto simp: inherit_multi_def simp del: prop_flood_flag.simps split: if_splits)
     (simp add: same_queues_def)

lemma vector_elem:
  assumes r: "set_parent_elem q b p st = Some st'" and d: "is_dir (type_of st q)"
  shows "same_queues st st'" "pnext st' = pnext st" "is_dir (type_of st' q)"
    "hp_childs st' v = (if v = q then place b p (hp_childs st q) else hp_childs st v)"
    "v \<noteq> q \<Longrightarrow> type_of st' v = type_of st v"
proof -
  let ?w = "upd_prop p (\<lambda>x. x\<lparr>hp_parent := Some q\<rparr>) st"
  from r obtain st3 where 3: "inherit_multi p q ?w = Some st3"
    and v: "st' = set_childs q (place b p (hp_childs st3 q)) st3"
    by (auto simp: set_parent_elem_def bind_eq_Some_conv place_def)
  note t = inherit_tree[OF 3] and qs = same_queues_inherit[OF 3]
  have w: "type_of ?w x = type_of st x" for x by (simp add: type_of_def)
  have t3: "type_of st3 x = type_of st x" "pnext st3 = pnext st" for x
    using t w by (simp_all add: same_tree_def del: type_of_upd_prop)
  show "same_queues st st'" using qs unfolding v by (simp add: same_queues_def set_childs_eq)
  show "pnext st' = pnext st" "is_dir (type_of st' q)" using t3 by (simp_all add: v)
  show "hp_childs st' v = (if v = q then place b p (hp_childs st q) else hp_childs st v)"
    "v \<noteq> q \<Longrightarrow> type_of st' v = type_of st v"
    using t3 by (simp_all add: v)
qed

lemma vector_elems:
  assumes "ofold (set_parent_elem q b) ps st = Some st'" and "is_dir (type_of st q)"
  shows "same_queues st st' \<and> pnext st' = pnext st \<and> is_dir (type_of st' q)
    \<and> hp_childs st' q = fold (place b) ps (hp_childs st q)
    \<and> (\<forall>v. v \<noteq> q \<longrightarrow> type_of st' v = type_of st v)"
  using assms
proof (induction ps arbitrary: st)
  case Nil then show ?case by (simp add: same_queues_def)
next
  case (Cons p ps)
  from Cons.prems(1) obtain u where u: "set_parent_elem q b p st = Some u"
    and f: "ofold (set_parent_elem q b) ps u = Some st'" by (auto split: option.splits)
  note E = vector_elem[OF u Cons.prems(2)]
  from Cons.IH[OF f E(3)] E same_queues_trans[OF E(1)] show ?case by auto
qed

lemma mirror_vector:
  assumes m: "mirror s c st" "is_dir (type_of st q)" "sk \<noteq> Some s"
    and ev: "ev = (if b \<noteq> None then EV_ADD_CHILD_VECTOR_BEFORE else EV_ADD_CHILD_VECTOR)"
    and r: "ofold (set_parent_elem q b) (snd pv) st = Some st'"
  shows "mirror s c (prop_notify_childv pv q ev sk b st')"
proof -
  note V = vector_elems[OF r m(2)]
  have sq: "same_queues st st'" "pnext st' = pnext st" using V by auto
  have st: "stream s c st' = stream s c st" "stray s c st' = stray s c st"
    using sq by (simp_all add: same_queues_def stream_def stray_def cong: if_cong)
  have pl: "sub_plain s c st'" "sub_linked s st'"
    using m(1) sq by (simp_all add: mirror_def sub_plain_def sub_linked_def same_queues_def)
  have te: "tells ev" using ev by simp
  note t = told_childv[OF pl m(3) te, where q = q and pv = pv and ?p2.0 = b]
  show ?thesis
  proof (rule mirrorI[OF m(1) t st pl])
    fix v assume v: "hps_value_prop (subs st' s) = Some v" "type_of st' v \<noteq> PROP_ZOMBIE"
    then have v0: "hps_value_prop (subs st s) = Some v" using sq by (simp add: same_queues_def)
    have "type_of st v \<noteq> PROP_ZOMBIE" using v(2) V m(2) by (cases "v = q") auto
    with m(1) v0 have f: "replay (stream s c st) = hp_childs st v" by (simp add: mirror_def faithful_def)
    have pn: "fold (place None) ps cs = cs @ ps" for ps cs
      by (induction ps arbitrary: cs) (simp_all add: place_def)
    show "foldl replay1 (replay (stream s c st)) (if hps_value_prop (subs st' s) = Some q
        then [(mk_notify s ev (NV_propv (fst pv) (snd pv)))\<lparr>hpn_prop_extra := b\<rparr>] else []) = hp_childs st' v"
      using v f V ev pn by (cases "v = q"; cases b) auto
  qed
qed

subsection \<open>Retargeting\<close>

text \<open>Another subscription is retargeted: ours is not concerned.\<close>

lemma mirror_told_nothing: "mirror s c st \<Longrightarrow> told_more s c [] st st' \<Longrightarrow> mirror s c st'"
  by (rule mirrorI[of s c st "[]" st]) (auto simp: mirror_def faithful_def)

lemma count_list_remove1:
  "count_list (remove1 x xs) y = (if x = y then count_list xs y - 1 else count_list xs y)"
  by (induction xs) auto

lemma type_unlink [simp]: "type_of (unlink_value_sub x v st) p = type_of st p"
  by (simp add: unlink_value_sub_def) (simp add: type_of_def)

lemma unlink_sel [simp]:
  "subs (unlink_value_sub x v st) = subs st" "pnext (unlink_value_sub x v st) = pnext st"
  "hp_value_subscriptions (props (unlink_value_sub x v st) p)
     = (if p = v then remove1 x (hp_value_subscriptions (props st p)) else hp_value_subscriptions (props st p))"
  "stream s c (unlink_value_sub x v st) = stream s c st" "stray s c (unlink_value_sub x v st) = stray s c st"
  by (simp_all add: unlink_value_sub_def stream_upd)

lemma mirror_unlink_other: "mirror s c st \<Longrightarrow> x \<noteq> s \<Longrightarrow> mirror s c (unlink_value_sub x v st)"
  by (rule mirror_change) (auto simp: count_list_remove1)

lemma mirror_void_other:
  assumes "mirror s c st" "x \<noteq> s" shows "mirror s c (prop_notify_void x st)"
  by (rule mirror_quiet[OF assms(1)])
     (use assms(2) in \<open>simp add: prop_notify_void_def Let_def obs_call_other obs_courier_enqueue\<close>)

lemma mirror_retarget_other:
  assumes m: "mirror s c st" "x \<noteq> s" "retarget_subscription p x sk False st = Some st'"
  shows "mirror s c st'"
proof (cases "hps_value_prop (subs st x) = Some p")
  case True with m show ?thesis by (simp add: retarget_subscription_def)
next
  case False
  with m(3) obtain e st1 where 1: "retarget_leave p x sk st = Some (e, st1)"
    and 2: "if Some x = sk \<or> e then st' = retarget_enter p x st1
            else retarget_tell p x False (retarget_enter p x st1) = Some st'"
    by (auto simp: retarget_subscription_def Let_def split: option.splits if_splits)
  have m1: "mirror s c st1"
    using 1 m(1) mirror_unlink_other[OF _ m(2)] mirror_void_other[OF _ m(2)]
    by (auto simp: retarget_leave_def Let_def split: option.splits if_splits)
  let ?a = "upd_prop p (\<lambda>y. y\<lparr>hp_value_subscriptions := x # hp_value_subscriptions y\<rparr>) st1"
  have "type_of ?a v = type_of st1 v" for v by (simp add: type_of_def)
  then have "mirror s c ?a"
    using m(2) by (intro mirror_change[OF m1]) (simp_all add: stream_upd del: type_of_upd_prop)
  then have m2: "mirror s c (retarget_enter p x st1)"
    using mirror_sub_other[OF _ m(2)] mirror_quiet[OF _ obs_monitor_active]
    by (simp add: retarget_enter_def Let_def)
  show ?thesis
  proof (cases "Some x = sk \<or> e")
    case True with 2 m2 show ?thesis by simp
  next
    case False
    let ?u = "upd_sub x (\<lambda>y. y\<lparr>hps_pending_unlink := False\<rparr>) (retarget_enter p x st1)"
    from False 2 obtain w where w: "prop_build_notify_value x False p False ?u = Some w"
      and e: "st' = fold (\<lambda>c st. prop_build_notify_child x (Some c) EV_ADD_CHILD False (gen_add_flags c p st) st)
                (hp_childs w p) w"
      by (auto simp: retarget_tell_def)
    have mw: "mirror s c w"
      by (rule mirror_told_nothing[OF mirror_sub_other[OF m2 m(2)] told_build_value_other[OF m(2) w]])
    have "obs s c st' = obs s c w" unfolding e
      by (rule obs_fold) (use m(2) in \<open>simp add: prop_build_notify_child_def Let_def obs_call_other obs_courier_enqueue\<close>)
    then show ?thesis by (rule mirror_quiet[OF mw])
  qed
qed

text \<open>Ours is retargeted; its place in the list of the old value property may be gone already.\<close>

definition loose :: "sid \<Rightarrow> cid \<Rightarrow> pst \<Rightarrow> bool" where
  "loose s c st \<longleftrightarrow> sub_plain s c st \<and> settled s c st \<and> faithful s c st
     \<and> (\<forall>r. count_list (hp_value_subscriptions (props st r)) s
            \<le> (if hps_value_prop (subs st s) = Some r then 1 else 0))"

definition adrift :: "sid \<Rightarrow> cid \<Rightarrow> pst \<Rightarrow> bool" where
  "adrift s c st \<longleftrightarrow> sub_plain s c st \<and> settled s c st
     \<and> (\<forall>r. count_list (hp_value_subscriptions (props st r)) s = 0)"

lemma told_void:
  assumes "sub_plain s c st"
  shows "told_more s c [mk_notify s EV_SET_VOID NV_none] st (prop_notify_void s st)"
proof -
  have f: "PROP_SUB_IGNORE_VOID \<notin> hps_flags (subs st s)" "PROP_SUB_INTERNAL \<notin> hps_flags (subs st s)"
    using assms by (auto simp: sub_plain_def)
  show ?thesis using f
    by (simp add: prop_notify_void_def Let_def) (rule told_enqueue_ref[OF assms], simp_all add: tells_def)
qed

lemma compare_true:
  "prop_value_compare v w = Some True \<Longrightarrow> w \<noteq> PROP_ZOMBIE \<Longrightarrow> v \<noteq> PROP_ZOMBIE \<and> \<not> is_dir v \<and> \<not> is_dir w"
  by (cases "(v, w)" rule: prop_value_compare.cases) auto

lemma adrift_leave:
  assumes "sub_plain s c u" "settled s c u" "hps_value_prop (subs u s) = Some v"
    "\<And>r. count_list (hp_value_subscriptions (props u r)) s \<le> (if hps_value_prop (subs u s) = Some r then 1 else 0)"
  shows "adrift s c (unlink_value_sub s v u)"
proof -
  have "count_list (hp_value_subscriptions (props (unlink_value_sub s v u) r)) s = 0" for r
    using assms(4)[of r] assms(3) by (simp add: count_list_remove1 split: if_splits)
  then show ?thesis using assms(1,2) by (simp add: adrift_def sub_plain_def settled_def)
qed

lemma leave_self:
  assumes l: "loose s c st" "sk \<noteq> Some s" "retarget_leave p s sk st = Some (e, st1)"
  shows "adrift s c st1" "type_of st1 q = type_of st q"
    "e \<Longrightarrow> type_of st1 p \<noteq> PROP_ZOMBIE \<Longrightarrow> replay (stream s c st1) = hp_childs st1 p"
proof -
  note L = l(1)[unfolded loose_def]
  have "adrift s c st1 \<and> type_of st1 q = type_of st q
    \<and> (e \<longrightarrow> type_of st1 p \<noteq> PROP_ZOMBIE \<longrightarrow> replay (stream s c st1) = hp_childs st1 p)"
  proof (cases "hps_value_prop (subs st s)")
    case None
    with l(3) have "st1 = st" "\<not> e" by (simp_all add: retarget_leave_def)
    with L None show ?thesis by (simp add: adrift_def)
  next
    case (Some v)
    define u where "u = (if is_dir (type_of st v) then prop_notify_void s st else st)"
    from l(2,3) Some have e: "st1 = unlink_value_sub s v u"
      "prop_value_compare (type_of st v) (type_of st p) = Some e"
      by (auto simp: retarget_leave_def u_def Let_def split: if_splits)
    have sh: "shape u = shape st" by (simp add: u_def)
    have pu: "sub_plain s c u" by (rule plain_shapeI[OF sh]) (use L in simp)
    have su: "settled s c u"
      using L told_moreD(3)[OF told_void, of s c st] by (simp add: u_def settled_def)
    have a: "adrift s c st1" unfolding e(1)
      by (rule adrift_leave[OF pu su]) (use L Some shape_eqD(4,14)[OF sh] in auto)
    have t: "type_of st1 x = type_of st x" for x using shape_eqD(1)[OF sh] by (simp add: e(1))
    have "replay (stream s c st1) = hp_childs st1 p" if "e" "type_of st1 p \<noteq> PROP_ZOMBIE"
    proof -
      have c: "type_of st v \<noteq> PROP_ZOMBIE" "\<not> is_dir (type_of st v)" "\<not> is_dir (type_of st p)"
        using compare_true e(2) that t by auto
      then have "u = st" by (simp add: u_def)
      with c L Some show ?thesis by (simp add: e(1) faithful_def childs_of_nondir)
    qed
    with a t show ?thesis by simp
  qed
  then show "adrift s c st1" "type_of st1 q = type_of st q"
    "e \<Longrightarrow> type_of st1 p \<noteq> PROP_ZOMBIE \<Longrightarrow> replay (stream s c st1) = hp_childs st1 p" by simp_all
qed

lemma enter_self:
  assumes "adrift s c st" "p < pnext st"
  shows "sub_plain s c (retarget_enter p s st)" "sub_linked s (retarget_enter p s st)"
    "settled s c (retarget_enter p s st)" "stream s c (retarget_enter p s st) = stream s c st"
    "type_of (retarget_enter p s st) q = type_of st q"
    "hps_value_prop (subs (retarget_enter p s st) s) = Some p"
proof -
  let ?a = "upd_sub s (\<lambda>x. x\<lparr>hps_value_prop := Some p\<rparr>)
          (upd_prop p (\<lambda>x. x\<lparr>hp_value_subscriptions := s # hp_value_subscriptions x\<rparr>) st)"
  have o: "obs s c (retarget_enter p s st) = obs s c ?a" by (simp add: retarget_enter_def Let_def)
  note sh = obs_shape[OF o]
  have t: "type_of ?a x = type_of st x" for x by (simp add: type_of_def)
  have a: "sub_plain s c ?a" "sub_linked s ?a" "settled s c ?a"
    using assms by (auto simp: adrift_def sub_plain_def sub_linked_def settled_def stream_upd)
  show "sub_plain s c (retarget_enter p s st)" by (rule plain_shapeI[OF sh a(1)])
  show "sub_linked s (retarget_enter p s st)" using linked_shape[OF sh] a(2) by simp
  show "settled s c (retarget_enter p s st)" using obs_stray[OF o] a(3) by (simp add: settled_def)
  show "stream s c (retarget_enter p s st) = stream s c st"
    using obs_stream[OF o] by (simp add: stream_upd)
  show "type_of (retarget_enter p s st) q = type_of st q" using shape_eqD(1)[OF sh] t by simp
  show "hps_value_prop (subs (retarget_enter p s st) s) = Some p" using shape_eqD(14)[OF sh, of s] by simp
qed

lemma told_childs:
  assumes "sub_plain s c st"
  shows "\<exists>ns. told_more s c ns st
      (fold (\<lambda>c st. prop_build_notify_child s (Some c) EV_ADD_CHILD False (gen_add_flags c p st) st) cs st)
    \<and> (\<forall>xs. foldl replay1 xs ns = xs @ cs)"
  using assms
proof (induction cs arbitrary: st)
  case Nil then show ?case using told_refl by fastforce
next
  case (Cons x cs)
  let ?n = "(mk_notify s EV_ADD_CHILD (NV_prop (Some x)))\<lparr>hpn_selected := gen_add_flags x p st\<rparr>"
  let ?u = "prop_build_notify_child s (Some x) EV_ADD_CHILD False (gen_add_flags x p st) st"
  have i: "\<not> is_internal st s" using Cons.prems by (auto simp: sub_plain_def is_internal_def)
  have t: "told_more s c [?n] st ?u"
    using i by (simp add: prop_build_notify_child_def Let_def)
      (rule told_enqueue_ref[OF Cons.prems], simp_all)
  have "sub_plain s c ?u" by (rule plain_shapeI[OF told_moreD(1)[OF t] Cons.prems])
  from Cons.IH[OF this] obtain ns where ns: "told_more s c ns ?u
      (fold (\<lambda>c st. prop_build_notify_child s (Some c) EV_ADD_CHILD False (gen_add_flags c p st) st) cs ?u)"
    "\<forall>xs. foldl replay1 xs ns = xs @ cs" by blast
  have "replay1 xs ?n = xs @ [x]" for xs
    by (simp add: replay1_def value_events_def opt_list_def nv_prop_def)
  with told_trans[OF t ns(1)] ns(2) show ?case by (intro exI[of _ "[?n] @ ns"]) simp
qed

lemma tell_self:
  assumes "sub_plain s c st" "sub_linked s st" "settled s c st" "hps_value_prop (subs st s) = Some p"
    "retarget_tell p s False st = Some st'"
  shows "mirror s c st'"
proof -
  let ?u = "upd_sub s (\<lambda>x. x\<lparr>hps_pending_unlink := False\<rparr>) st"
  have u: "sub_plain s c ?u" "sub_linked s ?u" "settled s c ?u" "hps_value_prop (subs ?u s) = Some p"
    using assms(1-4) by (auto simp: sub_plain_def sub_linked_def settled_def stream_upd)
  from assms(5) obtain w where w: "prop_build_notify_value s False p False ?u = Some w"
    and e: "st' = fold (\<lambda>c st. prop_build_notify_child s (Some c) EV_ADD_CHILD False (gen_add_flags c p st) st)
              (hp_childs w p) w"
    by (auto simp: retarget_tell_def)
  have "PROP_SUB_IGNORE_VOID \<notin> hps_flags (subs ?u s)" "PROP_SUB_INTERNAL \<notin> hps_flags (subs ?u s)"
    using u(1) by (auto simp: sub_plain_def)
  with w obtain ev nv where v: "value_event (type_of ?u p) = Some (ev, nv)"
    by (auto simp: prop_build_notify_value_def Let_def split: if_splits option.splits)
  note t1 = told_build_value[OF u(1) w v]
  from told_childs[OF plain_shapeI[OF told_moreD(1)[OF t1] u(1)]] obtain ns where
    t2: "told_more s c ns w st'" and ns: "\<forall>xs. foldl replay1 xs ns = xs @ hp_childs w p"
    unfolding e by blast
  note t = told_trans[OF t1 t2] and sh = told_moreD(1)[OF told_trans[OF t1 t2]]
  have "replay (stream s c st') = hp_childs st' p"
    using ns replay1_value[OF v] shape_eqD(1)[OF sh, of p] shape_eqD(1)[OF told_moreD(1)[OF t1], of p]
    by (simp add: told_moreD(2)[OF t] replay_append)
  then show ?thesis
    using plain_shapeI[OF sh u(1)] linked_shape[OF sh] u(2,3,4) told_moreD(3)[OF t] shape_eqD(14)[OF sh, of s]
    by (simp add: mirror_def settled_def faithful_def)
qed

lemma retarget_self:
  assumes l: "loose s c st" "p < pnext st" "sk \<noteq> Some s" "hps_value_prop (subs st s) \<noteq> Some p"
    "retarget_subscription p s sk False st = Some st'"
  shows "mirror s c st'"
proof -
  from l(3,4,5) obtain e st1 where 1: "retarget_leave p s sk st = Some (e, st1)"
    and 2: "if e then st' = retarget_enter p s st1
            else retarget_tell p s False (retarget_enter p s st1) = Some st'"
    by (auto simp: retarget_subscription_def Let_def split: option.splits if_splits)
  note L = leave_self[OF l(1,3) 1]
  have "p < pnext st1" using l(2) retarget_leave_same_tree[OF 1] by (simp add: same_tree_def)
  note E = enter_self[OF L(1) this]
  show ?thesis
  proof (cases e)
    case True
    with 2 E L(3) show ?thesis by (simp add: mirror_def faithful_def)
  next
    case False
    with 2 show ?thesis using tell_self[OF E(1-3,6)] by simp
  qed
qed

lemma mirror_retarget:
  assumes m: "mirror s c st" "p < pnext st" "sk \<noteq> Some s" "retarget_subscription p x sk False st = Some st'"
  shows "mirror s c st'"
proof (cases "x = s")
  case False then show ?thesis by (rule mirror_retarget_other[OF m(1) _ m(4)])
next
  case True
  show ?thesis
  proof (cases "hps_value_prop (subs st s) = Some p")
    case same: True with m(1,4) True show ?thesis by (simp add: retarget_subscription_def)
  next
    case False
    have "loose s c st" using m(1) by (simp add: mirror_def loose_def sub_linked_def)
    from retarget_self[OF this m(2,3) False] m(4) True show ?thesis by simp
  qed
qed

lemma mirror_retarget_moved:
  assumes m: "mirror s c st" "p < pnext st" "sk \<noteq> Some s" "p \<noteq> q"
    "retarget_subscription p x sk False (unlink_value_sub x q st) = Some st'"
  shows "mirror s c st'"
proof (cases "x = s \<and> s \<in> set (hp_value_subscriptions (props st q))")
  case True
  then have v: "hps_value_prop (subs st s) = Some q"
    using m(1) by (metis count_list_0_iff mirror_def sub_linked_def)
  have "loose s c (unlink_value_sub s q st)"
    using m(1) v by (auto simp: mirror_def loose_def sub_linked_def sub_plain_def settled_def faithful_def
        count_list_remove1)
  from retarget_self[OF this] m(2-5) True v show ?thesis by simp
next
  case False
  show ?thesis
  proof (cases "x = s")
    case True
    with False have "unlink_value_sub x q st = st"
      by (simp add: unlink_value_sub_def upd_prop_def remove1_idem)
    with m True show ?thesis using mirror_retarget by simp
  next
    case ne: False
    then show ?thesis by (intro mirror_retarget_other[OF mirror_unlink_other[OF m(1)] _ m(5)])
  qed
qed

subsection \<open>Leaving a zombie\<close>

lemma mirror_drop_other:
  assumes "mirror s c st" "x \<noteq> s" shows "mirror s c (drop_value_sub p x st)"
  using mirror_sub_other[OF mirror_unlink_other[OF _ assms(2)] assms(2)] assms(1)
    mirror_void_other[OF assms] by (simp add: drop_value_sub_def Let_def)

lemma mirror_drop_self:
  assumes m: "mirror s c st" "hps_value_prop (subs st s) = Some p"
  shows "mirror s c (drop_value_sub p s st)"
proof -
  define u where "u = (if tracks_destroy (hps_flags (subs st s)) then st else prop_notify_void s st)"
  have sh: "shape u = shape st" by (simp add: u_def)
  have M: "sub_plain s c st" "sub_linked s st" "settled s c st" using m(1) by (simp_all add: mirror_def)
  have pu: "sub_plain s c u" by (rule plain_shapeI[OF sh M(1)])
  have su: "settled s c u" using M(3) told_moreD(3)[OF told_void[OF M(1)]] by (simp add: u_def settled_def)
  have "adrift s c (unlink_value_sub s p u)"
    by (rule adrift_leave[OF pu su]) (use M(2) m(2) shape_eqD(4,14)[OF sh] in \<open>auto simp: sub_linked_def\<close>)
  moreover have "drop_value_sub p s st = upd_sub s (\<lambda>x. x\<lparr>hps_value_prop := None\<rparr>) (unlink_value_sub s p u)"
    by (simp add: drop_value_sub_def u_def)
  ultimately show ?thesis
    by (simp add: mirror_def adrift_def sub_plain_def sub_linked_def settled_def faithful_def stream_upd)
qed

lemma mirror_drop_others:
  "mirror s c st \<Longrightarrow> s \<notin> set xs \<Longrightarrow> mirror s c (fold (drop_value_sub p) xs st)"
  by (induction xs arbitrary: st) (auto intro!: mirror_drop_other[OF _ not_sym])

lemma drop_value_vp: "x \<noteq> s \<Longrightarrow> hps_value_prop (subs (drop_value_sub p x st) s) = hps_value_prop (subs st s)"
  using shape_eqD(14)[OF shape_notify_void, of x st s] by (simp add: drop_value_sub_def Let_def)

lemma mirror_drop_all:
  assumes m: "mirror s c st" shows "mirror s c (fold (drop_value_sub p) (hp_value_subscriptions (props st p)) st)"
proof (cases "s \<in> set (hp_value_subscriptions (props st p))")
  case False then show ?thesis by (rule mirror_drop_others[OF m])
next
  case True
  let ?l = "hp_value_subscriptions (props st p)"
  have v: "hps_value_prop (subs st s) = Some p" and n: "count_list ?l s = 1"
    using m True by (metis count_list_0_iff mirror_def sub_linked_def)+
  obtain ys zs where l: "?l = ys @ s # zs" using True by (meson split_list)
  with n have y: "s \<notin> set ys" and z: "s \<notin> set zs" by (auto simp: count_list_0_iff)
  have vp: "s \<notin> set xs \<Longrightarrow> hps_value_prop (subs (fold (drop_value_sub p) xs u) s) = hps_value_prop (subs u s)" for xs u
    by (induction xs arbitrary: u) (auto simp: drop_value_vp)
  let ?u = "fold (drop_value_sub p) ys st"
  have "mirror s c (drop_value_sub p s ?u)"
    by (rule mirror_drop_self[OF mirror_drop_others[OF m y]]) (simp add: vp[OF y] v)
  from mirror_drop_others[OF this z] show ?thesis by (simp add: l)
qed

section \<open>The contract holds\<close>

text \<open>Two invariants: the tree alone, and what a subscription knows.\<close>

interpretation tree: prop_inv "\<lambda>_. True" "\<lambda>_. True"
  by unfold_locales simp_all

interpretation mirror: prop_inv "mirror s c" "\<lambda>sk. sk \<noteq> Some s" for s c
proof (unfold_locales, goal_cases)
  case 1 show ?case by simp
next
  case 2 then show ?case by (blast intro: mirror_quiet)
next
  case 3 then show ?case by (rule mirror_field)
next
  case 4 then show ?case by (rule mirror_subfield)
next
  case 5 then show ?case by (rule mirror_make[OF okD(1)])
next
  case 6 then show ?case by (rule mirror_retype)
next
  case (7 st p v)
  show ?case by (rule mirror_type[OF 7(1)]) (use 7 in \<open>simp add: childs_of_nondir\<close>)
next
  case 8 then show ?case by (rule mirror_insert)
next
  case 9 then show ?case by (rule mirror_move)
next
  case 10 then show ?case by (rule mirror_detach)
next
  case 11 then show ?case by (rule mirror_early)
next
  case 12 then show ?case by (rule mirror_detach_late)
next
  case 13 then show ?case by (rule mirror_select)
next
  case 14 then show ?case by (intro mirror_vector[OF okD(1)])
next
  case 15 then show ?case by (intro mirror_retarget[OF okD(1)])
next
  case 16 then show ?case by (intro mirror_retarget_moved[OF okD(1)])
next
  case 17 then show ?case by (rule mirror_zombify)
next
  case 18 then show ?case by (intro mirror_drop_all)
qed

end
