(* ===== verification/Prop_Theorems.thy ===== *)
theory Prop_Theorems
  imports Prop_Mirror
begin

text \<open>
  What the property system promises its users, from the contract of \<open>Prop_Kept\<close> and the
  invariant of \<open>Prop_Mirror\<close>: subscribing starts a faithful mirror, every run of operations
  keeps it, and polling the courier delivers it.
\<close>

section \<open>Subscribing\<close>

text \<open>Nothing is yet known of the next subscription.\<close>

definition fresh_sub :: "pst \<Rightarrow> bool" where
  "fresh_sub st \<longleftrightarrow>
     (\<forall>p. snext st \<notin> set (hp_value_subscriptions (props st p)))
     \<and> (\<forall>c. stream (snext st) c st = [] \<and> stray (snext st) c st = (\<lambda>_. [], \<lambda>_. []))"

lemma obs_fold_ref_inc: "obs s c (fold (\<lambda>p. prop_ref_inc (Some p)) ps st) = obs s c st"
  by (rule obs_fold) simp

lemma made_sub:
  assumes f: "fresh_sub st" and fl: "flags \<inter> {PROP_SUB_INTERNAL, PROP_SUB_EXPEDITE, PROP_SUB_MULTI,
      PROP_SUB_IGNORE_VOID, PROP_SUB_EARLY_DEL_CHILD} = {}"
    and a: "sa_mode a = SUB_MODE_COURIER" "sa_pc a = Some c"
    and r: "make_sub flags a canonical val chain px st = Some (s, st')"
  shows "s = snext st" "adrift s c st'" "stream s c st' = []" "same_tree st st'"
    "hps_value_prop (subs st' s) = val" "hps_flags (subs st' s) = flags"
proof -
  let ?st1 = "upd_courier c (\<lambda>x. x\<lparr>pc_refcount := pc_refcount x + 1\<rparr>) st"
  define st2 where "st2 = upd_sub (snext st) (\<lambda>_. \<lparr>hps_flags = flags, hps_dispatch = MODE_COURIER c,
      hps_lock = pc_entry_lock (couriers st c), hps_callback = sa_cb a, hps_opaque = sa_opaque a,
      hps_value_prop = val, hps_canonical_prop = canonical, hps_origins = chain, hps_refcount = 1,
      hps_zombie = False, hps_proxy = px, hps_pending_unlink = False\<rparr>) (?st1\<lparr>snext := Suc (snext st)\<rparr>)"
  have e: "s = snext st" "st' = fold (\<lambda>p. prop_ref_inc (Some p)) chain st2"
    using r a by (auto simp: make_sub_def st2_def Let_def)
  have o: "obs s c st' = obs s c st2" unfolding e(2) by (rule obs_fold_ref_inc)
  note sh = obs_shape[OF o]
  have q: "stream s c st2 = stream s c st" "stray s c st2 = stray s c st"
    by (auto simp: st2_def stream_def stray_def upd_defs fun_eq_iff)
  have sub: "subs st2 s = \<lparr>hps_flags = flags, hps_dispatch = MODE_COURIER c,
      hps_lock = pc_entry_lock (couriers st c), hps_callback = sa_cb a, hps_opaque = sa_opaque a,
      hps_value_prop = val, hps_canonical_prop = canonical, hps_origins = chain, hps_refcount = 1,
      hps_zombie = False, hps_proxy = px, hps_pending_unlink = False\<rparr>"
    by (simp add: st2_def e(1))
  have vs: "props st2 = props st" by (simp add: st2_def upd_defs)
  show "s = snext st" by (rule e)
  have "sub_plain s c st2" using fl sub by (simp add: sub_plain_def)
  then show "adrift s c st'"
    using plain_shapeI[OF sh, of s c] obs_stray[OF o] q(2) f vs shape_eqD(4)[OF sh] e(1)
    by (simp add: adrift_def settled_def fresh_sub_def count_list_0_iff)
  show "stream s c st' = []" using obs_stream[OF o] q(1) f e(1) by (simp add: fresh_sub_def)
  have "same_tree st st2" by (simp add: same_tree_def type_of_def st2_def upd_defs)
  then show "same_tree st st'" using same_tree_trans shape_same_tree[OF sh] by blast
  show "hps_value_prop (subs st' s) = val" "hps_flags (subs st' s) = flags"
    using shape_eqD(13,14)[OF sh, of s] sub by simp_all
qed

text \<open>The children a new subscription is told of.\<close>

lemma vec_appends:
  "prop_vec_appends pv ps st = Some (pv', st') \<Longrightarrow> snd pv' = snd pv @ ps \<and> (\<forall>s c. obs s c st' = obs s c st)"
  by (induction pv ps st rule: prop_vec_appends.induct)
     (auto simp: prop_vec_append_def split: option.splits if_splits)

lemma vec_create_obs: "obs s c (snd (prop_vec_create st)) = obs s c st"
  by (simp add: prop_vec_create_def)

lemma initial_childs_told:
  assumes p: "sub_plain s c st" and d: "\<not> is_direct (hps_flags (subs st s))"
    and r: "initial_childs s v st = Some st'"
  shows "\<exists>ns. told_more s c ns st st' \<and> (\<forall>xs. foldl replay1 xs ns = xs @ hp_childs st v)"
proof (cases "hp_selected st v = None")
  case True
  obtain pv0 st0 where 0: "prop_vec_create st = (pv0, st0)" by (cases "prop_vec_create st") auto
  from r True 0 d obtain pv st1 where 1: "prop_vec_appends pv0 (hp_childs st v) st0 = Some (pv, st1)"
    and 2: "prop_vec_release pv (prop_build_notify_childv s pv EV_ADD_CHILD_VECTOR None False st1) = Some st'"
    by (auto simp: initial_childs_def Let_def bind_eq_Some_conv)
  have o1: "obs s c st1 = obs s c st"
    using vec_appends[OF 1] vec_create_obs[of s c st] 0 by simp
  have ps: "snd pv = hp_childs st v"
    using vec_appends[OF 1] 0 by (auto simp: prop_vec_create_def)
  have p1: "sub_plain s c st1" by (rule plain_shapeI[OF obs_shape[OF o1] p])
  then have i: "\<not> is_internal st1 s" by (auto simp: sub_plain_def is_internal_def)
  let ?n = "(mk_notify s EV_ADD_CHILD_VECTOR (NV_propv (fst pv) (snd pv)))\<lparr>hpn_prop_extra := None\<rparr>"
  have "told_more s c [?n] st1 (prop_build_notify_childv s pv EV_ADD_CHILD_VECTOR None False st1)"
    using i by (simp add: prop_build_notify_childv_def Let_def) (rule told_enqueue_ref[OF p1], simp_all)
  from told_trans[OF told_obs[OF o1] told_trans[OF this told_obs[OF obs_vec_release[OF 2]]]]
  have "told_more s c [?n] st st'" by simp
  then show ?thesis by (intro exI[of _ "[?n]"]) (simp add: ps)
next
  case False
  with r d have "st' = fold (\<lambda>c st. prop_build_notify_child s (Some c) EV_ADD_CHILD False
                                   (gen_add_flags c v st) st) (hp_childs st v) st"
    by (auto simp: initial_childs_def Let_def)
  with told_childs[OF p, of v "hp_childs st v"] show ?thesis by simp
qed

lemma have_more_obs: "obs s c (initial_have_more x v st) = obs s c st"
  by (simp add: initial_have_more_def Let_def obs_call_other obs_courier_enqueue tells_def)

lemma sub_value_mirror:
  assumes a: "adrift s c st" "hps_value_prop (subs st s) = Some v" "v < pnext st"
    and fl: "\<not> is_direct (hps_flags (subs st s))" "PROP_SUB_NO_INITIAL_UPDATE \<notin> hps_flags (subs st s)"
      "PROP_SUB_MULTI \<notin> hps_flags (subs st s)"
    and r: "sub_value s v st = Some st'"
  shows "mirror s c st'" "same_tree st st'"
proof -
  let ?a = "upd_prop v (\<lambda>x. x\<lparr>hp_value_subscriptions := s # hp_value_subscriptions x\<rparr>) st"
  have ta: "type_of ?a x = type_of st x" for x by (simp add: type_of_def)
  have A: "sub_plain s c ?a" "sub_linked s ?a" "settled s c ?a"
    using a by (auto simp: adrift_def sub_plain_def sub_linked_def settled_def stream_upd)
  from r fl(1,2,3) obtain w x where w: "prop_build_notify_value s False v False ?a = Some w"
    and x: "(if is_dir (type_of w v) then map_option (initial_have_more s v) (initial_childs s v w)
             else Some w) = Some x"
    and e: "obs s c st' = obs s c x"
    by (auto simp: sub_value_def Let_def bind_eq_Some_conv simp del: upd_prop_sel)
  have "PROP_SUB_IGNORE_VOID \<notin> hps_flags (subs ?a s)" "PROP_SUB_INTERNAL \<notin> hps_flags (subs ?a s)"
    using A(1) by (auto simp: sub_plain_def)
  with w obtain ev nv where ve: "value_event (type_of ?a v) = Some (ev, nv)"
    by (auto simp: prop_build_notify_value_def Let_def split: if_splits option.splits)
  note t1 = told_build_value[OF A(1) w ve]
  note sw = told_moreD(1)[OF t1]
  have pw: "sub_plain s c w" by (rule plain_shapeI[OF sw A(1)])
  have fw: "\<not> is_direct (hps_flags (subs w s))" using fl(1) shape_eqD(13)[OF sw, of s] by simp
  have tw: "type_of w v = type_of st v" using shape_eqD(1)[OF sw, of v] ta[of v] by (simp only:)
  have "\<exists>ns. told_more s c ns w x \<and> (\<forall>xs. foldl replay1 xs ns = xs @ hp_childs st v)"
  proof (cases "is_dir (type_of w v)")
    case True
    with x obtain y where y: "initial_childs s v w = Some y" "x = initial_have_more s v y" by auto
    from initial_childs_told[OF pw fw y(1)] obtain ns where
      "told_more s c ns w y" "\<forall>xs. foldl replay1 xs ns = xs @ hp_childs st v" using tw by auto
    with told_trans[OF _ told_obs[OF have_more_obs]] y(2) show ?thesis by fastforce
  next
    case False
    with x tw told_refl show ?thesis by (intro exI[of _ "[]"]) (simp add: childs_of_nondir)
  qed
  then obtain ns where t2: "told_more s c ns w x" and ns: "\<forall>xs. foldl replay1 xs ns = xs @ hp_childs st v"
    by blast
  have "told_more s c ([mk_notify s ev nv] @ ns) ?a st'"
    using told_trans[OF told_trans[OF t1 t2] told_obs[OF e]] by simp
  note t = this and sh = told_moreD(1)[OF this]
  have tv: "type_of st' v = type_of st v" by (simp only: shape_eqD(1)[OF sh] ta)
  have "replay (stream s c st') = hp_childs st' v"
    using ns replay1_value[OF ve] tv by (simp add: told_moreD(2)[OF t] replay_append)
  then show "mirror s c st'"
    using plain_shapeI[OF sh A(1)] linked_shape[OF sh] A told_moreD(3)[OF t] shape_eqD(14)[OF sh, of s] a(2)
    by (simp add: mirror_def settled_def faithful_def)
  have "same_tree st ?a" by (rule upd_prop_same_tree) simp_all
  then show "same_tree st st'" using same_tree_trans shape_same_tree[OF sh] by blast
qed

lemma sub_canonical_keeps:
  assumes m: "PROP_SUB_MULTI \<notin> hps_flags (subs st s)" and r: "sub_canonical s c0 st = Some (act, st')"
    and a: "adrift s c st"
  shows "adrift s c st'" "stream s c st' = stream s c st" "same_tree st st'" "subs st' = subs st"
proof -
  have "\<exists>f. st' = upd_prop c0 f st \<and> (\<forall>x. hp_type (f x) = hp_type x \<and> hp_parent (f x) = hp_parent x
      \<and> hp_originator (f x) = hp_originator x \<and> hp_targets (f x) = hp_targets x
      \<and> hp_value_subscriptions (f x) = hp_value_subscriptions x)"
  proof -
    let ?f = "\<lambda>x. x\<lparr>hp_canonical_subscriptions := s # hp_canonical_subscriptions x\<rparr>"
    let ?g = "\<lambda>x. x\<lparr>hp_flags := Set.insert PROP_MONITORED (hp_flags x)\<rparr>"
    have "st' = upd_prop c0 ?f st \<or> st' = upd_prop c0 ?g (upd_prop c0 ?f st)"
      using m r by (auto simp: sub_canonical_def Let_def split: if_splits)
    moreover have "upd_prop c0 ?g (upd_prop c0 ?f st) = upd_prop c0 (?g \<circ> ?f) st"
      by (simp add: upd_prop_def)
    ultimately have "st' = upd_prop c0 ?f st \<or> st' = upd_prop c0 (?g \<circ> ?f) st" by metis
    then show ?thesis
    proof
      assume "st' = upd_prop c0 ?f st" then show ?thesis by (intro exI[of _ ?f]) simp
    next
      assume "st' = upd_prop c0 (?g \<circ> ?f) st" then show ?thesis by (intro exI[of _ "?g \<circ> ?f"]) simp
    qed
  qed
  then obtain f where e: "st' = upd_prop c0 f st" and f: "\<And>x. hp_type (f x) = hp_type x"
    "\<And>x. hp_parent (f x) = hp_parent x" "\<And>x. hp_originator (f x) = hp_originator x"
    "\<And>x. hp_targets (f x) = hp_targets x" "\<And>x. hp_value_subscriptions (f x) = hp_value_subscriptions x"
    by blast
  show "same_tree st st'" unfolding e by (rule upd_prop_same_tree) (rule f)+
  show "stream s c st' = stream s c st" "subs st' = subs st" by (simp_all add: e stream_upd)
  show "adrift s c st'" using a
    by (auto simp: e adrift_def sub_plain_def settled_def stream_upd f(5))
qed

lemma follow_chain_less:
  "tree_ok st \<Longrightarrow> p < pnext st \<Longrightarrow> follow_chain k st p = Some (q, ch) \<Longrightarrow> q < pnext st"
proof (induction k arbitrary: p ch)
  case 0 then show ?case by simp
next
  case (Suc k)
  then show ?case using tree_okD(4)[OF Suc.prems(1)] by (fastforce split: option.splits)
qed

text \<open>
  Subscribing to a given property through a courier, without special flags: the stream that
  starts with the subscription is faithful.
\<close>

definition ordinary :: "sflag set \<Rightarrow> bool" where
  "ordinary flags \<longleftrightarrow> flags \<inter> {PROP_SUB_INTERNAL, PROP_SUB_DIRECT_UPDATE, PROP_SUB_EXPEDITE, PROP_SUB_MULTI,
     PROP_SUB_IGNORE_VOID, PROP_SUB_EARLY_DEL_CHILD, PROP_SUB_NO_INITIAL_UPDATE} = {}"

lemma subscribe_mirror:
  assumes t: "tree_ok st" and f: "fresh_sub st" and o: "ordinary flags"
    and tags: "parse_tags tags = Some a" "sa_name a = None" "sa_mode a = SUB_MODE_COURIER" "sa_pc a = Some c"
    and root: "\<And>p n. sa_roots a = (p, n) # tl (sa_roots a) \<Longrightarrow> p < pnext st \<and> type_of st p \<noteq> PROP_PROXY"
    and r: "prop_subscribe flags tags st = Some (Some s, st')"
  shows "mirror s c st' \<and> tree_ok st'"
proof -
  have fl: "flags \<inter> {PROP_SUB_INTERNAL, PROP_SUB_EXPEDITE, PROP_SUB_MULTI,
      PROP_SUB_IGNORE_VOID, PROP_SUB_EARLY_DEL_CHILD} = {}" "\<not> is_direct flags"
    "PROP_SUB_NO_INITIAL_UPDATE \<notin> flags" "PROP_SUB_MULTI \<notin> flags"
    using o by (auto simp: ordinary_def is_direct_def)
  obtain can val0 ch where tg: "sub_target flags a st = Some (can, val0, ch, False, st)"
    and v0: "\<And>v. val0 = Some v \<Longrightarrow> v < pnext st"
  proof (cases "sa_roots a")
    case Nil then show ?thesis using that[of None None "[]"] tags(2) by (simp add: sub_target_def)
  next
    case (Cons x xs)
    obtain p n where x: "x = (p, n)" by force
    have p: "p < pnext st" "type_of st p \<noteq> PROP_PROXY" using root[of p n] Cons x by auto
    from r tags Cons x p(2) obtain v ch where fc: "follow_chain (Suc (pnext st)) st p = Some (v, ch)"
      by (auto simp: prop_subscribe_def sub_target_def bind_eq_Some_conv simp del: follow_chain.simps)
    show ?thesis
      by (rule that[of "Some p" "Some v" ch])
         (use tags(2) Cons x p fc follow_chain_less[OF t p(1) fc] in \<open>auto simp: sub_target_def simp del: follow_chain.simps\<close>)
  qed
  define val where "val = live_prop st val0"
  have vl: "v < pnext st" if "val = Some v" for v
    using v0 that by (auto simp: val_def live_prop_def split: option.splits if_splits)
  from r tags(1) tg obtain st2 act st3 st4 where
    2: "make_sub flags a (live_prop st can) val ch False st = Some (s, st2)"
    and 3: "(case live_prop st can of None \<Rightarrow> Some (False, st2) | Some c \<Rightarrow> sub_canonical s c st2) = Some (act, st3)"
    and 4: "(case val of None \<Rightarrow> Some st3 | Some v \<Rightarrow> sub_value s v st3) = Some st4"
    and 5: "obs s c st' = obs s c st4"
    by (auto simp: prop_subscribe_def bind_eq_Some_conv Let_def val_def split: if_splits option.splits)
  note M = made_sub[OF f fl(1) tags(3,4) 2]
  have 3: "adrift s c st3" "stream s c st3 = []" "same_tree st2 st3" "subs st3 = subs st2"
    using 3 M sub_canonical_keeps[of st2 s _ act st3 c] fl(4) by (auto split: option.splits)
  have t3: "same_tree st st3" by (rule same_tree_trans[OF M(4) 3(3)])
  have "mirror s c st4 \<and> same_tree st3 st4"
  proof (cases val)
    case None
    with 4 3 M(5) show ?thesis
      by (simp add: mirror_def adrift_def sub_linked_def faithful_def)
  next
    case (Some v)
    with 4 have sv: "sub_value s v st3 = Some st4" by simp
    have "v < pnext st3" using vl[OF Some] t3 by (simp add: same_tree_def)
    from sub_value_mirror[OF 3(1) _ this _ _ _ sv] show ?thesis
      using 3(4) M(5,6) Some fl by simp
  qed
  then have m: "mirror s c st4" "same_tree st3 st4" by simp_all
  have "tree_ok st4" using same_tree_ok[OF same_tree_trans[OF t3 m(2)]] t by simp
  then show ?thesis
    using mirror_quiet[OF m(1) 5] same_tree_ok[OF shape_same_tree[OF obs_shape[OF 5]]] by simp
qed

section \<open>Polling\<close>

lemma ref_dec_hush:
  "prop_ref_dec_locked po st = Some st' \<Longrightarrow> couriers st' = couriers st \<and> (\<forall>s c. obs s c st' = obs s c st)"
proof -
  assume r: "prop_ref_dec_locked po st = Some st'"
  then have "couriers st' = couriers st"
    by (cases po) (auto simp: prop_ref_dec_locked_def Let_def split: if_splits)
  with obs_ref_dec[OF r] show ?thesis by blast
qed

lemma release_hush:
  "release_propv v st = Some st' \<Longrightarrow> couriers st' = couriers st \<and> (\<forall>s c. obs s c st' = obs s c st)"
proof -
  have "ofold (\<lambda>p. prop_ref_dec_locked (Some p)) ps u = Some w \<Longrightarrow> couriers w = couriers u" for ps u w
    by (rule ofold_invariant[where P = "\<lambda>x. couriers x = couriers u"]) (auto dest: ref_dec_hush)
  then have "prop_vec_release pv st = Some st' \<Longrightarrow> couriers st' = couriers st" for pv
    by (fastforce simp: prop_vec_release_def Let_def split: if_splits)
  then show "release_propv v st = Some st' \<Longrightarrow> couriers st' = couriers st \<and> (\<forall>s c. obs s c st' = obs s c st)"
    using obs_vec_release by (auto simp: release_propv_def split: notify_val.splits)
qed

lemma free_payload_hush:
  "prop_notify_free_payload n st = Some st' \<Longrightarrow> couriers st' = couriers st \<and> (\<forall>s c. obs s c st' = obs s c st)"
  by (auto simp: prop_notify_free_payload_def bind_eq_Some_conv split: prop_event.splits
      dest!: ref_dec_hush release_hush)

lemma invoke_hush:
  assumes "notify_invoke n st = Some st'"
  shows "couriers st' = couriers st \<and> (\<forall>s c. obs s c st' = obs s c (st\<lparr>calls := calls st @ [n]\<rparr>))"
  using assms
  by (auto simp: notify_invoke_def Let_def bind_eq_Some_conv split: prop_event.splits
      dest!: ref_dec_hush release_hush)

text \<open>
  Dispatching a queue to a living subscription appends the queue to what it has been called
  with; nothing else that it can see happens.
\<close>

lemma dispatch_told:
  assumes "ofold dispatch_locked q st = Some st'" "\<not> hps_zombie (subs st s)"
    "told s (pc_dispatch_queue (couriers st c)) = []" "told s (pc_queue_nor (couriers st c)) = []"
  shows "couriers st' = couriers st \<and> shape st' = shape st \<and> stray s c st' = stray s c st
    \<and> stream s c st' = stream s c st @ told s q"
  using assms
proof (induction q arbitrary: st)
  case Nil then show ?case by simp
next
  case (Cons n q)
  from Cons.prems(1) obtain u where u: "dispatch_locked n st = Some u" and r: "ofold dispatch_locked q u = Some st'"
    by (auto split: option.splits)
  have one: "couriers u = couriers st \<and> shape u = shape st \<and> stray s c u = stray s c st
      \<and> stream s c u = stream s c st @ told s [n]"
  proof (cases "hps_zombie (subs st (hpn_sub n))")
    case True
    with u have "prop_notify_free_payload n st = Some u"
      by (auto simp: dispatch_locked_def prop_dispatch_one_def Let_def split: if_splits)
    from free_payload_hush[OF this] have h: "couriers u = couriers st" "obs s c u = obs s c st" by auto
    have "hpn_sub n \<noteq> s" using True Cons.prems(2) by auto
    then show ?thesis using h by (simp add: obs_def)
  next
    case False
    with u have "notify_invoke n st = Some u"
      by (auto simp: dispatch_locked_def prop_dispatch_one_def Let_def split: if_splits)
    from invoke_hush[OF this] have h: "couriers u = couriers st"
      "obs s c u = obs s c (st\<lparr>calls := calls st @ [n]\<rparr>)" by auto
    have "shape (st\<lparr>calls := calls st @ [n]\<rparr>) = shape st"
      "stray s c (st\<lparr>calls := calls st @ [n]\<rparr>) = stray s c st"
      by (simp_all add: shape_def stray_def cong: if_cong)
    moreover have "stream s c (st\<lparr>calls := calls st @ [n]\<rparr>) = stream s c st @ told s [n]"
      using Cons.prems(3,4) by (simp add: stream_def)
    ultimately show ?thesis using h by (simp add: obs_def)
  qed
  have "\<not> hps_zombie (subs u s)" using one Cons.prems(2) shape_eqD(17)[of u st s] by auto
  from Cons.IH[OF r this] one Cons.prems(3,4) show ?case by simp
qed

lemma ref_decs_hush: "obs s c (fold (\<lambda>n. prop_sub_ref_dec_locked (hpn_sub n)) q st) = obs s c st"
  by (rule obs_fold) simp

lemma ref_decs_couriers: "couriers (fold (\<lambda>n. prop_sub_ref_dec_locked (hpn_sub n)) q st) = couriers st"
  by (induction q arbitrary: st)
     (auto simp: prop_sub_ref_dec_locked_def prop_psd_release_def Let_def split: dispatch.split)

lemma poll_mirror:
  assumes m: "mirror s c st" and d: "pc_dispatch_queue (couriers st c) = []"
    and r: "prop_courier_poll c st = Some st'"
  shows "mirror s c st' \<and> stream s c st' = stream s c st \<and> pc_queue_nor (couriers st' c) = []
    \<and> shape st' = shape st \<and> told s (calls st') = stream s c st'"
proof -
  let ?q = "pc_queue_exp (couriers st c) @ pc_queue_nor (couriers st c)"
  let ?u = "upd_courier c (\<lambda>x. x\<lparr>pc_queue_exp := [], pc_queue_nor := []\<rparr>) st"
  have M: "sub_plain s c st" "settled s c st" using m by (simp_all add: mirror_def)
  have z: "\<not> hps_zombie (subs ?u s)" using M(1) by (simp add: sub_plain_def)
  have ex: "told s (pc_queue_exp (couriers st c)) = []"
    using M(2) by (simp add: settled_def stray_def fun_eq_iff)
  from r obtain w where w: "ofold dispatch_locked ?q ?u = Some w"
    and e: "st' = fold (\<lambda>n. prop_sub_ref_dec_locked (hpn_sub n)) ?q w"
    by (auto simp: prop_courier_poll_def take_queues_def prop_notify_dispatch_def)
  note D = dispatch_told[OF w z, of c]
  have D: "couriers w = couriers ?u" "shape w = shape ?u" "stray s c w = stray s c ?u"
    "stream s c w = stream s c ?u @ told s ?q"
    using D d by simp_all
  have o: "obs s c st' = obs s c w" unfolding e by (rule ref_decs_hush)
  have c: "couriers st' = couriers ?u" unfolding e by (simp add: ref_decs_couriers D(1))
  have sh: "shape st' = shape st" using o D(2) by (simp add: obs_def shape_upd_ref)
  have su: "stray s c ?u = stray s c st" using ex by (auto simp: stray_def fun_eq_iff)
  have st: "stream s c st' = stream s c st"
    using o D(4) ex d by (simp add: obs_def stream_def)
  have "told_more s c [] st st'" using sh st o D(3) su by (simp add: told_more_def obs_def)
  then have "mirror s c st'" by (rule mirror_told_nothing[OF m])
  moreover have "told s (calls st') = stream s c st'" using c d by (simp add: stream_def)
  ultimately show ?thesis using st c sh by simp
qed

end
