(* ===== verification/Prop_Session.thy ===== *)
theory Prop_Session
  imports Prop_Theorems
begin

text \<open>
  A client's session on one courier: operations by anyone, in any order, between the client's
  polls of its courier. The session keeps the mirror invariant and the tree.
\<close>

inductive session :: "sid \<Rightarrow> cid \<Rightarrow> pst \<Rightarrow> pst \<Rightarrow> bool" for s c where
  session_start: "session s c st st"
| session_op: "session s c st st1 \<Longrightarrow> op_ok (\<lambda>sk. sk \<noteq> Some s) st1 op \<Longrightarrow> exec op st1 = Some st2 \<Longrightarrow>
    session s c st st2"
| session_poll: "session s c st st1 \<Longrightarrow> pc_dispatch_queue (couriers st1 c) = [] \<Longrightarrow>
    prop_courier_poll c st1 = Some st2 \<Longrightarrow> session s c st st2"

inductive_cases sessionE: "session s c st st'"

lemma poll_tree:
  assumes "mirror s c st" "pc_dispatch_queue (couriers st c) = []" "prop_courier_poll c st = Some st'"
    "tree_ok st"
  shows "tree_ok st'"
  using poll_mirror[OF assms(1-3)] same_tree_ok[OF shape_same_tree[of st' st]] assms(4) by simp

lemma session_mirror:
  assumes "session s c st st'" "mirror s c st" "tree_ok st"
  shows "mirror s c st' \<and> tree_ok st'"
  using assms
proof (induction rule: session.induct)
  case (session_op st st1 op st2)
  then show ?case using mirror.exec_ok[of s c st1 op st2] by (simp add: ok_def)
next
  case (session_poll st st1 st2)
  then show ?case using poll_mirror[of s c st1 st2] poll_tree[of s c st1 st2] by simp
qed simp

text \<open>The initial state: the global property alone.\<close>

lemma init_type: "type_of prop_init p = (if p = prop_global then PROP_VOID else PROP_ZOMBIE)"
  by (simp add: prop_init_def type_make) (simp add: type_of_def no_prop_def prop_global_def)

lemma init_childs: "hp_childs prop_init p = []"
  by (simp add: childs_of_nondir init_type)

lemma init_parent: "hp_parent (props prop_init p) = None"
  by (simp add: prop_init_def prop_make_def Let_def no_prop_def upd_defs prop_global_def)

lemma init_fields:
  "hp_originator (props prop_init p) = None" "hp_targets (props prop_init p) = []"
  "hp_value_subscriptions (props prop_init p) = []" "pnq prop_init = []" "couriers prop_init = (\<lambda>_. no_courier)"
  "subs prop_init = (\<lambda>_. no_sub)" "pnext prop_init = 1" "snext prop_init = 0" "calls prop_init = []"
  "psdnext prop_init = 0"
  by (simp_all add: prop_init_def prop_make_def Let_def no_prop_def upd_defs prop_global_def)

lemma init_tree: "tree_ok prop_init"
  by (simp add: tree_ok_def ids_ok_def init_childs init_parent init_fields)

lemma init_fresh: "fresh_sub prop_init"
  by (auto simp: fresh_sub_def init_fields stream_def stray_def no_courier_def fun_eq_iff)

end
