(* ===== verification/Prop_Facts.thy ===== *)
theory Prop_Facts
  imports Prop_Session
begin

text \<open>
  Facts about single operations: what a poll calls, what a lookup finds after a creation, what a
  value becomes, and where the code does not keep its promise.
\<close>

section \<open>A poll\<close>

lemma ref_dec_calls: "prop_ref_dec_locked po st = Some st' \<Longrightarrow> calls st' = calls st"
  by (cases po) (auto simp: prop_ref_dec_locked_def Let_def split: if_splits)

lemma vec_release_calls: "prop_vec_release pv st = Some st' \<Longrightarrow> calls st' = calls st"
proof -
  have "ofold (\<lambda>p. prop_ref_dec_locked (Some p)) ps u = Some w \<Longrightarrow> calls w = calls u" for ps u w
    by (rule ofold_invariant[where P = "\<lambda>x. calls x = calls u"]) (auto dest: ref_dec_calls)
  then show "prop_vec_release pv st = Some st' \<Longrightarrow> calls st' = calls st"
    by (fastforce simp: prop_vec_release_def Let_def split: if_splits)
qed

lemma release_calls: "release_propv v st = Some st' \<Longrightarrow> calls st' = calls st"
  using vec_release_calls by (auto simp: release_propv_def split: notify_val.splits)

lemma free_payload_calls: "prop_notify_free_payload n st = Some st' \<Longrightarrow> calls st' = calls st"
  by (auto simp: prop_notify_free_payload_def bind_eq_Some_conv split: prop_event.splits
      dest!: ref_dec_calls release_calls)

lemma invoke_calls: "notify_invoke n st = Some st' \<Longrightarrow> calls st' = calls st @ [n]"
  by (auto simp: notify_invoke_def Let_def bind_eq_Some_conv split: prop_event.splits
      dest!: ref_dec_calls release_calls)

lemma zombie_of_obs: "(\<And>s c. obs s c st' = obs s c st) \<Longrightarrow> hps_zombie (subs st' x) = hps_zombie (subs st x)"
  using shape_eqD(17)[OF shape_of_obs] by blast

lemma invoke_zombie: "notify_invoke n st = Some st' \<Longrightarrow> hps_zombie (subs st' x) = hps_zombie (subs st x)"
  using invoke_hush[of n st st'] zombie_of_obs[of st' "st\<lparr>calls := calls st @ [n]\<rparr>" x] by simp

lemma free_payload_zombie:
  "prop_notify_free_payload n st = Some st' \<Longrightarrow> hps_zombie (subs st' x) = hps_zombie (subs st x)"
  using free_payload_hush[of n st st'] zombie_of_obs[of st' st x] by simp

lemma dispatch_calls:
  assumes "ofold dispatch_locked q st = Some st'"
  shows "calls st' = calls st @ filter (\<lambda>n. \<not> hps_zombie (subs st (hpn_sub n))) q"
  using assms
proof (induction q arbitrary: st)
  case Nil then show ?case by simp
next
  case (Cons n q)
  then obtain u where u: "dispatch_locked n st = Some u" and r: "ofold dispatch_locked q u = Some st'"
    by (auto split: option.splits)
  have "calls u = calls st @ (if hps_zombie (subs st (hpn_sub n)) then [] else [n])
      \<and> (\<forall>x. hps_zombie (subs u x) = hps_zombie (subs st x))"
    using u free_payload_calls free_payload_zombie invoke_calls invoke_zombie
    by (auto simp: dispatch_locked_def prop_dispatch_one_def Let_def split: if_splits)
  with Cons.IH[OF r] show ?case by simp
qed

lemma ref_decs_calls: "calls (fold (\<lambda>n. prop_sub_ref_dec_locked (hpn_sub n)) q st) = calls st"
  by (induction q arbitrary: st)
     (auto simp: prop_sub_ref_dec_locked_def prop_psd_release_def Let_def split: dispatch.split)

section \<open>Names under a property\<close>

lemma flood_name: "prop_flood_flag k sf cf p st = Some st' \<Longrightarrow> hp_name (props st' x) = hp_name (props st x)"
proof (induction k arbitrary: p st st')
  case 0 then show ?case by simp
next
  case (Suc k)
  let ?st1 = "upd_prop p (\<lambda>x. x\<lparr>hp_flags := (hp_flags x \<union> sf) - cf\<rparr>) st"
  have "ofold (prop_flood_flag k sf cf) (hp_childs ?st1 p) ?st1 = Some st'"
    using Suc.prems by (simp add: Let_def)
  then have "hp_name (props st' x) = hp_name (props ?st1 x)"
    by (rule ofold_invariant[where P = "\<lambda>u. hp_name (props u x) = hp_name (props ?st1 x)"])
       (auto dest: Suc.IH)
  then show ?case by simp
qed

lemma inherit_name: "inherit_multi p q st = Some st' \<Longrightarrow> hp_name (props st' x) = hp_name (props st x)"
  using flood_name by (auto simp: inherit_multi_def simp del: prop_flood_flag.simps split: if_splits)

lemma make_dir_facts:
  assumes "prop_make_dir p sk st = Some st'"
  shows "is_dir (type_of st' p)" "hp_childs st' x = hp_childs st x" "hp_name (props st' x) = hp_name (props st x)"
    "pnext st' = pnext st" "type_of st x \<noteq> PROP_PROXY \<Longrightarrow> type_of st' x \<noteq> PROP_PROXY"
    "hp_parent (props st' x) = hp_parent (props st x)" "x \<noteq> p \<Longrightarrow> type_of st' x = type_of st x"
proof -
  have "st' = st \<and> is_dir (type_of st p) \<or> (\<exists>u. shape u = shape st \<and> \<not> is_dir (type_of st p)
      \<and> shape st' = shape (set_type p (PROP_DIR [] None) u))"
  proof (cases "is_dir (type_of st p)")
    case True with assms show ?thesis by (simp add: prop_make_dir_def)
  next
    case False
    with assms obtain u where u: "prop_clean_with (\<lambda>_ _. None) p st = Some (False, u)"
      and n: "prop_notify_value p sk (set_type p (PROP_DIR [] None) u) = Some st'"
      by (auto simp: prop_make_dir_def split: option.splits prod.splits bool.splits)
    have "shape u = shape st"
      using u False shape_of_obs[OF obs_ref_dec]
      by (auto simp: prop_clean_with_def is_dir_def split: if_splits payload.splits)
    with False shape_notify_value[OF n] show ?thesis by blast
  qed
  then have "is_dir (type_of st' p) \<and> hp_childs st' x = hp_childs st x \<and> hp_name (props st' x) = hp_name (props st x)
    \<and> pnext st' = pnext st \<and> (type_of st x \<noteq> PROP_PROXY \<longrightarrow> type_of st' x \<noteq> PROP_PROXY)
    \<and> hp_parent (props st' x) = hp_parent (props st x) \<and> (x \<noteq> p \<longrightarrow> type_of st' x = type_of st x)"
  proof (elim disjE conjE exE)
    fix u assume u: "shape u = shape st" "\<not> is_dir (type_of st p)"
      "shape st' = shape (set_type p (PROP_DIR [] None) u)"
    show ?thesis
      using shape_eqD(1,2,3,10)[OF u(1)] shape_eqD(1,2,3,10)[OF u(3)] u(2)
      by (auto simp: childs_of_nondir)
  qed simp
  then show "is_dir (type_of st' p)" "hp_childs st' x = hp_childs st x"
    "hp_name (props st' x) = hp_name (props st x)"
    "pnext st' = pnext st" "type_of st x \<noteq> PROP_PROXY \<Longrightarrow> type_of st' x \<noteq> PROP_PROXY"
    "hp_parent (props st' x) = hp_parent (props st x)" "x \<noteq> p \<Longrightarrow> type_of st' x = type_of st x"
    by auto
qed

lemma insert_last:
  assumes "prop_insert p q None sk st = Some st'"
  shows "is_dir (type_of st q)" "shape st' = shape (set_childs q (hp_childs st q @ [p]) st)"
  using assms by (auto simp: prop_insert_def split: if_splits)

lemma find_child_append:
  "List.find P (xs @ ys) = (case List.find P xs of None \<Rightarrow> List.find P ys | Some x \<Rightarrow> Some x)"
  by (induction xs) auto

lemma find_child_cong:
  assumes "hp_childs st' x = hp_childs st x"
    and "\<And>y. y \<in> set (hp_childs st x) \<Longrightarrow> hp_name (props st' y) = hp_name (props st y)"
  shows "find_child st' x m = find_child st x m"
  unfolding find_child_def using assms by (simp cong: find_cong)

text \<open>A new child of a directory: the lookups are as before, and the new name has its child.\<close>

lemma create_new:
  assumes f: "find_child st q n = None" and d: "is_dir (type_of st q)" and t: "tree_ok st" "q < pnext st"
    and i: "inherit_multi (pnext st) q (snd (prop_make (Some n) na (Some q) st)) = Some st3"
    and r: "prop_insert (pnext st) q None sk st3 = Some st'"
  shows "find_child st' q n = Some (pnext st)" "is_dir (type_of st' q)"
    "find_child st x m = Some y \<Longrightarrow> find_child st' x m = Some y"
    "hp_parent (props st' (pnext st)) = Some q" "pnext st' = Suc (pnext st)"
    "type_of st' x = PROP_PROXY \<Longrightarrow> type_of st x = PROP_PROXY"
    "hp_childs st' q = hp_childs st q @ [pnext st]"
proof -
  let ?p = "pnext st" and ?st2 = "snd (prop_make (Some n) na (Some q) st)"
  note T = inherit_tree[OF i]
  have ch2: "hp_childs ?st2 y = (if y = ?p then [] else hp_childs st y)" for y by (simp add: type_make)
  have nm2: "hp_name (props ?st2 y) = (if y = ?p then Some n else hp_name (props st y))" for y
    by (simp add: prop_make_def)
  have pa2: "hp_parent (props ?st2 ?p) = Some q" by (simp add: prop_make_def)
  have nx2: "pnext ?st2 = Suc ?p" by (simp add: prop_make_def)
  have 3: "type_of st3 y = type_of ?st2 y" "hp_name (props st3 y) = hp_name (props ?st2 y)"
    "hp_parent (props st3 y) = hp_parent (props ?st2 y)" for y
    using T inherit_name[OF i] by (auto simp: same_tree_def)
  note S = insert_last(2)[OF r]
  have d3: "is_dir (type_of st3 q)" by (rule insert_last(1)[OF r])
  have q: "q \<noteq> ?p" using t(2) by simp
  have ch: "hp_childs st' y = (if y = q then hp_childs st q @ [?p] else if y = ?p then [] else hp_childs st y)" for y
    using shape_eqD(1)[OF S, of y] 3(1) ch2 q by (simp add: set_childs_def)
  have nm: "hp_name (props st' y) = (if y = ?p then Some n else hp_name (props st y))" for y
    using shape_eqD(2)[OF S, of y] 3(2) nm2 by (simp add: set_childs_def)
  show "hp_parent (props st' ?p) = Some q"
    using shape_eqD(3)[OF S, of ?p] 3(3) pa2 q by (simp add: set_childs_def)
  show "pnext st' = Suc ?p" using shape_eqD(10)[OF S] T nx2 by (simp add: same_tree_def set_childs_def)
  show "is_dir (type_of st' q)" using shape_eqD(1)[OF S, of q] d3 by (simp add: set_childs_def)
  show "type_of st' x = PROP_PROXY \<Longrightarrow> type_of st x = PROP_PROXY"
    using shape_eqD(1)[OF S, of x] 3(1)[of x] by (auto simp: set_childs_def type_make split: if_splits)
  show "hp_childs st' q = hp_childs st q @ [?p]" by (simp add: ch)
  have lt: "y < ?p" if "y \<in> set (hp_childs st x)" for x y using tree_okD(1)[OF t(1) that] .
  have old: "List.find (\<lambda>c. hp_name (props st' c) = Some m) (hp_childs st x) = find_child st x m" for x m
    unfolding find_child_def by (rule find_cong) (use lt nm in fastforce)+
  show "find_child st' q n = Some ?p"
    using old[of n q] f by (simp add: find_child_def ch find_child_append nm)
  have e: "hp_childs st ?p = []"
  proof (rule ccontr)
    assume "hp_childs st ?p \<noteq> []"
    then obtain c where "c \<in> set (hp_childs st ?p)" by (cases "hp_childs st ?p") auto
    from tree_okD(3)[OF t(1) tree_okD(2)[OF t(1) this]] show False by simp
  qed
  show "find_child st x m = Some y \<Longrightarrow> find_child st' x m = Some y"
  proof -
    assume "find_child st x m = Some y"
    then have o: "List.find (\<lambda>c. hp_name (props st' c) = Some m) (hp_childs st x) = Some y"
      and x: "x \<noteq> ?p" using old[of m x] e by (auto simp: find_child_def)
    show ?thesis using o x unfolding find_child_def ch by (auto simp: find_child_append)
  qed
qed

lemma find_child_name: "find_child st q n = Some p \<Longrightarrow> hp_name (props st p) = Some n \<and> p \<in> set (hp_childs st q)"
  by (auto simp: find_child_def find_Some_iff)

text \<open>
  Creating: the child is there afterwards, under its name, and no other lookup is disturbed.
\<close>

lemma create0_facts:
  assumes t: "tree_ok st" "q < pnext st" and np: "type_of st q \<noteq> PROP_PROXY"
    and r: "prop_create0 q (Some n) sk na st = Some (p, st')"
  shows "find_child st' q n = Some p \<and> is_dir (type_of st' q)
    \<and> (\<forall>x m y. find_child st x m = Some y \<longrightarrow> find_child st' x m = Some y)
    \<and> hp_parent (props st' p) = Some q \<and> p < pnext st' \<and> pnext st \<le> pnext st'
    \<and> (\<forall>x. type_of st' x = PROP_PROXY \<longrightarrow> type_of st x = PROP_PROXY)"
proof -
  from r np obtain st1 where 1: "prop_make_dir q sk st = Some st1" and z: "type_of st q \<noteq> PROP_ZOMBIE"
    and r1: "(case find_child st1 q n of
           Some hp \<Rightarrow>
             Some (hp, if PROP_NAME_NOT_ALLOCATED \<notin> hp_flags (props st1 hp) \<and> na
                       then upd_prop hp (\<lambda>x. x\<lparr>hp_name := Some n,
                              hp_flags := Set.insert PROP_NAME_NOT_ALLOCATED (hp_flags x)\<rparr>) st1
                       else st1)
         | None \<Rightarrow>
             (case prop_make (Some n) na (Some q) st1 of
                (hp, st2) \<Rightarrow> do { st3 \<leftarrow> inherit_multi hp q st2; st4 \<leftarrow> prop_insert hp q None sk st3;
                                  Some (hp, st4) })) = Some (p, st')"
    by (auto simp: prop_create0_def bind_eq_Some_conv split: if_splits)
  note m = make_dir_facts[OF 1]
  have f1: "find_child st1 x m = find_child st x m" for x m by (rule find_child_cong) (simp_all add: m)
  have t1: "tree_ok st1" "q < pnext st1"
    using tree.make_dir[of st q sk st1] 1 t z m(4) by (auto simp: ok_def go_def)
  have px: "type_of st1 x = PROP_PROXY \<Longrightarrow> type_of st x = PROP_PROXY" for x using m(5) by blast
  show ?thesis
  proof (cases "find_child st1 q n")
    case None
    then obtain st3 where i: "inherit_multi (pnext st1) q (snd (prop_make (Some n) na (Some q) st1)) = Some st3"
      and r3: "prop_insert (pnext st1) q None sk st3 = Some st'" and p: "p = pnext st1"
      using r1 by (auto simp: bind_eq_Some_conv prop_make_def)
    note c = create_new[OF None m(1) t1 i r3]
    show ?thesis using c(1,2,4,5) c(3)[unfolded f1] px c(6) p m(4) by auto
  next
    case (Some hp)
    note h = find_child_name[OF Some]
    have k: "hp = p" "pnext st' = pnext st1" "type_of st' x = type_of st1 x"
      "hp_name (props st' x) = hp_name (props st1 x)" "hp_parent (props st' x) = hp_parent (props st1 x)" for x
      using r1 Some h by (auto simp: type_of_def split: if_splits)
    have f2: "find_child st' x m = find_child st x m" for x m
      using find_child_cong[of st' x st1 m] f1[of x m] k(3,4) by simp
    show ?thesis
      using Some h f2 f1 k m(1) px tree_okD(1,2)[OF t1(1)] m(4) by (metis le_refl)
  qed
qed

lemma create0_tree:
  "tree_ok st \<Longrightarrow> q < pnext st \<Longrightarrow> prop_create0 q n sk na st = Some (p, st') \<Longrightarrow> tree_ok st' \<and> p < pnext st'"
  using tree.create0(1)[OF _ _ TrueI, of st q n sk na p st'] tree.create0(2)[OF _ _ TrueI, of st q n sk na p st'] by (auto simp: ok_def go_def)

text \<open>A path that was created is found again, unless it leads into a remote tree.\<close>

lemma create_path_proxy:
  "type_of st q = PROP_PROXY \<Longrightarrow> create_path q ns st = Some (r, st') \<Longrightarrow> type_of st' r = PROP_PROXY"
proof (induction ns arbitrary: q st)
  case Nil then show ?case by simp
next
  case (Cons n ns)
  then obtain p st1 where c: "prop_proxy_create q n st = (p, st1)" and r: "create_path p ns st1 = Some (r, st')"
    by (auto simp: prop_create0_def split: if_splits prod.splits)
  have "type_of st1 p = PROP_PROXY" using c by (auto simp: prop_proxy_create_def type_of_def split: prod.splits)
  from Cons.IH[OF this r] show ?case .
qed

lemma create_path_find:
  assumes "tree_ok st" "q < pnext st" "create_path q ns st = Some (r, st')" "type_of st' r \<noteq> PROP_PROXY"
  shows "prop_find0 st' q ns = Some r
    \<and> (\<forall>x m y. find_child st x m = Some y \<longrightarrow> find_child st' x m = Some y)"
  using assms
proof (induction ns arbitrary: q st)
  case Nil then show ?case by simp
next
  case (Cons n ns)
  then obtain p st1 where c: "prop_create0 q (Some n) None False st = Some (p, st1)"
    and r: "create_path p ns st1 = Some (r, st')" by (auto split: option.splits)
  have np: "type_of st q \<noteq> PROP_PROXY" using create_path_proxy[OF _ Cons.prems(3)] Cons.prems(4) by blast
  note f = create0_facts[OF Cons.prems(1,2) np c]
  from create0_tree[OF Cons.prems(1,2) c] Cons.IH[OF _ _ r Cons.prems(4)]
  have ih: "prop_find0 st' p ns = Some r" "\<forall>x m y. find_child st1 x m = Some y \<longrightarrow> find_child st' x m = Some y"
    by blast+
  have "find_child st' q n = Some p" using f ih(2) by blast
  moreover from this have "is_dir (type_of st' q)"
    using find_child_name[of st' q n p] childs_of_nondir[of "type_of st' q"] by fastforce
  ultimately show ?case using ih f by auto
qed

end
