(* ===== verification/Prop_Values.thy ===== *)
theory Prop_Values
  imports Prop_Facts
begin

text \<open>
  Facts about values and positions: clipping, the one notification a change of value makes, the
  place a moved child takes, and the insertion that is announced wrongly.
\<close>

section \<open>Values\<close>

lemma set_notify_type:
  assumes "prop_notify_value p sk (set_type p v st) = Some st'"
  shows "type_of st' x = (if x = p then v else type_of st x)"
  using shape_eqD(1)[OF shape_notify_value[OF assms], of x] by simp

lemma clip_i32_clamp:
  assumes "clip_i32 (Some (lo, hi)) v = Some w" "sint lo \<le> sint hi"
  shows "sint w = max (sint lo) (min (sint v) (sint hi))"
  using assms by (auto simp: clip_i32_def Let_def split: if_splits)

lemma set_int_clipped:
  assumes t: "type_of st p = PROP_INT i (Some (lo, hi))" "PROP_CLIPPED_VALUE \<in> hp_flags (props st p)"
    and r: "sint lo \<le> sint i" "sint i \<le> sint hi" and s: "prop_set_int_exl p sk v st = Some st'"
  shows "\<exists>w. type_of st' p = PROP_INT w (Some (lo, hi)) \<and> sint w = max (sint lo) (min (sint v) (sint hi))"
proof (cases "i = v")
  case True
  with s t r show ?thesis by (auto simp: prop_set_int_exl_def)
next
  case False
  with s t obtain w where w: "clip_i32 (Some (lo, hi)) v = Some w"
    and n: "prop_notify_value p sk (set_type p (PROP_INT w (Some (lo, hi))) st) = Some st'"
    by (auto simp: prop_set_int_exl_def bind_eq_Some_conv)
  show ?thesis using set_notify_type[OF n] clip_i32_clamp[OF w] r by auto
qed

lemma add_i32_sint:
  assumes "add_i32 a b = Some n" shows "sint n = sint a + sint b"
proof -
  have r: "- (2 ^ 31) \<le> sint a + sint b" "sint a + sint b < 2 ^ 31" and n: "n = a + b"
    using assms by (auto simp: add_i32_def Let_def split: if_splits)
  have "sint n = signed_take_bit 31 (sint a + sint b)"
    unfolding n by (simp add: sint_word_ariths(1))
  also have "\<dots> = sint a + sint b"
    using r by (simp add: signed_take_bit_int_eq_self_iff)
  finally show ?thesis .
qed

lemma add_int_clipped:
  assumes t: "type_of st p = PROP_INT i (Some (lo, hi))" "PROP_CLIPPED_VALUE \<in> hp_flags (props st p)"
    and r: "sint lo \<le> sint i" "sint i \<le> sint hi" and s: "prop_add_int_ex (Some p) sk v st = Some st'"
  shows "\<exists>w. type_of st' p = PROP_INT w (Some (lo, hi))
    \<and> sint w = max (sint lo) (min (sint i + sint v) (sint hi))"
proof -
  from s t obtain n w where n: "add_i32 i v = Some n" and w: "clip_i32 (Some (lo, hi)) n = Some w"
    and u: "if w = i then st' = st
            else prop_notify_value p sk (set_type p (PROP_INT w (Some (lo, hi))) st) = Some st'"
    by (auto simp: prop_add_int_ex_def make_int_def bind_eq_Some_conv split: if_splits)
  have "type_of st' p = PROP_INT w (Some (lo, hi))"
    using u t(1) set_notify_type[of p sk _ st st' p] by (auto split: if_splits)
  then show ?thesis using clip_i32_clamp[OF w] add_i32_sint[OF n] r by simp
qed

text \<open>A change of an integer is announced once, with the value that was stored.\<close>

lemma set_int_announced:
  assumes m: "sub_plain s c st" "sub_linked s st" "hps_value_prop (subs st s) = Some p" "sk \<noteq> Some s"
    and t: "type_of st p = PROP_INT i r" and s: "prop_set_int_exl p sk v st = Some st'"
  shows "\<exists>w. type_of st' p = PROP_INT w r \<and>
    stream s c st' = stream s c st @ (if i = v then [] else [mk_notify s EV_SET_INT (NV_int w)])"
proof (cases "i = v")
  case True with s t show ?thesis by (simp add: prop_set_int_exl_def)
next
  case False
  with s t obtain w where n: "prop_notify_value p sk (set_type p (PROP_INT w r) st) = Some st'"
    by (auto simp: prop_set_int_exl_def bind_eq_Some_conv)
  have pl: "sub_plain s c (set_type p (PROP_INT w r) st)" "sub_linked s (set_type p (PROP_INT w r) st)"
    using m by simp_all
  from told_value_exact[OF pl m(4) n] m(3)
  have "told_more s c [mk_notify s EV_SET_INT (NV_int w)] (set_type p (PROP_INT w r) st) st'" by auto
  with told_moreD(2)[OF this] False set_notify_type[OF n, of p] show ?thesis by (simp add: stream_upd)
qed

section \<open>Positions\<close>

lemma next_of_insert_before:
  "distinct xs \<Longrightarrow> x \<notin> set xs \<Longrightarrow> b \<in> set xs \<Longrightarrow> next_of x (insert_before b x xs) = Some b"
proof (induction xs)
  case Nil then show ?case by simp
next
  case (Cons y ys)
  show ?case
  proof (cases "y = b")
    case True then show ?thesis using Cons.prems by simp
  next
    case False
    have "set (insert_before b x ys) \<noteq> {}" by (simp add: set_insert_before)
    then obtain z zs where z: "insert_before b x ys = z # zs" by (cases "insert_before b x ys") auto
    have "next_of x (insert_before b x ys) = Some b" using Cons False by simp
    then show ?thesis using False Cons.prems z by auto
  qed
qed

lemma next_of_append: "x \<notin> set xs \<Longrightarrow> next_of x (xs @ [x]) = None"
  by (induction x xs rule: next_of.induct) auto

lemma remove1_insert_before: "x \<notin> set xs \<Longrightarrow> remove1 x (insert_before b x xs) = xs"
  by (induction xs) auto

lemma remove1_append_last: "x \<notin> set xs \<Longrightarrow> remove1 x (xs @ [x]) = xs"
  by (simp add: remove1_append)

text \<open>A move puts the child right before the given sibling, or last, and moves nothing else.\<close>

lemma move_position:
  assumes t: "tree_ok st" and q: "p \<in> set (hp_childs st q)"
    and b: "case b of None \<Rightarrow> True | Some x \<Rightarrow> x \<in> set (hp_childs st q)"
    and r: "prop_move0 p b sk st = Some st'"
  shows "next_of p (hp_childs st' q) = b \<and> remove1 p (hp_childs st' q) = remove1 p (hp_childs st q)
    \<and> (\<forall>x. x \<noteq> q \<longrightarrow> hp_childs st' x = hp_childs st x)"
proof -
  let ?cs = "hp_childs st q"
  have pp: "hp_parent (props st p) = Some q" and d: "distinct ?cs"
    using tree_okD(2,6)[OF t] q by auto
  have bp: "\<And>x. b = Some x \<Longrightarrow> hp_parent (props st x) = Some q" "b \<noteq> Some p"
    using tree_okD(2)[OF t] b r by (auto simp: prop_move0_def)
  show ?thesis
  proof (cases "next_of p ?cs = b")
    case True
    with r pp bp have "st' = st" by (auto simp: prop_move0_def split: option.splits)
    with True show ?thesis by simp
  next
    case False
    with r pp bp have n: "prop_notify_child2 (Some p) q b EV_MOVE_CHILD sk
        (set_childs q (case b of Some b \<Rightarrow> insert_before b p (remove1 p ?cs) | None \<Rightarrow> remove1 p ?cs @ [p]) st) = Some st'"
      by (auto simp: prop_move0_def Let_def split: if_splits option.splits)
    note ch = shape_eqD(1)[OF shape_notify_child2[OF n]]
    have np: "p \<notin> set (remove1 p ?cs)" and dr: "distinct (remove1 p ?cs)" using d by simp_all
    have "x \<in> set (remove1 p ?cs)" if "b = Some x" for x using b bp(2) that d by (auto simp: in_set_remove1)
    then show ?thesis
      using np dr
      by (cases b) (simp_all add: ch set_childs_def next_of_insert_before next_of_append
          remove1_insert_before remove1_append_last)
  qed
qed

section \<open>Where the code breaks its promise\<close>

text \<open>An unselect takes a reference on the null pointer when a queued subscription watches.\<close>

lemma child2_null_aborts:
  assumes "s \<in> set (hp_value_subscriptions (props st q))" "\<not> is_internal st s" "Some s \<noteq> sk"
  shows "prop_notify_child2 None q ex ev sk st = None"
proof (rule ccontr)
  assume "prop_notify_child2 None q ex ev sk st \<noteq> None"
  then obtain st' where r: "ofold (\<lambda>s st. if Some s = sk then Some st
                   else prop_build_notify_child2 s None ex ev False st)
       (hp_value_subscriptions (props st q)) st = Some st'" by (auto simp: prop_notify_child2_def)
  obtain ys zs where l: "hp_value_subscriptions (props st q) = ys @ s # zs"
    using assms(1) by (meson split_list)
  from r[unfolded l ofold_append] obtain u v where u: "ofold (\<lambda>s st. if Some s = sk then Some st
                   else prop_build_notify_child2 s None ex ev False st) ys st = Some u"
    and v: "prop_build_notify_child2 s None ex ev False u = Some v"
    using assms(3) by (auto split: option.splits if_splits)
  have "shape u = shape st"
    by (rule shape_ofold[OF u]) (auto split: if_splits dest: shape_build_child2)
  from shape_eqD(13)[OF this, of s] assms(2) v show False
    by (auto simp: prop_build_notify_child2_def is_internal_def Let_def)
qed

text \<open>
  \<open>prop_create_after\<close> at the head of a directory that has children: the subscription is told of
  the new child as if it came last.
\<close>

lemma create_after_head:
  assumes m: "mirror s c st" "hps_value_prop (subs st s) = Some q" "sk \<noteq> Some s"
    and d: "is_dir (type_of st q)" "hp_childs st q = x # xs" "find_child st q n = None" "tree_ok st"
    and r: "prop_create_after (Some q) n None sk st = Some (po, st')"
  shows "\<exists>p. po = Some p \<and> hp_childs st' q = p # hp_childs st q
    \<and> replay (stream s c st') = hp_childs st q @ [p]"
proof -
  let ?p = "pnext st" and ?st2 = "snd (prop_make (Some n) False (Some q) st)"
  have z: "type_of st q \<noteq> PROP_ZOMBIE" using d(1) by auto
  have ql: "q < ?p" using d(2) tree_okD(3)[OF d(4) tree_okD(2)[OF d(4), of x q]] by simp
  then have ch2: "hp_childs ?st2 q = hp_childs st q" by (simp add: type_make)
  have e: "po = Some ?p" "st' = prop_notify_child (Some ?p) q EV_ADD_CHILD sk (set_childs q (?p # x # xs) ?st2)"
    using r d z ch2
    by (auto simp: prop_create_after_def prop_make_dir_def tailq_insert_after_def prop_make_def Let_def)
  have m2: "mirror s c ?st2" by (rule mirror_make[OF m(1)])
  have d2: "is_dir (type_of ?st2 q)" "hps_value_prop (subs ?st2 s) = Some q" "stream s c ?st2 = stream s c st"
    using d(1) m(2) ch2 d(2) ql by (auto simp: prop_make_def type_of_def stream_def)
  note pl = plain_linked_childs[OF m2, of q "?p # x # xs"]
  have "told_more s c [mk_notify s EV_ADD_CHILD (NV_prop (Some ?p))] (set_childs q (?p # x # xs) ?st2) st'"
    using told_child[OF pl m(3), of EV_ADD_CHILD q "Some ?p"] d2(2) e(2) by (simp add: set_childs_def)
  note t = told_moreD[OF this]
  have "replay (stream s c st) = hp_childs st q"
    using m(1,2) z by (simp add: mirror_def faithful_def)
  then have "replay (stream s c st') = hp_childs st q @ [?p]"
    using t(2) d2(3) by (simp add: replay_append set_childs_def stream_upd)
  moreover have "hp_childs st' q = ?p # hp_childs st q"
    using shape_eqD(1)[OF t(1), of q] d(2) by (simp add: set_childs_def)
  ultimately show ?thesis using e(1) by blast
qed

end
