(* ===== verification/Prop_Properties.thy ===== *)
theory Prop_Properties
  imports Prop_Values
begin

text \<open>
  The properties of the property system that a client relies on, each with a concrete instance
  on the initial state of the system.
\<close>

section \<open>A small session\<close>

text \<open>
  A subscription to the global property through courier 0, and three requests of other code: a
  child, a second one before it, and the end of the first.
\<close>

definition demo_tags :: "prop_tag list" where
  "demo_tags = [TAG_COURIER (Some 0), TAG_ROOT (Some prop_global)]"

definition demo_args :: sub_args where
  "demo_args = no_args\<lparr>sa_pc := Some 0, sa_mode := SUB_MODE_COURIER, sa_roots := [(prop_global, None)]\<rparr>"

definition demo1 :: pst where
  "demo1 = snd (the (prop_subscribe {} demo_tags prop_init))"

definition demo_op1 :: prop_op where
  "demo_op1 = Op_create (Some prop_global) (Some ''a'') None False False"

definition demo_op2 :: prop_op where
  "demo_op2 = Op_create (Some prop_global) (Some ''b'') None False False"

definition demo_op3 :: prop_op where
  "demo_op3 = Op_move 2 (Some 1) None"

definition demo2 :: pst where "demo2 = the (exec demo_op1 demo1)"
definition demo3 :: pst where "demo3 = the (exec demo_op2 demo2)"
definition demo4 :: pst where "demo4 = the (exec demo_op3 demo3)"
definition demo5 :: pst where "demo5 = the (prop_courier_poll 0 demo4)"

lemma demo_args: "parse_tags demo_tags = Some demo_args"
  by (simp add: parse_tags_def demo_tags_def demo_args_def no_args_def)

lemma demo1: "prop_subscribe {} demo_tags prop_init = Some (Some 0, demo1)"
proof -
  have "map_option fst (prop_subscribe {} demo_tags prop_init) = Some (Some 0)" by code_simp
  then show ?thesis by (auto simp: demo1_def)
qed

lemma the_some: "x \<noteq> None \<Longrightarrow> x = Some (the x)"
  by simp

lemma demo2: "exec demo_op1 demo1 = Some demo2"
proof -
  have "exec demo_op1 demo1 \<noteq> None" by code_simp
  then show ?thesis unfolding demo2_def by (rule the_some)
qed

lemma demo3: "exec demo_op2 demo2 = Some demo3"
proof -
  have "exec demo_op2 demo2 \<noteq> None" by code_simp
  then show ?thesis unfolding demo3_def by (rule the_some)
qed

lemma demo4: "exec demo_op3 demo3 = Some demo4"
proof -
  have "exec demo_op3 demo3 \<noteq> None" by code_simp
  then show ?thesis unfolding demo4_def by (rule the_some)
qed

lemma demo5: "prop_courier_poll 0 demo4 = Some demo5"
proof -
  have "prop_courier_poll 0 demo4 \<noteq> None" by code_simp
  then show ?thesis unfolding demo5_def by (rule the_some)
qed

lemma demo_oks:
  "op_ok sko demo1 demo_op1 = sko None" "op_ok sko demo2 demo_op2 = sko None"
  "op_ok sko demo3 demo_op3 = sko None"
proof -
  have l: "prop_global < pnext demo1" "prop_global < pnext demo2" "2 < pnext demo3" by code_simp+
  show "op_ok sko demo1 demo_op1 = sko None" "op_ok sko demo2 demo_op2 = sko None"
    "op_ok sko demo3 demo_op3 = sko None"
    using l by (simp_all add: demo_op1_def demo_op2_def demo_op3_def)
qed

lemma demo_session: "session 0 0 demo1 demo4"
  by (rule session_op[OF session_op[OF session_op[OF session_start _ demo2] _ demo3] _ demo4])
     (simp_all add: demo_oks)

section \<open>What a subscriber sees\<close>



section \<open>The tree\<close>



section \<open>Delivery\<close>

text \<open>C3: A poll of a courier calls every queued notification exactly once, the expedited ones
  first and each queue in order, except that a subscription that has been cancelled in the meantime
  is never called; nothing stays queued.\<close>

theorem poll_delivers_in_order:
  assumes "prop_courier_poll c st = Some st'"
  shows "calls st' = calls st @ filter (\<lambda>n. \<not> hps_zombie (subs st (hpn_sub n)))
                       (pc_queue_exp (couriers st c) @ pc_queue_nor (couriers st c))"
proof -
  let ?q = "pc_queue_exp (couriers st c) @ pc_queue_nor (couriers st c)"
  let ?u = "upd_courier c (\<lambda>x. x\<lparr>pc_queue_exp := [], pc_queue_nor := []\<rparr>) st"
  from assms obtain w where "ofold dispatch_locked ?q ?u = Some w"
    and "st' = fold (\<lambda>n. prop_sub_ref_dec_locked (hpn_sub n)) ?q w"
    by (auto simp: prop_courier_poll_def take_queues_def prop_notify_dispatch_def)
  with dispatch_calls[of ?q ?u w] show ?thesis by (simp add: ref_decs_calls)
qed

lemma poll_delivers_in_order_witness:
  "map (\<lambda>n. (hpn_event n, nv_prop (hpn_val n))) (calls demo5)
   = [(EV_SET_VOID, None), (EV_SET_DIR, None), (EV_ADD_CHILD, Some 1), (EV_ADD_CHILD, Some 2),
      (EV_MOVE_CHILD, Some 2)]"
proof -
  have "map (\<lambda>n. (hpn_event n, nv_prop (hpn_val n))) (calls demo4 @ filter (\<lambda>n. \<not> hps_zombie (subs demo4 (hpn_sub n)))
      (pc_queue_exp (couriers demo4 0) @ pc_queue_nor (couriers demo4 0)))
   = [(EV_SET_VOID, None), (EV_SET_DIR, None), (EV_ADD_CHILD, Some 1), (EV_ADD_CHILD, Some 2),
      (EV_MOVE_CHILD, Some 2)]" by code_simp
  with poll_delivers_in_order[OF demo5] show ?thesis by simp
qed

section \<open>Names\<close>

text \<open>C4: A path of names that was created is found again: looking the same names up from the
  same property gives the property that was created, and every lookup that succeeded before gives
  what it gave. (A path into a remote tree is made by the connection instead.)\<close>

theorem created_path_is_found:
  assumes "tree_ok st" "q < pnext st" "type_of st q \<noteq> PROP_ZOMBIE"
    and "prop_create_multi q names st = Some (r, st')" "type_of st' r \<noteq> PROP_PROXY"
  shows "prop_find0 st' q names = Some r \<and>
    (\<forall>x m y. find_child st x m = Some y \<longrightarrow> find_child st' x m = Some y)"
proof -
  from assms(3,4) obtain u where u: "create_path q names st = Some (r, u)" and e: "st' = prop_ref_inc (Some r) u"
    by (auto simp: prop_create_multi_def)
  have s: "shape st' = shape u" unfolding e by (rule shape_of_obs) simp
  have f: "find_child st' x m = find_child u x m" for x m
    by (rule find_child_cong) (simp_all add: shape_eqD(1,2)[OF s])
  have "prop_find0 st' x ns = prop_find0 u x ns" for x ns
    by (induction ns arbitrary: x) (simp_all add: f shape_eqD(1)[OF s] split: option.split)
  moreover have "type_of u r \<noteq> PROP_PROXY" using assms(5) by (simp add: shape_eqD(1)[OF s])
  ultimately show ?thesis using create_path_find[OF assms(1,2) u] f by simp
qed

definition demo_path :: "(pid \<times> pst) option" where
  "demo_path = prop_create_multi prop_global [''ui'', ''skin''] prop_init"

lemma created_path_is_found_witness:
  "prop_find0 (snd (the demo_path)) prop_global [''ui'', ''skin''] = Some 2"
proof -
  have a: "map_option fst demo_path = Some 2" "type_of (snd (the demo_path)) 2 \<noteq> PROP_PROXY"
    by code_simp+
  then have p: "prop_create_multi prop_global [''ui'', ''skin''] prop_init = Some (2, snd (the demo_path))"
    unfolding demo_path_def by auto
  show ?thesis
    using created_path_is_found[OF init_tree _ _ p a(2)] by (simp add: init_fields init_type prop_global_def)
qed

text \<open>Creating a child under a name that exists changes nothing: a second creation returns the
  same property and the same state, for any skipped subscription.\<close>

theorem create_is_idempotent:
  assumes "tree_ok st" "q < pnext st" "type_of st q \<noteq> PROP_PROXY"
    and "prop_create0 q (Some n) sk na st = Some (p, st')"
  shows "prop_create0 q (Some n) sk' False st' = Some (p, st')"
proof -
  note f = create0_facts[OF assms]
  then have d: "is_dir (type_of st' q)" "find_child st' q n = Some p" by auto
  then have "type_of st' q \<noteq> PROP_ZOMBIE" "type_of st' q \<noteq> PROP_PROXY" by auto
  with d show ?thesis by (simp add: prop_create0_def prop_make_dir_def)
qed

definition demo_child :: "(pid \<times> pst) option" where
  "demo_child = prop_create0 prop_global (Some ''a'') None False prop_init"

lemma create_is_idempotent_witness:
  "prop_create0 prop_global (Some ''a'') (Some 7) False (snd (the demo_child)) = Some (1, snd (the demo_child))"
proof -
  have "map_option fst demo_child = Some 1" by code_simp
  then have p: "prop_create0 prop_global (Some ''a'') None False prop_init = Some (1, snd (the demo_child))"
    unfolding demo_child_def by auto
  show ?thesis
    by (rule create_is_idempotent[OF init_tree _ _ p]) (simp_all add: init_fields init_type prop_global_def)
qed

text \<open>C6: Moving a child puts it right before the given sibling, or last when none is given; the
  order of all other children, and the children of every other property, stay as they were.\<close>

theorem move_puts_child_before:
  assumes "tree_ok st" "p \<in> set (hp_childs st q)"
    and "b \<noteq> None \<Longrightarrow> the b \<in> set (hp_childs st q)"
    and "prop_move0 p b sk st = Some st'"
  shows "next_of p (hp_childs st' q) = b \<and> remove1 p (hp_childs st' q) = remove1 p (hp_childs st q)
    \<and> (\<forall>x. x \<noteq> q \<longrightarrow> hp_childs st' x = hp_childs st x)"
  by (rule move_position[OF assms(1,2) _ assms(4)]) (use assms(3) in \<open>auto split: option.split\<close>)

lemma move_puts_child_before_witness: "next_of 2 (hp_childs demo4 prop_global) = Some 1"
proof -
  have t: "tree_ok demo1"
    using subscribe_mirror[OF init_tree init_fresh _ demo_args _ _ _ _ demo1]
    by (auto simp: ordinary_def demo_args_def no_args_def init_fields init_type prop_global_def)
  have ok: "ok (\<lambda>_. True) demo3"
    by (rule tree.exec_ok[OF tree.exec_ok[OF _ _ demo2] _ demo3])
       (simp_all add: demo_oks t ok_def)
  have m: "prop_move0 2 (Some 1) None demo3 = Some demo4" using demo4 by (simp add: demo_op3_def)
  have c: "hp_childs demo3 prop_global = [1, 2]" by code_simp
  show ?thesis using move_puts_child_before[OF okD(2)[OF ok] _ _ m, of prop_global] c by simp
qed

section \<open>Values\<close>

text \<open>An integer property with a clipping range, and a float one.\<close>

definition demo_int :: pst where
  "demo_int = the (prop_set_int_clipping_range (Some prop_global) 0 10
                     (the (prop_set_int_ex (Some prop_global) None 5 demo1)))"

definition demo_float :: pst where
  "demo_float = the (prop_set_float_clipping_range (Some prop_global) (f32_of_int 0) (f32_of_int 10)
                       (the (prop_set_float_exl (Some prop_global) None (f32_of_int 5) demo1)))"

lemma demo_int:
  "type_of demo_int prop_global = PROP_INT 5 (Some (0, 10))"
  "PROP_CLIPPED_VALUE \<in> hp_flags (props demo_int prop_global)"
  by code_simp+

lemma some_of: "(case x of None \<Rightarrow> False | Some y \<Rightarrow> P y) \<Longrightarrow> \<exists>y. x = Some y \<and> P y"
  by (cases x) auto

text \<open>Setting an integer that has a clipping range stores the value clamped to the range,
  whatever the value and whoever is skipped.\<close>

theorem set_int_clamps:
  assumes "type_of st p = PROP_INT i (Some (lo, hi))" "PROP_CLIPPED_VALUE \<in> hp_flags (props st p)"
    and "sint lo \<le> sint i" "sint i \<le> sint hi" and "prop_set_int_exl p sk v st = Some st'"
  shows "\<exists>w. type_of st' p = PROP_INT w (Some (lo, hi)) \<and> sint w = max (sint lo) (min (sint v) (sint hi))"
  by (rule set_int_clipped[OF assms])

lemma set_int_clamps_witness:
  "\<exists>st' w. prop_set_int_exl prop_global None 99 demo_int = Some st'
     \<and> type_of st' prop_global = PROP_INT w (Some (0, 10)) \<and> sint w = 10"
proof -
  have "prop_set_int_exl prop_global None 99 demo_int \<noteq> None" by code_simp
  then obtain st' where r: "prop_set_int_exl prop_global None 99 demo_int = Some st'" by auto
  from set_int_clamps[OF demo_int _ _ r] show ?thesis using r by auto
qed

text \<open>Adding to an integer that has a clipping range stores the sum clamped to the range.\<close>

theorem add_int_clamps:
  assumes "type_of st p = PROP_INT i (Some (lo, hi))" "PROP_CLIPPED_VALUE \<in> hp_flags (props st p)"
    and "sint lo \<le> sint i" "sint i \<le> sint hi" and "prop_add_int_ex (Some p) sk v st = Some st'"
  shows "\<exists>w. type_of st' p = PROP_INT w (Some (lo, hi))
    \<and> sint w = max (sint lo) (min (sint i + sint v) (sint hi))"
  by (rule add_int_clipped[OF assms])

lemma add_int_clamps_witness:
  "\<exists>st' w. prop_add_int_ex (Some prop_global) None (- 7) demo_int = Some st'
     \<and> type_of st' prop_global = PROP_INT w (Some (0, 10)) \<and> sint w = 0"
proof -
  have "prop_add_int_ex (Some prop_global) None (- 7) demo_int \<noteq> None" by code_simp
  then obtain st' where r: "prop_add_int_ex (Some prop_global) None (- 7) demo_int = Some st'" by auto
  from add_int_clamps[OF demo_int _ _ r] show ?thesis using r by auto
qed

text \<open>C9: Setting an integer tells an ordinary subscription of the property exactly once, with the
  value that was stored, and not at all when the value is the one the property has.\<close>

theorem set_int_tells_once:
  assumes "mirror s c st" "hps_value_prop (subs st s) = Some p" "sk \<noteq> Some s"
    and "type_of st p = PROP_INT i r" and "prop_set_int_exl p sk v st = Some st'"
  shows "\<exists>w. type_of st' p = PROP_INT w r \<and>
    stream s c st' = stream s c st @ (if i = v then [] else [mk_notify s EV_SET_INT (NV_int w)])"
  by (rule set_int_announced) (use assms in \<open>auto simp: mirror_def\<close>)

definition demo_set :: pst where
  "demo_set = the (prop_set_int_ex (Some prop_global) None 5 demo1)"

lemma set_int_tells_once_witness:
  "\<exists>st' w. prop_set_int_exl prop_global None 6 demo_set = Some st' \<and> type_of st' prop_global = PROP_INT w None
     \<and> stream 0 0 st' = stream 0 0 demo_set @ [mk_notify 0 EV_SET_INT (NV_int w)]"
proof -
  have m: "mirror 0 0 demo1 \<and> tree_ok demo1"
    by (rule subscribe_mirror[OF init_tree init_fresh _ demo_args _ _ _ _ demo1])
       (auto simp: ordinary_def demo_args_def no_args_def init_fields init_type prop_global_def)
  have "prop_set_int_ex (Some prop_global) None 5 demo1 \<noteq> None" by code_simp
  then have e: "exec (Op_set prop_global (SET_INT 5) None) demo1 = Some demo_set"
    unfolding demo_set_def by (simp add: prop_seti_def prop_set_int_ex_def)
  have "ok (mirror 0 0) demo_set"
    by (rule mirror.exec_ok[OF _ _ e]) (use m in \<open>simp_all add: ok_def\<close>)
  then have ms: "mirror 0 0 demo_set" by (rule okD)
  have v: "hps_value_prop (subs demo_set 0) = Some prop_global" "type_of demo_set prop_global = PROP_INT 5 None"
    "prop_set_int_exl prop_global None 6 demo_set \<noteq> None" by code_simp+
  then obtain st' where r: "prop_set_int_exl prop_global None 6 demo_set = Some st'" by auto
  from set_int_tells_once[OF ms v(1) _ v(2) r] show ?thesis using r by auto
qed

text \<open>C10: The clipping range is not honoured everywhere. Setting an integer on a float property
  with a clipping range stores the value unclipped beside the converted range, and toggling an
  integer stores 0 or 1 whatever its range is.\<close>

theorem clipping_is_skipped:
  "(\<exists>st'. type_of demo_float prop_global = PROP_FLOAT (f32_of_int 5) (Some (f32_of_int 0, f32_of_int 10))
      \<and> PROP_CLIPPED_VALUE \<in> hp_flags (props demo_float prop_global)
      \<and> prop_set_int_exl prop_global None 99 demo_float = Some st'
      \<and> type_of st' prop_global = PROP_INT 99 (Some (0, 10)))
   \<and> (\<exists>st st'. prop_set_int_clipping_range (Some prop_global) 3 10 demo_int = Some st
      \<and> prop_toggle_int_ex (Some prop_global) None st = Some st'
      \<and> type_of st' prop_global = PROP_INT 0 (Some (3, 10)))"
proof
  have "case prop_set_int_exl prop_global None 99 demo_float of None \<Rightarrow> False
      | Some st' \<Rightarrow> type_of st' prop_global = PROP_INT 99 (Some (0, 10))" by code_simp
  from some_of[OF this] show "\<exists>st'. type_of demo_float prop_global
        = PROP_FLOAT (f32_of_int 5) (Some (f32_of_int 0, f32_of_int 10))
      \<and> PROP_CLIPPED_VALUE \<in> hp_flags (props demo_float prop_global)
      \<and> prop_set_int_exl prop_global None 99 demo_float = Some st'
      \<and> type_of st' prop_global = PROP_INT 99 (Some (0, 10))"
  proof -
    have "type_of demo_float prop_global = PROP_FLOAT (f32_of_int 5) (Some (f32_of_int 0, f32_of_int 10))"
      "PROP_CLIPPED_VALUE \<in> hp_flags (props demo_float prop_global)" by code_simp+
    then show ?thesis using some_of[OF \<open>case prop_set_int_exl prop_global None 99 demo_float of None \<Rightarrow> False
      | Some st' \<Rightarrow> type_of st' prop_global = PROP_INT 99 (Some (0, 10))\<close>] by blast
  qed
  have "case prop_set_int_clipping_range (Some prop_global) 3 10 demo_int of None \<Rightarrow> False
      | Some st \<Rightarrow> (case prop_toggle_int_ex (Some prop_global) None st of None \<Rightarrow> False
         | Some st' \<Rightarrow> type_of st' prop_global = PROP_INT 0 (Some (3, 10)))" by code_simp
  then show "\<exists>st st'. prop_set_int_clipping_range (Some prop_global) 3 10 demo_int = Some st
      \<and> prop_toggle_int_ex (Some prop_global) None st = Some st'
      \<and> type_of st' prop_global = PROP_INT 0 (Some (3, 10))"
    by (auto split: option.splits)
qed

section \<open>Failures\<close>

text \<open>C11: Unselecting crashes: with a single queued subscription on the directory,
  \<open>prop_unselect_ex\<close> increments the reference count of a null property, whatever the state.\<close>

theorem unselect_aborts_when_watched:
  assumes "s \<in> set (hp_value_subscriptions (props st p))" "PROP_SUB_INTERNAL \<notin> hps_flags (subs st s)"
    and "sk \<noteq> Some s" "is_dir (type_of st p)"
  shows "prop_unselect_ex p sk st = None"
  using child2_null_aborts[of s st p sk] assms by (auto simp: prop_unselect_ex_def is_internal_def)

lemma unselect_aborts_when_watched_witness: "prop_unselect_ex prop_global None demo5 = None"
proof -
  have "0 \<in> set (hp_value_subscriptions (props demo5 prop_global))"
    "PROP_SUB_INTERNAL \<notin> hps_flags (subs demo5 0)" "is_dir (type_of demo5 prop_global)" by code_simp+
  from unselect_aborts_when_watched[OF this(1,2) _ this(3)] show ?thesis by simp
qed

text \<open>C12: \<open>prop_create_after\<close> announces wrongly: a child created at the head of a directory that
  has children is announced as if it had been appended, so that the list of every faithful
  subscription differs from the property's from then on.\<close>

theorem create_after_misleads:
  assumes "mirror s c st" "tree_ok st" "hps_value_prop (subs st s) = Some q" "sk \<noteq> Some s"
    and "is_dir (type_of st q)" "hp_childs st q \<noteq> []" "find_child st q n = None"
    and "prop_create_after (Some q) n None sk st = Some (po, st')"
  shows "\<exists>p. po = Some p \<and> hp_childs st' q = p # hp_childs st q
    \<and> replay (stream s c st') = hp_childs st q @ [p]"
proof -
  obtain x xs where "hp_childs st q = x # xs" using assms(6) by (cases "hp_childs st q") auto
  from create_after_head[OF assms(1,3,4,5) this assms(7,2,8)] show ?thesis .
qed

lemma create_after_misleads_witness:
  "\<exists>st'. prop_create_after (Some prop_global) ''c'' None None demo4 = Some (Some 3, st')
     \<and> hp_childs st' prop_global = [3, 2, 1] \<and> replay (stream 0 0 st') = [2, 1, 3]"
proof -
  have m1: "mirror 0 0 demo1 \<and> tree_ok demo1"
    by (rule subscribe_mirror[OF init_tree init_fresh _ demo_args _ _ _ _ demo1])
       (auto simp: ordinary_def demo_args_def no_args_def init_fields init_type prop_global_def)
  have m: "mirror 0 0 demo4 \<and> tree_ok demo4" using session_mirror[OF demo_session] m1 by blast
  have v: "hps_value_prop (subs demo4 0) = Some prop_global" "is_dir (type_of demo4 prop_global)"
    "hp_childs demo4 prop_global = [2, 1]" "find_child demo4 prop_global ''c'' = None" by code_simp+
  have "case prop_create_after (Some prop_global) ''c'' None None demo4 of None \<Rightarrow> False
      | Some r \<Rightarrow> fst r = Some 3" by code_simp
  then obtain st' where r: "prop_create_after (Some prop_global) ''c'' None None demo4 = Some (Some 3, st')"
    by (auto split: option.splits)
  from create_after_misleads[OF conjunct1[OF m] conjunct2[OF m] v(1) _ v(2) _ v(4) r] v(3) r
  show ?thesis by auto
qed

section \<open>Numbers as text\<close>

text \<open>The decimal text of any 32-bit integer, stored as a string, is read back by
  \<open>prop_get_int\<close> as that integer.\<close>

theorem get_int_reads_decimal:
  "prop_get_int p [] (set_type p (PROP_CSTRING (int_dec (sint (i :: i32)))) st) = Some (sint i)"
proof -
  have "- (2 ^ 31) \<le> sint i" "sint i < 2 ^ 31" using sint_range_size[of i] by (simp_all add: word_size)
  then show ?thesis by (simp add: prop_get_int_def int_value_def c_atoi_int_dec)
qed

end
