(* ===== verification/Dispatch.thy ===== *)
theory Dispatch
  imports Prop_Courier
begin

text \<open>
  The global dispatch threads of \<open>src/prop/prop_core.c\<close> (\<open>prop_global_dispatch_thread\<close> and
  \<open>prop_global_dispatch_wakeup\<close>) as a step relation. A thread holds \<open>prop_mutex\<close> except while it
  delivers a notification, so its loop is cut at the points where it drops the mutex: taking a
  dispatch structure off the queue, trying to deliver, deciding what to do after a refused lock,
  delivering with the lock, and the end of the round. Between two steps of a thread anything else
  may run: other threads, new notifications, and operations that queue nothing. The pair of a
  lock manager and its lock is one lock identifier.
\<close>

section \<open>State\<close>

datatype dthread =
    DT_loop
  | DT_asleep
  | DT_woken
  | DT_try did prop_notify_t
  | DT_busy did prop_notify_t
  | DT_lock did prop_notify_t
  | DT_done did prop_notify_t
  | DT_exit

text \<open>\<open>g_sent\<close> and \<open>g_handled\<close> record what was queued for dispatch threads and what they handled.\<close>

record gst =
  g_pst :: pst
  g_dispatching :: "did list"
  g_running :: nat
  g_avail :: nat
  g_threads :: "dthread list"
  g_sent :: "prop_notify_t list"
  g_handled :: "prop_notify_t list"

definition idle_threads :: nat where "idle_threads = 4"
definition max_threads :: nat where "max_threads = 8"

abbreviation g_queue :: "gst \<Rightarrow> did list" where
  "g_queue g \<equiv> prop_global_dispatch_queue (g_pst g)"

definition nots :: "gst \<Rightarrow> did \<Rightarrow> prop_notify_t list" where
  "nots g d = psd_notifications (psds (g_pst g) d)"

definition waits :: "gst \<Rightarrow> did \<Rightarrow> did list" where
  "waits g d = psd_wait_queue (psds (g_pst g) d)"

definition set_queue :: "did list \<Rightarrow> gst \<Rightarrow> gst" where
  "set_queue q g = g\<lparr>g_pst := (g_pst g)\<lparr>prop_global_dispatch_queue := q\<rparr>\<rparr>"

definition set_nots :: "did \<Rightarrow> prop_notify_t list \<Rightarrow> gst \<Rightarrow> gst" where
  "set_nots d ns g = g\<lparr>g_pst := upd_psd d (\<lambda>x. x\<lparr>psd_notifications := ns\<rparr>) (g_pst g)\<rparr>"

definition set_waits :: "did \<Rightarrow> did list \<Rightarrow> gst \<Rightarrow> gst" where
  "set_waits d ws g = g\<lparr>g_pst := upd_psd d (\<lambda>x. x\<lparr>psd_wait_queue := ws\<rparr>) (g_pst g)\<rparr>"

definition set_thread :: "nat \<Rightarrow> dthread \<Rightarrow> gst \<Rightarrow> gst" where
  "set_thread t th g = g\<lparr>g_threads := (g_threads g)[t := th]\<rparr>"

section \<open>Waking a thread\<close>

text \<open>
  \<open>prop_global_dispatch_wakeup\<close>: \<open>w\<close> is the sleeper the signal reaches. A sleeper that has been
  signalled still counts in \<open>g_avail\<close> until it runs.
\<close>

definition wakeup :: "nat \<Rightarrow> gst \<Rightarrow> gst option" where
  "wakeup w g =
     (if 0 < g_avail g then
        (if w < length (g_threads g) \<and> g_threads g ! w = DT_asleep then Some (set_thread w DT_woken g)
         else if DT_asleep \<in> set (g_threads g) then None
         else Some g)
      else if g_running g < max_threads
           then Some (g\<lparr>g_running := g_running g + 1, g_threads := g_threads g @ [DT_loop]\<rparr>)
      else Some g)"

text \<open>\<open>courier_enqueue0\<close> wakes a thread when it inserts the dispatch structure into the queue.\<close>

definition inserts_psd :: "sid \<Rightarrow> pst \<Rightarrow> bool" where
  "inserts_psd s p =
     (case hps_dispatch (subs p s) of
        MODE_COURIER _ \<Rightarrow> False
      | MODE_GLOBAL d \<Rightarrow> d = None
      | MODE_GROUP d \<Rightarrow> psd_notifications (psds p d) = [])"

definition g_enqueue :: "prop_notify_t \<Rightarrow> bool \<Rightarrow> nat \<Rightarrow> gst \<Rightarrow> gst option" where
  "g_enqueue n ex w g =
     (let s = hpn_sub n; p = g_pst g;
          g' = g\<lparr>g_pst := courier_enqueue0 s n ex p,
                 g_sent := (case hps_dispatch (subs p s) of MODE_COURIER _ \<Rightarrow> g_sent g
                            | _ \<Rightarrow> g_sent g @ [n])\<rparr>
      in if inserts_psd s p then wakeup w g' else Some g')"

section \<open>One step of a thread\<close>

text \<open>
  Another structure being dispatched whose first notification waits for the same lock; meeting
  the structure itself, or one with nothing to deliver, is a failed assertion.
\<close>

definition contends :: "gst \<Rightarrow> prop_notify_t \<Rightarrow> prop_notify_t \<Rightarrow> bool" where
  "contends g n n2 \<longleftrightarrow>
     \<not> hps_zombie (subs (g_pst g) (hpn_sub n2)) \<and> \<not> hps_zombie (subs (g_pst g) (hpn_sub n))
     \<and> hps_lock (subs (g_pst g) (hpn_sub n2)) = hps_lock (subs (g_pst g) (hpn_sub n))"

fun find_contender :: "gst \<Rightarrow> did \<Rightarrow> prop_notify_t \<Rightarrow> did list \<Rightarrow> did option option" where
  "find_contender g d n [] = Some None"
| "find_contender g d n (s # ss) =
     (if s = d then None
      else case nots g s of
             [] \<Rightarrow> None
           | n2 # _ \<Rightarrow> if contends g n n2 then Some (Some s) else find_contender g d n ss)"

text \<open>The end of a round: \<open>n\<close> is off the structure \<open>d\<close>, which leaves or goes to the end of the queue.\<close>

definition pop_waiter :: "did \<Rightarrow> gst \<Rightarrow> gst" where
  "pop_waiter d g =
     (case waits g d of
        [] \<Rightarrow> g
      | s # ws \<Rightarrow> set_waits d [] (set_waits s (waits g s @ ws) (set_queue (g_queue g @ [s]) g)))"

definition retire :: "did \<Rightarrow> prop_notify_t \<Rightarrow> gst \<Rightarrow> gst" where
  "retire d n g =
     (if nots g d = [] then
        (case hps_dispatch (subs (g_pst g) (hpn_sub n)) of
           MODE_GLOBAL _ \<Rightarrow>
             g\<lparr>g_pst := upd_sub (hpn_sub n) (\<lambda>x. x\<lparr>hps_dispatch := MODE_GLOBAL None\<rparr>) (g_pst g)\<rparr>
         | _ \<Rightarrow> g)
      else set_queue (g_queue g @ [d]) g)"

definition end_round :: "nat \<Rightarrow> did \<Rightarrow> prop_notify_t \<Rightarrow> gst \<Rightarrow> gst" where
  "end_round t d n g =
     (let g1 = g\<lparr>g_dispatching := remove1 d (g_dispatching g)\<rparr>;
          g2 = retire d n (pop_waiter d (set_nots d (tl (nots g1 d)) g1))
      in set_thread t DT_loop
           (g2\<lparr>g_pst := prop_sub_ref_dec_locked (hpn_sub n) (g_pst g2)\<rparr>))"

definition deliver :: "nat \<Rightarrow> nat set \<Rightarrow> lockmode \<Rightarrow> did \<Rightarrow> prop_notify_t \<Rightarrow> gst \<Rightarrow> gst option" where
  "deliver t busy mode d n g =
     (case prop_dispatch_one busy n mode (g_pst g) of
        None \<Rightarrow> None
      | Some (True, _) \<Rightarrow> Some (set_thread t (DT_busy d n) g)
      | Some (False, p) \<Rightarrow>
          Some (set_thread t (DT_done d n) (g\<lparr>g_pst := p, g_handled := g_handled g @ [n]\<rparr>)))"

definition run_thread :: "nat \<Rightarrow> nat set \<Rightarrow> gst \<Rightarrow> gst option" where
  "run_thread t busy g =
     (if length (g_threads g) \<le> t then None
      else case g_threads g ! t of
        DT_loop \<Rightarrow>
          (case g_queue g of
             [] \<Rightarrow>
               if g_avail g = idle_threads
               then Some (set_thread t DT_exit (g\<lparr>g_running := g_running g - 1\<rparr>))
               else Some (set_thread t DT_asleep (g\<lparr>g_avail := g_avail g + 1\<rparr>))
           | d # ds \<Rightarrow>
               (case nots g d of
                  [] \<Rightarrow> None
                | n # _ \<Rightarrow>
                    Some (set_thread t (DT_try d n)
                            ((set_queue ds g)\<lparr>g_dispatching := g_dispatching g @ [d]\<rparr>))))
      | DT_woken \<Rightarrow> Some (set_thread t DT_loop (g\<lparr>g_avail := g_avail g - 1\<rparr>))
      | DT_try d n \<Rightarrow> deliver t busy LOCKMGR_TRY d n g
      | DT_busy d n \<Rightarrow>
          (let g1 = g\<lparr>g_dispatching := remove1 d (g_dispatching g)\<rparr>
           in case find_contender g1 d n (g_dispatching g1) of
                None \<Rightarrow> None
              | Some (Some s) \<Rightarrow> Some (set_thread t DT_loop (set_waits s (waits g1 s @ [d]) g1))
              | Some None \<Rightarrow>
                  Some (set_thread t (DT_lock d n)
                          (g1\<lparr>g_dispatching := g_dispatching g1 @ [d]\<rparr>)))
      | DT_lock d n \<Rightarrow> deliver t {} LOCKMGR_LOCK d n g
      | DT_done d n \<Rightarrow> Some (end_round t d n g)
      | _ \<Rightarrow> None)"

section \<open>The system\<close>

text \<open>
  What other code may do to the property system between two steps without queueing anything for a
  dispatch thread: anything that leaves the dispatch structures and their queue alone, makes
  empty groups, and attaches only subscriptions that have nothing pending.
\<close>

definition env_ok :: "pst \<Rightarrow> pst \<Rightarrow> bool" where
  "env_ok p p' \<longleftrightarrow>
     psdnext p \<le> psdnext p' \<and> prop_global_dispatch_queue p' = prop_global_dispatch_queue p \<and>
     (\<forall>d < psdnext p. psd_notifications (psds p' d) = psd_notifications (psds p d)
                     \<and> psd_wait_queue (psds p' d) = psd_wait_queue (psds p d)) \<and>
     (\<forall>d. psdnext p \<le> d \<and> d < psdnext p' \<longrightarrow>
          psd_notifications (psds p' d) = [] \<and> psd_wait_queue (psds p' d) = []) \<and>
     (\<forall>s. hps_dispatch (subs p' s) = hps_dispatch (subs p s) \<or>
          (\<forall>d. hps_dispatch (subs p s) \<noteq> MODE_GLOBAL (Some d)) \<and>
          (\<forall>d < psdnext p. \<forall>n \<in> set (psd_notifications (psds p d)). hpn_sub n \<noteq> s) \<and>
          (case hps_dispatch (subs p' s) of
             MODE_COURIER _ \<Rightarrow> True | MODE_GLOBAL d \<Rightarrow> d = None | MODE_GROUP d \<Rightarrow>
               d < psdnext p' \<and> (\<forall>s'. hps_dispatch (subs p s') \<noteq> MODE_GLOBAL (Some d))))"

inductive g_step :: "gst \<Rightarrow> gst \<Rightarrow> bool" where
  g_thread: "run_thread t busy g = Some g' \<Longrightarrow> g_step g g'"
| g_queued: "g_enqueue n ex w g = Some g' \<Longrightarrow> g_step g g'"
| g_other: "env_ok (g_pst g) p' \<Longrightarrow> g_step g (g\<lparr>g_pst := p'\<rparr>)"

inductive g_reach :: "gst \<Rightarrow> gst \<Rightarrow> bool" for g0 where
  g_reach_init: "g_reach g0 g0"
| g_reach_step: "g_reach g0 g \<Longrightarrow> g_step g g' \<Longrightarrow> g_reach g0 g'"

inductive_cases g_stepE: "g_step g g'"

definition g_init :: "pst \<Rightarrow> gst" where
  "g_init p = \<lparr>g_pst = p, g_dispatching = [], g_running = 0, g_avail = 0, g_threads = [],
               g_sent = [], g_handled = []\<rparr>"

end
