(* ===== verification/Dispatch_Inv.thy ===== *)
theory Dispatch_Inv
  imports Dispatch
begin

text \<open>
  The invariant of the dispatch threads: every dispatch structure with something to deliver is in
  exactly one place (the queue, the list of those being dispatched, or the wait queue of another),
  those being dispatched are each held by exactly one thread, and each subscription gets its
  notifications in the order they were queued.
\<close>

named_theorems disp_simps "what the steps do to the dispatch structures"

section \<open>What delivery leaves alone\<close>

definition same_disp :: "pst \<Rightarrow> pst \<Rightarrow> bool" where
  "same_disp p p' \<longleftrightarrow> psdnext p' = psdnext p \<and> prop_global_dispatch_queue p' = prop_global_dispatch_queue p
     \<and> (\<forall>d. psd_notifications (psds p' d) = psd_notifications (psds p d)
          \<and> psd_wait_queue (psds p' d) = psd_wait_queue (psds p d))
     \<and> (\<forall>s. hps_dispatch (subs p' s) = hps_dispatch (subs p s))"

lemma same_disp_refl [simp]: "same_disp p p"
  by (simp add: same_disp_def)

lemma same_disp_trans: "same_disp p p' \<Longrightarrow> same_disp p' p'' \<Longrightarrow> same_disp p p''"
  by (simp add: same_disp_def)

lemma same_disp_calls [simp]: "same_disp p (p'\<lparr>calls := x\<rparr>) = same_disp p p'"
  "same_disp (p\<lparr>calls := x\<rparr>) p' = same_disp p p'"
  by (simp_all add: same_disp_def)

lemma ref_dec_disp: "prop_ref_dec_locked po st = Some st' \<Longrightarrow> same_disp st st'"
  by (cases po) (auto simp: prop_ref_dec_locked_def same_disp_def Let_def split: if_splits)

lemma vec_release_disp: "prop_vec_release pv st = Some st' \<Longrightarrow> same_disp st st'"
proof -
  have o: "ofold (\<lambda>p. prop_ref_dec_locked (Some p)) ps u = Some w \<Longrightarrow> same_disp u w" for ps u w
    by (rule ofold_invariant[where P = "same_disp u"]) (auto dest: ref_dec_disp intro: same_disp_trans)
  show "prop_vec_release pv st = Some st' \<Longrightarrow> same_disp st st'"
    by (auto simp: prop_vec_release_def Let_def split: if_splits dest!: o) (auto simp: same_disp_def)
qed

lemma release_disp: "release_propv v st = Some st' \<Longrightarrow> same_disp st st'"
  using vec_release_disp by (auto simp: release_propv_def split: notify_val.splits)

lemma free_payload_disp: "prop_notify_free_payload n st = Some st' \<Longrightarrow> same_disp st st'"
  by (auto simp: prop_notify_free_payload_def bind_eq_Some_conv split: prop_event.splits
      dest!: ref_dec_disp release_disp intro: same_disp_trans)

lemma invoke_disp: "notify_invoke n st = Some st' \<Longrightarrow> same_disp st st'"
  by (auto simp: notify_invoke_def Let_def bind_eq_Some_conv split: prop_event.splits
      dest!: ref_dec_disp release_disp intro: same_disp_trans)

lemma dispatch_one_disp: "prop_dispatch_one busy n m st = Some (r, st') \<Longrightarrow> same_disp st st'"
  using free_payload_disp invoke_disp
  by (auto simp: prop_dispatch_one_def Let_def split: if_splits)

lemma sub_ref_dec_disp: "same_disp st (prop_sub_ref_dec_locked s st)"
  by (auto simp: prop_sub_ref_dec_locked_def prop_psd_release_def same_disp_def Let_def split: dispatch.split)

section \<open>Access\<close>

lemma set_sel [disp_simps, simp]:
  "nots (set_queue q g) = nots g" "waits (set_queue q g) = waits g" "g_queue (set_queue q g) = q"
  "nots (set_nots d ns g) = (nots g)(d := ns)" "waits (set_nots d ns g) = waits g"
  "g_queue (set_nots d ns g) = g_queue g"
  "nots (set_waits d ws g) = nots g" "waits (set_waits d ws g) = (waits g)(d := ws)"
  "g_queue (set_waits d ws g) = g_queue g"
  "psdnext (g_pst (set_queue q g)) = psdnext (g_pst g)" "psdnext (g_pst (set_nots d ns g)) = psdnext (g_pst g)"
  "psdnext (g_pst (set_waits d ws g)) = psdnext (g_pst g)"
  "subs (g_pst (set_queue q g)) = subs (g_pst g)" "subs (g_pst (set_nots d ns g)) = subs (g_pst g)"
  "subs (g_pst (set_waits d ws g)) = subs (g_pst g)"
  "g_pst (set_thread t th g) = g_pst g" "nots (set_thread t th g) = nots g" "waits (set_thread t th g) = waits g"
  by (auto simp: set_queue_def set_nots_def set_waits_def set_thread_def nots_def waits_def fun_eq_iff upd_psd_def)

lemma set_rest [disp_simps, simp]:
  "g_dispatching (set_queue q g) = g_dispatching g" "g_dispatching (set_nots d ns g) = g_dispatching g"
  "g_dispatching (set_waits d ws g) = g_dispatching g" "g_dispatching (set_thread t th g) = g_dispatching g"
  "g_threads (set_queue q g) = g_threads g" "g_threads (set_nots d ns g) = g_threads g"
  "g_threads (set_waits d ws g) = g_threads g" "g_threads (set_thread t th g) = (g_threads g)[t := th]"
  "g_running (set_queue q g) = g_running g" "g_running (set_nots d ns g) = g_running g"
  "g_running (set_waits d ws g) = g_running g" "g_running (set_thread t th g) = g_running g"
  "g_avail (set_queue q g) = g_avail g" "g_avail (set_nots d ns g) = g_avail g"
  "g_avail (set_waits d ws g) = g_avail g" "g_avail (set_thread t th g) = g_avail g"
  "g_sent (set_queue q g) = g_sent g" "g_sent (set_nots d ns g) = g_sent g"
  "g_sent (set_waits d ws g) = g_sent g" "g_sent (set_thread t th g) = g_sent g"
  "g_handled (set_queue q g) = g_handled g" "g_handled (set_nots d ns g) = g_handled g"
  "g_handled (set_waits d ws g) = g_handled g" "g_handled (set_thread t th g) = g_handled g"
  by (simp_all add: set_queue_def set_nots_def set_waits_def set_thread_def)

lemma upd_rest [simp]:
  "nots (g\<lparr>g_dispatching := x\<rparr>) = nots g" "waits (g\<lparr>g_dispatching := x\<rparr>) = waits g"
  "nots (g\<lparr>g_running := y\<rparr>) = nots g" "waits (g\<lparr>g_running := y\<rparr>) = waits g"
  "nots (g\<lparr>g_avail := y\<rparr>) = nots g" "waits (g\<lparr>g_avail := y\<rparr>) = waits g"
  "nots (g\<lparr>g_threads := th\<rparr>) = nots g" "waits (g\<lparr>g_threads := th\<rparr>) = waits g"
  "nots (g\<lparr>g_sent := l\<rparr>) = nots g" "waits (g\<lparr>g_sent := l\<rparr>) = waits g"
  "nots (g\<lparr>g_handled := l\<rparr>) = nots g" "waits (g\<lparr>g_handled := l\<rparr>) = waits g"
  by (simp_all add: nots_def waits_def fun_eq_iff)

lemma same_disp_sel:
  assumes "same_disp (g_pst g) p"
  shows "nots (g\<lparr>g_pst := p\<rparr>) = nots g" "waits (g\<lparr>g_pst := p\<rparr>) = waits g"
    "prop_global_dispatch_queue p = g_queue g" "psdnext p = psdnext (g_pst g)"
    "hps_dispatch (subs p s) = hps_dispatch (subs (g_pst g) s)"
  using assms by (auto simp: same_disp_def nots_def waits_def fun_eq_iff)

section \<open>The invariant\<close>

definition pend :: "gst \<Rightarrow> did \<Rightarrow> bool" where
  "pend g d \<longleftrightarrow> d < psdnext (g_pst g) \<and> nots g d \<noteq> []"

text \<open>In how many places a structure is.\<close>

definition places :: "gst \<Rightarrow> did \<Rightarrow> nat" where
  "places g d = count_list (g_queue g) d + count_list (g_dispatching g) d
     + (\<Sum>e < psdnext (g_pst g). count_list (waits g e) d)"

fun holds :: "dthread \<Rightarrow> (did \<times> prop_notify_t) option" where
  "holds (DT_try d n) = Some (d, n)"
| "holds (DT_busy d n) = Some (d, n)"
| "holds (DT_lock d n) = Some (d, n)"
| "holds (DT_done d n) = Some (d, n)"
| "holds _ = None"

definition held1 :: "did \<Rightarrow> dthread \<Rightarrow> nat" where
  "held1 d th = (case holds th of Some (e, _) \<Rightarrow> if e = d then 1 else 0 | None \<Rightarrow> 0)"

definition held :: "gst \<Rightarrow> did \<Rightarrow> nat" where
  "held g d = sum_list (map (held1 d) (g_threads g))"

text \<open>A subscription in global mode owns its structure; a group's structure serves many.\<close>

definition owned :: "gst \<Rightarrow> bool" where
  "owned g \<longleftrightarrow>
     (\<forall>s d. hps_dispatch (subs (g_pst g) s) = MODE_GLOBAL (Some d) \<longrightarrow> pend g d) \<and>
     (\<forall>s d. hps_dispatch (subs (g_pst g) s) = MODE_GROUP d \<longrightarrow> d < psdnext (g_pst g)) \<and>
     (\<forall>s s' d. hps_dispatch (subs (g_pst g) s) = MODE_GLOBAL (Some d) \<longrightarrow>
        hps_dispatch (subs (g_pst g) s') = MODE_GLOBAL (Some d) \<longrightarrow> s = s') \<and>
     (\<forall>s s' d. hps_dispatch (subs (g_pst g) s) = MODE_GLOBAL (Some d) \<longrightarrow>
        hps_dispatch (subs (g_pst g) s') \<noteq> MODE_GROUP d) \<and>
     (\<forall>d < psdnext (g_pst g). \<forall>n \<in> set (nots g d).
        hps_dispatch (subs (g_pst g) (hpn_sub n)) = MODE_GLOBAL (Some d)
        \<or> hps_dispatch (subs (g_pst g) (hpn_sub n)) = MODE_GROUP d)"

definition core :: "gst \<Rightarrow> bool" where
  "core g \<longleftrightarrow> (\<forall>d. places g d = (if pend g d then 1 else 0))
     \<and> (\<forall>d. held g d = count_list (g_dispatching g) d)
     \<and> (\<forall>th \<in> set (g_threads g). \<forall>d n. holds th = Some (d, n) \<longrightarrow> (\<exists>ns. nots g d = n # ns))
     \<and> owned g"

lemma coreD:
  assumes "core g"
  shows "places g d = (if pend g d then 1 else 0)" "held g d = count_list (g_dispatching g) d"
    "th \<in> set (g_threads g) \<Longrightarrow> holds th = Some (d, n) \<Longrightarrow> \<exists>ns. nots g d = n # ns" "owned g"
  using assms by (auto simp: core_def)

lemma ownedD:
  assumes "owned g"
  shows "hps_dispatch (subs (g_pst g) s) = MODE_GLOBAL (Some d) \<Longrightarrow> pend g d"
    "hps_dispatch (subs (g_pst g) s) = MODE_GROUP d \<Longrightarrow> d < psdnext (g_pst g)"
    "hps_dispatch (subs (g_pst g) s) = MODE_GLOBAL (Some d) \<Longrightarrow>
      hps_dispatch (subs (g_pst g) s') = MODE_GLOBAL (Some d) \<Longrightarrow> s = s'"
    "hps_dispatch (subs (g_pst g) s) = MODE_GLOBAL (Some d) \<Longrightarrow> hps_dispatch (subs (g_pst g) s') \<noteq> MODE_GROUP d"
    "d < psdnext (g_pst g) \<Longrightarrow> n \<in> set (nots g d) \<Longrightarrow>
      hps_dispatch (subs (g_pst g) (hpn_sub n)) = MODE_GLOBAL (Some d)
      \<or> hps_dispatch (subs (g_pst g) (hpn_sub n)) = MODE_GROUP d"
  using assms by (auto simp: owned_def)

text \<open>Equal views give equal invariants.\<close>

definition same_view :: "gst \<Rightarrow> gst \<Rightarrow> bool" where
  "same_view g g' \<longleftrightarrow> same_disp (g_pst g) (g_pst g') \<and> g_dispatching g' = g_dispatching g"

lemma same_view_sel:
  assumes "same_view g g'"
  shows "nots g' = nots g" "waits g' = waits g" "g_queue g' = g_queue g"
    "psdnext (g_pst g') = psdnext (g_pst g)" "g_dispatching g' = g_dispatching g"
    "hps_dispatch (subs (g_pst g') s) = hps_dispatch (subs (g_pst g) s)"
    "pend g' d = pend g d" "places g' d = places g d" "owned g' = owned g"
proof -
  from assms show v: "nots g' = nots g" "waits g' = waits g" "g_queue g' = g_queue g"
    "psdnext (g_pst g') = psdnext (g_pst g)" "g_dispatching g' = g_dispatching g"
    and h: "hps_dispatch (subs (g_pst g') s) = hps_dispatch (subs (g_pst g) s)" for s
    by (auto simp: same_view_def same_disp_def nots_def waits_def fun_eq_iff)
  show p: "pend g' d = pend g d" for d using v by (simp add: pend_def)
  show "places g' d = places g d" using v by (simp add: places_def)
  show "owned g' = owned g" unfolding owned_def by (simp add: v h p)
qed

lemma core_view:
  assumes "core g" "same_view g g'" "\<And>d. held g' d = held g d"
    "\<And>th d n. th \<in> set (g_threads g') \<Longrightarrow> holds th = Some (d, n) \<Longrightarrow> \<exists>ns. nots g d = n # ns"
  shows "core g'"
  using assms(1,3,4) same_view_sel[OF assms(2)] by (simp add: core_def)

lemma held_set_thread:
  assumes "t < length (g_threads g)"
  shows "held (set_thread t th g) d + held1 d (g_threads g ! t) = held g d + held1 d th"
proof -
  have "sum_list (map (held1 d) (xs[t := th])) + held1 d (xs ! t) = sum_list (map (held1 d) xs) + held1 d th"
    if "t < length xs" for xs
    using that
  proof (induction xs arbitrary: t)
    case (Cons x xs) then show ?case by (cases t) (auto simp: add.commute add.left_commute)
  qed simp
  from this[OF assms] show ?thesis by (simp add: held_def set_thread_def)
qed

text \<open>What a thread holds is being dispatched, and pending.\<close>

lemma held_pend:
  assumes c: "core g" and th: "th \<in> set (g_threads g)" "holds th = Some (d, n)"
  shows "pend g d" "d \<in> set (g_dispatching g)"
proof -
  have "held1 d th \<le> held g d"
    unfolding held_def by (rule member_le_sum_list) (use th(1) in auto)
  moreover have "held1 d th = 1" using th(2) by (simp add: held1_def)
  ultimately have d: "0 < count_list (g_dispatching g) d" using coreD(2)[OF c, of d] by simp
  then show "d \<in> set (g_dispatching g)" by (metis count_list_0_iff less_irrefl)
  from d have "0 < places g d" by (simp add: places_def)
  then show "pend g d" using coreD(1)[OF c, of d] by (simp split: if_splits)
qed

lemma thread_in: "t < length (g_threads g) \<Longrightarrow> g_threads g ! t = th \<Longrightarrow> th \<in> set (g_threads g)"
  by auto

lemma set_thread_in: "th' \<in> set ((g_threads g)[t := th]) \<Longrightarrow> th' = th \<or> th' \<in> set (g_threads g)"
  by (meson insertE set_update_subset_insert subset_iff)

text \<open>A thread that changes what it does, but not what it holds.\<close>

lemma core_same_hold:
  assumes c: "core g" and t: "t < length (g_threads g)" and v: "same_view g g'"
    and e: "g_threads g' = (g_threads g)[t := th]" "holds th = holds (g_threads g ! t)"
  shows "core g'"
proof (rule core_view[OF c v])
  fix d
  have "held g' d = held (set_thread t th g) d" by (simp add: held_def e(1))
  then show "held g' d = held g d"
    using held_set_thread[OF t, of th d] e(2) by (simp add: held1_def)
next
  fix x d n assume "x \<in> set (g_threads g')" "holds x = Some (d, n)"
  then show "\<exists>ns. nots g d = n # ns"
    using set_thread_in[of x g t th] e coreD(3)[OF c, of _ d n] thread_in[OF t] by auto
qed

lemma wakeup_cases:
  assumes "wakeup w g = Some g'"
  shows "same_view g g' \<and> g_sent g' = g_sent g \<and> g_handled g' = g_handled g \<and>
    (g' = g \<or> w < length (g_threads g) \<and> g_threads g ! w = DT_asleep \<and> g_threads g' = (g_threads g)[w := DT_woken]
     \<or> g_threads g' = g_threads g @ [DT_loop])"
  using assms by (auto simp: wakeup_def same_view_def split: if_splits)

lemma core_wakeup:
  assumes c: "core g" and w: "wakeup w g = Some g'" shows "core g'"
proof -
  note W = wakeup_cases[OF w]
  consider "g' = g" | "w < length (g_threads g)" "g_threads g ! w = DT_asleep" "g_threads g' = (g_threads g)[w := DT_woken]"
    | "g_threads g' = g_threads g @ [DT_loop]" using W by blast
  then show ?thesis
  proof cases
    case 1 with c show ?thesis by simp
  next
    case 2
    show ?thesis by (rule core_same_hold[OF c 2(1) _ 2(3)]) (use W 2(2) in simp_all)
  next
    case 3
    show ?thesis
      by (rule core_view[OF c]) (use W 3 coreD(3)[OF c] in \<open>auto simp: held_def held1_def\<close>)
  qed
qed

section \<open>Queueing\<close>

text \<open>What queueing does, by the mode of the subscription.\<close>

lemma enqueue_courier:
  "hps_dispatch (subs p s) = MODE_COURIER c \<Longrightarrow> same_disp p (courier_enqueue0 s n ex p)"
  by (simp add: courier_enqueue0_def same_disp_def upd_defs)

lemma enqueue_new:
  fixes p :: pst and n :: prop_notify_t and ex :: bool
  assumes "hps_dispatch (subs p s) = MODE_GLOBAL None"
  defines "p' \<equiv> courier_enqueue0 s n ex p"
  shows "psdnext p' = Suc (psdnext p)"
    "prop_global_dispatch_queue p' = prop_global_dispatch_queue p @ [psdnext p]"
    "psd_notifications (psds p' d) = (if d = psdnext p then [n] else psd_notifications (psds p d))"
    "psd_wait_queue (psds p' d) = (if d = psdnext p then [] else psd_wait_queue (psds p d))"
    "hps_dispatch (subs p' s') = (if s' = s then MODE_GLOBAL (Some (psdnext p)) else hps_dispatch (subs p s'))"
  using assms(1) by (simp_all add: p'_def courier_enqueue0_def Let_def upd_defs)

lemma enqueue_more:
  fixes p :: pst and n :: prop_notify_t and ex :: bool
  assumes "hps_dispatch (subs p s) = MODE_GLOBAL (Some e)
    \<or> hps_dispatch (subs p s) = MODE_GROUP e"
  defines "p' \<equiv> courier_enqueue0 s n ex p"
  shows "psdnext p' = psdnext p"
    "prop_global_dispatch_queue p' = prop_global_dispatch_queue p
       @ (if hps_dispatch (subs p s) = MODE_GROUP e \<and> psd_notifications (psds p e) = [] then [e] else [])"
    "psd_notifications (psds p' d) = psd_notifications (psds p d) @ (if d = e then [n] else [])"
    "psd_wait_queue (psds p' d) = psd_wait_queue (psds p d)"
    "hps_dispatch (subs p' s') = hps_dispatch (subs p s')"
  using assms(1) by (auto simp: p'_def courier_enqueue0_def Let_def upd_defs)

lemma core_enqueue_new:
  assumes c: "core g" and m: "hps_dispatch (subs (g_pst g) (hpn_sub n)) = MODE_GLOBAL None"
    and g': "g_pst g' = courier_enqueue0 (hpn_sub n) n ex (g_pst g)" "g_dispatching g' = g_dispatching g"
      "g_threads g' = g_threads g"
  shows "core g'"
proof -
  let ?N = "psdnext (g_pst g)"
  note e = enqueue_new[OF m, of n ex]
  note o = ownedD[OF coreD(4)[OF c]]
  have nn: "nots g' d = (if d = ?N then [n] else nots g d)" "waits g' d = (if d = ?N then [] else waits g d)" for d
    by (simp_all add: nots_def waits_def e g')
  have p: "pend g' d \<longleftrightarrow> d = ?N \<or> pend g d" for d
    by (auto simp: pend_def nn e g' less_Suc_eq)
  have N: "\<not> pend g ?N" by (simp add: pend_def)
  have N0: "places g ?N = 0" using coreD(1)[OF c, of ?N] N by simp
  have hN: "hps_dispatch (subs (g_pst g) s) \<noteq> MODE_GLOBAL (Some ?N)" "hps_dispatch (subs (g_pst g) s) \<noteq> MODE_GROUP ?N" for s
    using o(1)[of s ?N] o(2)[of s ?N] N by auto
  have s: "(\<Sum>x < ?N. count_list (waits g' x) d) = (\<Sum>x < ?N. count_list (waits g x) d)" for d
    by (rule sum.cong) (simp_all add: nn)
  have pl: "places g' d = places g d + (if d = ?N then 1 else 0)" for d
    using s by (simp add: places_def e nn g')
  show ?thesis unfolding core_def
  proof (intro conjI allI ballI impI)
    fix d show "places g' d = (if pend g' d then 1 else 0)"
      using pl[of d] coreD(1)[OF c, of d] p[of d] N by auto
    show "held g' d = count_list (g_dispatching g') d" using coreD(2)[OF c] by (simp add: held_def g')
  next
    fix th d n' assume th: "th \<in> set (g_threads g')" "holds th = Some (d, n')"
    then obtain ns where k: "nots g d = n' # ns" using coreD(3)[OF c] g'(3) by fastforce
    have "pend g d" using held_pend(1)[OF c _ th(2)] th(1) g'(3) by simp
    then have "d \<noteq> ?N" using N by auto
    then show "\<exists>ns. nots g' d = n' # ns" using k by (simp add: nn)
  next
    show "owned g'" unfolding owned_def
      using o N hN by (auto simp: e p nn g' less_Suc_eq split: if_splits) (use o(5) m in fastforce)+
  qed
qed

lemma count_list_append_if: "count_list (xs @ (if b then [e] else [])) d = count_list xs d + (if b \<and> d = e then 1 else 0)"
  by simp

lemma core_enqueue_more:
  assumes c: "core g" and m: "hps_dispatch (subs (g_pst g) (hpn_sub n)) = MODE_GLOBAL (Some e)
    \<or> hps_dispatch (subs (g_pst g) (hpn_sub n)) = MODE_GROUP e"
    and g': "g_pst g' = courier_enqueue0 (hpn_sub n) n ex (g_pst g)" "g_dispatching g' = g_dispatching g"
      "g_threads g' = g_threads g"
  shows "core g'"
proof -
  note E = enqueue_more[OF m, of n ex]
  note o = ownedD[OF coreD(4)[OF c]]
  have nn: "nots g' d = nots g d @ (if d = e then [n] else [])" "waits g' d = waits g d" for d
    by (simp_all add: nots_def waits_def E g')
  have le: "e < psdnext (g_pst g)" using o(1,2) m by (auto simp: pend_def)
  have p: "pend g' d \<longleftrightarrow> d = e \<or> pend g d" for d using le by (auto simp: pend_def nn E g')
  let ?b = "hps_dispatch (subs (g_pst g) (hpn_sub n)) = MODE_GROUP e \<and> nots g e = []"
  have q: "g_queue g' = g_queue g @ (if ?b then [e] else [])" by (simp add: E g' nots_def)
  have pl: "places g' d = places g d + (if ?b \<and> d = e then 1 else 0)" for d
    unfolding places_def q count_list_append_if by (simp add: nn E g')
  have b: "?b \<longleftrightarrow> \<not> pend g e" using m o(1)[of "hpn_sub n" e] le by (auto simp: pend_def)
  show ?thesis unfolding core_def
  proof (intro conjI allI ballI impI)
    fix d show "places g' d = (if pend g' d then 1 else 0)"
      using pl[of d] coreD(1)[OF c, of d] p[of d] b by auto
    show "held g' d = count_list (g_dispatching g') d" using coreD(2)[OF c] by (simp add: held_def g')
  next
    fix th d n' assume "th \<in> set (g_threads g')" "holds th = Some (d, n')"
    then obtain ns where "nots g d = n' # ns" using coreD(3)[OF c] g'(3) by fastforce
    then show "\<exists>ns. nots g' d = n' # ns" by (simp add: nn)
  next
    show "owned g'" unfolding owned_def
      using o m by (auto simp: E p nn g' split: if_splits) (use o(5) in blast)+
  qed
qed

lemma core_enqueue:
  assumes c: "core g" and e: "g_enqueue n ex w g = Some g'" shows "core g'"
proof -
  have "core u" if u: "g_pst u = courier_enqueue0 (hpn_sub n) n ex (g_pst g)" "g_dispatching u = g_dispatching g"
      "g_threads u = g_threads g" for u
  proof (cases "hps_dispatch (subs (g_pst g) (hpn_sub n))")
    case (MODE_COURIER x)
    show ?thesis
      by (rule core_view[OF c])
         (use u coreD(3)[OF c] enqueue_courier[OF MODE_COURIER] in \<open>auto simp: same_view_def held_def\<close>)
  next
    case (MODE_GLOBAL x)
    then show ?thesis using core_enqueue_new[OF c _ u] core_enqueue_more[OF c _ u] by (cases x) auto
  next
    case (MODE_GROUP x)
    then show ?thesis using core_enqueue_more[OF c _ u] by auto
  qed
  note k = this
  define u where "u = g\<lparr>g_pst := courier_enqueue0 (hpn_sub n) n ex (g_pst g),
      g_sent := (case hps_dispatch (subs (g_pst g) (hpn_sub n)) of MODE_COURIER _ \<Rightarrow> g_sent g
                 | _ \<Rightarrow> g_sent g @ [n])\<rparr>"
  have "core u" by (rule k) (simp_all add: u_def)
  moreover have "wakeup w u = Some g' \<or> g' = u"
    using e by (auto simp: g_enqueue_def Let_def u_def split: if_splits)
  ultimately show ?thesis using core_wakeup by blast
qed

lemma core_env:
  assumes c: "core g" and e: "env_ok (g_pst g) p'" and g': "g_pst g' = p'" "g_dispatching g' = g_dispatching g"
      "g_threads g' = g_threads g"
  shows "core g'"
proof -
  let ?N = "psdnext (g_pst g)" and ?M = "psdnext p'"
  note o = ownedD[OF coreD(4)[OF c]]
  from e have le: "?N \<le> ?M" and q: "prop_global_dispatch_queue p' = g_queue g"
    and old: "d < ?N \<Longrightarrow> nots g' d = nots g d" "d < ?N \<Longrightarrow> waits g' d = waits g d"
    and new: "\<not> d < ?N \<Longrightarrow> d < ?M \<Longrightarrow> nots g' d = [] \<and> waits g' d = []" for d
    by (auto simp: env_ok_def nots_def waits_def g')
  have p: "pend g' d = pend g d" for d
    using le old(1)[of d] new[of d] by (cases "d < ?N") (auto simp: pend_def g')
  have "(\<Sum>x < ?M. count_list (waits g' x) d) = (\<Sum>x < ?N. count_list (waits g x) d)" for d
    by (rule sum.mono_neutral_cong_right) (use le old new in auto)
  then have pl: "places g' d = places g d" for d by (simp add: places_def q g')
  have held_lt: "d < ?N" if "th \<in> set (g_threads g)" "holds th = Some (d, n)" for th d n
    using held_pend(1)[OF c that] by (simp add: pend_def)
  have ds: "hps_dispatch (subs p' s) = hps_dispatch (subs (g_pst g) s) \<or>
      (\<forall>d < ?N. \<forall>n \<in> set (nots g d). hpn_sub n \<noteq> s) \<and>
      (case hps_dispatch (subs p' s) of
             MODE_COURIER _ \<Rightarrow> True | MODE_GLOBAL d \<Rightarrow> d = None
           | MODE_GROUP d \<Rightarrow> d < ?M \<and> (\<forall>s'. hps_dispatch (subs (g_pst g) s') \<noteq> MODE_GLOBAL (Some d)))" for s
    using e unfolding env_ok_def nots_def by blast
  have gl: "hps_dispatch (subs p' s) = MODE_GLOBAL (Some d) \<Longrightarrow> hps_dispatch (subs (g_pst g) s) = MODE_GLOBAL (Some d)" for s d
    using ds[of s] by auto
  show ?thesis unfolding core_def
  proof (intro conjI allI ballI impI)
    fix d show "places g' d = (if pend g' d then 1 else 0)" using pl p coreD(1)[OF c] by simp
    show "held g' d = count_list (g_dispatching g') d" using coreD(2)[OF c] by (simp add: held_def g')
  next
    fix th d n assume "th \<in> set (g_threads g')" "holds th = Some (d, n)"
    then show "\<exists>ns. nots g' d = n # ns" using coreD(3)[OF c, of th d n] held_lt[of th d n] old(1) g'(3) by simp
  next
    have grp: "hps_dispatch (subs p' s) = MODE_GROUP d \<Longrightarrow> d < ?M \<and> (\<forall>s'. hps_dispatch (subs (g_pst g) s') \<noteq> MODE_GLOBAL (Some d))" for s d
      using ds[of s] o(2)[of s d] o(4)[of _ d s] le by fastforce
    have same: "d < ?N \<Longrightarrow> n \<in> set (nots g d) \<Longrightarrow> hps_dispatch (subs p' (hpn_sub n)) = hps_dispatch (subs (g_pst g) (hpn_sub n))" for d n
      using ds[of "hpn_sub n"] by auto
    have bck: "d < ?M \<Longrightarrow> n \<in> set (nots g' d) \<Longrightarrow> d < ?N \<and> n \<in> set (nots g d)" for d n
      using old(1)[of d] new[of d] by (cases "d < ?N") auto
    show "owned g'" unfolding owned_def p g'
    proof (intro conjI allI impI ballI)
      fix d n assume "d < ?M" "n \<in> set (nots g' d)"
      then have "d < ?N" "n \<in> set (nots g d)" using bck by auto
      then show "hps_dispatch (subs p' (hpn_sub n)) = MODE_GLOBAL (Some d)
          \<or> hps_dispatch (subs p' (hpn_sub n)) = MODE_GROUP d"
        using same[of d n] o(5)[of d n] by simp
    next
      fix s s' d assume "hps_dispatch (subs p' s) = MODE_GLOBAL (Some d)"
      then show "hps_dispatch (subs p' s') \<noteq> MODE_GROUP d" using gl[of s d] grp[of s' d] by blast
    next
      fix s s' d assume "hps_dispatch (subs p' s) = MODE_GLOBAL (Some d)"
        "hps_dispatch (subs p' s') = MODE_GLOBAL (Some d)"
      then show "s = s'" using o(3)[OF gl gl] by blast
    qed (use gl o(1) grp in blast)+
  qed
qed


section \<open>The steps of a thread\<close>

lemma no_hold: "held g d = 0 \<Longrightarrow> th \<in> set (g_threads g) \<Longrightarrow> holds th \<noteq> Some (d, n)"
  using member_le_sum_list[of "held1 d th" "map (held1 d) (g_threads g)"]
  by (auto simp: held_def held1_def)

lemma sum_waits:
  assumes "s < (N :: nat)"
  shows "(\<Sum>e < N. count_list ((w(s := ws)) e) d) + count_list (w s) d
    = (\<Sum>e < N. count_list (w e) d) + count_list ws d"
proof -
  have f: "finite {..<N}" "s \<in> {..<N}" using assms by auto
  have "(\<Sum>e \<in> {..<N} - {s}. count_list ((w(s := ws)) e) d) = (\<Sum>e \<in> {..<N} - {s}. count_list (w e) d)"
    by (rule sum.cong) auto
  then show ?thesis
    using sum.remove[OF f, of "\<lambda>e. count_list ((w(s := ws)) e) d"] sum.remove[OF f, of "\<lambda>e. count_list (w e) d"]
    by simp
qed

lemma places_set_waits:
  "s < psdnext (g_pst g) \<Longrightarrow>
   places (set_waits s ws g) d + count_list (waits g s) d = places g d + count_list ws d"
  using sum_waits[of s "psdnext (g_pst g)" "waits g" ws d] by (simp add: places_def del: fun_upd_apply)

lemma places_set_queue: "places (set_queue q g) d + count_list (g_queue g) d = places g d + count_list q d"
  by (simp add: places_def)

lemma places_disp:
  "places (g\<lparr>g_dispatching := l\<rparr>) d + count_list (g_dispatching g) d = places g d + count_list l d"
  by (simp add: places_def)

lemma places_same [simp]:
  "places (set_thread t th g) = places g" "places (set_nots e ns g) = places g"
  by (simp_all add: places_def fun_eq_iff)

lemma count_remove1: "x \<in> set xs \<Longrightarrow> count_list (remove1 x xs) d + (if x = d then 1 else 0) = count_list xs d"
  by (induction xs) auto

lemma owned_same:
  assumes "owned g" "nots g' = nots g" "psdnext (g_pst g') = psdnext (g_pst g)"
    "\<And>s. hps_dispatch (subs (g_pst g') s) = hps_dispatch (subs (g_pst g) s)"
  shows "owned g'"
  using assms(1) by (simp add: owned_def pend_def assms(2-4))

text \<open>A thread takes, or puts back, what it holds: nothing pending changes.\<close>

lemma core_move:
  assumes c: "core g" and t: "t < length (g_threads g)"
    and n: "nots g' = nots g" "psdnext (g_pst g') = psdnext (g_pst g)"
      "\<And>s. hps_dispatch (subs (g_pst g') s) = hps_dispatch (subs (g_pst g) s)"
    and p: "\<And>d. places g' d = places g d" and th: "g_threads g' = (g_threads g)[t := th]"
    and h: "\<And>d. count_list (g_dispatching g') d + held1 d (g_threads g ! t)
              = count_list (g_dispatching g) d + held1 d th"
    and k: "\<And>d n. holds th = Some (d, n) \<Longrightarrow> \<exists>ns. nots g d = n # ns"
  shows "core g'"
  unfolding core_def
proof (intro conjI allI ballI impI)
  fix d
  show "places g' d = (if pend g' d then 1 else 0)" using p coreD(1)[OF c] by (simp add: pend_def n)
  have "held g' d = held (set_thread t th g) d" by (simp add: held_def th)
  then show "held g' d = count_list (g_dispatching g') d"
    using held_set_thread[OF t, of th d] h[of d] coreD(2)[OF c, of d] by simp
next
  fix x d m assume "x \<in> set (g_threads g')" "holds x = Some (d, m)"
  then show "\<exists>ns. nots g' d = m # ns"
    using set_thread_in[of x g t th] k coreD(3)[OF c, of x d m] by (auto simp: th n)
qed (rule owned_same[OF coreD(4)[OF c] n])

lemma find_contender_in: "find_contender g d n ss = Some (Some s) \<Longrightarrow> s \<in> set ss \<and> s \<noteq> d \<and> nots g s \<noteq> []"
  by (induction ss) (auto split: if_splits list.splits)

lemma disp_pend: "core g \<Longrightarrow> s \<in> set (g_dispatching g) \<Longrightarrow> pend g s \<and> places g s = 1"
  using coreD(1)[of g s] by (auto simp: places_def count_list_0_iff split: if_splits)

lemma core_take:
  assumes c: "core g" and t: "t < length (g_threads g)" "g_threads g ! t = DT_loop"
    and q: "g_queue g = d # ds" "nots g d = n # ns"
  shows "core (set_thread t (DT_try d n) ((set_queue ds g)\<lparr>g_dispatching := g_dispatching g @ [d]\<rparr>))"
  by (rule core_move[OF c t(1)])
     (use t q in \<open>auto simp: held1_def places_def\<close>)

lemma core_attach:
  assumes c: "core g" and t: "t < length (g_threads g)" "g_threads g ! t = DT_busy d n"
    and s: "s \<in> set (remove1 d (g_dispatching g))"
  shows "core (set_thread t DT_loop (set_waits s (waits g s @ [d])
           (g\<lparr>g_dispatching := remove1 d (g_dispatching g)\<rparr>)))"
proof (rule core_move[OF c t(1)])
  have d: "d \<in> set (g_dispatching g)" using held_pend(2)[OF c thread_in[OF t]] by simp
  let ?g1 = "g\<lparr>g_dispatching := remove1 d (g_dispatching g)\<rparr>"
  have sN: "s < psdnext (g_pst ?g1)" using disp_pend[OF c, of s] s set_remove1_subset[of d "g_dispatching g"] by (auto simp: pend_def)
  fix e
  show "places (set_thread t DT_loop (set_waits s (waits g s @ [d]) ?g1)) e = places g e"
    using places_set_waits[OF sN, of "waits g s @ [d]" e] places_disp[of "remove1 d (g_dispatching g)" g e]
      count_remove1[OF d, of e] by (cases "d = e"; simp; arith)
  show "count_list (g_dispatching (set_thread t DT_loop (set_waits s (waits g s @ [d]) ?g1))) e
      + held1 e (g_threads g ! t) = count_list (g_dispatching g) e + held1 e DT_loop"
    using count_remove1[OF d, of e] t(2) by (simp add: held1_def)
qed simp_all

lemma core_reinsert:
  assumes c: "core g" and t: "t < length (g_threads g)" "g_threads g ! t = DT_busy d n"
  shows "core (set_thread t (DT_lock d n) (g\<lparr>g_dispatching := remove1 d (g_dispatching g) @ [d]\<rparr>))"
proof (rule core_move[OF c t(1)])
  have d: "d \<in> set (g_dispatching g)" using held_pend(2)[OF c thread_in[OF t]] by simp
  fix e
  show "places (set_thread t (DT_lock d n) (g\<lparr>g_dispatching := remove1 d (g_dispatching g) @ [d]\<rparr>)) e = places g e"
    using places_disp[of "remove1 d (g_dispatching g) @ [d]" g e] count_remove1[OF d, of e]
    by (cases "d = e"; simp; arith)
  show "count_list (g_dispatching (set_thread t (DT_lock d n) (g\<lparr>g_dispatching := remove1 d (g_dispatching g) @ [d]\<rparr>))) e
      + held1 e (g_threads g ! t) = count_list (g_dispatching g) e + held1 e (DT_lock d n)"
    using count_remove1[OF d, of e] t(2) by (simp add: held1_def)
next
  fix e m assume "holds (DT_lock d n) = Some (e, m)"
  then show "\<exists>ns. nots g e = m # ns" using coreD(3)[OF c thread_in[OF t], of e m] by simp
qed simp_all

lemma core_deliver:
  assumes c: "core g" and t: "t < length (g_threads g)" "holds (g_threads g ! t) = Some (d, n)"
    and r: "deliver t busy m d n g = Some g'"
  shows "core g'"
proof -
  from r obtain b p where o: "prop_dispatch_one busy n m (g_pst g) = Some (b, p)"
    and g': "g' = (if b then set_thread t (DT_busy d n) g
                   else set_thread t (DT_done d n) (g\<lparr>g_pst := p, g_handled := g_handled g @ [n]\<rparr>))"
    by (auto simp: deliver_def split: option.splits bool.splits)
  have v: "same_view g g'" using dispatch_one_disp[OF o] by (simp add: g' same_view_def)
  show ?thesis
  proof (cases b)
    case True
    then show ?thesis by (intro core_same_hold[OF c t(1) v, of "DT_busy d n"]) (use t in \<open>simp_all add: g'\<close>)
  next
    case False
    then show ?thesis by (intro core_same_hold[OF c t(1) v, of "DT_done d n"]) (use t in \<open>simp_all add: g'\<close>)
  qed
qed

text \<open>The end of a round, in its three parts.\<close>

lemma pop_waiter_facts:
  assumes d: "d < psdnext (g_pst g)" and w: "\<forall>s \<in> set (waits g d). s < psdnext (g_pst g) \<and> s \<noteq> d"
  shows "places (pop_waiter d g) e = places g e" "nots (pop_waiter d g) = nots g"
    "psdnext (g_pst (pop_waiter d g)) = psdnext (g_pst g)" "subs (g_pst (pop_waiter d g)) = subs (g_pst g)"
    "g_dispatching (pop_waiter d g) = g_dispatching g" "g_threads (pop_waiter d g) = g_threads g"
    "g_handled (pop_waiter d g) = g_handled g" "g_sent (pop_waiter d g) = g_sent g"
    "g_avail (pop_waiter d g) = g_avail g" "g_running (pop_waiter d g) = g_running g"
    "g_queue (pop_waiter d g) = g_queue g @ take 1 (waits g d)"
    "waits (pop_waiter d g) e = (if e = d then [] else waits g e @ (if waits g d \<noteq> [] \<and> e = hd (waits g d) then tl (waits g d) else []))"
proof -
  show "waits (pop_waiter d g) e = (if e = d then [] else waits g e
      @ (if waits g d \<noteq> [] \<and> e = hd (waits g d) then tl (waits g d) else []))"
    using w by (auto simp: pop_waiter_def split: list.split)
  show "places (pop_waiter d g) e = places g e"
  proof (cases "waits g d")
    case Nil then show ?thesis by (simp add: pop_waiter_def)
  next
    case (Cons s ws)
    then have s: "s < psdnext (g_pst g)" "s \<noteq> d" using w by auto
    let ?q = "set_queue (g_queue g @ [s]) g"
    let ?s = "set_waits s (waits g s @ ws) ?q"
    have s': "s < psdnext (g_pst ?q)" and d': "d < psdnext (g_pst ?s)" using s d by simp_all
    have "places ?q e = places g e + (if s = e then 1 else 0)"
      using places_set_queue[of "g_queue g @ [s]" g e] by simp
    moreover have "places ?s e = places ?q e + count_list ws e"
      using places_set_waits[OF s', of "waits g s @ ws" e] by simp
    moreover have "places (set_waits d [] ?s) e + count_list (s # ws) e = places ?s e"
      using places_set_waits[OF d', of "[]" e] s(2) Cons by simp
    ultimately show ?thesis using Cons by (simp add: pop_waiter_def split: if_splits)
  qed
qed (auto simp: pop_waiter_def split: list.split)

lemma g_upd_sub_sel [simp]:
  "nots (g\<lparr>g_pst := upd_sub s f (g_pst g)\<rparr>) = nots g" "waits (g\<lparr>g_pst := upd_sub s f (g_pst g)\<rparr>) = waits g"
  by (simp_all add: nots_def waits_def fun_eq_iff)

lemma retire_facts:
  "nots (retire d n g) = nots g" "waits (retire d n g) = waits g"
  "psdnext (g_pst (retire d n g)) = psdnext (g_pst g)"
  "g_dispatching (retire d n g) = g_dispatching g" "g_threads (retire d n g) = g_threads g"
  "g_handled (retire d n g) = g_handled g" "g_sent (retire d n g) = g_sent g"
  "g_avail (retire d n g) = g_avail g" "g_running (retire d n g) = g_running g"
  "g_queue (retire d n g) = g_queue g @ (if nots g d \<noteq> [] then [d] else [])"
  "places (retire d n g) e = places g e + (if nots g d \<noteq> [] \<and> d = e then 1 else 0)"
  "hps_dispatch (subs (g_pst (retire d n g)) s) =
     (if s = hpn_sub n \<and> nots g d = [] \<and> (\<exists>x. hps_dispatch (subs (g_pst g) s) = MODE_GLOBAL x)
      then MODE_GLOBAL None else hps_dispatch (subs (g_pst g) s))"
  by (auto simp: retire_def places_def split: dispatch.split)

lemma end_round_facts:
  assumes c: "core g" and t: "t < length (g_threads g)" "g_threads g ! t = DT_done d n"
  defines "g' \<equiv> end_round t d n g"
  shows "nots g' e = (if e = d then tl (nots g d) else nots g e)"
    "psdnext (g_pst g') = psdnext (g_pst g)" "g_dispatching g' = remove1 d (g_dispatching g)"
    "g_threads g' = (g_threads g)[t := DT_loop]" "g_handled g' = g_handled g" "g_sent g' = g_sent g"
    "g_avail g' = g_avail g" "g_running g' = g_running g"
    "places g' e = (if e = d then if tl (nots g d) \<noteq> [] then 1 else 0 else places g e)"
    "hps_dispatch (subs (g_pst g') s) =
     (if s = hpn_sub n \<and> tl (nots g d) = [] \<and> (\<exists>x. hps_dispatch (subs (g_pst g) s) = MODE_GLOBAL x)
      then MODE_GLOBAL None else hps_dispatch (subs (g_pst g) s))"
    "g_queue g' = g_queue g @ take 1 (waits g d) @ (if tl (nots g d) \<noteq> [] then [d] else [])"
    "waits g' e = (if e = d then [] else waits g e
      @ (if waits g d \<noteq> [] \<and> e = hd (waits g d) then tl (waits g d) else []))"
proof -
  define g2 where "g2 = set_nots d (tl (nots g d)) (g\<lparr>g_dispatching := remove1 d (g_dispatching g)\<rparr>)"
  define g4 where "g4 = retire d n (pop_waiter d g2)"
  have G: "nots g2 x = (if x = d then tl (nots g d) else nots g x)" "waits g2 = waits g"
    "psdnext (g_pst g2) = psdnext (g_pst g)" "subs (g_pst g2) = subs (g_pst g)" "g_threads g2 = g_threads g"
    "g_dispatching g2 = remove1 d (g_dispatching g)" "g_handled g2 = g_handled g" "g_sent g2 = g_sent g"
    "g_avail g2 = g_avail g" "g_running g2 = g_running g" for x
    by (simp_all add: g2_def)
  have "holds (g_threads g ! t) = Some (d, n)" using t(2) by simp
  note h = held_pend[OF c thread_in[OF t(1) refl] this]
  note dp = disp_pend[OF c h(2)]
  have dN: "d < psdnext (g_pst g2)" using h(1) by (simp add: pend_def G)
  have wt: "\<forall>s \<in> set (waits g2 d). s < psdnext (g_pst g2) \<and> s \<noteq> d"
  proof
    fix s assume that: "s \<in> set (waits g2 d)"
    have "0 < count_list (waits g d) s" using that by (simp add: G count_list_0_iff zero_less_iff_neq_zero)
    also have "\<dots> \<le> (\<Sum>e < psdnext (g_pst g). count_list (waits g e) s)"
      by (rule member_le_sum) (use dN in \<open>auto simp: G\<close>)
    finally have w: "0 < (\<Sum>e < psdnext (g_pst g). count_list (waits g e) s)" .
    then have "0 < places g s" by (simp add: places_def)
    then have "pend g s" using coreD(1)[OF c, of s] by (simp split: if_splits)
    moreover have "s \<noteq> d"
    proof
      assume "s = d"
      moreover have "0 < count_list (g_dispatching g) d" using h(2) by (metis count_list_0_iff neq0_conv)
      ultimately show False using w dp by (simp add: places_def)
    qed
    ultimately show "s < psdnext (g_pst g2) \<and> s \<noteq> d" by (simp add: pend_def G)
  qed
  note P = pop_waiter_facts[OF dN wt] and R = retire_facts[of d n "pop_waiter d g2", folded g4_def]
  have g': "g' = set_thread t DT_loop (g4\<lparr>g_pst := prop_sub_ref_dec_locked (hpn_sub n) (g_pst g4)\<rparr>)"
    by (simp add: g'_def end_round_def Let_def g4_def g2_def)
  have v: "same_view g4 g'" using sub_ref_dec_disp by (simp add: g' same_view_def)
  note V = same_view_sel[OF v]
  show "nots g' e = (if e = d then tl (nots g d) else nots g e)" by (simp add: V R P G)
  show "psdnext (g_pst g') = psdnext (g_pst g)" by (simp add: V R P G)
  show "g_dispatching g' = remove1 d (g_dispatching g)" by (simp add: V R P G)
  show "g_threads g' = (g_threads g)[t := DT_loop]" "g_handled g' = g_handled g" "g_sent g' = g_sent g"
    "g_avail g' = g_avail g" "g_running g' = g_running g" by (simp_all add: g' R P G)
  have "places g2 e + (if d = e then 1 else 0) = places g e"
    using places_disp[of "remove1 d (g_dispatching g)" g e] count_remove1[OF h(2), of e]
    by (cases "d = e"; simp add: g2_def; arith)
  then show "places g' e = (if e = d then if tl (nots g d) \<noteq> [] then 1 else 0 else places g e)"
    using dp by (auto simp: V R P G)
  show "hps_dispatch (subs (g_pst g') s) =
     (if s = hpn_sub n \<and> tl (nots g d) = [] \<and> (\<exists>x. hps_dispatch (subs (g_pst g) s) = MODE_GLOBAL x)
      then MODE_GLOBAL None else hps_dispatch (subs (g_pst g) s))"
    by (auto simp: V R P G)
  show "g_queue g' = g_queue g @ take 1 (waits g d) @ (if tl (nots g d) \<noteq> [] then [d] else [])"
    by (simp add: V R P G) (simp add: g2_def)
  show "waits g' e = (if e = d then [] else waits g e
      @ (if waits g d \<noteq> [] \<and> e = hd (waits g d) then tl (waits g d) else []))"
    by (simp add: V R P G)
qed

lemma core_end_round:
  assumes c: "core g" and t: "t < length (g_threads g)" "g_threads g ! t = DT_done d n"
  shows "core (end_round t d n g)" (is "core ?g")
proof -
  note E = end_round_facts[OF c t]
  have hd: "holds (g_threads g ! t) = Some (d, n)" using t(2) by simp
  note h = held_pend[OF c thread_in[OF t(1) refl] hd]
  obtain ns where k: "nots g d = n # ns" using coreD(3)[OF c thread_in[OF t(1) refl] hd] by blast
  note o = ownedD[OF coreD(4)[OF c]]
  have p: "pend ?g e \<longleftrightarrow> (if e = d then ns \<noteq> [] else pend g e)" for e
    using h(1) k by (simp add: pend_def E)
  have hl: "held ?g e = count_list (g_dispatching ?g) e" for e
  proof -
    have "held ?g e = held (set_thread t DT_loop g) e" by (simp add: held_def E)
    then show ?thesis
      using held_set_thread[OF t(1), of DT_loop e] coreD(2)[OF c, of e] count_remove1[OF h(2), of e] t(2)
      by (simp add: held1_def E split: if_splits)
  qed
  show ?thesis unfolding core_def
  proof (intro conjI allI ballI impI hl)
    fix e show "places ?g e = (if pend ?g e then 1 else 0)"
      using coreD(1)[OF c, of e] k by (simp add: p E)
  next
    fix th e m assume th: "th \<in> set (g_threads ?g)" "holds th = Some (e, m)"
    have "held ?g d = 0"
      using hl[of d] disp_pend[OF c h(2)] count_remove1[OF h(2), of d] by (simp add: E places_def)
    then have "e \<noteq> d" using no_hold th by blast
    moreover have "th \<in> set (g_threads g)" using th set_thread_in[of th g t DT_loop] by (auto simp: E)
    ultimately show "\<exists>ns. nots ?g e = m # ns" using coreD(3)[OF c _ th(2)] by (simp add: E)
  next
    have m: "hps_dispatch (subs (g_pst g) (hpn_sub n)) = MODE_GLOBAL (Some d)
        \<or> hps_dispatch (subs (g_pst g) (hpn_sub n)) = MODE_GROUP d"
      using o(5)[of d n] h(1) k by (simp add: pend_def)
    have ds: "hps_dispatch (subs (g_pst ?g) s) =
        (if s = hpn_sub n \<and> ns = [] \<and> hps_dispatch (subs (g_pst g) s) = MODE_GLOBAL (Some d)
         then MODE_GLOBAL None else hps_dispatch (subs (g_pst g) s))" for s
      using m by (auto simp: E k)
    have np: "ns = [] \<Longrightarrow> hps_dispatch (subs (g_pst ?g) s) \<noteq> MODE_GLOBAL (Some d)" for s
      using m o(3)[of s d "hpn_sub n"] o(4)[of s d "hpn_sub n"] by (auto simp: ds)
    show "owned ?g" unfolding owned_def
    proof (intro conjI allI impI ballI)
      fix s e assume a: "hps_dispatch (subs (g_pst ?g) s) = MODE_GLOBAL (Some e)"
      then show "pend ?g e" using np[of s] o(1)[of s e] by (auto simp: p ds split: if_splits)
    next
      fix e x assume "e < psdnext (g_pst ?g)" "x \<in> set (nots ?g e)"
      then have "e < psdnext (g_pst g)" "x \<in> set (nots g e)" "e = d \<Longrightarrow> ns \<noteq> []"
        using k by (auto simp: E split: if_splits)
      moreover have "hps_dispatch (subs (g_pst g) (hpn_sub x)) = MODE_GLOBAL (Some d) \<Longrightarrow> e = d"
        using o(5)[of e x] calculation by auto
      ultimately show "hps_dispatch (subs (g_pst ?g) (hpn_sub x)) = MODE_GLOBAL (Some e)
          \<or> hps_dispatch (subs (g_pst ?g) (hpn_sub x)) = MODE_GROUP e"
        using o(5)[of e x] by (auto simp: ds)
    qed (use o(2,3,4) in \<open>auto simp: ds E split: if_splits\<close>)
  qed
qed

lemma core_run:
  assumes c: "core g" and r: "run_thread t busy g = Some g'" shows "core g'"
proof -
  have t: "t < length (g_threads g)" using r by (auto simp: run_thread_def split: if_splits)
  have sh: "core g'" if "same_view g g'" "g_threads g' = (g_threads g)[t := th]" "holds th = None"
      "holds (g_threads g ! t) = None" for th
    by (rule core_same_hold[OF c t that(1,2)]) (use that in simp)
  show ?thesis
  proof (cases "g_threads g ! t")
    case DT_loop
    show ?thesis
    proof (cases "g_queue g")
      case Nil
      with r t DT_loop consider "g' = set_thread t DT_exit (g\<lparr>g_running := g_running g - 1\<rparr>)"
        | "g' = set_thread t DT_asleep (g\<lparr>g_avail := g_avail g + 1\<rparr>)"
        by (auto simp: run_thread_def split: if_splits)
      then show ?thesis
      proof cases
        case 1 show ?thesis by (rule sh[of DT_exit]) (simp_all add: 1 same_view_def DT_loop)
      next
        case 2 show ?thesis by (rule sh[of DT_asleep]) (simp_all add: 2 same_view_def DT_loop)
      qed
    next
      case (Cons d ds)
      with r t DT_loop obtain n ns where "nots g d = n # ns"
        "g' = set_thread t (DT_try d n) ((set_queue ds g)\<lparr>g_dispatching := g_dispatching g @ [d]\<rparr>)"
        by (auto simp: run_thread_def split: list.splits)
      then show ?thesis using core_take[OF c t DT_loop Cons] by simp
    qed
  next
    case DT_woken
    then have e: "g' = set_thread t DT_loop (g\<lparr>g_avail := g_avail g - 1\<rparr>)"
      using r t by (simp add: run_thread_def)
    show ?thesis by (rule sh[of DT_loop]) (simp_all add: e same_view_def DT_woken)
  next
    case (DT_busy d n)
    let ?g1 = "g\<lparr>g_dispatching := remove1 d (g_dispatching g)\<rparr>"
    from r t DT_busy obtain fc where fc: "find_contender ?g1 d n (g_dispatching ?g1) = Some fc"
      and g': "g' = (case fc of Some s \<Rightarrow> set_thread t DT_loop (set_waits s (waits ?g1 s @ [d]) ?g1)
          | None \<Rightarrow> set_thread t (DT_lock d n) (?g1\<lparr>g_dispatching := g_dispatching ?g1 @ [d]\<rparr>))"
      by (auto simp: run_thread_def Let_def split: option.splits)
    show ?thesis
    proof (cases fc)
      case None then show ?thesis using core_reinsert[OF c t DT_busy] by (simp add: g')
    next
      case (Some s)
      then have "s \<in> set (remove1 d (g_dispatching g))" using find_contender_in[of ?g1 d n] fc by auto
      from core_attach[OF c t DT_busy this] Some show ?thesis by (simp add: g')
    qed
  next
    case (DT_try d n)
    then show ?thesis using core_deliver[OF c t, of d n busy LOCKMGR_TRY g'] r t by (simp add: run_thread_def)
  next
    case (DT_lock d n)
    then show ?thesis using core_deliver[OF c t, of d n "{}" LOCKMGR_LOCK g'] r t by (simp add: run_thread_def)
  next
    case (DT_done d n)
    then show ?thesis using core_end_round[OF c t DT_done] r t by (simp add: run_thread_def)
  qed (use r t in \<open>auto simp: run_thread_def\<close>)
qed

lemma core_step:
  assumes "g_step g g'" "core g" shows "core g'"
  using assms(1)
proof (cases rule: g_step.cases)
  case (g_thread t busy) then show ?thesis using core_run[OF assms(2)] by blast
next
  case (g_queued n ex w) then show ?thesis using core_enqueue[OF assms(2)] by blast
next
  case (g_other p') then show ?thesis using core_env[OF assms(2), of p' g'] by simp
qed

end
