(* ===== verification/Dispatch_Wake.thy ===== *)
theory Dispatch_Wake
  imports Dispatch_Inv
begin

text \<open>
  No wakeup is lost: whatever waits for another structure waits, through a chain of wait queues,
  for one that is queued or being dispatched, and while the queue is not empty a thread is awake.
\<close>

section \<open>Waiting chains end at something active\<close>

inductive rooted :: "gst \<Rightarrow> did \<Rightarrow> bool" for g where
  rooted_queue: "d \<in> set (g_queue g) \<Longrightarrow> rooted g d"
| rooted_disp: "d \<in> set (g_dispatching g) \<Longrightarrow> rooted g d"
| rooted_wait: "rooted g e \<Longrightarrow> e < psdnext (g_pst g) \<Longrightarrow> d \<in> set (waits g e) \<Longrightarrow> rooted g d"

lemma rooted_into:
  assumes "rooted g x" and "\<And>d. d \<in> set (g_queue g) \<Longrightarrow> P d" and "\<And>d. d \<in> set (g_dispatching g) \<Longrightarrow> P d"
    and "\<And>e d. P e \<Longrightarrow> e < psdnext (g_pst g) \<Longrightarrow> d \<in> set (waits g e) \<Longrightarrow> P d"
  shows "P x"
  using assms(1) by (induction rule: rooted.induct) (auto intro: assms(2-4))

lemma rooted_grow:
  assumes "rooted g x" "set (g_queue g) \<union> set (g_dispatching g) \<subseteq> set (g_queue g') \<union> set (g_dispatching g')"
    "psdnext (g_pst g) \<le> psdnext (g_pst g')" "\<And>e. e < psdnext (g_pst g) \<Longrightarrow> set (waits g e) \<subseteq> set (waits g' e)"
  shows "rooted g' x"
  by (rule rooted_into[OF assms(1)]) (use assms(2-4) in \<open>force intro: rooted.intros\<close>)+

lemma rooted_somewhere: "rooted g x \<Longrightarrow> g_queue g \<noteq> [] \<or> g_dispatching g \<noteq> []"
  by (induction rule: rooted.induct) auto

definition all_rooted :: "gst \<Rightarrow> bool" where
  "all_rooted g \<longleftrightarrow> (\<forall>d. pend g d \<longrightarrow> rooted g d)"

lemma all_rooted_grow:
  assumes "all_rooted g" "set (g_queue g) \<union> set (g_dispatching g) \<subseteq> set (g_queue g') \<union> set (g_dispatching g')"
    "psdnext (g_pst g) \<le> psdnext (g_pst g')" "\<And>e. e < psdnext (g_pst g) \<Longrightarrow> set (waits g e) \<subseteq> set (waits g' e)"
    "\<And>d. pend g' d \<Longrightarrow> pend g d \<or> d \<in> set (g_queue g')"
  shows "all_rooted g'"
  unfolding all_rooted_def
  using assms(1,5) rooted_grow[OF _ assms(2-4)] rooted_queue[of _ g'] by (auto simp: all_rooted_def)

lemma rooted_view: "all_rooted g \<Longrightarrow> same_view g g' \<Longrightarrow> all_rooted g'"
  by (erule all_rooted_grow) (simp_all add: same_view_sel)

lemma rooted_enqueue:
  assumes c: "core g" and a: "all_rooted g" and e: "g_enqueue n ex w g = Some g'" shows "all_rooted g'"
proof -
  define u where "u = g\<lparr>g_pst := courier_enqueue0 (hpn_sub n) n ex (g_pst g),
      g_sent := (case hps_dispatch (subs (g_pst g) (hpn_sub n)) of MODE_COURIER _ \<Rightarrow> g_sent g
                 | _ \<Rightarrow> g_sent g @ [n])\<rparr>"
  have "wakeup w u = Some g' \<or> g' = u"
    using e by (auto simp: g_enqueue_def Let_def u_def split: if_splits)
  then have v: "same_view u g'" using wakeup_cases[of w u g'] by (auto simp: same_view_def)
  have u: "g_pst u = courier_enqueue0 (hpn_sub n) n ex (g_pst g)" "g_dispatching u = g_dispatching g"
    by (simp_all add: u_def)
  have more: "all_rooted u" if m: "hps_dispatch (subs (g_pst g) (hpn_sub n)) = MODE_GLOBAL (Some d)
      \<or> hps_dispatch (subs (g_pst g) (hpn_sub n)) = MODE_GROUP d" for d
  proof -
    note E = enqueue_more[OF m, of n ex]
    have o: "hps_dispatch (subs (g_pst g) (hpn_sub n)) = MODE_GLOBAL (Some d) \<Longrightarrow> pend g d"
      by (rule ownedD(1)[OF coreD(4)[OF c]])
    show ?thesis
      by (rule all_rooted_grow[OF a]) (use m o in \<open>auto simp: u E nots_def waits_def pend_def split: if_splits\<close>)
  qed
  have "all_rooted u"
  proof (cases "hps_dispatch (subs (g_pst g) (hpn_sub n))")
    case (MODE_COURIER x)
    have "same_view g u" using enqueue_courier[OF MODE_COURIER] by (simp add: same_view_def u)
    from rooted_view[OF a this] show ?thesis .
  next
    case (MODE_GLOBAL x)
    show ?thesis
    proof (cases x)
      case None
      with MODE_GLOBAL have m: "hps_dispatch (subs (g_pst g) (hpn_sub n)) = MODE_GLOBAL None" by simp
      show ?thesis
        by (rule all_rooted_grow[OF a])
           (use enqueue_new[OF m, of n ex] in \<open>auto simp: u nots_def waits_def pend_def split: if_splits\<close>)
    qed (use more MODE_GLOBAL in auto)
  qed (use more in auto)
  from this v show ?thesis by (rule rooted_view)
qed

lemma rooted_env:
  assumes "all_rooted g" "env_ok (g_pst g) p'" shows "all_rooted (g\<lparr>g_pst := p'\<rparr>)"
proof (rule all_rooted_grow[OF assms(1)])
  fix d assume "pend (g\<lparr>g_pst := p'\<rparr>) d"
  then show "pend g d \<or> d \<in> set (g_queue (g\<lparr>g_pst := p'\<rparr>))"
    using assms(2) by (cases "d < psdnext (g_pst g)") (auto simp: pend_def nots_def env_ok_def not_less)
qed (use assms(2) in \<open>auto simp: env_ok_def waits_def\<close>)


lemma rooted_end_round:
  assumes c: "core g" and a: "all_rooted g" and t: "t < length (g_threads g)" "g_threads g ! t = DT_done d n"
  shows "all_rooted (end_round t d n g)" (is "all_rooted ?g")
  unfolding all_rooted_def
proof (intro allI impI)
  fix x assume p: "pend ?g x"
  note E = end_round_facts[OF c t]
  have x: "pend g x" using p by (auto simp: pend_def E split: if_splits)
  have "x = d \<or> rooted ?g x"
  proof (rule rooted_into[of g])
    show "rooted g x" using a x by (simp add: all_rooted_def)
  next
    fix e assume "e \<in> set (g_queue g)"
    then show "e = d \<or> rooted ?g e" by (auto simp: E intro!: rooted_queue)
  next
    fix e assume "e \<in> set (g_dispatching g)"
    then have "e = d \<or> e \<in> set (remove1 d (g_dispatching g))" by (cases "e = d") auto
    then show "e = d \<or> rooted ?g e" by (auto simp: E intro!: rooted_disp)
  next
    fix e f assume e: "e = d \<or> rooted ?g e" "e < psdnext (g_pst g)" "f \<in> set (waits g e)"
    show "f = d \<or> rooted ?g f"
    proof (cases "e = d")
      case False
      with e have "f \<in> set (waits ?g e)" "rooted ?g e" by (simp_all add: E)
      then show ?thesis using rooted_wait[of ?g e f] e(2) by (simp add: E)
    next
      case True
      then obtain s ws where w: "waits g d = s # ws" "f = s \<or> f \<in> set ws" using e(3) by (cases "waits g d") auto
      have s: "rooted ?g s" by (rule rooted_queue) (simp add: E w)
      have sN: "s < psdnext (g_pst g)" "s \<noteq> d"
      proof -
        have h: "holds (g_threads g ! t) = Some (d, n)" using t(2) by simp
        note hp = held_pend[OF c thread_in[OF t(1) refl] h]
        have "1 \<le> (\<Sum>e < psdnext (g_pst g). count_list (waits g e) s)"
        proof -
          have "1 \<le> count_list (waits g d) s" using w by simp
          also have "\<dots> \<le> (\<Sum>e < psdnext (g_pst g). count_list (waits g e) s)"
            by (rule member_le_sum) (use hp(1) in \<open>auto simp: pend_def\<close>)
          finally show ?thesis .
        qed
        moreover have "0 < count_list (g_dispatching g) d" using hp(2) by (metis count_list_0_iff neq0_conv)
        ultimately show "s < psdnext (g_pst g)" "s \<noteq> d"
          using coreD(1)[OF c, of s] disp_pend[OF c hp(2)]
          by (auto simp: places_def pend_def split: if_splits)
      qed
      show ?thesis
      proof (cases "f = s")
        case True then show ?thesis using s by simp
      next
        case False
        then have "f \<in> set (waits ?g s)" using w sN(2) by (simp add: E)
        then show ?thesis using rooted_wait[OF s] sN(1) by (simp add: E)
      qed
    qed
  qed
  then show "rooted ?g x"
    using p by (auto simp: pend_def E split: if_splits intro!: rooted_queue)
qed

lemma rooted_run:
  assumes c: "core g" and a: "all_rooted g" and r: "run_thread t busy g = Some g'" shows "all_rooted g'"
proof -
  have t: "t < length (g_threads g)" using r by (auto simp: run_thread_def split: if_splits)
  have del: "all_rooted g'" if "deliver t b m d n g = Some g'" for b m d n
    by (rule rooted_view[OF a])
       (use that dispatch_one_disp[of b n m "g_pst g"] in
         \<open>auto simp: deliver_def same_view_def split: option.splits bool.splits\<close>)
  show ?thesis
  proof (cases "g_threads g ! t")
    case DT_loop
    show ?thesis
    proof (cases "g_queue g")
      case Nil
      show ?thesis by (rule rooted_view[OF a])
        (use r t DT_loop Nil in \<open>auto simp: run_thread_def same_view_def split: if_splits\<close>)
    next
      case (Cons d ds)
      show ?thesis by (rule all_rooted_grow[OF a])
        (use r t DT_loop Cons in \<open>auto simp: run_thread_def pend_def split: list.splits\<close>)
    qed
  next
    case DT_woken
    show ?thesis by (rule rooted_view[OF a]) (use r t DT_woken in \<open>auto simp: run_thread_def same_view_def\<close>)
  next
    case (DT_busy d n)
    let ?g1 = "g\<lparr>g_dispatching := remove1 d (g_dispatching g)\<rparr>"
    from r t DT_busy obtain fc where fc: "find_contender ?g1 d n (g_dispatching ?g1) = Some fc"
      and g': "g' = (case fc of Some s \<Rightarrow> set_thread t DT_loop (set_waits s (waits ?g1 s @ [d]) ?g1)
          | None \<Rightarrow> set_thread t (DT_lock d n) (?g1\<lparr>g_dispatching := g_dispatching ?g1 @ [d]\<rparr>))"
      by (auto simp: run_thread_def Let_def split: option.splits)
    show ?thesis
    proof (cases fc)
      case None
      show ?thesis by (rule all_rooted_grow[OF a]) (auto simp: g' None pend_def)
    next
      case (Some s)
      note fc = find_contender_in[OF fc[unfolded Some]]
      then have sN: "s < psdnext (g_pst g)"
        using disp_pend[OF c, of s] set_remove1_subset[of d "g_dispatching g"] by (auto simp: pend_def)
      have s: "rooted g' s" by (rule rooted_disp) (use fc in \<open>simp add: g' Some\<close>)
      have d: "rooted g' d" by (rule rooted_wait[OF s]) (use sN in \<open>simp_all add: g' Some\<close>)
      have w: "e < psdnext (g_pst g) \<Longrightarrow> set (waits g e) \<subseteq> set (waits g' e)" for e by (auto simp: g' Some)
      have "rooted g x \<Longrightarrow> rooted g' x" for x
      proof (erule rooted_into)
        fix e assume "e \<in> set (g_dispatching g)"
        then show "rooted g' e" using d by (cases "e = d") (auto simp: g' Some intro!: rooted_disp)
      next
        fix e f assume "rooted g' e" "e < psdnext (g_pst g)" "f \<in> set (waits g e)"
        then show "rooted g' f" using w rooted_wait[of g' e f] by (auto simp: g' Some)
      qed (auto simp: g' Some intro!: rooted_queue)
      moreover have "pend g' x = pend g x" for x by (simp add: g' Some pend_def)
      ultimately show ?thesis using a by (simp add: all_rooted_def)
    qed
  next
    case (DT_done d n)
    then show ?thesis using rooted_end_round[OF c a t DT_done] r t by (simp add: run_thread_def)
  qed (use del r t in \<open>auto simp: run_thread_def\<close>)
qed


section \<open>No wakeup is lost\<close>

definition sleeping :: "dthread \<Rightarrow> bool" where
  "sleeping th \<longleftrightarrow> th = DT_asleep \<or> th = DT_woken"

definition awake :: "dthread \<Rightarrow> bool" where
  "awake th \<longleftrightarrow> th \<noteq> DT_asleep \<and> th \<noteq> DT_exit"

definition how_many :: "(dthread \<Rightarrow> bool) \<Rightarrow> gst \<Rightarrow> nat" where
  "how_many P g = length (filter P (g_threads g))"

definition manned :: "gst \<Rightarrow> bool" where
  "manned g \<longleftrightarrow> g_avail g = how_many sleeping g \<and> g_running g = how_many (\<lambda>th. th \<noteq> DT_exit) g
     \<and> g_running g \<le> max_threads \<and> (g_queue g \<noteq> [] \<longrightarrow> (\<exists>th \<in> set (g_threads g). awake th))"

lemma how_many_update:
  assumes "t < length (g_threads g)" "g_threads g' = (g_threads g)[t := th]"
  shows "how_many P g' + (if P (g_threads g ! t) then 1 else 0) = how_many P g + (if P th then 1 else 0)"
proof -
  have "length (filter P (xs[t := th])) + (if P (xs ! t) then 1 else 0)
      = length (filter P xs) + (if P th then 1 else 0)" if "t < length xs" for xs
    using that
  proof (induction xs arbitrary: t)
    case (Cons x xs)
    then show ?case by (cases t) (use Cons in fastforce)+
  qed simp
  from this[OF assms(1)] show ?thesis by (simp add: how_many_def assms(2))
qed

lemma awake_update: "t < length xs \<Longrightarrow> awake th \<Longrightarrow> \<exists>x \<in> set (xs[t := th]). awake x"
  using set_update_memI by fastforce

lemma manned_wakeup:
  assumes m: "g_avail g = how_many sleeping g" "g_running g = how_many (\<lambda>th. th \<noteq> DT_exit) g" "g_running g \<le> max_threads"
    and w: "wakeup w g = Some g'"
  shows "manned g'"
proof -
  have av: "\<exists>th \<in> set (g_threads g). th = DT_asleep \<or> th = DT_woken" if "0 < g_avail g"
    using that m(1) by (auto simp: how_many_def sleeping_def filter_empty_conv)
  have "w < length (g_threads g) \<and> g_threads g ! w = DT_asleep \<and> g' = set_thread w DT_woken g
    \<or> 0 < g_avail g \<and> DT_asleep \<notin> set (g_threads g) \<and> g' = g
    \<or> g_avail g = 0 \<and> g_running g < max_threads \<and>
        g' = g\<lparr>g_running := g_running g + 1, g_threads := g_threads g @ [DT_loop]\<rparr>
    \<or> g_avail g = 0 \<and> max_threads \<le> g_running g \<and> g' = g"
    using w by (simp add: wakeup_def not_less split: if_splits)
  then consider (wake) "w < length (g_threads g)" "g_threads g ! w = DT_asleep" "g' = set_thread w DT_woken g"
    | (none) "0 < g_avail g" "DT_asleep \<notin> set (g_threads g)" "g' = g"
    | (new) "g_avail g = 0" "g_running g < max_threads"
        "g' = g\<lparr>g_running := g_running g + 1, g_threads := g_threads g @ [DT_loop]\<rparr>"
    | (full) "g_avail g = 0" "max_threads \<le> g_running g" "g' = g"
    by (elim disjE conjE) assumption+
  then show ?thesis
  proof cases
    case wake
    then have th: "g_threads g' = (g_threads g)[w := DT_woken]" by simp
    note h = how_many_update[OF wake(1) th, unfolded wake(2)]
    have sl: "how_many sleeping g' = how_many sleeping g"
      and rn: "how_many (\<lambda>th. th \<noteq> DT_exit) g' = how_many (\<lambda>th. th \<noteq> DT_exit) g"
      using h[of sleeping] h[of "\<lambda>th. th \<noteq> DT_exit"] by (simp_all add: sleeping_def)
    have "\<exists>x \<in> set (g_threads g'). awake x"
      unfolding th by (rule awake_update[OF wake(1)]) (simp add: awake_def)
    moreover have "g_avail g' = g_avail g" "g_running g' = g_running g" by (simp_all add: wake(3))
    ultimately show ?thesis using m sl rn by (simp add: manned_def)
  next
    case none
    then show ?thesis using m av by (auto simp: manned_def awake_def)
  next
    case new
    then show ?thesis using m by (auto simp: manned_def how_many_def sleeping_def awake_def)
  next
    case full
    have "filter sleeping (g_threads g) = []" using full(1) m(1) by (simp add: how_many_def)
    moreover have "filter (\<lambda>th. th \<noteq> DT_exit) (g_threads g) \<noteq> []"
      using full(2) m(2) by (auto simp: how_many_def max_threads_def)
    ultimately have "\<exists>th \<in> set (g_threads g). awake th"
      by (auto simp: filter_empty_conv awake_def sleeping_def)
    then show ?thesis using m full(3) by (simp add: manned_def)
  qed
qed

lemma manned_same:
  assumes "manned g" "g_avail g' = g_avail g" "g_running g' = g_running g" "g_threads g' = g_threads g"
    "g_queue g' = [] \<or> g_queue g' = g_queue g"
  shows "manned g'"
  using assms by (auto simp: manned_def how_many_def)

lemma manned_enqueue:
  assumes m: "manned g" and e: "g_enqueue n ex w g = Some g'" shows "manned g'"
proof (cases "inserts_psd (hpn_sub n) (g_pst g)")
  case True
  with e show ?thesis
    by (intro manned_wakeup[where w = w and g' = g'])
       (use m in \<open>auto simp: g_enqueue_def Let_def manned_def how_many_def\<close>)
next
  case False
  then have "prop_global_dispatch_queue (courier_enqueue0 (hpn_sub n) n ex (g_pst g)) = g_queue g"
    by (auto simp: inserts_psd_def courier_enqueue0_def upd_defs Let_def split: dispatch.splits option.splits)
  with False e show ?thesis
    by (intro manned_same[OF m]) (auto simp: g_enqueue_def Let_def)
qed

text \<open>A thread that does something else and is awake afterwards.\<close>

lemma manned_thread:
  assumes m: "manned g" and t: "t < length (g_threads g)" "g_threads g' = (g_threads g)[t := th]"
    and "awake th" "\<not> sleeping th"
    and "g_avail g' + (if sleeping (g_threads g ! t) then 1 else 0) = g_avail g" "g_running g' = g_running g"
      "g_threads g ! t \<noteq> DT_exit"
  shows "manned g'"
  using m how_many_update[OF t, of sleeping] how_many_update[OF t, of "\<lambda>th. th \<noteq> DT_exit"]
    awake_update[OF t(1), of th] assms(4-)
  by (auto simp: manned_def awake_def t(2) split: if_splits)

lemma deliver_threads:
  assumes "deliver t b m d n g = Some g'"
  shows "(g_threads g' = (g_threads g)[t := DT_busy d n] \<or> g_threads g' = (g_threads g)[t := DT_done d n])
    \<and> g_avail g' = g_avail g \<and> g_running g' = g_running g"
  using assms by (auto simp: deliver_def split: option.splits bool.splits)

lemma manned_run:
  assumes c: "core g" and m: "manned g" and r: "run_thread t busy g = Some g'" shows "manned g'"
proof -
  have t: "t < length (g_threads g)" using r by (auto simp: run_thread_def split: if_splits)
  note th = manned_thread[OF m t]
  have del: "manned g'" if "deliver t b l d n g = Some g'" "holds (g_threads g ! t) = Some (d, n)" for b l d n
  proof -
    from deliver_threads[OF that(1)] obtain x where "g_threads g' = (g_threads g)[t := x]"
      "x = DT_busy d n \<or> x = DT_done d n" "g_avail g' = g_avail g" "g_running g' = g_running g" by blast
    then show ?thesis
      using th[of g' x] that(2) by (cases "g_threads g ! t") (auto simp: awake_def sleeping_def)
  qed
  show ?thesis
  proof (cases "g_threads g ! t")
    case DT_loop
    show ?thesis
    proof (cases "g_queue g")
      case Nil
      with r t DT_loop consider
          (x) "g_avail g = idle_threads" "g' = set_thread t DT_exit (g\<lparr>g_running := g_running g - 1\<rparr>)"
        | (s) "g' = set_thread t DT_asleep (g\<lparr>g_avail := g_avail g + 1\<rparr>)"
        by (auto simp: run_thread_def split: if_splits)
      then show ?thesis
      proof cases
        case x
        have e: "g_threads g' = (g_threads g)[t := DT_exit]" by (simp add: x)
        show ?thesis
          using m Nil how_many_update[OF t e, of sleeping] how_many_update[OF t e, of "\<lambda>th. th \<noteq> DT_exit"] DT_loop
          by (auto simp: manned_def sleeping_def x(2))
      next
        case s
        have e: "g_threads g' = (g_threads g)[t := DT_asleep]" by (simp add: s)
        show ?thesis
          using m Nil how_many_update[OF t e, of sleeping] how_many_update[OF t e, of "\<lambda>th. th \<noteq> DT_exit"] DT_loop
          by (auto simp: manned_def sleeping_def s)
      qed
    next
      case (Cons d ds)
      then show ?thesis
        using r t DT_loop by (auto simp: run_thread_def awake_def sleeping_def split: list.splits intro!: th)
    qed
  next
    case DT_woken
    then have e: "g' = set_thread t DT_loop (g\<lparr>g_avail := g_avail g - 1\<rparr>)" using r t by (simp add: run_thread_def)
    have "0 < how_many sleeping g"
      using t DT_woken nth_mem[OF t] by (auto simp: how_many_def sleeping_def filter_empty_conv)
    then have "0 < g_avail g" using m by (simp add: manned_def)
    then show ?thesis
      by (intro th[of g' DT_loop]) (simp_all add: e awake_def sleeping_def DT_woken)
  next
    case (DT_busy d n)
    then obtain x where "g_threads g' = (g_threads g)[t := x]" "x = DT_loop \<or> x = DT_lock d n"
      "g_avail g' = g_avail g" "g_running g' = g_running g"
      using r t by (auto simp: run_thread_def Let_def split: option.splits)
    then show ?thesis using th[of g' x] DT_busy by (auto simp: awake_def sleeping_def)
  next
    case (DT_done d n)
    then have e: "g' = end_round t d n g" using r t by (simp add: run_thread_def)
    show ?thesis
      by (rule th[of g' DT_loop]) (simp_all add: e end_round_facts[OF c t DT_done] DT_done awake_def sleeping_def)
  qed (use del r t in \<open>auto simp: run_thread_def\<close>)
qed

section \<open>Every step\<close>

lemma rooted_step:
  assumes "g_step g g'" "core g" "all_rooted g" shows "all_rooted g'"
  using assms(1)
proof (cases rule: g_step.cases)
  case (g_thread t busy) then show ?thesis using rooted_run[OF assms(2,3)] by blast
next
  case (g_queued n ex w) then show ?thesis using rooted_enqueue[OF assms(2,3)] by blast
next
  case (g_other p') then show ?thesis using rooted_env[OF assms(3), of p'] by simp
qed

lemma manned_step:
  assumes "g_step g g'" "core g" "manned g" shows "manned g'"
  using assms(1)
proof (cases rule: g_step.cases)
  case (g_thread t busy) then show ?thesis using manned_run[OF assms(2,3)] by blast
next
  case (g_queued n ex w) then show ?thesis using manned_enqueue[OF assms(3)] by blast
next
  case (g_other p')
  then show ?thesis by (intro manned_same[OF assms(3)]) (simp_all add: env_ok_def)
qed

text \<open>A state in which nothing was ever queued for a dispatch thread.\<close>

definition g_start :: "pst \<Rightarrow> bool" where
  "g_start p \<longleftrightarrow> prop_global_dispatch_queue p = []
     \<and> (\<forall>d < psdnext p. psd_notifications (psds p d) = [] \<and> psd_wait_queue (psds p d) = [])
     \<and> (\<forall>s. case hps_dispatch (subs p s) of MODE_COURIER _ \<Rightarrow> True
              | MODE_GLOBAL d \<Rightarrow> d = None | MODE_GROUP d \<Rightarrow> d < psdnext p)"

lemma core_init: assumes "g_start p" shows "core (g_init p)"
proof -
  have d: "hps_dispatch (subs p s) \<noteq> MODE_GLOBAL (Some d)"
    "hps_dispatch (subs p s) = MODE_GROUP d \<Longrightarrow> d < psdnext p" for s d
    using assms by (auto simp: g_start_def dest!: spec[of _ s])
  have n: "d < psdnext p \<Longrightarrow> nots (g_init p) d = [] \<and> waits (g_init p) d = []" for d
    using assms by (simp add: g_start_def nots_def waits_def g_init_def)
  have o: "owned (g_init p)" using d n by (auto simp: owned_def g_init_def)
  have "places (g_init p) d = 0" for d
    using assms n by (simp add: places_def g_init_def g_start_def)
  moreover have "\<not> pend (g_init p) d" for d using n by (auto simp: pend_def g_init_def)
  moreover have "held (g_init p) d = 0" for d by (simp add: held_def g_init_def)
  ultimately show ?thesis using o by (simp add: core_def) (simp add: g_init_def)
qed

lemma rooted_init: "g_start p \<Longrightarrow> all_rooted (g_init p)"
  by (auto simp: all_rooted_def pend_def g_start_def nots_def g_init_def)

lemma manned_init: "g_start p \<Longrightarrow> manned (g_init p)"
  by (simp add: manned_def g_start_def g_init_def how_many_def max_threads_def)

lemma reach_inv:
  assumes "g_reach g0 g" "core g0" "all_rooted g0" "manned g0"
  shows "core g \<and> all_rooted g \<and> manned g"
  using assms by induction (auto intro: core_step rooted_step manned_step)

lemmas init_inv = reach_inv[OF _ core_init rooted_init manned_init]

text \<open>Two threads never hold one structure.\<close>

lemma one_holder:
  assumes c: "core g" and t: "t < length (g_threads g)" "t' < length (g_threads g)"
    and h: "holds (g_threads g ! t) = Some (d, n)" "holds (g_threads g ! t') = Some (d, n')"
  shows "t' = t"
proof (rule ccontr)
  assume ne: "t' \<noteq> t"
  note hp = held_pend[OF c thread_in[OF t(1) refl] h(1)]
  have "held g d \<le> 1"
    using disp_pend[OF c hp(2)] coreD(2)[OF c, of d] by (auto simp: places_def)
  then have "held (set_thread t DT_loop g) d = 0"
    using held_set_thread[OF t(1), of DT_loop d] h(1) by (simp add: held1_def)
  from no_hold[OF this] show False
    using t(2) ne h(2) nth_mem[of t' "(g_threads g)[t := DT_loop]"] by auto
qed

end
