(* ===== verification/Dispatch_Fifo.thy ===== *)
theory Dispatch_Fifo
  imports Dispatch_Wake
begin

text \<open>
  Every subscription served by the dispatch threads gets its notifications in the order they were
  queued: what was queued for it is what was handled, followed by what its structure still holds.
\<close>

definition of_sub :: "sid \<Rightarrow> prop_notify_t list \<Rightarrow> prop_notify_t list" where
  "of_sub s ns = filter (\<lambda>n. hpn_sub n = s) ns"

fun is_done :: "did \<Rightarrow> dthread \<Rightarrow> bool" where
  "is_done d (DT_done e n) = (d = e)"
| "is_done d _ = False"

definition delivered :: "gst \<Rightarrow> did \<Rightarrow> bool" where
  "delivered g d \<longleftrightarrow> (\<exists>th \<in> set (g_threads g). is_done d th)"

text \<open>A delivered notification stays on its structure until the end of the round.\<close>

definition left :: "gst \<Rightarrow> did \<Rightarrow> prop_notify_t list" where
  "left g d = (if delivered g d then tl (nots g d) else nots g d)"

definition owed :: "gst \<Rightarrow> sid \<Rightarrow> prop_notify_t list" where
  "owed g s = (case hps_dispatch (subs (g_pst g) s) of
                 MODE_COURIER _ \<Rightarrow> []
               | MODE_GLOBAL x \<Rightarrow> (case x of None \<Rightarrow> [] | Some d \<Rightarrow> of_sub s (left g d))
               | MODE_GROUP d \<Rightarrow> of_sub s (left g d))"

definition fifo :: "gst \<Rightarrow> bool" where
  "fifo g \<longleftrightarrow> (\<forall>s. of_sub s (g_sent g) = of_sub s (g_handled g) @ owed g s)"

lemma of_sub_simps [simp]:
  "of_sub s [] = []" "of_sub s (xs @ ys) = of_sub s xs @ of_sub s ys"
  "of_sub s (n # ns) = (if hpn_sub n = s then n # of_sub s ns else of_sub s ns)"
  by (simp_all add: of_sub_def)

lemma of_sub_none: "(\<forall>n \<in> set ns. hpn_sub n \<noteq> s) \<Longrightarrow> of_sub s ns = []"
  by (simp add: of_sub_def filter_empty_conv)

lemma owed_cong:
  assumes "\<forall>s. hps_dispatch (subs (g_pst g') s) = hps_dispatch (subs (g_pst g) s)" "\<forall>d. left g' d = left g d"
  shows "owed g' s = owed g s"
  using assms by (simp add: owed_def split: dispatch.split option.split)

lemma fifo_cong:
  assumes "fifo g" "g_sent g' = g_sent g" "g_handled g' = g_handled g" "\<forall>s. owed g' s = owed g s"
  shows "fifo g'"
  using assms by (simp add: fifo_def)

text \<open>Whether a delivered notification remains, thread by thread.\<close>

definition delivered_by_other :: "nat \<Rightarrow> gst \<Rightarrow> did \<Rightarrow> bool" where
  "delivered_by_other t g d \<longleftrightarrow> (\<exists>i < length (g_threads g). i \<noteq> t \<and> is_done d (g_threads g ! i))"

lemma delivered_split:
  assumes "t < length (g_threads g)"
  shows "delivered g d \<longleftrightarrow> is_done d (g_threads g ! t) \<or> delivered_by_other t g d"
  using assms by (auto simp: delivered_def delivered_by_other_def in_set_conv_nth intro: bexI[OF _ nth_mem])

lemma delivered_after:
  assumes t: "t < length (g_threads g)" "g_threads g' = (g_threads g)[t := th]"
  shows "delivered g' d \<longleftrightarrow> is_done d th \<or> delivered_by_other t g d"
proof -
  have "delivered_by_other t g' d = delivered_by_other t g d"
    unfolding delivered_by_other_def t(2) length_list_update by (metis nth_list_update_neq)
  then show ?thesis using delivered_split[of t g' d] t by simp
qed

lemma delivered_update:
  assumes t: "t < length (g_threads g)" "g_threads g' = (g_threads g)[t := th]"
    and n: "\<not> is_done d (g_threads g ! t)" "\<not> is_done d th"
  shows "delivered g' d = delivered g d"
  using n by (simp add: delivered_split[OF t(1)] delivered_after[OF t])

lemma is_done_holds: "is_done d th \<Longrightarrow> \<exists>n. holds th = Some (d, n)"
  by (cases th) auto

lemma other_none:
  assumes c: "core g" and t: "t < length (g_threads g)" "holds (g_threads g ! t) = Some (d, n)"
  shows "\<not> delivered_by_other t g d"
  using one_holder[OF c t(1) _ t(2)] is_done_holds unfolding delivered_by_other_def by blast

lemma delivered_wakeup: assumes "wakeup w g = Some g'" shows "delivered g' d = delivered g d"
proof -
  note W = wakeup_cases[OF assms]
  consider "g' = g" | "w < length (g_threads g)" "g_threads g ! w = DT_asleep" "g_threads g' = (g_threads g)[w := DT_woken]"
    | "g_threads g' = g_threads g @ [DT_loop]" using W by blast
  then show ?thesis
  proof cases
    case 2
    show ?thesis by (rule delivered_update[OF 2(1,3)]) (use 2(2) in simp_all)
  qed (simp_all add: delivered_def)
qed

lemma fifo_view:
  assumes f: "fifo g" and v: "same_view g g'" and e: "g_sent g' = g_sent g" "g_handled g' = g_handled g"
    and d: "\<forall>d. delivered g' d = delivered g d"
  shows "fifo g'"
  by (rule fifo_cong[OF f e])
     (intro allI owed_cong; simp add: same_view_sel[OF v] left_def d)

lemma fifo_enqueue:
  assumes c: "core g" and f: "fifo g" and e: "g_enqueue n ex w g = Some g'" shows "fifo g'"
proof -
  define u where "u = g\<lparr>g_pst := courier_enqueue0 (hpn_sub n) n ex (g_pst g),
      g_sent := (case hps_dispatch (subs (g_pst g) (hpn_sub n)) of MODE_COURIER _ \<Rightarrow> g_sent g
                 | _ \<Rightarrow> g_sent g @ [n])\<rparr>"
  have "wakeup w u = Some g' \<or> g' = u"
    using e by (auto simp: g_enqueue_def Let_def u_def split: if_splits)
  then have g': "same_view u g'" "g_sent g' = g_sent u" "g_handled g' = g_handled u"
    "\<forall>d. delivered g' d = delivered u d"
    using wakeup_cases[of w u g'] delivered_wakeup[of w u g'] by (auto simp: same_view_def)
  have u: "g_pst u = courier_enqueue0 (hpn_sub n) n ex (g_pst g)" "g_handled u = g_handled g"
    "delivered u d = delivered g d" for d
    by (simp_all add: u_def delivered_def)
  note o = ownedD[OF coreD(4)[OF c]]
  have nd: "delivered g d \<Longrightarrow> nots g d \<noteq> [] \<and> d < psdnext (g_pst g)" for d
    using held_pend(1)[OF c] is_done_holds unfolding delivered_def pend_def by blast
  have more: "fifo u" if m: "hps_dispatch (subs (g_pst g) (hpn_sub n)) = MODE_GLOBAL (Some d)
      \<or> hps_dispatch (subs (g_pst g) (hpn_sub n)) = MODE_GROUP d" for d
  proof -
    note E = enqueue_more[OF m, of n ex]
    have l: "left u x = left g x @ (if x = d then [n] else [])" for x
      using nd[of x] by (auto simp: left_def u nots_def E)
    have "g_sent u = g_sent g @ [n]" using m by (auto simp: u_def)
    moreover have "owed u s = owed g s @ (if s = hpn_sub n then [n] else [])" for s
      using m by (auto simp: owed_def u E l split: dispatch.split option.split)
    ultimately show ?thesis using f by (simp add: fifo_def u)
  qed
  have "fifo u"
  proof (cases "hps_dispatch (subs (g_pst g) (hpn_sub n))")
    case (MODE_COURIER x)
    have "same_view g u" using enqueue_courier[OF MODE_COURIER] by (simp add: same_view_def u_def)
    from fifo_view[OF f this] show ?thesis using MODE_COURIER by (simp add: u) (simp add: u_def)
  next
    case (MODE_GLOBAL x)
    show ?thesis
    proof (cases x)
      case None
      with MODE_GLOBAL have m: "hps_dispatch (subs (g_pst g) (hpn_sub n)) = MODE_GLOBAL None" by simp
      note E = enqueue_new[OF m, of n ex]
      have "\<not> delivered g (psdnext (g_pst g))" using nd by blast
      then have l: "left u x = (if x = psdnext (g_pst g) then [n] else left g x)" for x
        by (simp add: left_def u nots_def E)
      have "owed u s = (if s = hpn_sub n then [n] else owed g s)" for s
        using o(1)[of s "psdnext (g_pst g)"] o(2)[of s "psdnext (g_pst g)"]
        by (auto simp: owed_def u E l pend_def split: dispatch.split option.split)
      moreover have "owed g (hpn_sub n) = []" by (simp add: owed_def m)
      moreover have "g_sent u = g_sent g @ [n]" by (simp add: u_def m)
      ultimately show ?thesis using f by (auto simp: fifo_def u)
    qed (use more MODE_GLOBAL in auto)
  qed (use more in auto)
  from fifo_view[OF this g'] show ?thesis .
qed

lemma fifo_env:
  assumes c: "core g" and f: "fifo g" and e: "env_ok (g_pst g) p'" shows "fifo (g\<lparr>g_pst := p'\<rparr>)"
    (is "fifo ?g")
proof (rule fifo_cong[OF f], simp, simp, intro allI)
  fix s
  let ?N = "psdnext (g_pst g)"
  note o = ownedD[OF coreD(4)[OF c]]
  have dv: "delivered ?g d = delivered g d" for d by (simp add: delivered_def)
  have l: "left ?g d = left g d" if "d < ?N" for d
    using that e by (simp add: left_def nots_def dv env_ok_def)
  have new: "left ?g d = []" if "?N \<le> d" "d < psdnext p'" for d
    using that e by (simp add: left_def nots_def env_ok_def)
  have sub: "set (left g d) \<subseteq> set (nots g d)" for d
    by (cases "nots g d") (auto simp: left_def)
  have "hps_dispatch (subs p' s) = hps_dispatch (subs (g_pst g) s) \<or>
      (\<forall>d. hps_dispatch (subs (g_pst g) s) \<noteq> MODE_GLOBAL (Some d)) \<and>
      (\<forall>d < ?N. \<forall>n \<in> set (nots g d). hpn_sub n \<noteq> s) \<and>
      (case hps_dispatch (subs p' s) of MODE_COURIER _ \<Rightarrow> True | MODE_GLOBAL d \<Rightarrow> d = None | MODE_GROUP d \<Rightarrow>
         d < psdnext p' \<and> (\<forall>s'. hps_dispatch (subs (g_pst g) s') \<noteq> MODE_GLOBAL (Some d)))"
    using e unfolding env_ok_def nots_def by blast
  then consider "hps_dispatch (subs p' s) = hps_dispatch (subs (g_pst g) s)"
    | (ch) "\<forall>d. hps_dispatch (subs (g_pst g) s) \<noteq> MODE_GLOBAL (Some d)"
        "\<forall>d < ?N. \<forall>n \<in> set (nots g d). hpn_sub n \<noteq> s"
        "case hps_dispatch (subs p' s) of MODE_COURIER _ \<Rightarrow> True | MODE_GLOBAL d \<Rightarrow> d = None
           | MODE_GROUP d \<Rightarrow> d < psdnext p'"
    by (cases "hps_dispatch (subs p' s)") (simp_all, blast+)
  then show "owed ?g s = owed g s"
  proof cases
    case 1
    then show ?thesis
      using o(1,2)[of s] l by (auto simp: owed_def pend_def split: dispatch.split option.split)
  next
    case ch
    have z: "d < ?N \<Longrightarrow> of_sub s (left g d) = []" for d
      using ch(2) sub[of d] by (intro of_sub_none) blast
    have "owed g s = []"
      using ch(1) o(2)[of s] z by (auto simp: owed_def split: dispatch.split option.split)
    moreover have "of_sub s (left ?g d) = []" if "d < psdnext p'" for d
      using z[of d] l[of d] new[of d] that by (cases "d < ?N") simp_all
    then have "owed ?g s = []"
      using ch(3) by (auto simp: owed_def split: dispatch.splits option.split)
    ultimately show ?thesis by simp
  qed
qed

lemma fifo_deliver:
  assumes c: "core g" and f: "fifo g" and t: "t < length (g_threads g)" "holds (g_threads g ! t) = Some (d, n)"
    "\<forall>d. \<not> is_done d (g_threads g ! t)" and r: "deliver t b m d n g = Some g'"
  shows "fifo g'"
proof -
  from r obtain x p where o: "prop_dispatch_one b n m (g_pst g) = Some (x, p)"
    and g': "g' = (if x then set_thread t (DT_busy d n) g
                   else set_thread t (DT_done d n) (g\<lparr>g_pst := p, g_handled := g_handled g @ [n]\<rparr>))"
    by (auto simp: deliver_def split: option.splits bool.splits)
  have v: "same_view g g'" using dispatch_one_disp[OF o] by (simp add: g' same_view_def)
  note V = same_view_sel[OF v]
  show ?thesis
  proof (cases x)
    case True
    then have "\<forall>e. delivered g' e = delivered g e"
      using delivered_update[OF t(1), of g' "DT_busy d n"] t(3) by (simp add: g')
    from fifo_view[OF f v _ _ this] show ?thesis using True by (simp add: g')
  next
    case False
    obtain ns where k: "nots g d = n # ns" using coreD(3)[OF c thread_in[OF t(1) refl] t(2)] by blast
    note hp = held_pend(1)[OF c thread_in[OF t(1) refl] t(2)]
    note o = ownedD[OF coreD(4)[OF c]]
    have th: "g_threads g' = (g_threads g)[t := DT_done d n]" using False by (simp add: g')
    have "\<not> delivered g d"
      using t(3) other_none[OF c t(1,2)] by (simp add: delivered_split[OF t(1)])
    moreover have "delivered g' e = (e = d \<or> delivered g e)" for e
      using t(3) by (auto simp: delivered_split[OF t(1)] delivered_after[OF t(1) th])
    ultimately have l: "left g d = n # ns" "left g' e = (if e = d then ns else left g e)" for e
      by (simp_all add: left_def V k)
    have m: "hps_dispatch (subs (g_pst g) (hpn_sub n)) = MODE_GLOBAL (Some d)
        \<or> hps_dispatch (subs (g_pst g) (hpn_sub n)) = MODE_GROUP d"
      using o(5)[of d n] hp k by (simp add: pend_def)
    have "owed g s = (if s = hpn_sub n then [n] else []) @ owed g' s" for s
      using m by (auto simp: owed_def V l split: dispatch.split option.split)
    moreover have "g_sent g' = g_sent g" "g_handled g' = g_handled g @ [n]" using False by (simp_all add: g')
    ultimately show ?thesis using f by (simp add: fifo_def)
  qed
qed

lemma fifo_end_round:
  assumes c: "core g" and f: "fifo g" and t: "t < length (g_threads g)" "g_threads g ! t = DT_done d n"
  shows "fifo (end_round t d n g)" (is "fifo ?g")
proof (rule fifo_cong[OF f])
  note E = end_round_facts[OF c t]
  show "g_sent ?g = g_sent g" "g_handled ?g = g_handled g" by (simp_all add: E)
  have hd: "holds (g_threads g ! t) = Some (d, n)" using t(2) by simp
  have dd: "delivered g d" using t(2) by (simp add: delivered_split[OF t(1)])
  have "delivered ?g e = (e \<noteq> d \<and> delivered g e)" for e
    using t(2) other_none[OF c t(1) hd] by (auto simp: delivered_split[OF t(1)] delivered_after[OF t(1) E(4)])
  then have l: "left ?g e = left g e" for e using dd by (simp add: left_def E)
  have dl: "left g d = tl (nots g d)" using dd by (simp add: left_def)
  note o = ownedD[OF coreD(4)[OF c]]
  obtain ns where k: "nots g d = n # ns" using coreD(3)[OF c thread_in[OF t(1) refl] hd] by blast
  note hp = held_pend(1)[OF c thread_in[OF t(1) refl] hd]
  have m: "hps_dispatch (subs (g_pst g) (hpn_sub n)) = MODE_GLOBAL (Some d)
      \<or> hps_dispatch (subs (g_pst g) (hpn_sub n)) = MODE_GROUP d"
    using o(5)[of d n] hp k by (simp add: pend_def)
  show "\<forall>s. owed ?g s = owed g s"
    using m by (auto simp: owed_def E l dl split: dispatch.split option.split)
qed

lemma fifo_run:
  assumes c: "core g" and f: "fifo g" and r: "run_thread t busy g = Some g'" shows "fifo g'"
proof -
  have t: "t < length (g_threads g)" using r by (auto simp: run_thread_def split: if_splits)
  have other: "fifo g'" if "\<forall>d. \<not> is_done d (g_threads g ! t)" "g_threads g' = (g_threads g)[t := th]"
    "\<forall>d. \<not> is_done d th" "g_sent g' = g_sent g" "g_handled g' = g_handled g"
    "nots g' = nots g" "subs (g_pst g') = subs (g_pst g)" for th
    by (rule fifo_cong[OF f that(4,5)], intro allI owed_cong)
       (use delivered_update[OF t that(2)] that(1,3,6,7) in \<open>simp_all add: left_def\<close>)
  note del = fifo_deliver[OF c f t]
  show ?thesis
  proof (cases "g_threads g ! t")
    case DT_loop
    then obtain th where "g_threads g' = (g_threads g)[t := th]" "\<forall>d. \<not> is_done d th"
        "g_sent g' = g_sent g" "g_handled g' = g_handled g" "nots g' = nots g" "subs (g_pst g') = subs (g_pst g)"
      using r t by (auto simp: run_thread_def split: list.splits if_splits)
    then show ?thesis using other[of th] DT_loop by simp
  next
    case DT_woken
    show ?thesis by (rule other[of DT_loop]) (use r t DT_woken in \<open>auto simp: run_thread_def\<close>)
  next
    case (DT_busy d n)
    then obtain th where "g_threads g' = (g_threads g)[t := th]" "\<forall>d. \<not> is_done d th"
        "g_sent g' = g_sent g" "g_handled g' = g_handled g" "nots g' = nots g" "subs (g_pst g') = subs (g_pst g)"
      using r t by (auto simp: run_thread_def Let_def split: option.splits)
    then show ?thesis using other[of th] DT_busy by simp
  next
    case (DT_try d n)
    then show ?thesis using del[of d n busy LOCKMGR_TRY g'] r t by (simp add: run_thread_def)
  next
    case (DT_lock d n)
    then show ?thesis using del[of d n "{}" LOCKMGR_LOCK g'] r t by (simp add: run_thread_def)
  next
    case (DT_done d n)
    then show ?thesis using fifo_end_round[OF c f t DT_done] r t by (simp add: run_thread_def)
  qed (use r t in \<open>auto simp: run_thread_def\<close>)
qed

lemma fifo_step:
  assumes "g_step g g'" "core g" "fifo g" shows "fifo g'"
  using assms(1)
proof (cases rule: g_step.cases)
  case (g_thread t busy) then show ?thesis using fifo_run[OF assms(2,3)] by blast
next
  case (g_queued n ex w) then show ?thesis using fifo_enqueue[OF assms(2,3)] by blast
next
  case (g_other p') then show ?thesis using fifo_env[OF assms(2,3)] by simp
qed

lemma fifo_init: assumes "g_start p" shows "fifo (g_init p)"
proof -
  have d: "hps_dispatch (subs p s) \<noteq> MODE_GLOBAL (Some d)" for s d
    using assms by (auto simp: g_start_def dest!: spec[of _ s])
  have e: "psd_notifications (psds p d) = []" if "hps_dispatch (subs p s) = MODE_GROUP d" for s d
  proof -
    have "d < psdnext p" using assms that by (auto simp: g_start_def dest: spec[of _ s])
    then show ?thesis using assms by (simp add: g_start_def)
  qed
  show ?thesis
    using d e by (auto simp: fifo_def owed_def left_def delivered_def nots_def g_init_def split: dispatch.split option.split)
qed

lemma reach_fifo:
  assumes "g_reach g0 g" "core g0" "all_rooted g0" "manned g0" "fifo g0" shows "fifo g"
  using assms
proof induction
  case (g_reach_step g g')
  then show ?case using fifo_step reach_inv[OF g_reach_step.hyps(1)] by blast
qed

end
