(* ===== verification/Dispatch_Live.thy ===== *)
theory Dispatch_Live
  imports Dispatch_Fifo
begin

text \<open>
  The dispatch threads make progress: as long as something is pending some thread can take a step,
  unless the delivery of a notification itself aborts, and no sequence of thread steps is infinite.
\<close>

section \<open>Every step of a thread uses something up\<close>

fun weight :: "dthread \<Rightarrow> nat" where
  "weight DT_woken = 2"
| "weight DT_loop = 1"
| "weight (DT_try d n) = 5"
| "weight (DT_busy d n) = 4"
| "weight (DT_lock d n) = 3"
| "weight (DT_done d n) = 2"
| "weight _ = 0"

definition load :: "gst \<Rightarrow> nat" where
  "load g = (\<Sum>d < psdnext (g_pst g). length (nots g d))"

definition rank :: "gst \<Rightarrow> nat" where
  "rank g = 12 * load g + 6 * length (g_queue g) + sum_list (map weight (g_threads g))"

lemma weights_update:
  "t < length xs \<Longrightarrow> sum_list (map weight (xs[t := th])) + weight (xs ! t) = sum_list (map weight xs) + weight th"
proof (induction xs arbitrary: t)
  case (Cons x xs) then show ?case by (cases t) (auto simp: add.commute add.left_commute)
qed simp

lemma load_cong: "psdnext (g_pst g') = psdnext (g_pst g) \<Longrightarrow> nots g' = nots g \<Longrightarrow> load g' = load g"
  by (simp add: load_def)

lemma rank_less:
  assumes "t < length (g_threads g)" "g_threads g' = (g_threads g)[t := th]"
    and "12 * load g' + 6 * length (g_queue g') + weight th
         < 12 * load g + 6 * length (g_queue g) + weight (g_threads g ! t)"
  shows "rank g' < rank g"
  using weights_update[OF assms(1), of th] assms(3) by (simp add: rank_def assms(2))

lemma lock_never_busy: "prop_dispatch_one {} n LOCKMGR_LOCK p \<noteq> Some (True, p')"
  by (auto simp: prop_dispatch_one_def Let_def bind_eq_Some_conv split: if_splits option.splits)

lemma rank_deliver:
  assumes t: "t < length (g_threads g)" and r: "deliver t b m d n g = Some g'"
    and w: "5 \<le> weight (g_threads g ! t) \<or> 3 \<le> weight (g_threads g ! t) \<and> b = {} \<and> m = LOCKMGR_LOCK"
  shows "rank g' < rank g"
proof -
  from r obtain x p where o: "prop_dispatch_one b n m (g_pst g) = Some (x, p)"
    and g': "g' = (if x then set_thread t (DT_busy d n) g
                   else set_thread t (DT_done d n) (g\<lparr>g_pst := p, g_handled := g_handled g @ [n]\<rparr>))"
    by (auto simp: deliver_def split: option.splits bool.splits)
  have v: "same_view g g'" using dispatch_one_disp[OF o] by (simp add: g' same_view_def)
  note V = same_view_sel[OF v]
  have l: "load g' = load g" by (rule load_cong) (simp_all add: V)
  show ?thesis
  proof (cases x)
    case True
    then have "5 \<le> weight (g_threads g ! t)" using w o lock_never_busy[of n "g_pst g" p] by auto
    then show ?thesis by (intro rank_less[OF t, of g' "DT_busy d n"]) (use True in \<open>simp_all add: g' load_def\<close>)
  next
    case False
    show ?thesis
      by (rule rank_less[OF t, of g' "DT_done d n"]) (use False w l V(3) in \<open>auto simp: g'\<close>)
  qed
qed

lemma load_end_round:
  assumes c: "core g" and t: "t < length (g_threads g)" "g_threads g ! t = DT_done d n"
  shows "Suc (load (end_round t d n g)) = load g"
proof -
  note E = end_round_facts[OF c t]
  have hd: "holds (g_threads g ! t) = Some (d, n)" using t(2) by simp
  obtain ns where k: "nots g d = n # ns" using coreD(3)[OF c thread_in[OF t(1) refl] hd] by blast
  have d: "d < psdnext (g_pst g)"
    using held_pend(1)[OF c thread_in[OF t(1) refl] hd] by (simp add: pend_def)
  let ?S = "{..<psdnext (g_pst g)}"
  have "load g = length (nots g d) + (\<Sum>e \<in> ?S - {d}. length (nots g e))"
    unfolding load_def using d by (subst sum.remove[of ?S d]) auto
  moreover have "load (end_round t d n g) = length ns + (\<Sum>e \<in> ?S - {d}. length (nots g e))"
    unfolding load_def E(2) using d by (subst sum.remove[of ?S d]) (auto simp: E k intro!: sum.cong)
  ultimately show ?thesis by (simp add: k)
qed

lemma rank_run:
  assumes c: "core g" and r: "run_thread t busy g = Some g'" shows "rank g' < rank g"
proof -
  have t: "t < length (g_threads g)" using r by (auto simp: run_thread_def split: if_splits)
  show ?thesis
  proof (cases "g_threads g ! t")
    case DT_loop
    then obtain th where "g_threads g' = (g_threads g)[t := th]" "load g' = load g"
        "6 * length (g_queue g') + weight th < 6 * length (g_queue g) + 1"
      using r t by (auto simp: run_thread_def load_def split: list.splits if_splits)
    then show ?thesis by (intro rank_less[OF t]) (simp_all add: DT_loop)
  next
    case DT_woken
    show ?thesis by (rule rank_less[OF t, of _ DT_loop])
      (use r t DT_woken in \<open>auto simp: run_thread_def load_def\<close>)
  next
    case (DT_busy d n)
    then obtain th where "g_threads g' = (g_threads g)[t := th]" "load g' = load g"
        "g_queue g' = g_queue g" "weight th < 4"
      using r t by (auto simp: run_thread_def Let_def load_def split: option.splits)
    then show ?thesis by (intro rank_less[OF t]) (simp_all add: DT_busy)
  next
    case (DT_try d n)
    then show ?thesis using rank_deliver[OF t, of busy LOCKMGR_TRY d n g'] r t by (simp add: run_thread_def)
  next
    case (DT_lock d n)
    then show ?thesis using rank_deliver[OF t, of "{}" LOCKMGR_LOCK d n g'] r t by (simp add: run_thread_def)
  next
    case (DT_done d n)
    then have e: "g' = end_round t d n g" using r t by (simp add: run_thread_def)
    note E = end_round_facts[OF c t DT_done]
    show ?thesis
      by (rule rank_less[OF t, of _ DT_loop])
         (use load_end_round[OF c t DT_done] in \<open>auto simp: e E DT_done\<close>)
  qed (use r t in \<open>auto simp: run_thread_def\<close>)
qed

section \<open>Some thread can always go on\<close>

text \<open>A thread whose delivery fails an assertion or uses an object that was freed.\<close>

definition aborting :: "nat \<Rightarrow> nat set \<Rightarrow> gst \<Rightarrow> bool" where
  "aborting t busy g \<longleftrightarrow> t < length (g_threads g) \<and>
     (case g_threads g ! t of
        DT_try d n \<Rightarrow> prop_dispatch_one busy n LOCKMGR_TRY (g_pst g) = None
      | DT_lock d n \<Rightarrow> prop_dispatch_one {} n LOCKMGR_LOCK (g_pst g) = None
      | _ \<Rightarrow> False)"

lemma find_contender_total:
  "(\<forall>s \<in> set ss. s \<noteq> d \<and> nots g s \<noteq> []) \<Longrightarrow> find_contender g d n ss \<noteq> None"
  by (induction ss) (auto split: list.split)

lemma queue_pend:
  assumes "core g" "d \<in> set (g_queue g)" shows "pend g d"
proof -
  have "0 < count_list (g_queue g) d" using assms(2) by (metis count_list_0_iff neq0_conv)
  then show ?thesis using coreD(1)[OF assms(1), of d] by (simp add: places_def split: if_splits)
qed

lemma run_total:
  assumes c: "core g" and t: "t < length (g_threads g)" "awake (g_threads g ! t)" and a: "\<not> aborting t busy g"
  shows "run_thread t busy g \<noteq> None"
proof (cases "g_threads g ! t")
  case DT_loop
  show ?thesis
  proof (cases "g_queue g")
    case (Cons d ds)
    then have "nots g d \<noteq> []" using queue_pend[OF c, of d] by (simp add: pend_def)
    then show ?thesis using t DT_loop Cons by (auto simp: run_thread_def split: list.split)
  qed (use t DT_loop in \<open>simp add: run_thread_def\<close>)
next
  case (DT_busy d n)
  let ?g1 = "g\<lparr>g_dispatching := remove1 d (g_dispatching g)\<rparr>"
  have "holds (g_threads g ! t) = Some (d, n)" using DT_busy by simp
  note hp = held_pend[OF c thread_in[OF t(1) refl] this]
  have "places g d = 1" using disp_pend[OF c hp(2)] by simp
  then have "count_list (g_dispatching g) d \<le> 1" by (simp add: places_def)
  moreover have "count_list (remove1 d (g_dispatching g)) d + 1 = count_list (g_dispatching g) d"
    using count_remove1[OF hp(2), of d] by (simp only: if_True refl)
  ultimately have "count_list (remove1 d (g_dispatching g)) d = 0" by linarith
  then have "d \<notin> set (remove1 d (g_dispatching g))" by (simp only: count_list_0_iff not_False_eq_True)
  then have "find_contender ?g1 d n (g_dispatching ?g1) \<noteq> None"
    using disp_pend[OF c] set_remove1_subset[of d "g_dispatching g"]
    by (intro find_contender_total) (auto simp: pend_def)
  then show ?thesis using t DT_busy by (auto simp: run_thread_def Let_def split: option.splits)
next
  case (DT_try d n)
  then show ?thesis using t(1) a by (auto simp: run_thread_def aborting_def deliver_def split: option.splits bool.splits)
next
  case (DT_lock d n)
  then show ?thesis using t(1) a by (auto simp: run_thread_def aborting_def deliver_def split: option.splits bool.splits)
qed (use t in \<open>auto simp: run_thread_def awake_def\<close>)

lemma someone_awake:
  assumes c: "core g" and a: "all_rooted g" and m: "manned g" and p: "pend g d"
  shows "\<exists>t < length (g_threads g). awake (g_threads g ! t)"
proof -
  have "g_queue g \<noteq> [] \<or> g_dispatching g \<noteq> []"
    using a p rooted_somewhere by (auto simp: all_rooted_def)
  then have "\<exists>th \<in> set (g_threads g). awake th"
  proof
    assume "g_queue g \<noteq> []" with m show ?thesis by (simp add: manned_def)
  next
    assume "g_dispatching g \<noteq> []"
    then obtain e where "e \<in> set (g_dispatching g)" by (cases "g_dispatching g") auto
    then have "0 < held g e" using coreD(2)[OF c, of e] by (metis count_list_0_iff neq0_conv)
    then obtain th where "th \<in> set (g_threads g)" "0 < held1 e th"
      unfolding held_def by (metis (no_types, lifting) ex_map_conv sum_list_eq_0_iff neq0_conv list.set_map imageE)
    moreover from \<open>0 < held1 e th\<close> have "awake th" by (cases th; simp add: held1_def awake_def)
    ultimately show ?thesis by blast
  qed
  then show ?thesis by (metis in_set_conv_nth)
qed

section \<open>Runs of the threads alone\<close>

inductive t_run :: "gst \<Rightarrow> gst \<Rightarrow> bool" where
  t_stop: "t_run g g"
| t_go: "run_thread t busy g = Some g' \<Longrightarrow> t_run g' g'' \<Longrightarrow> t_run g g''"

lemma t_run_keeps:
  assumes "t_run g g'" "core g" "all_rooted g" "manned g" "fifo g"
  shows "core g' \<and> all_rooted g' \<and> manned g' \<and> fifo g' \<and> rank g' \<le> rank g"
  using assms
proof induction
  case (t_go t busy g g' g'')
  then show ?case
    using core_run rooted_run manned_run fifo_run rank_run[OF t_go.prems(1) t_go.hyps(1)]
    by (meson less_or_eq_imp_le order.trans)
qed simp

text \<open>Nothing left: everything queued was handled.\<close>

lemma settled:
  assumes c: "core g" and f: "fifo g" and n: "\<forall>d. \<not> pend g d" shows "of_sub s (g_sent g) = of_sub s (g_handled g)"
proof -
  note o = ownedD[OF coreD(4)[OF c]]
  have "left g d = []" if "d < psdnext (g_pst g)" for d using n that by (simp add: left_def pend_def)
  then have "owed g s = []"
    using o(1,2)[of s] n by (auto simp: owed_def split: dispatch.split option.split)
  then show ?thesis using f by (simp add: fifo_def)
qed

lemma t_run_ends:
  assumes "core g" "all_rooted g" "manned g" "fifo g"
  shows "\<exists>g'. t_run g g' \<and> ((\<exists>t. aborting t {} g') \<or> (\<forall>d. \<not> pend g' d))"
  using assms
proof (induction "rank g" arbitrary: g rule: less_induct)
  case less
  show ?case
  proof (cases "(\<exists>t. aborting t {} g) \<or> (\<forall>d. \<not> pend g d)")
    case True then show ?thesis by (blast intro: t_stop)
  next
    case False
    then obtain d where "pend g d" by blast
    from someone_awake[OF less.prems(1-3) this] obtain t where t: "t < length (g_threads g)" "awake (g_threads g ! t)"
      by blast
    then obtain g1 where r: "run_thread t {} g = Some g1"
      using run_total[OF less.prems(1) t, of "{}"] False by blast
    then obtain g' where "t_run g1 g'" "(\<exists>t. aborting t {} g') \<or> (\<forall>d. \<not> pend g' d)"
      using less.hyps[OF rank_run[OF less.prems(1) r] core_run[OF less.prems(1) r] rooted_run[OF less.prems(1,2) r]
        manned_run[OF less.prems(1,3) r] fifo_run[OF less.prems(1,4) r]] by blast
    then show ?thesis using t_go[OF r] by blast
  qed
qed

end
