(* ===== verification/Dispatch_Properties.thy ===== *)
theory Dispatch_Properties
  imports Dispatch_Live Prop_Subscribe
begin

text \<open>
  What the dispatch threads guarantee, with a concrete run: two subscriptions that share a lock,
  three notifications and two threads that contend for it.
\<close>

section \<open>A concrete run\<close>

datatype g_action = A_run nat "nat set" | A_queue prop_notify_t bool nat

fun g_act :: "g_action \<Rightarrow> gst \<Rightarrow> gst option" where
  "g_act (A_run t busy) g = run_thread t busy g"
| "g_act (A_queue n ex w) g = g_enqueue n ex w g"

fun g_acts :: "g_action list \<Rightarrow> gst \<Rightarrow> gst option" where
  "g_acts [] g = Some g"
| "g_acts (a # as) g = (case g_act a g of None \<Rightarrow> None | Some g1 \<Rightarrow> g_acts as g1)"

lemma g_act_step: "g_act a g = Some g' \<Longrightarrow> g_step g g'"
  by (cases a) (auto intro: g_step.intros)

lemma g_acts_reach: "g_acts as g = Some g' \<Longrightarrow> g_reach g0 g \<Longrightarrow> g_reach g0 g'"
  by (induction as arbitrary: g) (auto split: option.splits dest!: g_act_step intro: g_reach_step)

definition g_sub :: prop_sub_t where
  "g_sub = no_sub\<lparr>hps_lock := Some 7, hps_callback := 1, hps_refcount := 9, hps_zombie := False\<rparr>"

definition g_demo0 :: pst where
  "g_demo0 = prop_init\<lparr>subs := (subs prop_init)(0 := g_sub, 1 := g_sub), snext := 2\<rparr>"

definition g_note :: "sid \<Rightarrow> i32 \<Rightarrow> prop_notify_t" where
  "g_note s i = mk_notify s EV_SET_INT (NV_int i)"

definition g_script :: "g_action list" where
  "g_script = [A_queue (g_note 0 1) False 0, A_queue (g_note 0 2) False 0, A_queue (g_note 1 3) False 0,
     A_run 0 {}, A_run 1 {}, A_run 0 {}, A_run 1 {7}, A_run 1 {}]"

definition g_demo :: gst where
  "g_demo = the (g_acts g_script (g_init g_demo0))"

lemma g_demo0_start: "g_start g_demo0"
  by (simp add: g_start_def g_demo0_def g_sub_def no_sub_def prop_init_def prop_make_def Let_def)

lemma g_demo_reach: "g_reach (g_init g_demo0) g_demo"
proof -
  have "g_acts g_script (g_init g_demo0) \<noteq> None" by code_simp
  then have "g_acts g_script (g_init g_demo0) = Some g_demo" unfolding g_demo_def by simp
  then show ?thesis by (rule g_acts_reach) (rule g_reach_init)
qed

lemma g_demo_facts:
  "g_threads g_demo = [DT_done 0 (g_note 0 1), DT_loop]" "nots g_demo 0 = [g_note 0 1, g_note 0 2]"
  "waits g_demo 0 = [1]" "g_queue g_demo = []" "g_dispatching g_demo = [0]" "psdnext (g_pst g_demo) = 2"
  "nots g_demo 1 = [g_note 1 3]"
  "g_sent g_demo = [g_note 0 1, g_note 0 2, g_note 1 3]" "g_handled g_demo = [g_note 0 1]"
  by code_simp+

lemma g_demo_pend: "pend g_demo 0" "pend g_demo 1"
  using g_demo_facts by (simp_all add: pend_def)

section \<open>Mutual exclusion\<close>

text \<open>
  C14. Whatever the threads, the callers and the rest of the system did: a dispatch structure with
  notifications is in exactly one place (the global queue, the list of structures being
  dispatched, or the wait queue of another one), and never two threads hold the same structure.
\<close>

theorem dispatch_exclusive:
  assumes "g_start p" "g_reach (g_init p) g"
  shows "places g d = (if pend g d then 1 else 0) \<and>
    (\<forall>t < length (g_threads g). \<forall>t' < length (g_threads g). \<forall>n n'.
       holds (g_threads g ! t) = Some (d, n) \<longrightarrow> holds (g_threads g ! t') = Some (d, n') \<longrightarrow> t = t')"
proof -
  have c: "core g" using init_inv[OF assms(2) assms(1) assms(1) assms(1)] by blast
  show ?thesis using coreD(1)[OF c] one_holder[OF c] by blast
qed

theorem dispatch_exclusive_witness: "places g_demo 0 = 1 \<and> places g_demo 1 = 1"
  using dispatch_exclusive[OF g_demo0_start g_demo_reach, of 0]
    dispatch_exclusive[OF g_demo0_start g_demo_reach, of 1] g_demo_pend by simp

section \<open>Order\<close>

text \<open>
  C15. For every subscription the notifications queued so far are those handled so far, in the
  same order, followed by those its dispatch structure still has to deliver: none is lost,
  duplicated or overtaken, although several threads take turns on it.
\<close>

theorem dispatch_in_order:
  assumes "g_start p" "g_reach (g_init p) g"
  shows "of_sub s (g_sent g) = of_sub s (g_handled g) @ owed g s"
  using reach_fifo[OF assms(2) core_init rooted_init manned_init fifo_init] assms(1) by (simp add: fifo_def)

theorem dispatch_in_order_witness: "owed g_demo 0 = [g_note 0 2]"
proof -
  have f: "of_sub 0 (g_sent g_demo) = [g_note 0 1, g_note 0 2]" "of_sub 0 (g_handled g_demo) = [g_note 0 1]"
    by (simp_all add: g_demo_facts g_note_def mk_notify_def)
  show ?thesis using dispatch_in_order[OF g_demo0_start g_demo_reach, of 0] by (simp add: f)
qed

section \<open>Progress\<close>

text \<open>
  C16. No wakeup is lost: while anything is pending there is a thread that neither sleeps nor
  exited, and its next step is defined (no assertion of the dispatch loop fails), unless the
  delivery of a notification itself aborts. There are never more than \<open>max_threads\<close> threads.
\<close>

theorem dispatch_no_lost_wakeup:
  assumes "g_start p" "g_reach (g_init p) g" "pend g d"
  shows "g_running g \<le> max_threads \<and>
    (\<exists>t < length (g_threads g). awake (g_threads g ! t) \<and>
       (\<forall>busy. aborting t busy g \<or> run_thread t busy g \<noteq> None))"
proof -
  have i: "core g" "all_rooted g" "manned g"
    using init_inv[OF assms(2) assms(1) assms(1) assms(1)] by blast+
  from someone_awake[OF i assms(3)] obtain t where "t < length (g_threads g)" "awake (g_threads g ! t)" by blast
  then show ?thesis using run_total[OF i(1)] i(3) unfolding manned_def by blast
qed

theorem dispatch_no_lost_wakeup_witness:
  "g_running g_demo \<le> max_threads \<and> (\<exists>t < length (g_threads g_demo). awake (g_threads g_demo ! t) \<and>
     (\<forall>busy. aborting t busy g_demo \<or> run_thread t busy g_demo \<noteq> None))"
  by (rule dispatch_no_lost_wakeup[OF g_demo0_start g_demo_reach g_demo_pend(1)])

text \<open>
  C17. When nothing new is queued the dispatch threads finish: no run of their steps is infinite,
  and when the locks are free some run of them ends with every queued notification handled, or at
  a delivery that aborts.
\<close>

theorem dispatch_finishes:
  assumes "g_start p" "g_reach (g_init p) g"
  shows "(\<nexists>f. f 0 = g \<and> (\<forall>i. \<exists>t busy. run_thread t busy (f i) = Some (f (Suc i)))) \<and>
    (\<exists>g'. t_run g g' \<and> ((\<exists>t. aborting t {} g') \<or> (\<forall>s. of_sub s (g_sent g') = of_sub s (g_handled g'))))"
proof -
  have i: "core g" "all_rooted g" "manned g" "fifo g"
    using init_inv[OF assms(2) assms(1) assms(1) assms(1)]
      reach_fifo[OF assms(2) core_init rooted_init manned_init fifo_init] assms(1) by blast+
  have "False" if f: "f 0 = g" "\<forall>i. \<exists>t busy. run_thread t busy (f i) = Some (f (Suc i))" for f
  proof -
    have "core (f k) \<and> rank (f k) + k \<le> rank g" for k
    proof (induction k)
      case (Suc k)
      obtain t busy where r: "run_thread t busy (f k) = Some (f (Suc k))" using f(2) by blast
      show ?case using core_run[OF _ r] rank_run[OF _ r] Suc by fastforce
    qed (use f(1) i(1) in simp)
    from this[of "Suc (rank g)"] show False by simp
  qed
  moreover obtain g' where g': "t_run g g'" "(\<exists>t. aborting t {} g') \<or> (\<forall>d. \<not> pend g' d)"
    using t_run_ends[OF i] by blast
  moreover have "\<forall>d. \<not> pend g' d \<Longrightarrow> \<forall>s. of_sub s (g_sent g') = of_sub s (g_handled g')"
    using t_run_keeps[OF g'(1) i] settled by blast
  ultimately show ?thesis by blast
qed

theorem dispatch_finishes_witness:
  "\<exists>g'. t_run g_demo g' \<and> ((\<exists>t. aborting t {} g') \<or> (\<forall>s. of_sub s (g_sent g') = of_sub s (g_handled g')))"
  using dispatch_finishes[OF g_demo0_start g_demo_reach] by blast

end
