(* ===== verification/Utf8.thy ===== *)
theory Utf8
  imports Clib
begin

text \<open>
  The UTF-8 functions of \<open>src/misc/str.c\<close>. A C string is a \<open>char list\<close> without NUL; a pointer into
  it is the rest of the list, and reading the terminator gives 0. Code points and bytes are \<open>int\<close>:
  \<open>r << 6 | x\<close> with \<open>x < 64\<close> is \<open>r * 64 + x\<close>, and \<open>c >> n\<close> of a non-negative \<open>c\<close> is \<open>c div 2 ^ n\<close>.
\<close>

abbreviation byte :: "char \<Rightarrow> int" where "byte c \<equiv> of_char c"

definition chr :: "int \<Rightarrow> char" where
  "chr i = char_of i"

definition c_string :: "string \<Rightarrow> bool" where
  "c_string s \<longleftrightarrow> (\<forall>c \<in> set s. byte c \<noteq> 0)"

section \<open>Decoding\<close>

fun utf8_cont :: "nat \<Rightarrow> int \<Rightarrow> string \<Rightarrow> int option \<times> string" where
  "utf8_cont 0 r s = (Some r, s)"
| "utf8_cont (Suc l) r [] = (None, [])"
| "utf8_cont (Suc l) r (c # s) =
     (if byte c div 64 = 2 then utf8_cont l (r * 64 + byte c mod 64) s else (None, c # s))"

text \<open>The first byte of a longer sequence: the bits it holds, what follows, the least value.\<close>

definition utf8_lead :: "int \<Rightarrow> (int \<times> nat \<times> int) option" where
  "utf8_lead c =
     (if 194 \<le> c \<and> c \<le> 223 then Some (c mod 32, 1, 0x80)
      else if 224 \<le> c \<and> c \<le> 239 then Some (c mod 16, 2, 0x800)
      else if 240 \<le> c \<and> c \<le> 247 then Some (c mod 8, 3, 0x10000)
      else if 248 \<le> c \<and> c \<le> 251 then Some (c mod 4, 4, 0x200000)
      else if 252 \<le> c \<and> c \<le> 253 then Some (c mod 2, 5, 0x4000000)
      else None)"

definition utf8_get :: "string \<Rightarrow> int \<times> string" where
  "utf8_get s =
     (case s of
        [] \<Rightarrow> (0, [])
      | b # s1 \<Rightarrow>
          if byte b \<le> 127 then (byte b, s1)
          else case utf8_lead (byte b) of
                 None \<Rightarrow> (0xfffd, s1)
               | Some (r, l, m) \<Rightarrow>
                   (case utf8_cont l r s1 of
                      (None, s2) \<Rightarrow> (0xfffd, s2)
                    | (Some v, s2) \<Rightarrow> (if v < m then 0xfffd else v, s2)))"

section \<open>Encoding\<close>

definition utf8_put :: "int \<Rightarrow> string" where
  "utf8_put c =
     (if c = 0xfffe \<or> c = 0xffff \<or> 0xD800 \<le> c \<and> c < 0xE000 then []
      else if c < 0x80 then [chr c]
      else if c < 0x800 then [chr (0xc0 + c div 64 mod 32), chr (0x80 + c mod 64)]
      else if c < 0x10000 then
        [chr (0xe0 + c div 4096 mod 16), chr (0x80 + c div 64 mod 64), chr (0x80 + c mod 64)]
      else if c < 0x200000 then
        [chr (0xf0 + c div 262144 mod 8), chr (0x80 + c div 4096 mod 64), chr (0x80 + c div 64 mod 64),
         chr (0x80 + c mod 64)]
      else if c < 0x4000000 then
        [chr (0xf8 + c div 16777216 mod 4), chr (0x80 + c div 262144 mod 64),
         chr (0x80 + c div 4096 mod 64), chr (0x80 + c div 64 mod 64), chr (0x80 + c mod 64)]
      else
        [chr (0xfc + c div 1073741824 mod 2), chr (0x80 + c div 16777216 mod 64),
         chr (0x80 + c div 262144 mod 64), chr (0x80 + c div 4096 mod 64), chr (0x80 + c div 64 mod 64),
         chr (0x80 + c mod 64)])"

section \<open>Reading moves forward\<close>

lemma utf8_cont_suffix: "\<exists>p. s = p @ snd (utf8_cont l r s) \<and> length p \<le> l"
proof (induction l r s rule: utf8_cont.induct)
  case (3 l r c s)
  show ?case
  proof (cases "byte c div 64 = 2")
    case True
    with 3 obtain p where "s = p @ snd (utf8_cont l (r * 64 + byte c mod 64) s)" "length p \<le> l" by auto
    with True show ?thesis by (intro exI[of _ "c # p"]) simp
  qed simp
qed auto

lemma utf8_get_suffix:
  assumes "s \<noteq> []"
  shows "\<exists>p. p \<noteq> [] \<and> s = p @ snd (utf8_get s) \<and> length p \<le> 6"
proof -
  obtain b t where s: "s = b # t" using assms by (cases s) auto
  have "\<exists>p. t = p @ snd (utf8_get s) \<and> length p \<le> 5"
  proof (cases "utf8_lead (byte b)")
    case None then show ?thesis by (intro exI[of _ "[]"]) (simp add: utf8_get_def s)
  next
    case (Some x)
    obtain r l m where x: "x = (r, l, m)" by (cases x)
    have "l \<le> 5" using Some by (auto simp: x utf8_lead_def split: if_splits)
    moreover obtain p where "t = p @ snd (utf8_cont l r t)" "length p \<le> l" using utf8_cont_suffix by blast
    ultimately show ?thesis
      using Some by (cases "byte b \<le> 127"; cases "utf8_cont l r t")
        (auto simp: utf8_get_def s x split: option.split intro: exI[of _ p] exI[of _ "[]"])
  qed
  then obtain p where "t = p @ snd (utf8_get s)" "length p \<le> 5" by blast
  then show ?thesis by (intro exI[of _ "b # p"]) (simp add: s)
qed

lemma utf8_get_shorter: "s \<noteq> [] \<Longrightarrow> length (snd (utf8_get s)) < length s"
  using utf8_get_suffix[of s] by (metis length_append length_greater_0_conv less_add_same_cancel2)

section \<open>Whole strings\<close>

function utf8_codes :: "string \<Rightarrow> int list" where
  "utf8_codes s = (case utf8_get s of (c, t) \<Rightarrow> if c = 0 then [] else c # utf8_codes t)"
  by pat_completeness auto
termination
proof (relation "measure length")
  fix s c t assume "(c, t) = utf8_get s" "c \<noteq> 0"
  then show "(t, s) \<in> measure length"
    using utf8_get_shorter[of s] by (cases "s = []") (auto simp: utf8_get_def, metis snd_conv)
qed simp

function utf8_verify :: "string \<Rightarrow> bool" where
  "utf8_verify s =
     (case utf8_get s of (c, t) \<Rightarrow> if c = 0 then True else if c = 0xfffd then False else utf8_verify t)"
  by pat_completeness auto
termination
proof (relation "measure length")
  fix s c t assume "(c, t) = utf8_get s" "c \<noteq> 0"
  then show "(t, s) \<in> measure length"
    using utf8_get_shorter[of s] by (cases "s = []") (auto simp: utf8_get_def, metis snd_conv)
qed simp

declare utf8_codes.simps [simp del] utf8_verify.simps [simp del]

text \<open>\<open>utf8_cleanup\<close> returns nothing for a string that needs no change.\<close>

definition utf8_cleanup :: "string \<Rightarrow> string option" where
  "utf8_cleanup s =
     (let cs = utf8_codes s
      in if 0xfffd \<in> set cs then Some (concat (map utf8_put cs)) else None)"

section \<open>Encoding and decoding are inverse\<close>

definition code_ok :: "int \<Rightarrow> bool" where
  "code_ok c \<longleftrightarrow> 0 < c \<and> c < 2 ^ 31 \<and> c \<noteq> 0xfffe \<and> c \<noteq> 0xffff \<and> \<not> (0xD800 \<le> c \<and> c < 0xE000)"

lemma byte_chr [simp]: "byte (chr i) = i mod 256"
  by (simp add: chr_def of_char_of)

lemma byte_range: "0 \<le> byte c" "byte c < 256"
  by (simp_all add: of_char_def)

lemma chr_byte [simp]: "chr (byte c) = c"
  by (simp add: chr_def)

lemma cont_step: "0 \<le> x \<Longrightarrow> x < 64 \<Longrightarrow> utf8_cont (Suc l) r (chr (0x80 + x) # s) = utf8_cont l (r * 64 + x) s"
proof -
  assume x: "0 \<le> x" "x < 64"
  have "(0x80 + x) div 64 = 2" by (rule int_div_pos_eq[of _ _ _ x]) (use x in simp_all)
  moreover have "(0x80 + x) mod 64 = x" by (rule int_mod_pos_eq[of _ _ 2]) (use x in simp_all)
  ultimately show ?thesis using x by (simp add: mod_pos_pos_trivial)
qed

lemma get_lead:
  assumes "127 < byte b" "utf8_lead (byte b) = Some (r, l, m)" "utf8_cont l r s = (Some v, t)" "m \<le> v"
  shows "utf8_get (b # s) = (v, t)"
  using assms by (simp add: utf8_get_def)

lemma lead_facts:
  "2 \<le> x \<Longrightarrow> x < 32 \<Longrightarrow> utf8_lead (0xc0 + x) = Some (x, 1, 0x80)"
  "0 \<le> x \<Longrightarrow> x < 16 \<Longrightarrow> utf8_lead (0xe0 + x) = Some (x, 2, 0x800)"
  "0 \<le> x \<Longrightarrow> x < 8 \<Longrightarrow> utf8_lead (0xf0 + x) = Some (x, 3, 0x10000)"
  "0 \<le> x \<Longrightarrow> x < 4 \<Longrightarrow> utf8_lead (0xf8 + x) = Some (x, 4, 0x200000)"
  "0 \<le> x \<Longrightarrow> x < 2 \<Longrightarrow> utf8_lead (0xfc + x) = Some (x, 5, 0x4000000)"
  by (simp_all add: utf8_lead_def int_mod_pos_eq[of "0xc0 + x" 32 6 x] int_mod_pos_eq[of "0xe0 + x" 16 14 x]
      int_mod_pos_eq[of "0xf0 + x" 8 30 x] int_mod_pos_eq[of "0xf8 + x" 4 62 x] int_mod_pos_eq[of "0xfc + x" 2 126 x])

text \<open>Putting six bits after the bits above them.\<close>

lemma six_bits: "0 < k \<Longrightarrow> c div (k * 64) * 64 + c div k mod 64 = c div (k :: int)"
  by (simp add: zdiv_zmult2_eq)

lemma six_bits_at:
  "c div 64 * 64 + c mod 64 = (c :: int)" "c div 4096 * 64 + c div 64 mod 64 = c div 64"
  "c div 262144 * 64 + c div 4096 mod 64 = c div 4096" "c div 16777216 * 64 + c div 262144 mod 64 = c div 262144"
  "c div 1073741824 * 64 + c div 16777216 mod 64 = c div 16777216"
  using six_bits[of 64 c] six_bits[of 4096 c] six_bits[of 262144 c] six_bits[of 16777216 c] by simp_all

lemma cont_digits:
  "(\<forall>x \<in> set xs. 0 \<le> x \<and> x < 64) \<Longrightarrow>
   utf8_cont (length xs) r (map (\<lambda>x. chr (0x80 + x)) xs @ s) = (Some (foldl (\<lambda>a x. a * 64 + x) r xs), s)"
  by (induction xs arbitrary: r) (simp_all add: cont_step del: utf8_cont.simps(3))

lemma get_digits:
  assumes "127 < b" "b < 256" "utf8_lead b = Some (r, length xs, m)" "\<forall>x \<in> set xs. 0 \<le> x \<and> x < 64"
    "foldl (\<lambda>a x. a * 64 + x) r xs = v" "m \<le> v"
  shows "utf8_get (chr b # map (\<lambda>x. chr (0x80 + x)) xs @ s) = (v, s)"
  by (rule get_lead) (use assms cont_digits[OF assms(4), of r s] in \<open>auto simp: mod_pos_pos_trivial\<close>)

lemma utf8_get_put:
  assumes "code_ok c" shows "utf8_get (utf8_put c @ s) = (c, s)"
proof -
  have c: "0 < c" "c < 2147483648" using assms by (simp_all add: code_ok_def)
  have x: "\<not> (c = 0xfffe \<or> c = 0xffff \<or> 0xD800 \<le> c \<and> c < 0xE000)" using assms by (auto simp: code_ok_def)
  consider "c < 0x80" | "0x80 \<le> c" "c < 0x800" | "0x800 \<le> c" "c < 0x10000" | "0x10000 \<le> c" "c < 0x200000"
    | "0x200000 \<le> c" "c < 0x4000000" | "0x4000000 \<le> c" by linarith
  then show ?thesis
  proof cases
    case 1
    then show ?thesis using c x by (simp add: utf8_put_def utf8_get_def)
  next
    case 2
    then have q: "2 \<le> c div 64" "c div 64 < 32" using c by auto
    from 2 x have p: "utf8_put c = chr (192 + c div 64) # map (\<lambda>x. chr (0x80 + x)) [c mod 64]"
      using q by (simp add: utf8_put_def mod_pos_pos_trivial)
    have f: "foldl (\<lambda>a x. a * 64 + x) (c div 64) [c mod 64] = c"
      by (simp only: foldl.simps six_bits_at)
    have l: "utf8_lead (192 + c div 64) = Some (c div 64, length [c mod 64], 0x80)"
      using lead_facts(1)[OF q] by simp
    show ?thesis unfolding p append_Cons
      by (rule get_digits[OF _ _ l _ f]) (use q 2 in simp_all)
  next
    case 3
    then have q: "0 \<le> c div 4096" "c div 4096 < 16" using c by auto
    from 3 x have p: "utf8_put c = chr (224 + c div 4096) # map (\<lambda>x. chr (0x80 + x)) [c div 64 mod 64, c mod 64]"
      using q by (simp add: utf8_put_def mod_pos_pos_trivial)
    have f: "foldl (\<lambda>a x. a * 64 + x) (c div 4096) [c div 64 mod 64, c mod 64] = c"
      by (simp only: foldl.simps six_bits_at)
    have l: "utf8_lead (224 + c div 4096) = Some (c div 4096, length [c div 64 mod 64, c mod 64], 0x800)"
      using lead_facts(2)[OF q] by simp
    show ?thesis unfolding p append_Cons
      by (rule get_digits[OF _ _ l _ f]) (use q 3 in simp_all)
  next
    case 4
    then have q: "0 \<le> c div 262144" "c div 262144 < 8" using c by auto
    from 4 x have p: "utf8_put c = chr (240 + c div 262144) # map (\<lambda>x. chr (0x80 + x)) [c div 4096 mod 64, c div 64 mod 64, c mod 64]"
      using q by (simp add: utf8_put_def mod_pos_pos_trivial)
    have f: "foldl (\<lambda>a x. a * 64 + x) (c div 262144) [c div 4096 mod 64, c div 64 mod 64, c mod 64] = c"
      by (simp only: foldl.simps six_bits_at)
    have l: "utf8_lead (240 + c div 262144) = Some (c div 262144, length [c div 4096 mod 64, c div 64 mod 64, c mod 64], 0x10000)"
      using lead_facts(3)[OF q] by simp
    show ?thesis unfolding p append_Cons
      by (rule get_digits[OF _ _ l _ f]) (use q 4 in simp_all)
  next
    case 5
    then have q: "0 \<le> c div 16777216" "c div 16777216 < 4" using c by auto
    from 5 x have p: "utf8_put c = chr (248 + c div 16777216) # map (\<lambda>x. chr (0x80 + x)) [c div 262144 mod 64, c div 4096 mod 64, c div 64 mod 64, c mod 64]"
      using q by (simp add: utf8_put_def mod_pos_pos_trivial)
    have f: "foldl (\<lambda>a x. a * 64 + x) (c div 16777216) [c div 262144 mod 64, c div 4096 mod 64, c div 64 mod 64, c mod 64] = c"
      by (simp only: foldl.simps six_bits_at)
    have l: "utf8_lead (248 + c div 16777216) = Some (c div 16777216, length [c div 262144 mod 64, c div 4096 mod 64, c div 64 mod 64, c mod 64], 0x200000)"
      using lead_facts(4)[OF q] by simp
    show ?thesis unfolding p append_Cons
      by (rule get_digits[OF _ _ l _ f]) (use q 5 in simp_all)
  next
    case 6
    then have q: "0 \<le> c div 1073741824" "c div 1073741824 < 2" using c by auto
    from 6 x have p: "utf8_put c = chr (252 + c div 1073741824) # map (\<lambda>x. chr (0x80 + x)) [c div 16777216 mod 64, c div 262144 mod 64, c div 4096 mod 64, c div 64 mod 64, c mod 64]"
      using q by (simp add: utf8_put_def mod_pos_pos_trivial)
    have f: "foldl (\<lambda>a x. a * 64 + x) (c div 1073741824) [c div 16777216 mod 64, c div 262144 mod 64, c div 4096 mod 64, c div 64 mod 64, c mod 64] = c"
      by (simp only: foldl.simps six_bits_at)
    have l: "utf8_lead (252 + c div 1073741824) = Some (c div 1073741824, length [c div 16777216 mod 64, c div 262144 mod 64, c div 4096 mod 64, c div 64 mod 64, c mod 64], 0x4000000)"
      using lead_facts(5)[OF q] by simp
    show ?thesis unfolding p append_Cons
      by (rule get_digits[OF _ _ l _ f]) (use q 6 in simp_all)
  qed
qed

lemma utf8_put_nonempty: "code_ok c \<Longrightarrow> utf8_put c \<noteq> []"
  by (auto simp: utf8_put_def code_ok_def)

lemma utf8_put_length: "length (utf8_put c) \<le> 6"
  by (simp add: utf8_put_def)

lemma utf8_codes_nil [simp]: "utf8_codes [] = []"
  by (subst utf8_codes.simps) (simp add: utf8_get_def)

lemma utf8_codes_put:
  "code_ok c \<Longrightarrow> utf8_codes (utf8_put c @ s) = c # utf8_codes s"
  by (subst utf8_codes.simps) (simp add: utf8_get_put code_ok_def)

lemma utf8_codes_concat:
  "(\<forall>c \<in> set cs. code_ok c) \<Longrightarrow> utf8_codes (concat (map utf8_put cs) @ s) = cs @ utf8_codes s"
  by (induction cs) (simp_all add: utf8_codes_put)

section \<open>Only the shortest encoding of a code point is accepted\<close>

lemma cont_inverse:
  "utf8_cont l r s = (Some v, t) \<Longrightarrow>
   \<exists>xs. length xs = l \<and> (\<forall>x \<in> set xs. 0 \<le> x \<and> x < 64) \<and> s = map (\<lambda>x. chr (0x80 + x)) xs @ t
        \<and> v = foldl (\<lambda>a x. a * 64 + x) r xs"
proof (induction l r s rule: utf8_cont.induct)
  case (3 l r c s)
  then have c: "byte c div 64 = 2" by (auto split: if_splits)
  with 3 obtain xs where xs: "length xs = l" "\<forall>x \<in> set xs. 0 \<le> x \<and> x < 64"
      "s = map (\<lambda>x. chr (0x80 + x)) xs @ t" "v = foldl (\<lambda>a x. a * 64 + x) (r * 64 + byte c mod 64) xs"
    by auto
  have "128 + byte c mod 64 = byte c" using c div_mult_mod_eq[of "byte c" 64] by simp
  then have "chr (0x80 + byte c mod 64) = c" by simp
  with xs show ?case by (intro exI[of _ "byte c mod 64 # xs"]) simp
qed auto

lemma horner:
  assumes "0 \<le> x" "x < (64 :: int)"
  shows "(a * 64 + x) mod 64 = x" "(a * 64 + x) div 64 = a"
  using assms by (simp_all add: mod_pos_pos_trivial div_pos_pos_trivial)

lemma div_64:
  "(c :: int) div 4096 = c div 64 div 64" "c div 262144 = c div 64 div 64 div 64"
  "c div 16777216 = c div 64 div 64 div 64 div 64" "c div 1073741824 = c div 64 div 64 div 64 div 64 div 64"
  by (simp_all flip: zdiv_zmult2_eq)

lemma length_cases:
  "length xs = 1 \<Longrightarrow> \<exists>a. xs = [a]" "length xs = 2 \<Longrightarrow> \<exists>a b. xs = [a, b]"
  "length xs = 3 \<Longrightarrow> \<exists>a b c. xs = [a, b, c]" "length xs = 4 \<Longrightarrow> \<exists>a b c d. xs = [a, b, c, d]"
  "length xs = 5 \<Longrightarrow> \<exists>a b c d e. xs = [a, b, c, d, e]"
  by (auto simp: numeral_eq_Suc length_Suc_conv)

lemma lead_inverse:
  assumes "utf8_lead b = Some (r, l, m)"
  shows "l = 1 \<and> b = 192 + r \<and> 2 \<le> r \<and> r < 32 \<and> m = 0x80
    \<or> l = 2 \<and> b = 224 + r \<and> 0 \<le> r \<and> r < 16 \<and> m = 0x800
    \<or> l = 3 \<and> b = 240 + r \<and> 0 \<le> r \<and> r < 8 \<and> m = 0x10000
    \<or> l = 4 \<and> b = 248 + r \<and> 0 \<le> r \<and> r < 4 \<and> m = 0x200000
    \<or> l = 5 \<and> b = 252 + r \<and> 0 \<le> r \<and> r < 2 \<and> m = 0x4000000"
proof -
  have "194 \<le> b \<Longrightarrow> b \<le> 223 \<Longrightarrow> b mod 32 = b - 192" by (rule int_mod_pos_eq[of _ _ 6]) simp_all
  moreover have "224 \<le> b \<Longrightarrow> b \<le> 239 \<Longrightarrow> b mod 16 = b - 224" by (rule int_mod_pos_eq[of _ _ 14]) simp_all
  moreover have "240 \<le> b \<Longrightarrow> b \<le> 247 \<Longrightarrow> b mod 8 = b - 240" by (rule int_mod_pos_eq[of _ _ 30]) simp_all
  moreover have "248 \<le> b \<Longrightarrow> b \<le> 251 \<Longrightarrow> b mod 4 = b - 248" by (rule int_mod_pos_eq[of _ _ 62]) simp_all
  moreover have "252 \<le> b \<Longrightarrow> b \<le> 253 \<Longrightarrow> b mod 2 = b - 252" by (rule int_mod_pos_eq[of _ _ 126]) simp_all
  ultimately show ?thesis using assms by (auto simp: utf8_lead_def split: if_splits)
qed

lemma utf8_put_digits:
  assumes "code_ok c" "\<forall>x \<in> set xs. 0 \<le> x \<and> x < 64" "foldl (\<lambda>a x. a * 64 + x) r xs = c"
    "utf8_lead b = Some (r, length xs, m)" "m \<le> c"
  shows "utf8_put c = chr b # map (\<lambda>x. chr (0x80 + x)) xs"
proof -
  have x: "\<not> (c = 0xfffe \<or> c = 0xffff \<or> 0xD800 \<le> c \<and> c < 0xE000)" using assms(1) by (auto simp: code_ok_def)
  consider "length xs = 1" "b = 192 + r" "2 \<le> r" "r < 32" "m = 0x80"
    | "length xs = 2" "b = 224 + r" "0 \<le> r" "r < 16" "m = 0x800"
    | "length xs = 3" "b = 240 + r" "0 \<le> r" "r < 8" "m = 0x10000"
    | "length xs = 4" "b = 248 + r" "0 \<le> r" "r < 4" "m = 0x200000"
    | "length xs = 5" "b = 252 + r" "0 \<le> r" "r < 2" "m = 0x4000000"
    using lead_inverse[OF assms(4)] by auto
  then show ?thesis
  proof cases
    case 1
    then obtain x0 where xs: "xs = [x0]" using length_cases(1) by blast
    have r: "0 \<le> x0" "x0 < 64" using assms(2) by (simp_all add: xs)
    have c: "c = foldl (\<lambda>a x. a * 64 + x) r [x0]" using assms(3) by (simp add: xs)
    have d: "c mod 64 = x0" "c div 64 = r"
      unfolding c foldl.simps by (simp_all only: horner[OF r(1,2)])
    have "c < 0x800" using 1 r by (simp add: c)
    then show ?thesis using 1 x assms(5) by (simp add: utf8_put_def div_64 d xs)
  next
    case 2
    then obtain x0 x1 where xs: "xs = [x0, x1]" using length_cases(2) by blast
    have r: "0 \<le> x0" "x0 < 64" "0 \<le> x1" "x1 < 64" using assms(2) by (simp_all add: xs)
    have c: "c = foldl (\<lambda>a x. a * 64 + x) r [x0, x1]" using assms(3) by (simp add: xs)
    have d: "c mod 64 = x1" "c div 64 mod 64 = x0" "c div 64 div 64 = r"
      unfolding c foldl.simps by (simp_all only: horner[OF r(1,2)] horner[OF r(3,4)])
    have "c < 0x10000" using 2 r by (simp add: c)
    then show ?thesis using 2 x assms(5) by (simp add: utf8_put_def div_64 d xs)
  next
    case 3
    then obtain x0 x1 x2 where xs: "xs = [x0, x1, x2]" using length_cases(3) by blast
    have r: "0 \<le> x0" "x0 < 64" "0 \<le> x1" "x1 < 64" "0 \<le> x2" "x2 < 64" using assms(2) by (simp_all add: xs)
    have c: "c = foldl (\<lambda>a x. a * 64 + x) r [x0, x1, x2]" using assms(3) by (simp add: xs)
    have d: "c mod 64 = x2" "c div 64 mod 64 = x1" "c div 64 div 64 mod 64 = x0" "c div 64 div 64 div 64 = r"
      unfolding c foldl.simps by (simp_all only: horner[OF r(1,2)] horner[OF r(3,4)] horner[OF r(5,6)])
    have "c < 0x200000" using 3 r by (simp add: c)
    then show ?thesis using 3 x assms(5) by (simp add: utf8_put_def div_64 d xs)
  next
    case 4
    then obtain x0 x1 x2 x3 where xs: "xs = [x0, x1, x2, x3]" using length_cases(4) by blast
    have r: "0 \<le> x0" "x0 < 64" "0 \<le> x1" "x1 < 64" "0 \<le> x2" "x2 < 64" "0 \<le> x3" "x3 < 64" using assms(2) by (simp_all add: xs)
    have c: "c = foldl (\<lambda>a x. a * 64 + x) r [x0, x1, x2, x3]" using assms(3) by (simp add: xs)
    have d: "c mod 64 = x3" "c div 64 mod 64 = x2" "c div 64 div 64 mod 64 = x1" "c div 64 div 64 div 64 mod 64 = x0" "c div 64 div 64 div 64 div 64 = r"
      unfolding c foldl.simps by (simp_all only: horner[OF r(1,2)] horner[OF r(3,4)] horner[OF r(5,6)] horner[OF r(7,8)])
    have "c < 0x4000000" using 4 r by (simp add: c)
    then show ?thesis using 4 x assms(5) by (simp add: utf8_put_def div_64 d xs)
  next
    case 5
    then obtain x0 x1 x2 x3 x4 where xs: "xs = [x0, x1, x2, x3, x4]" using length_cases(5) by blast
    have r: "0 \<le> x0" "x0 < 64" "0 \<le> x1" "x1 < 64" "0 \<le> x2" "x2 < 64" "0 \<le> x3" "x3 < 64" "0 \<le> x4" "x4 < 64" using assms(2) by (simp_all add: xs)
    have c: "c = foldl (\<lambda>a x. a * 64 + x) r [x0, x1, x2, x3, x4]" using assms(3) by (simp add: xs)
    have d: "c mod 64 = x4" "c div 64 mod 64 = x3" "c div 64 div 64 mod 64 = x2" "c div 64 div 64 div 64 mod 64 = x1" "c div 64 div 64 div 64 div 64 mod 64 = x0" "c div 64 div 64 div 64 div 64 div 64 = r"
      unfolding c foldl.simps by (simp_all only: horner[OF r(1,2)] horner[OF r(3,4)] horner[OF r(5,6)] horner[OF r(7,8)] horner[OF r(9,10)])
    have "c < 0x80000000" using 5 r by (simp add: c)
    then show ?thesis using 5 x assms(5) by (simp add: utf8_put_def div_64 d xs)
  qed
qed

lemma utf8_get_inverse:
  assumes "s \<noteq> []" "utf8_get s = (c, t)" "code_ok c" "c \<noteq> 0xfffd"
  shows "s = utf8_put c @ t"
proof -
  obtain b u where s: "s = b # u" using assms(1) by (cases s) auto
  show ?thesis
  proof (cases "byte b \<le> 127")
    case True
    then show ?thesis using assms byte_range(1)[of b] by (auto simp: s utf8_get_def utf8_put_def code_ok_def)
  next
    case False
    then obtain r l m where l: "utf8_lead (byte b) = Some (r, l, m)" "utf8_cont l r u = (Some c, t)" "m \<le> c"
      using assms by (auto simp: s utf8_get_def split: option.splits prod.splits if_splits)
    from cont_inverse[OF l(2)] obtain xs where xs: "length xs = l" "\<forall>x \<in> set xs. 0 \<le> x \<and> x < 64"
      "u = map (\<lambda>x. chr (0x80 + x)) xs @ t" "foldl (\<lambda>a x. a * 64 + x) r xs = c" by auto
    from utf8_put_digits[OF assms(3) xs(2,4) l(1)[folded xs(1)] l(3)] show ?thesis by (simp add: s xs(3))
  qed
qed

end
