(* ===== verification/Str_Match.thy ===== *)
theory Str_Match
  imports Utf8
begin

text \<open>
  Searching and comparing strings in \<open>src/misc/str.c\<close>: \<open>pattern_match\<close>, \<open>find_str\<close>,
  \<open>mystrstr\<close> and \<open>dictcmp\<close> with the case folding table.
\<close>

section \<open>Patterns with asterisk and question mark\<close>

definition mkup :: "char \<Rightarrow> char" where
  "mkup x = (if 97 \<le> byte x \<and> byte x \<le> 122 then chr (byte x - 32) else x)"

fun tails :: "'a list \<Rightarrow> 'a list list" where
  "tails [] = [[]]"
| "tails (x # xs) = (x # xs) # tails xs"

text \<open>After an asterisk the rest of the pattern is tried at every position of the string.\<close>

function pattern_match :: "string \<Rightarrow> string \<Rightarrow> bool" where
  "pattern_match s [] = (s = [])"
| "pattern_match s (c # q) =
     (if c = CHR ''*''
      then list_ex (\<lambda>t. pattern_match t (dropWhile (\<lambda>x. x = CHR ''*'') q)) (tails s)
      else case s of
             [] \<Rightarrow> False
           | a # t \<Rightarrow> if mkup a \<noteq> mkup c \<and> c \<noteq> CHR ''?'' then False else pattern_match t q)"
  by pat_completeness auto
termination
  by (relation "measure (\<lambda>(s, p). length p)")
     (auto intro: le_imp_less_Suc length_dropWhile_le)

text \<open>What a pattern stands for.\<close>

inductive glob :: "string \<Rightarrow> string \<Rightarrow> bool" where
  glob_end: "glob [] []"
| glob_char: "c \<noteq> CHR ''*'' \<Longrightarrow> mkup a = mkup c \<or> c = CHR ''?'' \<Longrightarrow> glob t q \<Longrightarrow> glob (a # t) (c # q)"
| glob_star: "glob t q \<Longrightarrow> glob (w @ t) (CHR ''*'' # q)"

inductive_cases glob_NilE: "glob s []"
inductive_cases glob_ConsE: "glob s (c # q)"

lemma set_tails: "t \<in> set (tails s) \<longleftrightarrow> (\<exists>w. s = w @ t)"
proof (induction s)
  case (Cons x s)
  then show ?case by (auto simp: append_eq_Cons_conv Cons_eq_append_conv)
qed auto

lemma glob_skip: "glob t (dropWhile (\<lambda>x. x = CHR ''*'') q) \<Longrightarrow> glob t q"
proof (induction q)
  case (Cons c q)
  then show ?case using glob_star[of t q "[]"] by (auto split: if_splits)
qed simp

lemma pattern_match_sound: "pattern_match s p \<Longrightarrow> glob s p"
proof (induction s p rule: pattern_match.induct)
  case (2 s c q)
  show ?case
  proof (cases "c = CHR ''*''")
    case True
    with 2 obtain w t where "s = w @ t" "glob t (dropWhile (\<lambda>x. x = CHR ''*'') q)"
      by (auto simp: list_ex_iff set_tails)
    then show ?thesis using True glob_star glob_skip by blast
  next
    case False
    then show ?thesis using 2 by (auto split: list.splits if_splits intro: glob_char)
  qed
qed (simp add: glob_end)

lemma match_more: "pattern_match t q \<Longrightarrow> \<exists>w u. t = w @ u \<and> pattern_match u (dropWhile (\<lambda>x. x = CHR ''*'') q)"
proof (cases q)
  case (Cons c r)
  assume m: "pattern_match t q"
  show ?thesis
  proof (cases "c = CHR ''*''")
    case True
    then show ?thesis using m Cons by (auto simp: list_ex_iff set_tails) blast
  next
    case False
    then show ?thesis using m Cons by (intro exI[of _ "[]"] exI[of _ t]) simp
  qed
qed (auto intro: exI[of _ "[]"])

lemma pattern_match_complete: "glob s p \<Longrightarrow> pattern_match s p"
proof (induction rule: glob.induct)
  case (glob_star t q w)
  from match_more[OF this(2)] obtain v u where "t = v @ u" "pattern_match u (dropWhile (\<lambda>x. x = CHR ''*'') q)"
    by blast
  then show ?case by (auto simp: list_ex_iff set_tails intro!: bexI[of _ u] exI[of _ "w @ v"])
qed simp_all

section \<open>Plain search\<close>

text \<open>\<open>find_str\<close> on a buffer of the given length; the result is an index.\<close>

fun find_from :: "nat \<Rightarrow> nat \<Rightarrow> string \<Rightarrow> string \<Rightarrow> nat option" where
  "find_from 0 i s needle = None"
| "find_from (Suc k) i s needle =
     (if take (length needle) (drop i s) = needle then Some i else find_from k (i + 1) s needle)"

definition find_str :: "string \<Rightarrow> string \<Rightarrow> nat option" where
  "find_str s needle =
     (if length s < length needle then None else find_from (length s - length needle + 1) 0 s needle)"

lemma find_from_spec:
  "find_from k i s needle =
     (if \<exists>j. i \<le> j \<and> j < i + k \<and> take (length needle) (drop j s) = needle
      then Some (LEAST j. i \<le> j \<and> take (length needle) (drop j s) = needle) else None)"
proof (induction k arbitrary: i)
  case (Suc k)
  let ?P = "\<lambda>j. take (length needle) (drop j s) = needle"
  show ?case
  proof (cases "?P i")
    case True
    then have l: "(LEAST j. i \<le> j \<and> ?P j) = i" by (intro Least_equality) auto
    have e: "\<exists>j. i \<le> j \<and> j < i + Suc k \<and> ?P j" by (rule exI[of _ i]) (use True in simp)
    show ?thesis unfolding if_P[OF e] l using True by simp
  next
    case False
    then have "(i + 1 \<le> j \<and> ?P j) = (i \<le> j \<and> ?P j)" for j by (cases "j = i") auto
    moreover have "(i + 1 \<le> j \<and> j < i + 1 + k \<and> ?P j) = (i \<le> j \<and> j < i + Suc k \<and> ?P j)" for j
      using False by (cases "j = i") auto
    ultimately show ?thesis using False Suc.IH[of "i + 1"] by (simp only: find_from.simps if_False)
  qed
qed simp

section \<open>Case folding\<close>

text \<open>
  The table that \<open>unicode_init\<close> fills from pairs of code points: its length is the last target, so
  an entry at or after it is a write outside the table.
\<close>

record casefold =
  casefoldtablelen :: int
  casefoldtable :: "int \<Rightarrow> int"

definition unicode_init :: "(int \<times> int) list \<Rightarrow> casefold option" where
  "unicode_init ps =
     (let n = (if ps = [] then 0 else snd (last ps))
      in if \<forall>(f, t) \<in> set ps. f < n
         then Some \<lparr>casefoldtablelen = n, casefoldtable = (\<lambda>i. case map_of (rev ps) i of None \<Rightarrow> 0 | Some t \<Rightarrow> t)\<rparr>
         else None)"

definition unicode_casefold :: "casefold \<Rightarrow> int \<Rightarrow> int" where
  "unicode_casefold cf i =
     (if i < casefoldtablelen cf \<and> casefoldtable cf i \<noteq> 0 then casefoldtable cf i else i)"

section \<open>Searching without case\<close>

text \<open>
  \<open>mystrstr\<close> keeps the folded character \<open>n\<close> of the needle that is looked for in one variable; the
  inner comparison overwrites it, and does not restore it when it fails.
\<close>

lemma get_end: "utf8_get s = (c, t) \<Longrightarrow> s = [] \<Longrightarrow> c = 0"
  by (simp add: utf8_get_def)

function mystrstr_at :: "casefold \<Rightarrow> string \<Rightarrow> string \<Rightarrow> int option" where
  "mystrstr_at cf h1 n1 =
     (case utf8_get n1 of (n, n2) \<Rightarrow>
        if n1 = [] \<or> unicode_casefold cf n = 0 then None
        else case utf8_get h1 of (h, h2) \<Rightarrow>
          if unicode_casefold cf n \<noteq> unicode_casefold cf h then Some (unicode_casefold cf n)
          else mystrstr_at cf h2 n2)"
  by pat_completeness auto
termination
  by (relation "measure (\<lambda>(cf, h, n). length n)") (auto dest!: sym[of "(_, _)"] dest: utf8_get_shorter)

function mystrstr_from :: "casefold \<Rightarrow> int \<Rightarrow> string \<Rightarrow> string \<Rightarrow> string option" where
  "mystrstr_from cf n needle r =
     (case utf8_get r of (h, hs) \<Rightarrow>
        if r = [] \<or> unicode_casefold cf h = 0 then None
        else if n = unicode_casefold cf h then
          (case mystrstr_at cf hs needle of
             None \<Rightarrow> Some r
           | Some n' \<Rightarrow> mystrstr_from cf n' needle hs)
        else mystrstr_from cf n needle hs)"
  by pat_completeness auto
termination
  by (relation "measure (\<lambda>(cf, n, needle, r). length r)") (auto dest!: sym[of "(_, _)"] dest: utf8_get_shorter)

declare mystrstr_at.simps [simp del] mystrstr_from.simps [simp del]

definition mystrstr :: "casefold \<Rightarrow> string \<Rightarrow> string \<Rightarrow> string option" where
  "mystrstr cf haystack needle =
     (case utf8_get needle of (n, n1) \<Rightarrow> mystrstr_from cf (unicode_casefold cf n) n1 haystack)"

lemma utf8_get_ascii: "byte c \<le> 127 \<Longrightarrow> utf8_get (c # s) = (byte c, s)"
  by (simp add: utf8_get_def)

lemma utf8_get_nil: "utf8_get [] = (0, [])"
  by (simp add: utf8_get_def)

lemma mystrstr_loses:
  assumes "\<forall>c \<in> {0, 97, 98, 99, 120}. unicode_casefold cf c = c"
  shows "mystrstr cf ''abac'' ''ac'' = None" "mystrstr cf ''axbb'' ''ab'' = Some ''bb''"
  using assms
  by (simp_all add: mystrstr_def mystrstr_from.simps mystrstr_at.simps utf8_get_ascii utf8_get_nil)

section \<open>Dictionary order\<close>

text \<open>
  \<open>dictcmp\<close> compares runs of digits as numbers of type \<open>long\<close> (overflow has no result) and
  returns differences as \<open>int\<close>.
\<close>

definition ret_int :: "int \<Rightarrow> int" where
  "ret_int i = sint (word_of_int i :: i32)"

fun read_long :: "int \<Rightarrow> string \<Rightarrow> (int \<times> string) option" where
  "read_long d [] = Some (d, [])"
| "read_long d (c # s) =
     (if 48 \<le> byte c \<and> byte c \<le> 57
      then if d * 10 + (byte c - 48) < 2 ^ 63 then read_long (d * 10 + (byte c - 48)) s else None
      else Some (d, c # s))"

definition digit_code :: "int \<Rightarrow> bool" where
  "digit_code c \<longleftrightarrow> 48 \<le> c \<and> c \<le> 57"

lemma read_long_length: "read_long d s = Some (v, t) \<Longrightarrow> length t \<le> length s"
  by (induction d s rule: read_long.induct) (auto split: if_splits)

function dictcmp_loop :: "casefold \<Rightarrow> string \<Rightarrow> string \<Rightarrow> int option" where
  "dictcmp_loop cf a b =
     (case (utf8_get a, utf8_get b) of ((ua, a1), (ub, b1)) \<Rightarrow>
        if digit_code ua \<and> digit_code ub then
          (case (read_long (ua - 48) a1, read_long (ub - 48) b1) of
             (Some (da, a2), Some (db, b2)) \<Rightarrow>
               if da \<noteq> db then Some (ret_int (da - db)) else dictcmp_loop cf a2 b2
           | _ \<Rightarrow> None)
        else if digit_code ua \<or> digit_code ub then Some (ua - ub)
        else if ua \<noteq> ub \<and> unicode_casefold cf ua \<noteq> unicode_casefold cf ub
             then Some (unicode_casefold cf ua - unicode_casefold cf ub)
        else if ua = 0 \<and> ub = 0 then Some 0
        else dictcmp_loop cf a1 b1)"
  by pat_completeness auto
termination
proof (relation "measure (\<lambda>(cf, a, b). length a + length b)", goal_cases)
  case (2 cf a b x y ua a1 ub b1 z w v1 da a2 v2 db b2)
  then have e: "utf8_get a = (ua, a1)" "utf8_get b = (ub, b1)"
    "read_long (ua - 48) a1 = Some (da, a2)" "read_long (ub - 48) b1 = Some (db, b2)"
    "digit_code ua" "digit_code ub" by auto
  then have "a \<noteq> []" "b \<noteq> []" by (auto simp: utf8_get_def digit_code_def)
  then have "length a1 < length a" "length b1 < length b"
    using utf8_get_shorter[of a] utf8_get_shorter[of b] e by simp_all
  moreover have "length a2 \<le> length a1" "length b2 \<le> length b1" using e read_long_length by blast+
  ultimately show ?case by simp
next
  case (3 cf a b x y ua a1 ub b1)
  then have e: "utf8_get a = (ua, a1)" "utf8_get b = (ub, b1)" "\<not> (ua = 0 \<and> ub = 0)" by auto
  have "a \<noteq> [] \<Longrightarrow> length a1 < length a" "b \<noteq> [] \<Longrightarrow> length b1 < length b"
    using utf8_get_shorter[of a] utf8_get_shorter[of b] e by simp_all
  moreover have "a = [] \<Longrightarrow> ua = 0 \<and> a1 = []" "b = [] \<Longrightarrow> ub = 0 \<and> b1 = []"
    using e by (simp_all add: utf8_get_def)
  ultimately show ?case using e(3) by (cases "a = []"; cases "b = []") auto
qed auto

declare dictcmp_loop.simps [simp del]

text \<open>The article at the front, when the user wants it ignored.\<close>

definition no_the :: "bool \<Rightarrow> string \<Rightarrow> string" where
  "no_the ignore a =
     (case a of
        t # h # e # r \<Rightarrow>
          if ignore \<and> t \<in> set ''tT'' \<and> h \<in> set ''hH'' \<and> e \<in> set ''eE''
          then dropWhile (\<lambda>c. c = CHR '' '' \<or> c = CHR ''.'') r else a
      | _ \<Rightarrow> a)"

definition dictcmp :: "casefold \<Rightarrow> bool \<Rightarrow> string \<Rightarrow> string \<Rightarrow> int option" where
  "dictcmp cf ignore a b = dictcmp_loop cf (no_the ignore a) (no_the ignore b)"

lemma byte_nat: "byte c = int (of_char c)"
  by (simp add: of_char_def)

lemma digits_from_mono: "0 \<le> a \<Longrightarrow> a \<le> digits_from a s"
proof (induction s arbitrary: a)
  case (Cons c s)
  have "a * 10 + int (digit_val c) \<le> digits_from (a * 10 + int (digit_val c)) s" by (rule Cons.IH) (use Cons.prems in simp)
  then show ?case using Cons.prems by (simp add: digits_from_def)
qed (simp add: digits_from_def)

lemma read_long_digits:
  "list_all is_digit s \<Longrightarrow> 0 \<le> d \<Longrightarrow> digits_from d s < 2 ^ 63 \<Longrightarrow> read_long d s = Some (digits_from d s, [])"
proof (induction s arbitrary: d)
  case (Cons c s)
  have v: "byte c - 48 = int (digit_val c)" "48 \<le> byte c \<and> byte c \<le> 57"
    using Cons.prems(1) by (auto simp: is_digit_def digit_val_def byte_nat)
  have f: "digits_from d (c # s) = digits_from (d * 10 + int (digit_val c)) s" by (simp add: digits_from_def)
  have "d * 10 + int (digit_val c) < 2 ^ 63"
    using digits_from_mono[of "d * 10 + int (digit_val c)" s] Cons.prems by (simp add: f)
  then show ?case using Cons.IH[of "d * 10 + int (digit_val c)"] Cons.prems v by (simp add: f)
qed (simp add: digits_from_def)

definition plain_prefix :: "string \<Rightarrow> bool" where
  "plain_prefix p \<longleftrightarrow> (\<forall>c \<in> set p. 0 < byte c \<and> byte c \<le> 127 \<and> \<not> digit_code (byte c))"

lemma dictcmp_numbers:
  assumes "m < 2 ^ 63" "n < 2 ^ 63"
  shows "dictcmp_loop cf (nat_dec m) (nat_dec n) = Some (ret_int (int m - int n))"
proof -
  have r: "\<exists>d s. nat_dec k = digit_char d # s \<and> byte (digit_char d) = 48 + int d \<and> d < 10 \<and> read_long (int d) s = Some (int k, [])"
    if "k < 2 ^ 63" for k
  proof -
    obtain d s where d: "d < 10" "nat_dec k = digit_char d # s" using nat_dec_hd by blast
    have "digits_from (int d) s = int k"
      using digits_from_nat_dec[of k] d by (simp add: digits_from_def digit_char_facts)
    moreover have "list_all is_digit s" using nat_dec_digits[of k] by (simp add: d)
    moreover have "int k < 2 ^ 63" using that by (metis of_nat_less_iff of_nat_numeral of_nat_power)
    ultimately show ?thesis using read_long_digits[of s "int d"] d
      by (intro exI[of _ d] exI[of _ s]) (simp add: byte_nat of_char_digit_char)
  qed
  from r[OF assms(1)] obtain d s where m: "nat_dec m = digit_char d # s" "byte (digit_char d) = 48 + int d" "d < 10"
    "read_long (int d) s = Some (int m, [])" by blast
  from r[OF assms(2)] obtain e t where n: "nat_dec n = digit_char e # t" "byte (digit_char e) = 48 + int e" "e < 10"
    "read_long (int e) t = Some (int n, [])" by blast
  have "utf8_get (nat_dec m) = (48 + int d, s)" "utf8_get (nat_dec n) = (48 + int e, t)"
    using m(2,3) n(2,3) by (simp_all add: m(1) n(1) utf8_get_ascii)
  moreover have "dictcmp_loop cf [] [] = Some 0"
    by (subst dictcmp_loop.simps) (simp add: utf8_get_nil digit_code_def)
  ultimately show ?thesis using m(3,4) n(3,4)
    by (subst dictcmp_loop.simps) (simp add: digit_code_def ret_int_def)
qed

lemma dictcmp_prefix: "plain_prefix p \<Longrightarrow> dictcmp_loop cf (p @ a) (p @ b) = dictcmp_loop cf a b"
proof (induction p)
  case (Cons c p)
  then have "utf8_get (c # p @ x) = (byte c, p @ x)" for x by (simp add: utf8_get_ascii plain_prefix_def)
  then have "dictcmp_loop cf ((c # p) @ a) ((c # p) @ b) = dictcmp_loop cf (p @ a) (p @ b)"
    using Cons.prems by (subst dictcmp_loop.simps) (simp add: plain_prefix_def)
  then show ?case using Cons by (simp add: plain_prefix_def)
qed simp

lemma ret_int_small: "- (2 ^ 31) \<le> i \<Longrightarrow> i < 2 ^ 31 \<Longrightarrow> ret_int i = i"
  by (simp add: ret_int_def signed_of_int signed_take_bit_int_eq_self_iff)

end
