(* ===== verification/Str_Html.thy ===== *)
theory Str_Html
  imports Utf8
begin

text \<open>
  HTML entities in \<open>src/misc/str.c\<close>: the table, \<open>html_entity_lookup\<close>, the decoder that works in
  place and \<open>html_enteties_escape\<close>.
\<close>

section \<open>The table\<close>

definition html_entities :: "(string \<times> int) list" where
  "html_entities = [
  (''quot'', 34), (''amp'', 38), (''apos'', 39), (''lt'', 60), (''gt'', 62), (''nbsp'', 160),
     (''iexcl'', 161), (''cent'', 162), (''pound'', 163), (''curren'', 164), (''yen'', 165),
     (''brvbar'', 166), (''sect'', 167), (''uml'', 168), (''copy'', 169), (''ordf'', 170),
     (''laquo'', 171), (''not'', 172), (''shy'', 173), (''reg'', 174), (''macr'', 175),
     (''deg'', 176), (''plusmn'', 177), (''sup2'', 178), (''sup3'', 179), (''acute'', 180),
     (''micro'', 181), (''para'', 182), (''middot'', 183), (''cedil'', 184), (''sup1'', 185),
     (''ordm'', 186), (''raquo'', 187), (''frac14'', 188), (''frac12'', 189), (''frac34'', 190),
     (''iquest'', 191), (''Agrave'', 192), (''Aacute'', 193), (''Acirc'', 194),
     (''Atilde'', 195), (''Auml'', 196), (''Aring'', 197), (''AElig'', 198), (''Ccedil'', 199),
     (''Egrave'', 200), (''Eacute'', 201), (''Ecirc'', 202), (''Euml'', 203), (''Igrave'', 204),
     (''Iacute'', 205), (''Icirc'', 206), (''Iuml'', 207), (''ETH'', 208), (''Ntilde'', 209),
     (''Ograve'', 210), (''Oacute'', 211), (''Ocirc'', 212), (''Otilde'', 213), (''Ouml'', 214),
     (''times'', 215), (''Oslash'', 216), (''Ugrave'', 217), (''Uacute'', 218), (''Ucirc'', 219),
     (''Uuml'', 220), (''Yacute'', 221), (''THORN'', 222), (''szlig'', 223), (''agrave'', 224),
     (''aacute'', 225), (''acirc'', 226), (''atilde'', 227), (''auml'', 228), (''aring'', 229),
     (''aelig'', 230), (''ccedil'', 231), (''egrave'', 232), (''eacute'', 233), (''ecirc'', 234),
     (''euml'', 235), (''igrave'', 236), (''iacute'', 237), (''icirc'', 238), (''iuml'', 239),
     (''eth'', 240), (''ntilde'', 241), (''ograve'', 242), (''oacute'', 243), (''ocirc'', 244),
     (''otilde'', 245), (''ouml'', 246), (''divide'', 247), (''oslash'', 248), (''ugrave'', 249),
     (''uacute'', 250), (''ucirc'', 251), (''uuml'', 252), (''yacute'', 253), (''thorn'', 254),
     (''yuml'', 255), (''fnof'', 402), (''Alpha'', 913), (''Beta'', 914), (''Gamma'', 915),
     (''Delta'', 916), (''Epsilon'', 917), (''Zeta'', 918), (''Eta'', 919), (''Theta'', 920),
     (''Iota'', 921), (''Kappa'', 922), (''Lambda'', 923), (''Mu'', 924), (''Nu'', 925),
     (''Xi'', 926), (''Omicron'', 927), (''Pi'', 928), (''Rho'', 929), (''Sigma'', 931),
     (''Tau'', 932), (''Upsilon'', 933), (''Phi'', 934), (''Chi'', 935), (''Psi'', 936),
     (''Omega'', 937), (''alpha'', 945), (''beta'', 946), (''gamma'', 947), (''delta'', 948),
     (''epsilon'', 949), (''zeta'', 950), (''eta'', 951), (''theta'', 952), (''iota'', 953),
     (''kappa'', 954), (''lambda'', 955), (''mu'', 956), (''nu'', 957), (''xi'', 958),
     (''omicron'', 959), (''pi'', 960), (''rho'', 961), (''sigmaf'', 962), (''sigma'', 963),
     (''tau'', 964), (''upsilon'', 965), (''phi'', 966), (''chi'', 967), (''psi'', 968),
     (''omega'', 969), (''thetasym'', 977), (''upsih'', 978), (''piv'', 982), (''bull'', 8226),
     (''hellip'', 8230), (''prime'', 8242), (''Prime'', 8243), (''oline'', 8254),
     (''frasl'', 8260), (''weierp'', 8472), (''image'', 8465), (''real'', 8476),
     (''trade'', 8482), (''alefsym'', 8501), (''larr'', 8592), (''uarr'', 8593),
     (''rarr'', 8594), (''darr'', 8595), (''harr'', 8596), (''crarr'', 8629), (''lArr'', 8656),
     (''uArr'', 8657), (''rArr'', 8658), (''dArr'', 8659), (''hArr'', 8660), (''forall'', 8704),
     (''part'', 8706), (''exist'', 8707), (''empty'', 8709), (''nabla'', 8711), (''isin'', 8712),
     (''notin'', 8713), (''ni'', 8715), (''prod'', 8719), (''sum'', 8721), (''minus'', 8722),
     (''lowast'', 8727), (''radic'', 8730), (''prop'', 8733), (''infin'', 8734), (''ang'', 8736),
     (''and'', 8743), (''or'', 8744), (''cap'', 8745), (''cup'', 8746), (''int'', 8747),
     (''there4'', 8756), (''sim'', 8764), (''cong'', 8773), (''asymp'', 8776), (''ne'', 8800),
     (''equiv'', 8801), (''le'', 8804), (''ge'', 8805), (''sub'', 8834), (''sup'', 8835),
     (''nsub'', 8836), (''sube'', 8838), (''supe'', 8839), (''oplus'', 8853), (''otimes'', 8855),
     (''perp'', 8869), (''sdot'', 8901), (''lceil'', 8968), (''rceil'', 8969),
     (''lfloor'', 8970), (''rfloor'', 8971), (''lang'', 9001), (''rang'', 9002), (''loz'', 9674),
     (''spades'', 9824), (''clubs'', 9827), (''hearts'', 9829), (''diams'', 9830),
     (''OElig'', 338), (''oelig'', 339), (''Scaron'', 352), (''scaron'', 353), (''Yuml'', 376),
     (''circ'', 710), (''tilde'', 732), (''ensp'', 8194), (''emsp'', 8195), (''thinsp'', 8201),
     (''zwnj'', 8204), (''zwj'', 8205), (''lrm'', 8206), (''rlm'', 8207), (''ndash'', 8211),
     (''mdash'', 8212), (''lsquo'', 8216), (''rsquo'', 8217), (''sbquo'', 8218),
     (''ldquo'', 8220), (''rdquo'', 8221), (''bdquo'', 8222), (''dagger'', 8224),
     (''Dagger'', 8225), (''permil'', 8240), (''lsaquo'', 8249), (''rsaquo'', 8250),
     (''euro'', 8364)]"

section \<open>Numbers in text\<close>

text \<open>\<open>strtol\<close> in base 10 or 16: white space, a sign, digits; the result saturates.\<close>

definition base_digit :: "int \<Rightarrow> char \<Rightarrow> int option" where
  "base_digit base c =
     (let b = byte c;
          v = (if 48 \<le> b \<and> b \<le> 57 then b - 48
               else if 97 \<le> b \<and> b \<le> 122 then b - 87
               else if 65 \<le> b \<and> b \<le> 90 then b - 55 else 99)
      in if v < base then Some v else None)"

fun read_base :: "int \<Rightarrow> int \<Rightarrow> string \<Rightarrow> int" where
  "read_base base a [] = a"
| "read_base base a (c # s) =
     (case base_digit base c of None \<Rightarrow> a | Some v \<Rightarrow> read_base base (a * base + v) s)"

definition skip_0x :: "int \<Rightarrow> string \<Rightarrow> string" where
  "skip_0x base s =
     (case s of
        z # x # d # r \<Rightarrow>
          if base = 16 \<and> z = CHR ''0'' \<and> (x = CHR ''x'' \<or> x = CHR ''X'') \<and> base_digit 16 d \<noteq> None
          then d # r else s
      | _ \<Rightarrow> s)"

definition signed_base :: "int \<Rightarrow> string \<Rightarrow> int" where
  "signed_base base t =
     (case t of
        [] \<Rightarrow> 0
      | c # r \<Rightarrow> if c = CHR ''-'' then - read_base base 0 (skip_0x base r)
                 else if c = CHR ''+'' then read_base base 0 (skip_0x base r)
                 else read_base base 0 (skip_0x base t))"

definition strtol :: "int \<Rightarrow> string \<Rightarrow> int" where
  "strtol base s = max (- (2 ^ 63)) (min (2 ^ 63 - 1) (signed_base base (dropWhile is_c_space s)))"

section \<open>Lookup, decoding, escaping\<close>

text \<open>The result is an \<open>int\<close>, so a large number in the text is cut to 32 bits.\<close>

definition html_entity_lookup :: "string \<Rightarrow> int" where
  "html_entity_lookup name =
     (if take 1 name = ''#'' then
        (if take 1 (drop 1 name) = ''x'' then sint (word_of_int (strtol 16 (drop 2 name)) :: i32)
         else sint (word_of_int (strtol 10 (drop 1 name)) :: i32))
      else case map_of html_entities name of None \<Rightarrow> -1 | Some c \<Rightarrow> c)"

text \<open>The claim of the comment above the decoder: what is put never exceeds the entity.\<close>

lemma base_digit_bound: "base_digit base c = Some v \<Longrightarrow> 0 \<le> v \<and> v < base"
  by (auto simp: base_digit_def Let_def split: if_splits)

lemma read_base_bound:
  "0 \<le> a \<Longrightarrow> 0 < base \<Longrightarrow> 0 \<le> read_base base a s \<and> read_base base a s < (a + 1) * base ^ length s"
proof (induction base a s rule: read_base.induct)
  case (2 base a c s)
  show ?case
  proof (cases "base_digit base c")
    case None
    have "1 \<le> base ^ length (c # s)" using 2 by (intro one_le_power) simp
    then have "(a + 1) * 1 \<le> (a + 1) * base ^ length (c # s)" using 2 by (intro mult_left_mono) simp_all
    then have "a < (a + 1) * base ^ length (c # s)" by (intro order.strict_trans2[OF _ \<open>(a + 1) * 1 \<le> _\<close>]) simp
    then show ?thesis using 2 None by (simp del: power_Suc)
  next
    case (Some v)
    note v = base_digit_bound[OF Some]
    then have "a * base + v + 1 \<le> (a + 1) * base" by (simp add: algebra_simps)
    then have "(a * base + v + 1) * base ^ length s \<le> (a + 1) * base * base ^ length s"
      by (rule mult_right_mono) (use 2 in simp)
    then show ?thesis using 2 Some v by (auto simp: algebra_simps)
  qed
qed simp

lemma skip_0x_length: "length (skip_0x base s) \<le> length s"
  by (auto simp: skip_0x_def split: list.split)

lemma strtol_small:
  assumes "length s \<le> k" "0 < base" "(base :: int) ^ k \<le> 128"
  shows "strtol base s < 128 \<and> - 128 < strtol base s"
proof -
  have b: "1 \<le> base" using assms(2) by simp
  have r: "0 \<le> read_base base 0 t \<and> read_base base 0 t < 128" if "length t \<le> k" for t
  proof -
    have "read_base base 0 t < base ^ length t" using read_base_bound[of 0 base t] assms(2) by simp
    also have "\<dots> \<le> base ^ k" by (rule power_increasing[OF that b])
    finally show ?thesis using read_base_bound[of 0 base t] assms by simp
  qed
  have "signed_base base t < 128 \<and> - 128 < signed_base base t" if t: "length t \<le> k" for t
  proof (cases t)
    case (Cons c q)
    have "length (skip_0x base t) \<le> k" "length (skip_0x base q) \<le> k"
      using skip_0x_length[of base t] skip_0x_length[of base q] t Cons by simp_all
    from r[OF this(1)] r[OF this(2)] show ?thesis by (auto simp: signed_base_def Cons)
  qed (simp add: signed_base_def)
  from this[of "dropWhile is_c_space s"] show ?thesis
    using length_dropWhile_le[of is_c_space s] assms(1) by (simp add: strtol_def max_def min_def)
qed

lemma small_put: "c < 128 \<Longrightarrow> length (utf8_put c) \<le> 1"
  by (simp add: utf8_put_def)

lemma sint_small: "i < 128 \<Longrightarrow> - 128 < i \<Longrightarrow> sint (word_of_int i :: i32) = i"
  by (simp add: signed_of_int signed_take_bit_int_eq_self_iff)

lemma entities_fit: "list_all (\<lambda>(n, c). length (utf8_put c) \<le> length n + 2) html_entities"
  by code_simp

lemma entity_fits:
  assumes "html_entity_lookup name \<noteq> -1"
  shows "length (utf8_put (html_entity_lookup name)) \<le> length name + 2"
proof (cases "take 1 name = ''#''")
  case False
  then obtain c where "map_of html_entities name = Some c" "html_entity_lookup name = c"
    using assms by (auto simp: html_entity_lookup_def split: option.splits)
  then show ?thesis using entities_fit by (auto simp: list_all_iff dest!: map_of_SomeD)
next
  case True
  then obtain r where n: "name = CHR ''#'' # r" by (cases name) auto
  show ?thesis
  proof (cases "take 1 r = ''x''")
    case True
    then obtain q where q: "r = CHR ''x'' # q" by (cases r) auto
    show ?thesis
    proof (cases "length q \<le> 1")
      case True
      then have "strtol 16 q < 128 \<and> - 128 < strtol 16 q" by (rule strtol_small) simp_all
      then have "length (utf8_put (html_entity_lookup name)) \<le> 1"
        by (intro small_put) (simp add: n q html_entity_lookup_def sint_small)
      then show ?thesis by simp
    next
      case False
      then show ?thesis using utf8_put_length[of "html_entity_lookup name"] by (simp add: n q)
    qed
  next
    case f: False
    show ?thesis
    proof (cases "length r \<le> 2")
      case True
      then have "strtol 10 r < 128 \<and> - 128 < strtol 10 r" by (rule strtol_small) simp_all
      then have "length (utf8_put (html_entity_lookup name)) \<le> 1"
        using f by (intro small_put) (simp add: n html_entity_lookup_def sint_small)
      then show ?thesis by simp
    next
      case False
      then show ?thesis using utf8_put_length[of "html_entity_lookup name"] by (simp add: n)
    qed
  qed
qed

text \<open>
  The buffer is rewritten in place: the encoded character is put over the entity, then the text
  after the semicolon is moved behind it. \<open>read_entity\<close> gives the text between the ampersand and the
  next semicolon, of which nine characters are looked at.
\<close>

definition read_entity :: "string \<Rightarrow> string option" where
  "read_entity s = (if CHR '';'' \<in> set s then Some (takeWhile (\<lambda>c. c \<noteq> CHR '';'') s) else None)"

lemma read_entity_length: "read_entity s = Some name \<Longrightarrow> length name < length s"
proof -
  have "x \<in> set s \<Longrightarrow> length (takeWhile (\<lambda>c. c \<noteq> x) s) < length s" for x :: char by (induction s) auto
  then show "read_entity s = Some name \<Longrightarrow> length name < length s" by (auto simp: read_entity_def split: if_splits)
qed

function html_decode_buf :: "string \<Rightarrow> string" where
  "html_decode_buf [] = []"
| "html_decode_buf (c # s) =
     (if c \<noteq> CHR ''&'' then c # html_decode_buf s
      else case read_entity s of
             None \<Rightarrow> c # html_decode_buf s
           | Some name \<Rightarrow>
               let code = html_entity_lookup (take 9 name); p = utf8_put code
               in if code = -1 then c # html_decode_buf s
                  else p @ html_decode_buf (drop (length name + 2) (p @ drop (length p) (c # s))))"
  by pat_completeness auto
termination
proof (relation "measure length", goal_cases)
  case (5 c s name code p)
  then have "length p \<le> length (take 9 name) + 2" using entity_fits[of "take 9 name"] by simp
  moreover have "length name < length s" using 5(2) read_entity_length by auto
  ultimately show ?case by simp
qed auto

definition html_entities_decode :: "string \<Rightarrow> string" where
  "html_entities_decode s = takeWhile (\<lambda>c. byte c \<noteq> 0) (html_decode_buf s)"

definition html_esc1 :: "char \<Rightarrow> string" where
  "html_esc1 c =
     (if c = CHR ''&'' then ''&amp;'' else if c = CHR ''<'' then ''&lt;''
      else if c = CHR ''>'' then ''&gt;'' else [c])"

text \<open>\<open>html_enteties_escape\<close>: the number of bytes with the terminator, and the text.\<close>

definition html_enteties_escape :: "string \<Rightarrow> int \<times> string" where
  "html_enteties_escape s = (let r = concat (map html_esc1 s) in (int (length r) + 1, r))"

declare html_decode_buf.simps [simp del]

lemma decode_nil: "html_decode_buf [] = []"
  by (simp add: html_decode_buf.simps)

lemma decode_plain: "c \<noteq> CHR ''&'' \<Longrightarrow> html_decode_buf (c # s) = c # html_decode_buf s"
  by (simp add: html_decode_buf.simps)

lemma decode_entity:
  assumes "CHR '';'' \<notin> set name" "length name \<le> 9" "html_entity_lookup name = code" "code \<noteq> -1"
  shows "html_decode_buf (CHR ''&'' # name @ CHR '';'' # s) = utf8_put code @ html_decode_buf s"
proof -
  have e: "read_entity (name @ CHR '';'' # s) = Some name"
  proof -
    have "takeWhile (\<lambda>c. c \<noteq> CHR '';'') (name @ CHR '';'' # s) = name"
      using assms(1) by (subst takeWhile_append2) auto
    then show ?thesis by (simp add: read_entity_def)
  qed
  have l: "length (utf8_put code) \<le> length name + 2" using entity_fits[of name] assms by simp
  let ?p = "utf8_put code"
  have "drop (length name + 2) (?p @ drop (length ?p) (CHR ''&'' # name @ CHR '';'' # s)) = s"
    using l by (simp add: drop_append)
  then show ?thesis using e assms by (simp add: html_decode_buf.simps(2)[of "CHR ''&''"] Let_def)
qed

lemma escape_entities:
  "html_entity_lookup ''amp'' = 38" "html_entity_lookup ''lt'' = 60" "html_entity_lookup ''gt'' = 62"
  by code_simp+

lemma decode_esc1:
  "html_decode_buf (html_esc1 c @ s) = c # html_decode_buf s"
proof -
  consider "c = CHR ''&''" | "c = CHR ''<''" | "c = CHR ''>''" | "c \<noteq> CHR ''&''" "c \<noteq> CHR ''<''" "c \<noteq> CHR ''>''" by blast
  then show ?thesis
  proof cases
    case 1
    have "utf8_put 38 = ''&''" by code_simp
    then show ?thesis using decode_entity[of "''amp''" 38 s] by (simp add: 1 html_esc1_def escape_entities)
  next
    case 2
    have "utf8_put 60 = ''<''" by code_simp
    then show ?thesis using decode_entity[of "''lt''" 60 s] by (simp add: 2 html_esc1_def escape_entities)
  next
    case 3
    have "utf8_put 62 = ''>''" by code_simp
    then show ?thesis using decode_entity[of "''gt''" 62 s] by (simp add: 3 html_esc1_def escape_entities)
  next
    case 4
    then show ?thesis by (simp add: html_esc1_def decode_plain)
  qed
qed

lemma html_decode_escape:
  assumes "c_string s" shows "html_entities_decode (snd (html_enteties_escape s)) = s"
proof -
  have "html_decode_buf (concat (map html_esc1 s)) = s"
    by (induction s) (simp_all add: decode_nil decode_esc1)
  then show ?thesis
    using assms by (simp add: html_entities_decode_def html_enteties_escape_def Let_def c_string_def takeWhile_eq_all_conv)
qed

end
