(* ===== verification/Str_Url.thy ===== *)
theory Str_Url
  imports Utf8
begin

text \<open>
  Hexadecimal digits and URL escaping of \<open>src/misc/str.c\<close>. A destination buffer is a list whose
  length is its size; a write outside it has no result.
\<close>

definition put_at :: "int \<Rightarrow> char \<Rightarrow> string \<Rightarrow> string option" where
  "put_at i c d = (if 0 \<le> i \<and> i < int (length d) then Some (d[nat i := c]) else None)"

fun put_all :: "int \<Rightarrow> string \<Rightarrow> string \<Rightarrow> string option" where
  "put_all i [] d = Some d"
| "put_all i (c # cs) d = (case put_at i c d of None \<Rightarrow> None | Some d1 \<Rightarrow> put_all (i + 1) cs d1)"

section \<open>Hexadecimal digits\<close>

definition hexnibble :: "char \<Rightarrow> int" where
  "hexnibble c =
     (let b = byte c
      in if 48 \<le> b \<and> b \<le> 57 then b - 48
         else if 97 \<le> b \<and> b \<le> 102 then b - 97 + 10
         else if 65 \<le> b \<and> b \<le> 70 then b - 65 + 10
         else -1)"

definition hexchars :: "int \<Rightarrow> char" where
  "hexchars i = (if i < 10 then chr (48 + i) else chr (65 + (i - 10)))"

definition hexdigit :: "int \<Rightarrow> char" where
  "hexdigit i = (if i < 10 then chr (48 + i) else chr (97 + (i - 10)))"

text \<open>\<open>hex2binl\<close>: \<open>None\<close> is the result -1, \<open>n\<close> the room in the buffer.\<close>

fun hex2binl :: "int \<Rightarrow> string \<Rightarrow> int \<Rightarrow> string option" where
  "hex2binl n [] m = Some []"
| "hex2binl n [a] m = (if m < 2 then Some [] else None)"
| "hex2binl n (a # b # s) m =
     (if m < 2 then Some []
      else if n = 0 then None
      else if hexnibble a = -1 \<or> hexnibble b = -1 then None
      else map_option ((#) (chr (hexnibble a * 16 + hexnibble b))) (hex2binl (n - 1) s (m - 2)))"

text \<open>\<open>bin2hex\<close> writes at least the terminator, even into a buffer of size 0.\<close>

fun bin2hex_from :: "int \<Rightarrow> int \<Rightarrow> string \<Rightarrow> string \<Rightarrow> string option" where
  "bin2hex_from i n [] d = put_at i (chr 0) d"
| "bin2hex_from i n (c # cs) d =
     (if 2 < n
      then case put_all i [hexdigit (byte c div 16), hexdigit (byte c mod 16)] d of
             None \<Rightarrow> None
           | Some d1 \<Rightarrow> bin2hex_from (i + 2) (n - 2) cs d1
      else put_at i (chr 0) d)"

definition bin2hex :: "string \<Rightarrow> string \<Rightarrow> string option" where
  "bin2hex d src = bin2hex_from 0 (int (length d)) src d"

section \<open>Escaping\<close>

datatype url_how = URL_ESCAPE_PATH | URL_ESCAPE_PARAM | URL_ESCAPE_SPACE_ONLY

text \<open>The three tables: 0 escapes the byte, 1 copies it, 2 writes a plus sign.\<close>

definition alnum :: "int \<Rightarrow> bool" where
  "alnum b \<longleftrightarrow> 48 \<le> b \<and> b \<le> 57 \<or> 65 \<le> b \<and> b \<le> 90 \<or> 97 \<le> b \<and> b \<le> 122"

definition url_escape_param :: "int \<Rightarrow> int" where
  "url_escape_param b = (if b = 32 then 2 else if alnum b \<or> b \<in> {45, 46, 95, 126} then 1 else 0)"

definition url_escape_path :: "int \<Rightarrow> int" where
  "url_escape_path b = (if alnum b \<or> b \<in> {45, 46, 47, 95, 126} then 1 else 0)"

definition url_escape_space_only :: "int \<Rightarrow> int" where
  "url_escape_space_only b = (if b \<le> 32 then 0 else 1)"

definition url_table :: "url_how \<Rightarrow> int \<Rightarrow> int" where
  "url_table how = (case how of URL_ESCAPE_PATH \<Rightarrow> url_escape_path | URL_ESCAPE_PARAM \<Rightarrow> url_escape_param
     | URL_ESCAPE_SPACE_ONLY \<Rightarrow> url_escape_space_only)"

fun url_escape_loop :: "url_how \<Rightarrow> int \<Rightarrow> string \<Rightarrow> int \<Rightarrow> string \<Rightarrow> (int \<times> string) option" where
  "url_escape_loop how sz [] r d = Some (r, d)"
| "url_escape_loop how sz (c # cs) r d =
     (if url_table how (byte c) = 0 then
        do { d1 \<leftarrow> (if r < sz - 3
                   then put_all r [CHR ''%'', hexchars (byte c div 16), hexchars (byte c mod 16)] d
                   else Some d);
             url_escape_loop how sz cs (r + 3) d1 }
      else
        do { d1 \<leftarrow> (if r < sz - 1
                   then put_at r (if url_table how (byte c) = 2 then CHR ''+'' else c) d else Some d);
             url_escape_loop how sz cs (r + 1) d1 })"

definition url_escape :: "url_how \<Rightarrow> string \<Rightarrow> string \<Rightarrow> (int \<times> string) option" where
  "url_escape how src d =
     (let sz = int (length d)
      in do { (r, d1) \<leftarrow> url_escape_loop how sz src 0 d;
              d2 \<leftarrow> (if r < sz then put_at r (chr 0) d1 else Some d1);
              Some (r + 1, d2) })"

text \<open>\<open>url_deescape\<close> stops at a percent sign without two digits.\<close>

fun url_deescape :: "string \<Rightarrow> string" where
  "url_deescape [] = []"
| "url_deescape (c # s) =
     (if c = CHR ''+'' then CHR '' '' # url_deescape s
      else if c = CHR ''%'' then
        (case s of
           a # b # t \<Rightarrow>
             if hexnibble a = -1 \<or> hexnibble b = -1 then []
             else chr (hexnibble a * 16 + hexnibble b) # url_deescape t
         | _ \<Rightarrow> [])
      else c # url_deescape s)"

section \<open>Relative references\<close>

definition scheme_char :: "char \<Rightarrow> bool" where
  "scheme_char c \<longleftrightarrow> alnum (byte c) \<or> c \<in> set ''+.-''"

text \<open>The text before the last \<open>ch\<close> (\<open>strrchr\<close>), if there is one.\<close>

definition before_last :: "char \<Rightarrow> string \<Rightarrow> string option" where
  "before_last ch s =
     (if ch \<in> set s then Some (rev (tl (dropWhile (\<lambda>c. c \<noteq> ch) (rev s)))) else None)"

definition url_resolve_relative :: "string \<Rightarrow> string \<Rightarrow> int \<Rightarrow> string \<Rightarrow> string \<Rightarrow> string" where
  "url_resolve_relative proto hostname port path ref =
     (if take 3 (dropWhile scheme_char ref) = ''://'' then ref
      else let dir = (if take 1 ref = ''/'' then ''''
                      else let p = (case before_last (CHR ''?'') path of None \<Rightarrow> path | Some q \<Rightarrow> q)
                           in case before_last (CHR ''/'') p of None \<Rightarrow> '''' | Some d \<Rightarrow> d @ ''/'');
               host = (if port \<noteq> -1 then hostname @ '':'' @ int_dec port else hostname)
           in proto @ ''://'' @ host @ dir @ ref)"

section \<open>Laws\<close>

lemma hexnibble_digits:
  assumes "0 \<le> i" "i < 16"
  shows "hexnibble (hexchars i) = i" "hexnibble (hexdigit i) = i"
  using assms by (auto simp: hexnibble_def hexchars_def hexdigit_def Let_def mod_pos_pos_trivial)

lemma hex_byte: "0 \<le> byte c div 16" "byte c div 16 < 16" "byte c div 16 * 16 + byte c mod 16 = byte c"
  using byte_range[of c] by auto

text \<open>What the escaped text is.\<close>

definition url_esc1 :: "url_how \<Rightarrow> char \<Rightarrow> string" where
  "url_esc1 how c =
     (if url_table how (byte c) = 0 then [CHR ''%'', hexchars (byte c div 16), hexchars (byte c mod 16)]
      else if url_table how (byte c) = 2 then ''+'' else [c])"

definition url_escaped :: "url_how \<Rightarrow> string \<Rightarrow> string" where
  "url_escaped how s = concat (map (url_esc1 how) s)"

lemma put_at_len: "put_at i c d = Some d1 \<Longrightarrow> length d1 = length d"
  by (auto simp: put_at_def split: if_splits)

lemma put_all_exact:
  "length p + length cs \<le> length d \<Longrightarrow> take (length p) d = p \<Longrightarrow>
   put_all (int (length p)) cs d = Some (p @ cs @ drop (length p + length cs) d)"
proof (induction cs arbitrary: p d)
  case Nil then show ?case using append_take_drop_id[of "length p" d] by simp
next
  case (Cons c cs)
  let ?d = "d[length p := c]"
  have "take (length (p @ [c])) ?d = p @ [c]"
    using Cons.prems by (simp add: take_Suc_conv_app_nth)
  from Cons.IH[OF _ this] Cons.prems
  have "put_all (int (length (p @ [c]))) cs ?d = Some ((p @ [c]) @ cs @ drop (length (p @ [c]) + length cs) ?d)"
    by simp
  then show ?case using Cons.prems by (simp add: put_at_def add.commute)
qed

lemma deescape_escaped:
  assumes "how \<noteq> URL_ESCAPE_SPACE_ONLY"
  shows "url_deescape (url_escaped how s) = s"
proof (induction s)
  case Nil then show ?case by (simp add: url_escaped_def)
next
  case (Cons c s)
  have e: "url_deescape (url_esc1 how c @ t) = c # url_deescape t" for t
  proof (cases "url_table how (byte c) = 0")
    case True
    then show ?thesis using hex_byte[of c] by (simp add: url_esc1_def hexnibble_digits)
  next
    case False
    show ?thesis
    proof (cases "url_table how (byte c) = 2")
      case True
      then have "byte c = 32" using assms
        by (cases how) (auto simp: url_table_def url_escape_path_def url_escape_param_def split: if_splits)
      then have "byte c = byte CHR '' ''" by simp
      then have "c = CHR '' ''" by (simp only: of_char_eq_iff)
      then show ?thesis using True by (simp add: url_esc1_def)
    next
      case n2: False
      have "byte c \<noteq> 43" "byte c \<noteq> 37" using False n2 assms
        by (cases how; auto simp: url_table_def url_escape_path_def url_escape_param_def alnum_def split: if_splits)+
      then have "c \<noteq> CHR ''+''" "c \<noteq> CHR ''%''" by auto
      then show ?thesis using False n2 by (simp add: url_esc1_def)
    qed
  qed
  then show ?case using Cons by (simp add: url_escaped_def)
qed

lemma put_all_upto:
  assumes "length p + length cs \<le> length d" "take (length p) d = p"
  shows "\<exists>d1. put_all (int (length p)) cs d = Some d1 \<and> length d1 = length d
    \<and> take (length p + length cs) d1 = p @ cs"
  using put_all_exact[OF assms] assms(1) by (auto simp: min_def)

text \<open>
  The loop has written what fits of the escaped text so far; once something did not fit, nothing
  more is written.
\<close>

lemma write_step:
  assumes "length e < length d \<longrightarrow> take (length e) d = e" "cs \<noteq> []"
  shows "\<exists>d1. (if int (length e) < int (length d) - int (length cs) then put_all (int (length e)) cs d else Some d) = Some d1
    \<and> length d1 = length d \<and> (length (e @ cs) < length d1 \<longrightarrow> take (length (e @ cs)) d1 = e @ cs)"
  using put_all_upto[of e cs d] assms by auto

lemma url_escape_loop_spec:
  "(length e < length d \<longrightarrow> take (length e) d = e) \<Longrightarrow>
   \<exists>d1. url_escape_loop how (int (length d)) s (int (length e)) d = Some (int (length (e @ url_escaped how s)), d1)
     \<and> length d1 = length d
     \<and> (length (e @ url_escaped how s) < length d \<longrightarrow>
          take (length (e @ url_escaped how s)) d1 = e @ url_escaped how s)"
proof (induction s arbitrary: e d)
  case Nil then show ?case by (auto simp: url_escaped_def)
next
  case (Cons c s)
  let ?cs = "url_esc1 how c"
  have "?cs \<noteq> []" by (simp add: url_esc1_def)
  from write_step[OF Cons.prems this] obtain d1 where d1:
    "(if int (length e) < int (length d) - int (length ?cs) then put_all (int (length e)) ?cs d else Some d) = Some d1"
    "length d1 = length d" "length (e @ ?cs) < length d1 \<longrightarrow> take (length (e @ ?cs)) d1 = e @ ?cs" by blast
  from Cons.IH[OF d1(3)] obtain d2 where d2:
    "url_escape_loop how (int (length d1)) s (int (length (e @ ?cs))) d1
       = Some (int (length ((e @ ?cs) @ url_escaped how s)), d2)" "length d2 = length d1"
    "length ((e @ ?cs) @ url_escaped how s) < length d1 \<longrightarrow>
       take (length ((e @ ?cs) @ url_escaped how s)) d2 = (e @ ?cs) @ url_escaped how s" by blast
  have "url_escape_loop how (int (length d)) (c # s) (int (length e)) d
      = url_escape_loop how (int (length d1)) s (int (length (e @ ?cs))) d1"
    using d1(1,2) by (auto simp: url_esc1_def put_all_exact split: if_splits option.splits)
  then show ?case using d2 d1(2) by (auto simp: url_escaped_def)
qed

lemma url_escape_spec:
  "\<exists>d1. url_escape how s d = Some (int (length (url_escaped how s)) + 1, d1) \<and> length d1 = length d
     \<and> (length (url_escaped how s) < length d \<longrightarrow>
          take (length (url_escaped how s) + 1) d1 = url_escaped how s @ [chr 0])"
proof -
  from url_escape_loop_spec[of "[]" d how s] obtain d1 where d1:
    "url_escape_loop how (int (length d)) s 0 d = Some (int (length (url_escaped how s)), d1)" "length d1 = length d"
    "length (url_escaped how s) < length d \<longrightarrow> take (length (url_escaped how s)) d1 = url_escaped how s" by auto
  show ?thesis
  proof (cases "length (url_escaped how s) < length d")
    case True
    from put_all_upto[of "url_escaped how s" "[chr 0]" d1] d1 True
    obtain d2 where "put_all (int (length (url_escaped how s))) [chr 0] d1 = Some d2" "length d2 = length d1"
      "take (length (url_escaped how s) + 1) d2 = url_escaped how s @ [chr 0]" by auto
    then show ?thesis using d1 True by (auto simp: url_escape_def split: option.splits)
  next
    case False
    then show ?thesis using d1 by (auto simp: url_escape_def)
  qed
qed

section \<open>Binary and hexadecimal\<close>

definition hex_of :: "string \<Rightarrow> string" where
  "hex_of s = concat (map (\<lambda>c. [hexdigit (byte c div 16), hexdigit (byte c mod 16)]) s)"

lemma hex_not_minus: "byte c div 16 \<noteq> -1" "byte c mod 16 \<noteq> -1"
  using hex_byte(1)[of c] pos_mod_sign[of 16 "byte c"] by linarith+

lemma hex2binl_hex_of:
  "int (length s) \<le> n \<Longrightarrow> 2 * int (length s) \<le> m \<Longrightarrow> hex2binl n (hex_of s) m = Some s"
  by (induction s arbitrary: n m) (simp_all add: hex_of_def hexnibble_digits hex_byte hex_not_minus)

lemma bin2hex_from_spec:
  "take (length e) d = e \<Longrightarrow> length e + 2 * length s < length d \<Longrightarrow>
   \<exists>d1. bin2hex_from (int (length e)) (int (length d - length e)) s d = Some d1
     \<and> take (length e + 2 * length s + 1) d1 = e @ hex_of s @ [chr 0]"
proof (induction s arbitrary: e d)
  case Nil
  then have l: "length e \<le> length d" by simp
  from put_all_upto[of e "[chr 0]" d] Nil show ?case by (auto simp: hex_of_def split: option.splits)
next
  case (Cons c s)
  let ?cs = "[hexdigit (byte c div 16), hexdigit (byte c mod 16)]"
  from put_all_upto[of e ?cs d] Cons.prems obtain d1 where d1: "put_all (int (length e)) ?cs d = Some d1"
    "length d1 = length d" "take (length (e @ ?cs)) d1 = e @ ?cs" by auto
  from Cons.IH[OF d1(3)] Cons.prems d1(2) obtain d2 where
    "bin2hex_from (int (length (e @ ?cs))) (int (length d1 - length (e @ ?cs))) s d1 = Some d2"
    "take (length (e @ ?cs) + 2 * length s + 1) d2 = (e @ ?cs) @ hex_of s @ [chr 0]" by auto
  then show ?case using d1 Cons.prems by (auto simp: hex_of_def of_nat_diff algebra_simps)
qed

end
