(* ===== verification/Str_Misc.thy ===== *)
theory Str_Misc
  imports Str_Url
begin

text \<open>
  Smaller operations of \<open>src/misc/str.c\<close>: lists of strings, lines, cleaning and conversion between
  UTF-8 and 16-bit encodings. Where the code reads a plain \<open>char\<close> as a number it is signed, as on x86.
\<close>

section \<open>Splitting\<close>

text \<open>\<open>strvec_split\<close> counts the separators first; a different count later is a failed assertion.\<close>

fun split_n :: "nat \<Rightarrow> string \<Rightarrow> char \<Rightarrow> string list option" where
  "split_n 0 s ch = Some []"
| "split_n (Suc k) s ch =
     (if ch \<in> set s
      then map_option ((#) (takeWhile (\<lambda>c. c \<noteq> ch) s)) (split_n k (tl (dropWhile (\<lambda>c. c \<noteq> ch) s)) ch)
      else if k = 0 then Some [s] else None)"

definition strvec_split :: "string \<Rightarrow> char \<Rightarrow> string list option" where
  "strvec_split s ch = split_n (count_list s ch + 1) s ch"

definition strvec_addpn :: "string list option \<Rightarrow> string \<Rightarrow> nat \<Rightarrow> string list option" where
  "strvec_addpn v s n = Some (case v of None \<Rightarrow> [take n s] | Some xs \<Rightarrow> xs @ [take n s])"

definition strvec_addp :: "string list option \<Rightarrow> string \<Rightarrow> string list option" where
  "strvec_addp v s = strvec_addpn v s (length s)"

definition strvec_len :: "string list \<Rightarrow> nat" where
  "strvec_len v = length v"

definition strappend :: "string option \<Rightarrow> string \<Rightarrow> string option" where
  "strappend p s = Some (case p of None \<Rightarrow> s | Some a \<Rightarrow> a @ s)"

fun join :: "char \<Rightarrow> string list \<Rightarrow> string" where
  "join ch [] = []"
| "join ch [s] = s"
| "join ch (s # t # v) = s @ ch # join ch (t # v)"

lemma split_n_spec:
  "\<exists>v. split_n (count_list s ch + 1) s ch = Some v \<and> v \<noteq> [] \<and> length v = count_list s ch + 1
     \<and> join ch v = s \<and> (\<forall>w \<in> set v. ch \<notin> set w)"
proof (induction "length s" arbitrary: s rule: less_induct)
  case less
  show ?case
  proof (cases "ch \<in> set s")
    case True
    then obtain a b where s: "s = a @ ch # b" "ch \<notin> set a" using split_list_first by metis
    have t: "takeWhile (\<lambda>c. c \<noteq> ch) s = a" "tl (dropWhile (\<lambda>c. c \<noteq> ch) s) = b"
      using s by (simp_all add: takeWhile_append dropWhile_append)
    have c: "count_list s ch = Suc (count_list b ch)" using s by (simp add: count_notin)
    obtain v where v: "split_n (count_list b ch + 1) b ch = Some v" "v \<noteq> []" "length v = count_list b ch + 1"
      "join ch v = b" "\<forall>w \<in> set v. ch \<notin> set w"
      using less[of b] s by auto
    have "join ch (a # v) = s" using v(2,4) s by (cases v) auto
    then show ?thesis using True t c v s(2) by simp
  qed (simp add: count_notin)
qed

section \<open>Lines\<close>

text \<open>\<open>lp_get\<close>: the next line that is not empty; the state is the rest of the text.\<close>

definition eol :: "char \<Rightarrow> bool" where
  "eol c \<longleftrightarrow> c = CHR 0x0D \<or> c = CHR 0x0A"

function lp_get :: "string option \<Rightarrow> string option \<times> string option" where
  "lp_get None = (None, None)"
| "lp_get (Some s) =
     (let r = takeWhile (\<lambda>c. \<not> eol c) s; rest = dropWhile (\<lambda>c. \<not> eol c) s;
          lp = (if rest = [] then None else Some (dropWhile eol (tl rest)))
      in if r = [] then lp_get lp else (Some r, lp))"
  by pat_completeness auto
termination
proof (relation "measure (\<lambda>lp. case lp of None \<Rightarrow> 0 | Some s \<Rightarrow> Suc (length s))", goal_cases)
  case (2 s r rest lp)
  show ?case
  proof (cases rest)
    case (Cons a q)
    then have "length q < length s"
      using 2(2) length_dropWhile_le[of "\<lambda>c. \<not> eol c" s] by simp
    moreover have "lp = Some (dropWhile eol q)" by (simp only: 2(3) Cons list.distinct if_False list.sel)
    ultimately show ?thesis using length_dropWhile_le[of eol q] by simp
  qed (use 2 in simp)
qed simp

declare lp_get.simps(2) [simp del]

section \<open>In place\<close>

definition mystrlower :: "string \<Rightarrow> string" where
  "mystrlower s = map (\<lambda>c. if 65 \<le> byte c \<and> byte c \<le> 90 then chr (byte c + 32) else c) s"

definition str_cleanup :: "string \<Rightarrow> string \<Rightarrow> string" where
  "str_cleanup s forbidden = map (\<lambda>c. if c \<in> set forbidden then CHR ''_'' else c) s"

fun deescape_cstyle :: "string \<Rightarrow> string" where
  "deescape_cstyle [] = []"
| "deescape_cstyle (c # s) =
     (if c = CHR 0x5C then
        (case s of
           [] \<Rightarrow> []
         | d # t \<Rightarrow> (if d = CHR ''n'' then [CHR 0x0A] else if d = CHR 0x5C then [CHR 0x5C] else [])
                    @ deescape_cstyle t)
      else c # deescape_cstyle s)"

definition u8 :: "int \<Rightarrow> int" where "u8 i = i mod 256"

definition html_makecolor :: "string \<Rightarrow> int" where
  "html_makecolor str =
     (let s = (if take 1 str = ''#'' then tl str else str); h = (\<lambda>i. hexnibble (s ! i))
      in if length s = 3 then
           u8 (h 2 * 17) * 65536 + u8 (h 1 * 17) * 256 + u8 (h 0 * 17)
         else if length s = 6 then
           u8 ((h 4 * 16) OR h 5) * 65536 + u8 ((h 2 * 16) OR h 3) * 256 + u8 ((h 0 * 16) OR h 1)
         else 0)"

section \<open>Sixteen bit encodings\<close>

definition pair16 :: "bool \<Rightarrow> int \<Rightarrow> string" where
  "pair16 le c = (if le then [chr c, chr (c div 256)] else [chr (c div 256), chr c])"

definition code16 :: "bool \<Rightarrow> char \<Rightarrow> char \<Rightarrow> int" where
  "code16 le a b = (if le then byte a + byte b * 256 else byte b + byte a * 256)"

text \<open>\<open>utf8_to_ucs2\<close>: \<open>None\<close> is the result -1.\<close>

function utf8_to_ucs2 :: "bool \<Rightarrow> string \<Rightarrow> string option" where
  "utf8_to_ucs2 le s =
     (case utf8_get s of (c, t) \<Rightarrow>
        if c = 0 then Some [chr 0, chr 0]
        else if 0xffff < c then None
        else map_option ((@) (pair16 le c)) (utf8_to_ucs2 le t))"
  by pat_completeness auto
termination
proof (relation "measure (\<lambda>(le, s). length s)", goal_cases)
  case (2 le s c t)
  then have "utf8_get s = (c, t)" "s \<noteq> []" by (auto simp: utf8_get_def)
  then show ?case using utf8_get_shorter[of s] by simp
qed simp

function utf8_to_ascii :: "string \<Rightarrow> string option" where
  "utf8_to_ascii s =
     (case utf8_get s of (c, t) \<Rightarrow>
        if c = 0 then Some [chr 0]
        else if 0xff < c then None
        else map_option ((#) (chr c)) (utf8_to_ascii t))"
  by pat_completeness auto
termination
proof (relation "measure length", goal_cases)
  case (2 s c t)
  then have "utf8_get s = (c, t)" "s \<noteq> []" by (auto simp: utf8_get_def)
  then show ?case using utf8_get_shorter[of s] by simp
qed simp

declare utf8_to_ucs2.simps [simp del] utf8_to_ascii.simps [simp del]

text \<open>\<open>ucs2_to_utf8\<close>: the bytes before the terminator; \<open>n\<close> is the room left.\<close>

fun ucs2_to_utf8 :: "bool \<Rightarrow> int \<Rightarrow> string \<Rightarrow> string" where
  "ucs2_to_utf8 le n (a # b # s) =
     (if 3 < n \<and> code16 le a b \<noteq> 0
      then utf8_put (code16 le a b) @ ucs2_to_utf8 le (n - int (length (utf8_put (code16 le a b)))) s
      else [])"
| "ucs2_to_utf8 le n _ = []"

text \<open>\<open>utf16_to_utf8\<close> combines plain characters, so a byte above 127 makes the code negative.\<close>

definition schar :: "char \<Rightarrow> int" where
  "schar c = (if byte c < 128 then byte c else byte c - 256)"

fun utf16_codes :: "bool \<Rightarrow> string \<Rightarrow> int list" where
  "utf16_codes le (a # b # s) =
     (if le then schar a OR (schar b * 256) else schar b OR (schar a * 256)) # utf16_codes le s"
| "utf16_codes le _ = []"

definition utf16_to_utf8 :: "string \<Rightarrow> string option" where
  "utf16_to_utf8 b =
     (if length b < 2 then None
      else if byte (b ! 0) = 0xff \<and> byte (b ! 1) = 0xfe then
        Some (concat (map utf8_put (utf16_codes True (drop 2 b))))
      else if byte (b ! 0) = 0xfe \<and> byte (b ! 1) = 0xff then
        Some (concat (map utf8_put (utf16_codes False (drop 2 b))))
      else Some (concat (map utf8_put (utf16_codes False b))))"

section \<open>Eight bit character sets\<close>

text \<open>\<open>convert_table\<close> with the table of the character set, and \<open>convert_iso_8859_1\<close>.\<close>

fun convert_table :: "(int \<Rightarrow> int) \<Rightarrow> string \<Rightarrow> string" where
  "convert_table cp [] = []"
| "convert_table cp (b # s) =
     (if byte b = 0 then []
      else utf8_put (if cp (byte b) = 0 then 0xfffd else cp (byte b)) @ convert_table cp s)"

fun convert_iso_8859_1 :: "string \<Rightarrow> string" where
  "convert_iso_8859_1 [] = []"
| "convert_iso_8859_1 (b # s) = (if byte b = 0 then [] else utf8_put (byte b) @ convert_iso_8859_1 s)"

section \<open>Laws\<close>

lemma code16_pair16:
  assumes "0 \<le> c" "c < 65536"
  shows "\<exists>a b. pair16 le c = [a, b] \<and> code16 le a b = c"
proof -
  have "c div 256 mod 256 = c div 256" using assms by (intro mod_pos_pos_trivial) auto
  then have "c mod 256 + c div 256 mod 256 * 256 = c" using mult_div_mod_eq[of 256 c] by linarith
  then show ?thesis by (cases le) (simp_all add: pair16_def code16_def)
qed

lemma utf8_put_16: "c < 0x10000 \<Longrightarrow> length (utf8_put c) \<le> 3"
  by (simp add: utf8_put_def)

lemma ucs2_bound: "0 < n \<Longrightarrow> int (length (ucs2_to_utf8 le n s)) < n"
proof (induction le n s rule: ucs2_to_utf8.induct)
  case (1 le n a b s)
  have "code16 le a b < 0x10000" using byte_range[of a] byte_range[of b] by (simp add: code16_def)
  from utf8_put_16[OF this] have "int (length (utf8_put (code16 le a b))) \<le> 3" by simp
  then show ?case using 1 by (cases "3 < n \<and> code16 le a b \<noteq> 0") auto
qed auto

lemma ucs2_roundtrip:
  assumes "\<forall>c \<in> set cs. code_ok c \<and> c < 0x10000" "3 * int (length cs) < n"
  shows "\<exists>r. utf8_to_ucs2 le (concat (map utf8_put cs)) = Some r \<and> ucs2_to_utf8 le n r = concat (map utf8_put cs)"
  using assms
proof (induction cs arbitrary: n)
  case Nil
  have "utf8_get [] = (0, [])" by (simp add: utf8_get_def)
  then have "utf8_to_ucs2 le [] = Some [chr 0, chr 0]" by (simp add: utf8_to_ucs2.simps[of le "[]"])
  then show ?case by (simp add: code16_def)
next
  case (Cons c cs)
  have c: "code_ok c" "0 < c" "c < 0x10000" using Cons.prems(1) by (auto simp: code_ok_def)
  have l: "int (length (utf8_put c)) \<le> 3" using utf8_put_16[OF c(3)] by simp
  obtain r where r: "utf8_to_ucs2 le (concat (map utf8_put cs)) = Some r"
    "ucs2_to_utf8 le (n - int (length (utf8_put c))) r = concat (map utf8_put cs)"
    using Cons.IH[of "n - int (length (utf8_put c))"] Cons.prems l by auto
  have "utf8_to_ucs2 le (concat (map utf8_put (c # cs))) = Some (pair16 le c @ r)"
    using c r(1) utf8_get_put[OF c(1), of "concat (map utf8_put cs)"] by (subst utf8_to_ucs2.simps) simp
  moreover obtain a b where "pair16 le c = [a, b]" "code16 le a b = c" using code16_pair16[of c le] c by auto
  ultimately show ?case using r(2) Cons.prems(2) c(2) by auto
qed

end
