(* ===== verification/Htsbuf.thy ===== *)
theory Htsbuf
  imports Str_Url
begin

text \<open>
  The byte queues of \<open>src/htsmsg/htsbuf.c\<close>: a list of chunks that are filled at the end and drained
  at the front. A chunk keeps its valid bytes (\<open>hd_data_len\<close> of them), the size of its allocation
  and the offset of the first byte not yet read; \<open>hq_size\<close> is the 32-bit byte count. Lengths of the
  data appended are taken to be below \<open>2 ^ 31\<close>, as the code's \<open>int\<close> variables need.
\<close>

named_theorems bytes_of "what an operation does to the bytes in a queue"

record htsbuf_data =
  hd_data :: string
  hd_data_size :: nat
  hd_data_off :: nat

record htsbuf_queue =
  hq_q :: "htsbuf_data list"
  hq_size :: u32
  hq_maxsize :: u32

abbreviation hd_data_len :: "htsbuf_data \<Rightarrow> nat" where
  "hd_data_len d \<equiv> length (hd_data d)"

section \<open>Operations\<close>

definition htsbuf_queue_init :: "u32 \<Rightarrow> htsbuf_queue" where
  "htsbuf_queue_init maxsize =
     \<lparr>hq_q = [], hq_size = 0, hq_maxsize = (if maxsize = 0 then 0x7fffffff else maxsize)\<rparr>"

definition htsbuf_queue_flush :: "htsbuf_queue \<Rightarrow> htsbuf_queue" where
  "htsbuf_queue_flush hq = hq\<lparr>hq_size := 0, hq_q := []\<rparr>"

text \<open>Room at the end of the last chunk is used first; a new chunk has at least 1000 bytes.\<close>

definition htsbuf_append :: "htsbuf_queue \<Rightarrow> string \<Rightarrow> htsbuf_queue" where
  "htsbuf_append hq buf =
     (let q = hq_q hq;
          c = (if q = [] then 0 else min (hd_data_size (last q) - hd_data_len (last q)) (length buf));
          q1 = (if q = [] then []
                else butlast q @ [(last q)\<lparr>hd_data := hd_data (last q) @ take c buf\<rparr>]);
          rest = drop c buf;
          q2 = (if rest = [] then q1
                else q1 @ [\<lparr>hd_data = rest, hd_data_size = max (length rest) 1000, hd_data_off = 0\<rparr>])
      in hq\<lparr>hq_q := q2, hq_size := hq_size hq + of_nat (length buf)\<rparr>)"

definition htsbuf_append_byte :: "htsbuf_queue \<Rightarrow> char \<Rightarrow> htsbuf_queue" where
  "htsbuf_append_byte hq b = htsbuf_append hq [b]"

definition wr32_le :: "u32 \<Rightarrow> string" where
  "wr32_le v = map (\<lambda>i. chr (uint v div 256 ^ i)) [0, 1, 2, 3]"

definition htsbuf_append_le32 :: "htsbuf_queue \<Rightarrow> u32 \<Rightarrow> htsbuf_queue" where
  "htsbuf_append_le32 hq v = htsbuf_append hq (wr32_le v)"

definition htsbuf_append_prealloc :: "htsbuf_queue \<Rightarrow> string \<Rightarrow> htsbuf_queue" where
  "htsbuf_append_prealloc hq buf =
     hq\<lparr>hq_size := hq_size hq + of_nat (length buf),
        hq_q := hq_q hq @ [\<lparr>hd_data = buf, hd_data_size = length buf, hd_data_off = 0\<rparr>]\<rparr>"

text \<open>Reading: the first chunk is freed when it is drained.\<close>

fun read_chunks :: "nat \<Rightarrow> htsbuf_data list \<Rightarrow> string \<times> htsbuf_data list" where
  "read_chunks len [] = ([], [])"
| "read_chunks len (d # q) =
     (if len = 0 then ([], d # q)
      else let c = min (hd_data_len d - hd_data_off d) len;
               b = take c (drop (hd_data_off d) (hd_data d));
               d1 = d\<lparr>hd_data_off := hd_data_off d + c\<rparr>
           in if hd_data_off d1 = hd_data_len d1
              then (case read_chunks (len - c) q of (r, q1) \<Rightarrow> (b @ r, q1))
              else (b, d1 # q))"

definition htsbuf_read :: "htsbuf_queue \<Rightarrow> nat \<Rightarrow> string \<times> htsbuf_queue" where
  "htsbuf_read hq len =
     (case read_chunks len (hq_q hq) of
        (b, q) \<Rightarrow> (b, hq\<lparr>hq_q := q, hq_size := hq_size hq - of_nat (length b)\<rparr>))"

definition htsbuf_drop :: "htsbuf_queue \<Rightarrow> nat \<Rightarrow> nat \<times> htsbuf_queue" where
  "htsbuf_drop hq len = (case htsbuf_read hq len of (b, hq1) \<Rightarrow> (length b, hq1))"

fun peek_chunks :: "nat \<Rightarrow> htsbuf_data list \<Rightarrow> string" where
  "peek_chunks len [] = []"
| "peek_chunks len (d # q) =
     (if len = 0 then []
      else let c = min (hd_data_len d - hd_data_off d) len
           in take c (drop (hd_data_off d) (hd_data d)) @ peek_chunks (len - c) q)"

definition htsbuf_peek :: "htsbuf_queue \<Rightarrow> nat \<Rightarrow> string" where
  "htsbuf_peek hq len = peek_chunks len (hq_q hq)"

text \<open>The position of the first byte \<open>v\<close>; \<open>None\<close> is the result -1.\<close>

fun find_in :: "char \<Rightarrow> string \<Rightarrow> nat \<Rightarrow> nat option" where
  "find_in v [] i = None"
| "find_in v (b # s) i = (if b = v then Some i else find_in v s (Suc i))"

fun find_chunks :: "char \<Rightarrow> nat \<Rightarrow> htsbuf_data list \<Rightarrow> nat option" where
  "find_chunks v n [] = None"
| "find_chunks v n (d # q) =
     (case find_in v (drop (hd_data_off d) (hd_data d)) (hd_data_off d) of
        Some i \<Rightarrow> Some (n + i - hd_data_off d)
      | None \<Rightarrow> find_chunks v (n + (hd_data_len d - hd_data_off d)) q)"

definition htsbuf_find :: "htsbuf_queue \<Rightarrow> char \<Rightarrow> nat option" where
  "htsbuf_find hq v = find_chunks v 0 (hq_q hq)"

definition htsbuf_appendq :: "htsbuf_queue \<Rightarrow> htsbuf_queue \<Rightarrow> htsbuf_queue \<times> htsbuf_queue" where
  "htsbuf_appendq hq src =
     (hq\<lparr>hq_size := hq_size hq + hq_size src, hq_q := hq_q hq @ hq_q src\<rparr>, src\<lparr>hq_size := 0, hq_q := []\<rparr>)"

text \<open>\<open>htsbuf_to_string\<close> reads as many bytes as \<open>hq_size\<close> says.\<close>

definition htsbuf_to_string :: "htsbuf_queue \<Rightarrow> string \<times> htsbuf_queue" where
  "htsbuf_to_string hq = htsbuf_read hq (unat (hq_size hq))"

section \<open>Appending escaped text\<close>

text \<open>The loops append the run of bytes before an escaped byte, then its escape.\<close>

definition xml_escape :: "char \<Rightarrow> string option" where
  "xml_escape c =
     (if c = CHR ''<'' then Some ''&lt;'' else if c = CHR ''>'' then Some ''&gt;''
      else if c = CHR ''&'' then Some ''&amp;'' else if c = CHR 0x27 then Some ''&apos;''
      else if c = CHR 0x22 then Some ''&quot;'' else None)"

definition url_escape_byte :: "char \<Rightarrow> string option" where
  "url_escape_byte c =
     (if alnum (byte c) \<or> c \<in> set ''_~.-'' then None
      else Some [CHR ''%'', hexchars (byte c div 16), hexchars (byte c mod 16)])"

fun append_escaped :: "(char \<Rightarrow> string option) \<Rightarrow> htsbuf_queue \<Rightarrow> string \<Rightarrow> string \<Rightarrow> htsbuf_queue" where
  "append_escaped esc hq run [] = hq"
| "append_escaped esc hq run (c # s) =
     (case esc c of
        Some x \<Rightarrow>
          let hq1 = htsbuf_append (htsbuf_append hq run) x
          in if s = [] then htsbuf_append hq1 [] else append_escaped esc hq1 [] s
      | None \<Rightarrow>
          if s = [] then htsbuf_append hq (run @ [c]) else append_escaped esc hq (run @ [c]) s)"

definition htsbuf_append_and_escape_xml :: "htsbuf_queue \<Rightarrow> string \<Rightarrow> htsbuf_queue" where
  "htsbuf_append_and_escape_xml hq s = append_escaped xml_escape hq [] s"

definition htsbuf_append_and_escape_url :: "htsbuf_queue \<Rightarrow> string \<Rightarrow> htsbuf_queue" where
  "htsbuf_append_and_escape_url hq s = append_escaped url_escape_byte hq [] s"

definition htsbuf_append_and_escape_url_len :: "htsbuf_queue \<Rightarrow> string \<Rightarrow> nat \<Rightarrow> htsbuf_queue" where
  "htsbuf_append_and_escape_url_len hq s len = append_escaped url_escape_byte hq [] (take len s)"

definition json_escape :: "char \<Rightarrow> string option" where
  "json_escape c =
     (if c = CHR 0x22 then Some [CHR 0x5C, CHR 0x22] else if c = CHR 0x5C then Some [CHR 0x5C, CHR 0x5C]
      else if c = CHR 0x0A then Some [CHR 0x5C, CHR ''n''] else if c = CHR 0x0D then Some [CHR 0x5C, CHR ''r'']
      else if c = CHR 0x09 then Some [CHR 0x5C, CHR ''t''] else None)"

fun append_jsonstr :: "htsbuf_queue \<Rightarrow> string \<Rightarrow> string \<Rightarrow> htsbuf_queue" where
  "append_jsonstr hq run [] = htsbuf_append hq run"
| "append_jsonstr hq run (c # s) =
     (case json_escape c of
        Some x \<Rightarrow> append_jsonstr (htsbuf_append (htsbuf_append hq run) x) [] s
      | None \<Rightarrow> append_jsonstr hq (run @ [c]) s)"

definition htsbuf_append_and_escape_jsonstr :: "htsbuf_queue \<Rightarrow> string \<Rightarrow> htsbuf_queue" where
  "htsbuf_append_and_escape_jsonstr hq s =
     htsbuf_append (append_jsonstr (htsbuf_append hq [CHR 0x22]) [] s) [CHR 0x22]"

section \<open>The bytes in a queue\<close>

definition chunk_bytes :: "htsbuf_data \<Rightarrow> string" where
  "chunk_bytes d = drop (hd_data_off d) (hd_data d)"

definition hq_bytes :: "htsbuf_queue \<Rightarrow> string" where
  "hq_bytes hq = concat (map chunk_bytes (hq_q hq))"

definition chunk_ok :: "htsbuf_data \<Rightarrow> bool" where
  "chunk_ok d \<longleftrightarrow> hd_data_off d \<le> hd_data_len d \<and> hd_data_len d \<le> hd_data_size d"

definition hq_ok :: "htsbuf_queue \<Rightarrow> bool" where
  "hq_ok hq \<longleftrightarrow> (\<forall>d \<in> set (hq_q hq). chunk_ok d) \<and> hq_size hq = of_nat (length (hq_bytes hq))"

text \<open>
  The contract of something bytes are appended to: a client that only appends needs no more than
  this.
\<close>

locale byte_sink =
  fixes put :: "'q \<Rightarrow> string \<Rightarrow> 'q" and bytes :: "'q \<Rightarrow> string" and ok :: "'q \<Rightarrow> bool"
  assumes put_bytes: "ok q \<Longrightarrow> bytes (put q b) = bytes q @ b"
    and put_ok: "ok q \<Longrightarrow> ok (put q b)"
begin

definition puts :: "'q \<Rightarrow> 'q \<Rightarrow> string \<Rightarrow> bool" where
  "puts q q' b \<longleftrightarrow> ok q' \<and> bytes q' = bytes q @ b"

lemma puts_put: "ok q \<Longrightarrow> puts q (put q b) b"
  by (simp add: puts_def put_bytes put_ok)

lemma puts_trans: "puts q q' b \<Longrightarrow> puts q' q'' b' \<Longrightarrow> puts q q'' (b @ b')"
  by (simp add: puts_def)

lemma puts_then: "puts q q' b \<Longrightarrow> puts q (put q' b') (b @ b')"
  by (simp add: puts_def put_bytes put_ok)

end

lemma append_bytes:
  assumes "hq_ok hq" shows "hq_bytes (htsbuf_append hq b) = hq_bytes hq @ b"
proof (cases "hq_q hq" rule: rev_cases)
  case Nil
  then show ?thesis by (auto simp: htsbuf_append_def hq_bytes_def chunk_bytes_def Let_def)
next
  case (snoc q d)
  then have "hd_data_off d \<le> hd_data_len d" using assms by (simp add: hq_ok_def chunk_ok_def)
  moreover define c where "c = min (hd_data_size d - hd_data_len d) (length b)"
  ultimately show ?thesis
    using snoc by (auto simp: htsbuf_append_def hq_bytes_def chunk_bytes_def Let_def c_def[symmetric])
qed

lemma append_ok:
  assumes "hq_ok hq" shows "hq_ok (htsbuf_append hq b)"
proof -
  have "hq_size (htsbuf_append hq b) = of_nat (length (hq_bytes (htsbuf_append hq b)))"
    unfolding append_bytes[OF assms] using assms by (simp add: htsbuf_append_def Let_def hq_ok_def)
  moreover have "\<forall>d \<in> set (hq_q (htsbuf_append hq b)). chunk_ok d"
  proof (cases "hq_q hq" rule: rev_cases)
    case Nil then show ?thesis by (auto simp: htsbuf_append_def Let_def chunk_ok_def)
  next
    case (snoc q d)
    then show ?thesis using assms by (auto simp: htsbuf_append_def Let_def chunk_ok_def hq_ok_def)
  qed
  ultimately show ?thesis by (simp add: hq_ok_def)
qed

interpretation hq: byte_sink htsbuf_append hq_bytes hq_ok
  by unfold_locales (simp_all add: append_bytes append_ok)

section \<open>What the operations do to the bytes\<close>

lemma ok_init [simp]: "hq_ok (htsbuf_queue_init n)" "hq_bytes (htsbuf_queue_init n) = []"
  by (simp_all add: hq_ok_def hq_bytes_def htsbuf_queue_init_def)

lemma chunk_bytes_take: "take c (chunk_bytes d) = take c (drop (hd_data_off d) (hd_data d))"
  by (simp add: chunk_bytes_def)

lemma read_chunks_spec:
  "(\<forall>d \<in> set q. chunk_ok d) \<Longrightarrow> read_chunks len q = (b, q') \<Longrightarrow>
   b = take len (concat (map chunk_bytes q)) \<and> concat (map chunk_bytes q') = drop len (concat (map chunk_bytes q))
   \<and> (\<forall>d \<in> set q'. chunk_ok d)"
proof (induction len q arbitrary: b q' rule: read_chunks.induct)
  case (2 len d q)
  show ?case
  proof (cases "len = 0")
    case False
    define c where "c = min (hd_data_len d - hd_data_off d) len"
    have d: "chunk_ok d" "length (chunk_bytes d) = hd_data_len d - hd_data_off d"
      using 2(2) by (simp_all add: chunk_bytes_def)
    show ?thesis
    proof (cases "hd_data_off d + c = hd_data_len d")
      case True
      then have l: "length (chunk_bytes d) \<le> len" "c = length (chunk_bytes d)" using d by (auto simp: c_def chunk_ok_def)
      obtain r q1 where r: "read_chunks (len - c) q = (r, q1)" by fastforce
      have "b = chunk_bytes d @ r" "q' = q1"
        using 2(3) False True r l(2) by (simp_all add: Let_def c_def[symmetric] chunk_bytes_take[symmetric])
      moreover have "r = take (len - c) (concat (map chunk_bytes q)) \<and>
          concat (map chunk_bytes q1) = drop (len - c) (concat (map chunk_bytes q)) \<and> (\<forall>d \<in> set q1. chunk_ok d)"
        using 2(1)[OF False c_def refl refl] 2(2) True r by (simp add: c_def)
      ultimately show ?thesis using l by simp
    next
      case ne: False
      then have c: "c = len" "len < length (chunk_bytes d)" using d by (auto simp: c_def chunk_ok_def)
      have "b = take len (chunk_bytes d)" "q' = d\<lparr>hd_data_off := hd_data_off d + c\<rparr> # q"
        using 2(3) False ne by (simp_all add: Let_def c_def[symmetric] chunk_bytes_take[symmetric] c(1))
      moreover have "chunk_bytes (d\<lparr>hd_data_off := hd_data_off d + c\<rparr>) = drop c (chunk_bytes d)"
        by (simp add: chunk_bytes_def add.commute)
      moreover have "chunk_ok (d\<lparr>hd_data_off := hd_data_off d + c\<rparr>)" using d(1) by (auto simp: chunk_ok_def c_def)
      ultimately show ?thesis using c 2(2) by simp
    qed
  qed (use 2 in auto)
qed simp

lemma htsbuf_read_spec:
  assumes "hq_ok hq" "htsbuf_read hq len = (b, hq')"
  shows "b = take len (hq_bytes hq)" "hq_bytes hq' = drop len (hq_bytes hq)" "hq_ok hq'"
proof -
  from assms(2) obtain q where q: "read_chunks len (hq_q hq) = (b, q)"
    "hq' = hq\<lparr>hq_q := q, hq_size := hq_size hq - of_nat (length b)\<rparr>"
    by (auto simp: htsbuf_read_def split: prod.splits)
  have o: "\<forall>d \<in> set (hq_q hq). chunk_ok d" using assms(1) by (simp add: hq_ok_def)
  note R = read_chunks_spec[OF o q(1)]
  then show b: "b = take len (hq_bytes hq)" and d: "hq_bytes hq' = drop len (hq_bytes hq)"
    by (simp_all add: hq_bytes_def q(2))
  have l: "length (hq_bytes hq) = length b + length (hq_bytes hq')" by (simp add: b d min_def)
  have "hq_size hq = of_nat (length b) + of_nat (length (hq_bytes hq'))"
    using assms(1) unfolding hq_ok_def l by simp
  moreover have "hq_size hq' = hq_size hq - of_nat (length b)" by (simp add: q(2))
  ultimately have "hq_size hq' = of_nat (length (hq_bytes hq'))" by (simp only: add_diff_cancel_left')
  then show "hq_ok hq'" using R by (simp add: hq_ok_def) (simp add: q(2))
qed

lemma find_in_spec: "find_in v s i = (if v \<in> set s then Some (i + length (takeWhile (\<lambda>b. b \<noteq> v) s)) else None)"
  by (induction s arbitrary: i) auto

lemma find_chunks_spec:
  "(\<forall>d \<in> set q. chunk_ok d) \<Longrightarrow> find_chunks v n q =
   (let s = concat (map chunk_bytes q)
    in if v \<in> set s then Some (n + length (takeWhile (\<lambda>b. b \<noteq> v) s)) else None)"
proof (induction q arbitrary: n)
  case (Cons d q)
  have l: "hd_data_len d - hd_data_off d = length (chunk_bytes d)" by (simp add: chunk_bytes_def)
  have t: "v \<notin> set (chunk_bytes d) \<Longrightarrow> takeWhile (\<lambda>b. b \<noteq> v) (chunk_bytes d @ r) = chunk_bytes d @ takeWhile (\<lambda>b. b \<noteq> v) r" for r
    by (rule takeWhile_append2) auto
  have u: "v \<in> set (chunk_bytes d) \<Longrightarrow> takeWhile (\<lambda>b. b \<noteq> v) (chunk_bytes d @ r) = takeWhile (\<lambda>b. b \<noteq> v) (chunk_bytes d)" for r
    by (rule takeWhile_append1) auto
  show ?case
    using Cons t u by (auto simp: find_in_spec Let_def l chunk_bytes_def[symmetric])
qed (simp add: Let_def)

lemma htsbuf_find_spec:
  "hq_ok hq \<Longrightarrow> htsbuf_find hq v =
     (if v \<in> set (hq_bytes hq) then Some (length (takeWhile (\<lambda>b. b \<noteq> v) (hq_bytes hq))) else None)"
  using find_chunks_spec[of "hq_q hq" v 0] by (simp add: htsbuf_find_def hq_bytes_def hq_ok_def Let_def)

lemma htsbuf_peek_spec:
  assumes "hq_ok hq" shows "htsbuf_peek hq len = take len (hq_bytes hq)"
proof -
  have "(\<forall>d \<in> set q. chunk_ok d) \<Longrightarrow> peek_chunks len q = take len (concat (map chunk_bytes q))" for q
  proof (induction len q rule: peek_chunks.induct)
    case (2 len d q)
    have "hd_data_len d - hd_data_off d = length (chunk_bytes d)" by (simp add: chunk_bytes_def)
    then show ?case using 2 by (auto simp: Let_def chunk_bytes_def[symmetric] min_def)
  qed simp
  from this[of "hq_q hq"] show ?thesis using assms by (simp add: htsbuf_peek_def hq_bytes_def hq_ok_def)
qed

lemma htsbuf_appendq_spec:
  assumes "hq_ok hq" "hq_ok src" "htsbuf_appendq hq src = (hq', src')"
  shows "hq_bytes hq' = hq_bytes hq @ hq_bytes src" "hq_bytes src' = []" "hq_ok hq'" "hq_ok src'"
  using assms by (auto simp: htsbuf_appendq_def hq_bytes_def hq_ok_def)

lemma htsbuf_prealloc_spec:
  assumes "hq_ok hq"
  shows "hq_bytes (htsbuf_append_prealloc hq b) = hq_bytes hq @ b" "hq_ok (htsbuf_append_prealloc hq b)"
  using assms by (auto simp: htsbuf_append_prealloc_def hq_bytes_def hq_ok_def chunk_ok_def chunk_bytes_def)

lemma htsbuf_flush_spec: "hq_bytes (htsbuf_queue_flush hq) = []" "hq_ok (htsbuf_queue_flush hq)"
  by (simp_all add: htsbuf_queue_flush_def hq_bytes_def hq_ok_def)

lemma to_string_spec:
  assumes "hq_ok hq" "length (hq_bytes hq) < 2 ^ 32"
  shows "fst (htsbuf_to_string hq) = hq_bytes hq"
proof -
  have "unat (hq_size hq) = length (hq_bytes hq)"
    using assms by (simp add: hq_ok_def unat_of_nat take_bit_nat_eq_self)
  then show ?thesis
    using htsbuf_read_spec(1)[OF assms(1)] by (simp add: htsbuf_to_string_def prod_eq_iff split: prod.split)
qed

section \<open>Escaped text\<close>

definition esc_with :: "(char \<Rightarrow> string option) \<Rightarrow> string \<Rightarrow> string" where
  "esc_with esc s = concat (map (\<lambda>c. case esc c of None \<Rightarrow> [c] | Some x \<Rightarrow> x) s)"

lemma esc_with_simps [simp]:
  "esc_with esc [] = []"
  "esc_with esc (c # s) = (case esc c of None \<Rightarrow> [c] | Some x \<Rightarrow> x) @ esc_with esc s"
  by (simp_all add: esc_with_def)

lemma append_escaped_puts:
  "hq_ok hq \<Longrightarrow> s \<noteq> [] \<Longrightarrow> hq.puts hq (append_escaped esc hq run s) (run @ esc_with esc s)"
proof (induction esc hq run s rule: append_escaped.induct)
  case (2 esc hq run c s)
  note p = hq.puts_put[OF 2(3)]
  show ?case
  proof (cases "esc c")
    case None
    then show ?thesis using 2(1)[OF None] 2(3) p[of "run @ [c]"] by (cases s) auto
  next
    case (Some x)
    let ?h = "htsbuf_append (htsbuf_append hq run) x"
    have h: "hq.puts hq ?h (run @ x)" by (rule hq.puts_then[OF p])
    then have "hq_ok ?h" by (simp add: hq.puts_def)
    show ?thesis
    proof (cases "s = []")
      case True
      then show ?thesis using hq.puts_then[OF h, of "[]"] Some by (simp add: Let_def)
    next
      case False
      from hq.puts_trans[OF h 2(2)[OF Some refl False \<open>hq_ok ?h\<close> False]] show ?thesis
        using Some False by (simp add: Let_def)
    qed
  qed
qed simp

lemma append_jsonstr_puts:
  "hq_ok hq \<Longrightarrow> hq.puts hq (append_jsonstr hq run s) (run @ esc_with json_escape s)"
proof (induction hq run s rule: append_jsonstr.induct)
  case (2 hq run c s)
  note p = hq.puts_put[OF 2(3)]
  show ?case
  proof (cases "json_escape c")
    case (Some x)
    let ?h = "htsbuf_append (htsbuf_append hq run) x"
    have h: "hq.puts hq ?h (run @ x)" by (rule hq.puts_then[OF p])
    then have "hq_ok ?h" by (simp add: hq.puts_def)
    then show ?thesis using 2(2)[OF Some] hq.puts_trans[OF h] Some by simp
  qed (use 2 in simp)
qed (simp add: hq.puts_put)

definition json_quoted :: "string \<Rightarrow> string" where
  "json_quoted s = CHR 0x22 # esc_with json_escape s @ [CHR 0x22]"

lemma jsonstr_puts:
  assumes "hq_ok hq" shows "hq.puts hq (htsbuf_append_and_escape_jsonstr hq s) (json_quoted s)"
proof -
  note p = hq.puts_put[OF assms, of "[CHR 0x22]"]
  then have "hq_ok (htsbuf_append hq [CHR 0x22])" by (simp add: hq.puts_def)
  from hq.puts_then[OF hq.puts_trans[OF p append_jsonstr_puts[OF this, of "[]" s]], of "[CHR 0x22]"]
  show ?thesis by (simp add: htsbuf_append_and_escape_jsonstr_def json_quoted_def)
qed

end
