(* ===== verification/Htsmsg.thy ===== *)
theory Htsmsg
  imports Str_Html
begin

text \<open>
  Messages (\<open>src/htsmsg/htsmsg.c\<close>): an ordered list of fields, named in a map and unnamed in a
  list. A message owns its fields and they own their sub-messages, so a message is a value here;
  reference counts, ownership flags of strings and the XML attributes of a field are left out.
  \<open>None\<close> is a failed assertion or signed overflow. Doubles are their IEEE 754 bit pattern.
\<close>

type_synonym f64 = "64 word"

datatype hval =
    HMF_MAP "(string option \<times> hval) list"
  | HMF_S64 i64
  | HMF_STR string
  | HMF_BIN string
  | HMF_LIST "(string option \<times> hval) list"
  | HMF_DBL f64

type_synonym hfield = "string option \<times> hval"

record htsmsg =
  hm_islist :: bool
  hm_fields :: "hfield list"

datatype herr = HTSMSG_ERR_FIELD_NOT_FOUND | HTSMSG_ERR_CONVERSION_IMPOSSIBLE

text \<open>A name, or a position disguised as one by \<open>HTSMSG_INDEX\<close>.\<close>

datatype hkey = K_name string | K_index nat

definition hmf_childs :: "hval \<Rightarrow> htsmsg option" where
  "hmf_childs v = (case v of HMF_MAP fs \<Rightarrow> Some \<lparr>hm_islist = False, hm_fields = fs\<rparr>
     | HMF_LIST fs \<Rightarrow> Some \<lparr>hm_islist = True, hm_fields = fs\<rparr> | _ \<Rightarrow> None)"

definition sub_val :: "htsmsg \<Rightarrow> hval" where
  "sub_val m = (if hm_islist m then HMF_LIST (hm_fields m) else HMF_MAP (hm_fields m))"

section \<open>Building\<close>

definition htsmsg_create_map :: htsmsg where
  "htsmsg_create_map = \<lparr>hm_islist = False, hm_fields = []\<rparr>"

definition htsmsg_create_list :: htsmsg where
  "htsmsg_create_list = \<lparr>hm_islist = True, hm_fields = []\<rparr>"

definition htsmsg_field_add :: "htsmsg \<Rightarrow> string option \<Rightarrow> hval \<Rightarrow> htsmsg option" where
  "htsmsg_field_add msg name v =
     (if hm_islist msg \<longleftrightarrow> name = None then Some (msg\<lparr>hm_fields := hm_fields msg @ [(name, v)]\<rparr>) else None)"

definition htsmsg_add_u32 :: "htsmsg \<Rightarrow> string option \<Rightarrow> u32 \<Rightarrow> htsmsg option" where
  "htsmsg_add_u32 msg name u = htsmsg_field_add msg name (HMF_S64 (ucast u))"

definition htsmsg_add_s64 :: "htsmsg \<Rightarrow> string option \<Rightarrow> i64 \<Rightarrow> htsmsg option" where
  "htsmsg_add_s64 msg name s = htsmsg_field_add msg name (HMF_S64 s)"

definition htsmsg_add_s32 :: "htsmsg \<Rightarrow> string option \<Rightarrow> i32 \<Rightarrow> htsmsg option" where
  "htsmsg_add_s32 msg name s = htsmsg_field_add msg name (HMF_S64 (scast s))"

definition htsmsg_add_dbl :: "htsmsg \<Rightarrow> string option \<Rightarrow> f64 \<Rightarrow> htsmsg option" where
  "htsmsg_add_dbl msg name d = htsmsg_field_add msg name (HMF_DBL d)"

definition htsmsg_add_str :: "htsmsg \<Rightarrow> string option \<Rightarrow> string \<Rightarrow> htsmsg option" where
  "htsmsg_add_str msg name s = htsmsg_field_add msg name (HMF_STR s)"

definition htsmsg_add_bin :: "htsmsg \<Rightarrow> string option \<Rightarrow> string \<Rightarrow> htsmsg option" where
  "htsmsg_add_bin msg name b = htsmsg_field_add msg name (HMF_BIN b)"

definition htsmsg_add_binptr :: "htsmsg \<Rightarrow> string option \<Rightarrow> string \<Rightarrow> htsmsg option" where
  "htsmsg_add_binptr msg name b = htsmsg_field_add msg name (HMF_BIN b)"

definition htsmsg_add_msg :: "htsmsg \<Rightarrow> string option \<Rightarrow> htsmsg \<Rightarrow> htsmsg option" where
  "htsmsg_add_msg msg name sub = htsmsg_field_add msg name (sub_val sub)"

definition htsmsg_add_msg_extname :: "htsmsg \<Rightarrow> string option \<Rightarrow> htsmsg \<Rightarrow> htsmsg option" where
  "htsmsg_add_msg_extname msg name sub = htsmsg_field_add msg name (sub_val sub)"

text \<open>The sub-message of a field, kept alive by a reference of its own.\<close>

definition htsmsg_detach_submsg :: "hfield \<Rightarrow> htsmsg option" where
  "htsmsg_detach_submsg f = hmf_childs (snd f)"

section \<open>Finding and removing\<close>

fun find_pos :: "('a \<Rightarrow> bool) \<Rightarrow> 'a list \<Rightarrow> nat option" where
  "find_pos P [] = None"
| "find_pos P (x # xs) = (if P x then Some 0 else map_option Suc (find_pos P xs))"

definition htsmsg_field_find :: "htsmsg \<Rightarrow> hkey \<Rightarrow> nat option" where
  "htsmsg_field_find msg k =
     (case k of
        K_index i \<Rightarrow> if i < length (hm_fields msg) then Some i else None
      | K_name n \<Rightarrow> find_pos (\<lambda>f. fst f = Some n) (hm_fields msg))"

definition htsmsg_field_destroy :: "htsmsg \<Rightarrow> nat \<Rightarrow> htsmsg" where
  "htsmsg_field_destroy msg i = msg\<lparr>hm_fields := take i (hm_fields msg) @ drop (Suc i) (hm_fields msg)\<rparr>"

definition htsmsg_delete_field :: "htsmsg \<Rightarrow> hkey \<Rightarrow> herr + htsmsg" where
  "htsmsg_delete_field msg k =
     (case htsmsg_field_find msg k of
        None \<Rightarrow> Inl HTSMSG_ERR_FIELD_NOT_FOUND
      | Some i \<Rightarrow> Inr (htsmsg_field_destroy msg i))"

definition field_val :: "htsmsg \<Rightarrow> nat \<Rightarrow> hval" where
  "field_val msg i = snd (hm_fields msg ! i)"

definition set_field_val :: "nat \<Rightarrow> hval \<Rightarrow> htsmsg \<Rightarrow> htsmsg" where
  "set_field_val i v msg = msg\<lparr>hm_fields := (hm_fields msg)[i := (fst (hm_fields msg ! i), v)]\<rparr>"

definition htsmsg_s32_inc :: "htsmsg \<Rightarrow> string \<Rightarrow> i32 \<Rightarrow> htsmsg option" where
  "htsmsg_s32_inc msg name s =
     (case htsmsg_field_find msg (K_name name) of
        None \<Rightarrow> htsmsg_add_s32 msg (Some name) s
      | Some i \<Rightarrow>
          (case field_val msg i of
             HMF_S64 v \<Rightarrow>
               if sint v + sint s < - (2 ^ 63) \<or> 2 ^ 63 \<le> sint v + sint s then None
               else Some (set_field_val i (HMF_S64 (v + scast s)) msg)
           | _ \<Rightarrow> htsmsg_add_s32 (htsmsg_field_destroy msg i) (Some name) s))"

section \<open>Reading\<close>

text \<open>\<open>strtoll\<close> with base 0: the prefix of the number gives its base.\<close>

definition auto_base :: "string \<Rightarrow> int" where
  "auto_base s = (if skip_0x 16 s \<noteq> s then 16 else if take 1 s = ''0'' then 8 else 10)"

definition strtoll0 :: "string \<Rightarrow> i64" where
  "strtoll0 s =
     (let t = dropWhile is_c_space s;
          u = (if take 1 t = ''-'' \<or> take 1 t = ''+'' then tl t else t)
      in word_of_int (strtol (auto_base u) s))"

definition htsmsg_get_s64 :: "htsmsg \<Rightarrow> hkey \<Rightarrow> herr + i64" where
  "htsmsg_get_s64 msg k =
     (case htsmsg_field_find msg k of
        None \<Rightarrow> Inl HTSMSG_ERR_FIELD_NOT_FOUND
      | Some i \<Rightarrow>
          (case field_val msg i of
             HMF_STR s \<Rightarrow> Inr (strtoll0 s)
           | HMF_S64 v \<Rightarrow> Inr v
           | _ \<Rightarrow> Inl HTSMSG_ERR_CONVERSION_IMPOSSIBLE))"

definition htsmsg_get_u32 :: "htsmsg \<Rightarrow> hkey \<Rightarrow> herr + u32" where
  "htsmsg_get_u32 msg k =
     (case htsmsg_get_s64 msg k of
        Inl e \<Rightarrow> Inl e
      | Inr v \<Rightarrow> if sint v < 0 \<or> 0xffffffff < sint v then Inl HTSMSG_ERR_CONVERSION_IMPOSSIBLE
                 else Inr (ucast v))"

definition htsmsg_get_s32 :: "htsmsg \<Rightarrow> hkey \<Rightarrow> herr + i32" where
  "htsmsg_get_s32 msg k =
     (case htsmsg_get_s64 msg k of
        Inl e \<Rightarrow> Inl e
      | Inr v \<Rightarrow> if sint v < - 0x80000000 \<or> 0x7fffffff < sint v then Inl HTSMSG_ERR_CONVERSION_IMPOSSIBLE
                 else Inr (ucast v))"

definition htsmsg_get_u32_or_default :: "htsmsg \<Rightarrow> hkey \<Rightarrow> u32 \<Rightarrow> u32" where
  "htsmsg_get_u32_or_default msg k d = (case htsmsg_get_u32 msg k of Inl _ \<Rightarrow> d | Inr v \<Rightarrow> v)"

definition htsmsg_get_s32_or_default :: "htsmsg \<Rightarrow> hkey \<Rightarrow> i32 \<Rightarrow> i32" where
  "htsmsg_get_s32_or_default msg k d = (case htsmsg_get_s32 msg k of Inl _ \<Rightarrow> d | Inr v \<Rightarrow> v)"

definition htsmsg_get_bin :: "htsmsg \<Rightarrow> hkey \<Rightarrow> herr + string" where
  "htsmsg_get_bin msg k =
     (case htsmsg_field_find msg k of
        None \<Rightarrow> Inl HTSMSG_ERR_FIELD_NOT_FOUND
      | Some i \<Rightarrow>
          (case field_val msg i of
             HMF_STR s \<Rightarrow> Inr s
           | HMF_BIN b \<Rightarrow> Inr b
           | _ \<Rightarrow> Inl HTSMSG_ERR_CONVERSION_IMPOSSIBLE))"

text \<open>Reading a number as a string turns the field into a string.\<close>

definition htsmsg_field_get_string :: "hval \<Rightarrow> string option \<times> hval" where
  "htsmsg_field_get_string v =
     (case v of
        HMF_STR s \<Rightarrow> (Some s, v)
      | HMF_S64 i \<Rightarrow> (Some (int_dec (sint i)), HMF_STR (int_dec (sint i)))
      | _ \<Rightarrow> (None, v))"

definition htsmsg_get_str :: "htsmsg \<Rightarrow> hkey \<Rightarrow> string option \<times> htsmsg" where
  "htsmsg_get_str msg k =
     (case htsmsg_field_find msg k of
        None \<Rightarrow> (None, msg)
      | Some i \<Rightarrow> (case htsmsg_field_get_string (field_val msg i) of (r, v) \<Rightarrow> (r, set_field_val i v msg)))"

definition htsmsg_get_map :: "htsmsg \<Rightarrow> hkey \<Rightarrow> htsmsg option" where
  "htsmsg_get_map msg k =
     (case htsmsg_field_find msg k of
        None \<Rightarrow> None
      | Some i \<Rightarrow> (case field_val msg i of HMF_MAP fs \<Rightarrow> Some \<lparr>hm_islist = False, hm_fields = fs\<rparr> | _ \<Rightarrow> None))"

definition htsmsg_get_list :: "htsmsg \<Rightarrow> hkey \<Rightarrow> htsmsg option" where
  "htsmsg_get_list msg k =
     (case htsmsg_field_find msg k of
        None \<Rightarrow> None
      | Some i \<Rightarrow> (case field_val msg i of HMF_LIST fs \<Rightarrow> Some \<lparr>hm_islist = True, hm_fields = fs\<rparr> | _ \<Rightarrow> None))"

fun htsmsg_get_map_multi :: "htsmsg option \<Rightarrow> hkey list \<Rightarrow> htsmsg option" where
  "htsmsg_get_map_multi None ks = None"
| "htsmsg_get_map_multi (Some msg) [] = Some msg"
| "htsmsg_get_map_multi (Some msg) (k # ks) = htsmsg_get_map_multi (htsmsg_get_map msg k) ks"

fun htsmsg_get_str_multi :: "htsmsg \<Rightarrow> hkey list \<Rightarrow> string option" where
  "htsmsg_get_str_multi msg [] = None"
| "htsmsg_get_str_multi msg (k # ks) =
     (case htsmsg_field_find msg k of
        None \<Rightarrow> None
      | Some i \<Rightarrow>
          (case field_val msg i of
             HMF_STR s \<Rightarrow> Some s
           | v \<Rightarrow> (case hmf_childs v of Some m \<Rightarrow> htsmsg_get_str_multi m ks | None \<Rightarrow> None)))"

text \<open>The sub-messages of a list are counted from 1.\<close>

fun map_in_list :: "hfield list \<Rightarrow> int \<Rightarrow> htsmsg option" where
  "map_in_list [] num = None"
| "map_in_list (f # fs) num = (if num - 1 = 0 then hmf_childs (snd f) else map_in_list fs (num - 1))"

definition htsmsg_get_map_in_list :: "htsmsg \<Rightarrow> int \<Rightarrow> htsmsg option" where
  "htsmsg_get_map_in_list m num = map_in_list (hm_fields m) num"

definition htsmsg_get_map_by_field_if_name :: "hfield \<Rightarrow> string \<Rightarrow> htsmsg option" where
  "htsmsg_get_map_by_field_if_name f name = (if fst f \<noteq> Some name then None else hmf_childs (snd f))"

definition htsmsg_get_children :: "htsmsg \<Rightarrow> nat" where
  "htsmsg_get_children msg = length (hm_fields msg)"

section \<open>Copying\<close>

fun copy_fields :: "hfield list \<Rightarrow> htsmsg \<Rightarrow> htsmsg option"
and copy_val :: "string option \<Rightarrow> hval \<Rightarrow> htsmsg \<Rightarrow> htsmsg option" where
  "copy_fields [] dst = Some dst"
| "copy_fields ((n, v) # fs) dst = (case copy_val n v dst of None \<Rightarrow> None | Some d1 \<Rightarrow> copy_fields fs d1)"
| "copy_val n (HMF_MAP fs) dst =
     (case copy_fields fs htsmsg_create_map of None \<Rightarrow> None | Some sub \<Rightarrow> htsmsg_add_msg dst n sub)"
| "copy_val n (HMF_LIST fs) dst =
     (case copy_fields fs htsmsg_create_list of None \<Rightarrow> None | Some sub \<Rightarrow> htsmsg_add_msg dst n sub)"
| "copy_val n (HMF_STR s) dst = htsmsg_add_str dst n s"
| "copy_val n (HMF_S64 i) dst = htsmsg_add_s64 dst n i"
| "copy_val n (HMF_BIN b) dst = htsmsg_add_bin dst n b"
| "copy_val n (HMF_DBL d) dst = htsmsg_add_dbl dst n d"

definition htsmsg_copy :: "htsmsg \<Rightarrow> htsmsg option" where
  "htsmsg_copy src = copy_fields (hm_fields src) (if hm_islist src then htsmsg_create_list else htsmsg_create_map)"

section \<open>Well-formed messages\<close>

text \<open>Fields are named in maps and unnamed in lists, all the way down.\<close>

fun fields_ok :: "bool \<Rightarrow> hfield list \<Rightarrow> bool"
and val_ok :: "hval \<Rightarrow> bool" where
  "fields_ok l [] = True"
| "fields_ok l ((n, v) # fs) = ((l \<longleftrightarrow> n = None) \<and> val_ok v \<and> fields_ok l fs)"
| "val_ok (HMF_MAP fs) = fields_ok False fs"
| "val_ok (HMF_LIST fs) = fields_ok True fs"
| "val_ok _ = True"

definition msg_ok :: "htsmsg \<Rightarrow> bool" where
  "msg_ok m \<longleftrightarrow> fields_ok (hm_islist m) (hm_fields m)"

lemma fields_ok_iff: "fields_ok l fs \<longleftrightarrow> (\<forall>(n, v) \<in> set fs. (l \<longleftrightarrow> n = None) \<and> val_ok v)"
  by (induction fs) auto

lemma copy_ok:
  "fields_ok l fs \<Longrightarrow> hm_islist dst = l \<Longrightarrow> copy_fields fs dst = Some (dst\<lparr>hm_fields := hm_fields dst @ fs\<rparr>)"
  "val_ok v \<Longrightarrow> (hm_islist dst \<longleftrightarrow> n = None) \<Longrightarrow> copy_val n v dst = Some (dst\<lparr>hm_fields := hm_fields dst @ [(n, v)]\<rparr>)"
proof (induction fs dst and n v dst arbitrary: l rule: copy_fields_copy_val.induct)
  case (3 n fs dst)
  from 3(1)[of False] 3(2,3) show ?case
    by (simp add: htsmsg_create_map_def htsmsg_add_msg_def htsmsg_field_add_def sub_val_def)
next
  case (4 n fs dst)
  from 4(1)[of True] 4(2,3) show ?case
    by (simp add: htsmsg_create_list_def htsmsg_add_msg_def htsmsg_field_add_def sub_val_def)
qed (auto simp: htsmsg_add_str_def htsmsg_add_s64_def htsmsg_add_bin_def htsmsg_add_dbl_def htsmsg_field_add_def)

end
