(* ===== verification/Json.thy ===== *)
theory Json
  imports Htsbuf Htsmsg "HOL-Library.Sublist"
begin

text \<open>
  The JSON parser (\<open>src/misc/json.c\<close>) and the scanner of numbers (\<open>my_str2double\<close> of
  \<open>src/misc/dbl.c\<close>). The parser builds objects through the callbacks of a \<open>json_deserializer_t\<close>;
  a callback that asserts returns \<open>None\<close>. Plain \<open>char\<close> is signed and \<open>long\<close> has 64 bits.

  The scanner gives the parts of a number; the double computed from them with \<open>pow\<close> is the
  parameter \<open>dbl\<close>. The nesting of the recursive calls is bounded by fuel, which never runs out
  (\<open>json_no_fuel\<close>).
\<close>

text \<open>
  \<open>J_fail\<close> carries the message and the length of the text from the place of the error on.
  \<open>J_abort\<close> is the \<open>assert(v > 0)\<close> of \<open>json_parse_string\<close>, \<open>J_callback\<close> an assertion in a callback,
  \<open>J_undef\<close> signed overflow.
\<close>

datatype jerr = J_fail string int | J_abort | J_callback | J_undef | J_fuel

definition signed_char :: "char \<Rightarrow> int" where
  "signed_char c = (if byte c < 128 then byte c else byte c - 256)"

definition skip_ws :: "string \<Rightarrow> string" where
  "skip_ws s = dropWhile (\<lambda>c. 0 < signed_char c \<and> signed_char c < 33) s"

section \<open>Strings\<close>

fun json_hex4 :: "nat \<Rightarrow> int \<Rightarrow> string \<Rightarrow> (int \<times> string) option" where
  "json_hex4 0 v s = Some (v, s)"
| "json_hex4 (Suc n) v [] = None"
| "json_hex4 (Suc n) v (c # s) =
     (if 48 \<le> byte c \<and> byte c \<le> 57 then json_hex4 n (v * 16 + (byte c - 48)) s
      else if 97 \<le> byte c \<and> byte c \<le> 102 then json_hex4 n (v * 16 + (byte c - 97 + 10)) s
      else if 65 \<le> byte c \<and> byte c \<le> 70 then json_hex4 n (v * 16 + (byte c - 70 + 10)) s
      else None)"

text \<open>\<open>Inl\<close>: -1 or -2 and what is left at the pointer, -1 when it has passed the terminator.\<close>

definition json_str_read_char :: "string \<Rightarrow> (int \<times> int) + (int \<times> string)" where
  "json_str_read_char s =
     (case s of
        [] \<Rightarrow> Inl (-1, 0)
      | c # s1 \<Rightarrow>
          if c \<noteq> CHR 0x5C then Inr (utf8_get s)
          else (case s1 of
                  [] \<Rightarrow> Inl (-1, -1)
                | e # s2 \<Rightarrow>
                    if e = CHR ''b'' then Inr (8, s2)
                    else if e = CHR ''f'' then Inr (12, s2)
                    else if e = CHR ''n'' then Inr (10, s2)
                    else if e = CHR ''r'' then Inr (13, s2)
                    else if e = CHR ''t'' then Inr (9, s2)
                    else if e = CHR ''u'' then
                      (case json_hex4 4 0 s2 of None \<Rightarrow> Inl (-2, int (length s2)) | Some r \<Rightarrow> Inr r)
                    else let v = signed_char e
                         in if v = -1 \<or> v = -2 then Inl (v, int (length s2)) else Inr (v, s2)))"

lemma json_hex4_shorter: "json_hex4 n v s = Some (r, t) \<Longrightarrow> length t \<le> length s"
  by (induction n v s rule: json_hex4.induct) (auto split: if_splits)

lemma read_char_shorter: "json_str_read_char s = Inr (v, t) \<Longrightarrow> length t < length s"
  using utf8_get_shorter[of s]
  by (auto simp: json_str_read_char_def Let_def dest!: json_hex4_shorter split: list.splits if_splits option.splits)

text \<open>The loop over the characters up to the closing quote, which the code runs twice.\<close>

function json_string_loop :: "string \<Rightarrow> jerr + int list \<times> string" where
  "json_string_loop s =
     (if take 1 s = [CHR 0x22] then Inr ([], tl s)
      else case json_str_read_char s of
             Inl (v, rem) \<Rightarrow>
               Inl (J_fail (if v = -1 then ''Unexpected end of JSON message'' else ''Incorrect escape sequence'') rem)
           | Inr (v, t) \<Rightarrow>
               (case json_string_loop t of Inl e \<Rightarrow> Inl e | Inr (vs, r) \<Rightarrow> Inr (v # vs, r)))"
  by pat_completeness auto
termination
  by (relation "measure length") (auto intro: read_char_shorter)

declare json_string_loop.simps [simp del]

text \<open>\<open>Inr None\<close> is \<open>NOT_THIS_TYPE\<close>.\<close>

definition json_parse_string :: "string \<Rightarrow> jerr + (string \<times> string) option" where
  "json_parse_string s =
     (let s1 = skip_ws s
      in if take 1 s1 \<noteq> [CHR 0x22] then Inr None
         else case json_string_loop (tl s1) of
                Inl e \<Rightarrow> Inl e
              | Inr (vs, t) \<Rightarrow>
                  if \<exists>v \<in> set vs. v \<le> 0 then Inl J_abort else Inr (Some (concat (map utf8_put vs), t)))"

section \<open>Numbers\<close>

text \<open>Digits accumulated in an \<open>int\<close>: \<open>None\<close> on signed overflow.\<close>

fun int_digits :: "int \<Rightarrow> string \<Rightarrow> (int \<times> string) option" where
  "int_digits n [] = Some (n, [])"
| "int_digits n (c # s) =
     (if is_digit c then
        if 2 ^ 31 \<le> n * 10 + byte c then None else int_digits (n * 10 + byte c - 48) s
      else Some (n, c # s))"

text \<open>At most 16 digits of the fraction count; \<open>m\<close> is minus their number.\<close>

fun frac_digits :: "nat \<Rightarrow> u64 \<Rightarrow> string \<Rightarrow> nat \<times> u64 \<times> string" where
  "frac_digits m v [] = (m, v, [])"
| "frac_digits m v (c # s) =
     (if is_digit c then
        if m < 16 then frac_digits (Suc m) (v * 10 + word_of_int (byte c) - 48) s else frac_digits m v s
      else (m, v, c # s))"

record dparts =
  d_neg :: bool
  d_int :: int
  d_frac :: "(nat \<times> u64) option"
  d_exp :: "int option"

definition my_str2double :: "string \<Rightarrow> (dparts \<times> string) option" where
  "my_str2double str =
     (let s = dropWhile (\<lambda>c. signed_char c < 33) str;
          neg = (take 1 s = ''-'');
          s1 = (if neg then tl s else s)
      in case int_digits 0 s1 of
           None \<Rightarrow> None
         | Some (n, s2) \<Rightarrow>
             let (fr, s3) = (if take 1 s2 = ''.'' then (case frac_digits 0 0 (tl s2) of (m, v, s3) \<Rightarrow> (Some (m, v), s3))
                             else (None, s2))
             in if take 1 s3 = ''e'' \<or> take 1 s3 = ''E'' then
                  let s4 = tl s3;
                      eneg = (take 1 s4 = ''-'');
                      s5 = (if take 1 s4 = ''+'' \<or> eneg then tl s4 else s4)
                  in (case int_digits 0 s5 of
                        None \<Rightarrow> None
                      | Some (e, s6) \<Rightarrow>
                          Some (\<lparr>d_neg = neg, d_int = n, d_frac = fr, d_exp = Some (if eneg then - e else e)\<rparr>, s6))
                else Some (\<lparr>d_neg = neg, d_int = n, d_frac = fr, d_exp = None\<rparr>, s3))"

definition json_parse_double :: "string \<Rightarrow> jerr + (dparts \<times> string) option" where
  "json_parse_double s =
     (let s1 = skip_ws s
      in case my_str2double s1 of
           None \<Rightarrow> Inl J_undef
         | Some (d, t) \<Rightarrow> Inr (if t = s1 then None else Some (d, t)))"

text \<open>\<open>strtol\<close> stops at \<open>LONG_MIN\<close> and \<open>LONG_MAX\<close>; both are refused.\<close>

definition json_parse_integer :: "string \<Rightarrow> (i64 \<times> string) option" where
  "json_parse_integer s =
     (let s1 = skip_ws s;
          s2 = dropWhile is_digit (if take 1 s1 = ''-'' then tl s1 else s1)
      in if s2 = [] \<or> hd s2 \<in> set ''.eE'' then None
         else let u = (if take 1 s1 = ''-'' \<or> take 1 s1 = ''+'' then tl s1 else s1);
                  v = (if take 1 s1 = ''-'' then - digits_val u else digits_val u)
              in if v \<le> - (2 ^ 63) \<or> 2 ^ 63 - 1 \<le> v then None
                 else if takeWhile is_digit u = [] then None
                 else Some (word_of_int v, dropWhile is_digit u))"

section \<open>Values\<close>

record 'o json_deserializer =
  jd_create_map :: 'o
  jd_create_list :: 'o
  jd_add_obj :: "'o \<Rightarrow> string option \<Rightarrow> 'o \<Rightarrow> 'o option"
  jd_add_string :: "'o \<Rightarrow> string option \<Rightarrow> string \<Rightarrow> 'o option"
  jd_add_long :: "'o \<Rightarrow> string option \<Rightarrow> i64 \<Rightarrow> 'o option"
  jd_add_double :: "'o \<Rightarrow> string option \<Rightarrow> f64 \<Rightarrow> 'o option"
  jd_add_bool :: "'o \<Rightarrow> string option \<Rightarrow> bool \<Rightarrow> 'o option"
  jd_add_null :: "'o \<Rightarrow> string option \<Rightarrow> 'o option"

definition j_added :: "'o option \<Rightarrow> string \<Rightarrow> jerr + 'o \<times> string" where
  "j_added r s = (case r of None \<Rightarrow> Inl J_callback | Some p \<Rightarrow> Inr (p, s))"

definition json_parse_map ::
  "(string \<Rightarrow> 'o \<Rightarrow> jerr + 'o \<times> string) \<Rightarrow> 'o json_deserializer \<Rightarrow> string \<Rightarrow> jerr + ('o \<times> string) option" where
  "json_parse_map loop jd s =
     (let s1 = skip_ws s
      in if take 1 s1 \<noteq> ''{'' then Inr None
         else let s2 = skip_ws (tl s1)
              in if take 1 s2 = ''}'' then Inr (Some (jd_create_map jd, tl s2))
                 else case loop s2 (jd_create_map jd) of Inl e \<Rightarrow> Inl e | Inr x \<Rightarrow> Inr (Some x))"

definition json_parse_list ::
  "(string \<Rightarrow> 'o \<Rightarrow> jerr + 'o \<times> string) \<Rightarrow> 'o json_deserializer \<Rightarrow> string \<Rightarrow> jerr + ('o \<times> string) option" where
  "json_parse_list loop jd s =
     (let s1 = skip_ws s
      in if take 1 s1 \<noteq> ''['' then Inr None
         else let s2 = skip_ws (tl s1)
              in if take 1 s2 = '']'' then Inr (Some (jd_create_list jd, tl s2))
                 else case loop s2 (jd_create_list jd) of Inl e \<Rightarrow> Inl e | Inr x \<Rightarrow> Inr (Some x))"

definition json_parse_scalar ::
  "'o json_deserializer \<Rightarrow> (dparts \<Rightarrow> f64) \<Rightarrow> string \<Rightarrow> 'o \<Rightarrow> string option \<Rightarrow> jerr + 'o \<times> string" where
  "json_parse_scalar jd dbl s parent name =
     (case json_parse_string s of
        Inl e \<Rightarrow> Inl e
      | Inr (Some (str, t)) \<Rightarrow> j_added (jd_add_string jd parent name str) t
      | Inr None \<Rightarrow>
          (case json_parse_integer s of
             Some (l, t) \<Rightarrow> j_added (jd_add_long jd parent name l) t
           | None \<Rightarrow>
               (case json_parse_double s of
                  Inl e \<Rightarrow> Inl e
                | Inr (Some (d, t)) \<Rightarrow> j_added (jd_add_double jd parent name (dbl d)) t
                | Inr None \<Rightarrow>
                    let s1 = skip_ws s
                    in if take 4 s1 = ''true'' then j_added (jd_add_bool jd parent name True) (drop 4 s1)
                       else if take 5 s1 = ''false'' then j_added (jd_add_bool jd parent name False) (drop 5 s1)
                       else if take 4 s1 = ''null'' then j_added (jd_add_null jd parent name) (drop 4 s1)
                       else Inl (J_fail ''Unknown token'' (int (length s1))))))"

definition expected :: "char \<Rightarrow> string" where
  "expected c = ''Expected '' @ [CHR 0x27, c, CHR 0x27]"

fun json_parse_value ::
  "'o json_deserializer \<Rightarrow> (dparts \<Rightarrow> f64) \<Rightarrow> nat \<Rightarrow> string \<Rightarrow> 'o \<Rightarrow> string option \<Rightarrow> jerr + 'o \<times> string"
and json_map_loop ::
  "'o json_deserializer \<Rightarrow> (dparts \<Rightarrow> f64) \<Rightarrow> nat \<Rightarrow> string \<Rightarrow> 'o \<Rightarrow> jerr + 'o \<times> string"
and json_list_loop ::
  "'o json_deserializer \<Rightarrow> (dparts \<Rightarrow> f64) \<Rightarrow> nat \<Rightarrow> string \<Rightarrow> 'o \<Rightarrow> jerr + 'o \<times> string" where
  "json_parse_value jd dbl 0 s parent name = Inl J_fuel"
| "json_parse_value jd dbl (Suc k) s parent name =
     (case json_parse_map (\<lambda>s r. json_map_loop jd dbl k s r) jd s of
        Inl e \<Rightarrow> Inl e
      | Inr (Some (c, t)) \<Rightarrow> j_added (jd_add_obj jd parent name c) t
      | Inr None \<Rightarrow>
          (case json_parse_list (\<lambda>s r. json_list_loop jd dbl k s r) jd s of
             Inl e \<Rightarrow> Inl e
           | Inr (Some (c, t)) \<Rightarrow> j_added (jd_add_obj jd parent name c) t
           | Inr None \<Rightarrow> json_parse_scalar jd dbl s parent name))"
| "json_map_loop jd dbl 0 s r = Inl J_fuel"
| "json_map_loop jd dbl (Suc k) s r =
     (case json_parse_string s of
        Inl e \<Rightarrow> Inl e
      | Inr None \<Rightarrow> Inl (J_fail ''Expected string'' (int (length s)))
      | Inr (Some (name, s2)) \<Rightarrow>
          let s3 = skip_ws s2
          in if take 1 s3 \<noteq> '':'' then Inl (J_fail (expected CHR '':'') (int (length s3)))
             else (case json_parse_value jd dbl k (tl s3) r (Some name) of
                     Inl e \<Rightarrow> Inl e
                   | Inr (r1, s4) \<Rightarrow>
                       let s5 = skip_ws s4
                       in if take 1 s5 = ''}'' then Inr (r1, tl s5)
                          else if take 1 s5 \<noteq> '','' then Inl (J_fail (expected CHR '','') (int (length s5)))
                          else json_map_loop jd dbl k (tl s5) r1))"
| "json_list_loop jd dbl 0 s r = Inl J_fuel"
| "json_list_loop jd dbl (Suc k) s r =
     (case json_parse_value jd dbl k s r None of
        Inl e \<Rightarrow> Inl e
      | Inr (r1, s4) \<Rightarrow>
          let s5 = skip_ws s4
          in if take 1 s5 = '']'' then Inr (r1, tl s5)
             else if take 1 s5 \<noteq> '','' then Inl (J_fail (expected CHR '','') (int (length s5)))
             else json_list_loop jd dbl k (tl s5) r1)"

definition json_fuel :: "string \<Rightarrow> nat" where
  "json_fuel src = 2 * length src + 3"

definition json_deserialize :: "'o json_deserializer \<Rightarrow> (dparts \<Rightarrow> f64) \<Rightarrow> string \<Rightarrow> jerr + 'o" where
  "json_deserialize jd dbl src =
     (case json_parse_map (json_map_loop jd dbl (json_fuel src)) jd src of
        Inl e \<Rightarrow> Inl e
      | Inr (Some (c, t)) \<Rightarrow> Inr c
      | Inr None \<Rightarrow>
          (case json_parse_list (json_list_loop jd dbl (json_fuel src)) jd src of
             Inl e \<Rightarrow> Inl e
           | Inr (Some (c, t)) \<Rightarrow> Inr c
           | Inr None \<Rightarrow> Inl (J_fail ''Invalid JSON'' (int (length src)))))"

text \<open>The text put into the error buffer, before it is cut to the buffer's size.\<close>

definition json_error_text :: "string \<Rightarrow> string \<Rightarrow> int \<Rightarrow> string" where
  "json_error_text src msg rem =
     (if msg = ''Invalid JSON'' then ''Invalid JSON, expected '' @ [CHR 0x27] @ ''{'' @ [CHR 0x27] @ '' or '' @ [CHR 0x27] @ ''['' @ [CHR 0x27]
      else let offset = int (length src) - rem
           in if int (length src) < offset \<or> offset < 0 then msg @ '' at (bad) offset '' @ int_dec offset
              else let o1 = max 0 (offset - 10)
                   in msg @ '' at offset '' @ int_dec o1 @ '' : '' @ [CHR 0x27] @ take 20 (drop (nat o1) src) @ [CHR 0x27])"

section \<open>The parser moves forward\<close>

lemma skip_ws_length: "length (skip_ws s) \<le> length s"
  by (simp add: skip_ws_def length_dropWhile_le)

lemma take1_length: "take 1 s = [c] \<Longrightarrow> 0 < length s"
  by (cases s) auto

lemma tl_length: "0 < length s \<Longrightarrow> length (tl s) < length s"
  by (cases s) auto

lemma string_loop_shorter: "json_string_loop s = Inr (vs, t) \<Longrightarrow> length t < length s"
proof (induction s arbitrary: vs t rule: json_string_loop.induct)
  case (1 s)
  show ?case
  proof (cases "take 1 s = [CHR 0x22]")
    case True
    then show ?thesis using 1(2) by (subst (asm) json_string_loop.simps) (auto dest!: take1_length intro: tl_length)
  next
    case False
    with 1(2) obtain v u vs' where u: "json_str_read_char s = Inr (v, u)" "json_string_loop u = Inr (vs', t)"
      by (subst (asm) json_string_loop.simps) (auto split: sum.splits prod.splits)
    with 1(1)[OF False u(1) refl u(2)] read_char_shorter[OF u(1)] show ?thesis by simp
  qed
qed

lemma parse_string_shorter: "json_parse_string s = Inr (Some (v, t)) \<Longrightarrow> length t < length s"
  using skip_ws_length[of s]
  by (auto simp: json_parse_string_def Let_def dest!: string_loop_shorter split: if_splits sum.splits prod.splits)

lemma int_digits_suffix: "int_digits n s = Some (v, t) \<Longrightarrow> suffix t s"
  by (induction n s rule: int_digits.induct) (auto split: if_splits intro: suffix_ConsI)

lemma frac_digits_suffix: "frac_digits m v s = (m', v', t) \<Longrightarrow> suffix t s"
  by (induction m v s rule: frac_digits.induct) (auto split: if_splits intro: suffix_ConsI)

lemma my_str2double_suffix:
  assumes "my_str2double s = Some (d, t)" shows "suffix t s"
proof -
  define s0 where "s0 = dropWhile (\<lambda>c. signed_char c < 33) s"
  define s1 where "s1 = (if take 1 s0 = ''-'' then tl s0 else s0)"
  have 1: "suffix s1 s"
    unfolding s1_def s0_def by (auto intro: suffix_dropWhile suffix_order.trans[OF suffix_tl])
  have "int_digits 0 s1 \<noteq> None"
    using assms unfolding my_str2double_def Let_def s0_def[symmetric] s1_def[symmetric] by (auto split: option.splits)
  then obtain n s2 where n: "int_digits 0 s1 = Some (n, s2)" by auto
  define s3 where "s3 = (if take 1 s2 = ''.'' then snd (snd (frac_digits 0 0 (tl s2))) else s2)"
  have 3: "suffix s3 s2"
    unfolding s3_def by (auto intro: suffix_order.trans[OF frac_digits_suffix suffix_tl] simp: prod_eq_iff)
  define s5 where "s5 = (if take 1 (tl s3) = ''+'' \<or> take 1 (tl s3) = ''-'' then tl (tl s3) else tl s3)"
  have 5: "suffix s5 s3" unfolding s5_def by (auto intro: suffix_tl suffix_order.trans[OF suffix_tl])
  have "t = s3 \<or> (\<exists>e. int_digits 0 s5 = Some (e, t))"
    using assms n unfolding my_str2double_def Let_def s0_def[symmetric] s1_def[symmetric]
    by (auto simp: s3_def s5_def split: option.splits prod.splits if_splits)
  then have "suffix t s3" using int_digits_suffix 5 suffix_order.trans by blast
  then show ?thesis
    using 1 3 int_digits_suffix[OF n] suffix_order.trans by blast
qed

lemma dropWhile_shorter: "takeWhile P u \<noteq> [] \<Longrightarrow> length (dropWhile P u) < length u"
  by (cases u) (auto simp: length_dropWhile_le le_imp_less_Suc split: if_splits)

lemma parse_integer_shorter:
  assumes "json_parse_integer s = Some (v, t)" shows "length t < length s"
proof -
  obtain u where "takeWhile is_digit u \<noteq> []" "t = dropWhile is_digit u" "length u \<le> length (skip_ws s)"
    using assms by (auto simp: json_parse_integer_def Let_def split: if_splits)
  with dropWhile_shorter[of is_digit u] skip_ws_length[of s] show ?thesis by simp
qed

lemma parse_double_shorter:
  assumes "json_parse_double s = Inr (Some (d, t))" shows "length t < length s"
proof -
  have "suffix t (skip_ws s)" "t \<noteq> skip_ws s"
    using assms my_str2double_suffix by (auto simp: json_parse_double_def Let_def split: option.splits if_splits)
  then have "length t < length (skip_ws s)" by (auto simp: suffix_def)
  with skip_ws_length[of s] show ?thesis by simp
qed

lemma j_added_Inr: "j_added r t = Inr (p, u) \<longleftrightarrow> r = Some p \<and> u = t"
  by (auto simp: j_added_def split: option.splits)

lemma j_added_Inl: "j_added r t = Inl e \<longleftrightarrow> r = None \<and> e = J_callback"
  by (auto simp: j_added_def split: option.splits)

lemma token_shorter: "take n s = w \<Longrightarrow> w \<noteq> [] \<Longrightarrow> length (drop n s) < length s"
  by (cases s; cases n) auto

lemma parse_scalar_shorter:
  assumes "json_parse_scalar jd dbl s p nm = Inr (r, t)" shows "length t < length s"
  using assms skip_ws_length[of s] token_shorter[of 4 "skip_ws s" "''true''"] token_shorter[of 5 "skip_ws s" "''false''"]
    token_shorter[of 4 "skip_ws s" "''null''"]
  by (auto simp: json_parse_scalar_def j_added_Inr Let_def split: sum.splits option.splits prod.splits if_splits
      dest!: parse_string_shorter parse_integer_shorter parse_double_shorter)

text \<open>Maps and lists are read the same way up to their brackets.\<close>

definition json_parse_seq ::
  "string \<Rightarrow> string \<Rightarrow> (string \<Rightarrow> 'o \<Rightarrow> jerr + 'o \<times> string) \<Rightarrow> 'o \<Rightarrow> string \<Rightarrow> jerr + ('o \<times> string) option" where
  "json_parse_seq opn cls loop new s =
     (let s1 = skip_ws s
      in if take 1 s1 \<noteq> opn then Inr None
         else let s2 = skip_ws (tl s1)
              in if take 1 s2 = cls then Inr (Some (new, tl s2))
                 else case loop s2 new of Inl e \<Rightarrow> Inl e | Inr x \<Rightarrow> Inr (Some x))"

lemma json_parse_seq:
  "json_parse_map loop jd s = json_parse_seq ''{'' ''}'' loop (jd_create_map jd) s"
  "json_parse_list loop jd s = json_parse_seq ''['' '']'' loop (jd_create_list jd) s"
  by (simp_all only: json_parse_map_def json_parse_list_def json_parse_seq_def)

lemma seq_body_shorter: "take 1 (skip_ws s) = [c] \<Longrightarrow> length (skip_ws (tl (skip_ws s))) < length s"
  using skip_ws_length[of s] skip_ws_length[of "tl (skip_ws s)"] tl_length[OF take1_length, of "skip_ws s" c]
  by linarith

lemma parse_seq_cases:
  assumes "json_parse_seq [a] [b] loop new s = r"
  obtains (other) "take 1 (skip_ws s) \<noteq> [a]" "r = Inr None"
  | (empty) t where "length t < length s" "r = Inr (Some (new, t))"
  | (error) u e where "length u < length s" "loop u new = Inl e" "r = Inl e"
  | (body) u x t where "length u < length s" "loop u new = Inr (x, t)" "r = Inr (Some (x, t))"
proof (cases "take 1 (skip_ws s) = [a]")
  case a: True
  let ?u = "skip_ws (tl (skip_ws s))"
  note l = seq_body_shorter[OF a]
  show thesis
  proof (cases "take 1 ?u = [b]")
    case b: True
    from l tl_length[OF take1_length[OF b]] have "length (tl ?u) < length s" by linarith
    then show thesis using assms a b by (intro empty[of "tl ?u"]) (simp_all add: json_parse_seq_def Let_def)
  next
    case b: False
    then show thesis using assms a l
      by (cases "loop ?u new") (auto simp: json_parse_seq_def Let_def intro: error body)
  qed
qed (use assms in \<open>simp add: json_parse_seq_def other\<close>)

lemma parse_seq_shorter:
  assumes "json_parse_seq [a] [b] loop new s = Inr (Some (r, t))"
    and "\<And>u x r t. length u < length s \<Longrightarrow> loop u x = Inr (r, t) \<Longrightarrow> length t < length u"
  shows "length t < length s"
  using assms(1)
proof (cases rule: parse_seq_cases)
  case (body u x t')
  with assms(2)[OF body(1,2)] show ?thesis by simp
qed auto

text \<open>What a pass through the loops does.\<close>

lemma map_loop_cases:
  assumes "json_map_loop jd dbl (Suc k) s r = res"
  obtains (string) e where "json_parse_string s = Inl e" "res = Inl e"
  | (refused) m n where "res = Inl (J_fail m n)"
  | (val) nm u e where "length u < length s" "json_parse_value jd dbl k u r (Some nm) = Inl e" "res = Inl e"
  | (last) nm u r1 v t where "length u < length s" "json_parse_value jd dbl k u r (Some nm) = Inr (r1, v)"
      "length t < length v" "res = Inr (r1, t)"
  | (more) nm u r1 v t where "length u < length s" "json_parse_value jd dbl k u r (Some nm) = Inr (r1, v)"
      "length t < length v" "res = json_map_loop jd dbl k t r1"
proof (cases "json_parse_string s")
  case (Inr x)
  show thesis
  proof (cases x)
    case (Some y)
    obtain nm s2 where y: "y = (nm, s2)" by (cases y)
    let ?s3 = "skip_ws s2"
    show thesis
    proof (cases "take 1 ?s3 = '':''")
      case True
      have u: "length (tl ?s3) < length s"
        using parse_string_shorter[of s nm s2] skip_ws_length[of s2] tl_length[OF take1_length[OF True]] Inr Some y
        by simp
      show thesis
      proof (cases "json_parse_value jd dbl k (tl ?s3) r (Some nm)")
        case (Inr z)
        obtain r1 s4 where z: "z = (r1, s4)" by (cases z)
        have t: "take 1 (skip_ws s4) = [c] \<Longrightarrow> length (tl (skip_ws s4)) < length s4" for c
          using tl_length[OF take1_length, of "skip_ws s4" c] skip_ws_length[of s4] by linarith
        note v = Inr[unfolded z]
        show thesis
        proof (cases "take 1 (skip_ws s4) = ''}''")
          case True
          then show thesis
            using assms \<open>json_parse_string s = Inr x\<close> Some y v \<open>take 1 ?s3 = '':''\<close> last[OF u v t[OF True]] by simp
        next
          case False
          then show thesis
            using assms \<open>json_parse_string s = Inr x\<close> Some y v \<open>take 1 ?s3 = '':''\<close> more[OF u v t] refused
            by (cases "take 1 (skip_ws s4) = '',''") auto
        qed
      next
        case (Inl e)
        then show thesis using assms \<open>json_parse_string s = Inr x\<close> Some y True val[OF u Inl] by simp
      qed
    next
      case False
      then have "res = Inl (J_fail (expected CHR '':'') (int (length ?s3)))"
        using assms Inr Some y by (simp add: Let_def)
      then show thesis by (rule refused)
    qed
  next
    case None
    then have "res = Inl (J_fail ''Expected string'' (int (length s)))" using assms Inr by simp
    then show thesis by (rule refused)
  qed
qed (use assms string in simp)

lemma list_loop_cases:
  assumes "json_list_loop jd dbl (Suc k) s r = res"
  obtains (refused) m n where "res = Inl (J_fail m n)"
  | (val) e where "json_parse_value jd dbl k s r None = Inl e" "res = Inl e"
  | (last) r1 v t where "json_parse_value jd dbl k s r None = Inr (r1, v)" "length t < length v" "res = Inr (r1, t)"
  | (more) r1 v t where "json_parse_value jd dbl k s r None = Inr (r1, v)" "length t < length v"
      "res = json_list_loop jd dbl k t r1"
proof (cases "json_parse_value jd dbl k s r None")
  case (Inr z)
  obtain r1 s4 where z: "z = (r1, s4)" by (cases z)
  have t: "take 1 (skip_ws s4) = [c] \<Longrightarrow> length (tl (skip_ws s4)) < length s4" for c
    using tl_length[OF take1_length, of "skip_ws s4" c] skip_ws_length[of s4] by linarith
  note v = Inr[unfolded z]
  show thesis
  proof (cases "take 1 (skip_ws s4) = '']''")
    case True
    then show thesis using assms v last[OF v t[OF True]] by simp
  next
    case False
    then show thesis using assms v more[OF v t] refused by (cases "take 1 (skip_ws s4) = '',''") auto
  qed
next
  case (Inl e)
  then show thesis using assms val[OF Inl] by simp
qed

lemma value_cases:
  assumes "json_parse_value jd dbl (Suc k) s p nm = res"
  obtains (map_error) u e where "length u < length s" "json_map_loop jd dbl k u (jd_create_map jd) = Inl e" "res = Inl e"
  | (list_error) u e where "length u < length s" "json_list_loop jd dbl k u (jd_create_list jd) = Inl e" "res = Inl e"
  | (new_map) t where "length t < length s" "res = j_added (jd_add_obj jd p nm (jd_create_map jd)) t"
  | (new_list) t where "length t < length s" "res = j_added (jd_add_obj jd p nm (jd_create_list jd)) t"
  | (map) u c t where "length u < length s" "json_map_loop jd dbl k u (jd_create_map jd) = Inr (c, t)"
      "res = j_added (jd_add_obj jd p nm c) t"
  | (list) u c t where "length u < length s" "json_list_loop jd dbl k u (jd_create_list jd) = Inr (c, t)"
      "res = j_added (jd_add_obj jd p nm c) t"
  | (scalar) "res = json_parse_scalar jd dbl s p nm"
proof -
  let ?m = "json_parse_seq ''{'' ''}'' (json_map_loop jd dbl k) (jd_create_map jd) s"
  let ?l = "json_parse_seq ''['' '']'' (json_list_loop jd dbl k) (jd_create_list jd) s"
  have r: "res = (case ?m of Inl e \<Rightarrow> Inl e | Inr (Some (c, t)) \<Rightarrow> j_added (jd_add_obj jd p nm c) t
      | Inr None \<Rightarrow> (case ?l of Inl e \<Rightarrow> Inl e | Inr (Some (c, t)) \<Rightarrow> j_added (jd_add_obj jd p nm c) t
                   | Inr None \<Rightarrow> json_parse_scalar jd dbl s p nm))"
    using assms unfolding json_parse_value.simps json_parse_seq by (rule sym)
  show thesis
  proof (cases rule: parse_seq_cases[where a = "CHR ''{''" and b = "CHR ''}''" and loop = "json_map_loop jd dbl k"
        and new = "jd_create_map jd" and s = s, OF refl])
    case 1
    note m = this
    show thesis
    proof (cases rule: parse_seq_cases[where a = "CHR ''[''" and b = "CHR '']''" and loop = "json_list_loop jd dbl k"
        and new = "jd_create_list jd" and s = s, OF refl])
      case 1
      then show thesis using r m scalar by simp
    next
      case (2 t)
      then show thesis using r m new_list by simp
    next
      case (3 u e)
      then show thesis using r m list_error by simp
    next
      case (4 u x t)
      then show thesis using r m list by simp
    qed
  next
    case (2 t)
    then show thesis using r new_map by simp
  next
    case (3 u e)
    then show thesis using r map_error by simp
  next
    case (4 u x t)
    then show thesis using r map by simp
  qed
qed

lemma value_shorter:
  "json_parse_value jd dbl k s p nm = Inr (r, t) \<Longrightarrow> length t < length s"
  "json_map_loop jd dbl k s p = Inr (r, t) \<Longrightarrow> length t < length s"
  "json_list_loop jd dbl k s p = Inr (r, t) \<Longrightarrow> length t < length s"
proof (induction k arbitrary: s p nm r t)
  case (Suc k)
  {
    case 1
    then show ?case
    proof (cases rule: value_cases)
      case (map u c t')
      then show ?thesis using Suc(2)[OF map(2)] map(3)[symmetric] by (simp add: j_added_Inr)
    next
      case (list u c t')
      then show ?thesis using Suc(3)[OF list(2)] list(3)[symmetric] by (simp add: j_added_Inr)
    qed (auto dest: j_added_Inr[THEN iffD1, OF sym] parse_scalar_shorter[OF sym])
  next
    case 2
    then show ?case
    proof (cases rule: map_loop_cases)
      case (last nm u r1 v t')
      then show ?thesis using Suc(1)[OF last(2)] by simp
    next
      case (more nm u r1 v t')
      then show ?thesis using Suc(1)[OF more(2)] Suc(2)[OF more(4)[symmetric]] by simp
    qed auto
  next
    case 3
    then show ?case
    proof (cases rule: list_loop_cases)
      case (last r1 v t')
      then show ?thesis using Suc(1)[OF last(1)] by simp
    next
      case (more r1 v t')
      then show ?thesis using Suc(1)[OF more(1)] Suc(3)[OF more(3)[symmetric]] by simp
    qed auto
  }
qed simp_all

section \<open>The fuel is enough\<close>

lemma string_loop_fuel: "json_string_loop s \<noteq> Inl J_fuel"
proof (induction s rule: json_string_loop.induct)
  case (1 s)
  then show ?case by (subst json_string_loop.simps) (auto split: sum.splits prod.splits)
qed

lemma parse_string_fuel: "json_parse_string s \<noteq> Inl J_fuel"
  using string_loop_fuel by (auto simp: json_parse_string_def Let_def split: sum.splits)

lemma parse_scalar_fuel: "json_parse_scalar jd dbl s p nm \<noteq> Inl J_fuel"
  using parse_string_fuel[of s]
  by (auto simp: json_parse_scalar_def j_added_Inl json_parse_double_def Let_def
      split: sum.splits option.splits prod.splits if_splits)

lemma value_fuel:
  "2 * length s + 1 < k \<Longrightarrow> json_parse_value jd dbl k s p nm \<noteq> Inl J_fuel"
  "2 * length s + 1 < k \<Longrightarrow> json_map_loop jd dbl k s p \<noteq> Inl J_fuel"
  "2 * length s + 2 < k \<Longrightarrow> json_list_loop jd dbl k s p \<noteq> Inl J_fuel"
proof (induction k arbitrary: s p nm)
  case (Suc k)
  {
    case 1
    show ?case
    proof
      assume "json_parse_value jd dbl (Suc k) s p nm = Inl J_fuel"
      then show False
      proof (cases rule: value_cases)
        case (map_error u e)
        then show False using Suc(2)[of u "jd_create_map jd"] 1 by simp
      next
        case (list_error u e)
        then show False using Suc(3)[of u "jd_create_list jd"] 1 by simp
      qed (auto simp: j_added_def parse_scalar_fuel[symmetric] split: option.splits)
    qed
  next
    case 2
    show ?case
    proof
      assume "json_map_loop jd dbl (Suc k) s p = Inl J_fuel"
      then show False
      proof (cases rule: map_loop_cases)
        case (val nm u e)
        then show False using Suc(1)[of u p "Some nm"] 2 by simp
      next
        case (more nm u r1 v t)
        then show False using Suc(2)[of t r1] value_shorter(1)[OF more(2)] 2 by simp
      qed (auto simp: parse_string_fuel)
    qed
  next
    case 3
    show ?case
    proof
      assume "json_list_loop jd dbl (Suc k) s p = Inl J_fuel"
      then show False
      proof (cases rule: list_loop_cases)
        case (val e)
        then show False using Suc(1)[of s p None] 3 by simp
      next
        case (more r1 v t)
        then show False using Suc(3)[of t r1] value_shorter(1)[OF more(1)] 3 by simp
      qed auto
    qed
  }
qed simp_all

lemma json_no_fuel: "json_deserialize jd dbl src \<noteq> Inl J_fuel"
proof -
  let ?k = "json_fuel src"
  have m: "length u < length src \<Longrightarrow> json_map_loop jd dbl ?k u x \<noteq> Inl J_fuel" for u x
    by (rule value_fuel(2)) (simp add: json_fuel_def)
  have l: "length u < length src \<Longrightarrow> json_list_loop jd dbl ?k u x \<noteq> Inl J_fuel" for u x
    by (rule value_fuel(3)) (simp add: json_fuel_def)
  show ?thesis
  proof (cases rule: parse_seq_cases[where a = "CHR ''{''" and b = "CHR ''}''" and loop = "json_map_loop jd dbl ?k"
        and new = "jd_create_map jd" and s = src, OF refl])
    case 1
    then show ?thesis
    proof (cases rule: parse_seq_cases[where a = "CHR ''[''" and b = "CHR '']''" and loop = "json_list_loop jd dbl ?k"
        and new = "jd_create_list jd" and s = src, OF refl])
      case (3 u e)
      then show ?thesis using 1 l[of u "jd_create_list jd"] by (simp add: json_deserialize_def json_parse_seq)
    qed (simp_all add: json_deserialize_def json_parse_seq)
  next
    case (3 u e)
    then show ?thesis using m[of u "jd_create_map jd"] by (simp add: json_deserialize_def json_parse_seq)
  qed (simp_all add: json_deserialize_def json_parse_seq)
qed

end
