(* ===== verification/Htsmsg_Json.thy ===== *)
theory Htsmsg_Json
  imports Json
begin

text \<open>
  Messages as JSON (\<open>src/htsmsg/htsmsg_json.c\<close>): the callbacks that build a message while the text is
  parsed, and the writer. \<open>my_double2str\<close> is floating-point code that is not modelled; its result is
  the parameter \<open>d2s\<close>.
\<close>

section \<open>Reading\<close>

definition json_to_htsmsg :: "htsmsg json_deserializer" where
  "json_to_htsmsg =
     \<lparr>jd_create_map = htsmsg_create_map, jd_create_list = htsmsg_create_list,
      jd_add_obj = htsmsg_add_msg, jd_add_string = htsmsg_add_str, jd_add_long = htsmsg_add_s64,
      jd_add_double = htsmsg_add_dbl,
      jd_add_bool = (\<lambda>parent name v. htsmsg_add_u32 parent name (if v then 1 else 0)),
      jd_add_null = (\<lambda>parent name. Some parent)\<rparr>"

definition htsmsg_json_deserialize :: "(dparts \<Rightarrow> f64) \<Rightarrow> string \<Rightarrow> jerr + htsmsg" where
  "htsmsg_json_deserialize dbl src = json_deserialize json_to_htsmsg dbl src"

text \<open>
  What the parser needs of its callbacks: they never abort as long as an element of a map has a name
  and an element of a list has none.
\<close>

locale json_builder =
  fixes jd :: "'o json_deserializer" and good :: "bool \<Rightarrow> 'o \<Rightarrow> bool"
  assumes new_map: "good False (jd_create_map jd)" and new_list: "good True (jd_create_list jd)"
    and add_obj: "good l p \<Longrightarrow> (l \<longleftrightarrow> nm = None) \<Longrightarrow> good l' c \<Longrightarrow> \<exists>q. jd_add_obj jd p nm c = Some q \<and> good l q"
    and add_string: "good l p \<Longrightarrow> (l \<longleftrightarrow> nm = None) \<Longrightarrow> \<exists>q. jd_add_string jd p nm str = Some q \<and> good l q"
    and add_long: "good l p \<Longrightarrow> (l \<longleftrightarrow> nm = None) \<Longrightarrow> \<exists>q. jd_add_long jd p nm i = Some q \<and> good l q"
    and add_double: "good l p \<Longrightarrow> (l \<longleftrightarrow> nm = None) \<Longrightarrow> \<exists>q. jd_add_double jd p nm d = Some q \<and> good l q"
    and add_bool: "good l p \<Longrightarrow> (l \<longleftrightarrow> nm = None) \<Longrightarrow> \<exists>q. jd_add_bool jd p nm b = Some q \<and> good l q"
    and add_null: "good l p \<Longrightarrow> (l \<longleftrightarrow> nm = None) \<Longrightarrow> \<exists>q. jd_add_null jd p nm = Some q \<and> good l q"
begin

definition fine :: "bool \<Rightarrow> jerr + 'o \<times> string \<Rightarrow> bool" where
  "fine l r \<longleftrightarrow> (case r of Inl e \<Rightarrow> e \<noteq> J_callback | Inr (q, t) \<Rightarrow> good l q)"

lemma fine_simps [simp]: "fine l (Inl e) \<longleftrightarrow> e \<noteq> J_callback" "fine l (Inr (q, t)) \<longleftrightarrow> good l q"
  by (simp_all add: fine_def)

lemma fine_added: "\<exists>q. r = Some q \<and> good l q \<Longrightarrow> fine l (j_added r t)"
  by (auto simp: j_added_def)

lemma parse_string_fine: "json_parse_string s \<noteq> Inl J_callback"
proof -
  have "json_string_loop u \<noteq> Inl J_callback" for u
  proof (induction u rule: json_string_loop.induct)
    case (1 u)
    then show ?case by (subst json_string_loop.simps) (auto split: sum.splits prod.splits)
  qed
  then show ?thesis by (auto simp: json_parse_string_def Let_def split: sum.splits)
qed

lemma scalar_fine:
  assumes "good l p" "l \<longleftrightarrow> nm = None" shows "fine l (json_parse_scalar jd dbl s p nm)"
  using parse_string_fine[of s] add_string[OF assms] add_long[OF assms] add_double[OF assms] add_bool[OF assms] add_null[OF assms]
  by (auto simp: json_parse_scalar_def json_parse_double_def Let_def intro!: fine_added
      split: sum.splits option.splits prod.splits if_splits)

lemma value_fine:
  "good l p \<Longrightarrow> (l \<longleftrightarrow> nm = None) \<Longrightarrow> fine l (json_parse_value jd dbl k s p nm)"
  "good False p \<Longrightarrow> fine False (json_map_loop jd dbl k s p)"
  "good True p \<Longrightarrow> fine True (json_list_loop jd dbl k s p)"
proof (induction k arbitrary: l s p nm)
  case (Suc k)
  {
    case 1
    note p = this
    show ?case
    proof (cases rule: value_cases[where jd = jd and dbl = dbl and k = k and s = s and p = p and nm = nm, OF refl])
      case (1 u e)
      then show ?thesis using Suc(2)[OF new_map, of u] by simp
    next
      case (2 u e)
      then show ?thesis using Suc(3)[OF new_list, of u] by simp
    next
      case (3 t)
      then show ?thesis using fine_added[OF add_obj[OF p json_builder.new_map[OF json_builder_axioms]]] by simp
    next
      case (4 t)
      then show ?thesis using fine_added[OF add_obj[OF p json_builder.new_list[OF json_builder_axioms]]] by simp
    next
      case (5 u c t)
      have "good False c" using Suc(2)[OF new_map, of u] 5 by simp
      then show ?thesis using 5 fine_added[OF add_obj[OF p]] by simp
    next
      case (6 u c t)
      have "good True c" using Suc(3)[OF new_list, of u] 6 by simp
      then show ?thesis using 6 fine_added[OF add_obj[OF p]] by simp
    next
      case 7
      then show ?thesis using scalar_fine[OF p] by simp
    qed
  next
    case 2
    note p = this
    show ?case
    proof (cases rule: map_loop_cases[where jd = jd and dbl = dbl and k = k and s = s and r = p, OF refl])
      case (3 nm u e)
      then show ?thesis using Suc(1)[of False p "Some nm" u] p by simp
    next
      case (4 nm u r1 v t)
      then show ?thesis using Suc(1)[of False p "Some nm" u] p by simp
    next
      case (5 nm u r1 v t)
      then show ?thesis using Suc(1)[of False p "Some nm" u] Suc(2)[of r1 t] p by simp
    qed (use parse_string_fine in auto)
  next
    case 3
    note p = this
    show ?case
    proof (cases rule: list_loop_cases[where jd = jd and dbl = dbl and k = k and s = s and r = p, OF refl])
      case (2 e)
      then show ?thesis using Suc(1)[of True p None s] p by simp
    next
      case (3 r1 v t)
      then show ?thesis using Suc(1)[of True p None s] p by simp
    next
      case (4 r1 v t)
      then show ?thesis using Suc(1)[of True p None s] Suc(3)[of r1 t] p by simp
    qed auto
  }
qed simp_all

lemma deserialize_fine:
  "case json_deserialize jd dbl src of Inl e \<Rightarrow> e \<noteq> J_callback | Inr c \<Rightarrow> \<exists>l. good l c"
proof -
  let ?k = "json_fuel src"
  note m = value_fine(2)[OF new_map, of dbl ?k] and l = value_fine(3)[OF new_list, of dbl ?k]
  show ?thesis
  proof (cases rule: parse_seq_cases[where a = "CHR ''{''" and b = "CHR ''}''" and loop = "json_map_loop jd dbl ?k"
        and new = "jd_create_map jd" and s = src, OF refl])
    case 1
    then show ?thesis
    proof (cases rule: parse_seq_cases[where a = "CHR ''[''" and b = "CHR '']''" and loop = "json_list_loop jd dbl ?k"
        and new = "jd_create_list jd" and s = src, OF refl])
      case (3 u e)
      then show ?thesis using 1 l[of u] by (simp add: json_deserialize_def json_parse_seq)
    next
      case (4 u x t)
      then show ?thesis using 1 l[of u] by (auto simp: json_deserialize_def json_parse_seq)
    qed (use new_list in \<open>auto simp: json_deserialize_def json_parse_seq\<close>)
  next
    case (3 u e)
    then show ?thesis using m[of u] by (simp add: json_deserialize_def json_parse_seq)
  next
    case (4 u x t)
    then show ?thesis using m[of u] by (auto simp: json_deserialize_def json_parse_seq)
  qed (use new_map in \<open>auto simp: json_deserialize_def json_parse_seq\<close>)
qed

end

definition good_msg :: "bool \<Rightarrow> htsmsg \<Rightarrow> bool" where
  "good_msg l m \<longleftrightarrow> hm_islist m = l \<and> msg_ok m"

lemma fields_ok_append: "fields_ok l (fs @ gs) \<longleftrightarrow> fields_ok l fs \<and> fields_ok l gs"
  by (induction fs) auto

lemma field_add_good:
  assumes "good_msg l p" "l \<longleftrightarrow> nm = None" "val_ok v"
  shows "\<exists>q. htsmsg_field_add p nm v = Some q \<and> good_msg l q"
  using assms by (auto simp: htsmsg_field_add_def good_msg_def msg_ok_def fields_ok_append)

lemma val_ok_sub: "good_msg l c \<Longrightarrow> val_ok (sub_val c)"
  by (auto simp: good_msg_def msg_ok_def sub_val_def)

interpretation hj: json_builder json_to_htsmsg good_msg
proof unfold_locales
  fix l l' and p c :: htsmsg and nm :: "string option" assume a: "good_msg l p" "l \<longleftrightarrow> nm = None"
  note f = field_add_good[OF a]
  show "\<exists>q. jd_add_obj json_to_htsmsg p nm c = Some q \<and> good_msg l q" if "good_msg l' c"
    using f[OF val_ok_sub[OF that]] by (simp add: json_to_htsmsg_def htsmsg_add_msg_def)
  show "\<exists>q. jd_add_string json_to_htsmsg p nm str = Some q \<and> good_msg l q" for str
    using f by (simp add: json_to_htsmsg_def htsmsg_add_str_def)
  show "\<exists>q. jd_add_long json_to_htsmsg p nm i = Some q \<and> good_msg l q" for i
    using f by (simp add: json_to_htsmsg_def htsmsg_add_s64_def)
  show "\<exists>q. jd_add_double json_to_htsmsg p nm d = Some q \<and> good_msg l q" for d
    using f by (simp add: json_to_htsmsg_def htsmsg_add_dbl_def)
  show "\<exists>q. jd_add_bool json_to_htsmsg p nm b = Some q \<and> good_msg l q" for b
    using f by (simp add: json_to_htsmsg_def htsmsg_add_u32_def)
  show "\<exists>q. jd_add_null json_to_htsmsg p nm = Some q \<and> good_msg l q"
    using a by (simp add: json_to_htsmsg_def)
qed (simp_all add: json_to_htsmsg_def htsmsg_create_map_def htsmsg_create_list_def good_msg_def msg_ok_def)

lemma json_result_ok: "htsmsg_json_deserialize dbl src = Inr m \<Longrightarrow> msg_ok m"
  and json_no_callback: "htsmsg_json_deserialize dbl src \<noteq> Inl J_callback"
  using hj.deserialize_fine[of dbl src]
  by (auto simp: htsmsg_json_deserialize_def good_msg_def split: sum.splits)

section \<open>Writing\<close>

definition indentor :: string where
  "indentor = CHR 0x0A # replicate 16 (CHR 0x09)"

definition json_indent :: "htsbuf_queue \<Rightarrow> bool \<Rightarrow> nat \<Rightarrow> htsbuf_queue" where
  "json_indent hq pretty n = (if pretty then htsbuf_append hq (take (min n 16) indentor) else hq)"

definition json_name :: "string option \<Rightarrow> string" where
  "json_name n = (case n of None \<Rightarrow> ''noname'' | Some s \<Rightarrow> s)"

fun json_write_fields :: "(f64 \<Rightarrow> string) \<Rightarrow> hfield list \<Rightarrow> htsbuf_queue \<Rightarrow> bool \<Rightarrow> nat \<Rightarrow> bool \<Rightarrow> htsbuf_queue"
and json_write_val :: "(f64 \<Rightarrow> string) \<Rightarrow> hval \<Rightarrow> htsbuf_queue \<Rightarrow> nat \<Rightarrow> bool \<Rightarrow> htsbuf_queue" where
  "json_write_fields d2s [] hq isarray indent pretty = hq"
| "json_write_fields d2s ((n, v) # fs) hq isarray indent pretty =
     (let hq1 = json_indent hq pretty indent;
          hq2 = (if isarray then hq1
                 else htsbuf_append (htsbuf_append_and_escape_jsonstr hq1 (json_name n)) '': '');
          hq3 = json_write_val d2s v hq2 indent pretty;
          hq4 = (if fs = [] then hq3 else htsbuf_append hq3 '','')
      in json_write_fields d2s fs hq4 isarray indent pretty)"
| "json_write_val d2s (HMF_MAP fs) hq indent pretty =
     htsbuf_append (json_indent (json_write_fields d2s fs (htsbuf_append hq ''{'') False (indent + 1) pretty) pretty indent) ''}''"
| "json_write_val d2s (HMF_LIST fs) hq indent pretty =
     htsbuf_append (json_indent (json_write_fields d2s fs (htsbuf_append hq ''['') True (indent + 1) pretty) pretty indent) '']''"
| "json_write_val d2s (HMF_STR s) hq indent pretty = htsbuf_append_and_escape_jsonstr hq s"
| "json_write_val d2s (HMF_BIN b) hq indent pretty = htsbuf_append_and_escape_jsonstr hq ''binary''"
| "json_write_val d2s (HMF_S64 i) hq indent pretty = htsbuf_append hq (int_dec (sint i))"
| "json_write_val d2s (HMF_DBL d) hq indent pretty = htsbuf_append hq (d2s d)"

text \<open>The top level is a sub-message at indentation 2 (its brackets at 1).\<close>

definition htsmsg_json_serialize :: "(f64 \<Rightarrow> string) \<Rightarrow> htsmsg \<Rightarrow> htsbuf_queue \<Rightarrow> bool \<Rightarrow> htsbuf_queue" where
  "htsmsg_json_serialize d2s msg hq pretty =
     (let hq1 = json_write_val d2s (sub_val msg) hq 1 pretty
      in if pretty then htsbuf_append hq1 [CHR 0x0A] else hq1)"

definition htsmsg_json_serialize_to_str :: "(f64 \<Rightarrow> string) \<Rightarrow> htsmsg \<Rightarrow> bool \<Rightarrow> string" where
  "htsmsg_json_serialize_to_str d2s msg pretty =
     fst (htsbuf_to_string (htsmsg_json_serialize d2s msg (htsbuf_queue_init 0) pretty))"

definition htsbuf_to_rstr :: "htsbuf_queue \<Rightarrow> string option \<Rightarrow> string" where
  "htsbuf_to_rstr hq pfx =
     (case pfx of None \<Rightarrow> [] | Some p \<Rightarrow> p) @ fst (htsbuf_read hq (unat (hq_size hq)))"

definition htsmsg_json_serialize_to_rstr :: "(f64 \<Rightarrow> string) \<Rightarrow> htsmsg option \<Rightarrow> string option \<Rightarrow> string option" where
  "htsmsg_json_serialize_to_rstr d2s msg pfx =
     (case msg of
        None \<Rightarrow> None
      | Some m \<Rightarrow> if hm_fields m = [] then None
                  else Some (htsbuf_to_rstr (htsmsg_json_serialize d2s m (htsbuf_queue_init 0) False) pfx))"

section \<open>The text written\<close>

definition ind :: "bool \<Rightarrow> nat \<Rightarrow> string" where
  "ind pretty n = (if pretty then take (min n 16) indentor else [])"

fun fields_text :: "(f64 \<Rightarrow> string) \<Rightarrow> hfield list \<Rightarrow> bool \<Rightarrow> nat \<Rightarrow> bool \<Rightarrow> string"
and val_text :: "(f64 \<Rightarrow> string) \<Rightarrow> hval \<Rightarrow> nat \<Rightarrow> bool \<Rightarrow> string" where
  "fields_text d2s [] isarray indent pretty = []"
| "fields_text d2s ((n, v) # fs) isarray indent pretty =
     ind pretty indent @ (if isarray then [] else json_quoted (json_name n) @ '': '') @ val_text d2s v indent pretty
     @ (if fs = [] then [] else '','') @ fields_text d2s fs isarray indent pretty"
| "val_text d2s (HMF_MAP fs) indent pretty =
     ''{'' @ fields_text d2s fs False (indent + 1) pretty @ ind pretty indent @ ''}''"
| "val_text d2s (HMF_LIST fs) indent pretty =
     ''['' @ fields_text d2s fs True (indent + 1) pretty @ ind pretty indent @ '']''"
| "val_text d2s (HMF_STR s) indent pretty = json_quoted s"
| "val_text d2s (HMF_BIN b) indent pretty = json_quoted ''binary''"
| "val_text d2s (HMF_S64 i) indent pretty = int_dec (sint i)"
| "val_text d2s (HMF_DBL d) indent pretty = d2s d"

lemma puts_step: "hq_ok hq \<Longrightarrow> hq.puts hq h1 a \<Longrightarrow> (hq_ok h1 \<Longrightarrow> hq.puts h1 h2 b) \<Longrightarrow> hq.puts hq h2 (a @ b)"
  by (simp add: hq.puts_def)

lemma indent_puts: "hq_ok hq \<Longrightarrow> hq.puts hq (json_indent hq pretty n) (ind pretty n)"
  by (simp add: json_indent_def ind_def hq.puts_put) (simp add: hq.puts_def)

lemma puts_append: "hq_ok hq \<Longrightarrow> hq.puts hq (htsbuf_append hq b) b"
  by (rule hq.puts_put)

lemma puts_self: "hq_ok hq \<Longrightarrow> hq.puts hq hq []"
  by (simp add: hq.puts_def)

lemma json_write_puts:
  "hq_ok hq \<Longrightarrow> hq.puts hq (json_write_fields d2s fs hq isarray indent pretty) (fields_text d2s fs isarray indent pretty)"
  "hq_ok hq \<Longrightarrow> hq.puts hq (json_write_val d2s v hq indent pretty) (val_text d2s v indent pretty)"
proof (induction d2s fs hq isarray indent pretty and d2s v hq indent pretty rule: json_write_fields_json_write_val.induct)
  case (2 d2s n v fs hq isarray indent pretty)
  let ?h1 = "json_indent hq pretty indent"
  let ?h2 = "if isarray then ?h1 else htsbuf_append (htsbuf_append_and_escape_jsonstr ?h1 (json_name n)) '': ''"
  let ?h3 = "json_write_val d2s v ?h2 indent pretty"
  let ?h4 = "if fs = [] then ?h3 else htsbuf_append ?h3 '',''"
  have 2: "hq_ok ?h1 \<Longrightarrow> hq.puts ?h1 ?h2 (if isarray then [] else json_quoted (json_name n) @ '': '')"
    by (auto simp: puts_self intro: puts_step jsonstr_puts puts_append)
  have 4: "hq_ok ?h3 \<Longrightarrow> hq.puts ?h3 ?h4 (if fs = [] then [] else '','')"
    by (auto simp: puts_self puts_append)
  show ?case
    unfolding json_write_fields.simps Let_def fields_text.simps
    by (rule puts_step[OF \<open>hq_ok hq\<close> indent_puts[OF \<open>hq_ok hq\<close>]], rule puts_step[OF _ 2], assumption+,
        rule puts_step[OF _ "2.IH"(1)[OF refl refl]], assumption+, rule puts_step[OF _ 4], assumption+,
        rule "2.IH"(2)[OF refl refl refl refl])
next
  case (3 d2s fs hq indent pretty)
  show ?case
    unfolding json_write_val.simps val_text.simps
    by (rule puts_step[OF 3(2) puts_append[OF 3(2)]], rule puts_step[OF _ 3(1)], assumption+,
        rule puts_step[OF _ indent_puts], assumption+, rule puts_append)
next
  case (4 d2s fs hq indent pretty)
  show ?case
    unfolding json_write_val.simps val_text.simps
    by (rule puts_step[OF 4(2) puts_append[OF 4(2)]], rule puts_step[OF _ 4(1)], assumption+,
        rule puts_step[OF _ indent_puts], assumption+, rule puts_append)
qed (simp_all add: puts_self puts_append jsonstr_puts)

definition json_text :: "(f64 \<Rightarrow> string) \<Rightarrow> htsmsg \<Rightarrow> bool \<Rightarrow> string" where
  "json_text d2s m pretty = val_text d2s (sub_val m) 1 pretty @ (if pretty then [CHR 0x0A] else [])"

lemma serialize_puts:
  assumes "hq_ok hq" shows "hq.puts hq (htsmsg_json_serialize d2s m hq pretty) (json_text d2s m pretty)"
proof -
  let ?h = "json_write_val d2s (sub_val m) hq 1 pretty"
  note w = json_write_puts(2)[OF assms, of d2s "sub_val m" 1 pretty]
  show ?thesis
    unfolding htsmsg_json_serialize_def Let_def json_text_def
    by (rule puts_step[OF assms w]) (auto simp: puts_append puts_self)
qed

lemma serialize_to_str:
  assumes "length (json_text d2s m pretty) < 2 ^ 32"
  shows "htsmsg_json_serialize_to_str d2s m pretty = json_text d2s m pretty"
  using serialize_puts[OF ok_init(1), of 0 d2s m pretty] assms to_string_spec
  by (simp add: htsmsg_json_serialize_to_str_def hq.puts_def ok_init)

end
