(* ===== verification/Json_Roundtrip.thy ===== *)
theory Json_Roundtrip
  imports Htsmsg_Json
begin

text \<open>
  The parser reads back what the writer wrote: messages without doubles and binary data, whose
  names and strings are well-formed UTF-8 and whose integers are not the two extreme ones.
\<close>

section \<open>What can be read back\<close>

definition utf8_text :: "string \<Rightarrow> bool" where
  "utf8_text s \<longleftrightarrow> (let cs = utf8_codes s in (\<forall>c \<in> set cs. code_ok c) \<and> concat (map utf8_put cs) = s)"

fun json_enc :: "bool \<Rightarrow> hfield list \<Rightarrow> bool"
and json_enc_val :: "hval \<Rightarrow> bool" where
  "json_enc l [] = True"
| "json_enc l ((n, v) # fs) =
     ((case n of None \<Rightarrow> l | Some s \<Rightarrow> \<not> l \<and> utf8_text s) \<and> json_enc_val v \<and> json_enc l fs)"
| "json_enc_val (HMF_MAP fs) = json_enc False fs"
| "json_enc_val (HMF_LIST fs) = json_enc True fs"
| "json_enc_val (HMF_STR s) = utf8_text s"
| "json_enc_val (HMF_BIN b) = False"
| "json_enc_val (HMF_S64 i) = (- (2 ^ 63) < sint i \<and> sint i < 2 ^ 63 - 1)"
| "json_enc_val (HMF_DBL d) = False"

section \<open>Strings\<close>

lemma put_small: "code_ok c \<Longrightarrow> c < 128 \<Longrightarrow> utf8_put c = [chr c]"
  by (simp add: utf8_put_def code_ok_def)

lemma high_byte: "128 \<le> i mod 256 \<Longrightarrow> 128 \<le> byte (chr i)"
  by simp

lemma put_large: "code_ok c \<Longrightarrow> 128 \<le> c \<Longrightarrow> \<forall>b \<in> set (utf8_put c). 128 \<le> byte b"
proof -
  have m: "128 \<le> (k + x mod n) mod 256" if "128 \<le> k" "0 < n" "k + n \<le> 256" for k x n :: int
  proof -
    have x: "0 \<le> x mod n" "x mod n < n" using that by simp_all
    then have "(k + x mod n) mod 256 = k + x mod n" using that by (intro mod_pos_pos_trivial) linarith+
    then show ?thesis using that x by simp
  qed
  assume "code_ok c" "128 \<le> c"
  then show ?thesis unfolding utf8_put_def by (auto intro!: high_byte m)
qed

lemma json_escape_high: "128 \<le> byte c \<Longrightarrow> json_escape c = None"
  by (auto simp: json_escape_def)

lemma esc_with_append: "esc_with esc (s @ t) = esc_with esc s @ esc_with esc t"
  by (simp add: esc_with_def)

lemma esc_with_id: "\<forall>c \<in> set s. esc c = None \<Longrightarrow> esc_with esc s = s"
  by (induction s) auto

lemma read_escaped:
  assumes "code_ok c"
  shows "json_str_read_char (esc_with json_escape (utf8_put c) @ r) = Inr (c, r)
       \<and> take 1 (esc_with json_escape (utf8_put c) @ r) \<noteq> [CHR 0x22]"
proof (cases "c < 128")
  case True
  note p = put_small[OF assms True]
  have c: "0 < c" using assms by (simp add: code_ok_def)
  have g: "utf8_get (chr c # r) = (c, r)" using utf8_get_put[OF assms, of r] p by simp
  have b: "byte (chr c) = c" using c True by simp
  show ?thesis
  proof (cases "json_escape (chr c)")
    case None
    then have "chr c \<noteq> CHR 0x22" "chr c \<noteq> CHR 0x5C" by (auto simp: json_escape_def split: if_splits)
    then show ?thesis using None g by (simp add: p json_str_read_char_def)
  next
    case (Some x)
    have e: "chr c = d \<Longrightarrow> c = byte d" for d using b by auto
    from Some have "chr c = CHR 0x22 \<and> x = [CHR 0x5C, CHR 0x22] \<or> chr c = CHR 0x5C \<and> x = [CHR 0x5C, CHR 0x5C]
      \<or> chr c = CHR 0x0A \<and> x = [CHR 0x5C, CHR ''n''] \<or> chr c = CHR 0x0D \<and> x = [CHR 0x5C, CHR ''r'']
      \<or> chr c = CHR 0x09 \<and> x = [CHR 0x5C, CHR ''t'']"
      by (auto simp: json_escape_def split: if_splits)
    moreover have x: "esc_with json_escape (utf8_put c) = x" using Some by (simp add: p)
    ultimately show ?thesis
      unfolding x using e by (elim disjE conjE) (simp_all add: json_str_read_char_def signed_char_def)
  qed
next
  case False
  then have h: "\<forall>b \<in> set (utf8_put c). 128 \<le> byte b" using put_large[OF assms] by simp
  then have i: "esc_with json_escape (utf8_put c) = utf8_put c" by (intro esc_with_id) (simp add: json_escape_high)
  obtain b u where u: "utf8_put c = b # u" using utf8_put_nonempty[OF assms] by (cases "utf8_put c") auto
  have "b \<noteq> CHR 0x22" "b \<noteq> CHR 0x5C" using h u by auto
  then show ?thesis unfolding i using utf8_get_put[OF assms, of r] by (simp add: u json_str_read_char_def)
qed

lemma string_loop_back:
  "\<forall>c \<in> set cs. code_ok c \<Longrightarrow>
   json_string_loop (esc_with json_escape (concat (map utf8_put cs)) @ CHR 0x22 # r) = Inr (cs, r)"
proof (induction cs)
  case Nil
  then show ?case by (subst json_string_loop.simps) simp
next
  case (Cons c cs)
  let ?t = "esc_with json_escape (concat (map utf8_put cs)) @ CHR 0x22 # r"
  from Cons have c: "code_ok c" and t: "json_string_loop ?t = Inr (cs, r)" by simp_all
  note rd = read_escaped[OF c, of ?t]
  then show ?case
    by (subst json_string_loop.simps) (simp add: esc_with_append t)
qed

lemma skip_ws_skip: "skip_ws (skip_ws s) = skip_ws s"
  by (simp add: skip_ws_def)

lemma skip_ws_at: "\<not> (0 < signed_char c \<and> signed_char c < 33) \<Longrightarrow> skip_ws (c # s) = c # s"
  by (auto simp: skip_ws_def)

lemma parse_string_back:
  assumes "utf8_text s" and "skip_ws t = json_quoted s @ r"
  shows "json_parse_string t = Inr (Some (s, r))"
proof -
  let ?cs = "utf8_codes s"
  have c: "\<forall>c \<in> set ?cs. code_ok c" and e: "concat (map utf8_put ?cs) = s"
    using assms(1) by (simp_all add: utf8_text_def Let_def)
  have n: "\<not> (\<exists>v \<in> set ?cs. v \<le> 0)" using c by (auto simp: code_ok_def)
  have "json_string_loop (esc_with json_escape s @ CHR 0x22 # r) = Inr (?cs, r)"
    using string_loop_back[OF c, of r] by (simp only: e)
  then show ?thesis
    using assms(2) n by (simp add: json_parse_string_def Let_def json_quoted_def e)
qed

section \<open>Integers\<close>

text \<open>What may follow a value in the writer's output.\<close>

definition ends :: "string \<Rightarrow> bool" where
  "ends r \<longleftrightarrow> r \<noteq> [] \<and> hd r \<in> set [CHR '','', CHR '']'', CHR ''}'', CHR 0x0A]"

lemma ends_cases: "ends r \<Longrightarrow> \<exists>c t. r = c # t \<and> c \<in> {CHR '','', CHR '']'', CHR ''}'', CHR 0x0A}"
  by (cases r) (auto simp: ends_def)

lemma digits_append:
  assumes "ends r"
  shows "takeWhile is_digit (nat_dec n @ r) = nat_dec n" "dropWhile is_digit (nat_dec n @ r) = r"
proof -
  obtain c t where r: "r = c # t" "c \<in> {CHR '','', CHR '']'', CHR ''}'', CHR 0x0A}" using ends_cases[OF assms] by blast
  have d: "\<not> is_digit c" using r(2) by (auto simp: is_digit_def)
  have a: "\<forall>x \<in> set (nat_dec n). is_digit x" using nat_dec_digits[of n] by (simp add: list_all_iff)
  show "takeWhile is_digit (nat_dec n @ r) = nat_dec n" using a d r(1) by (simp add: takeWhile_append2)
  show "dropWhile is_digit (nat_dec n @ r) = r" using a d r(1) by (simp add: dropWhile_append2)
qed

lemma digits_val_append: "ends r \<Longrightarrow> digits_val (nat_dec n @ r) = int n"
  unfolding digits_val_def by (simp only: digits_append(1) digits_from_nat_dec)

lemma parse_integer_back:
  assumes "ends r" "- (2 ^ 63) < v" "v < 2 ^ 63 - 1" "skip_ws s = int_dec v @ r"
  shows "json_parse_integer s = Some (word_of_int v, r)"
proof -
  obtain c t where r: "r = c # t" "c \<in> {CHR '','', CHR '']'', CHR ''}'', CHR 0x0A}" using ends_cases[OF assms(1)] by blast
  have e: "r \<noteq> []" "hd r \<notin> set ''.eE''" using r by auto
  obtain d u where d: "nat_dec (nat \<bar>v\<bar>) = digit_char d # u" "d < 10" using nat_dec_hd by blast
  have ne: "takeWhile is_digit (nat_dec (nat \<bar>v\<bar>) @ r) \<noteq> []"
    using d digit_char_facts(1)[OF d(2)] by simp
  show ?thesis
  proof (cases "v < 0")
    case True
    then have n: "nat (- v) = nat \<bar>v\<bar>" and s: "skip_ws s = CHR ''-'' # nat_dec (nat \<bar>v\<bar>) @ r"
      using assms(4) by (simp_all add: int_dec_def)
    have "- int (nat \<bar>v\<bar>) = v" using True by simp
    then show ?thesis
      using True assms(2,3) e ne digits_append(2)[OF assms(1), of "nat \<bar>v\<bar>"] digits_val_append[OF assms(1), of "nat \<bar>v\<bar>"]
      by (simp add: json_parse_integer_def Let_def s del: dropWhile_eq_Nil_conv takeWhile_eq_Nil_iff)
  next
    case False
    then have s: "skip_ws s = nat_dec (nat \<bar>v\<bar>) @ r" using assms(4) by (simp add: int_dec_def)
    have t: "take 1 (nat_dec (nat \<bar>v\<bar>) @ r) \<noteq> ''-''" "take 1 (nat_dec (nat \<bar>v\<bar>) @ r) \<noteq> ''+''"
      using d digit_char_facts[OF d(2)] by simp_all
    have "int (nat \<bar>v\<bar>) = v" using False by simp
    then show ?thesis
      using False assms(2,3) e ne t digits_append(2)[OF assms(1), of "nat \<bar>v\<bar>"] digits_val_append[OF assms(1), of "nat \<bar>v\<bar>"]
      by (simp add: json_parse_integer_def Let_def s del: dropWhile_eq_Nil_conv takeWhile_eq_Nil_iff)
  qed
qed

section \<open>Values\<close>

text \<open>A parse of a value looks at the text after the white space only.\<close>

lemma seq_skip: "skip_ws s = skip_ws t \<Longrightarrow> json_parse_seq a b loop new s = json_parse_seq a b loop new t"
  by (simp add: json_parse_seq_def)

lemma scalar_skip: "skip_ws s = skip_ws t \<Longrightarrow> json_parse_scalar jd dbl s p nm = json_parse_scalar jd dbl t p nm"
proof -
  assume e: "skip_ws s = skip_ws t"
  have p: "json_parse_string s = json_parse_string t" "json_parse_integer s = json_parse_integer t"
    "json_parse_double s = json_parse_double t"
    unfolding json_parse_string_def json_parse_integer_def json_parse_double_def e by (rule refl)+
  show ?thesis unfolding json_parse_scalar_def p e by (rule refl)
qed

lemma not_seq: "take 1 (skip_ws s) \<noteq> a \<Longrightarrow> json_parse_seq a b loop new s = Inr None"
  by (simp add: json_parse_seq_def)

text \<open>What a parse of \<open>v\<close> followed by \<open>r\<close> may give: the value in its place, or the end of the fuel.\<close>

definition reads :: "htsmsg \<Rightarrow> hfield list \<Rightarrow> string \<Rightarrow> jerr + htsmsg \<times> string \<Rightarrow> bool" where
  "reads p fs r x \<longleftrightarrow> x = Inl J_fuel \<or> x = Inr (p\<lparr>hm_fields := hm_fields p @ fs\<rparr>, r)"

lemma reads_scalar:
  assumes "json_parse_scalar jd dbl s p nm = Inr (p\<lparr>hm_fields := hm_fields p @ [(nm, v)]\<rparr>, r)"
    and "take 1 (skip_ws s) \<noteq> ''{''" "take 1 (skip_ws s) \<noteq> ''[''"
  shows "reads p [(nm, v)] r (json_parse_value jd dbl k s p nm)"
proof (cases k)
  case (Suc k')
  have "json_parse_value jd dbl k s p nm = json_parse_scalar jd dbl s p nm"
    unfolding Suc json_parse_value.simps json_parse_seq not_seq[OF assms(2)] not_seq[OF assms(3)] by simp
  then show ?thesis using assms(1) by (simp add: reads_def)
qed (simp add: reads_def)

lemma quoted_hd: "json_quoted s = CHR 0x22 # esc_with json_escape s @ [CHR 0x22]"
  by (rule json_quoted_def)

lemma int_dec_hd: "\<exists>c t. int_dec v = c # t \<and> (c = CHR ''-'' \<or> is_digit c)"
proof -
  obtain d u where "nat_dec (nat v) = digit_char d # u" "d < 10" using nat_dec_hd by blast
  then show ?thesis using digit_char_facts(1)[of d] by (auto simp: int_dec_def)
qed

lemma digit_not: "is_digit c \<Longrightarrow> c \<noteq> CHR ''{'' \<and> c \<noteq> CHR ''['' \<and> c \<noteq> CHR 0x22 \<and> c \<noteq> CHR '']'' \<and> c \<noteq> CHR ''}''
    \<and> \<not> (signed_char c < 33)"
proof -
  assume d: "is_digit c"
  have b: "byte c = int (of_char c)" by (cases c) (simp add: of_char_def)
  then have "48 \<le> byte c" using d unfolding is_digit_def by linarith
  then have "\<not> (signed_char c < 33)" using byte_range(2)[of c] d unfolding is_digit_def signed_char_def
    by (auto simp: b)
  then show ?thesis using d by (auto simp: is_digit_def)
qed

text \<open>The first character of a value is not white space and closes nothing.\<close>

lemma val_text_hd:
  assumes "json_enc_val v"
  shows "\<exists>c t. val_text d2s v indent pretty = c # t \<and> \<not> (0 < signed_char c \<and> signed_char c < 33) \<and> c \<noteq> CHR '']''"
proof (cases v)
  case (HMF_S64 i)
  obtain c t where c: "int_dec (sint i) = c # t" "c = CHR ''-'' \<or> is_digit c" using int_dec_hd by blast
  from c(2) have "\<not> (0 < signed_char c \<and> signed_char c < 33) \<and> c \<noteq> CHR '']''"
    using digit_not[of c] by (auto simp: signed_char_def)
  then show ?thesis using c(1) HMF_S64 by simp
qed (use assms in \<open>simp_all add: signed_char_def json_quoted_def\<close>)

lemma val_text_skip:
  assumes "json_enc_val v" shows "skip_ws (val_text d2s v indent pretty @ r) = val_text d2s v indent pretty @ r"
  using val_text_hd[OF assms, of d2s indent pretty] by (auto simp: skip_ws_at)

lemma skip_ind: "skip_ws (ind pretty n @ s) = skip_ws s"
proof -
  have w: "\<forall>c \<in> set (ind pretty n). 0 < signed_char c \<and> signed_char c < 33"
  proof
    fix c assume "c \<in> set (ind pretty n)"
    then have "c \<in> set indentor" by (auto simp: ind_def dest: in_set_takeD split: if_splits)
    then have "c = CHR 0x0A \<or> c = CHR 0x09" by (simp add: indentor_def)
    then show "0 < signed_char c \<and> signed_char c < 33" by (auto simp: signed_char_def)
  qed
  then show ?thesis unfolding skip_ws_def by (simp add: dropWhile_append2)
qed

lemma ind_ends: "ends (ind pretty n @ c # r)" if "c = CHR ''}'' \<or> c = CHR '']''"
  using that by (cases n) (auto simp: ind_def indentor_def ends_def)

section \<open>The round trip\<close>

text \<open>The text of the elements and of the closing bracket of a map or list.\<close>

definition rest_text :: "(f64 \<Rightarrow> string) \<Rightarrow> hfield list \<Rightarrow> bool \<Rightarrow> nat \<Rightarrow> bool \<Rightarrow> nat \<Rightarrow> string \<Rightarrow> string" where
  "rest_text d2s fs l n pretty m r = fields_text d2s fs l n pretty @ ind pretty m @ (if l then '']'' else ''}'') @ r"

definition loop :: "bool \<Rightarrow> (dparts \<Rightarrow> f64) \<Rightarrow> nat \<Rightarrow> string \<Rightarrow> htsmsg \<Rightarrow> jerr + htsmsg \<times> string" where
  "loop l dbl k s p = (if l then json_list_loop json_to_htsmsg dbl k s p else json_map_loop json_to_htsmsg dbl k s p)"

lemma add_ok:
  assumes "hm_islist p \<longleftrightarrow> nm = None"
  shows "htsmsg_field_add p nm v = Some (p\<lparr>hm_fields := hm_fields p @ [(nm, v)]\<rparr>)"
  using assms by (simp add: htsmsg_field_add_def)

lemma rest_text_Cons:
  "rest_text d2s ((n, v) # fs) l i pretty m r =
     ind pretty i @ (if l then [] else json_quoted (json_name n) @ '': '') @ val_text d2s v i pretty
     @ (if fs = [] then rest_text d2s [] l i pretty m r else CHR '','' # rest_text d2s fs l i pretty m r)"
  by (simp add: rest_text_def)

text \<open>One turn of a loop, once the value is read.\<close>

lemma loop_turn:
  assumes f: "json_enc l ((n, v) # fs)" and p: "hm_islist p = l"
    and s: "skip_ws s = skip_ws (rest_text d2s ((n, v) # fs) l i pretty m r)"
    and val: "\<And>s p nm r. hm_islist p \<longleftrightarrow> nm = None \<Longrightarrow> ends r \<Longrightarrow> skip_ws s = val_text d2s v i pretty @ r \<Longrightarrow>
        reads p [(nm, v)] r (json_parse_value json_to_htsmsg dbl k s p nm)"
    and rest: "\<And>s p. fs \<noteq> [] \<Longrightarrow> hm_islist p = l \<Longrightarrow> skip_ws s = skip_ws (rest_text d2s fs l i pretty m r) \<Longrightarrow>
        reads p fs r (loop l dbl k s p)"
  shows "reads p ((n, v) # fs) r (loop l dbl (Suc k) s p)"
proof -
  let ?p1 = "p\<lparr>hm_fields := hm_fields p @ [(n, v)]\<rparr>"
  let ?e = "if fs = [] then rest_text d2s [] l i pretty m r else CHR '','' # rest_text d2s fs l i pretty m r"
  have v: "json_enc_val v" and fs: "json_enc l fs" and n: "l \<longleftrightarrow> n = None" using f by (auto split: option.splits)
  have e: "ends ?e"
  proof (cases "fs = []")
    case True
    then show ?thesis using ind_ends[of "CHR '']''"] ind_ends[of "CHR ''}''"] by (simp add: rest_text_def)
  qed (simp add: ends_def)
  text \<open>After the value.\<close>
  have after: "reads p ((n, v) # fs) r
     (let s5 = skip_ws ?e
      in if take 1 s5 = (if l then '']'' else ''}'') then Inr (?p1, tl s5)
         else if take 1 s5 \<noteq> '','' then Inl (J_fail (expected CHR '','') (int (length s5)))
         else loop l dbl k (tl s5) ?p1)"
  proof (cases "fs = []")
    case True
    then show ?thesis by (auto simp: reads_def rest_text_def skip_ind skip_ws_at signed_char_def)
  next
    case False
    have "reads ?p1 fs r (loop l dbl k (rest_text d2s fs l i pretty m r) ?p1)"
      by (rule rest) (use False p in simp_all)
    then show ?thesis using False by (auto simp: reads_def skip_ws_at signed_char_def)
  qed
  show ?thesis
  proof (cases l)
    case True
    then have nm: "n = None" using n by simp
    have "skip_ws s = val_text d2s v i pretty @ ?e"
      using s True by (simp only: rest_text_Cons skip_ind val_text_skip[OF v] if_True append_Nil)
    from val[OF _ e this, of p None] p True nm
    have "json_parse_value json_to_htsmsg dbl k s p None = Inl J_fuel
        \<or> json_parse_value json_to_htsmsg dbl k s p None = Inr (?p1, ?e)" by (simp add: reads_def)
    then show ?thesis
    proof
      assume "json_parse_value json_to_htsmsg dbl k s p None = Inl J_fuel"
      then show ?thesis using True by (simp add: loop_def reads_def)
    next
      assume "json_parse_value json_to_htsmsg dbl k s p None = Inr (?p1, ?e)"
      then show ?thesis using after True by (simp only: loop_def json_list_loop.simps if_True sum.case prod.case)
    qed
  next
    case False
    then obtain nm where nm: "n = Some nm" "utf8_text nm" using f by (auto split: option.splits)
    let ?t = "'': '' @ val_text d2s v i pretty @ ?e"
    have "skip_ws s = json_quoted nm @ ?t"
      using s False nm(1)
      by (simp add: rest_text_Cons skip_ind json_name_def) (simp add: json_quoted_def skip_ws_at signed_char_def)
    from parse_string_back[OF nm(2) this] have str: "json_parse_string s = Inr (Some (nm, ?t))" .
    have c: "skip_ws ?t = ?t" by (simp add: skip_ws_at signed_char_def)
    have "skip_ws (tl ?t) = val_text d2s v i pretty @ ?e"
      using val_text_skip[OF v, of d2s i pretty ?e] by (simp add: skip_ws_def signed_char_def)
    from val[OF _ e this, of p n] p False nm
    have "json_parse_value json_to_htsmsg dbl k (tl ?t) p n = Inl J_fuel
        \<or> json_parse_value json_to_htsmsg dbl k (tl ?t) p n = Inr (?p1, ?e)" by (simp add: reads_def)
    then show ?thesis
    proof
      assume "json_parse_value json_to_htsmsg dbl k (tl ?t) p n = Inl J_fuel"
      then show ?thesis using False str c nm(1) by (simp add: loop_def reads_def)
    next
      assume a: "json_parse_value json_to_htsmsg dbl k (tl ?t) p n = Inr (?p1, ?e)"
      have "take 1 ?t = '':''" by simp
      then have "json_map_loop json_to_htsmsg dbl (Suc k) s p =
        (let s5 = skip_ws ?e
         in if take 1 s5 = ''}'' then Inr (?p1, tl s5)
            else if take 1 s5 \<noteq> '','' then Inl (J_fail (expected CHR '','') (int (length s5)))
            else json_map_loop json_to_htsmsg dbl k (tl s5) ?p1)"
        using a nm(1)
        by (simp only: json_map_loop.simps str sum.case option.case prod.case c Let_def not_True_eq_False if_False simp_thms)
      then show ?thesis using after False by (simp only: loop_def if_False)
    qed
  qed
qed

lemma not_closing:
  assumes "fs \<noteq> []" "json_enc l fs"
  shows "take 1 (skip_ws (rest_text d2s fs l i pretty m r)) \<noteq> (if l then '']'' else ''}'')"
proof -
  obtain n v gs where fs: "fs = (n, v) # gs" using assms(1) by (cases fs) auto
  then have v: "json_enc_val v" using assms(2) by simp
  show ?thesis
  proof (cases l)
    case True
    obtain c t where c: "val_text d2s v i pretty = c # t" "c \<noteq> CHR '']''" using val_text_hd[OF v] by blast
    have "skip_ws (rest_text d2s fs l i pretty m r) = val_text d2s v i pretty
        @ (if gs = [] then rest_text d2s [] l i pretty m r else CHR '','' # rest_text d2s gs l i pretty m r)"
      using True by (simp only: fs rest_text_Cons skip_ind val_text_skip[OF v] if_True append_Nil)
    then show ?thesis using c True by simp
  next
    case False
    then show ?thesis by (simp add: fs rest_text_Cons skip_ind json_quoted_def skip_ws_at signed_char_def)
  qed
qed

definition new_msg :: "bool \<Rightarrow> htsmsg" where
  "new_msg l = \<lparr>hm_islist = l, hm_fields = []\<rparr>"

lemma seq_back:
  assumes "skip_ws s = (if l then CHR ''['' else CHR ''{'') # rest_text d2s fs l n pretty m r" and "json_enc l fs"
    and "\<And>s. fs \<noteq> [] \<Longrightarrow> skip_ws s = skip_ws (rest_text d2s fs l n pretty m r) \<Longrightarrow> reads (new_msg l) fs r (loop l dbl k s (new_msg l))"
  shows "json_parse_seq (if l then ''['' else ''{'') (if l then '']'' else ''}'') (loop l dbl k) (new_msg l) s
      \<in> {Inl J_fuel, Inr (Some (\<lparr>hm_islist = l, hm_fields = fs\<rparr>, r))}"
proof -
  let ?t = "rest_text d2s fs l n pretty m r"
  have b: "take 1 (skip_ws s) = (if l then ''['' else ''{'')" "tl (skip_ws s) = ?t" using assms(1) by simp_all
  show ?thesis
  proof (cases "fs = []")
    case True
    have "skip_ws ?t = (if l then '']'' else ''}'') @ r"
      by (simp add: True rest_text_def skip_ind skip_ws_at signed_char_def)
    then show ?thesis unfolding json_parse_seq_def Let_def b by (simp add: True new_msg_def)
  next
    case False
    note c = not_closing[OF False assms(2), of d2s n pretty m r]
    have "reads (new_msg l) fs r (loop l dbl k (skip_ws ?t) (new_msg l))"
      by (rule assms(3)[OF False]) (rule skip_ws_skip)
    then show ?thesis unfolding json_parse_seq_def Let_def b using c by (auto simp: reads_def new_msg_def)
  qed
qed

text \<open>A map or list as a value.\<close>

lemma sub_back:
  assumes "skip_ws s = (if l then CHR ''['' else CHR ''{'') # rest_text d2s fs l n pretty m r" and "json_enc l fs"
    and "\<And>k s. fs \<noteq> [] \<Longrightarrow> skip_ws s = skip_ws (rest_text d2s fs l n pretty m r) \<Longrightarrow> reads (new_msg l) fs r (loop l dbl k s (new_msg l))"
    and p: "hm_islist p \<longleftrightarrow> nm = None"
  shows "reads p [(nm, if l then HMF_LIST fs else HMF_MAP fs)] r (json_parse_value json_to_htsmsg dbl k s p nm)"
proof (cases k)
  case (Suc k')
  note sb = seq_back[where dbl = dbl and k = k', OF assms(1,2) assms(3)]
  note add = add_ok[OF p, of "if l then HMF_LIST fs else HMF_MAP fs"]
  show ?thesis
  proof (cases l)
    case True
    have "take 1 (skip_ws s) \<noteq> ''{''" using assms(1) True by simp
    note ns = not_seq[OF this]
    show ?thesis
      using sb add True unfolding Suc json_parse_value.simps json_parse_seq ns
      by (auto simp: reads_def loop_def[abs_def] new_msg_def json_to_htsmsg_def htsmsg_create_list_def j_added_def
          htsmsg_add_msg_def sub_val_def)
  next
    case False
    then show ?thesis
      using sb add unfolding Suc json_parse_value.simps json_parse_seq
      by (auto simp: reads_def loop_def[abs_def] new_msg_def json_to_htsmsg_def htsmsg_create_map_def j_added_def
          htsmsg_add_msg_def sub_val_def)
  qed
qed (simp add: reads_def)

lemma json_back:
  "fs \<noteq> [] \<Longrightarrow> json_enc l fs \<Longrightarrow> hm_islist p = l \<Longrightarrow> skip_ws s = skip_ws (rest_text d2s fs l i pretty m r) \<Longrightarrow>
     reads p fs r (loop l dbl k s p)"
  "json_enc_val v \<Longrightarrow> hm_islist p \<longleftrightarrow> nm = None \<Longrightarrow> ends r \<Longrightarrow> skip_ws s = val_text d2s v i pretty @ r \<Longrightarrow>
     reads p [(nm, v)] r (json_parse_value json_to_htsmsg dbl k s p nm)"
proof (induction l fs and v arbitrary: p s i m r k and p nm s i r k rule: json_enc_json_enc_val.induct)
  case (2 l n v fs)
  show ?case
  proof (cases k)
    case 0
    then show ?thesis by (simp add: loop_def reads_def)
  next
    case (Suc k')
    have v: "json_enc_val v" and fs: "json_enc l fs" using 2(4) by simp_all
    show ?thesis
      unfolding Suc
    proof (rule loop_turn[OF 2(4,5,6)])
      show "reads p [(nm, v)] r (json_parse_value json_to_htsmsg dbl k' s p nm)"
        if "hm_islist p \<longleftrightarrow> nm = None" "ends r" "skip_ws s = val_text d2s v i pretty @ r" for s p nm r
        by (rule 2(1)[OF v that])
      show "reads p fs r (loop l dbl k' s p)"
        if "fs \<noteq> []" "hm_islist p = l" "skip_ws s = skip_ws (rest_text d2s fs l i pretty m r)" for s p
        by (rule 2(2)[OF that(1) fs that(2,3)])
    qed
  qed
next
  case (3 fs)
  have t: "skip_ws s = (if False then CHR ''['' else CHR ''{'') # rest_text d2s fs False (i + 1) pretty i r"
    using 3(5) by (simp add: rest_text_def)
  have f: "json_enc False fs" using 3(2) by simp
  show ?case
    using sub_back[OF t f _ 3(3), of dbl k] 3(1)[OF _ f] by (simp add: new_msg_def)
next
  case (4 fs)
  have t: "skip_ws s = (if True then CHR ''['' else CHR ''{'') # rest_text d2s fs True (i + 1) pretty i r"
    using 4(5) by (simp add: rest_text_def)
  have f: "json_enc True fs" using 4(2) by simp
  show ?case
    using sub_back[OF t f _ 4(3), of dbl k] 4(1)[OF _ f] by (simp add: new_msg_def)
next
  case (5 str)
  have q: "skip_ws s = json_quoted str @ r" using 5(4) by simp
  have "utf8_text str" using 5(1) by simp
  from parse_string_back[OF this q] have "json_parse_scalar json_to_htsmsg dbl s p nm
      = j_added (htsmsg_add_str p nm str) r" by (simp add: json_parse_scalar_def json_to_htsmsg_def)
  then show ?case
    by (intro reads_scalar) (use q in \<open>simp_all add: htsmsg_add_str_def add_ok[OF 5(2)] j_added_def json_quoted_def\<close>)
next
  case (7 x)
  have q: "skip_ws s = int_dec (sint x) @ r" using 7(4) by simp
  obtain c t where c: "int_dec (sint x) = c # t" "c = CHR ''-'' \<or> is_digit c" using int_dec_hd by blast
  have nc: "c \<noteq> CHR ''{''" "c \<noteq> CHR ''[''" "c \<noteq> CHR 0x22" using c(2) digit_not[of c] by auto
  have "json_parse_string s = Inr None" using nc by (simp add: json_parse_string_def Let_def q c(1))
  moreover have "json_parse_integer s = Some (x, r)"
    using parse_integer_back[OF 7(3) _ _ q] 7(1) by simp
  ultimately have "json_parse_scalar json_to_htsmsg dbl s p nm = j_added (htsmsg_add_s64 p nm x) r"
    by (simp add: json_parse_scalar_def json_to_htsmsg_def)
  then show ?case
    by (intro reads_scalar) (use q nc c(1) in \<open>simp_all add: htsmsg_add_s64_def add_ok[OF 7(2)] j_added_def\<close>)
qed simp_all

lemma json_roundtrip:
  assumes "json_enc (hm_islist m) (hm_fields m)"
  shows "htsmsg_json_deserialize dbl (json_text d2s m pretty) = Inr m"
proof -
  let ?l = "hm_islist m" and ?e = "if pretty then [CHR 0x0A] else []"
  let ?s = "json_text d2s m pretty" and ?k = "json_fuel (json_text d2s m pretty)"
  have t: "?s = (if ?l then CHR ''['' else CHR ''{'') # rest_text d2s (hm_fields m) ?l 2 pretty 1 ?e"
    by (simp add: json_text_def sub_val_def rest_text_def numeral_2_eq_2)
  then have s: "skip_ws ?s = (if ?l then CHR ''['' else CHR ''{'') # rest_text d2s (hm_fields m) ?l 2 pretty 1 ?e"
    by (simp add: skip_ws_at signed_char_def)
  have "json_parse_seq (if ?l then ''['' else ''{'') (if ?l then '']'' else ''}'') (loop ?l dbl ?k) (new_msg ?l) ?s
      \<in> {Inl J_fuel, Inr (Some (\<lparr>hm_islist = ?l, hm_fields = hm_fields m\<rparr>, ?e))}"
    by (rule seq_back[OF s assms]) (rule json_back(1)[OF _ assms], simp_all add: new_msg_def)
  moreover have "\<lparr>hm_islist = ?l, hm_fields = hm_fields m\<rparr> = m" by simp
  moreover note json_no_fuel[of json_to_htsmsg dbl ?s]
  moreover have "?l \<Longrightarrow> take 1 (skip_ws ?s) \<noteq> ''{''" using s by simp
  ultimately show ?thesis
    unfolding htsmsg_json_deserialize_def json_deserialize_def json_parse_seq
    by (cases ?l) (auto simp: not_seq loop_def[abs_def] new_msg_def json_to_htsmsg_def htsmsg_create_list_def htsmsg_create_map_def)
qed

end
