(* ===== verification/Htsmsg_Binary.thy ===== *)
theory Htsmsg_Binary
  imports Htsmsg
begin

text \<open>
  The binary form of messages (\<open>src/htsmsg/htsmsg_binary.c\<close>). A field is a type byte, a length
  byte for the name, a big-endian 32 bit length for the data, the name and the data; a 64 bit
  integer is its bytes from the least significant one up to the last that is not zero.

  The reader has three outcomes: the fields, \<open>Des_refused\<close> (it returns -1), and \<open>Des_overrun\<close>: it
  goes on with a name or data that reach past the end of the buffer (or, for a string of 0xffffffff
  bytes, past the zero bytes \<open>malloc(datalen + 1)\<close> gives). The writer aborts on a double;
  \<open>None\<close> is that abort, or a length that does not fit in an \<open>int\<close>.
\<close>

datatype des_err = Des_refused | Des_overrun

section \<open>Reading\<close>

definition be32 :: "string \<Rightarrow> nat" where
  "be32 b = nat (foldl (\<lambda>a c. a * 256 + byte c) 0 b)"

definition c_str :: "string \<Rightarrow> string" where
  "c_str b = takeWhile (\<lambda>c. c \<noteq> chr 0) b"

text \<open>The header of a field: its type, its name, its data and what follows them.\<close>

definition des_head :: "string \<Rightarrow> des_err + nat \<times> string option \<times> string \<times> string" where
  "des_head buf =
     (let ty = nat (byte (buf ! 0)); namelen = nat (byte (buf ! 1));
          datalen = be32 (take 4 (drop 2 buf)); b = drop 6 buf
      in if length b < (namelen + datalen) mod 2 ^ 32 then Inl Des_refused
         else if length b < namelen then Inl Des_overrun
         else if ty \<notin> {1, 2, 3, 4, 5} then Inl Des_refused
         else if length b < namelen + datalen \<or> ty = 3 \<and> datalen + 1 = 2 ^ 32 then Inl Des_overrun
         else Inr (ty, if namelen = 0 then None else Some (c_str (take namelen b)),
                   take datalen (drop namelen b), drop (namelen + datalen) b))"

definition u64_of_bytes :: "string \<Rightarrow> u64" where
  "u64_of_bytes b = foldr (\<lambda>c u. push_bit 8 u OR word_of_int (byte c)) b 0"

text \<open>The loop over the bytes of an integer counts down in an \<open>int\<close>.\<close>

definition des_s64 :: "string \<Rightarrow> i64" where
  "des_s64 b = (if length b \<le> 2 ^ 31 then u64_of_bytes b else 0)"

function htsmsg_binary_des0 :: "string \<Rightarrow> des_err + hfield list" where
  "htsmsg_binary_des0 buf =
     (if length buf \<le> 5 then Inr []
      else case des_head buf of
             Inl e \<Rightarrow> Inl e
           | Inr (ty, name, b, rest) \<Rightarrow>
               (case (if ty = 3 then Inr (HMF_STR (c_str b))
                      else if ty = 4 then Inr (HMF_BIN b)
                      else if ty = 2 then Inr (HMF_S64 (des_s64 b))
                      else (case htsmsg_binary_des0 b of
                              Inl e \<Rightarrow> Inl e
                            | Inr fs \<Rightarrow> Inr (if ty = 1 then HMF_MAP fs else HMF_LIST fs))) of
                  Inl e \<Rightarrow> Inl e
                | Inr v \<Rightarrow> (case htsmsg_binary_des0 rest of
                               Inl e \<Rightarrow> Inl e
                             | Inr fs \<Rightarrow> Inr ((name, v) # fs))))"
  by pat_completeness auto

lemma des_head_length:
  assumes "des_head buf = Inr (ty, n, b, rest)" and "5 < length buf"
  shows "length b < length buf" "length rest < length buf"
  using assms by (auto simp: des_head_def Let_def split: if_splits)

termination htsmsg_binary_des0
  by (relation "measure length") (auto dest: des_head_length)

declare htsmsg_binary_des0.simps [simp del]

definition htsmsg_binary_deserialize :: "string \<Rightarrow> des_err + htsmsg" where
  "htsmsg_binary_deserialize buf =
     (case htsmsg_binary_des0 buf of
        Inl e \<Rightarrow> Inl e
      | Inr fs \<Rightarrow> Inr \<lparr>hm_islist = False, hm_fields = fs\<rparr>)"

section \<open>Writing\<close>

function s64_bytes :: "u64 \<Rightarrow> string" where
  "s64_bytes u = (if u = 0 then [] else chr (uint u) # s64_bytes (drop_bit 8 u))"
  by pat_completeness auto

lemma unat_drop8: "unat (drop_bit 8 (u :: u64)) = unat u div 256"
  unfolding unat_drop_bit_eq drop_bit_eq_div[where ?'a = nat] by simp

lemma drop_bit8_less: "u \<noteq> 0 \<Longrightarrow> unat (drop_bit 8 (u :: u64)) < unat u"
  unfolding unat_drop8 by (simp add: unat_gt_0)

termination s64_bytes
  by (relation "measure unat") (use drop_bit8_less in auto)

declare s64_bytes.simps [simp del]

definition name_bytes :: "string option \<Rightarrow> string" where
  "name_bytes n = (case n of None \<Rightarrow> [] | Some s \<Rightarrow> s)"

fun htsmsg_binary_count :: "hfield list \<Rightarrow> nat"
and data_len :: "hval \<Rightarrow> nat" where
  "htsmsg_binary_count [] = 0"
| "htsmsg_binary_count ((n, v) # fs) = 6 + length (name_bytes n) + data_len v + htsmsg_binary_count fs"
| "data_len (HMF_MAP fs) = htsmsg_binary_count fs"
| "data_len (HMF_LIST fs) = htsmsg_binary_count fs"
| "data_len (HMF_STR s) = length s"
| "data_len (HMF_BIN b) = length b"
| "data_len (HMF_S64 i) = length (s64_bytes i)"
| "data_len (HMF_DBL d) = 0"

fun hmf_type :: "hval \<Rightarrow> int" where
  "hmf_type (HMF_MAP fs) = 1"
| "hmf_type (HMF_S64 i) = 2"
| "hmf_type (HMF_STR s) = 3"
| "hmf_type (HMF_BIN b) = 4"
| "hmf_type (HMF_LIST fs) = 5"
| "hmf_type (HMF_DBL d) = 6"

definition wr32_be :: "nat \<Rightarrow> string" where
  "wr32_be l = map (\<lambda>i. chr (int l div 256 ^ i)) [3, 2, 1, 0]"

fun htsmsg_binary_write :: "hfield list \<Rightarrow> string option"
and write_val :: "hval \<Rightarrow> string option" where
  "htsmsg_binary_write [] = Some []"
| "htsmsg_binary_write ((n, v) # fs) =
     (if 2 ^ 31 \<le> data_len v then None
      else case write_val v of
             None \<Rightarrow> None
           | Some b \<Rightarrow>
               (case htsmsg_binary_write fs of
                  None \<Rightarrow> None
                | Some r \<Rightarrow> Some (chr (hmf_type v) # chr (int (length (name_bytes n))) # wr32_be (data_len v)
                               @ name_bytes n @ b @ r)))"
| "write_val (HMF_MAP fs) = htsmsg_binary_write fs"
| "write_val (HMF_LIST fs) = htsmsg_binary_write fs"
| "write_val (HMF_STR s) = Some s"
| "write_val (HMF_BIN b) = Some b"
| "write_val (HMF_S64 i) = Some (s64_bytes i)"
| "write_val (HMF_DBL d) = None"

text \<open>\<open>Inl True\<close> is the abort, \<open>Inl False\<close> the result -1 for a message over \<open>maxlen\<close>.\<close>

definition htsmsg_binary_serialize :: "htsmsg \<Rightarrow> i32 \<Rightarrow> bool + string" where
  "htsmsg_binary_serialize msg maxlen =
     (let len = htsmsg_binary_count (hm_fields msg)
      in if sint maxlen mod 2 ^ 64 < int (len + 4) then Inl False
         else case htsmsg_binary_write (hm_fields msg) of
                None \<Rightarrow> Inl True
              | Some b \<Rightarrow> Inr (wr32_be len @ b))"

section \<open>What the reader gives back\<close>

text \<open>Messages whose binary form says all there is in them: no doubles, names of 1 to 255
  characters, no NUL in names and strings.\<close>

definition name_enc :: "string option \<Rightarrow> bool" where
  "name_enc n = (case n of None \<Rightarrow> True | Some s \<Rightarrow> s \<noteq> [] \<and> length s < 256 \<and> chr 0 \<notin> set s)"

fun fields_enc :: "hfield list \<Rightarrow> bool"
and val_enc :: "hval \<Rightarrow> bool" where
  "fields_enc [] = True"
| "fields_enc ((n, v) # fs) = (name_enc n \<and> val_enc v \<and> fields_enc fs)"
| "val_enc (HMF_MAP fs) = fields_enc fs"
| "val_enc (HMF_LIST fs) = fields_enc fs"
| "val_enc (HMF_STR s) = (chr 0 \<notin> set s)"
| "val_enc (HMF_BIN b) = True"
| "val_enc (HMF_S64 i) = True"
| "val_enc (HMF_DBL d) = False"

lemma c_str_id: "chr 0 \<notin> set s \<Longrightarrow> c_str s = s"
  unfolding c_str_def by (induction s) auto

lemma be32_wr32: "l < 2 ^ 32 \<Longrightarrow> be32 (wr32_be l) = l"
proof -
  assume "l < 2 ^ 32"
  then have l: "int l < 4294967296" "0 \<le> int l" by simp_all
  have d: "int l div 65536 = int l div 256 div 256" "int l div 16777216 = int l div 256 div 256 div 256"
    by (simp_all flip: zdiv_zmult2_eq)
  have r: "x div 256 * 256 + x mod 256 = x" for x :: int by simp
  have "int l div 16777216 mod 256 = int l div 16777216" using l by simp
  then have "((int l div 16777216 mod 256 * 256 + int l div 65536 mod 256) * 256 + int l div 256 mod 256) * 256
      + int l mod 256 = int l" by (simp only: d r)
  moreover have p: "(256::int) ^ 3 = 16777216" "(256::int) ^ 2 = 65536" by simp_all
  have "be32 (wr32_be l) = nat (((int l div 16777216 mod 256 * 256 + int l div 65536 mod 256) * 256
      + int l div 256 mod 256) * 256 + int l mod 256)"
    unfolding be32_def wr32_be_def list.map foldl_Cons foldl_Nil byte_chr p
    by (simp only: mult_zero_left add_0 power_one_right power_0 div_by_1)
  ultimately show ?thesis by (simp only: nat_int)
qed

lemma length_wr32 [simp]: "length (wr32_be l) = 4"
  by (simp add: wr32_be_def)

lemma u64_of_bytes_s64: "u64_of_bytes (s64_bytes u) = u"
proof (induction u rule: s64_bytes.induct)
  case (1 u)
  show ?case
  proof (cases "u = 0")
    case True
    then show ?thesis by (simp add: s64_bytes.simps u64_of_bytes_def)
  next
    case False
    have low: "word_of_int (uint u mod 256) = take_bit 8 u"
      by (rule bit_eqI) (simp add: bit_simps take_bit_eq_mod[of 8, simplified, symmetric])
    have "push_bit 8 (drop_bit 8 u) OR take_bit 8 u = u"
      by (rule bit_eqI) (auto simp: bit_simps)
    then show ?thesis
      using 1[OF False] False
      by (subst s64_bytes.simps) (simp add: u64_of_bytes_def low)
  qed
qed

lemma length_s64: "length (s64_bytes u) \<le> 8"
proof -
  have "unat u < 256 ^ k \<Longrightarrow> length (s64_bytes u) \<le> k" for k
  proof (induction u arbitrary: k rule: s64_bytes.induct)
    case (1 u)
    show ?case
    proof (cases "u = 0")
      case True
      then show ?thesis by (simp add: s64_bytes.simps)
    next
      case False
      with 1(2) obtain j where k: "k = Suc j" by (cases k) (auto simp: unat_eq_zero)
      have "unat (drop_bit 8 u) < 256 ^ j"
        unfolding unat_drop8 using 1(2) k by (simp add: less_mult_imp_div_less mult.commute)
      from 1(1)[OF False this] False k show ?thesis by (subst s64_bytes.simps) simp
    qed
  qed
  moreover have "unat u < 256 ^ 8" using unsigned_less[of u, where ?'a = nat] by simp
  ultimately show ?thesis by blast
qed


section \<open>Round trip\<close>

lemma des_head_written:
  assumes "length d < 2 ^ 31" and "name_enc n" and "1 \<le> ty" "ty \<le> 5"
    and "\<not> (ty = 3 \<and> length d + 1 = 2 ^ 32)"
  shows "des_head (chr ty # chr (int (length (name_bytes n))) # wr32_be (length d) @ name_bytes n @ d @ r)
       = Inr (nat ty, n, d, r)"
proof -
  have nl: "length (name_bytes n) < 256" using assms(2)
    by (auto simp: name_enc_def name_bytes_def split: option.splits)
  have sum: "(length (name_bytes n) + length d) mod 4294967296 = length (name_bytes n) + length d"
    using nl assms(1) by simp
  have t: "nat (ty mod 256) = nat ty" using assms by simp
  have nm: "int (length (name_bytes n)) mod 256 = int (length (name_bytes n))" using nl by simp
  have len: "be32 (take 4 (wr32_be (length d) @ name_bytes n @ d @ r)) = length d"
    using be32_wr32[of "length d"] assms(1) by simp
  have name: "(if length (name_bytes n) = 0 then None else Some (c_str (name_bytes n))) = n"
    using assms(2) by (auto simp: name_enc_def name_bytes_def c_str_id split: option.splits)
  have ty: "nat ty \<in> {1, 2, 3, 4, 5}" using assms(3,4) by auto
  have dr: "drop 6 (chr ty # chr (int (length (name_bytes n))) # wr32_be (length d) @ name_bytes n @ d @ r)
          = name_bytes n @ d @ r" by (simp add: numeral_eq_Suc)
  have d2: "drop 2 (chr ty # chr (int (length (name_bytes n))) # wr32_be (length d) @ name_bytes n @ d @ r)
          = wr32_be (length d) @ name_bytes n @ d @ r" by (simp add: numeral_eq_Suc)
  have big: "\<not> (nat ty = 3 \<and> length d + 1 = 2 ^ 32)" using assms(1) by simp
  show ?thesis
    unfolding des_head_def Let_def dr d2 len
    using ty big sum name by (cases "name_bytes n = []") (simp_all add: t nm)
qed

lemma des0_step:
  assumes "des_head buf = Inr (ty, n, b, rest)" and "5 < length buf"
  shows "htsmsg_binary_des0 buf =
     (case (if ty = 3 then Inr (HMF_STR (c_str b))
            else if ty = 4 then Inr (HMF_BIN b)
            else if ty = 2 then Inr (HMF_S64 (des_s64 b))
            else (case htsmsg_binary_des0 b of
                    Inl e \<Rightarrow> Inl e
                  | Inr fs \<Rightarrow> Inr (if ty = 1 then HMF_MAP fs else HMF_LIST fs))) of
        Inl e \<Rightarrow> Inl e
      | Inr v \<Rightarrow> (case htsmsg_binary_des0 rest of Inl e \<Rightarrow> Inl e | Inr fs \<Rightarrow> Inr ((n, v) # fs)))"
  using assms(2) by (subst htsmsg_binary_des0.simps) (simp add: assms(1))

lemma write_ok:
  "fields_enc fs \<Longrightarrow> htsmsg_binary_count fs < 2 ^ 31 \<Longrightarrow>
     \<exists>b. htsmsg_binary_write fs = Some b \<and> length b = htsmsg_binary_count fs \<and> htsmsg_binary_des0 b = Inr fs"
  "val_enc v \<Longrightarrow> data_len v < 2 ^ 31 \<Longrightarrow>
     \<exists>b. write_val v = Some b \<and> length b = data_len v \<and>
         (case v of HMF_MAP fs \<Rightarrow> htsmsg_binary_des0 b = Inr fs | HMF_LIST fs \<Rightarrow> htsmsg_binary_des0 b = Inr fs
          | HMF_STR s \<Rightarrow> b = s | HMF_BIN s \<Rightarrow> b = s | HMF_S64 i \<Rightarrow> des_s64 b = i | HMF_DBL d \<Rightarrow> False)"
proof (induction fs and v rule: htsmsg_binary_count_data_len.induct)
  case 1
  then show ?case by (simp add: htsmsg_binary_des0.simps)
next
  case (2 n v fs)
  from 2(3) have e: "name_enc n" "val_enc v" "fields_enc fs" by simp_all
  from 2(4) have l: "data_len v < 2 ^ 31" "htsmsg_binary_count fs < 2 ^ 31" by simp_all
  from 2(1)[OF e(2) l(1)] obtain d where d: "write_val v = Some d" "length d = data_len v"
    and dv: "case v of HMF_MAP fs \<Rightarrow> htsmsg_binary_des0 d = Inr fs | HMF_LIST fs \<Rightarrow> htsmsg_binary_des0 d = Inr fs
          | HMF_STR s \<Rightarrow> d = s | HMF_BIN s \<Rightarrow> d = s | HMF_S64 i \<Rightarrow> des_s64 d = i | HMF_DBL d \<Rightarrow> False"
    by blast
  from 2(2)[OF e(3) l(2)] obtain r where r: "htsmsg_binary_write fs = Some r"
    "length r = htsmsg_binary_count fs" "htsmsg_binary_des0 r = Inr fs" by blast
  let ?b = "chr (hmf_type v) # chr (int (length (name_bytes n))) # wr32_be (data_len v) @ name_bytes n @ d @ r"
  have w: "htsmsg_binary_write ((n, v) # fs) = Some ?b" using d(1) r(1) l(1) by simp
  have len: "length ?b = htsmsg_binary_count ((n, v) # fs)" using d(2) r(2) by simp
  have ty: "1 \<le> hmf_type v" "hmf_type v \<le> 5" using e(2) by (cases v; simp)+
  have h: "des_head ?b = Inr (nat (hmf_type v), n, d, r)"
    using des_head_written[of d n "hmf_type v" r] d(2) l(1) e(1) ty by simp
  have long: "5 < length ?b" by simp
  have "htsmsg_binary_des0 ?b = Inr ((n, v) # fs)"
    unfolding des0_step[OF h long] using dv r(3) e(2) by (cases v) (simp_all add: c_str_id)
  with w len show ?case by blast
qed (auto simp: u64_of_bytes_s64 des_s64_def order_trans[OF length_s64])

lemma deserialize_serialize:
  assumes "fields_enc (hm_fields m)" and "\<not> hm_islist m"
    and "int (htsmsg_binary_count (hm_fields m)) + 4 \<le> sint maxlen"
  shows "\<exists>b. htsmsg_binary_serialize m maxlen = Inr (wr32_be (length b) @ b) \<and> htsmsg_binary_deserialize b = Inr m"
proof -
  have top: "sint maxlen < 2 ^ 31" using sint_lt[of maxlen] by simp
  then have "htsmsg_binary_count (hm_fields m) < 2 ^ 31" using assms(3) by simp
  from write_ok(1)[OF assms(1) this] obtain b where b: "htsmsg_binary_write (hm_fields m) = Some b"
    "length b = htsmsg_binary_count (hm_fields m)" "htsmsg_binary_des0 b = Inr (hm_fields m)" by blast
  have "sint maxlen mod 2 ^ 64 = sint maxlen" using top assms(3) by simp
  then have "htsmsg_binary_serialize m maxlen = Inr (wr32_be (length b) @ b)"
    using b assms(3) by (simp add: htsmsg_binary_serialize_def Let_def)
  moreover have "htsmsg_binary_deserialize b = Inr m"
    using b(3) assms(2) by (simp add: htsmsg_binary_deserialize_def)
  ultimately show ?thesis by blast
qed

text \<open>The reader overruns its buffer exactly on the headers whose lengths wrap around when added.\<close>

lemma des_head_overrun:
  assumes "length buf < 2 ^ 32" and "des_head buf = Inl Des_overrun"
  shows "2 ^ 32 \<le> nat (byte (buf ! 1)) + be32 (take 4 (drop 2 buf)) \<or>
         nat (byte (buf ! 0)) = 3 \<and> be32 (take 4 (drop 2 buf)) + 1 = 2 ^ 32"
proof (rule ccontr)
  assume n: "\<not> ?thesis"
  then have "(nat (byte (buf ! 1)) + be32 (take 4 (drop 2 buf))) mod 2 ^ 32
           = nat (byte (buf ! 1)) + be32 (take 4 (drop 2 buf))" by simp
  with n assms(2) show False by (auto simp: des_head_def Let_def split: if_splits)
qed

end
