(* ===== verification/Htsmsg_Properties.thy ===== *)
theory Htsmsg_Properties
  imports Json_Roundtrip Htsmsg_Binary
begin

text \<open>
  What the messages, their two external forms and the byte queues they are written to guarantee.
\<close>

section \<open>JSON\<close>

definition json_demo :: htsmsg where
  "json_demo = \<lparr>hm_islist = False, hm_fields =
     [(Some ''title'', HMF_STR [CHR ''a'', CHR 0x22, CHR 0x5C, CHR 0x0A, chr 0xc3, chr 0xa5]),
      (Some ''no'', HMF_S64 (-42)),
      (Some ''sub'', HMF_LIST [(None, HMF_MAP []), (None, HMF_S64 7)])]\<rparr>"

text \<open>
  C25. A message without doubles and binary data, with well-formed UTF-8 in its names and strings and
  integers strictly between \<open>LONG_MIN\<close> and \<open>LONG_MAX\<close>, that is written as JSON through a byte
  queue (compact or indented) is read back by the parser as the same message.
\<close>

theorem json_reads_back:
  assumes "json_enc (hm_islist m) (hm_fields m)" and "length (json_text d2s m pretty) < 2 ^ 32"
  shows "htsmsg_json_deserialize dbl (htsmsg_json_serialize_to_str d2s m pretty) = Inr m"
  unfolding serialize_to_str[OF assms(2)] by (rule json_roundtrip[OF assms(1)])

theorem json_reads_back_witness:
  "htsmsg_json_deserialize (\<lambda>_. 0) (htsmsg_json_serialize_to_str (\<lambda>_. []) json_demo True) = Inr json_demo"
proof (rule json_reads_back)
  show "json_enc (hm_islist json_demo) (hm_fields json_demo)" by code_simp
  have "length (json_text (\<lambda>_. []) json_demo True) \<le> 200" by code_simp
  then show "length (json_text (\<lambda>_. []) json_demo True) < 2 ^ 32" by simp
qed

text \<open>
  C26. The parser returns for every text and every set of callbacks: the recursion of the code is
  never deeper than the bound of the model, so the model's answer is the code's answer.
\<close>

theorem json_parser_returns: "json_deserialize jd dbl src \<noteq> Inl J_fuel"
  by (rule json_no_fuel)

text \<open>
  C27. Whatever the text, the parser never makes a callback that builds the message assert, and a
  message it returns is well formed: the fields of maps have names, those of lists have none, all
  the way down.
\<close>

theorem json_message_well_formed:
  "htsmsg_json_deserialize dbl src \<noteq> Inl J_callback \<and> (htsmsg_json_deserialize dbl src = Inr m \<longrightarrow> msg_ok m)"
  using json_no_callback json_result_ok by blast

theorem json_message_well_formed_witness:
  "htsmsg_json_deserialize (\<lambda>_. 0) ''[1,{}]'' = Inr \<lparr>hm_islist = True, hm_fields = [(None, HMF_S64 1), (None, HMF_MAP [])]\<rparr>
   \<and> msg_ok \<lparr>hm_islist = True, hm_fields = [(None, HMF_S64 1), (None, HMF_MAP [])]\<rparr>"
proof -
  have "htsmsg_json_deserialize (\<lambda>_. 0) ''[1,{}]'' = Inr \<lparr>hm_islist = True, hm_fields = [(None, HMF_S64 1), (None, HMF_MAP [])]\<rparr>"
    by code_simp
  with json_message_well_formed show ?thesis by blast
qed


section \<open>Binary\<close>

text \<open>
  C29. A map without doubles, with names of 1 to 255 characters and no NUL in names and strings, that
  fits in \<open>maxlen\<close> is written as its length in four bytes and a text from which the reader gets
  the same message.
\<close>

theorem binary_reads_back:
  assumes "fields_enc (hm_fields m)" and "\<not> hm_islist m"
    and "int (htsmsg_binary_count (hm_fields m)) + 4 \<le> sint maxlen"
  shows "\<exists>b. htsmsg_binary_serialize m maxlen = Inr (wr32_be (length b) @ b) \<and> htsmsg_binary_deserialize b = Inr m"
  by (rule deserialize_serialize[OF assms])

theorem binary_reads_back_witness:
  "\<exists>b. htsmsg_binary_serialize json_demo 100 = Inr (wr32_be (length b) @ b) \<and> htsmsg_binary_deserialize b = Inr json_demo"
proof (rule binary_reads_back)
  show "fields_enc (hm_fields json_demo)" by code_simp
  show "\<not> hm_islist json_demo" by code_simp
  have "htsmsg_binary_count (hm_fields json_demo) \<le> 90" by code_simp
  then show "int (htsmsg_binary_count (hm_fields json_demo)) + 4 \<le> sint (100 :: i32)" by simp
qed

text \<open>
  C30. The check of the lengths in a binary message adds them in 32 bits: the reader runs past the end
  of a buffer of less than 4 GB only at a field whose two lengths wrap around (or at a string of
  0xffffffff bytes), and a header of six bytes is enough to make it do so.
\<close>

theorem binary_overrun:
  "(length buf < 2 ^ 32 \<longrightarrow> des_head buf = Inl Des_overrun \<longrightarrow>
      2 ^ 32 \<le> nat (byte (buf ! 1)) + be32 (take 4 (drop 2 buf)) \<or>
      nat (byte (buf ! 0)) = 3 \<and> be32 (take 4 (drop 2 buf)) + 1 = 2 ^ 32)
   \<and> htsmsg_binary_deserialize [chr 4, chr 1, chr 255, chr 255, chr 255, chr 255] = Inl Des_overrun"
proof
  show "htsmsg_binary_deserialize [chr 4, chr 1, chr 255, chr 255, chr 255, chr 255] = Inl Des_overrun"
    by (simp add: htsmsg_binary_deserialize_def htsmsg_binary_des0.simps des_head_def be32_def)
qed (use des_head_overrun in blast)

theorem binary_overrun_witness:
  "2 ^ 32 \<le> nat (byte ([chr 4, chr 1, chr 255, chr 255, chr 255, chr 255] ! 1)) +
     be32 (take 4 (drop 2 [chr 4, chr 1, chr 255, chr 255, chr 255, chr 255])) \<or>
   nat (byte ([chr 4, chr 1, chr 255, chr 255, chr 255, chr 255] ! 0)) = 3 \<and>
     be32 (take 4 (drop 2 [chr 4, chr 1, chr 255, chr 255, chr 255, chr 255])) + 1 = 2 ^ 32"
proof -
  have "des_head [chr 4, chr 1, chr 255, chr 255, chr 255, chr 255] = Inl Des_overrun"
    by (simp add: des_head_def be32_def)
  then show ?thesis using binary_overrun[of "[chr 4, chr 1, chr 255, chr 255, chr 255, chr 255]"] by simp
qed

section \<open>Messages\<close>

lemma copy_bad:
  "\<not> fields_ok l fs \<Longrightarrow> hm_islist dst = l \<Longrightarrow> copy_fields fs dst = None"
  "\<not> val_ok v \<or> (hm_islist dst \<longleftrightarrow> n \<noteq> None) \<Longrightarrow> copy_val n v dst = None"
proof (induction fs dst and n v dst arbitrary: l rule: copy_fields_copy_val.induct)
  case (2 n v fs dst)
  show ?case
  proof (cases "copy_val n v dst")
    case (Some d1)
    then have "\<not> (\<not> val_ok v \<or> (hm_islist dst \<longleftrightarrow> n \<noteq> None))" using 2(1) by (metis option.distinct(1))
    then have ok: "val_ok v" "hm_islist dst \<longleftrightarrow> n = None" by blast+
    then have "d1 = dst\<lparr>hm_fields := hm_fields dst @ [(n, v)]\<rparr>" using copy_ok(2)[OF ok] Some by simp
    then show ?thesis using 2(2)[OF Some, of l] 2(3,4) ok Some by auto
  qed simp
next
  case (3 n fs dst)
  then show ?case
    using 3(1)[of False] copy_ok(1)[of False fs htsmsg_create_map]
    by (cases "fields_ok False fs") (auto simp: htsmsg_create_map_def htsmsg_add_msg_def htsmsg_field_add_def)
next
  case (4 n fs dst)
  then show ?case
    using 4(1)[of True] copy_ok(1)[of True fs htsmsg_create_list]
    by (cases "fields_ok True fs") (auto simp: htsmsg_create_list_def htsmsg_add_msg_def htsmsg_field_add_def)
qed (auto simp: htsmsg_add_str_def htsmsg_add_s64_def htsmsg_add_bin_def htsmsg_add_dbl_def htsmsg_field_add_def)

text \<open>
  A copy of a well-formed message is the message; copying any other one (the binary reader makes
  maps with unnamed fields and lists with named ones) fails an assertion.
\<close>

theorem copy_is_identity: "htsmsg_copy m = (if msg_ok m then Some m else None)"
proof (cases "msg_ok m")
  case True
  then show ?thesis
    using copy_ok(1)[of "hm_islist m" "hm_fields m" "if hm_islist m then htsmsg_create_list else htsmsg_create_map"]
    by (simp add: htsmsg_copy_def msg_ok_def htsmsg_create_list_def htsmsg_create_map_def)
next
  case False
  then show ?thesis
    using copy_bad(1)[of "hm_islist m" "hm_fields m" "if hm_islist m then htsmsg_create_list else htsmsg_create_map"]
    by (simp add: htsmsg_copy_def msg_ok_def htsmsg_create_list_def htsmsg_create_map_def)
qed

section \<open>Byte queues\<close>

text \<open>
  C32. A byte queue implements the sequence of its bytes, however they are spread over its chunks:
  appending, reading, peeking, searching and joining queues do to that sequence what the same
  operations of lists do, and keep the queue's size equal to its length.
\<close>

theorem htsbuf_is_a_byte_sequence:
  assumes "hq_ok hq" and "hq_ok src"
  shows "hq_bytes (htsbuf_append hq b) = hq_bytes hq @ b \<and> hq_ok (htsbuf_append hq b)
    \<and> fst (htsbuf_read hq len) = take len (hq_bytes hq)
    \<and> hq_bytes (snd (htsbuf_read hq len)) = drop len (hq_bytes hq) \<and> hq_ok (snd (htsbuf_read hq len))
    \<and> htsbuf_peek hq len = take len (hq_bytes hq)
    \<and> htsbuf_find hq v = (if v \<in> set (hq_bytes hq) then Some (length (takeWhile (\<lambda>b. b \<noteq> v) (hq_bytes hq))) else None)
    \<and> hq_bytes (fst (htsbuf_appendq hq src)) = hq_bytes hq @ hq_bytes src \<and> hq_ok (fst (htsbuf_appendq hq src))
    \<and> hq_bytes (snd (htsbuf_appendq hq src)) = [] \<and> hq_ok (snd (htsbuf_appendq hq src))"
  using append_bytes[OF assms(1)] append_ok[OF assms(1)] htsbuf_read_spec[OF assms(1), of len]
    htsbuf_peek_spec[OF assms(1)] htsbuf_find_spec[OF assms(1)] htsbuf_appendq_spec[OF assms]
  by (simp add: prod_eq_iff)

theorem htsbuf_is_a_byte_sequence_witness:
  "hq_bytes (snd (htsbuf_read (htsbuf_append (htsbuf_queue_init 0) ''hello'') 2)) = ''llo''"
proof -
  let ?q = "htsbuf_append (htsbuf_queue_init 0) ''hello''"
  have "hq_ok ?q" "hq_bytes ?q = ''hello''"
    using htsbuf_is_a_byte_sequence[OF ok_init(1) ok_init(1), of 0 "''hello''"] by simp_all
  with htsbuf_is_a_byte_sequence[of ?q ?q "[]" 2] show ?thesis by simp
qed

end
