(* ===== verification/Extents.thy ===== *)
theory Extents
  imports Prelude
begin

text \<open>
  The allocator of ranges (\<open>src/misc/extents.c\<close>). A red-black tree is the list of its nodes in
  order. A free segment is its position and size (\<open>ef_pos\<close> and \<open>ef_size->es_size\<close>), the size tree a
  list of sizes, each with the positions of the segments of that size, the last one added first.
  The preallocated nodes (\<open>ep_size_skel\<close>, \<open>ep_freeseg_skel\<close>) have no part of their own.

  Positions and sizes are \<open>int\<close>; within a pool that lies between 0 and \<open>2 ^ 31\<close> no sum or
  difference of the code overflows.
\<close>

type_synonym seg = "int \<times> int"

record extent_pool =
  ep_freesegs :: "seg list"
  ep_sizes :: "(int \<times> int list) list"
  ep_total :: int

section \<open>The trees\<close>

fun size_add :: "int \<Rightarrow> int \<Rightarrow> (int \<times> int list) list \<Rightarrow> (int \<times> int list) list" where
  "size_add s p [] = [(s, [p])]"
| "size_add s p ((t, ps) # r) =
     (if s < t then (s, [p]) # (t, ps) # r else if s = t then (t, p # ps) # r else (t, ps) # size_add s p r)"

fun size_del :: "int \<Rightarrow> int \<Rightarrow> (int \<times> int list) list \<Rightarrow> (int \<times> int list) list" where
  "size_del s p [] = []"
| "size_del s p ((t, ps) # r) =
     (if s = t then (if remove1 p ps = [] then r else (t, remove1 p ps) # r) else (t, ps) # size_del s p r)"

definition set_seg_size :: "int \<Rightarrow> int \<Rightarrow> seg list \<Rightarrow> seg list" where
  "set_seg_size p s segs = map (\<lambda>(q, z). if q = p then (q, s) else (q, z)) segs"

definition set_seg_pos :: "int \<Rightarrow> int \<Rightarrow> seg list \<Rightarrow> seg list" where
  "set_seg_pos p p1 segs = map (\<lambda>(q, z). if q = p then (p1, z) else (q, z)) segs"

definition ef_insert :: "extent_pool \<Rightarrow> int \<Rightarrow> int \<Rightarrow> extent_pool" where
  "ef_insert ep s p =
     ep\<lparr>ep_sizes := size_add s p (ep_sizes ep), ep_freesegs := set_seg_size p s (ep_freesegs ep)\<rparr>"

definition ef_unlink :: "extent_pool \<Rightarrow> seg \<Rightarrow> extent_pool" where
  "ef_unlink ep ef = (case ef of (p, s) \<Rightarrow> ep\<lparr>ep_sizes := size_del s p (ep_sizes ep)\<rparr>)"

definition ef_remove :: "int \<Rightarrow> extent_pool \<Rightarrow> extent_pool" where
  "ef_remove p ep = ep\<lparr>ep_freesegs := filter (\<lambda>x. fst x \<noteq> p) (ep_freesegs ep)\<rparr>"

definition ef_destroy :: "extent_pool \<Rightarrow> seg \<Rightarrow> extent_pool" where
  "ef_destroy ep ef = ef_remove (fst ef) (ef_unlink ep ef)"

text \<open>The smallest size that is large enough, with its segments.\<close>

definition es_find :: "extent_pool \<Rightarrow> int \<Rightarrow> (int \<times> int list) option" where
  "es_find ep s = find (\<lambda>x. s \<le> fst x) (ep_sizes ep)"

definition rb_prev :: "seg list \<Rightarrow> int \<Rightarrow> seg option" where
  "rb_prev segs p = (let l = filter (\<lambda>x. fst x < p) segs in if l = [] then None else Some (last l))"

definition rb_next :: "seg list \<Rightarrow> int \<Rightarrow> seg option" where
  "rb_next segs p = (case filter (\<lambda>x. p < fst x) segs of [] \<Rightarrow> None | x # _ \<Rightarrow> Some x)"

section \<open>Operations\<close>

definition extent_alloc :: "extent_pool \<Rightarrow> int \<Rightarrow> int \<times> extent_pool" where
  "extent_alloc ep s =
     (case es_find ep s of
        None \<Rightarrow> (-1, ep)
      | Some (z, ps) \<Rightarrow>
          let pos = hd ps
          in if z = s then (pos, ef_destroy ep (pos, z))
             else (pos, ef_insert
                          ((ef_unlink ep (pos, z))\<lparr>ep_freesegs := set_seg_pos pos (pos + s) (ep_freesegs ep)\<rparr>)
                          (z - s) (pos + s)))"

text \<open>
  \<open>None\<close> beside the results -2 and -3: the new node has been put into the tree of segments, without
  a size, and stays there; every later operation on the pool reads that size.
\<close>

definition extent_free :: "extent_pool \<Rightarrow> int \<Rightarrow> int \<Rightarrow> int \<times> extent_pool option" where
  "extent_free ep pos s =
     (if s = 0 then (0, Some ep)
      else if pos \<in> fst ` set (ep_freesegs ep) then (-1, Some ep)
      else let p = rb_prev (ep_freesegs ep) pos; n = rb_next (ep_freesegs ep) pos
           in if (case p of Some (q, z) \<Rightarrow> pos < q + z | None \<Rightarrow> False) then (-2, None)
              else if (case n of Some (q, z) \<Rightarrow> q < pos + s | None \<Rightarrow> False) then (-3, None)
              else let (ep1, ef, s1) =
                         (case p of
                            Some (q, z) \<Rightarrow>
                              if q + z = pos then (ef_unlink ep (q, z), q, s + z)
                              else (ep\<lparr>ep_freesegs := insort_key fst (pos, 0) (ep_freesegs ep)\<rparr>, pos, s)
                          | None \<Rightarrow> (ep\<lparr>ep_freesegs := insort_key fst (pos, 0) (ep_freesegs ep)\<rparr>, pos, s));
                       (ep2, s2) =
                         (case n of
                            Some (q, z) \<Rightarrow> if q = pos + s then (ef_destroy ep1 (q, z), s1 + z) else (ep1, s1)
                          | None \<Rightarrow> (ep1, s1))
                   in (0, Some (ef_insert ep2 s2 ef)))"

text \<open>\<open>(pos + a) & ~a\<close> for an alignment of \<open>a + 1\<close>.\<close>

definition extent_alloc_aligned :: "extent_pool \<Rightarrow> int \<Rightarrow> int \<Rightarrow> int \<times> extent_pool option" where
  "extent_alloc_aligned ep s alignment =
     (if alignment < 2 then (case extent_alloc ep s of (r, ep1) \<Rightarrow> (r, Some ep1))
      else let a = alignment - 1
           in case es_find ep (s + a) of
                None \<Rightarrow> (-1, Some ep)
              | Some (z, ps) \<Rightarrow>
                  let pos = hd ps;
                      rval = (pos + a) AND NOT a;
                      s2 = pos + z - (rval + s);
                      ep1 = ef_insert
                              ((ef_unlink ep (pos, z))\<lparr>ep_freesegs := set_seg_pos pos (rval + s) (ep_freesegs ep)\<rparr>)
                              s2 (rval + s)
                  in (rval, snd (extent_free ep1 pos (rval - pos))))"

definition extent_create :: "int \<Rightarrow> int \<Rightarrow> extent_pool option" where
  "extent_create start s = snd (extent_free \<lparr>ep_freesegs = [], ep_sizes = [], ep_total = s\<rparr> start s)"

definition extent_destroy :: "extent_pool \<Rightarrow> extent_pool" where
  "extent_destroy ep = fold (\<lambda>ef e. ef_destroy e ef) (ep_freesegs ep) ep"

definition extent_stats :: "extent_pool \<Rightarrow> int \<times> int \<times> int" where
  "extent_stats ep = (ep_total ep, sum_list (map snd (ep_freesegs ep)), int (length (ep_freesegs ep)))"

section \<open>The invariant\<close>

definition apart :: "seg set \<Rightarrow> bool" where
  "apart S \<longleftrightarrow> (\<forall>(p, s) \<in> S. 0 < s) \<and> (\<forall>(p, s) \<in> S. \<forall>(q, t) \<in> S. p < q \<longrightarrow> p + s < q)"

definition segs_ok :: "seg list \<Rightarrow> bool" where
  "segs_ok segs \<longleftrightarrow> sorted_wrt (<) (map fst segs) \<and> apart (set segs)"

definition sizes_ok :: "(int \<times> int list) list \<Rightarrow> bool" where
  "sizes_ok xs \<longleftrightarrow> sorted_wrt (<) (map fst xs) \<and> (\<forall>(t, ps) \<in> set xs. ps \<noteq> [] \<and> distinct ps)"

definition indexed :: "(int \<times> int list) list \<Rightarrow> seg set" where
  "indexed xs = {(p, s). \<exists>ps. (s, ps) \<in> set xs \<and> p \<in> set ps}"

definition pool_ok :: "extent_pool \<Rightarrow> bool" where
  "pool_ok ep \<longleftrightarrow> segs_ok (ep_freesegs ep) \<and> sizes_ok (ep_sizes ep) \<and> indexed (ep_sizes ep) = set (ep_freesegs ep)"

definition free_addrs :: "extent_pool \<Rightarrow> int set" where
  "free_addrs ep = (\<Union>(p, s) \<in> set (ep_freesegs ep). {p ..< p + s})"

lemma size_add_keys: "fst ` set (size_add s p r) \<subseteq> insert s (fst ` set r)"
  by (induction s p r rule: size_add.induct) auto

lemma sizes_ok_Cons:
  "sizes_ok ((t, ps) # r) \<longleftrightarrow> (\<forall>u \<in> fst ` set r. t < u) \<and> ps \<noteq> [] \<and> distinct ps \<and> sizes_ok r"
  by (auto simp: sizes_ok_def)

lemma size_add_ok: "sizes_ok xs \<Longrightarrow> (p, s) \<notin> indexed xs \<Longrightarrow> sizes_ok (size_add s p xs)"
proof (induction s p xs rule: size_add.induct)
  case (2 s p t ps r)
  have o: "\<forall>u \<in> fst ` set r. t < u" "ps \<noteq> []" "distinct ps" "sizes_ok r" using 2(2) by (simp_all add: sizes_ok_Cons)
  consider "s < t" | "s = t" | "t < s" by linarith
  then show ?case
  proof cases
    case 1
    then show ?thesis using o by (simp add: sizes_ok_Cons) (use order.strict_trans in blast)
  next
    case 2
    have "p \<notin> set ps" using \<open>(p, s) \<notin> indexed ((t, ps) # r)\<close> 2 by (auto simp: indexed_def)
    then show ?thesis using o 2 by (simp add: sizes_ok_Cons)
  next
    case 3
    have "(p, s) \<notin> indexed r" using \<open>(p, s) \<notin> indexed ((t, ps) # r)\<close> by (auto simp: indexed_def)
    then have "sizes_ok (size_add s p r)" using 2(1) 3 o(4) by simp
    moreover have "\<forall>u \<in> fst ` set (size_add s p r). t < u" using size_add_keys[of s p r] o(1) 3 by blast
    ultimately show ?thesis using o 3 by (simp add: sizes_ok_Cons)
  qed
qed (simp add: sizes_ok_def)

lemma indexed_add: "indexed (size_add s p xs) = insert (p, s) (indexed xs)"
  by (induction s p xs rule: size_add.induct) (auto simp: indexed_def)

lemma size_del_subset: "fst ` set (size_del s p xs) \<subseteq> fst ` set xs"
  by (induction s p xs rule: size_del.induct) auto

lemma size_del_ok: "sizes_ok xs \<Longrightarrow> sizes_ok (size_del s p xs)"
proof (induction s p xs rule: size_del.induct)
  case (2 s p t ps r)
  have o: "\<forall>u \<in> fst ` set r. t < u" "distinct ps" "sizes_ok r" using 2(2) by (simp_all add: sizes_ok_Cons)
  show ?case
  proof (cases "s = t")
    case True
    then show ?thesis using o by (simp add: sizes_ok_Cons distinct_remove1)
  next
    case False
    have "\<forall>u \<in> fst ` set (size_del s p r). t < u" using o(1) size_del_subset[of s p r] by (meson subsetD)
    then show ?thesis using False o 2(1,2) by (simp add: sizes_ok_Cons)
  qed
qed simp

lemma indexed_del: "sizes_ok xs \<Longrightarrow> indexed (size_del s p xs) = indexed xs - {(p, s)}"
proof (induction s p xs rule: size_del.induct)
  case (2 s p t ps r)
  have r: "sizes_ok r" and lt: "\<forall>x \<in> set r. t < fst x" and d: "distinct ps" using 2(2) by (auto simp: sizes_ok_Cons)
  have e: "set (remove1 p ps) = set ps - {p}" using d by simp
  have c: "indexed ((t, ps) # r) = {(x, t) | x. x \<in> set ps} \<union> indexed r" for ps t r by (auto simp: indexed_def)
  show ?case
  proof (cases "s = t")
    case True
    have "(p, t) \<notin> indexed r" using lt by (auto simp: indexed_def)
    then show ?thesis using True e by (cases "remove1 p ps = []") (auto simp: c)
  next
    case False
    then show ?thesis using 2(1)[OF False r] by (auto simp: c)
  qed
qed (simp add: indexed_def)

section \<open>The list of segments\<close>

definition addrs :: "seg set \<Rightarrow> int set" where
  "addrs S = (\<Union>(p, s) \<in> S. {p ..< p + s})"

lemma free_addrs_eq: "free_addrs ep = addrs (set (ep_freesegs ep))"
  by (simp add: free_addrs_def addrs_def)

lemma key_unique:
  fixes segs :: "seg list"
  shows "sorted_wrt (<) (map fst segs) \<Longrightarrow> (p, s) \<in> set segs \<Longrightarrow> (p, t) \<in> set segs \<Longrightarrow> s = t"
  using eq_key_imp_eq_value[of segs p s t] strict_sorted_iff[of "map fst segs"] by blast

lemma apartD: "apart S \<Longrightarrow> (p, s) \<in> S \<Longrightarrow> (q, t) \<in> S \<Longrightarrow> p < q \<Longrightarrow> p + s < q"
  unfolding apart_def by fast

lemma apart_pos: "apart S \<Longrightarrow> (p, s) \<in> S \<Longrightarrow> 0 < s"
  unfolding apart_def by fast

lemma addrs_remove:
  assumes "segs_ok segs" "(p, s) \<in> set segs"
  shows "addrs (set segs - {(p, s)}) = addrs (set segs) - {p ..< p + s}"
proof -
  have "{q ..< q + t} \<inter> {p ..< p + s} = {}" if q: "(q, t) \<in> set segs" "(q, t) \<noteq> (p, s)" for q t
  proof -
    have "q \<noteq> p" using key_unique[of segs p s t] assms q by (auto simp: segs_ok_def)
    moreover have "q < p \<Longrightarrow> q + t < p" "p < q \<Longrightarrow> p + s < q"
      using apartD[of "set segs"] assms q(1) by (simp_all add: segs_ok_def)
    ultimately have "q + t < p \<or> p + s < q" by linarith
    then show ?thesis by auto
  qed
  then have "{p ..< p + s} \<inter> addrs (set segs - {(p, s)}) = {}" unfolding addrs_def by blast
  moreover have "addrs (set segs) = {p ..< p + s} \<union> addrs (set segs - {(p, s)})"
    using assms(2) unfolding addrs_def by blast
  ultimately show ?thesis by blast
qed

lemma addrs_insert: "addrs (insert (p, s) S) = {p ..< p + s} \<union> addrs S"
  by (auto simp: addrs_def)

lemma sorted_change:
  assumes "sorted_wrt (<) (map fst segs)"
    and "\<And>x y. x \<in> set segs \<Longrightarrow> y \<in> set segs \<Longrightarrow> fst x < fst y \<Longrightarrow> fst (f x) < (fst (f y) :: int)"
  shows "sorted_wrt (<) (map fst (map f segs))"
  using assms unfolding sorted_wrt_map by (rule sorted_wrt_mono_rel[rotated]) blast

lemma sorted_set_size: "sorted_wrt (<) (map fst segs) \<Longrightarrow> sorted_wrt (<) (map fst (set_seg_size p s segs))"
  unfolding set_seg_size_def by (rule sorted_change) auto

lemma set_set_size:
  "sorted_wrt (<) (map fst segs) \<Longrightarrow> (p, z) \<in> set segs \<Longrightarrow>
   set (set_seg_size p s segs) = insert (p, s) (set segs - {(p, z)})"
  by (auto simp: set_seg_size_def dest: key_unique split: prod.splits if_splits)
    (force simp: image_iff split: prod.splits if_splits dest: key_unique)+

lemma set_set_pos:
  "sorted_wrt (<) (map fst segs) \<Longrightarrow> (p, z) \<in> set segs \<Longrightarrow>
   set (set_seg_pos p p1 segs) = insert (p1, z) (set segs - {(p, z)})"
  by (auto simp: set_seg_pos_def dest: key_unique split: prod.splits if_splits)
    (force simp: image_iff split: prod.splits if_splits dest: key_unique)+

lemma sorted_set_pos:
  assumes "segs_ok segs" "(p, z) \<in> set segs" "p \<le> p1" "p1 \<le> p + z"
  shows "sorted_wrt (<) (map fst (set_seg_pos p p1 segs))"
  unfolding set_seg_pos_def
proof (rule sorted_change)
  show "sorted_wrt (<) (map fst segs)" using assms(1) by (simp add: segs_ok_def)
  fix x y assume x: "x \<in> set segs" "y \<in> set segs" "fst x < fst y"
  obtain q t q' t' where e: "x = (q, t)" "y = (q', t')" by (cases x; cases y)
  have "q = p \<Longrightarrow> p + z < q'" using x e assms(1,2) apartD[of "set segs" p z q' t'] by (simp add: segs_ok_def)
  then show "fst (case x of (q, z) \<Rightarrow> if q = p then (p1, z) else (q, z)) < fst (case y of (q, z) \<Rightarrow> if q = p then (p1, z) else (q, z))"
    using x(3) e assms(3,4) by auto
qed

lemma filter_key:
  fixes segs :: "seg list"
  assumes "sorted_wrt (<) (map fst segs)" "(p, z) \<in> set segs"
  shows "set (filter (\<lambda>x. fst x \<noteq> p) segs) = set segs - {(p, z)}"
proof -
  have "x \<in> set segs \<Longrightarrow> fst x = p \<longleftrightarrow> x = (p, z)" for x
    using key_unique[OF assms(1), of p "snd x" z] assms(2) by (cases x) auto
  then show ?thesis by auto
qed

lemma sorted_filter_key: "sorted_wrt (<) (map fst segs) \<Longrightarrow> sorted_wrt (<) (map fst (filter P segs))"
  by (induction segs) auto

lemma sorted_insort:
  "sorted_wrt (<) (map fst segs) \<Longrightarrow> p \<notin> fst ` set segs \<Longrightarrow> sorted_wrt (<) (map fst (insort_key fst (p, s) segs))"
  by (induction segs) (auto simp: set_insort_key)

lemma rb_prev_spec:
  assumes "sorted_wrt (<) (map fst segs)"
  shows "case rb_prev segs p of None \<Rightarrow> \<forall>(q, z) \<in> set segs. p \<le> q
         | Some (q, z) \<Rightarrow> (q, z) \<in> set segs \<and> q < p \<and> (\<forall>(q', z') \<in> set segs. q' < p \<longrightarrow> q' \<le> q)"
proof -
  let ?l = "filter (\<lambda>x. fst x < p) segs"
  show ?thesis
  proof (cases "?l = []")
    case True
    then show ?thesis by (auto simp: rb_prev_def filter_empty_conv not_less)
  next
    case False
    then have m: "last ?l \<in> set ?l" by (rule last_in_set)
    have s: "sorted_wrt (<) (map fst ?l)" by (rule sorted_filter_key[OF assms])
    have le: "\<forall>x \<in> set ?l. fst x \<le> fst (last ?l)"
    proof
      fix x assume x: "x \<in> set ?l"
      have e: "?l = butlast ?l @ [last ?l]" using False by simp
      have "sorted_wrt (<) (map fst (butlast ?l) @ [fst (last ?l)])" using s e by (metis list.simps(8,9) map_append)
      then show "fst x \<le> fst (last ?l)" using x e by (metis (no_types, lifting) Un_iff imageI list.set(1,2) list.set_map order.order_iff_strict set_append singleton_iff sorted_wrt_append)
    qed
    then show ?thesis using False m by (auto simp: rb_prev_def Let_def split: prod.splits)
  qed
qed

lemma rb_next_spec:
  assumes "sorted_wrt (<) (map fst segs)"
  shows "case rb_next segs p of None \<Rightarrow> \<forall>(q, z) \<in> set segs. q \<le> p
         | Some (q, z) \<Rightarrow> (q, z) \<in> set segs \<and> p < q \<and> (\<forall>(q', z') \<in> set segs. p < q' \<longrightarrow> q \<le> q')"
proof -
  let ?l = "filter (\<lambda>x. p < fst x) segs"
  show ?thesis
  proof (cases ?l)
    case Nil
    then show ?thesis by (auto simp: rb_next_def filter_empty_conv not_less)
  next
    case (Cons x l)
    have "sorted_wrt (<) (map fst ?l)" by (rule sorted_filter_key[OF assms])
    then have "\<forall>y \<in> set ?l. fst x \<le> fst y" using Cons by auto
    moreover have "x \<in> set ?l" using Cons by simp
    moreover have "set ?l = {y \<in> set segs. p < fst y}" by auto
    ultimately have "x \<in> set segs \<and> p < fst x \<and> (\<forall>y \<in> set segs. p < fst y \<longrightarrow> fst x \<le> fst y)" by blast
    then show ?thesis by (auto simp: rb_next_def Cons split: prod.splits)
  qed
qed

section \<open>What the operations do\<close>

text \<open>A pool with some list of segments and the index of its sizes.\<close>

definition pool_of :: "seg list \<Rightarrow> extent_pool \<Rightarrow> bool" where
  "pool_of segs ep \<longleftrightarrow> sizes_ok (ep_sizes ep) \<and> indexed (ep_sizes ep) = set segs"

lemma pool_okI: "segs_ok (ep_freesegs ep) \<Longrightarrow> pool_of (ep_freesegs ep) ep \<Longrightarrow> pool_ok ep"
  by (simp add: pool_ok_def pool_of_def)

lemma unlink_pool: "sizes_ok (ep_sizes ep) \<Longrightarrow> sizes_ok (ep_sizes (ef_unlink ep (p, s)))
    \<and> indexed (ep_sizes (ef_unlink ep (p, s))) = indexed (ep_sizes ep) - {(p, s)}
    \<and> ep_freesegs (ef_unlink ep (p, s)) = ep_freesegs ep"
  by (simp add: ef_unlink_def size_del_ok indexed_del)

lemma insert_pool: "sizes_ok (ep_sizes ep) \<Longrightarrow> (p, s) \<notin> indexed (ep_sizes ep) \<Longrightarrow> sizes_ok (ep_sizes (ef_insert ep s p))
    \<and> indexed (ep_sizes (ef_insert ep s p)) = insert (p, s) (indexed (ep_sizes ep))
    \<and> ep_freesegs (ef_insert ep s p) = set_seg_size p s (ep_freesegs ep)"
  by (simp add: ef_insert_def size_add_ok indexed_add)

lemma apart_subset: "apart S \<Longrightarrow> T \<subseteq> S \<Longrightarrow> apart T"
  unfolding apart_def by blast

lemma apart_insert:
  assumes "apart S" "0 < s" "\<And>q t. (q, t) \<in> S \<Longrightarrow> q + t < p \<or> p + s < q"
  shows "apart (insert (p, s) S)"
proof -
  have "(q, t) \<in> S \<Longrightarrow> 0 < t" for q t using apart_pos[OF assms(1)] .
  then have "q < p \<Longrightarrow> (q, t) \<in> S \<Longrightarrow> q + t < p" "p < q \<Longrightarrow> (q, t) \<in> S \<Longrightarrow> p + s < q" for q t
    using assms(2) assms(3)[of q t] by fastforce+
  then show ?thesis using assms(1,2) unfolding apart_def by auto
qed

lemma find_size:
  "sizes_ok xs \<Longrightarrow> find (\<lambda>x. s \<le> fst x) xs = Some (t, ps) \<Longrightarrow>
   (t, ps) \<in> set xs \<and> s \<le> t \<and> (\<forall>(u, qs) \<in> set xs. s \<le> u \<longrightarrow> t \<le> u)"
proof (induction xs)
  case (Cons y r)
  obtain u qs where y: "y = (u, qs)" by (cases y)
  have r: "sizes_ok r" "\<forall>v \<in> fst ` set r. u < v" using Cons(2) by (simp_all add: y sizes_ok_Cons)
  show ?case
  proof (cases "s \<le> u")
    case True
    then have "t = u" "ps = qs" using Cons(3) by (simp_all add: y)
    moreover have "u \<le> v" if "(v, ws) \<in> set r" for v ws using r(2) that by force
    ultimately show ?thesis using True by (auto simp: y)
  next
    case False
    then show ?thesis using Cons(1)[OF r(1)] Cons(3) by (auto simp: y)
  qed
qed simp

lemma es_find_spec:
  assumes "pool_ok ep"
  shows "case es_find ep s of
      None \<Rightarrow> \<forall>(p, z) \<in> set (ep_freesegs ep). z < s
    | Some (z, ps) \<Rightarrow> ps \<noteq> [] \<and> s \<le> z \<and> (hd ps, z) \<in> set (ep_freesegs ep)
        \<and> (\<forall>(q, t) \<in> set (ep_freesegs ep). s \<le> t \<longrightarrow> z \<le> t)"
proof -
  have i: "set (ep_freesegs ep) = indexed (ep_sizes ep)" and z: "sizes_ok (ep_sizes ep)"
    using assms by (simp_all add: pool_ok_def)
  show ?thesis
  proof (cases "es_find ep s")
    case None
    then have "\<forall>x \<in> set (ep_sizes ep). \<not> s \<le> fst x" by (auto simp: es_find_def find_None_iff)
    then show ?thesis using None by (auto simp: i indexed_def not_le)
  next
    case (Some x)
    obtain t ps where x: "x = (t, ps)" by (cases x)
    have f: "(t, ps) \<in> set (ep_sizes ep)" "s \<le> t" "\<forall>(u, qs) \<in> set (ep_sizes ep). s \<le> u \<longrightarrow> t \<le> u"
      using find_size[OF z, where s = s and t = t and ps = ps] Some by (simp_all add: x es_find_def)
    moreover have "ps \<noteq> []" using f(1) z by (auto simp: sizes_ok_def)
    ultimately show ?thesis unfolding i indexed_def Some x by (auto dest: hd_in_set)
  qed
qed

lemma alloc_none:
  assumes "pool_ok ep" "\<forall>(p, z) \<in> set (ep_freesegs ep). z < s"
  shows "extent_alloc ep s = (-1, ep)"
  using es_find_spec[OF assms(1), of s] assms(2)
  by (auto simp: extent_alloc_def split: option.splits)

text \<open>Giving away the first part of a segment, for \<open>extent_alloc\<close> and \<open>extent_alloc_aligned\<close>.\<close>

lemma shrink_pool:
  assumes ok: "pool_ok ep" and m: "(pos, z) \<in> set (ep_freesegs ep)" and k: "0 \<le> k" "k < z"
    and e: "ep1 = ef_insert ((ef_unlink ep (pos, z))\<lparr>ep_freesegs := set_seg_pos pos (pos + k) (ep_freesegs ep)\<rparr>) (z - k) (pos + k)"
  shows "pool_ok ep1 \<and> set (ep_freesegs ep1) = insert (pos + k, z - k) (set (ep_freesegs ep) - {(pos, z)})"
proof -
  let ?S = "set (ep_freesegs ep)"
  have o: "segs_ok (ep_freesegs ep)" "sizes_ok (ep_sizes ep)" "indexed (ep_sizes ep) = ?S"
    using ok by (simp_all add: pool_ok_def)
  then have srt: "sorted_wrt (<) (map fst (ep_freesegs ep))" and ap: "apart ?S" by (simp_all add: segs_ok_def)
  let ?u = "ef_unlink ep (pos, z)" and ?segs = "set_seg_pos pos (pos + k) (ep_freesegs ep)"
  note u = unlink_pool[OF o(2), of pos z]
  have new: "(pos + k, z - k) \<notin> ?S - {(pos, z)}"
  proof
    assume a: "(pos + k, z - k) \<in> ?S - {(pos, z)}"
    then have "k \<noteq> 0" by auto
    then show False using apartD[OF ap m, of "pos + k" "z - k"] a k by auto
  qed
  have s1: "sorted_wrt (<) (map fst ?segs)" by (rule sorted_set_pos[OF o(1) m]) (use k in auto)
  have m1: "set ?segs = insert (pos + k, z) (?S - {(pos, z)})" by (rule set_set_pos[OF srt m])
  have "(pos + k, z) \<notin> ?S - {(pos, z)}"
  proof
    assume a: "(pos + k, z) \<in> ?S - {(pos, z)}"
    then have "k \<noteq> 0" by auto
    then show False using apartD[OF ap m, of "pos + k" z] a k by auto
  qed
  then have S1: "set (set_seg_size (pos + k) (z - k) ?segs) = insert (pos + k, z - k) (?S - {(pos, z)})"
    using set_set_size[OF s1, of "pos + k" z "z - k"] m1 by auto
  note i = insert_pool[of "?u\<lparr>ep_freesegs := ?segs\<rparr>" "pos + k" "z - k"]
  have f: "set (ep_freesegs ep1) = insert (pos + k, z - k) (?S - {(pos, z)})"
    using i u o new S1 by (simp add: e)
  have "apart (insert (pos + k, z - k) (?S - {(pos, z)}))"
  proof (rule apart_insert)
    show "apart (?S - {(pos, z)})" by (rule apart_subset[OF ap]) blast
    fix q t assume q: "(q, t) \<in> ?S - {(pos, z)}"
    then have "q \<noteq> pos" using key_unique[OF srt, of q t z] m by auto
    then show "q + t < pos + k \<or> pos + k + (z - k) < q"
      using apartD[OF ap _ m, of q t] apartD[OF ap m, of q t] q k by (cases "q < pos") auto
  qed (use k in simp)
  moreover have "ep_freesegs ep1 = set_seg_size (pos + k) (z - k) ?segs" using i u o new by (simp add: e)
  ultimately have "segs_ok (ep_freesegs ep1)" using sorted_set_size[OF s1] f by (simp add: segs_ok_def)
  moreover have "pool_of (ep_freesegs ep1) ep1" using i u o new f by (simp add: pool_of_def e)
  ultimately show ?thesis using f by (simp add: pool_okI)
qed

lemma destroy_pool:
  assumes ok: "pool_ok ep" and m: "(pos, z) \<in> set (ep_freesegs ep)"
  shows "pool_ok (ef_destroy ep (pos, z)) \<and> set (ep_freesegs (ef_destroy ep (pos, z))) = set (ep_freesegs ep) - {(pos, z)}"
proof -
  have o: "segs_ok (ep_freesegs ep)" "sizes_ok (ep_sizes ep)" "indexed (ep_sizes ep) = set (ep_freesegs ep)"
    using ok by (simp_all add: pool_ok_def)
  then have srt: "sorted_wrt (<) (map fst (ep_freesegs ep))" and ap: "apart (set (ep_freesegs ep))" by (simp_all add: segs_ok_def)
  note u = unlink_pool[OF o(2), of pos z]
  have f: "ep_freesegs (ef_destroy ep (pos, z)) = filter (\<lambda>x. fst x \<noteq> pos) (ep_freesegs ep)"
    using u by (simp add: ef_destroy_def ef_remove_def)
  have S: "set (ep_freesegs (ef_destroy ep (pos, z))) = set (ep_freesegs ep) - {(pos, z)}"
    unfolding f by (rule filter_key[OF srt m])
  have "apart (set (ep_freesegs ep) - {(pos, z)})" by (rule apart_subset[OF ap]) blast
  then have "segs_ok (ep_freesegs (ef_destroy ep (pos, z)))"
    using S sorted_filter_key[OF srt, of "\<lambda>x. fst x \<noteq> pos"] by (simp add: segs_ok_def f)
  moreover have "pool_of (ep_freesegs (ef_destroy ep (pos, z))) (ef_destroy ep (pos, z))"
    unfolding pool_of_def S using u o by (simp add: ef_destroy_def ef_remove_def)
  ultimately show ?thesis using S by (simp add: pool_okI)
qed

lemma alloc_some:
  assumes ok: "pool_ok ep" and s: "0 < s" and e: "(q0, t0) \<in> set (ep_freesegs ep)" "s \<le> t0"
  shows "\<exists>pos z ep1. extent_alloc ep s = (pos, ep1) \<and> (pos, z) \<in> set (ep_freesegs ep) \<and> s \<le> z
      \<and> (\<forall>(q, t) \<in> set (ep_freesegs ep). s \<le> t \<longrightarrow> z \<le> t)
      \<and> pool_ok ep1 \<and> free_addrs ep1 = free_addrs ep - {pos ..< pos + s}"
proof -
  obtain z ps where f: "es_find ep s = Some (z, ps)" "s \<le> z" "(hd ps, z) \<in> set (ep_freesegs ep)"
    "\<forall>(q, t) \<in> set (ep_freesegs ep). s \<le> t \<longrightarrow> z \<le> t"
    using es_find_spec[OF ok, of s] e by (fastforce split: option.splits prod.splits)
  let ?p = "hd ps"
  have o: "segs_ok (ep_freesegs ep)" using ok by (simp add: pool_ok_def)
  note rm = addrs_remove[OF o f(3)]
  obtain ep1 where r: "extent_alloc ep s = (?p, ep1)" "pool_ok ep1" "free_addrs ep1 = free_addrs ep - {?p ..< ?p + s}"
  proof (cases "z = s")
    case True
    have "extent_alloc ep s = (?p, ef_destroy ep (?p, z))" using f(1) True by (simp add: extent_alloc_def Let_def)
    moreover have "pool_ok (ef_destroy ep (?p, z))" by (rule conjunct1[OF destroy_pool[OF ok f(3)]])
    moreover have "free_addrs (ef_destroy ep (?p, z)) = free_addrs ep - {?p ..< ?p + s}"
      unfolding True[symmetric] free_addrs_eq conjunct2[OF destroy_pool[OF ok f(3)]] rm by (rule refl)
    ultimately show thesis by (rule that)
  next
    case False
    have k: "0 \<le> s" "s < z" using s f(2) False by simp_all
    from shrink_pool[OF ok f(3) k refl] have sp: "pool_ok (snd (extent_alloc ep s))"
      "set (ep_freesegs (snd (extent_alloc ep s))) = insert (?p + s, z - s) (set (ep_freesegs ep) - {(?p, z)})"
      using f(1) False by (simp_all add: extent_alloc_def Let_def)
    have "{?p ..< ?p + z} \<subseteq> addrs (set (ep_freesegs ep))" using f(3) by (auto simp: addrs_def)
    then have "free_addrs (snd (extent_alloc ep s)) = free_addrs ep - {?p ..< ?p + s}"
      unfolding free_addrs_eq sp(2) addrs_insert rm using k by auto
    moreover have "fst (extent_alloc ep s) = ?p" using f(1) False by (simp add: extent_alloc_def Let_def)
    ultimately show thesis using sp(1) by (intro that[of "snd (extent_alloc ep s)"]) (simp_all add: prod_eq_iff)
  qed
  then show ?thesis using f(2-4) by blast
qed

text \<open>
  While a range is freed: \<open>ef\<close> is in the tree of segments with any size or none, and the index has
  the other segments.
\<close>

definition pool_open :: "extent_pool \<Rightarrow> int \<Rightarrow> seg set \<Rightarrow> bool" where
  "pool_open ep ef T \<longleftrightarrow> sorted_wrt (<) (map fst (ep_freesegs ep))
     \<and> (\<exists>z. (ef, z) \<in> set (ep_freesegs ep) \<and> set (ep_freesegs ep) - {(ef, z)} = T)
     \<and> sizes_ok (ep_sizes ep) \<and> indexed (ep_sizes ep) = T"

lemma open_new:
  assumes "pool_ok ep" "pos \<notin> fst ` set (ep_freesegs ep)"
  shows "pool_open (ep\<lparr>ep_freesegs := insort_key fst (pos, 0) (ep_freesegs ep)\<rparr>) pos (set (ep_freesegs ep))"
  using assms sorted_insort[of "ep_freesegs ep" pos 0]
  by (force simp: pool_open_def pool_ok_def segs_ok_def set_insort_key)

lemma open_prev:
  assumes "pool_ok ep" "(q, z) \<in> set (ep_freesegs ep)"
  shows "pool_open (ef_unlink ep (q, z)) q (set (ep_freesegs ep) - {(q, z)})"
  using assms unlink_pool[of ep q z] by (auto simp: pool_open_def pool_ok_def segs_ok_def)

lemma open_destroy:
  assumes "pool_open ep ef T" "(r, t) \<in> T" "r \<noteq> ef"
  shows "pool_open (ef_destroy ep (r, t)) ef (T - {(r, t)})"
proof -
  obtain z where z: "sorted_wrt (<) (map fst (ep_freesegs ep))" "(ef, z) \<in> set (ep_freesegs ep)"
    "set (ep_freesegs ep) - {(ef, z)} = T" "sizes_ok (ep_sizes ep)" "indexed (ep_sizes ep) = T"
    using assms(1) by (auto simp: pool_open_def)
  have m: "(r, t) \<in> set (ep_freesegs ep)" using assms(2) z(3) by blast
  note u = unlink_pool[OF z(4), of r t]
  have f: "ep_freesegs (ef_destroy ep (r, t)) = filter (\<lambda>x. fst x \<noteq> r) (ep_freesegs ep)"
    using u by (simp add: ef_destroy_def ef_remove_def)
  have i: "ep_sizes (ef_destroy ep (r, t)) = ep_sizes (ef_unlink ep (r, t))"
    by (simp add: ef_destroy_def ef_remove_def)
  have S: "set (ep_freesegs (ef_destroy ep (r, t))) = set (ep_freesegs ep) - {(r, t)}"
    unfolding f by (rule filter_key[OF z(1) m])
  have "sorted_wrt (<) (map fst (ep_freesegs (ef_destroy ep (r, t))))" unfolding f by (rule sorted_filter_key[OF z(1)])
  moreover have "(ef, z) \<in> set (ep_freesegs (ef_destroy ep (r, t)))" using z(2) assms(3) unfolding S by auto
  moreover have "set (ep_freesegs (ef_destroy ep (r, t))) - {(ef, z)} = T - {(r, t)}" unfolding S using z(3) by auto
  ultimately show ?thesis unfolding pool_open_def i using u z(5) by blast
qed

lemma open_close:
  assumes "pool_open ep ef T" "apart (insert (ef, s) T)" "(ef, s) \<notin> T"
  shows "pool_ok (ef_insert ep s ef) \<and> free_addrs (ef_insert ep s ef) = {ef ..< ef + s} \<union> addrs T"
proof -
  obtain z where z: "sorted_wrt (<) (map fst (ep_freesegs ep))" "(ef, z) \<in> set (ep_freesegs ep)"
    "set (ep_freesegs ep) - {(ef, z)} = T" "sizes_ok (ep_sizes ep)" "indexed (ep_sizes ep) = T"
    using assms(1) by (auto simp: pool_open_def)
  have "(ef, s) \<notin> indexed (ep_sizes ep)" using assms(3) z(5) by simp
  note i = insert_pool[OF z(4) this]
  have S: "set (ep_freesegs (ef_insert ep s ef)) = insert (ef, s) T"
    using i set_set_size[OF z(1,2), of s] z(3) by simp
  have "segs_ok (ep_freesegs (ef_insert ep s ef))"
    unfolding segs_ok_def S using sorted_set_size[OF z(1), of ef s] i assms(2) by simp
  moreover have "pool_of (ep_freesegs (ef_insert ep s ef)) (ef_insert ep s ef)"
    unfolding pool_of_def S using i z(5) by simp
  ultimately show ?thesis unfolding free_addrs_eq S addrs_insert by (simp add: pool_okI)
qed

lemma addrs_split: "(p, s) \<in> S \<Longrightarrow> addrs S = {p ..< p + s} \<union> addrs (S - {(p, s)})"
  unfolding addrs_def by blast

lemma free_ok:
  assumes ok: "pool_ok ep" and s: "0 < s" and dis: "{pos ..< pos + s} \<inter> free_addrs ep = {}"
  shows "\<exists>ep1. extent_free ep pos s = (0, Some ep1) \<and> pool_ok ep1 \<and> free_addrs ep1 = free_addrs ep \<union> {pos ..< pos + s}"
proof -
  let ?L = "ep_freesegs ep" and ?S = "set (ep_freesegs ep)"
  have srt: "sorted_wrt (<) (map fst ?L)" and ap: "apart ?S" using ok by (simp_all add: pool_ok_def segs_ok_def)
  have far: "q + t \<le> pos \<or> pos + s \<le> q" if "(q, t) \<in> ?S" for q t
  proof (rule ccontr)
    assume "\<not> ?thesis"
    then have "max q pos \<in> {q ..< q + t} \<inter> {pos ..< pos + s}" using s apart_pos[OF ap that] by auto
    then show False using dis that unfolding free_addrs_eq addrs_def by blast
  qed
  have new: "pos \<notin> fst ` ?S" using far s apart_pos[OF ap] by fastforce
  define p where "p = rb_prev ?L pos"
  define n where "n = rb_next ?L pos"
  note P = rb_prev_spec[OF srt, of pos, folded p_def] and N = rb_next_spec[OF srt, of pos, folded n_def]
  have e2: "\<not> (case p of Some (q, z) \<Rightarrow> pos < q + z | None \<Rightarrow> False)"
    using P far s by (fastforce split: option.splits)
  have e3: "\<not> (case n of Some (q, z) \<Rightarrow> q < pos + s | None \<Rightarrow> False)"
    using N far s apart_pos[OF ap] by (fastforce split: option.splits)
  text \<open>Joining with the segment before.\<close>
  obtain ep1 ef s1 T where A: "(case p of Some (q, z) \<Rightarrow>
        if q + z = pos then (ef_unlink ep (q, z), q, s + z)
        else (ep\<lparr>ep_freesegs := insort_key fst (pos, 0) ?L\<rparr>, pos, s)
      | None \<Rightarrow> (ep\<lparr>ep_freesegs := insort_key fst (pos, 0) ?L\<rparr>, pos, s)) = (ep1, ef, s1)"
    and op: "pool_open ep1 ef T" and sub: "T \<subseteq> ?S" and ef: "ef \<le> pos" "ef + s1 = pos + s"
    and lo: "\<And>q t. (q, t) \<in> T \<Longrightarrow> q < pos \<Longrightarrow> q + t < ef"
    and hi: "\<And>q t. (q, t) \<in> ?S \<Longrightarrow> pos < q \<Longrightarrow> (q, t) \<in> T"
    and ad: "addrs ?S \<union> {pos ..< pos + s} = {ef ..< ef + s1} \<union> addrs T"
  proof (cases "\<exists>q z. p = Some (q, z) \<and> q + z = pos")
    case True
    then obtain q z where q: "p = Some (q, z)" "q + z = pos" by blast
    then have m: "(q, z) \<in> ?S" "q < pos" using P by simp_all
    show thesis
    proof (rule that)
      show "pool_open (ef_unlink ep (q, z)) q (?S - {(q, z)})" by (rule open_prev[OF ok m(1)])
      show "q' + t' < q" if "(q', t') \<in> ?S - {(q, z)}" "q' < pos" for q' t'
      proof -
        have "q' \<noteq> q" using key_unique[OF srt m(1), of t'] that by auto
        moreover have "q' \<le> q" using P q(1) that by auto
        ultimately show ?thesis using apartD[OF ap _ m(1), of q' t'] that by auto
      qed
      show "addrs ?S \<union> {pos ..< pos + s} = {q ..< q + (s + z)} \<union> addrs (?S - {(q, z)})"
        unfolding addrs_split[OF m(1)] using q(2) m(2) s by auto
    qed (use q m in auto)
  next
    case False
    show thesis
    proof (rule that)
      show "pool_open (ep\<lparr>ep_freesegs := insort_key fst (pos, 0) ?L\<rparr>) pos ?S" by (rule open_new[OF ok new])
      show "q' + t' < pos" if q': "(q', t') \<in> ?S" "q' < pos" for q' t'
      proof -
        have "p \<noteq> None" using P q' by (cases p) auto
        then obtain q z where q: "p = Some (q, z)" by (cases p) auto
        then have m: "(q, z) \<in> ?S" "q < pos" "q' \<le> q" using P q' by auto
        have "q + z < pos" using far[OF m(1)] False q m(2) s by auto
        moreover have "q' < q \<Longrightarrow> q' + t' < q" using apartD[OF ap q'(1) m(1)] .
        moreover have "q' = q \<Longrightarrow> t' = z" using key_unique[OF srt m(1), of t'] q'(1) by auto
        ultimately show ?thesis using m by (cases "q' = q") auto
      qed
    qed (use False in \<open>auto split: option.splits\<close>)
  qed
  text \<open>Joining with the segment after.\<close>
  obtain ep2 s2 U where B: "(case n of Some (q, z) \<Rightarrow> if q = pos + s then (ef_destroy ep1 (q, z), s1 + z) else (ep1, s1)
      | None \<Rightarrow> (ep1, s1)) = (ep2, s2)"
    and op2: "pool_open ep2 ef U" and sub2: "U \<subseteq> T"
    and hi2: "\<And>q t. (q, t) \<in> U \<Longrightarrow> pos < q \<Longrightarrow> ef + s2 < q" and s2: "0 < s2"
    and ad2: "addrs T \<union> {ef ..< ef + s1} = {ef ..< ef + s2} \<union> addrs U"
  proof (cases "\<exists>q z. n = Some (q, z) \<and> q = pos + s")
    case True
    then obtain q z where q: "n = Some (q, z)" "q = pos + s" by blast
    then have m: "(q, z) \<in> T" "pos < q" using N hi by auto
    have z: "0 < z" using apart_pos[OF ap] m(1) sub by blast
    show thesis
    proof (rule that)
      show "pool_open (ef_destroy ep1 (q, z)) ef (T - {(q, z)})" by (rule open_destroy[OF op m(1)]) (use ef m in simp)
      show "ef + (s1 + z) < q'" if "(q', t') \<in> T - {(q, z)}" "pos < q'" for q' t'
      proof -
        have "q' \<noteq> q" using key_unique[OF srt, of q t' z] that m(1) sub by auto
        moreover have "q \<le> q'" using N q(1) that sub by auto
        moreover have "(q, z) \<in> ?S" "(q', t') \<in> ?S" using m(1) that(1) sub by blast+
        ultimately have "q + z < q'" using apartD[OF ap, of q z q' t'] by simp
        then show ?thesis using ef(2) q(2) by linarith
      qed
      show "addrs T \<union> {ef ..< ef + s1} = {ef ..< ef + (s1 + z)} \<union> addrs (T - {(q, z)})"
        unfolding addrs_split[OF m(1)] using q(2) ef s z by auto
    qed (use q ef s z in auto)
  next
    case False
    show thesis
    proof (rule that)
      show "pool_open ep1 ef T" by (rule op)
      show "ef + s1 < q'" if "(q', t') \<in> T" "pos < q'" for q' t'
      proof -
        have m': "(q', t') \<in> ?S" using that(1) sub by blast
        have "n \<noteq> None" using N that(2) m' by (cases n) auto
        then obtain q z where q: "n = Some (q, z)" by (cases n) auto
        then have m: "(q, z) \<in> ?S" "pos < q" "q \<le> q'" using N that m' by auto
        have "pos + s \<le> q" using far[OF m(1)] apart_pos[OF ap m(1)] m(2) by auto
        then show ?thesis using False q m(3) ef by auto
      qed
    qed (use False ef s in \<open>auto split: option.splits\<close>)
  qed
  have nin: "q \<noteq> pos" if "(q, t) \<in> U" for q t using new that sub sub2 by force
  have off: "q + t < ef \<or> ef + s2 < q" if "(q, t) \<in> U" for q t
    using lo[of q t] hi2[of q t] nin[OF that] that sub2 by (cases "q < pos") auto
  have "apart (insert (ef, s2) U)"
    by (rule apart_insert[OF apart_subset[OF ap] s2 off]) (use sub sub2 in auto)
  moreover have "(ef, s2) \<notin> U" using off[of ef s2] s2 by auto
  ultimately have fin: "pool_ok (ef_insert ep2 s2 ef)" "free_addrs (ef_insert ep2 s2 ef) = {ef ..< ef + s2} \<union> addrs U"
    using open_close[OF op2] by blast+
  have "extent_free ep pos s = (0, Some (ef_insert ep2 s2 ef))"
    unfolding extent_free_def Let_def p_def[symmetric] n_def[symmetric] A
    using s new e2 e3 by (simp add: B)
  moreover have "free_addrs ep \<union> {pos ..< pos + s} = {ef ..< ef + s2} \<union> addrs U"
    unfolding free_addrs_eq using ad ad2 by (metis Un_commute)
  ultimately show ?thesis using fin by auto
qed

text \<open>Freeing what is not entirely in use is refused.\<close>

lemma free_bad:
  assumes ok: "pool_ok ep" and s: "0 < s" and dis: "{pos ..< pos + s} \<inter> free_addrs ep \<noteq> {}"
  shows "extent_free ep pos s = (-1, Some ep) \<or> extent_free ep pos s = (-2, None) \<or> extent_free ep pos s = (-3, None)"
proof (cases "pos \<in> fst ` set (ep_freesegs ep)")
  case True
  then show ?thesis using s by (simp add: extent_free_def)
next
  case False
  let ?L = "ep_freesegs ep"
  have srt: "sorted_wrt (<) (map fst ?L)" and ap: "apart (set ?L)" using ok by (simp_all add: pool_ok_def segs_ok_def)
  note P = rb_prev_spec[OF srt, of pos] and N = rb_next_spec[OF srt, of pos]
  obtain q t x where q: "(q, t) \<in> set ?L" "q \<le> x" "x < q + t" "pos \<le> x" "x < pos + s"
    using dis unfolding free_addrs_eq addrs_def by auto
  have "q \<noteq> pos" using False q(1) by force
  show ?thesis
  proof (cases "q < pos")
    case True
    obtain q' z where p: "rb_prev ?L pos = Some (q', z)" using P q(1) True by (cases "rb_prev ?L pos") auto
    then have m: "(q', z) \<in> set ?L" "q' < pos" "q \<le> q'" using P q(1) True by auto
    have "q' \<le> q" using apartD[OF ap q(1) m(1)] m(2) q(3,4) by (cases "q < q'") auto
    then have "z = t" using key_unique[OF srt m(1), of t] q(1) m(3) by auto
    then have "pos < q' + z" using q(3,4) m(3) by simp
    then show ?thesis using s False p by (simp add: extent_free_def)
  next
    case ge: False
    then have "pos < q" using \<open>q \<noteq> pos\<close> by simp
    obtain q' z where n: "rb_next ?L pos = Some (q', z)" using N q(1) \<open>pos < q\<close> by (cases "rb_next ?L pos") auto
    then have "q' \<le> q" using N q(1) \<open>pos < q\<close> by auto
    then have "q' < pos + s" using q(2,5) by simp
    then show ?thesis using s False n by (simp add: extent_free_def Let_def)
  qed
qed

lemma create_ok:
  assumes "0 < s"
  shows "\<exists>ep. extent_create start s = Some ep \<and> pool_ok ep \<and> free_addrs ep = {start ..< start + s} \<and> ep_total ep = s"
proof -
  let ?e = "\<lparr>ep_freesegs = [], ep_sizes = [], ep_total = s\<rparr>"
  have "pool_ok ?e" by (simp add: pool_ok_def segs_ok_def apart_def sizes_ok_def indexed_def)
  moreover have "free_addrs ?e = {}" by (simp add: free_addrs_def)
  ultimately obtain ep1 where e: "extent_free ?e start s = (0, Some ep1)" "pool_ok ep1" "free_addrs ep1 = {start ..< start + s}"
    using free_ok[of ?e s start] assms by auto
  moreover have "ep_total ep1 = s"
    using e(1) assms by (auto simp: extent_free_def rb_prev_def rb_next_def ef_insert_def)
  ultimately show ?thesis by (simp add: extent_create_def)
qed

text \<open>The next multiple of the alignment.\<close>

lemma align_up:
  fixes x :: int and k :: nat
  defines "r \<equiv> (x + (2 ^ k - 1)) AND NOT (2 ^ k - 1)"
  shows "x \<le> r" "r < x + 2 ^ k" "r mod 2 ^ k = 0"
proof -
  let ?y = "x + (2 ^ k - 1)"
  have "?y AND (2 ^ k - 1) = ?y mod 2 ^ k"
    using take_bit_eq_mask[of k ?y] by (simp add: take_bit_eq_mod mask_eq_exp_minus_1)
  moreover have "?y - (?y AND (2 ^ k - 1)) = ?y AND NOT (?y AND (2 ^ k - 1))"
    by (rule disjunctive_diff_eq_and_not) (rule bit_eqI, simp add: bit_simps)
  moreover have "?y AND NOT (?y AND (2 ^ k - 1)) = ?y AND NOT (2 ^ k - 1)"
    by (rule bit_eqI) (auto simp: bit_simps)
  ultimately have r: "r = ?y - ?y mod 2 ^ k" unfolding r_def by simp
  have "0 \<le> ?y mod 2 ^ k" "?y mod 2 ^ k < 2 ^ k" by simp_all
  then show "x \<le> r" "r < x + 2 ^ k" unfolding r by linarith+
  show "r mod 2 ^ k = 0" unfolding r by simp
qed

lemma aligned_ok:
  assumes ok: "pool_ok ep" and s: "0 < s" and k: "0 < k"
    and f: "es_find ep (s + (2 ^ k - 1)) = Some (z, ps)" "((hd ps + (2 ^ k - 1)) AND NOT (2 ^ k - 1)) + s \<noteq> hd ps + z"
  shows "\<exists>rval ep1. extent_alloc_aligned ep s (2 ^ k) = (rval, Some ep1) \<and> rval mod 2 ^ k = 0
      \<and> {rval ..< rval + s} \<subseteq> free_addrs ep \<and> pool_ok ep1 \<and> free_addrs ep1 = free_addrs ep - {rval ..< rval + s}"
proof -
  let ?a = "2 ^ k - 1 :: int"
  define pos where "pos = hd ps"
  define rval where "rval = (pos + ?a) AND NOT ?a"
  define g where "g = rval - pos + s"
  have al: "pos \<le> rval" "rval < pos + 2 ^ k" "rval mod 2 ^ k = 0" unfolding rval_def by (rule align_up)+
  have two: "2 \<le> (2::int) ^ k" using k self_le_power[of "2::int" k] by simp
  have m: "(pos, z) \<in> set (ep_freesegs ep)" "s + ?a \<le> z"
    using es_find_spec[OF ok, of "s + ?a"] f(1) by (simp_all add: pos_def)
  have "rval + s \<noteq> pos + z" using f(2) by (simp add: rval_def pos_def)
  moreover have "rval + s \<le> pos + z" using al(2) m(2) by linarith
  ultimately have g: "0 \<le> g" "g < z" using al(1) s unfolding g_def by linarith+
  define ep1 where "ep1 = ef_insert ((ef_unlink ep (pos, z))\<lparr>ep_freesegs := set_seg_pos pos (pos + g) (ep_freesegs ep)\<rparr>) (z - g) (pos + g)"
  have o: "segs_ok (ep_freesegs ep)" using ok by (simp add: pool_ok_def)
  note sp = shrink_pool[OF ok m(1) g ep1_def]
  have sub: "{pos ..< pos + z} \<subseteq> free_addrs ep" using m(1) by (auto simp: free_addrs_def)
  have F: "free_addrs ep1 = free_addrs ep - {pos ..< pos + g}"
    unfolding free_addrs_eq conjunct2[OF sp] addrs_insert addrs_remove[OF o m(1)]
    using sub g unfolding free_addrs_eq by auto
  have fr: "\<exists>ep2. extent_free ep1 pos (rval - pos) = (0, Some ep2) \<and> pool_ok ep2 \<and> free_addrs ep2 = free_addrs ep1 \<union> {pos ..< rval}"
  proof (cases "rval = pos")
    case True
    then show ?thesis using sp by (simp add: extent_free_def)
  next
    case False
    then have "0 < rval - pos" using al(1) by simp
    moreover have "{pos ..< pos + (rval - pos)} \<inter> free_addrs ep1 = {}" unfolding F g_def using s by auto
    ultimately show ?thesis using free_ok[of ep1 "rval - pos" pos] sp by auto
  qed
  then obtain ep2 where e2: "extent_free ep1 pos (rval - pos) = (0, Some ep2)" "pool_ok ep2"
    "free_addrs ep2 = free_addrs ep1 \<union> {pos ..< rval}" by blast
  have pg: "pos + g = rval + s" by (simp add: g_def)
  have zg: "z - g = pos + z - (rval + s)" by (simp add: g_def)
  have "extent_alloc_aligned ep s (2 ^ k) = (rval, snd (extent_free ep1 pos (rval - pos)))"
    using two f(1) unfolding extent_alloc_aligned_def ep1_def pg zg
    by (simp add: Let_def pos_def[symmetric] rval_def[symmetric])
  then have "extent_alloc_aligned ep s (2 ^ k) = (rval, Some ep2)" using e2(1) by simp
  moreover have "rval + s \<le> pos + z" using g(2) pg by linarith
  then have "{pos ..< rval} \<subseteq> {pos ..< pos + z}" "{rval ..< rval + s} \<subseteq> {pos ..< pos + z}"
    using al(1) s by auto
  then have "{pos ..< rval} \<subseteq> free_addrs ep" and i: "{rval ..< rval + s} \<subseteq> free_addrs ep"
    using sub by blast+
  then have "free_addrs ep2 = free_addrs ep - {rval ..< rval + s}"
    unfolding e2(3) F pg using al(1) by auto
  moreover note i
  ultimately show ?thesis using e2(2) al(3) by (intro exI conjI)
qed

end
