(* ===== verification/Callout.thy ===== *)
theory Callout
  imports Prelude "HOL-Library.Multiset"
begin

text \<open>
  Timers (\<open>src/misc/callout.c\<close>). The state is what \<open>callout_mutex\<close> protects: the timers
  (\<open>callout_t\<close>), the list of the armed ones, and where the thread of \<open>callout_loop\<close> is. A step is
  one critical section of a caller or of the thread; between two of them anything else may run. A
  call of a lock manager made after the mutex is dropped is a step of its own, owed until then in
  \<open>owed\<close> (\<open>LOCKMGR_RETAIN\<close>) or \<open>dropped\<close> (\<open>LOCKMGR_RELEASE\<close>); \<open>refs\<close> is the number of
  references of each opaque value that the timers hold. The clock only moves forward.

  \<open>callout_update_clock_props\<close>, the clock shown in the user interface, is not modelled.
\<close>

record callout =
  c_callback :: "nat option"
  c_managed :: bool
  c_opaque :: nat
  c_deadline :: u64
  c_delta :: i64

record callout_call =
  cc_callback :: nat
  cc_opaque :: nat
  cc_deadline :: u64
  cc_time :: u64

record cst =
  co :: "nat \<Rightarrow> callout"
  co_next :: nat
  callouts :: "nat list"
  running :: "(nat \<times> bool) option"
  now :: u64
  clock :: u64
  owed :: "nat multiset"
  dropped :: "nat multiset"
  refs :: "nat \<Rightarrow> int"
  ran :: "callout_call list"

section \<open>Arming and disarming\<close>

definition calloutcmp :: "callout \<Rightarrow> callout \<Rightarrow> int" where
  "calloutcmp a b = (if c_deadline a < c_deadline b then -1 else if c_deadline b < c_deadline a then 1 else 0)"

text \<open>\<open>LIST_INSERT_SORTED\<close>: before the first element that is not smaller, or last.\<close>

fun list_insert_sorted :: "('a \<Rightarrow> 'a \<Rightarrow> int) \<Rightarrow> 'a \<Rightarrow> 'a list \<Rightarrow> 'a list" where
  "list_insert_sorted cmp x [] = [x]"
| "list_insert_sorted cmp x (y # ys) = (if cmp x y \<le> 0 then x # y # ys else y # list_insert_sorted cmp x ys)"

definition co_insert :: "nat \<Rightarrow> cst \<Rightarrow> cst" where
  "co_insert d st = st\<lparr>callouts := list_insert_sorted (\<lambda>a b. calloutcmp (co st a) (co st b)) d (callouts st)\<rparr>"

definition co_remove :: "nat \<Rightarrow> cst \<Rightarrow> cst" where
  "co_remove d st = st\<lparr>callouts := remove1 d (callouts st)\<rparr>"

text \<open>Without a timer (\<open>None\<close>) a new one is allocated, and no reference is taken.\<close>

definition callout_arm0 :: "nat option \<Rightarrow> nat \<Rightarrow> nat \<Rightarrow> i64 \<Rightarrow> bool \<Rightarrow> cst \<Rightarrow> cst" where
  "callout_arm0 d0 callback opq delta managed st0 =
     (let d = (case d0 of None \<Rightarrow> co_next st0 | Some d \<Rightarrow> d);
          (st1, retain) =
            (case d0 of
               None \<Rightarrow> (st0\<lparr>co_next := Suc (co_next st0)\<rparr>, False)
             | Some d \<Rightarrow> if c_callback (co st0 d) \<noteq> None then (co_remove d st0, False) else (st0, managed));
          st2 = st1\<lparr>co := (co st1)(d := \<lparr>c_callback = Some callback, c_managed = managed, c_opaque = opq,
                                       c_deadline = clock st1 + delta, c_delta = delta\<rparr>)\<rparr>;
          st3 = co_insert d st2
      in if retain then st3\<lparr>owed := add_mset opq (owed st3)\<rparr> else st3)"

definition callout_arm_x :: "nat option \<Rightarrow> nat \<Rightarrow> nat \<Rightarrow> i32 \<Rightarrow> cst \<Rightarrow> cst" where
  "callout_arm_x d callback opq delta st = callout_arm0 d callback opq (scast delta * 1000000) False st"

definition callout_arm_hires_x :: "nat option \<Rightarrow> nat \<Rightarrow> nat \<Rightarrow> i64 \<Rightarrow> cst \<Rightarrow> cst" where
  "callout_arm_hires_x d callback opq delta st = callout_arm0 d callback opq delta False st"

definition callout_arm_managed_x :: "nat option \<Rightarrow> nat \<Rightarrow> nat \<Rightarrow> i64 \<Rightarrow> cst \<Rightarrow> cst" where
  "callout_arm_managed_x d callback opq delta st = callout_arm0 d callback opq delta True st"

definition callout_rearm :: "nat \<Rightarrow> i64 \<Rightarrow> cst \<Rightarrow> cst" where
  "callout_rearm d delta st =
     (if c_callback (co st d) \<noteq> None then
        let c = co st d;
            st1 = st\<lparr>co := (co st)(d := c\<lparr>c_deadline := c_deadline c + (delta - c_delta c), c_delta := delta\<rparr>)\<rparr>
        in co_insert d (co_remove d st1)
      else st)"

definition callout_disarm :: "nat \<Rightarrow> cst \<Rightarrow> cst" where
  "callout_disarm d st =
     (if c_callback (co st d) \<noteq> None then
        let c = co st d;
            st1 = co_remove d st;
            st2 = st1\<lparr>co := (co st1)(d := c\<lparr>c_callback := None\<rparr>)\<rparr>
        in if c_managed c then st2\<lparr>dropped := add_mset (c_opaque c) (dropped st2)\<rparr> else st2
      else st)"

section \<open>The thread\<close>

text \<open>The inner loop: the first timer is due; it is taken off the list and its callback called.\<close>

definition callout_fire :: "cst \<Rightarrow> cst option" where
  "callout_fire st =
     (case (running st, callouts st) of
        (None, d # ds) \<Rightarrow>
          let c = co st d
          in if c_deadline c \<le> now st then
               (case c_callback c of
                  None \<Rightarrow> None
                | Some cb \<Rightarrow>
                    Some (st\<lparr>callouts := ds, co := (co st)(d := c\<lparr>c_callback := None\<rparr>),
                             running := Some (c_opaque c, c_managed c),
                             ran := ran st @ [\<lparr>cc_callback = cb, cc_opaque = c_opaque c,
                                               cc_deadline = c_deadline c, cc_time = now st\<rparr>]\<rparr>))
             else None
      | _ \<Rightarrow> None)"

text \<open>The callback has returned: the reference is dropped and the time read again.\<close>

definition callout_fired :: "cst \<Rightarrow> cst option" where
  "callout_fired st =
     (case running st of
        None \<Rightarrow> None
      | Some (opq, managed) \<Rightarrow>
          Some (st\<lparr>running := None, now := clock st,
                   refs := (if managed then (refs st)(opq := refs st opq - 1) else refs st)\<rparr>))"

text \<open>The end of a wait, which the thread enters only when nothing is due.\<close>

definition callout_waited :: "cst \<Rightarrow> cst option" where
  "callout_waited st =
     (case (running st, callouts st) of
        (None, d # ds) \<Rightarrow> if c_deadline (co st d) \<le> now st then None else Some (st\<lparr>now := clock st\<rparr>)
      | (None, []) \<Rightarrow> Some (st\<lparr>now := clock st\<rparr>)
      | _ \<Rightarrow> None)"

text \<open>How long the thread waits, in milliseconds as an \<open>int\<close>.\<close>

definition callout_timeout :: "cst \<Rightarrow> i32 option" where
  "callout_timeout st =
     (case callouts st of [] \<Rightarrow> None | d # _ \<Rightarrow> Some (ucast ((c_deadline (co st d) - now st + 999) div 1000)))"

section \<open>Steps\<close>

text \<open>A managed timer is never allocated by \<open>callout_arm0\<close>: its callers have it in a structure.\<close>

inductive co_step :: "cst \<Rightarrow> cst \<Rightarrow> bool" where
  arm: "d < co_next st \<Longrightarrow> c_callback (co st d) = None \<or> (c_managed (co st d) = managed \<and> c_opaque (co st d) = opq) \<Longrightarrow>
        co_step st (callout_arm0 (Some d) cb opq delta managed st)"
| arm_new: "co_step st (callout_arm0 None cb opq delta False st)"
| rearm: "d < co_next st \<Longrightarrow> co_step st (callout_rearm d delta st)"
| disarm: "d < co_next st \<Longrightarrow> co_step st (callout_disarm d st)"
| retain: "opq \<in># owed st \<Longrightarrow> co_step st (st\<lparr>owed := owed st - {#opq#}, refs := (refs st)(opq := refs st opq + 1)\<rparr>)"
| release: "opq \<in># dropped st \<Longrightarrow> co_step st (st\<lparr>dropped := dropped st - {#opq#}, refs := (refs st)(opq := refs st opq - 1)\<rparr>)"
| tick: "clock st \<le> t \<Longrightarrow> co_step st (st\<lparr>clock := t\<rparr>)"
| fire: "callout_fire st = Some st' \<Longrightarrow> co_step st st'"
| fired: "callout_fired st = Some st' \<Longrightarrow> co_step st st'"
| waited: "callout_waited st = Some st' \<Longrightarrow> co_step st st'"

text \<open>Any number of timers, none armed.\<close>

definition co_start :: "cst \<Rightarrow> bool" where
  "co_start st \<longleftrightarrow> callouts st = [] \<and> (\<forall>d. c_callback (co st d) = None) \<and> running st = None \<and> now st \<le> clock st
     \<and> owed st = {#} \<and> dropped st = {#} \<and> refs st = (\<lambda>_. 0) \<and> ran st = []"

inductive co_reach :: "cst \<Rightarrow> bool" where
  start: "co_start st \<Longrightarrow> co_reach st"
| step: "co_reach st \<Longrightarrow> co_step st st' \<Longrightarrow> co_reach st'"

section \<open>The invariant\<close>

definition co_sorted :: "cst \<Rightarrow> bool" where
  "co_sorted st \<longleftrightarrow> sorted (map (\<lambda>d. c_deadline (co st d)) (callouts st))"

definition co_listed :: "cst \<Rightarrow> bool" where
  "co_listed st \<longleftrightarrow> distinct (callouts st) \<and> (\<forall>d. d \<in> set (callouts st) \<longleftrightarrow> c_callback (co st d) \<noteq> None)
     \<and> (\<forall>d \<in> set (callouts st). d < co_next st)"

text \<open>The references that armed and running timers stand for.\<close>

definition held :: "cst \<Rightarrow> nat \<Rightarrow> nat" where
  "held st opq =
     length (filter (\<lambda>d. c_managed (co st d) \<and> c_opaque (co st d) = opq) (callouts st))
     + (if running st = Some (opq, True) then 1 else 0)"

definition co_counted :: "cst \<Rightarrow> bool" where
  "co_counted st \<longleftrightarrow> (\<forall>opq. refs st opq + int (count (owed st) opq) = int (held st opq) + int (count (dropped st) opq))"

definition co_timely :: "cst \<Rightarrow> bool" where
  "co_timely st \<longleftrightarrow> now st \<le> clock st \<and> (\<forall>c \<in> set (ran st). cc_deadline c \<le> cc_time c)"

definition co_inv :: "cst \<Rightarrow> bool" where
  "co_inv st \<longleftrightarrow> co_sorted st \<and> co_listed st \<and> co_counted st \<and> co_timely st"

lemma set_insert_sorted [simp]: "set (list_insert_sorted cmp x xs) = insert x (set xs)"
  by (induction xs) auto

lemma distinct_insert_sorted [simp]: "distinct (list_insert_sorted cmp x xs) \<longleftrightarrow> x \<notin> set xs \<and> distinct xs"
  by (induction xs) auto

lemma filter_insert_sorted:
  "length (filter P (list_insert_sorted cmp x xs)) = length (filter P xs) + (if P x then 1 else 0)"
  by (induction xs) auto

lemma calloutcmp_le: "calloutcmp a b \<le> 0 \<longleftrightarrow> c_deadline a \<le> c_deadline b"
  by (auto simp: calloutcmp_def)

lemma sorted_insert:
  "sorted (map (\<lambda>d. c_deadline (f d)) xs) \<Longrightarrow>
   sorted (map (\<lambda>d. c_deadline (f d)) (list_insert_sorted (\<lambda>a b. calloutcmp (f a) (f b)) x xs))"
  by (induction xs) (auto simp: calloutcmp_le)

lemma sorted_remove1: "sorted (map f xs) \<Longrightarrow> sorted (map f (remove1 x xs))"
proof (induction xs)
  case (Cons y ys)
  then show ?case using set_remove1_subset[of x ys] by (auto dest: subsetD)
qed simp

lemma map_upd_other: "d \<notin> set xs \<Longrightarrow> map (\<lambda>x. g ((f(d := y)) x)) xs = map (\<lambda>x. g (f x)) xs"
  by (induction xs) auto

lemma filter_upd_other: "d \<notin> set xs \<Longrightarrow> filter (\<lambda>x. P ((f(d := y)) x)) xs = filter (\<lambda>x. P (f x)) xs"
  by (induction xs) auto

lemma length_filter_remove1:
  "d \<in> set xs \<Longrightarrow> length (filter P (remove1 d xs)) + (if P d then 1 else 0) = length (filter P xs)"
  by (induction xs) auto

text \<open>Taking a timer off the list or putting a changed one on it.\<close>

definition armed_for :: "callout \<Rightarrow> nat \<Rightarrow> nat" where
  "armed_for c opq = (if c_managed c \<and> c_opaque c = opq then 1 else 0)"

lemma held_remove:
  assumes "co_listed st" "d \<in> set (callouts st)"
  shows "held (co_remove d st) opq + armed_for (co st d) opq = held st opq"
  using length_filter_remove1[OF assms(2), of "\<lambda>d. c_managed (co st d) \<and> c_opaque (co st d) = opq"]
  by (simp add: held_def co_remove_def armed_for_def)

lemma held_upd:
  assumes "d \<notin> set (callouts st)"
  shows "held (st\<lparr>co := (co st)(d := c)\<rparr>) opq = held st opq"
  using filter_upd_other[OF assms, of "\<lambda>c. c_managed c \<and> c_opaque c = opq" "co st" c] by (simp add: held_def)

lemma held_insert: "held (co_insert d st) opq = held st opq + armed_for (co st d) opq"
  by (simp add: held_def co_insert_def armed_for_def filter_insert_sorted)

lemma sorted_upd:
  assumes "d \<notin> set (callouts st)" "co_sorted st" shows "co_sorted (st\<lparr>co := (co st)(d := c)\<rparr>)"
proof -
  have "map (\<lambda>e. c_deadline (((co st)(d := c)) e)) (callouts st) = map (\<lambda>e. c_deadline (co st e)) (callouts st)"
    by (rule map_upd_other[OF assms(1)])
  then show ?thesis using assms(2) by (simp add: co_sorted_def del: fun_upd_apply map_eq_conv)
qed

lemma sorted_co_insert: "co_sorted st \<Longrightarrow> co_sorted (co_insert d st)"
  using sorted_insert[of "co st" "callouts st" d] by (simp add: co_sorted_def co_insert_def)

lemma sorted_co_remove: "co_sorted st \<Longrightarrow> co_sorted (co_remove d st)"
  using sorted_remove1[of "\<lambda>d. c_deadline (co st d)" "callouts st" d] by (simp add: co_sorted_def co_remove_def)

text \<open>Off the list, changed, and on it again: the core of \<open>callout_arm0\<close> and \<open>callout_rearm\<close>.\<close>

lemma reinsert:
  assumes "distinct (callouts st)" "d \<notin> set (callouts st)" "co_sorted st" "d < co_next st"
    "\<forall>e. e \<noteq> d \<longrightarrow> (e \<in> set (callouts st) \<longleftrightarrow> c_callback (co st e) \<noteq> None)" "\<forall>e \<in> set (callouts st). e < co_next st"
    "c_callback c \<noteq> None"
  shows "co_sorted (co_insert d (st\<lparr>co := (co st)(d := c)\<rparr>)) \<and> co_listed (co_insert d (st\<lparr>co := (co st)(d := c)\<rparr>))
    \<and> (\<forall>opq. held (co_insert d (st\<lparr>co := (co st)(d := c)\<rparr>)) opq = held st opq + armed_for c opq)"
proof -
  have "co_listed (co_insert d (st\<lparr>co := (co st)(d := c)\<rparr>))"
    using assms by (auto simp: co_listed_def co_insert_def)
  moreover have "co_sorted (co_insert d (st\<lparr>co := (co st)(d := c)\<rparr>))"
    by (rule sorted_co_insert[OF sorted_upd[OF assms(2,3)]])
  moreover have "held (co_insert d (st\<lparr>co := (co st)(d := c)\<rparr>)) opq = held st opq + armed_for c opq" for opq
    unfolding held_insert held_upd[OF assms(2)] by simp
  ultimately show ?thesis by blast
qed

lemma arm0_inv:
  assumes inv: "co_inv st" and d: "case d0 of None \<Rightarrow> \<not> managed
      | Some d \<Rightarrow> d < co_next st \<and> (c_callback (co st d) = None \<or> (c_managed (co st d) = managed \<and> c_opaque (co st d) = opq))"
  shows "co_inv (callout_arm0 d0 cb opq delta managed st)"
proof -
  define e where "e = (case d0 of None \<Rightarrow> co_next st | Some d \<Rightarrow> d)"
  define armed where "armed \<longleftrightarrow> d0 \<noteq> None \<and> c_callback (co st e) \<noteq> None"
  define st1 where "st1 = (if d0 = None then st\<lparr>co_next := Suc (co_next st)\<rparr> else if armed then co_remove e st else st)"
  define c where "c = \<lparr>c_callback = Some cb, c_managed = managed, c_opaque = opq, c_deadline = clock st1 + delta, c_delta = delta\<rparr>"
  define st3 where "st3 = co_insert e (st1\<lparr>co := (co st1)(e := c)\<rparr>)"
  have arm: "callout_arm0 d0 cb opq delta managed st
      = (if d0 \<noteq> None \<and> \<not> armed \<and> managed then st3\<lparr>owed := add_mset opq (owed st3)\<rparr> else st3)"
    by (cases d0; cases armed) (simp_all add: callout_arm0_def Let_def st3_def c_def st1_def armed_def e_def)
  have L: "co_listed st" and S: "co_sorted st" and C: "co_counted st" and T: "co_timely st" using inv by (simp_all add: co_inv_def)
  have e1: "e < co_next st1" using d by (auto simp: e_def st1_def co_remove_def split: option.splits)
  have notin: "e \<notin> set (callouts st1)"
    using L by (auto simp: st1_def armed_def e_def co_listed_def co_remove_def split: option.splits)
  have same: "co st1 = co st" "owed st1 = owed st" "dropped st1 = dropped st" "refs st1 = refs st" "running st1 = running st"
    "now st1 = now st" "clock st1 = clock st" "ran st1 = ran st" by (simp_all add: st1_def co_remove_def)
  have h1: "held st1 opq' + (if armed then armed_for (co st e) opq' else 0) = held st opq'" for opq'
    using held_remove[OF L, of e opq'] L by (auto simp: st1_def armed_def co_listed_def) (simp_all add: held_def)
  have "co_sorted st3 \<and> co_listed st3 \<and> (\<forall>opq'. held st3 opq' = held st1 opq' + armed_for c opq')"
    unfolding st3_def
  proof (rule reinsert[OF _ notin _ e1])
    show "distinct (callouts st1)" "\<forall>x \<in> set (callouts st1). x < co_next st1"
      using L by (auto simp: st1_def co_listed_def co_remove_def less_SucI dest: notin_set_remove1 set_remove1_subset[THEN subsetD])
    show "co_sorted st1" using S sorted_co_remove[OF S, of e] by (simp add: st1_def co_sorted_def)
    show "\<forall>x. x \<noteq> e \<longrightarrow> (x \<in> set (callouts st1) \<longleftrightarrow> c_callback (co st1 x) \<noteq> None)"
      using L by (auto simp: st1_def co_listed_def co_remove_def)
    show "c_callback c \<noteq> None" by (simp add: c_def)
  qed
  then have r: "co_sorted st3" "co_listed st3" "\<And>o'. held st3 o' = held st1 o' + armed_for c o'" by blast+
  have f3: "owed st3 = owed st" "dropped st3 = dropped st" "refs st3 = refs st" "now st3 = now st" "clock st3 = clock st" "ran st3 = ran st"
    using same by (simp_all add: st3_def co_insert_def)
  have ac: "armed \<Longrightarrow> armed_for (co st e) o' = armed_for c o'" for o'
    using d by (auto simp: armed_def e_def c_def armed_for_def split: option.splits)
  have "refs st3 o' + int (count (owed (callout_arm0 d0 cb opq delta managed st)) o') = int (held st3 o') + int (count (dropped st3) o')" for o'
  proof -
    have base: "refs st o' + int (count (owed st) o') = int (held st o') + int (count (dropped st) o')"
      using C by (simp add: co_counted_def)
    show ?thesis
    proof (cases armed)
      case True
      then show ?thesis using base h1[of o'] r(3)[of o'] ac[OF True, of o'] by (simp add: arm f3)
    next
      case False
      then show ?thesis using base h1[of o'] r(3)[of o'] d
        by (auto simp: arm f3 c_def armed_for_def split: option.splits)
    qed
  qed
  moreover have "refs (callout_arm0 d0 cb opq delta managed st) = refs st3"
    "dropped (callout_arm0 d0 cb opq delta managed st) = dropped st3"
    "held (callout_arm0 d0 cb opq delta managed st) = held st3"
    by (simp_all add: arm held_def[abs_def])
  ultimately have "co_counted (callout_arm0 d0 cb opq delta managed st)"
    unfolding co_counted_def by simp
  then show ?thesis
    using r(1,2) T f3 by (auto simp: co_inv_def arm co_sorted_def co_listed_def co_timely_def)
qed

lemma counted_cong:
  assumes "co_counted st" "refs st' = refs st" "owed st' = owed st"
    "\<And>opq. held st' opq + count (dropped st') opq = held st opq + count (dropped st) opq"
  shows "co_counted st'"
  unfolding co_counted_def
proof
  fix opq
  have "int (held st' opq) + int (count (dropped st') opq) = int (held st opq) + int (count (dropped st) opq)"
    using assms(4)[of opq] by (simp flip: of_nat_add)
  then show "refs st' opq + int (count (owed st') opq) = int (held st' opq) + int (count (dropped st') opq)"
    using assms(1-3) by (simp add: co_counted_def)
qed

lemma rearm_inv:
  assumes inv: "co_inv st" shows "co_inv (callout_rearm d delta st)"
proof (cases "c_callback (co st d) = None")
  case True
  then show ?thesis using inv by (simp add: callout_rearm_def)
next
  case False
  let ?c = "(co st d)\<lparr>c_deadline := c_deadline (co st d) + (delta - c_delta (co st d)), c_delta := delta\<rparr>"
  let ?r = "co_remove d st"
  have L: "co_listed st" and S: "co_sorted st" and C: "co_counted st" and T: "co_timely st" using inv by (simp_all add: co_inv_def)
  have d: "d \<in> set (callouts st)" "d < co_next st" "distinct (callouts st)" using L False by (auto simp: co_listed_def)
  have "co_remove d (st\<lparr>co := f\<rparr>) = ?r\<lparr>co := f\<rparr>" for f by (cases st) (simp add: co_remove_def)
  then have e: "callout_rearm d delta st = co_insert d (?r\<lparr>co := (co ?r)(d := ?c)\<rparr>)"
    using False by (simp add: callout_rearm_def Let_def) (simp add: co_remove_def)
  have r: "co_sorted (callout_rearm d delta st) \<and> co_listed (callout_rearm d delta st)
      \<and> (\<forall>opq. held (callout_rearm d delta st) opq = held ?r opq + armed_for ?c opq)"
    unfolding e by (rule reinsert) (use L S d False sorted_co_remove[OF S, of d] in
      \<open>auto simp: co_remove_def co_listed_def dest: set_remove1_subset[THEN subsetD]\<close>)
  have h: "held (callout_rearm d delta st) opq = held st opq" for opq
    using r held_remove[OF L d(1), of opq] by (simp add: armed_for_def)
  have f: "refs (callout_rearm d delta st) = refs st" "owed (callout_rearm d delta st) = owed st"
    "dropped (callout_rearm d delta st) = dropped st" "now (callout_rearm d delta st) = now st"
    "clock (callout_rearm d delta st) = clock st" "ran (callout_rearm d delta st) = ran st"
    by (simp_all add: e co_insert_def co_remove_def)
  have "co_counted (callout_rearm d delta st)" by (rule counted_cong[OF C]) (simp_all add: f h)
  then show ?thesis using r T f by (simp add: co_inv_def co_timely_def)
qed

lemma off_listed:
  assumes "co_listed st" "d \<in> set (callouts st)" "c_callback c = None"
  shows "co_listed ((co_remove d st)\<lparr>co := (co st)(d := c)\<rparr>)"
  using assms by (auto simp: co_listed_def co_remove_def dest: notin_set_remove1 set_remove1_subset[THEN subsetD])

lemma off_sorted:
  assumes "co_sorted st" "distinct (callouts st)" shows "co_sorted ((co_remove d st)\<lparr>co := (co st)(d := c)\<rparr>)"
  using sorted_upd[of d "co_remove d st" c] sorted_co_remove[OF assms(1), of d] assms(2) by (simp add: co_remove_def)

lemma off_held:
  assumes "co_listed st" "d \<in> set (callouts st)"
  shows "held ((co_remove d st)\<lparr>co := (co st)(d := c)\<rparr>) opq + armed_for (co st d) opq = held st opq"
  using held_upd[of d "co_remove d st" c opq] held_remove[OF assms, of opq] assms by (simp add: co_remove_def co_listed_def)

lemma disarm_inv:
  assumes inv: "co_inv st" shows "co_inv (callout_disarm d st)"
proof (cases "c_callback (co st d) = None")
  case True
  then show ?thesis using inv by (simp add: callout_disarm_def)
next
  case False
  have L: "co_listed st" and S: "co_sorted st" and C: "co_counted st" and T: "co_timely st" using inv by (simp_all add: co_inv_def)
  have d: "d \<in> set (callouts st)" "distinct (callouts st)" using L False by (auto simp: co_listed_def)
  let ?c = "(co st d)\<lparr>c_callback := None\<rparr>"
  let ?s = "(co_remove d st)\<lparr>co := (co st)(d := ?c)\<rparr>"
  have e: "callout_disarm d st = (if c_managed (co st d) then ?s\<lparr>dropped := add_mset (c_opaque (co st d)) (dropped st)\<rparr> else ?s)"
    using False by (simp add: callout_disarm_def Let_def co_remove_def)
  have "co_listed ?s" "co_sorted ?s" using off_listed[OF L d(1), of ?c] off_sorted[OF S d(2), of d ?c] by simp_all
  moreover have "co_counted (callout_disarm d st)"
  proof (rule counted_cong[OF C])
    fix opq
    have "held (callout_disarm d st) = held ?s" by (simp add: e held_def[abs_def])
    then show "held (callout_disarm d st) opq + count (dropped (callout_disarm d st)) opq = held st opq + count (dropped st) opq"
      using off_held[OF L d(1), of ?c opq] by (auto simp: e armed_for_def co_remove_def)
  qed (simp_all add: e co_remove_def)
  ultimately show ?thesis using T
    by (simp add: co_inv_def e co_sorted_def co_listed_def co_timely_def co_remove_def)
qed

lemma fire_inv:
  assumes inv: "co_inv st" and f: "callout_fire st = Some st'" shows "co_inv st'"
proof -
  have L: "co_listed st" and S: "co_sorted st" and C: "co_counted st" and T: "co_timely st" using inv by (simp_all add: co_inv_def)
  from f obtain d ds cb where c: "running st = None" "callouts st = d # ds" "c_deadline (co st d) \<le> now st"
    "c_callback (co st d) = Some cb"
    by (auto simp: callout_fire_def Let_def split: option.splits list.splits if_splits)
  let ?c = "(co st d)\<lparr>c_callback := None\<rparr>"
  let ?s = "(co_remove d st)\<lparr>co := (co st)(d := ?c)\<rparr>"
  let ?l = "\<lparr>cc_callback = cb, cc_opaque = c_opaque (co st d), cc_deadline = c_deadline (co st d), cc_time = now st\<rparr>"
  have e: "st' = ?s\<lparr>running := Some (c_opaque (co st d), c_managed (co st d)), ran := ran st @ [?l]\<rparr>"
    using f c by (simp add: callout_fire_def Let_def co_remove_def)
  have d: "d \<in> set (callouts st)" "distinct (callouts st)" using c L by (simp_all add: co_listed_def)
  have "co_listed ?s" "co_sorted ?s" using off_listed[OF L d(1), of ?c] off_sorted[OF S d(2), of d ?c] by simp_all
  moreover have "co_counted st'"
  proof (rule counted_cong[OF C])
    fix opq
    have "held st' opq = held ?s opq + armed_for (co st d) opq" using c(1) by (simp add: e held_def armed_for_def co_remove_def)
    then show "held st' opq + count (dropped st') opq = held st opq + count (dropped st) opq"
      using off_held[OF L d(1), of ?c opq] by (simp add: e co_remove_def)
  qed (simp_all add: e co_remove_def)
  ultimately show ?thesis using T c(3)
    by (simp add: co_inv_def e co_sorted_def co_listed_def co_timely_def co_remove_def)
qed

lemma fired_inv:
  assumes inv: "co_inv st" and f: "callout_fired st = Some st'" shows "co_inv st'"
proof -
  from f obtain o0 m where r: "running st = Some (o0, m)"
    "st' = st\<lparr>running := None, now := clock st, refs := (if m then (refs st)(o0 := refs st o0 - 1) else refs st)\<rparr>"
    by (auto simp: callout_fired_def split: option.splits)
  have C: "refs st opq + int (count (owed st) opq) = int (held st opq) + int (count (dropped st) opq)" for opq
    using inv by (simp add: co_inv_def co_counted_def)
  have "co_counted st'"
    unfolding co_counted_def
  proof
    fix opq
    have "held st opq = held st' opq + (if m \<and> o0 = opq then 1 else 0)" using r by (auto simp: held_def)
    then show "refs st' opq + int (count (owed st') opq) = int (held st' opq) + int (count (dropped st') opq)"
      using C[of opq] r by auto
  qed
  then show ?thesis using inv r by (simp add: co_inv_def co_sorted_def co_listed_def co_timely_def)
qed

lemma step_inv: "co_step st st' \<Longrightarrow> co_inv st \<Longrightarrow> co_inv st'"
proof (induction rule: co_step.induct)
  case (arm d st managed opq cb delta)
  then show ?case by (intro arm0_inv) auto
next
  case (arm_new st cb opq delta)
  then show ?case by (intro arm0_inv) auto
next
  case (retain opq st)
  have "count (owed st) opq > 0" using retain(1) by simp
  then show ?case using retain(2)
    by (auto simp: co_inv_def co_sorted_def co_listed_def co_timely_def co_counted_def held_def of_nat_diff)
next
  case (release opq st)
  have "count (dropped st) opq > 0" using release(1) by simp
  then show ?case using release(2)
    by (auto simp: co_inv_def co_sorted_def co_listed_def co_timely_def co_counted_def held_def of_nat_diff)
next
  case (tick st t)
  then have "now st \<le> t" by (auto simp: co_inv_def co_timely_def)
  then show ?case using tick(2) by (simp add: co_inv_def co_sorted_def co_listed_def co_timely_def co_counted_def held_def)
next
  case (waited st st')
  then have "st' = st\<lparr>now := clock st\<rparr>" by (auto simp: callout_waited_def split: option.splits list.splits if_splits)
  then show ?case using waited(2) by (simp add: co_inv_def co_sorted_def co_listed_def co_timely_def co_counted_def held_def)
next
  case (rearm d st delta)
  show ?case by (rule rearm_inv[OF rearm(2)])
next
  case (disarm d st)
  show ?case by (rule disarm_inv[OF disarm(2)])
next
  case (fire st st')
  show ?case by (rule fire_inv[OF fire(2,1)])
next
  case (fired st st')
  show ?case by (rule fired_inv[OF fired(2,1)])
qed

lemma co_reach_inv: "co_reach st \<Longrightarrow> co_inv st"
proof (induction rule: co_reach.induct)
  case (start st)
  then show ?case by (simp add: co_start_def co_inv_def co_sorted_def co_listed_def co_counted_def co_timely_def held_def)
next
  case (step st st')
  then show ?case by (blast intro: step_inv)
qed

end
