(* ===== verification/Bencode.thy ===== *)
theory Bencode
  imports Json
begin

text \<open>
  The encoding of torrents (\<open>src/backend/bittorrent/bencode.c\<close>), read into and written from
  messages. The text from a pointer up to \<open>stop\<close> is a list; a result \<open>None\<close> for the pointer is
  \<open>stop + 1\<close>, where the code can end up. Errors: \<open>B_fail\<close> with a message and the length of the text
  from the place of the error on, \<open>B_silent\<close> for the return that sets no message, \<open>B_overrun\<close> for
  reading at or past \<open>stop\<close>, \<open>B_undef\<close> for signed overflow, \<open>B_abort\<close> for a failed assertion and
  \<open>B_fuel\<close>, which does not occur (\<open>bencode_no_fuel\<close>). Plain \<open>char\<close> is signed. The callback that is
  told of the elements of the outermost map only observes and is left out.
\<close>

datatype berr = B_fail string int | B_silent | B_overrun | B_undef | B_abort | B_fuel

section \<open>Reading\<close>

text \<open>\<open>Inr None\<close> is \<open>NOT_THIS_TYPE\<close>.\<close>

fun ben_len :: "int \<Rightarrow> string \<Rightarrow> berr + (int \<times> string) option" where
  "ben_len n [] = Inl (B_fail ''Unexpected end of BENCODE message'' 0)"
| "ben_len n (c # s) =
     (if c = CHR '':'' then Inr (Some (n, s))
      else if \<not> is_digit c then Inr None
      else if 2 ^ 31 \<le> n * 10 + byte c then Inl B_undef
      else ben_len (n * 10 + byte c - 48) s)"

definition bencode_parse_binary :: "string \<Rightarrow> berr + (string \<times> string) option" where
  "bencode_parse_binary s =
     (case ben_len 0 s of
        Inl e \<Rightarrow> Inl e
      | Inr None \<Rightarrow> Inr None
      | Inr (Some (n, t)) \<Rightarrow>
          if int (length t) \<le> n then Inl (B_fail ''Excessive binary length'' (int (length t)))
          else Inr (Some (take (nat n) t, drop (nat n) t)))"

definition bencode_parse_string :: "string \<Rightarrow> berr + (string \<times> string) option" where
  "bencode_parse_string s =
     (case bencode_parse_binary s of
        Inr (Some (x, t)) \<Rightarrow>
          if chr 0 \<in> set x
          then Inl (B_fail ''Unexpected NUL byte'' (int (length s) - int (length (takeWhile (\<lambda>c. c \<noteq> chr 0) x))))
          else Inr (Some (x, t))
      | r \<Rightarrow> r)"

definition int64_ok :: "int \<Rightarrow> bool" where
  "int64_ok v \<longleftrightarrow> - (2 ^ 63) \<le> v \<and> v < 2 ^ 63"

fun ben_int :: "int \<Rightarrow> string \<Rightarrow> (int \<times> string) option" where
  "ben_int v [] = Some (v, [])"
| "ben_int v (c # s) =
     (if c = CHR ''e'' then Some (v, s)
      else if int64_ok (v * 10) \<and> int64_ok (v * 10 + signed_char c) \<and> int64_ok (v * 10 + signed_char c - 48)
      then ben_int (v * 10 + signed_char c - 48) s
      else None)"

definition bencode_parse_integer :: "string \<Rightarrow> (int \<times> string) option" where
  "bencode_parse_integer s =
     (let neg = (take 1 s = ''-'')
      in case ben_int 0 (if neg then tl s else s) of
           None \<Rightarrow> None
         | Some (v, t) \<Rightarrow> if neg \<and> v = - (2 ^ 63) then None else Some (if neg then - v else v, t))"

definition clean_str :: "string \<Rightarrow> bool" where
  "clean_str s \<longleftrightarrow> (\<forall>c \<in> set s. 0x20 \<le> signed_char c)"

definition b_added :: "htsmsg option \<Rightarrow> string option \<Rightarrow> berr + htsmsg \<times> string option" where
  "b_added r s = (case r of None \<Rightarrow> Inl B_abort | Some p \<Rightarrow> Inr (p, s))"

text \<open>A map or list after its first letter: the code takes the end of the text for an \<open>e\<close>.\<close>

definition ben_seq :: "(string \<Rightarrow> htsmsg \<Rightarrow> berr + htsmsg \<times> string option) \<Rightarrow> htsmsg \<Rightarrow> string \<Rightarrow> berr + htsmsg \<times> string option" where
  "ben_seq loop new t =
     (case t of [] \<Rightarrow> Inr (new, None)
      | c # u \<Rightarrow> if c = CHR ''e'' then Inr (new, Some u) else loop t new)"

definition bencode_parse_map ::
  "(string \<Rightarrow> htsmsg \<Rightarrow> berr + htsmsg \<times> string option) \<Rightarrow> string \<Rightarrow> berr + (htsmsg \<times> string option) option" where
  "bencode_parse_map loop s =
     (if take 1 s \<noteq> ''d'' then Inr None
      else case ben_seq loop htsmsg_create_map (tl s) of Inl e \<Rightarrow> Inl e | Inr x \<Rightarrow> Inr (Some x))"

definition bencode_parse_list ::
  "(string \<Rightarrow> htsmsg \<Rightarrow> berr + htsmsg \<times> string option) \<Rightarrow> string \<Rightarrow> berr + (htsmsg \<times> string option) option" where
  "bencode_parse_list loop s =
     (if take 1 s \<noteq> ''l'' then Inr None
      else case ben_seq loop htsmsg_create_list (tl s) of Inl e \<Rightarrow> Inl e | Inr x \<Rightarrow> Inr (Some x))"

definition ben_scalar :: "string \<Rightarrow> htsmsg \<Rightarrow> string option \<Rightarrow> berr + htsmsg \<times> string option" where
  "ben_scalar s parent name =
     (if take 1 s = ''i'' then
        (case bencode_parse_integer (tl s) of
           None \<Rightarrow> Inl B_undef
         | Some (v, t) \<Rightarrow> b_added (htsmsg_add_s64 parent name (word_of_int v)) (Some t))
      else case bencode_parse_binary s of
             Inl e \<Rightarrow> Inl e
           | Inr None \<Rightarrow> Inl (B_fail ''Unknown token'' (int (length s)))
           | Inr (Some (x, t)) \<Rightarrow>
               b_added (if clean_str x then htsmsg_add_str parent name x else htsmsg_add_bin parent name x) (Some t))"

fun bencode_parse_value :: "nat \<Rightarrow> string \<Rightarrow> htsmsg \<Rightarrow> string option \<Rightarrow> berr + htsmsg \<times> string option"
and ben_map_loop :: "nat \<Rightarrow> string \<Rightarrow> htsmsg \<Rightarrow> berr + htsmsg \<times> string option"
and ben_list_loop :: "nat \<Rightarrow> string \<Rightarrow> htsmsg \<Rightarrow> berr + htsmsg \<times> string option" where
  "bencode_parse_value 0 s parent name = Inl B_fuel"
| "bencode_parse_value (Suc k) s parent name =
     (if s = [] then Inl B_silent
      else case bencode_parse_map (\<lambda>t r. ben_map_loop k t r) s of
             Inl e \<Rightarrow> Inl e
           | Inr (Some (c, t)) \<Rightarrow> b_added (htsmsg_add_msg parent name c) t
           | Inr None \<Rightarrow>
               (case bencode_parse_list (\<lambda>t r. ben_list_loop k t r) s of
                  Inl e \<Rightarrow> Inl e
                | Inr (Some (c, t)) \<Rightarrow> b_added (htsmsg_add_msg parent name c) t
                | Inr None \<Rightarrow> ben_scalar s parent name))"
| "ben_map_loop 0 s r = Inl B_fuel"
| "ben_map_loop (Suc k) s r =
     (case bencode_parse_string s of
        Inl e \<Rightarrow> Inl e
      | Inr None \<Rightarrow> Inl (B_fail ''Expected string'' (int (length s)))
      | Inr (Some (name, s2)) \<Rightarrow>
          (case bencode_parse_value k s2 r (Some name) of
             Inl e \<Rightarrow> Inl e
           | Inr (r1, None) \<Rightarrow> Inl B_overrun
           | Inr (r1, Some s3) \<Rightarrow>
               (case s3 of [] \<Rightarrow> Inl B_overrun
                | c # t \<Rightarrow> if c = CHR ''e'' then Inr (r1, Some t) else ben_map_loop k s3 r1)))"
| "ben_list_loop 0 s r = Inl B_fuel"
| "ben_list_loop (Suc k) s r =
     (case bencode_parse_value k s r None of
        Inl e \<Rightarrow> Inl e
      | Inr (r1, None) \<Rightarrow> Inl B_overrun
      | Inr (r1, Some s3) \<Rightarrow>
          (case s3 of [] \<Rightarrow> Inl B_overrun
           | c # t \<Rightarrow> if c = CHR ''e'' then Inr (r1, Some t) else ben_list_loop k s3 r1))"

text \<open>The result is the message and how far the text was read (\<open>*remainp\<close>).\<close>

definition ben_result :: "string \<Rightarrow> htsmsg \<times> string option \<Rightarrow> berr + htsmsg \<times> int" where
  "ben_result src x =
     (case x of (m, t) \<Rightarrow> Inr (m, (case t of None \<Rightarrow> int (length src) + 1 | Some u \<Rightarrow> int (length src) - int (length u))))"

definition bencode_deserialize :: "string \<Rightarrow> berr + htsmsg \<times> int" where
  "bencode_deserialize src =
     (let k = 2 * length src + 3
      in if src = [] then Inl (B_fail ''zero size bencode'' 0)
         else case bencode_parse_map (ben_map_loop k) src of
                Inl e \<Rightarrow> Inl e
              | Inr (Some x) \<Rightarrow> ben_result src x
              | Inr None \<Rightarrow>
                  (case bencode_parse_list (ben_list_loop k) src of
                     Inl e \<Rightarrow> Inl e
                   | Inr (Some x) \<Rightarrow> ben_result src x
                   | Inr None \<Rightarrow> Inl (B_fail ''Invalid BENCODE'' (int (length src)))))"

section \<open>Writing\<close>

text \<open>\<open>None\<close> is a null name in a map, or a double (its conversion to an integer is not modelled).\<close>

definition serialize_bytes :: "string \<Rightarrow> string" where
  "serialize_bytes d = nat_dec (length d) @ CHR '':'' # d"

fun bencode_fields :: "bool \<Rightarrow> hfield list \<Rightarrow> string option"
and bencode_serialize_r :: "hval \<Rightarrow> string option" where
  "bencode_fields l [] = Some []"
| "bencode_fields l ((n, v) # fs) =
     (case (if l then Some [] else map_option serialize_bytes n, bencode_serialize_r v, bencode_fields l fs) of
        (Some a, Some b, Some c) \<Rightarrow> Some (a @ b @ c)
      | _ \<Rightarrow> None)"
| "bencode_serialize_r (HMF_MAP fs) = map_option (\<lambda>x. ''d'' @ x @ ''e'') (bencode_fields False fs)"
| "bencode_serialize_r (HMF_LIST fs) = map_option (\<lambda>x. ''l'' @ x @ ''e'') (bencode_fields True fs)"
| "bencode_serialize_r (HMF_STR s) = Some (serialize_bytes s)"
| "bencode_serialize_r (HMF_BIN b) = Some (serialize_bytes b)"
| "bencode_serialize_r (HMF_S64 i) = Some (''i'' @ int_dec (sint i) @ ''e'')"
| "bencode_serialize_r (HMF_DBL d) = None"

definition bencode_serialize :: "htsmsg \<Rightarrow> string option" where
  "bencode_serialize m = bencode_serialize_r (sub_val m)"

section \<open>The reader moves forward\<close>

lemma ben_len_shorter: "ben_len n s = Inr (Some (v, t)) \<Longrightarrow> length t < length s"
  by (induction n s rule: ben_len.induct) (auto split: if_splits)

lemma ben_parse_binary_shorter: "bencode_parse_binary s = Inr (Some (x, t)) \<Longrightarrow> length t < length s"
  by (auto simp: bencode_parse_binary_def dest!: ben_len_shorter split: sum.splits option.splits if_splits)

lemma ben_parse_string_shorter: "bencode_parse_string s = Inr (Some (x, t)) \<Longrightarrow> length t < length s"
  by (auto simp: bencode_parse_string_def dest!: ben_parse_binary_shorter split: sum.splits option.splits if_splits)

lemma ben_int_shorter: "ben_int v s = Some (w, t) \<Longrightarrow> length t \<le> length s"
  by (induction v s rule: ben_int.induct) (auto simp: Let_def split: if_splits)

lemma ben_parse_integer_shorter: "bencode_parse_integer s = Some (w, t) \<Longrightarrow> length t \<le> length s"
  by (cases s) (auto simp: bencode_parse_integer_def Let_def dest!: ben_int_shorter split: option.splits if_splits)

lemma b_added_Inr: "b_added r t = Inr (p, u) \<longleftrightarrow> r = Some p \<and> u = t"
  by (auto simp: b_added_def split: option.splits)

lemma b_added_Inl: "b_added r t = Inl e \<longleftrightarrow> r = None \<and> e = B_abort"
  by (auto simp: b_added_def split: option.splits)

lemma ben_scalar_shorter:
  assumes "ben_scalar s p nm = Inr (r, Some t)" shows "length t < length s"
  using assms
  by (cases s) (auto simp: ben_scalar_def b_added_Inr split: if_splits option.splits sum.splits
      dest!: ben_parse_binary_shorter ben_parse_integer_shorter)

lemma ben_seq_shorter:
  assumes "ben_seq loop new t = Inr (r, Some u)" "\<And>x. loop t x = Inr (r, Some u) \<Longrightarrow> length u < length t"
  shows "length u < length t"
  using assms by (cases t) (auto simp: ben_seq_def split: if_splits)

lemma ben_take1_tl: "take 1 s = [c] \<Longrightarrow> length (tl s) < length s"
  by (cases s) auto

lemma ben_parse_value_cases:
  assumes "bencode_parse_value (Suc k) s p nm = res"
  obtains (silent) "s = []" "res = Inl B_silent"
  | (map) "take 1 s = ''d''" "res = (case ben_seq (ben_map_loop k) htsmsg_create_map (tl s) of
        Inl e \<Rightarrow> Inl e | Inr (c, t) \<Rightarrow> b_added (htsmsg_add_msg p nm c) t)"
  | (list) "take 1 s = ''l''" "res = (case ben_seq (ben_list_loop k) htsmsg_create_list (tl s) of
        Inl e \<Rightarrow> Inl e | Inr (c, t) \<Rightarrow> b_added (htsmsg_add_msg p nm c) t)"
  | (scalar) "s \<noteq> []" "take 1 s \<noteq> ''d''" "take 1 s \<noteq> ''l''" "res = ben_scalar s p nm"
proof (cases "s = []")
  case False
  consider "take 1 s = ''d''" | "take 1 s = ''l''" | "take 1 s \<noteq> ''d''" "take 1 s \<noteq> ''l''" by blast
  then show thesis
  proof cases
    case 1
    then show thesis using assms False
      by (intro map) (auto simp: bencode_parse_map_def split: sum.splits)
  next
    case 2
    then show thesis using assms False
      by (intro list) (auto simp: bencode_parse_map_def bencode_parse_list_def split: sum.splits)
  next
    case 3
    then show thesis using assms False
      by (intro scalar) (simp_all add: bencode_parse_map_def bencode_parse_list_def)
  qed
qed (use assms silent in simp)

lemma ben_value_shorter:
  "bencode_parse_value k s p nm = Inr (r, Some t) \<Longrightarrow> length t < length s"
  "ben_map_loop k s p = Inr (r, Some t) \<Longrightarrow> length t < length s"
  "ben_list_loop k s p = Inr (r, Some t) \<Longrightarrow> length t < length s"
proof (induction k arbitrary: s p nm r t)
  case (Suc k)
  {
    case 1
    then show ?case
    proof (cases rule: ben_parse_value_cases)
      case map
      from map(2) obtain c where "ben_seq (ben_map_loop k) htsmsg_create_map (tl s) = Inr (c, Some t)"
        by (auto simp: b_added_def split: sum.splits option.splits)
      then have "length t < length (tl s)" by (rule ben_seq_shorter) (rule Suc(2))
      with ben_take1_tl[OF map(1)] show ?thesis by simp
    next
      case list
      from list(2) obtain c where "ben_seq (ben_list_loop k) htsmsg_create_list (tl s) = Inr (c, Some t)"
        by (auto simp: b_added_def split: sum.splits option.splits)
      then have "length t < length (tl s)" by (rule ben_seq_shorter) (rule Suc(3))
      with ben_take1_tl[OF list(1)] show ?thesis by simp
    next
      case scalar
      then show ?thesis using ben_scalar_shorter[of s p nm r t] by simp
    qed simp
  next
    case 2
    then obtain nm s2 r1 s3 where a: "bencode_parse_string s = Inr (Some (nm, s2))"
      "bencode_parse_value k s2 p (Some nm) = Inr (r1, Some s3)"
      by (auto split: sum.splits option.splits)
    with 2 obtain c u where c: "s3 = c # u" by (auto split: list.splits)
    have "length t < length s3" using 2 a c Suc(2)[of s3 r1 r t] by (auto split: if_splits)
    with ben_parse_string_shorter[OF a(1)] Suc(1)[OF a(2)] show ?case by simp
  next
    case 3
    then obtain r1 s3 where a: "bencode_parse_value k s p None = Inr (r1, Some s3)"
      by (auto split: sum.splits option.splits)
    with 3 obtain c u where c: "s3 = c # u" by (auto split: list.splits)
    have "length t < length s3" using 3 a c Suc(3)[of s3 r1 r t] by (auto split: if_splits)
    with Suc(1)[OF a] show ?case by simp
  }
qed simp_all

section \<open>The fuel is enough\<close>

lemma ben_binary_fuel: "bencode_parse_binary s \<noteq> Inl B_fuel"
proof -
  have "ben_len n s \<noteq> Inl B_fuel" for n by (induction n s rule: ben_len.induct) auto
  then show ?thesis by (auto simp: bencode_parse_binary_def split: sum.splits option.splits)
qed

lemma ben_string_fuel: "bencode_parse_string s \<noteq> Inl B_fuel"
  using ben_binary_fuel[of s] by (auto simp: bencode_parse_string_def split: sum.splits option.splits)

lemma ben_scalar_fuel: "ben_scalar s p nm \<noteq> Inl B_fuel"
  using ben_binary_fuel[of s] by (auto simp: ben_scalar_def b_added_Inl split: sum.splits option.splits)

lemma ben_seq_fuel:
  assumes "ben_seq loop new t = Inl B_fuel" shows "t \<noteq> [] \<and> loop t new = Inl B_fuel"
  using assms by (cases t) (auto simp: ben_seq_def split: if_splits)

lemma ben_value_fuel:
  "2 * length s + 1 < k \<Longrightarrow> bencode_parse_value k s p nm \<noteq> Inl B_fuel"
  "2 * length s + 1 < k \<Longrightarrow> ben_map_loop k s p \<noteq> Inl B_fuel"
  "2 * length s + 2 < k \<Longrightarrow> ben_list_loop k s p \<noteq> Inl B_fuel"
proof (induction k arbitrary: s p nm)
  case (Suc k)
  {
    case 1
    show ?case
    proof
      assume "bencode_parse_value (Suc k) s p nm = Inl B_fuel"
      then show False
      proof (cases rule: ben_parse_value_cases)
        case map
        then have "ben_seq (ben_map_loop k) htsmsg_create_map (tl s) = Inl B_fuel"
          by (auto simp: b_added_def split: sum.splits option.splits)
        then show False using ben_seq_fuel Suc(2)[of "tl s"] ben_take1_tl[OF map(1)] 1 by fastforce
      next
        case list
        then have "ben_seq (ben_list_loop k) htsmsg_create_list (tl s) = Inl B_fuel"
          by (auto simp: b_added_def split: sum.splits option.splits)
        then show False using ben_seq_fuel Suc(3)[of "tl s"] ben_take1_tl[OF list(1)] 1 by fastforce
      qed (use ben_scalar_fuel in auto)
    qed
  next
    case 2
    show ?case
    proof
      assume a: "ben_map_loop (Suc k) s p = Inl B_fuel"
      then obtain nm s2 where m: "bencode_parse_string s = Inr (Some (nm, s2))"
        using ben_string_fuel[of s] by (auto split: sum.splits option.splits)
      have "bencode_parse_value k s2 p (Some nm) \<noteq> Inl B_fuel"
        using Suc(1)[of s2] ben_parse_string_shorter[OF m] 2 by simp
      then obtain r1 c t where v: "bencode_parse_value k s2 p (Some nm) = Inr (r1, Some (c # t))" "ben_map_loop k (c # t) r1 = Inl B_fuel"
        using a m by (auto split: sum.splits option.splits list.splits if_splits)
      then show False using Suc(2)[of "c # t" r1] ben_value_shorter(1)[OF v(1)] ben_parse_string_shorter[OF m] 2 by simp
    qed
  next
    case 3
    show ?case
    proof
      assume a: "ben_list_loop (Suc k) s p = Inl B_fuel"
      have "bencode_parse_value k s p None \<noteq> Inl B_fuel" using Suc(1)[of s] 3 by simp
      then obtain r1 c t where v: "bencode_parse_value k s p None = Inr (r1, Some (c # t))" "ben_list_loop k (c # t) r1 = Inl B_fuel"
        using a by (auto split: sum.splits option.splits list.splits if_splits)
      then show False using Suc(3)[of "c # t" r1] ben_value_shorter(1)[OF v(1)] 3 by simp
    qed
  }
qed simp_all

lemma bencode_no_fuel: "bencode_deserialize src \<noteq> Inl B_fuel"
proof -
  let ?k = "2 * length src + 3"
  have "ben_seq (ben_map_loop ?k) htsmsg_create_map (tl src) \<noteq> Inl B_fuel"
    using ben_seq_fuel ben_value_fuel(2)[of "tl src" ?k] by fastforce
  moreover have "ben_seq (ben_list_loop ?k) htsmsg_create_list (tl src) \<noteq> Inl B_fuel"
    using ben_seq_fuel ben_value_fuel(3)[of "tl src" ?k] by fastforce
  ultimately show ?thesis
    by (auto simp: bencode_deserialize_def Let_def bencode_parse_map_def bencode_parse_list_def ben_result_def
        split: sum.splits if_splits prod.splits)
qed

section \<open>Round trip\<close>

definition len_enc :: "string \<Rightarrow> bool" where
  "len_enc s \<longleftrightarrow> int (length s) + 48 < 2 ^ 31"

fun ben_enc :: "bool \<Rightarrow> hfield list \<Rightarrow> bool"
and ben_enc_val :: "hval \<Rightarrow> bool" where
  "ben_enc l [] = True"
| "ben_enc l ((n, v) # fs) =
     ((case n of None \<Rightarrow> l | Some s \<Rightarrow> \<not> l \<and> chr 0 \<notin> set s \<and> len_enc s) \<and> ben_enc_val v \<and> ben_enc l fs)"
| "ben_enc_val (HMF_MAP fs) = ben_enc False fs"
| "ben_enc_val (HMF_LIST fs) = ben_enc True fs"
| "ben_enc_val (HMF_STR s) = (clean_str s \<and> len_enc s)"
| "ben_enc_val (HMF_BIN b) = (\<not> clean_str b \<and> len_enc b)"
| "ben_enc_val (HMF_S64 i) = (\<bar>sint i\<bar> + 48 < 2 ^ 63)"
| "ben_enc_val (HMF_DBL d) = False"

lemma digits_from_Cons: "is_digit c \<Longrightarrow> digits_from a (c # s) = digits_from (a * 10 + byte c - 48) s"
proof -
  assume d: "is_digit c"
  have "byte c = int (of_char c)" by (simp add: of_nat_of_char)
  then show ?thesis using d by (simp add: digits_from_def digit_val_def is_digit_def of_nat_diff algebra_simps)
qed

lemma digit_byte: "is_digit c \<Longrightarrow> 48 \<le> byte c \<and> byte c \<le> 57 \<and> signed_char c = byte c"
proof -
  assume d: "is_digit c"
  have "byte c = int (of_char c)" by (simp add: of_nat_of_char)
  then show ?thesis using d by (auto simp: is_digit_def signed_char_def)
qed

lemma digits_from_ge: "0 \<le> a \<Longrightarrow> \<forall>c \<in> set s. is_digit c \<Longrightarrow> a \<le> digits_from a s"
proof (induction s arbitrary: a)
  case (Cons c s)
  have "48 \<le> byte c" using digit_byte[of c] Cons(3) by simp
  then have "a \<le> a * 10 + byte c - 48" "0 \<le> a * 10 + byte c - 48" using Cons(2) by simp_all
  then show ?case using Cons(1)[of "a * 10 + byte c - 48"] Cons(3) by (simp add: digits_from_Cons)
qed (simp add: digits_from_def)

lemma digit_ne: "is_digit c \<Longrightarrow> c \<noteq> CHR '':'' \<and> c \<noteq> CHR ''e''"
  by (auto simp: is_digit_def)

lemma ben_len_digits:
  "0 \<le> a \<Longrightarrow> \<forall>c \<in> set s. is_digit c \<Longrightarrow> digits_from a s + 48 < 2 ^ 31 \<Longrightarrow>
   ben_len a (s @ CHR '':'' # t) = Inr (Some (digits_from a s, t))"
proof (induction s arbitrary: a)
  case (Cons c s)
  have c: "is_digit c" "48 \<le> byte c" using Cons(3) digit_byte[of c] by simp_all
  let ?b = "a * 10 + byte c - 48"
  have b: "0 \<le> ?b" using c Cons(2) by simp
  have "digits_from ?b s + 48 < 2 ^ 31" using Cons(4) c by (simp add: digits_from_Cons)
  moreover have "?b \<le> digits_from ?b s" using digits_from_ge[OF b] Cons(3) by simp
  ultimately show ?case using Cons(1)[OF b] Cons(3) c digit_ne[OF c(1)] by (simp add: digits_from_Cons)
qed (simp add: digits_from_def)

lemma ben_int_digits:
  "0 \<le> a \<Longrightarrow> \<forall>c \<in> set s. is_digit c \<Longrightarrow> digits_from a s + 48 < 2 ^ 63 \<Longrightarrow>
   ben_int a (s @ CHR ''e'' # t) = Some (digits_from a s, t)"
proof (induction s arbitrary: a)
  case (Cons c s)
  have c: "is_digit c" "48 \<le> byte c" "signed_char c = byte c" using Cons(3) digit_byte[of c] by simp_all
  let ?b = "a * 10 + byte c - 48"
  have b: "0 \<le> ?b" using c Cons(2) by simp
  have d: "digits_from ?b s + 48 < 2 ^ 63" using Cons(4) c by (simp add: digits_from_Cons)
  have "?b \<le> digits_from ?b s" using digits_from_ge[OF b] Cons(3) by simp
  with d have u: "?b + 48 < 2 ^ 63" by linarith
  have f: "ben_int ?b (s @ CHR ''e'' # t) = Some (digits_from ?b s, t)"
    by (rule Cons(1)[OF b _ d]) (use Cons(3) in simp)
  have ok: "int64_ok (a * 10)" "int64_ok (a * 10 + signed_char c)" "int64_ok (a * 10 + signed_char c - 48)"
    using u c b Cons(2) unfolding int64_ok_def by linarith+
  show ?case using f ok digit_ne[OF c(1)] c(3) by (simp add: digits_from_Cons[OF c(1)])
qed (simp add: digits_from_def)

lemma nat_dec_all: "\<forall>c \<in> set (nat_dec n). is_digit c"
  using nat_dec_digits[of n] by (simp add: list_all_iff)

lemma binary_back:
  assumes "len_enc s" "r \<noteq> []"
  shows "bencode_parse_binary (serialize_bytes s @ r) = Inr (Some (s, r))"
proof -
  have "ben_len 0 (nat_dec (length s) @ CHR '':'' # s @ r) = Inr (Some (int (length s), s @ r))"
    using ben_len_digits[of 0 "nat_dec (length s)" "s @ r"] nat_dec_all assms(1)
    by (simp add: digits_from_nat_dec len_enc_def)
  then show ?thesis using assms(2) by (simp add: bencode_parse_binary_def serialize_bytes_def)
qed

lemma string_back:
  assumes "len_enc s" "r \<noteq> []" "chr 0 \<notin> set s"
  shows "bencode_parse_string (serialize_bytes s @ r) = Inr (Some (s, r))"
  using binary_back[OF assms(1,2)] assms(3) by (simp add: bencode_parse_string_def)

lemma integer_back:
  assumes "\<bar>v\<bar> + 48 < 2 ^ 63"
  shows "bencode_parse_integer (int_dec v @ CHR ''e'' # r) = Some (v, r)"
proof -
  define n where "n = nat \<bar>v\<bar>"
  have n: "int n = \<bar>v\<bar>" by (simp add: n_def)
  have "digits_from 0 (nat_dec n) + 48 < 2 ^ 63" using assms by (simp add: digits_from_nat_dec n)
  from ben_int_digits[OF order.refl nat_dec_all this] have i: "ben_int 0 (nat_dec n @ CHR ''e'' # r) = Some (int n, r)"
    by (simp add: digits_from_nat_dec)
  show ?thesis
  proof (cases "v < 0")
    case True
    then have e: "int_dec v = CHR ''-'' # nat_dec n" and v: "v = - int n" by (simp_all add: int_dec_def n_def)
    show ?thesis unfolding e bencode_parse_integer_def Let_def using i v by simp
  next
    case False
    then have e: "int_dec v = nat_dec n" and v: "v = int n" by (simp_all add: int_dec_def n_def)
    obtain d u where d: "nat_dec n = digit_char d # u" "d < 10" using nat_dec_hd by blast
    have "take 1 (nat_dec n @ CHR ''e'' # r) \<noteq> ''-''" using d digit_char_facts(4)[OF d(2)] by simp
    then show ?thesis unfolding e bencode_parse_integer_def Let_def using i v by simp
  qed
qed

text \<open>The first letter of a value: it tells the kind, and it is never the \<open>e\<close> that ends a list.\<close>

lemma serialize_bytes_hd: "\<exists>c t. serialize_bytes s = c # t \<and> is_digit c"
proof -
  obtain d u where "nat_dec (length s) = digit_char d # u" "d < 10" using nat_dec_hd by blast
  then show ?thesis using digit_char_facts(1)[of d] by (simp add: serialize_bytes_def)
qed

lemma serialize_hd:
  assumes "ben_enc_val v" "bencode_serialize_r v = Some x"
  shows "\<exists>c t. x = c # t \<and> c \<noteq> CHR ''e''"
proof (cases v)
  case (HMF_STR s)
  then show ?thesis using assms serialize_bytes_hd[of s] digit_ne by auto
next
  case (HMF_BIN s)
  then show ?thesis using assms serialize_bytes_hd[of s] digit_ne by auto
qed (use assms in auto)

definition ben_reads :: "htsmsg \<Rightarrow> hfield list \<Rightarrow> string \<Rightarrow> berr + htsmsg \<times> string option \<Rightarrow> bool" where
  "ben_reads p fs r x \<longleftrightarrow> x = Inl B_fuel \<or> x = Inr (p\<lparr>hm_fields := hm_fields p @ fs\<rparr>, Some r)"

definition ben_loop :: "bool \<Rightarrow> nat \<Rightarrow> string \<Rightarrow> htsmsg \<Rightarrow> berr + htsmsg \<times> string option" where
  "ben_loop l k s p = (if l then ben_list_loop k s p else ben_map_loop k s p)"

lemma ben_add_ok:
  assumes "hm_islist p \<longleftrightarrow> nm = None"
  shows "htsmsg_field_add p nm v = Some (p\<lparr>hm_fields := hm_fields p @ [(nm, v)]\<rparr>)"
  using assms by (simp add: htsmsg_field_add_def)

lemma ben_scalar_reads:
  assumes "take 1 s \<noteq> ''d''" "take 1 s \<noteq> ''l''" "s \<noteq> []" "ben_scalar s p nm = Inr (p\<lparr>hm_fields := hm_fields p @ [(nm, v)]\<rparr>, Some r)"
  shows "ben_reads p [(nm, v)] r (bencode_parse_value k s p nm)"
proof (cases k)
  case (Suc k')
  then have "bencode_parse_value k s p nm = ben_scalar s p nm"
    using assms(1-3) by (simp add: bencode_parse_map_def bencode_parse_list_def)
  then show ?thesis using assms(4) by (simp add: ben_reads_def)
qed (simp add: ben_reads_def)

lemma digit_dl: "is_digit c \<Longrightarrow> c \<noteq> CHR ''d'' \<and> c \<noteq> CHR ''l'' \<and> c \<noteq> CHR ''i''"
  by (auto simp: is_digit_def)

lemma ben_bytes_reads:
  assumes "len_enc s" "r \<noteq> []" "hm_islist p \<longleftrightarrow> nm = None"
  shows "ben_reads p [(nm, if clean_str s then HMF_STR s else HMF_BIN s)] r (bencode_parse_value k (serialize_bytes s @ r) p nm)"
proof -
  obtain c t where c: "serialize_bytes s = c # t" "is_digit c" using serialize_bytes_hd by blast
  note n = digit_dl[OF c(2)]
  have "ben_scalar (serialize_bytes s @ r) p nm
      = Inr (p\<lparr>hm_fields := hm_fields p @ [(nm, if clean_str s then HMF_STR s else HMF_BIN s)]\<rparr>, Some r)"
    using binary_back[OF assms(1,2)] n
    by (simp add: ben_scalar_def c(1) b_added_def htsmsg_add_str_def htsmsg_add_bin_def ben_add_ok[OF assms(3)])
  then show ?thesis by (intro ben_scalar_reads) (use c(1) n in simp_all)
qed

text \<open>A map or list, given that its elements are read.\<close>

lemma ben_sub_reads:
  assumes "\<And>k p. fs \<noteq> [] \<Longrightarrow> hm_islist p = l \<Longrightarrow> ben_reads p fs r (ben_loop l k (x @ CHR ''e'' # r) p)"
    and "fs = [] \<longleftrightarrow> x = []" "fs \<noteq> [] \<Longrightarrow> take 1 x \<noteq> ''e''" and p: "hm_islist p \<longleftrightarrow> nm = None"
  shows "ben_reads p [(nm, if l then HMF_LIST fs else HMF_MAP fs)] r
      (bencode_parse_value k ((if l then CHR ''l'' else CHR ''d'') # x @ CHR ''e'' # r) p nm)"
proof (cases k)
  case (Suc k')
  let ?new = "\<lparr>hm_islist = l, hm_fields = []\<rparr>"
  note add = ben_add_ok[OF p, of "if l then HMF_LIST fs else HMF_MAP fs"]
  have q: "ben_seq (ben_loop l k') ?new (x @ CHR ''e'' # r) \<in> {Inl B_fuel, Inr (\<lparr>hm_islist = l, hm_fields = fs\<rparr>, Some r)}"
  proof (cases "fs = []")
    case True
    then show ?thesis using assms(2) by (simp add: ben_seq_def)
  next
    case False
    then obtain c u where x: "x = c # u" "c \<noteq> CHR ''e''" using assms(2,3) by (cases x) auto
    have "ben_reads ?new fs r (ben_loop l k' (x @ CHR ''e'' # r) ?new)" by (rule assms(1)[OF False]) simp
    then show ?thesis using x by (auto simp: ben_seq_def ben_reads_def)
  qed
  show ?thesis
  proof (cases l)
    case True
    then show ?thesis using q add Suc
      by (auto simp: ben_reads_def bencode_parse_map_def bencode_parse_list_def ben_loop_def[abs_def]
          htsmsg_create_list_def b_added_def htsmsg_add_msg_def sub_val_def)
  next
    case False
    then show ?thesis using q add Suc
      by (auto simp: ben_reads_def bencode_parse_map_def bencode_parse_list_def ben_loop_def[abs_def]
          htsmsg_create_map_def b_added_def htsmsg_add_msg_def sub_val_def)
  qed
qed (simp add: ben_reads_def)

lemma fields_text_hd:
  assumes "ben_enc l fs" "bencode_fields l fs = Some x"
  shows "(fs = [] \<longleftrightarrow> x = []) \<and> take 1 x \<noteq> ''e''"
proof (cases fs)
  case (Cons f gs)
  obtain n v where f: "f = (n, v)" by (cases f)
  obtain a b c where x: "x = a @ b @ c" "(if l then Some [] else map_option serialize_bytes n) = Some a" "bencode_serialize_r v = Some b"
    using assms(2) by (auto simp: Cons f split: option.splits)
  have v: "ben_enc_val v" using assms(1) by (simp add: Cons f)
  obtain d t where b: "b = d # t" "d \<noteq> CHR ''e''" using serialize_hd[OF v x(3)] by blast
  show ?thesis
  proof (cases l)
    case True
    then show ?thesis using x b by (simp add: Cons)
  next
    case False
    then obtain m where "n = Some m" "a = serialize_bytes m" using x(2) by auto
    moreover obtain d' t' where "serialize_bytes m = d' # t'" "is_digit d'" using serialize_bytes_hd by blast
    ultimately show ?thesis using x(1) digit_ne[of d'] by (simp add: Cons)
  qed
qed (use assms in simp)

lemma ben_loop_turn:
  assumes e: "ben_enc l ((n, v) # fs)" and p: "hm_islist p = l"
    and x: "bencode_serialize_r v = Some b" "bencode_fields l fs = Some c"
    and a: "(if l then Some [] else map_option serialize_bytes n) = Some a"
    and val: "\<And>p nm r. r \<noteq> [] \<Longrightarrow> hm_islist p \<longleftrightarrow> nm = None \<Longrightarrow> ben_reads p [(nm, v)] r (bencode_parse_value k (b @ r) p nm)"
    and rest: "\<And>p. fs \<noteq> [] \<Longrightarrow> hm_islist p = l \<Longrightarrow> ben_reads p fs r (ben_loop l k (c @ CHR ''e'' # r) p)"
  shows "ben_reads p ((n, v) # fs) r (ben_loop l (Suc k) (a @ b @ c @ CHR ''e'' # r) p)"
proof -
  let ?p1 = "p\<lparr>hm_fields := hm_fields p @ [(n, v)]\<rparr>" and ?t = "c @ CHR ''e'' # r"
  have n: "l \<longleftrightarrow> n = None" and fs: "ben_enc l fs" using e by (auto split: option.splits)
  have v: "ben_reads p [(n, v)] ?t (bencode_parse_value k (b @ ?t) p n)" by (rule val) (use p n in simp_all)
  have c: "fs = [] \<longleftrightarrow> c = []" "take 1 c \<noteq> ''e''" using fields_text_hd[OF fs x(2)] by simp_all
  have step: "ben_loop l (Suc k) (a @ b @ ?t) p =
     (case bencode_parse_value k (b @ ?t) p n of
        Inl e \<Rightarrow> Inl e
      | Inr (r1, None) \<Rightarrow> Inl B_overrun
      | Inr (r1, Some s3) \<Rightarrow>
          (case s3 of [] \<Rightarrow> Inl B_overrun
           | d # t \<Rightarrow> if d = CHR ''e'' then Inr (r1, Some t) else ben_loop l k s3 r1))"
  proof (cases l)
    case True
    then have l: "ben_loop l = ben_list_loop" by (intro ext) (simp add: ben_loop_def)
    show ?thesis unfolding l using a n True by simp
  next
    case False
    then obtain m where m: "n = Some m" "a = serialize_bytes m" "len_enc m" "chr 0 \<notin> set m"
      using a e by (auto split: option.splits)
    obtain b0 b1 where "b = b0 # b1" using serialize_hd[OF _ x(1)] e by auto
    then have "bencode_parse_string (a @ b @ ?t) = Inr (Some (m, b @ ?t))"
      unfolding m(2) by (intro string_back[OF m(3) _ m(4)]) simp
    moreover have l: "ben_loop l = ben_map_loop" using False by (intro ext) (simp add: ben_loop_def)
    ultimately show ?thesis unfolding l using m(1) by simp
  qed
  show ?thesis
  proof (cases "bencode_parse_value k (b @ ?t) p n = Inl B_fuel")
    case True
    then show ?thesis unfolding step by (simp add: ben_reads_def)
  next
    case False
    then have w: "bencode_parse_value k (b @ ?t) p n = Inr (?p1, Some ?t)" using v by (simp add: ben_reads_def)
    show ?thesis
    proof (cases "fs = []")
      case True
      then show ?thesis unfolding step w using c by (simp add: ben_reads_def)
    next
      case False
      then obtain d u where d: "c = d # u" "d \<noteq> CHR ''e''" using c by (cases c) auto
      have "ben_reads ?p1 fs r (ben_loop l k ?t ?p1)" by (rule rest[OF False]) (use p in simp)
      then show ?thesis unfolding step w using d by (auto simp: ben_reads_def)
    qed
  qed
qed

lemma ben_back:
  "ben_enc l fs \<Longrightarrow> \<exists>x. bencode_fields l fs = Some x \<and>
     (\<forall>k p r. fs \<noteq> [] \<longrightarrow> hm_islist p = l \<longrightarrow> ben_reads p fs r (ben_loop l k (x @ CHR ''e'' # r) p))"
  "ben_enc_val v \<Longrightarrow> \<exists>x. bencode_serialize_r v = Some x \<and>
     (\<forall>k p nm r. r \<noteq> [] \<longrightarrow> (hm_islist p \<longleftrightarrow> nm = None) \<longrightarrow> ben_reads p [(nm, v)] r (bencode_parse_value k (x @ r) p nm))"
proof (induction l fs and v rule: ben_enc_ben_enc_val.induct)
  case (2 l n v fs)
  have v: "ben_enc_val v" and fs: "ben_enc l fs" using 2(3) by simp_all
  from 2(1)[OF v] obtain b where b: "bencode_serialize_r v = Some b"
    "\<And>k p nm r. r \<noteq> [] \<Longrightarrow> hm_islist p \<longleftrightarrow> nm = None \<Longrightarrow> ben_reads p [(nm, v)] r (bencode_parse_value k (b @ r) p nm)" by blast
  from 2(2)[OF fs] obtain c where c: "bencode_fields l fs = Some c"
    "\<And>k p r. fs \<noteq> [] \<Longrightarrow> hm_islist p = l \<Longrightarrow> ben_reads p fs r (ben_loop l k (c @ CHR ''e'' # r) p)" by blast
  obtain a where a: "(if l then Some [] else map_option serialize_bytes n) = Some a"
    using 2(3) by (auto split: option.splits)
  have "ben_reads p ((n, v) # fs) r (ben_loop l k ((a @ b @ c) @ CHR ''e'' # r) p)" if "hm_islist p = l" for k p r
  proof (cases k)
    case (Suc k')
    have "ben_reads p ((n, v) # fs) r (ben_loop l (Suc k') (a @ b @ c @ CHR ''e'' # r) p)"
      by (rule ben_loop_turn[OF 2(3) that b(1) c(1) a b(2) c(2)])
    then show ?thesis by (simp add: Suc)
  qed (simp add: ben_reads_def ben_loop_def)
  moreover have "bencode_fields l ((n, v) # fs) = Some (a @ b @ c)" using a b(1) c(1) by simp
  ultimately show ?case by blast
next
  case (3 fs)
  have f: "ben_enc False fs" using 3(2) by simp
  from 3(1)[OF f] obtain x where x: "bencode_fields False fs = Some x"
    "\<And>k p r. fs \<noteq> [] \<Longrightarrow> hm_islist p = False \<Longrightarrow> ben_reads p fs r (ben_loop False k (x @ CHR ''e'' # r) p)" by blast
  note h = fields_text_hd[OF f x(1)]
  have "ben_reads p [(nm, HMF_MAP fs)] r (bencode_parse_value k ((''d'' @ x @ ''e'') @ r) p nm)"
    if "hm_islist p \<longleftrightarrow> nm = None" for k p nm r
    using ben_sub_reads[of fs False r x p nm k, OF x(2) _ _ that] h by simp
  then show ?case using x(1) by simp
next
  case (4 fs)
  have f: "ben_enc True fs" using 4(2) by simp
  from 4(1)[OF f] obtain x where x: "bencode_fields True fs = Some x"
    "\<And>k p r. fs \<noteq> [] \<Longrightarrow> hm_islist p = True \<Longrightarrow> ben_reads p fs r (ben_loop True k (x @ CHR ''e'' # r) p)" by blast
  note h = fields_text_hd[OF f x(1)]
  have "ben_reads p [(nm, HMF_LIST fs)] r (bencode_parse_value k ((''l'' @ x @ ''e'') @ r) p nm)"
    if "hm_islist p \<longleftrightarrow> nm = None" for k p nm r
    using ben_sub_reads[of fs True r x p nm k, OF x(2) _ _ that] h by simp
  then show ?case using x(1) by simp
next
  case (5 str)
  have "ben_reads p [(nm, HMF_STR str)] r (bencode_parse_value k (serialize_bytes str @ r) p nm)"
    if "r \<noteq> []" "hm_islist p \<longleftrightarrow> nm = None" for k p nm r
    using ben_bytes_reads[OF _ that, of str k] 5 by simp
  then show ?case by simp
next
  case (6 b)
  have "ben_reads p [(nm, HMF_BIN b)] r (bencode_parse_value k (serialize_bytes b @ r) p nm)"
    if "r \<noteq> []" "hm_islist p \<longleftrightarrow> nm = None" for k p nm r
    using ben_bytes_reads[OF _ that, of b k] 6 by simp
  then show ?case by simp
next
  case (7 i)
  have "ben_reads p [(nm, HMF_S64 i)] r (bencode_parse_value k ((''i'' @ int_dec (sint i) @ ''e'') @ r) p nm)"
    if "hm_islist p \<longleftrightarrow> nm = None" for k p nm r
  proof (rule ben_scalar_reads)
    show "ben_scalar ((''i'' @ int_dec (sint i) @ ''e'') @ r) p nm = Inr (p\<lparr>hm_fields := hm_fields p @ [(nm, HMF_S64 i)]\<rparr>, Some r)"
      using integer_back[of "sint i" r] 7 by (simp add: ben_scalar_def b_added_def htsmsg_add_s64_def ben_add_ok[OF that])
  qed simp_all
  then show ?case by simp
qed simp_all

lemma bencode_roundtrip:
  assumes "ben_enc (hm_islist m) (hm_fields m)"
  shows "\<exists>x. bencode_serialize m = Some x \<and> bencode_deserialize x = Inr (m, int (length x))"
proof -
  let ?l = "hm_islist m" and ?fs = "hm_fields m"
  from ben_back(1)[OF assms] obtain x where x: "bencode_fields ?l ?fs = Some x"
    "\<And>k p r. ?fs \<noteq> [] \<Longrightarrow> hm_islist p = ?l \<Longrightarrow> ben_reads p ?fs r (ben_loop ?l k (x @ CHR ''e'' # r) p)" by blast
  note h = fields_text_hd[OF assms x(1)]
  let ?t = "(if ?l then CHR ''l'' else CHR ''d'') # x @ ''e''"
  let ?k = "2 * length ?t + 3"
  let ?new = "\<lparr>hm_islist = ?l, hm_fields = []\<rparr>"
  have s: "bencode_serialize m = Some ?t" using x(1) by (cases ?l) (simp_all add: bencode_serialize_def sub_val_def)
  have "ben_seq (ben_loop ?l ?k) ?new (x @ ''e'') \<in> {Inl B_fuel, Inr (m, Some [])}"
  proof (cases "?fs = []")
    case True
    then show ?thesis using h by (cases m) (simp add: ben_seq_def)
  next
    case False
    then obtain c u where c: "x = c # u" "c \<noteq> CHR ''e''" using h by (cases x) auto
    show ?thesis using x(2)[OF False, of ?new "[]" ?k] c by (cases m) (auto simp: ben_seq_def ben_reads_def)
  qed
  moreover note bencode_no_fuel[of ?t]
  ultimately have "bencode_deserialize ?t = Inr (m, int (length ?t))"
    by (cases ?l) (auto simp: bencode_deserialize_def Let_def bencode_parse_map_def bencode_parse_list_def ben_result_def
        ben_loop_def[abs_def] htsmsg_create_map_def htsmsg_create_list_def)
  with s show ?thesis by blast
qed

end
