(* ===== verification/Misc_Properties.thy ===== *)
theory Misc_Properties
  imports Extents Callout Bencode
begin

text \<open>
  What the range allocator, the timers and the torrent encoding guarantee, and where they go wrong.
\<close>

section \<open>Ranges\<close>



text \<open>
  C34. An aligned allocation for which the index finds a segment returns a multiple of the alignment
  whose range was free, and takes exactly this range out of the free addresses, unless it would end
  where the segment ends.
\<close>

theorem aligned_allocation:
  assumes "pool_ok ep" "0 < s" "0 < k" "es_find ep (s + (2 ^ k - 1)) = Some (z, ps)"
    "((hd ps + (2 ^ k - 1)) AND NOT (2 ^ k - 1)) + s \<noteq> hd ps + z"
  shows "\<exists>rval ep1. extent_alloc_aligned ep s (2 ^ k) = (rval, Some ep1) \<and> rval mod 2 ^ k = 0
      \<and> {rval ..< rval + s} \<subseteq> free_addrs ep \<and> pool_ok ep1 \<and> free_addrs ep1 = free_addrs ep - {rval ..< rval + s}"
  by (rule aligned_ok[OF assms])

theorem aligned_allocation_witness:
  "\<exists>rval ep1. extent_alloc_aligned \<lparr>ep_freesegs = [(5, 100)], ep_sizes = [(100, [5])], ep_total = 100\<rparr> 30 (2 ^ 4) = (rval, Some ep1)
     \<and> rval mod 2 ^ 4 = 0"
proof -
  let ?e = "\<lparr>ep_freesegs = [(5, 100)], ep_sizes = [(100, [5])], ep_total = 100\<rparr>"
  have ok: "pool_ok ?e" by (auto simp: pool_ok_def segs_ok_def apart_def sizes_ok_def indexed_def)
  show ?thesis using aligned_allocation[OF ok, of 30 4 100 "[5]"] by (auto simp: es_find_def)
qed



section \<open>Timers\<close>

text \<open>
  C36. Whatever callers and the timer thread do and however they interleave: the list of armed timers
  has exactly the timers with a callback, once each, ordered by deadline; no callback has run before
  its deadline; a timer that is due can always be fired by an idle thread, and the one it fires has
  the least deadline of all; and for each value that timers with a lock manager belong to, the
  references taken and not yet given back are those of the armed timers and of the running one.
\<close>

theorem timers_in_order:
  assumes "co_reach st"
  shows "distinct (callouts st) \<and> (\<forall>d. d \<in> set (callouts st) \<longleftrightarrow> c_callback (co st d) \<noteq> None)
    \<and> sorted (map (\<lambda>d. c_deadline (co st d)) (callouts st))
    \<and> (\<forall>c \<in> set (ran st). cc_deadline c \<le> cc_time c)
    \<and> (running st = None \<longrightarrow> (\<exists>d \<in> set (callouts st). c_deadline (co st d) \<le> now st) \<longrightarrow>
        (\<exists>st' c. callout_fire st = Some st' \<and> ran st' = ran st @ [c] \<and>
           (\<forall>d \<in> set (callouts st). cc_deadline c \<le> c_deadline (co st d))))
    \<and> refs st opq + int (count (owed st) opq) = int (held st opq) + int (count (dropped st) opq)"
proof -
  have inv: "co_listed st" "co_sorted st" "co_timely st" "co_counted st"
    using co_reach_inv[OF assms] by (simp_all add: co_inv_def)
  have "\<exists>st' c. callout_fire st = Some st' \<and> ran st' = ran st @ [c] \<and> (\<forall>d \<in> set (callouts st). cc_deadline c \<le> c_deadline (co st d))"
    if r: "running st = None" and d: "d \<in> set (callouts st)" "c_deadline (co st d) \<le> now st" for d
  proof -
    obtain e es where l: "callouts st = e # es" using d(1) by (cases "callouts st") auto
    have le: "\<forall>x \<in> set (callouts st). c_deadline (co st e) \<le> c_deadline (co st x)"
      using inv(2) by (auto simp: co_sorted_def l)
    then have due: "c_deadline (co st e) \<le> now st" using d by force
    obtain cb where "c_callback (co st e) = Some cb" using inv(1) by (auto simp: co_listed_def l)
    then show ?thesis using r l due le by (simp add: callout_fire_def Let_def)
  qed
  then show ?thesis using inv by (auto simp: co_listed_def co_sorted_def co_timely_def co_counted_def)
qed

definition co_demo :: cst where
  "co_demo = \<lparr>co = (\<lambda>_. \<lparr>c_callback = None, c_managed = False, c_opaque = 0, c_deadline = 0, c_delta = 0\<rparr>),
     co_next = 2, callouts = [], running = None, now = 0, clock = 0, owed = {#}, dropped = {#}, refs = (\<lambda>_. 0), ran = []\<rparr>"

theorem timers_in_order_witness:
  "sorted (map (\<lambda>d. c_deadline (co (callout_arm0 (Some 0) 7 3 500 True co_demo) d)) (callouts (callout_arm0 (Some 0) 7 3 500 True co_demo)))
   \<and> callouts (callout_arm0 (Some 0) 7 3 500 True co_demo) = [0]"
proof -
  have "co_reach co_demo" by (rule co_reach.start) (simp add: co_start_def co_demo_def)
  then have "co_reach (callout_arm0 (Some 0) 7 3 500 True co_demo)"
    by (rule co_reach.step) (rule co_step.arm, simp_all add: co_demo_def)
  from timers_in_order[OF this]
  have "sorted (map (\<lambda>d. c_deadline (co (callout_arm0 (Some 0) 7 3 500 True co_demo) d)) (callouts (callout_arm0 (Some 0) 7 3 500 True co_demo)))"
    by blast
  moreover have "callouts (callout_arm0 (Some 0) 7 3 500 True co_demo) = [0]"
    by (simp add: callout_arm0_def Let_def co_demo_def co_insert_def)
  ultimately show ?thesis by blast
qed

section \<open>Torrents\<close>

text \<open>
  C37. A message without doubles, whose maps have names without NUL, whose strings are printable ASCII
  and whose binary data are not, is written in the encoding of torrents as a text that is read back,
  to its last byte, as the same message.
\<close>

theorem bencode_reads_back:
  assumes "ben_enc (hm_islist m) (hm_fields m)"
  shows "\<exists>x. bencode_serialize m = Some x \<and> bencode_deserialize x = Inr (m, int (length x))"
  by (rule bencode_roundtrip[OF assms])

theorem bencode_reads_back_witness:
  "\<exists>x. bencode_serialize \<lparr>hm_islist = False, hm_fields = [(Some ''n'', HMF_S64 (-3)), (Some ''l'', HMF_LIST [(None, HMF_STR ''ab'')])]\<rparr> = Some x
     \<and> bencode_deserialize x
       = Inr (\<lparr>hm_islist = False, hm_fields = [(Some ''n'', HMF_S64 (-3)), (Some ''l'', HMF_LIST [(None, HMF_STR ''ab'')])]\<rparr>, int (length x))"
proof (rule bencode_reads_back)
  have "clean_str ''ab''" by code_simp
  moreover have "chr 0 \<notin> set ''n''" "chr 0 \<notin> set ''l''" by code_simp+
  ultimately show "ben_enc (hm_islist \<lparr>hm_islist = False, hm_fields = [(Some ''n'', HMF_S64 (-3)), (Some ''l'', HMF_LIST [(None, HMF_STR ''ab'')])]\<rparr>)
    (hm_fields \<lparr>hm_islist = False, hm_fields = [(Some ''n'', HMF_S64 (-3)), (Some ''l'', HMF_LIST [(None, HMF_STR ''ab'')])]\<rparr>)"
    by (simp add: len_enc_def)
qed

text \<open>
  C38. The reader always returns, but it takes the end of the text for the end of a map or list and
  moves past it: a lone \<open>d\<close> is read as an empty map of two bytes, and after one inside a list or
  map the reader leaves its buffer. A length or an integer of too many digits overflows.
\<close>

theorem bencode_overruns:
  "bencode_deserialize src \<noteq> Inl B_fuel
   \<and> bencode_deserialize ''d'' = Inr (htsmsg_create_map, 2)
   \<and> bencode_deserialize ''ld'' = Inl B_overrun
   \<and> bencode_deserialize ''d1:al'' = Inl B_overrun
   \<and> bencode_deserialize ''l2147483648:'' = Inl B_undef
   \<and> bencode_deserialize ''li9223372036854775807ee'' = Inl B_undef"
proof (intro conjI)
  show "bencode_deserialize src \<noteq> Inl B_fuel" by (rule bencode_no_fuel)
qed (code_simp+)

end
