(* ===== verification/Prop_Tags.thy ===== *)
theory Prop_Tags
  imports Prop_Request
begin

text \<open>
  Tags on properties (\<open>src/prop/prop_tags.c\<close>): each property has a list of keys with values
  (\<open>hp_tags\<close>), which its owners use to find what they keep for it. Keys and values are pointers,
  here identifiers. \<open>hp_tags\<close> is a component of its own, beside the state of the property system.
\<close>

type_synonym prop_tags = "pid \<Rightarrow> (nat \<times> nat) list"

definition prop_tag_get :: "pid \<Rightarrow> nat \<Rightarrow> prop_tags \<Rightarrow> nat option" where
  "prop_tag_get p key tg = map_of (tg p) key"

definition prop_tag_set :: "pid \<Rightarrow> nat \<Rightarrow> nat \<Rightarrow> prop_tags \<Rightarrow> prop_tags" where
  "prop_tag_set p key v tg = tg(p := (key, v) # tg p)"

fun tag_remove :: "nat \<Rightarrow> (nat \<times> nat) list \<Rightarrow> (nat \<times> nat) list" where
  "tag_remove key [] = []"
| "tag_remove key ((k, v) # ts) = (if k = key then ts else (k, v) # tag_remove key ts)"

definition prop_tag_clear :: "pid \<Rightarrow> nat \<Rightarrow> prop_tags \<Rightarrow> nat option \<times> prop_tags" where
  "prop_tag_clear p key tg = (map_of (tg p) key, tg(p := tag_remove key (tg p)))"

lemma tag_get_set [simp]:
  "prop_tag_get q k (prop_tag_set p key v tg) = (if q = p \<and> k = key then Some v else prop_tag_get q k tg)"
  by (auto simp: prop_tag_get_def prop_tag_set_def)

lemma map_of_tag_remove: "k \<noteq> key \<Longrightarrow> map_of (tag_remove key ts) k = map_of ts k"
  by (induction key ts rule: tag_remove.induct) auto

lemma tag_get_clear [simp]:
  "q \<noteq> p \<or> k \<noteq> key \<Longrightarrow> prop_tag_get q k (snd (prop_tag_clear p key tg)) = prop_tag_get q k tg"
  "fst (prop_tag_clear p key tg) = prop_tag_get p key tg"
  by (auto simp: prop_tag_get_def prop_tag_clear_def map_of_tag_remove)

lemma tag_clear_set: "prop_tag_clear p key (prop_tag_set p key v tg) = (Some v, tg)"
  by (simp add: prop_tag_clear_def prop_tag_set_def)

end
