(* ===== verification/Prop_Concat.thy ===== *)
theory Prop_Concat
  imports Prop_Tags Prop_Destroy
begin

text \<open>
  Concatenation of lists (\<open>src/prop/prop_concat.c\<close>): the children of several source directories,
  each run of them preceded by an optional header, as the children of one destination. The
  concatenation subscribes to its sources and to its destination with internal subscriptions,
  whose callbacks are the operations here. One record holds what \<open>prop_concat_t\<close> and its sources
  hold, with the tags and the property system they work on; a source is known by a number, which
  is also the key of its tags. \<open>None\<close> is an \<open>abort()\<close>, a failed assertion, a null or a stale
  pointer.
\<close>

record prop_concat_source =
  pcs_srcsub :: "sid option"
  pcs_first :: "pid option"
  pcs_header :: "pid option"
  pcs_count :: int
  pcs_index :: int

record prop_concat =
  pc_queue :: "(nat \<times> prop_concat_source) list"
  pc_dst :: pid
  pc_dstsub :: "sid option"
  pc_index_tally :: nat
  pc_refs :: int
  pc_tags :: prop_tags
  pc_props :: pst

definition pcs_of :: "prop_concat \<Rightarrow> nat \<Rightarrow> prop_concat_source option" where
  "pcs_of w k = map_of (pc_queue w) k"

definition upd_pcs :: "nat \<Rightarrow> (prop_concat_source \<Rightarrow> prop_concat_source) \<Rightarrow> prop_concat \<Rightarrow> prop_concat" where
  "upd_pcs k f w = w\<lparr>pc_queue := map (\<lambda>(j, s). (j, if j = k then f s else s)) (pc_queue w)\<rparr>"

definition pc_run :: "(pst \<Rightarrow> pst option) \<Rightarrow> prop_concat \<Rightarrow> prop_concat option" where
  "pc_run f w = map_option (\<lambda>st. w\<lparr>pc_props := st\<rparr>) (f (pc_props w))"

section \<open>Releasing\<close>

definition prop_concat_release0 :: "prop_concat \<Rightarrow> prop_concat option" where
  "prop_concat_release0 w =
     (let w1 = w\<lparr>pc_refs := pc_refs w - 1\<rparr>
      in if 0 < pc_refs w1 then Some w1
         else pc_run (\<lambda>st. do { st1 \<leftarrow> prop_ref_dec_locked (Some (pc_dst w1)) st;
                                s \<leftarrow> pc_dstsub w1;
                                prop_unsubscribe0 s st1 }) w1)"

text \<open>The first property of the first source after \<open>k\<close> that has one.\<close>

fun first_out :: "(nat \<times> prop_concat_source) list \<Rightarrow> pid option" where
  "first_out [] = None"
| "first_out ((j, s) # q) =
     (if pcs_first s \<noteq> None then (if pcs_header s \<noteq> None then pcs_header s else pcs_first s) else first_out q)"

definition find_next_out :: "nat \<Rightarrow> prop_concat \<Rightarrow> pid option" where
  "find_next_out k w = first_out (tl (dropWhile (\<lambda>(j, _). j \<noteq> k) (pc_queue w)))"

definition pcs_destroy :: "nat \<Rightarrow> prop_concat \<Rightarrow> prop_concat option" where
  "pcs_destroy k w =
     do { s \<leftarrow> pcs_of w k;
          if pcs_count s \<noteq> 0 \<or> pcs_first s \<noteq> None then None
          else do {
            sub \<leftarrow> pcs_srcsub s;
            w1 \<leftarrow> pc_run (\<lambda>st. do { st1 \<leftarrow> prop_unsubscribe0 sub st;
                                    (case pcs_header s of None \<Rightarrow> Some st1
                                     | Some h \<Rightarrow> map_option snd (destroy_now h st1)) })
                   (w\<lparr>pc_queue := filter (\<lambda>(j, _). j \<noteq> k) (pc_queue w)\<rparr>);
            prop_concat_release0 w1 } }"

section \<open>Events of a source\<close>

text \<open>A new output, linked to \<open>p\<close>, with the tags that lead from one to the other.\<close>

definition make_out :: "nat \<Rightarrow> pid \<Rightarrow> prop_concat \<Rightarrow> (pid \<times> prop_concat) option" where
  "make_out k p w =
     (case prop_make None False None (pc_props w) of
        (x, st1) \<Rightarrow>
          map_option (\<lambda>st2. (x, w\<lparr>pc_props := st2, pc_tags := prop_tag_set x k p (prop_tag_set p k x (pc_tags w))\<rparr>))
            (prop_link0 p x None PROP_LINK_NORMAL st1))"

definition pc_parent :: "pid \<Rightarrow> pid option \<Rightarrow> prop_concat \<Rightarrow> prop_concat option" where
  "pc_parent x before w = pc_run (\<lambda>st. map_option snd (prop_set_parent0 x (pc_dst w) before None st)) w"

definition add_child :: "nat \<Rightarrow> pid \<Rightarrow> prop_concat \<Rightarrow> prop_concat option" where
  "add_child k p w =
     do { s \<leftarrow> pcs_of w k;
          (x, w1) \<leftarrow> make_out k p w;
          w2 \<leftarrow> pc_parent x (find_next_out k w) w1;
          w3 \<leftarrow> (if pcs_count s = 0
                  then (case pcs_header s of None \<Rightarrow> Some | Some h \<Rightarrow> pc_parent h (Some x))
                         (upd_pcs k (\<lambda>s. s\<lparr>pcs_first := Some x\<rparr>) w2)
                  else Some w2);
          Some (upd_pcs k (\<lambda>s. s\<lparr>pcs_count := pcs_count s + 1\<rparr>) w3) }"

definition add_child_before :: "nat \<Rightarrow> pid \<Rightarrow> pid \<Rightarrow> prop_concat \<Rightarrow> prop_concat option" where
  "add_child_before k p q w =
     do { (x, w1) \<leftarrow> make_out k p w;
          before \<leftarrow> prop_tag_get q k (pc_tags w1);
          w2 \<leftarrow> pc_parent x (Some before) w1;
          Some (upd_pcs k (\<lambda>s. s\<lparr>pcs_count := pcs_count s + 1\<rparr>) w2) }"

text \<open>
  An output that is on no list has only a stale pointer to a sibling; it is used when the output
  was the first of several.
\<close>

definition del_child :: "nat \<Rightarrow> pid \<Rightarrow> prop_concat \<Rightarrow> prop_concat option" where
  "del_child k p w =
     do { s \<leftarrow> pcs_of w k;
          x \<leftarrow> fst (prop_tag_clear p k (pc_tags w));
          let tg = snd (prop_tag_clear x k (snd (prop_tag_clear p k (pc_tags w))));
              parent = hp_parent (props (pc_props w) x);
              before = (case parent of None \<Rightarrow> None | Some d \<Rightarrow> next_of x (hp_childs (pc_props w) d))
          in do {
            w1 \<leftarrow> pc_run (\<lambda>st. map_option snd (destroy_now x st)) (w\<lparr>pc_tags := tg\<rparr>);
            let w2 = upd_pcs k (\<lambda>s. s\<lparr>pcs_count := pcs_count s - 1\<rparr>) w1
            in if pcs_count s - 1 = 0 then
                 (case pcs_header s of None \<Rightarrow> Some | Some h \<Rightarrow> pc_run (prop_unparent0 h))
                   (upd_pcs k (\<lambda>s. s\<lparr>pcs_first := None\<rparr>) w2)
               else if pcs_first s = Some x then
                 (if parent = None then None else Some (upd_pcs k (\<lambda>s. s\<lparr>pcs_first := before\<rparr>) w2))
               else Some w2 } }"

definition move_child :: "nat \<Rightarrow> pid \<Rightarrow> pid option \<Rightarrow> prop_concat \<Rightarrow> prop_concat option" where
  "move_child k p q w =
     do { x \<leftarrow> prop_tag_get p k (pc_tags w);
          pc_run (prop_move0 x (case q of Some b \<Rightarrow> prop_tag_get b k (pc_tags w) | None \<Rightarrow> find_next_out k w) None) w }"

definition concat_src_cb :: "nat \<Rightarrow> prop_notify_t \<Rightarrow> prop_concat \<Rightarrow> prop_concat option" where
  "concat_src_cb k n w =
     (case (hpn_event n, hpn_val n) of
        (EV_ADD_CHILD, NV_prop (Some p)) \<Rightarrow> add_child k p w
      | (EV_ADD_CHILD_BEFORE, NV_prop (Some p)) \<Rightarrow> Option.bind (hpn_prop_extra n) (\<lambda>q. add_child_before k p q w)
      | (EV_ADD_CHILD_VECTOR, NV_propv _ ps) \<Rightarrow> ofold (add_child k) ps w
      | (EV_ADD_CHILD_VECTOR_DIRECT, NV_propv _ ps) \<Rightarrow> ofold (add_child k) ps w
      | (EV_DEL_CHILD, NV_prop (Some p)) \<Rightarrow> del_child k p w
      | (EV_MOVE_CHILD, NV_prop (Some p)) \<Rightarrow> move_child k p (hpn_prop_extra n) w
      | (EV_SELECT_CHILD, _) \<Rightarrow> Some w
      | (EV_SET_VOID, _) \<Rightarrow> Some w
      | (EV_SET_DIR, _) \<Rightarrow> Some w
      | (EV_REQ_DELETE_VECTOR, _) \<Rightarrow> Some w
      | (EV_HAVE_MORE_CHILDS_YES, _) \<Rightarrow> Some w
      | (EV_HAVE_MORE_CHILDS_NO, _) \<Rightarrow> Some w
      | (EV_WANT_MORE_CHILDS, _) \<Rightarrow> Some w
      | (EV_REQ_DELETE, _) \<Rightarrow> Some w
      | (EV_DESTROYED, _) \<Rightarrow> pcs_destroy k w
      | _ \<Rightarrow> None)"

section \<open>Events of the destination\<close>

text \<open>
  Where an output or header is: the loop over the sources with the one before it. \<open>Some (bs, bb)\<close>
  is the state of the loop's variables at its end.
\<close>

fun find_before ::
  "prop_tags \<Rightarrow> pid \<Rightarrow> prop_concat_source option \<Rightarrow> (nat \<times> prop_concat_source) list
    \<Rightarrow> prop_concat_source option \<times> pid option" where
  "find_before tg b prev [] = (None, None)"
| "find_before tg b prev ((j, s) # q) =
     (if pcs_header s = Some b then (prev, None)
      else case prop_tag_get b j tg of
             Some bb \<Rightarrow> (Some s, Some bb)
           | None \<Rightarrow> find_before tg b (Some s) q)"

definition req_move :: "pid \<Rightarrow> pid option \<Rightarrow> prop_concat \<Rightarrow> prop_concat option" where
  "req_move p b w =
     (case find (\<lambda>(j, _). prop_tag_get p j (pc_tags w) \<noteq> None) (pc_queue w) of
        None \<Rightarrow> Some w
      | Some (j, ps) \<Rightarrow>
          do { pp \<leftarrow> prop_tag_get p j (pc_tags w);
               (case b of
                  None \<Rightarrow> pc_run (prop_req_move0 pp None (pcs_srcsub ps)) w
                | Some bx \<Rightarrow>
                    (case find_before (pc_tags w) bx None (pc_queue w) of
                       (bs, bb) \<Rightarrow>
                         if (case bs of None \<Rightarrow> True | Some s \<Rightarrow> pcs_index s < pcs_index ps) then
                           (case hp_parent (props (pc_props w) pp) of
                              None \<Rightarrow> None
                            | Some d \<Rightarrow>
                                (case hp_childs (pc_props w) d of
                                   [] \<Rightarrow> None
                                 | c # _ \<Rightarrow> pc_run (prop_req_move0 pp (Some c) (pcs_srcsub ps)) w))
                         else if (case bs of None \<Rightarrow> False | Some s \<Rightarrow> pcs_index ps < pcs_index s) then
                           pc_run (prop_req_move0 pp None (pcs_srcsub ps)) w
                         else pc_run (prop_req_move0 pp bb (pcs_srcsub ps)) w)) })"

definition concat_dst_cb :: "prop_notify_t \<Rightarrow> prop_concat \<Rightarrow> prop_concat option" where
  "concat_dst_cb n w =
     (case (hpn_event n, hpn_val n) of
        (EV_REQ_MOVE_CHILD, NV_prop (Some p)) \<Rightarrow> req_move p (hpn_prop_extra n) w
      | (EV_REQ_MOVE_CHILD, _) \<Rightarrow> None
      | (EV_DESTROYED, _) \<Rightarrow> prop_concat_release0 w
      | _ \<Rightarrow> Some w)"

section \<open>Creating\<close>

text \<open>The calls made to the subscription of source \<open>k\<close> while it is being made.\<close>

definition prop_concat_add_source :: "pid \<Rightarrow> pid option \<Rightarrow> prop_concat \<Rightarrow> prop_concat option" where
  "prop_concat_add_source src header w =
     (let k = pc_index_tally w;
          w1 = w\<lparr>pc_refs := pc_refs w + 1,
                 pc_queue := pc_queue w @ [(k, \<lparr>pcs_srcsub = None, pcs_first = None, pcs_header = header,
                                                pcs_count = 0, pcs_index = 0\<rparr>)]\<rparr>
      in do {
        (so, st1) \<leftarrow> prop_subscribe {PROP_SUB_INTERNAL, PROP_SUB_DONTLOCK, PROP_SUB_TRACK_DESTROY}
                        [TAG_CALLBACK 1 k, TAG_ROOT (Some src)] (pc_props w1);
        w2 \<leftarrow> ofold (concat_src_cb k)
                (filter (\<lambda>n. hpn_sub n = snext (pc_props w)) (drop (length (calls (pc_props w))) (calls st1)))
                (w1\<lparr>pc_props := st1\<rparr>);
        Some ((upd_pcs k (\<lambda>s. s\<lparr>pcs_srcsub := so, pcs_index := int k\<rparr>) w2)\<lparr>pc_index_tally := Suc k\<rparr>) })"

definition prop_concat_create :: "pid \<Rightarrow> pst \<Rightarrow> prop_concat option" where
  "prop_concat_create dst st =
     do { (so, st1) \<leftarrow> prop_subscribe {PROP_SUB_INTERNAL, PROP_SUB_DONTLOCK, PROP_SUB_TRACK_DESTROY}
                         [TAG_CALLBACK 2 0, TAG_ROOT (Some dst)] (prop_ref_inc (Some dst) st);
          Some \<lparr>pc_queue = [], pc_dst = dst, pc_dstsub = so, pc_index_tally = 0, pc_refs = 2,
                pc_tags = (\<lambda>_. []), pc_props = st1\<rparr> }"

definition prop_concat_release :: "prop_concat \<Rightarrow> prop_concat option" where
  "prop_concat_release w = prop_concat_release0 w"

section \<open>Beside the property system\<close>

text \<open>
  An operation on the property system and the callbacks it makes to the concatenation, which are
  handled in order.
\<close>

definition concat_call :: "prop_notify_t \<Rightarrow> prop_concat \<Rightarrow> prop_concat option" where
  "concat_call n w =
     (if pc_dstsub w = Some (hpn_sub n) then concat_dst_cb n w
      else case find (\<lambda>(_, s). pcs_srcsub s = Some (hpn_sub n)) (pc_queue w) of
             None \<Rightarrow> Some w
           | Some (k, _) \<Rightarrow> concat_src_cb k n w)"

definition concat_do :: "(pst \<Rightarrow> pst option) \<Rightarrow> prop_concat \<Rightarrow> prop_concat option" where
  "concat_do f w =
     do { st1 \<leftarrow> f (pc_props w);
          ofold concat_call (drop (length (calls (pc_props w))) (calls st1)) (w\<lparr>pc_props := st1\<rparr>) }"

end
