(* ===== verification/Prop_Outs.thy ===== *)
theory Prop_Outs
  imports Prop_Mirror
begin

text \<open>
  Output properties: the lists derived from other lists (\<open>prop_concat.c\<close>, \<open>prop_reorder.c\<close>,
  \<open>prop_window.c\<close>) stand on a directory whose children are new properties, each linked to a child
  of a source. This theory has the laws of the operations they use, on such properties: making
  and linking one, putting it into the directory, moving it there, destroying it.
\<close>

section \<open>Lists\<close>

lemma map_filter_append [simp]: "List.map_filter f (xs @ ys) = List.map_filter f xs @ List.map_filter f ys"
  by (simp add: List.map_filter_def)

lemma map_filter_set: "y \<in> set (List.map_filter f xs) \<longleftrightarrow> (\<exists>x \<in> set xs. f x = Some y)"
  by (force simp: List.map_filter_def)

lemma map_filter_cong: "(\<And>x. x \<in> set xs \<Longrightarrow> f x = g x) \<Longrightarrow> List.map_filter f xs = List.map_filter g xs"
  by (induction xs) (auto simp: List.map_filter_simps split: option.split)

lemma map_filter_inj:
  "distinct (List.map_filter f xs) \<Longrightarrow> a \<in> set xs \<Longrightarrow> b \<in> set xs \<Longrightarrow> f a = Some y \<Longrightarrow> f b = Some y \<Longrightarrow> distinct xs \<Longrightarrow> a = b"
proof (induction xs)
  case (Cons x xs)
  then show ?case by (auto simp: List.map_filter_simps map_filter_set split: option.splits)
qed simp

lemma map_filter_remove:
  assumes "distinct (List.map_filter f (A @ q # B))"
  shows "List.map_filter f (A @ B) = (case f q of None \<Rightarrow> List.map_filter f (A @ q # B)
     | Some x \<Rightarrow> remove1 x (List.map_filter f (A @ q # B)))"
  using assms by (auto simp: List.map_filter_simps remove1_append split: option.split)

lemma insert_before_in: "b \<notin> set A \<Longrightarrow> insert_before b x (A @ b # B) = A @ x # b # B"
  by (induction A) auto

lemma split_eq: "A @ b # B = C @ b # D \<Longrightarrow> b \<notin> set A \<Longrightarrow> b \<notin> set C \<Longrightarrow> A = C \<and> B = D"
proof (induction A arbitrary: C)
  case Nil then show ?case by (cases C) auto
next
  case (Cons a A) then show ?case by (cases C) auto
qed

section \<open>What an operation leaves alone\<close>

text \<open>All of a property but its reference count and its subscriptions.\<close>

definition tcore :: "prop_t \<Rightarrow> prop_t" where
  "tcore x = x\<lparr>hp_refcount := 0, hp_value_subscriptions := [], hp_canonical_subscriptions := []\<rparr>"

definition same_at :: "pst \<Rightarrow> pst \<Rightarrow> pid \<Rightarrow> bool" where
  "same_at st st' x \<longleftrightarrow> tcore (props st' x) = tcore (props st x)"

definition same_core :: "pst \<Rightarrow> pst \<Rightarrow> bool" where
  "same_core st st' \<longleftrightarrow> pnext st' = pnext st \<and> pnq st' = pnq st \<and> (\<forall>x. same_at st st' x)"

lemma same_atD:
  assumes "same_at st st' x"
  shows "type_of st' x = type_of st x" "hp_parent (props st' x) = hp_parent (props st x)"
    "hp_name (props st' x) = hp_name (props st x)"
    "hp_originator (props st' x) = hp_originator (props st x)"
    "hp_targets (props st' x) = hp_targets (props st x)" "hp_xref (props st' x) = hp_xref (props st x)"
    "hp_flags (props st' x) = hp_flags (props st x)"
  using assms by (cases "props st x"; cases "props st' x"; simp add: same_at_def tcore_def type_of_def)+

lemma same_at_refl [simp]: "same_at st st x"
  by (simp add: same_at_def)

lemma same_at_trans: "same_at st st1 x \<Longrightarrow> same_at st1 st2 x \<Longrightarrow> same_at st st2 x"
  by (simp add: same_at_def)

lemma same_core_refl [simp]: "same_core st st"
  by (simp add: same_core_def)

lemma same_core_trans: "same_core st st1 \<Longrightarrow> same_core st1 st2 \<Longrightarrow> same_core st st2"
  unfolding same_core_def using same_at_trans by metis

lemma same_coreD:
  assumes "same_core st st'"
  shows "pnext st' = pnext st" "pnq st' = pnq st" "same_at st st' x"
    "type_of st' x = type_of st x" "hp_parent (props st' x) = hp_parent (props st x)"
    "hp_originator (props st' x) = hp_originator (props st x)"
    "hp_targets (props st' x) = hp_targets (props st x)" "hp_xref (props st' x) = hp_xref (props st x)"
    "hp_flags (props st' x) = hp_flags (props st x)"
  using assms same_atD[of st st' x] by (simp_all add: same_core_def)

lemma shape_same_core: "shape st' = shape st \<Longrightarrow> same_core st st'"
  by (auto simp: same_core_def same_at_def tcore_def shape_def fun_eq_iff)

lemma same_core_upd_sub [simp]: "same_core st (upd_sub s f st)"
  by (simp add: same_core_def same_at_def)

lemma same_core_fold: "(\<And>x u. same_core u (f x u)) \<Longrightarrow> same_core st (fold f xs st)"
  by (induction xs arbitrary: st) (auto intro: same_core_trans)

lemma same_core_upd_prop: "(\<And>x. tcore (f x) = tcore x) \<Longrightarrow> same_core st (upd_prop p f st)"
  by (simp add: same_core_def same_at_def)

lemma same_core_drop_subs: "same_core st (drop_subs p st)"
proof -
  have c: "same_core u (drop_canonical_sub p s u)" for s u
  proof -
    let ?u = "upd_sub s (\<lambda>x. x\<lparr>hps_canonical_prop := None\<rparr>)
      (upd_prop p (\<lambda>x. x\<lparr>hp_canonical_subscriptions := remove1 s (hp_canonical_subscriptions x)\<rparr>) u)"
    have a: "same_core u ?u"
      by (rule same_core_trans[OF same_core_upd_prop same_core_upd_sub]) (simp add: tcore_def)
    have "same_core ?u (prop_notify_destroyed s ?u)" by (rule shape_same_core) simp
    then show ?thesis using a same_core_trans[OF a] by (simp add: drop_canonical_sub_def Let_def)
  qed
  have v: "same_core u (drop_value_sub p s u)" for s u
  proof -
    let ?u = "if tracks_destroy (hps_flags (subs u s)) then u else prop_notify_void s u"
    have a: "same_core u ?u" by (simp add: shape_same_core)
    have "same_core ?u (unlink_value_sub s p ?u)"
      unfolding unlink_value_sub_def by (rule same_core_upd_prop) (simp add: tcore_def)
    from same_core_trans[OF same_core_trans[OF a this] same_core_upd_sub] show ?thesis
      by (simp add: drop_value_sub_def Let_def)
  qed
  show ?thesis unfolding drop_subs_def Let_def
    by (rule same_core_trans[OF same_core_fold[OF c] same_core_fold[OF v]])
qed

section \<open>Making and linking\<close>

lemma relink_nothing:
  assumes "follow_originator k st src = Some r" "r \<noteq> dst" "hp_value_subscriptions (props st dst) = []"
    "\<not> is_dir (type_of st dst)"
  shows "relink_subscriptions k src dst sk pv st = Some st"
  using assms by (induction k arbitrary: src pv) (auto split: option.splits)

lemma follow_more: "follow_originator k st p = Some r \<Longrightarrow> k \<le> n \<Longrightarrow> follow_originator n st p = Some r"
proof (induction k arbitrary: p n)
  case 0 then show ?case by simp
next
  case (Suc k)
  then obtain m where "n = Suc m" by (cases n) auto
  with Suc show ?case by (auto split: option.splits)
qed

lemma follow_fresh:
  assumes "tree_ok st" "p < pnext st" "follow_originator k st p = Some r"
    and "\<And>x. x < pnext st \<Longrightarrow> hp_originator (props st' x) = hp_originator (props st x)"
  shows "follow_originator k st' p = Some r"
  using assms(2,3)
proof (induction k arbitrary: p)
  case 0 then show ?case by simp
next
  case (Suc k)
  then show ?case using assms(4)[of p] tree_okD(4)[OF assms(1), of p]
    by (auto split: option.splits)
qed

text \<open>A new property, linked to \<open>p\<close>.\<close>

lemma make_link:
  assumes t: "tree_ok st" and p: "p < pnext st" "type_of st p \<noteq> PROP_ZOMBIE"
    and f: "follow_originator (Suc (pnext st)) st p = Some r"
  obtains st2 where "prop_link0 p (pnext st) None PROP_LINK_NORMAL (snd (prop_make nm na None st)) = Some st2"
    "pnext st2 = Suc (pnext st)" "tree_ok st2" "\<And>x. x \<noteq> pnext st \<Longrightarrow> x \<noteq> p \<Longrightarrow> same_at st st2 x"
    "type_of st2 (pnext st) = PROP_VOID" "hp_parent (props st2 (pnext st)) = None"
    "hp_targets (props st2 (pnext st)) = []" "hp_xref (props st2 (pnext st)) = 1"
    "hp_flags (props st2 (pnext st)) = (if na then {PROP_NAME_NOT_ALLOCATED} else {})" "hp_originator (props st2 (pnext st)) = Some p"
    "type_of st2 p = type_of st p" "hp_parent (props st2 p) = hp_parent (props st p)"
    "hp_originator (props st2 p) = hp_originator (props st p)" "hp_flags (props st2 p) = hp_flags (props st p)"
    "hp_name (props st2 p) = hp_name (props st p)"
proof -
  define o1 where "o1 = pnext st"
  define st1 where "st1 = snd (prop_make nm na None st)"
  define st2 where "st2 = upd_prop p (\<lambda>x. x\<lparr>hp_targets := o1 # hp_targets x\<rparr>)
                    (upd_prop o1 (\<lambda>x. x\<lparr>hp_originator := Some p\<rparr>) st1)"
  have n: "p \<noteq> o1" using p(1) by (simp add: o1_def)
  have q: "pnq st = []" using tree_okD(7)[OF t] .
  have pr: "props st1 = (props st)(o1 := \<lparr>hp_refcount = 1, hp_name = nm, hp_parent = None,
      hp_value_subscriptions = [], hp_canonical_subscriptions = [], hp_originator = None, hp_targets = [],
      hp_type = PROP_VOID, hp_xref = 1, hp_flags = (if na then {PROP_NAME_NOT_ALLOCATED} else {})\<rparr>)" "pnext st1 = Suc o1" "pnq st1 = []"
    using q by (simp_all add: st1_def prop_make_def o1_def)
  have "hp_originator (props st2 x) = hp_originator (props st x)" if "x < pnext st" for x
    using that n by (simp add: st2_def pr o1_def)
  from follow_fresh[OF t p(1) f this] have f2: "follow_originator (Suc (pnext st)) st2 p = Some r" by blast
  have rn: "r \<noteq> o1" using follow_originator_less[OF t p(1) f] by (simp add: o1_def)
  have "relink_subscriptions (Suc (pnext st2 + pnext st2)) p o1 None [o1] st2 = Some st2"
    by (rule relink_nothing[OF follow_more[OF f2] rn]) (use n in \<open>simp_all add: st2_def pr type_of_def o1_def[symmetric]\<close>)
  note rl = this
  have e: "st1\<lparr>pnq := []\<rparr> = st1" "st2\<lparr>pnq := []\<rparr> = st2" "pnq st2 = []"
    by (rule pst.equality; simp add: pr st2_def)+ (simp add: pr st2_def)
  have nx: "pnext st2 = pnext st1" by (simp add: st2_def)
  have ty: "type_of st1 p \<noteq> PROP_ZOMBIE" "type_of st1 o1 \<noteq> PROP_ZOMBIE" "hp_originator (props st1 o1) = None"
    using n p(2) by (simp_all add: pr type_of_def)
  have l: "prop_link0 p o1 None PROP_LINK_NORMAL st1 = Some st2"
    unfolding prop_link0_def prop_link0_with_def
    using n ty rl e nx by (simp add: st2_def[symmetric] Let_def del: relink_subscriptions.simps)
  have "go (\<lambda>_. True) st st1" using tree.make_new[of st None nm na] t by (simp add: st1_def ok_def)
  then have "tree_ok st1" by (simp add: go_def ok_def)
  then have k1: "tree_ok st1" .
  have k2: "tree_ok (upd_prop o1 (\<lambda>x. x\<lparr>hp_originator := Some p\<rparr>) st1)"
    by (rule tree_ok_upd_prop[OF k1]) (use p(1) tree_okD[OF k1] in \<open>auto simp: pr o1_def\<close>)
  have "tree_ok st2" unfolding st2_def
    by (rule tree_ok_upd_prop[OF k2])
       (use n p(1) tree_okD(4)[OF t, of p] tree_okD(5)[OF t, of _ p] in \<open>auto simp: pr o1_def less_SucI\<close>)
  from that[OF l[unfolded o1_def st1_def] _ this] show ?thesis
    using n by (simp add: st2_def pr type_of_def same_at_def o1_def)
qed

section \<open>The destination\<close>

text \<open>A directory with the children \<open>cs\<close>, and one of them that stands for \<open>p\<close>.\<close>

definition dest :: "pst \<Rightarrow> pid \<Rightarrow> pid list \<Rightarrow> bool" where
  "dest st d cs \<longleftrightarrow> d < pnext st \<and> is_dir (type_of st d) \<and> hp_childs st d = cs
     \<and> PROP_MULTI_SUB \<notin> hp_flags (props st d) \<and> PROP_MULTI_NOTIFY \<notin> hp_flags (props st d)"

definition outp :: "pst \<Rightarrow> pid \<Rightarrow> pid \<Rightarrow> pid \<Rightarrow> bool" where
  "outp st d p x \<longleftrightarrow> x < pnext st \<and> type_of st x = PROP_VOID \<and> hp_targets (props st x) = []
     \<and> hp_xref (props st x) = 1 \<and> PROP_XREFED_ORIGINATOR \<notin> hp_flags (props st x)
     \<and> hp_parent (props st x) = Some d \<and> hp_originator (props st x) \<in> {None, Some p}"

definition only :: "pid set \<Rightarrow> pst \<Rightarrow> pst \<Rightarrow> bool" where
  "only D st st' \<longleftrightarrow> tree_ok st' \<and> pnext st \<le> pnext st' \<and> (\<forall>x < pnext st. x \<notin> D \<longrightarrow> same_at st st' x)"

lemma onlyD:
  assumes "only D st st'"
  shows "tree_ok st'" "pnext st \<le> pnext st'" "x < pnext st \<Longrightarrow> x \<notin> D \<Longrightarrow> same_at st st' x"
  using assms by (simp_all add: only_def)

lemma only_trans: "only D st st1 \<Longrightarrow> only E st1 st2 \<Longrightarrow> only (D \<union> E) st st2"
  unfolding only_def using same_at_trans by (metis UnCI le_trans less_le_trans)

lemma only_mono: "only D st st' \<Longrightarrow> D \<subseteq> E \<Longrightarrow> only E st st'"
  by (auto simp: only_def)

lemma dest_same: "same_at st st' d \<Longrightarrow> pnext st \<le> pnext st' \<Longrightarrow> dest st d cs \<Longrightarrow> dest st' d cs"
  using same_atD[of st st' d] by (simp add: dest_def)

lemma outp_same: "same_at st st' x \<Longrightarrow> pnext st \<le> pnext st' \<Longrightarrow> outp st d p x \<Longrightarrow> outp st' d p x"
  using same_atD[of st st' x] by (simp add: outp_def)

lemma outp_only: "only D st st' \<Longrightarrow> x \<notin> D \<Longrightarrow> outp st d p x \<Longrightarrow> outp st' d p x"
  by (rule outp_same[OF onlyD(3) onlyD(2)]) (auto simp: outp_def)

lemma child_facts:
  assumes "tree_ok st" "dest st d cs" "c \<in> set cs"
  shows "hp_parent (props st c) = Some d" "c < pnext st"
  using assms tree_okD[OF assms(1)] by (auto simp: dest_def)

lemma place_facts:
  "set (place b p cs) = insert p (set cs)" "distinct (place b p cs) \<longleftrightarrow> p \<notin> set cs \<and> distinct cs"
  by (auto simp: place_def queue_simps split: option.split)

lemma set_childs_more [simp]:
  "hp_flags (props (set_childs q cs st) x) = hp_flags (props st x)"
  "hp_originator (props (set_childs q cs st) x) = hp_originator (props st x)"
  by (simp_all add: set_childs_def)

lemma child2_total: "\<exists>st'. prop_notify_child2 (Some p) q ex ev sk st = Some st' \<and> shape st' = shape st"
  unfolding prop_notify_child2_def
  by (rule ofold_total[where P = "\<lambda>u. shape u = shape st"]) (auto simp: prop_build_notify_child2_def Let_def)

lemma enter:
  assumes t: "tree_ok st" and d: "dest st d cs" and x: "hp_parent (props st x) = None" "x < pnext st" "x \<noteq> d"
    and b: "\<And>y. bf = Some y \<Longrightarrow> y \<in> set cs"
  shows "\<exists>st'. prop_set_parent0 x d bf sk st = Some (True, st') \<and> pnext st' = pnext st \<and> dest st' d (place bf x cs)
    \<and> only {x, d} st st' \<and> hp_parent (props st' x) = Some d \<and> type_of st' x = type_of st x
    \<and> hp_targets (props st' x) = hp_targets (props st x) \<and> hp_xref (props st' x) = hp_xref (props st x)
    \<and> hp_flags (props st' x) = hp_flags (props st x) \<and> hp_originator (props st' x) = hp_originator (props st x)
    \<and> hp_originator (props st' d) = hp_originator (props st d) \<and> (\<forall>y. hp_name (props st' y) = hp_name (props st y))"
proof -
  define st1 where "st1 = upd_prop x (\<lambda>x. x\<lparr>hp_parent := Some d\<rparr>) st"
  define st2 where "st2 = set_childs d (place bf x cs) st1"
  have z: "type_of st d \<noteq> PROP_ZOMBIE" using d by (auto simp: dest_def)
  have dc: "is_dir (type_of st1 d)" "hp_childs st1 d = cs" using d x(3) by (simp_all add: st1_def dest_def type_of_def)
  have bp: "hp_parent (props st1 y) = Some d" if "bf = Some y" for y
    using child_facts(1)[OF t d b[OF that]] x(1) by (auto simp: st1_def)
  have "\<exists>st'. prop_insert x d bf sk st1 = Some st' \<and> shape st' = shape st2"
  proof (cases bf)
    case None then show ?thesis using dc by (simp add: prop_insert_def st2_def place_def)
  next
    case (Some y)
    obtain st' where "prop_notify_child2 (Some x) d bf EV_ADD_CHILD_BEFORE sk st2 = Some st'" "shape st' = shape st2"
      using child2_total by blast
    then show ?thesis using dc bp[OF Some] Some
      by (auto simp: prop_insert_def st2_def place_def)
  qed
  then obtain st' where i: "prop_insert x d bf sk st1 = Some st'" and s: "shape st' = shape st2" by blast
  note sc = same_coreD[OF shape_same_core[OF s]]
  have r: "prop_set_parent0 x d bf sk st = Some (True, st')"
    using z d x(1) i by (simp add: prop_set_parent0_def prop_make_dir_def dest_def prop_unparent0_def
        inherit_multi_def st1_def[symmetric]) (use x(3) in \<open>simp add: st1_def inherit_multi_def\<close>)
  have nx: "x \<notin> set (hp_childs st q)" for q using tree_okD(2)[OF t, of x q] x(1) by auto
  have "tree_ok st1" unfolding st1_def
    by (rule tree_ok_upd_prop[OF t]) (use nx d tree_okD[OF t] in \<open>auto simp: dest_def\<close>)
  from tree_ok_insert(1)[OF this _ _ _ i] have t': "tree_ok st'"
    using x nx[of d] dc d by (simp add: st1_def dest_def)
  have o: "only {x, d} st st'"
    using t' sc(1,3) by (auto simp: only_def same_at_def st2_def st1_def set_childs_def)
  have f: "props st2 x = (props st x)\<lparr>hp_parent := Some d\<rparr>" "pnext st2 = pnext st"
    "props st2 d = (props st d)\<lparr>hp_type := PROP_DIR (place bf x cs) (hp_selected st d)\<rparr>"
    using x(3) by (simp_all add: st2_def st1_def set_childs_def type_of_def)
  then have g: "type_of st2 x = type_of st x" "type_of st2 d = PROP_DIR (place bf x cs) (hp_selected st d)"
    by (simp_all add: type_of_def)
  have nm: "hp_name (props st' y) = hp_name (props st y)" for y
    using same_atD(3)[OF sc(3)[of y]] by (simp add: st2_def st1_def set_childs_def)
  show ?thesis using r o d sc f g nm by (auto simp: dest_def)
qed

lemma shift:
  assumes t: "tree_ok st" and d: "dest st d cs" and x: "x \<in> set cs"
    and b: "\<And>y. bf = Some y \<Longrightarrow> y \<in> set cs \<and> y \<noteq> x"
  shows "\<exists>st'. prop_move0 x bf sk st = Some st' \<and> pnext st' = pnext st \<and> dest st' d (place bf x (remove1 x cs))
    \<and> only {d} st st' \<and> (\<forall>y. hp_originator (props st' y) = hp_originator (props st y))
    \<and> (\<forall>y. hp_name (props st' y) = hp_name (props st y))"
proof -
  define st2 where "st2 = set_childs d (place bf x (remove1 x cs)) st"
  note cf = child_facts[OF t d]
  have dc: "is_dir (type_of st d)" "hp_childs st d = cs" "distinct cs"
    using d tree_okD(6)[OF t, of d] by (auto simp: dest_def)
  have p: "hp_parent (props st x) = Some d" "\<And>y. bf = Some y \<Longrightarrow> hp_parent (props st y) = Some d"
    using cf b x by auto
  have "\<exists>st'. prop_move0 x bf sk st = Some st' \<and> shape st' = shape st2"
  proof (cases "next_of x cs = bf")
    case True
    then have "place bf x (remove1 x cs) = cs"
      using insert_before_next[OF dc(3) x] append_next_None[OF dc(3) x] by (auto simp: place_def split: option.split)
    then have "shape st2 = shape st"
      using is_dirE[OF dc(1)] dc(2) by (auto simp: st2_def set_childs_def shape_def fun_eq_iff type_of_def)
    then show ?thesis using True dc p b by (auto simp: prop_move0_def Let_def split: option.split)
  next
    case False
    obtain st' where "prop_notify_child2 (Some x) d bf EV_MOVE_CHILD sk st2 = Some st'" "shape st' = shape st2"
      using child2_total by blast
    then show ?thesis using False dc p b
      by (auto simp: prop_move0_def Let_def st2_def place_def split: option.split)
  qed
  then obtain st' where r: "prop_move0 x bf sk st = Some st'" and s: "shape st' = shape st2" by blast
  note sc = same_coreD[OF shape_same_core[OF s]]
  from tree_ok_move[OF t r] cf(2)[OF x] have "tree_ok st'" by blast
  then have o: "only {d} st st'"
    using sc(1,3) by (auto simp: only_def same_at_def st2_def set_childs_def)
  have "hp_originator (props st' y) = hp_originator (props st y)" for y
    using sc(6)[of y] by (simp add: st2_def)
  moreover have "hp_name (props st' y) = hp_name (props st y)" for y
    using same_atD(3)[OF sc(3)[of y]] by (simp add: st2_def set_childs_def)
  ultimately show ?thesis using r o d sc by (auto simp: dest_def st2_def)
qed

lemma leave_dest:
  assumes t: "tree_ok st" and d: "dest st d cs" and x: "x \<in> set cs" "PROP_MULTI_NOTIFY \<notin> hp_flags (props st x)" "x \<noteq> d"
  shows "\<exists>st'. prop_unparent0 x st = Some st' \<and> pnext st' = pnext st \<and> dest st' d (remove1 x cs)
    \<and> only {x, d} st st' \<and> hp_parent (props st' x) = None \<and> hp_flags (props st' x) = hp_flags (props st x)
    \<and> hp_originator (props st' d) = hp_originator (props st d) \<and> hp_originator (props st' x) = hp_originator (props st x)"
proof -
  define st1 where "st1 = prop_notify_child (Some x) d EV_DEL_CHILD None st"
  have s: "shape st1 = shape st" by (simp add: st1_def)
  note sc = same_coreD[OF shape_same_core[OF s]]
  have p: "hp_parent (props st x) = Some d" using child_facts[OF t d x(1)] by blast
  have dc: "is_dir (type_of st1 d)" "hp_childs st1 d = cs" using d sc by (auto simp: dest_def)
  define st2 where "st2 = upd_prop x (\<lambda>x. x\<lparr>hp_parent := None\<rparr>) (set_childs d (remove1 x cs) st1)"
  have r: "prop_unparent0 x st = Some (deselect d x st2)"
    using p x(2) dc by (simp add: prop_unparent0_def st1_def[symmetric] remove_child_def st2_def)
  have "tree_ok (deselect d x st2)" using tree.unparent0(1)[OF _ r] t by (auto simp: ok_def go_def)
  moreover have f: "props st2 x = (props st1 x)\<lparr>hp_parent := None\<rparr>" "pnext st2 = pnext st1"
    "props st2 d = (props st1 d)\<lparr>hp_type := PROP_DIR (remove1 x cs) (hp_selected st1 d)\<rparr>"
    using x(3) by (simp_all add: st2_def set_childs_def type_of_def)
  moreover have g: "props (deselect d x st2) y = (if y = d then (props st2 d)\<lparr>hp_type := PROP_DIR (remove1 x cs)
      (if hp_selected st1 d = Some x then None else hp_selected st1 d)\<rparr> else props st2 y)"
      "pnext (deselect d x st2) = pnext st2" for y
    using f(3) by (simp_all add: deselect_def set_selected_def type_of_def)
  ultimately have o: "only {x, d} st (deselect d x st2)"
    using sc(1,3) by (auto simp: only_def same_at_def st2_def set_childs_def)
  show ?thesis using r o d sc f g x(3) by (auto simp: dest_def type_of_def)
qed

lemma put:
  assumes t: "tree_ok st" and d: "dest st d cs" and p: "p < pnext st" "type_of st p \<noteq> PROP_ZOMBIE"
    and f: "follow_originator (Suc (pnext st)) st p = Some r" and b: "\<And>y. bf = Some y \<Longrightarrow> y \<in> set cs"
  shows "\<exists>st2 st3. prop_link0 p (pnext st) None PROP_LINK_NORMAL (snd (prop_make nm na None st)) = Some st2
    \<and> prop_set_parent0 (pnext st) d bf sk st2 = Some (True, st3) \<and> pnext st3 = Suc (pnext st)
    \<and> dest st3 d (place bf (pnext st) cs) \<and> outp st3 d p (pnext st) \<and> hp_originator (props st3 (pnext st)) = Some p
    \<and> only {p, d} st st3
    \<and> (\<forall>x < pnext st. hp_originator (props st3 x) = hp_originator (props st x)
         \<and> (type_of st x \<noteq> PROP_ZOMBIE \<longrightarrow> type_of st3 x \<noteq> PROP_ZOMBIE))
    \<and> (\<forall>x < pnext st. hp_name (props st3 x) = hp_name (props st x))"
proof -
  obtain st2 where l: "prop_link0 p (pnext st) None PROP_LINK_NORMAL (snd (prop_make nm na None st)) = Some st2"
    and 2: "pnext st2 = Suc (pnext st)" "tree_ok st2" "\<And>x. x \<noteq> pnext st \<Longrightarrow> x \<noteq> p \<Longrightarrow> same_at st st2 x"
    "type_of st2 (pnext st) = PROP_VOID" "hp_parent (props st2 (pnext st)) = None"
    "hp_targets (props st2 (pnext st)) = []" "hp_xref (props st2 (pnext st)) = 1"
    "hp_flags (props st2 (pnext st)) = (if na then {PROP_NAME_NOT_ALLOCATED} else {})" "hp_originator (props st2 (pnext st)) = Some p"
    and 3: "type_of st2 p = type_of st p" "hp_parent (props st2 p) = hp_parent (props st p)"
    "hp_originator (props st2 p) = hp_originator (props st p)" "hp_flags (props st2 p) = hp_flags (props st p)"
    "hp_name (props st2 p) = hp_name (props st p)"
    using make_link[OF t p f, of nm na] by blast
  have n: "d \<noteq> pnext st" using d by (simp add: dest_def)
  have d2: "dest st2 d cs"
  proof (cases "d = p")
    case True then show ?thesis using d 2(1) 3 by (simp add: dest_def)
  next
    case False then show ?thesis using dest_same[OF 2(3) _ d] n 2(1) by simp
  qed
  obtain st3 where e: "prop_set_parent0 (pnext st) d bf sk st2 = Some (True, st3)" "pnext st3 = pnext st2"
    "dest st3 d (place bf (pnext st) cs)" and o: "only {pnext st, d} st2 st3"
    and x: "hp_parent (props st3 (pnext st)) = Some d" "type_of st3 (pnext st) = type_of st2 (pnext st)"
    "hp_targets (props st3 (pnext st)) = hp_targets (props st2 (pnext st))"
    "hp_xref (props st3 (pnext st)) = hp_xref (props st2 (pnext st))"
    "hp_flags (props st3 (pnext st)) = hp_flags (props st2 (pnext st))"
    "hp_originator (props st3 (pnext st)) = hp_originator (props st2 (pnext st))"
    "hp_originator (props st3 d) = hp_originator (props st2 d)" "\<forall>y. hp_name (props st3 y) = hp_name (props st2 y)"
    using enter[OF 2(2) d2 2(5) _ n[symmetric], of bf sk] b 2(1) by auto
  have "same_at st st3 y" if "y < pnext st" "y \<notin> {p, d}" for y
    by (rule same_at_trans[OF 2(3) onlyD(3)[OF o]]) (use that 2(1) in auto)
  then have a: "only {p, d} st st3" using onlyD[OF o] 2(1) by (simp add: only_def)
  have "hp_originator (props st3 y) = hp_originator (props st y) \<and> (type_of st y \<noteq> PROP_ZOMBIE \<longrightarrow> type_of st3 y \<noteq> PROP_ZOMBIE)"
    if y: "y < pnext st" for y
  proof -
    have "hp_originator (props st2 y) = hp_originator (props st y) \<and> type_of st2 y = type_of st y"
      using 3 same_atD[OF 2(3)[of y]] y by (cases "y = p") auto
    moreover have "hp_originator (props st3 y) = hp_originator (props st2 y) \<and> (y \<noteq> d \<longrightarrow> type_of st3 y = type_of st2 y)"
      using x(7) same_atD[OF onlyD(3)[OF o, of y]] y 2(1) by (cases "y = d") auto
    moreover have "type_of st3 d \<noteq> PROP_ZOMBIE" using e(3) by (auto simp: dest_def)
    ultimately show ?thesis by metis
  qed
  moreover have "outp st3 d p (pnext st)" using x 2 e(2) by (simp add: outp_def split: if_splits)
  moreover have "hp_name (props st3 y) = hp_name (props st y)" if "y < pnext st" for y
    using 3(5) same_atD(3)[OF 2(3)[of y]] x(8) that by (cases "y = p") auto
  ultimately show ?thesis using l e a x(6) 2(1,9) by auto
qed

lemma ref_dec_zombie:
  "type_of st p = PROP_ZOMBIE \<Longrightarrow> \<exists>st'. prop_ref_dec_locked (Some p) st = Some st' \<and> shape st' = shape st"
  by (simp add: prop_ref_dec_locked_def Let_def shape_upd_ref type_of_def)

lemma deselect_props:
  "props (deselect q p st) y = (if y = q \<and> hp_selected st q = Some p
     then (props st q)\<lparr>hp_type := PROP_DIR (hp_childs st q) None\<rparr> else props st y)"
  "pnext (deselect q p st) = pnext st"
  by (simp_all add: deselect_def set_selected_def)

lemma drop:
  assumes t: "tree_ok st" and d: "dest st d cs" and x: "outp st d p x" "x \<in> set cs" "x \<noteq> d" "p \<noteq> x"
  shows "\<exists>st'. destroy_now x st = Some (True, st') \<and> pnext st' = pnext st \<and> dest st' d (remove1 x cs)
    \<and> only {x, d, p} st st' \<and> (p \<noteq> d \<longrightarrow> type_of st' p = type_of st p \<and> hp_parent (props st' p) = hp_parent (props st p)
      \<and> hp_flags (props st' p) = hp_flags (props st p))
    \<and> (\<forall>y. y \<noteq> x \<longrightarrow> hp_originator (props st' y) = hp_originator (props st y))
    \<and> (hp_originator (props st' x) = None)
    \<and> (\<forall>y. y \<noteq> x \<longrightarrow> y \<noteq> d \<longrightarrow> type_of st' y = type_of st y)
    \<and> (\<forall>y. hp_name (props st' y) = hp_name (props st y))"
proof -
  note o = x(1)[unfolded outp_def]
  define st1 where "st1 = upd_prop x (\<lambda>x. x\<lparr>hp_xref := (hp_xref x + 255) mod 256\<rparr>) st"
  define st2 where "st2 = set_type x PROP_ZOMBIE (notify_del_child True x d st1)"
  define st3 where "st3 = drop_subs x st2"
  define st4 where "st4 = (case hp_originator (props st x) of None \<Rightarrow> st3
     | Some q \<Rightarrow> upd_prop x (\<lambda>y. y\<lparr>hp_originator := None\<rparr>) (upd_prop q (\<lambda>y. y\<lparr>hp_targets := remove1 x (hp_targets y)\<rparr>) st3))"
  have "same_core (notify_del_child True x d st1) st1" by (rule shape_same_core) simp
  have "shape (notify_del_child True x d st1) = shape st1" by simp
  note s2 = same_coreD[OF shape_same_core[OF this]]
  note s3 = same_coreD[OF same_core_drop_subs[of st2 x, folded st3_def]]
  have n3: "pnext st3 = pnext st" using s3(1) s2(1) by (simp add: st2_def st1_def)
  have a3: "hp_originator (props st3 y) = hp_originator (props st y)" "hp_parent (props st3 y) = hp_parent (props st y)"
    "hp_flags (props st3 y) = hp_flags (props st y)"
    "type_of st3 y = (if y = x then PROP_ZOMBIE else type_of st y)" for y
    using s3(4-9)[of y] s2(4-9)[of y] by (auto simp: st2_def st1_def type_of_def)
  have b3: "same_at st st3 y" if "y \<noteq> x" for y
    using s3(3)[of y] s2(3)[of y] that by (simp add: same_at_def st2_def st1_def)
  have t4: "recursive_unlink (Suc (pnext st1)) (prop_destroy0 (pnext st + pnext st)) x st1 = Some st1"
    using o by (simp add: st1_def)
  have px: "hp_parent (props st x) = Some d" "type_of st x = PROP_VOID" "(hp_xref (props st x) + 255) mod 256 = 0"
    using o by simp_all
  have r4: "(if hp_originator (props st3 x) \<noteq> None
     then prop_remove_from_originator (prop_destroy0 (pnext st + pnext st)) x st3 else Some st3) = Some st4"
    using o x(4) a3(1,3)[of x]
    by (auto simp: prop_remove_from_originator_def st4_def split: option.split)
  have n4: "pnext st4 = pnext st" by (simp add: st4_def n3 split: option.split)
  have a4: "hp_parent (props st4 y) = hp_parent (props st y)" "hp_flags (props st4 y) = hp_flags (props st y)"
    "type_of st4 y = (if y = x then PROP_ZOMBIE else type_of st y)" for y
    using a3(2,3,4)[of y] by (auto simp: st4_def type_of_def split: option.split)
  have c4: "hp_originator (props st4 y) = (if y = x then None else hp_originator (props st y))" for y
    using a3(1)[of y] a3(1)[of x] by (auto simp: st4_def split: option.split)
  have b4: "same_at st st4 y" if "y \<noteq> x" "y \<noteq> p" for y
    using b3[of y] o that by (auto simp: same_at_def st4_def split: option.split)
  define st5 where "st5 = notify_del_child False x d st4"
  have "shape st5 = shape st4" by (simp add: st5_def)
  note s5 = same_coreD[OF shape_same_core[OF this]]
  define st6 where "st6 = upd_prop x (\<lambda>y. y\<lparr>hp_parent := None\<rparr>) (set_childs d (remove1 x cs) st5)"
  have dc: "is_dir (type_of st5 d)" "hp_childs st5 d = cs"
    using d s5(4)[of d] a4(3)[of d] x(3) by (auto simp: dest_def)
  define st7 where "st7 = deselect d x st6"
  have f6: "pnext st6 = pnext st5" "props st6 y = (if y = x then (props st5 x)\<lparr>hp_parent := None\<rparr>
      else if y = d then (props st5 d)\<lparr>hp_type := PROP_DIR (remove1 x cs) (hp_selected st5 d)\<rparr> else props st5 y)" for y
    using x(3) by (simp_all add: st6_def set_childs_def)
  have f7: "pnext st7 = pnext st" "type_of st7 x = PROP_ZOMBIE" "hp_childs st7 d = remove1 x cs" "is_dir (type_of st7 d)"
    "y \<noteq> x \<Longrightarrow> hp_parent (props st7 y) = hp_parent (props st y)" "y \<noteq> x \<Longrightarrow> hp_flags (props st7 y) = hp_flags (props st y)"
    "y \<noteq> x \<Longrightarrow> y \<noteq> d \<Longrightarrow> type_of st7 y = type_of st y" for y
    using f6 s5(1,4-9) n4 a4 x(3) by (auto simp: st7_def deselect_props type_of_def)
  have c7: "hp_originator (props st7 y) = (if y = x then None else hp_originator (props st y))" for y
    using c4[of y] s5(6)[of y] x(3) by (auto simp: st7_def deselect_props f6(2))
  have b7: "same_at st st7 y" if "y \<noteq> x" "y \<noteq> d" "y \<noteq> p" for y
    using b4[of y] s5(3)[of y] f6(2)[of y] that by (simp add: same_at_def st7_def deselect_props)
  obtain st' where z: "prop_ref_dec_locked (Some x) st7 = Some st'" and "shape st' = shape st7"
    using ref_dec_zombie[OF f7(2)] by blast
  note s7 = same_coreD[OF shape_same_core[OF this(2)]]
  have "destroy_leave (prop_destroy0 (pnext st + pnext st)) x (Some d) st3 = Some (True, st')"
    using dc z unfolding destroy_leave_def r4 by (simp add: remove_child_def st5_def[symmetric] st6_def st7_def)
  moreover have "type_of (notify_del_child True x d st1) x = PROP_VOID"
    using s2(4)[of x] px(2) by (simp add: st1_def type_of_def)
  ultimately have lv: "destroy_live (prop_destroy0 (pnext st + pnext st)) x (Some d) (notify_del_child True x d st1) = Some (True, st')"
    by (simp add: destroy_live_def destroy_payload_def st3_def st2_def)
  have x1: "hp_xref (props st1 x) = 0" using px(3) by (simp add: st1_def)
  have r: "destroy_now x st = Some (True, st')"
    unfolding destroy_now_def prop_destroy0.simps prop_destroy0_body_def Let_def st1_def[symmetric]
    using t4 px lv x1 by (simp del: recursive_unlink.simps)
  have "tree_ok st'" using tree.now.destroys[OF _ _ r] t o by (simp add: ok_def go_def)
  then have on: "only {x, d, p} st st'"
    using s7(1,3) f7(1) b7 by (auto simp: only_def intro: same_at_trans)
  have "hp_name (props st3 y) = hp_name (props st y)" for y
    using same_atD(3)[OF s3(3)[of y]] same_atD(3)[OF s2(3)[of y]] same_atD(3)[OF s2(3)[of x]]
    by (cases "y = x") (simp_all add: st2_def st1_def)
  then have "hp_name (props st4 y) = hp_name (props st y)" for y by (simp add: st4_def split: option.split)
  then have "hp_name (props st7 y) = hp_name (props st y)" for y
    using same_atD(3)[OF s5(3)[of y]] same_atD(3)[OF s5(3)[of x]] same_atD(3)[OF s5(3)[of d]]
    by (simp add: st7_def deselect_props f6(2))
  then have nm: "hp_name (props st' y) = hp_name (props st y)" for y using same_atD(3)[OF s7(3)[of y]] by simp
  show ?thesis using r on d s7 f7 x(3,4) c7 nm by (auto simp: dest_def)
qed

section \<open>Children of a source\<close>

text \<open>A child of a source that can be linked: it lives, and the links from it end.\<close>

definition source_child :: "pst \<Rightarrow> pid \<Rightarrow> bool" where
  "source_child st p \<longleftrightarrow> p < pnext st \<and> type_of st p \<noteq> PROP_ZOMBIE \<and> follow_originator (Suc (pnext st)) st p \<noteq> None"

definition links_kept :: "pst \<Rightarrow> pst \<Rightarrow> bool" where
  "links_kept st st' \<longleftrightarrow> pnext st \<le> pnext st' \<and>
     (\<forall>x < pnext st. hp_originator (props st' x) = hp_originator (props st x)
        \<and> (type_of st x \<noteq> PROP_ZOMBIE \<longrightarrow> type_of st' x \<noteq> PROP_ZOMBIE))"

lemma links_kept_trans: "links_kept st st1 \<Longrightarrow> links_kept st1 st2 \<Longrightarrow> links_kept st st2"
  by (auto simp: links_kept_def)

lemma source_child_kept:
  assumes "tree_ok st" "links_kept st st'" "source_child st p"
  shows "source_child st' p"
proof -
  obtain r where "follow_originator (Suc (pnext st)) st p = Some r" using assms(3) by (auto simp: source_child_def)
  then have "follow_originator (Suc (pnext st)) st' p = Some r"
    by (rule follow_fresh[OF assms(1), rotated 1]) (use assms(2,3) in \<open>auto simp: source_child_def links_kept_def\<close>)
  then have "follow_originator (Suc (pnext st')) st' p = Some r"
    by (rule follow_more) (use assms(2) in \<open>simp add: links_kept_def\<close>)
  then show ?thesis using assms(2,3) by (auto simp: source_child_def links_kept_def)
qed

lemma place_next:
  "distinct (L @ B) \<Longrightarrow> place (case B of [] \<Rightarrow> None | b # _ \<Rightarrow> Some b) x (L @ B) = L @ x # B"
proof (induction L)
  case Nil then show ?case by (cases B) (simp_all add: place_def)
next
  case (Cons a L)
  then show ?case by (cases B) (auto simp: place_def)
qed

text \<open>Links that end still end when some of them are cut.\<close>

lemma follow_cut:
  assumes "tree_ok st" "follow_originator k st p = Some r" "p < pnext st"
    and "\<And>y. y < pnext st \<Longrightarrow> hp_originator (props st' y) = hp_originator (props st y) \<or> hp_originator (props st' y) = None"
  shows "\<exists>r'. follow_originator k st' p = Some r'"
  using assms(2,3)
proof (induction k arbitrary: p)
  case 0 then show ?case by simp
next
  case (Suc k)
  then show ?case using assms(4)[of p] tree_okD(4)[OF assms(1), of p] by (auto split: option.splits)
qed

lemma source_child_cut:
  assumes "tree_ok st" "pnext st \<le> pnext st'" "source_child st p" "type_of st' p \<noteq> PROP_ZOMBIE"
    and "\<And>y. y < pnext st \<Longrightarrow> hp_originator (props st' y) = hp_originator (props st y) \<or> hp_originator (props st' y) = None"
  shows "source_child st' p"
proof -
  obtain r where "follow_originator (Suc (pnext st)) st p = Some r" "p < pnext st" using assms(3) by (auto simp: source_child_def)
  then obtain r' where "follow_originator (Suc (pnext st)) st' p = Some r'" using follow_cut[OF assms(1) _ _ assms(5)] by blast
  then show ?thesis using follow_more[of "Suc (pnext st)" st' p r' "Suc (pnext st')"] assms(2-4) by (auto simp: source_child_def)
qed

end
