(* ===== verification/Prop_Concat_Inv.thy ===== *)
theory Prop_Concat_Inv
  imports Prop_Concat Prop_Outs
begin

text \<open>
  What a concatenation shows. \<open>ins k\<close> is the list of the children of source \<open>k\<close> as its events have
  told it. The invariant \<open>concat_ok\<close> says that the children of the destination are the outputs of
  these, source after source, each non-empty run preceded by its header.
\<close>

section \<open>The invariant\<close>

definition outs_of :: "prop_tags \<Rightarrow> nat \<Rightarrow> pid list \<Rightarrow> pid list" where
  "outs_of tg k ps = map (\<lambda>p. the (prop_tag_get p k tg)) ps"

definition mine :: "prop_tags \<Rightarrow> pid list \<Rightarrow> nat \<Rightarrow> prop_concat_source \<Rightarrow> pid list" where
  "mine tg ps k s = opt_list (pcs_header s) @ outs_of tg k ps"

definition shown :: "prop_tags \<Rightarrow> pid list \<Rightarrow> nat \<Rightarrow> prop_concat_source \<Rightarrow> pid list" where
  "shown tg ps k s = (if ps = [] then [] else mine tg ps k s)"

definition all_mine :: "prop_tags \<Rightarrow> (nat \<Rightarrow> pid list) \<Rightarrow> (nat \<times> prop_concat_source) list \<Rightarrow> pid list" where
  "all_mine tg ins q = concat (map (\<lambda>(k, s). mine tg (ins k) k s) q)"

definition all_shown :: "prop_tags \<Rightarrow> (nat \<Rightarrow> pid list) \<Rightarrow> (nat \<times> prop_concat_source) list \<Rightarrow> pid list" where
  "all_shown tg ins q = concat (map (\<lambda>(k, s). shown tg (ins k) k s) q)"

definition concat_shows :: "(nat \<Rightarrow> pid list) \<Rightarrow> prop_concat \<Rightarrow> pid list" where
  "concat_shows ins w = all_shown (pc_tags w) ins (pc_queue w)"

definition src_ok :: "pid set \<Rightarrow> prop_tags \<Rightarrow> pst \<Rightarrow> pid \<Rightarrow> pid list \<Rightarrow> nat \<Rightarrow> prop_concat_source \<Rightarrow> bool" where
  "src_ok own tg st d ps k s \<longleftrightarrow>
     pcs_count s = int (length ps)
     \<and> pcs_first s = (case ps of [] \<Rightarrow> None | p # _ \<Rightarrow> prop_tag_get p k tg)
     \<and> (\<forall>p \<in> set ps. p < pnext st \<and> p \<notin> own \<and> (\<exists>x. prop_tag_get p k tg = Some x \<and> outp st d p x))
     \<and> (\<forall>h. pcs_header s = Some h \<longrightarrow> h < pnext st \<and> PROP_MULTI_NOTIFY \<notin> hp_flags (props st h)
          \<and> hp_parent (props st h) = (if ps = [] then None else Some d))"

definition concat_ok :: "(nat \<Rightarrow> pid list) \<Rightarrow> prop_concat \<Rightarrow> bool" where
  "concat_ok ins w \<longleftrightarrow>
     tree_ok (pc_props w) \<and> distinct (map fst (pc_queue w))
     \<and> dest (pc_props w) (pc_dst w) (concat_shows ins w)
     \<and> distinct (all_mine (pc_tags w) ins (pc_queue w))
     \<and> pc_dst w \<notin> set (all_mine (pc_tags w) ins (pc_queue w))
     \<and> (\<forall>(k, s) \<in> set (pc_queue w).
          src_ok (set (all_mine (pc_tags w) ins (pc_queue w))) (pc_tags w) (pc_props w) (pc_dst w) (ins k) k s)"

lemma all_simps [simp]:
  "all_mine tg ins [] = []" "all_mine tg ins ((k, s) # q) = mine tg (ins k) k s @ all_mine tg ins q"
  "all_mine tg ins (q @ r) = all_mine tg ins q @ all_mine tg ins r"
  "all_shown tg ins [] = []" "all_shown tg ins ((k, s) # q) = shown tg (ins k) k s @ all_shown tg ins q"
  "all_shown tg ins (q @ r) = all_shown tg ins q @ all_shown tg ins r"
  by (simp_all add: all_mine_def all_shown_def)

lemma outs_simps [simp]:
  "outs_of tg k [] = []" "outs_of tg k (p # ps) = the (prop_tag_get p k tg) # outs_of tg k ps"
  "outs_of tg k (ps @ qs) = outs_of tg k ps @ outs_of tg k qs"
  by (simp_all add: outs_of_def)

lemma shown_mine: "set (shown tg ps k s) \<subseteq> set (mine tg ps k s)" "shown tg ps k s \<noteq> [] \<longleftrightarrow> ps \<noteq> []"
  by (auto simp: shown_def mine_def outs_of_def)

lemma all_shown_mine: "set (all_shown tg ins q) \<subseteq> set (all_mine tg ins q)"
  by (induction q) (auto dest: subsetD[OF shown_mine(1)])

lemma distinct_shown: "distinct (all_mine tg ins q) \<Longrightarrow> distinct (all_shown tg ins q)"
proof (induction q)
  case Nil then show ?case by simp
next
  case (Cons a q)
  obtain k s where [simp]: "a = (k, s)" by (cases a)
  show ?case using Cons shown_mine(1)[of tg "ins k" k s] all_shown_mine[of tg ins q]
    by (auto simp: shown_def)
qed

lemma outs_cong: "(\<And>p. p \<in> set ps \<Longrightarrow> prop_tag_get p k tg' = prop_tag_get p k tg) \<Longrightarrow> outs_of tg' k ps = outs_of tg k ps"
  by (simp add: outs_of_def)

lemma all_cong:
  assumes "\<And>k p. k \<in> fst ` set q \<Longrightarrow> p \<in> set (ins k) \<Longrightarrow> prop_tag_get p k tg' = prop_tag_get p k tg"
    and "\<And>k. k \<in> fst ` set q \<Longrightarrow> ins' k = ins k"
  shows "all_mine tg' ins' q = all_mine tg ins q" "all_shown tg' ins' q = all_shown tg ins q"
  using assms
proof (induction q)
  case Nil case 1 then show ?case by simp
next
  case Nil case 2 then show ?case by simp
next
  case (Cons a q)
  obtain k s where [simp]: "a = (k, s)" by (cases a)
  { case 1
    then have "outs_of tg' k (ins k) = outs_of tg k (ins k)" by (intro outs_cong) auto
    then show ?case using Cons.IH(1) 1 by (simp add: mine_def) }
  { case 2
    then have "outs_of tg' k (ins k) = outs_of tg k (ins k)" by (intro outs_cong) auto
    then show ?case using Cons.IH(2) 2 by (simp add: shown_def mine_def) }
qed

lemma all_other:
  assumes "k \<notin> fst ` set q" "\<And>j p. j \<noteq> k \<Longrightarrow> p \<in> set (ins j) \<Longrightarrow> prop_tag_get p j tg' = prop_tag_get p j tg"
  shows "all_mine tg' (ins(k := ps)) q = all_mine tg ins q" "all_shown tg' (ins(k := ps)) q = all_shown tg ins q"
  by (rule all_cong; use assms in \<open>metis fun_upd_other\<close>)+

lemma src_ok_frame:
  assumes s: "src_ok own tg st d ps k s" and o: "only D st st'" and m: "set (mine tg ps k s) \<inter> D = {}"
    and tg: "\<And>p. p \<in> set ps \<Longrightarrow> prop_tag_get p k tg' = prop_tag_get p k tg"
    and own: "\<And>p. p \<in> set ps \<Longrightarrow> p \<in> own' \<Longrightarrow> p \<in> own"
  shows "src_ok own' tg' st' d ps k s"
proof -
  have x: "the (prop_tag_get p k tg) \<notin> D" if "p \<in> set ps" for p
    using m that by (auto simp: mine_def outs_of_def)
  have h: "h \<notin> D" if "pcs_header s = Some h" for h using m that by (auto simp: mine_def opt_list_def)
  have n: "pnext st \<le> pnext st'" using onlyD(2)[OF o] .
  have 1: "p < pnext st' \<and> p \<notin> own' \<and> (\<exists>x. prop_tag_get p k tg' = Some x \<and> outp st' d p x)" if p: "p \<in> set ps" for p
  proof -
    obtain y where y: "prop_tag_get p k tg = Some y" "outp st d p y" "p < pnext st" "p \<notin> own"
      using s p by (auto simp: src_ok_def)
    then have "outp st' d p y" using outp_only[OF o, of y] x[OF p] by simp
    then show ?thesis using y tg[OF p] own[OF p] n by auto
  qed
  have 2: "h < pnext st' \<and> PROP_MULTI_NOTIFY \<notin> hp_flags (props st' h) \<and> hp_parent (props st' h) = (if ps = [] then None else Some d)"
    if "pcs_header s = Some h" for h
    using s that same_atD[OF onlyD(3)[OF o, of h]] h[OF that] n by (auto simp: src_ok_def)
  show ?thesis using s 1 2 tg by (auto simp: src_ok_def split: list.split)
qed

text \<open>One source changes, with its part of what is shown.\<close>

lemma concat_change:
  assumes ok: "concat_ok ins w" and q: "pc_queue w = q1 @ (k, s) # q2"
    and o: "only D (pc_props w) st'"
    and D: "D \<inter> set (all_mine (pc_tags w) ins (q1 @ q2)) = {}"
    and tg: "\<And>j p. j \<noteq> k \<Longrightarrow> p \<in> set (ins j) \<Longrightarrow> prop_tag_get p j tg' = prop_tag_get p j (pc_tags w)"
    and N: "distinct (mine tg' ps' k s')" "set (mine tg' ps' k s') \<inter> set (all_mine (pc_tags w) ins (q1 @ q2)) = {}"
      "pc_dst w \<notin> set (mine tg' ps' k s')"
      "\<And>j p. j \<in> fst ` set (q1 @ q2) \<Longrightarrow> p \<in> set (ins j) \<Longrightarrow> p \<notin> set (mine tg' ps' k s')"
    and d: "dest st' (pc_dst w) (all_shown (pc_tags w) ins q1 @ shown tg' ps' k s' @ all_shown (pc_tags w) ins q2)"
    and s: "src_ok (set (mine tg' ps' k s') \<union> set (all_mine (pc_tags w) ins (q1 @ q2))) tg' st' (pc_dst w) ps' k s'"
  shows "concat_ok (ins(k := ps')) (w\<lparr>pc_queue := q1 @ (k, s') # q2, pc_tags := tg', pc_props := st'\<rparr>)"
proof -
  have k: "k \<notin> fst ` set q1" "k \<notin> fst ` set q2" "distinct (map fst (q1 @ q2))"
    using ok by (auto simp: concat_ok_def q)
  note c1 = all_other[OF k(1) tg] and c2 = all_other[OF k(2) tg]
  have dist: "distinct (all_mine (pc_tags w) ins (q1 @ q2))" "pc_dst w \<notin> set (all_mine (pc_tags w) ins (q1 @ q2))"
    using ok by (auto simp: concat_ok_def q)
  have other: "src_ok (set (mine tg' ps' k s') \<union> set (all_mine (pc_tags w) ins (q1 @ q2))) tg' st' (pc_dst w) ((ins(k := ps')) j) j t"
    if m: "(j, t) \<in> set (q1 @ q2)" for j t
  proof -
    have j: "j \<noteq> k" "j \<in> fst ` set (q1 @ q2)" using k m by force+
    have old: "src_ok (set (all_mine (pc_tags w) ins (pc_queue w))) (pc_tags w) (pc_props w) (pc_dst w) (ins j) j t"
      using ok m by (fastforce simp: concat_ok_def q)
    have sub: "set (mine (pc_tags w) (ins j) j t) \<subseteq> set (all_mine (pc_tags w) ins (q1 @ q2))"
      using m by (auto simp: all_mine_def)
    have "src_ok (set (mine tg' ps' k s') \<union> set (all_mine (pc_tags w) ins (q1 @ q2))) tg' st' (pc_dst w) (ins j) j t"
      by (rule src_ok_frame[OF old o]) (use sub D tg[OF j(1)] N(4)[OF j(2)] in \<open>auto simp: q\<close>)
    then show ?thesis using j(1) by simp
  qed
  show ?thesis
    using onlyD(1)[OF o] k dist N(1-3) d s other
    by (auto simp: concat_ok_def concat_shows_def c1 c2 Un_ac fun_upd_same simp del: fun_upd_apply)
qed

lemma first_out_shown:
  assumes "\<And>k s. (k, s) \<in> set q \<Longrightarrow> src_ok own tg st d (ins k) k s"
  shows "first_out q = (case all_shown tg ins q of [] \<Rightarrow> None | x # _ \<Rightarrow> Some x)"
  using assms
proof (induction q)
  case Nil then show ?case by simp
next
  case (Cons a q)
  obtain k s where [simp]: "a = (k, s)" by (cases a)
  have s: "src_ok own tg st d (ins k) k s" using Cons.prems by simp
  have ih: "first_out q = (case all_shown tg ins q of [] \<Rightarrow> None | x # _ \<Rightarrow> Some x)"
    by (rule Cons.IH) (use Cons.prems in simp)
  show ?case
  proof (cases "ins k")
    case Nil
    then show ?thesis using s ih by (simp add: src_ok_def shown_def)
  next
    case (Cons p ps)
    then obtain x where "prop_tag_get p k tg = Some x" "pcs_first s = Some x" using s by (auto simp: src_ok_def)
    then show ?thesis using Cons by (simp add: shown_def mine_def opt_list_def split: option.split)
  qed
qed

lemma upd_pcs_at:
  assumes "k \<notin> fst ` set q1" "k \<notin> fst ` set q2" "pc_queue v = q1 @ (k, t) # q2"
  shows "upd_pcs k f v = v\<lparr>pc_queue := q1 @ (k, f t) # q2\<rparr>"
proof -
  have "map (\<lambda>(j, s). (j, if j = k then f s else s)) r = r" if "k \<notin> fst ` set r" for r
    using that by (induction r) auto
  then show ?thesis using assms by (simp add: upd_pcs_def)
qed

lemma concat_split:
  assumes "concat_ok ins w" "k \<in> fst ` set (pc_queue w)"
  obtains q1 s q2 where "pc_queue w = q1 @ (k, s) # q2" "pcs_of w k = Some s"
    "find_next_out k w = (case all_shown (pc_tags w) ins q2 of [] \<Rightarrow> None | x # _ \<Rightarrow> Some x)"
    "\<And>f t v. pc_queue v = q1 @ (k, t) # q2 \<Longrightarrow> upd_pcs k f v = v\<lparr>pc_queue := q1 @ (k, f t) # q2\<rparr>"
    "k \<notin> fst ` set q1" "k \<notin> fst ` set q2"
proof -
  obtain q1 s q2 where q: "pc_queue w = q1 @ (k, s) # q2" using assms(2) by (auto dest!: split_list)
  have k: "k \<notin> fst ` set q1" "k \<notin> fst ` set q2" using assms(1) by (auto simp: concat_ok_def q)
  have p: "pcs_of w k = Some s" using k(1) by (simp add: pcs_of_def q map_add_def map_of_eq_None_iff[THEN iffD2] split: option.split)
  have d: "dropWhile (\<lambda>(j, _). j \<noteq> k) (q1 @ r) = dropWhile (\<lambda>(j, _). j \<noteq> k) r" for r
    using k(1) by (intro dropWhile_append2) force
  have n: "find_next_out k w = (case all_shown (pc_tags w) ins q2 of [] \<Rightarrow> None | x # _ \<Rightarrow> Some x)"
    unfolding find_next_out_def q d using assms(1)
    by (simp, intro first_out_shown[where own = "set (all_mine (pc_tags w) ins (pc_queue w))" and st = "pc_props w" and d = "pc_dst w"])
       (auto simp: concat_ok_def q)
  show ?thesis by (rule that[OF q p n upd_pcs_at[OF k] k])
qed

section \<open>Adding\<close>

lemma pc_order:
  "w\<lparr>pc_props := a, pc_tags := b, pc_queue := c\<rparr> = w\<lparr>pc_queue := c, pc_tags := b, pc_props := a\<rparr>"
  "w\<lparr>pc_queue := c, pc_tags := b, pc_props := a, pc_queue := e\<rparr> = w\<lparr>pc_queue := e, pc_tags := b, pc_props := a\<rparr>"
  by simp_all

text \<open>A new output at a given place.\<close>

lemma place_out:
  assumes t: "tree_ok (pc_props w)" and d: "dest (pc_props w) (pc_dst w) cs" and p: "source_child (pc_props w) p"
    and b: "\<And>y. bf = Some y \<Longrightarrow> y \<in> set cs"
  obtains w1 st3 where "make_out k p w = Some (pnext (pc_props w), w1)"
    "pc_parent (pnext (pc_props w)) bf w1 = Some (w\<lparr>pc_props := st3,
       pc_tags := prop_tag_set (pnext (pc_props w)) k p (prop_tag_set p k (pnext (pc_props w)) (pc_tags w))\<rparr>)"
    "pc_tags w1 = prop_tag_set (pnext (pc_props w)) k p (prop_tag_set p k (pnext (pc_props w)) (pc_tags w))"
    "dest st3 (pc_dst w) (place bf (pnext (pc_props w)) cs)" "outp st3 (pc_dst w) p (pnext (pc_props w))"
    "hp_originator (props st3 (pnext (pc_props w))) = Some p" "only {p, pc_dst w} (pc_props w) st3"
    "links_kept (pc_props w) st3" "pnext st3 = Suc (pnext (pc_props w))"
proof -
  obtain r where r: "follow_originator (Suc (pnext (pc_props w))) (pc_props w) p = Some r"
    using p by (auto simp: source_child_def)
  have p1: "p < pnext (pc_props w)" "type_of (pc_props w) p \<noteq> PROP_ZOMBIE" using p by (auto simp: source_child_def)
  obtain st2 st3 where
    l: "prop_link0 p (pnext (pc_props w)) None PROP_LINK_NORMAL (snd (prop_make None False None (pc_props w))) = Some st2"
    and s: "prop_set_parent0 (pnext (pc_props w)) (pc_dst w) bf None st2 = Some (True, st3)"
    and f: "pnext st3 = Suc (pnext (pc_props w))" "dest st3 (pc_dst w) (place bf (pnext (pc_props w)) cs)"
      "outp st3 (pc_dst w) p (pnext (pc_props w))" "hp_originator (props st3 (pnext (pc_props w))) = Some p"
      "only {p, pc_dst w} (pc_props w) st3"
      "\<forall>x < pnext (pc_props w). hp_originator (props st3 x) = hp_originator (props (pc_props w) x)
         \<and> (type_of (pc_props w) x \<noteq> PROP_ZOMBIE \<longrightarrow> type_of st3 x \<noteq> PROP_ZOMBIE)"
    using put[OF t d p1 r, of bf None False None] b by blast
  have m: "fst (prop_make None False None (pc_props w)) = pnext (pc_props w)" by (simp add: prop_make_def)
  let ?t = "prop_tag_set (pnext (pc_props w)) k p (prop_tag_set p k (pnext (pc_props w)) (pc_tags w))"
  have a: "make_out k p w = Some (pnext (pc_props w), w\<lparr>pc_props := st2, pc_tags := ?t\<rparr>)"
    using l m by (cases "prop_make None False None (pc_props w)") (simp add: make_out_def)
  have e: "pc_parent (pnext (pc_props w)) bf (w\<lparr>pc_props := st2, pc_tags := ?t\<rparr>) = Some (w\<lparr>pc_props := st3, pc_tags := ?t\<rparr>)"
    using s by (simp add: pc_parent_def pc_run_def)
  show ?thesis by (rule that[OF a e _ f(2-5)]) (use f in \<open>auto simp: links_kept_def\<close>)
qed

lemma enter_header:
  assumes t: "tree_ok st3" and d: "dest st3 d (A @ x # B)" and dist: "distinct (A @ x # B)"
    and h: "\<And>h. ho = Some h \<Longrightarrow> hp_parent (props st3 h) = None \<and> h < pnext st3 \<and> h \<noteq> d \<and> h \<noteq> x
        \<and> PROP_MULTI_NOTIFY \<notin> hp_flags (props st3 h)"
    and w: "pc_dst v = d" "pc_props v = st3"
  obtains st4 where "(case ho of None \<Rightarrow> Some | Some h \<Rightarrow> pc_parent h (Some x)) v = Some (v\<lparr>pc_props := st4\<rparr>)"
    "dest st4 d (A @ opt_list ho @ x # B)" "only (insert d (set (opt_list ho))) st3 st4" "links_kept st3 st4"
    "\<And>h. ho = Some h \<Longrightarrow> hp_parent (props st4 h) = Some d \<and> PROP_MULTI_NOTIFY \<notin> hp_flags (props st4 h)"
    "pnext st4 = pnext st3"
proof (cases ho)
  case None
  show ?thesis
    by (rule that[of st3]) (use None d t w in \<open>auto simp: opt_list_def only_def links_kept_def\<close>)
next
  case (Some h)
  note h = h[OF Some]
  obtain st4 where r: "prop_set_parent0 h d (Some x) None st3 = Some (True, st4)" "pnext st4 = pnext st3"
    and e: "dest st4 d (place (Some x) h (A @ x # B))" "only {h, d} st3 st4"
    "hp_parent (props st4 h) = Some d" "type_of st4 h = type_of st3 h" "hp_flags (props st4 h) = hp_flags (props st3 h)"
    "hp_originator (props st4 h) = hp_originator (props st3 h)" "hp_originator (props st4 d) = hp_originator (props st3 d)"
    using enter[OF t d, of h "Some x" None] h by auto
  have pl: "place (Some x) h (A @ x # B) = A @ h # x # B" using place_next[of A "x # B" h] dist by simp
  have "hp_originator (props st4 y) = hp_originator (props st3 y) \<and> (type_of st3 y \<noteq> PROP_ZOMBIE \<longrightarrow> type_of st4 y \<noteq> PROP_ZOMBIE)"
    if y: "y < pnext st3" for y
  proof (cases "y = d")
    case True then show ?thesis using e(1,7) by (auto simp: dest_def)
  next
    case False then show ?thesis using e(4,6) same_atD[OF onlyD(3)[OF e(2) y]] by (cases "y = h") auto
  qed
  then have l: "links_kept st3 st4" using r(2) by (simp add: links_kept_def)
  show ?thesis
    by (rule that[OF _ _ _ l])
       (use Some r e h pl w in \<open>auto simp: opt_list_def pc_parent_def pc_run_def insert_commute\<close>)
qed

lemma mine_distinct:
  assumes "concat_ok ins w" "pc_queue w = q1 @ (k, s) # q2"
  shows "distinct (mine (pc_tags w) (ins k) k s)"
    "set (mine (pc_tags w) (ins k) k s) \<inter> set (all_mine (pc_tags w) ins (q1 @ q2)) = {}"
    "pc_dst w \<notin> set (mine (pc_tags w) (ins k) k s)" "pc_dst w \<notin> set (all_mine (pc_tags w) ins (q1 @ q2))"
    "src_ok (set (all_mine (pc_tags w) ins (pc_queue w))) (pc_tags w) (pc_props w) (pc_dst w) (ins k) k s"
    "distinct (all_shown (pc_tags w) ins q1 @ shown (pc_tags w) (ins k) k s @ all_shown (pc_tags w) ins q2)"
    "dest (pc_props w) (pc_dst w) (all_shown (pc_tags w) ins q1 @ shown (pc_tags w) (ins k) k s @ all_shown (pc_tags w) ins q2)"
    "tree_ok (pc_props w)" "\<And>j p. j \<in> fst ` set (pc_queue w) \<Longrightarrow> p \<in> set (ins j) \<Longrightarrow> p < pnext (pc_props w)
       \<and> p \<notin> set (all_mine (pc_tags w) ins (pc_queue w))"
    "\<And>y. y \<in> set (all_mine (pc_tags w) ins (pc_queue w)) \<Longrightarrow> y < pnext (pc_props w)"
proof -
  show "distinct (mine (pc_tags w) (ins k) k s)" "pc_dst w \<notin> set (mine (pc_tags w) (ins k) k s)"
    "set (mine (pc_tags w) (ins k) k s) \<inter> set (all_mine (pc_tags w) ins (q1 @ q2)) = {}"
    "pc_dst w \<notin> set (all_mine (pc_tags w) ins (q1 @ q2))"
    "src_ok (set (all_mine (pc_tags w) ins (pc_queue w))) (pc_tags w) (pc_props w) (pc_dst w) (ins k) k s"
    "dest (pc_props w) (pc_dst w) (all_shown (pc_tags w) ins q1 @ shown (pc_tags w) (ins k) k s @ all_shown (pc_tags w) ins q2)"
    "tree_ok (pc_props w)"
    using assms by (auto simp: concat_ok_def concat_shows_def)
  show "distinct (all_shown (pc_tags w) ins q1 @ shown (pc_tags w) (ins k) k s @ all_shown (pc_tags w) ins q2)"
    using distinct_shown[of "pc_tags w" ins "pc_queue w"] assms by (simp add: concat_ok_def)
  have src: "src_ok (set (all_mine (pc_tags w) ins (pc_queue w))) (pc_tags w) (pc_props w) (pc_dst w) (ins j) j t"
    if "(j, t) \<in> set (pc_queue w)" for j t using assms(1) that by (auto simp: concat_ok_def)
  show "p < pnext (pc_props w) \<and> p \<notin> set (all_mine (pc_tags w) ins (pc_queue w))"
    if "j \<in> fst ` set (pc_queue w)" "p \<in> set (ins j)" for j p
    using src that by (fastforce simp: src_ok_def)
  show "y < pnext (pc_props w)" if y: "y \<in> set (all_mine (pc_tags w) ins (pc_queue w))" for y
  proof -
    obtain j t where j: "(j, t) \<in> set (pc_queue w)" "y \<in> set (mine (pc_tags w) (ins j) j t)"
      using y by (auto simp: all_mine_def)
    then consider "pcs_header t = Some y" | p where "p \<in> set (ins j)" "y = the (prop_tag_get p j (pc_tags w))"
      by (auto simp: mine_def opt_list_def outs_of_def split: option.splits)
    then show ?thesis
    proof cases
      case 1 then show ?thesis using src[OF j(1)] by (simp add: src_ok_def)
    next
      case 2 then show ?thesis using src[OF j(1)] by (fastforce simp: src_ok_def outp_def)
    qed
  qed
qed

text \<open>One child more, wherever it is put.\<close>

lemma added_ok:
  fixes w k p defines "x \<equiv> pnext (pc_props w)"
  defines "tg \<equiv> prop_tag_set x k p (prop_tag_set p k x (pc_tags w))"
  assumes ok: "concat_ok ins w" and q: "pc_queue w = q1 @ (k, s) # q2" and p: "p < pnext (pc_props w)"
    and own: "p \<notin> set (all_mine (pc_tags w) ins (pc_queue w))" and new: "p \<notin> set (ins k)"
    and o: "only ({p, pc_dst w} \<union> set (opt_list (pcs_header s))) (pc_props w) st'" "x < pnext st'"
    and ox: "outp st' (pc_dst w) p x"
    and ps: "set ps = insert p (set (ins k))" "distinct ps" "length ps = Suc (length (ins k))"
    and s: "pcs_header s' = pcs_header s" "pcs_count s' = pcs_count s + 1"
      "pcs_first s' = (case ps of [] \<Rightarrow> None | y # _ \<Rightarrow> prop_tag_get y k tg)"
    and h: "\<And>h. pcs_header s = Some h \<Longrightarrow> PROP_MULTI_NOTIFY \<notin> hp_flags (props st' h) \<and> hp_parent (props st' h) = Some (pc_dst w)"
    and d: "dest st' (pc_dst w) (all_shown (pc_tags w) ins q1 @ opt_list (pcs_header s) @ outs_of tg k ps @ all_shown (pc_tags w) ins q2)"
  shows "concat_ok (ins(k := ps)) (w\<lparr>pc_queue := q1 @ (k, s') # q2, pc_tags := tg, pc_props := st'\<rparr>)"
    "set (all_mine tg (ins(k := ps)) (q1 @ (k, s') # q2)) \<subseteq> insert x (set (all_mine (pc_tags w) ins (pc_queue w)))"
proof -
  note m = mine_distinct[OF ok q]
  have kin: "k \<in> fst ` set (pc_queue w)" and kq: "k \<notin> fst ` set q1" "k \<notin> fst ` set q2"
    using ok by (auto simp: q concat_ok_def)
  have fresh: "x \<notin> set (all_mine (pc_tags w) ins (pc_queue w))" "x \<noteq> p" "x \<noteq> pc_dst w"
    "\<And>j. j \<in> fst ` set (pc_queue w) \<Longrightarrow> x \<notin> set (ins j)"
    using m(10)[of x] m(9)[of _ x] p m(7) by (auto simp: x_def dest_def)
  have tgs: "prop_tag_get y j tg = prop_tag_get y j (pc_tags w)" if "j \<noteq> k \<or> y \<noteq> p \<and> y \<noteq> x" for y j
    using that by (auto simp: tg_def)
  have tgp: "prop_tag_get p k tg = Some x" using fresh(2) by (simp add: tg_def)
  have tgk: "prop_tag_get y k tg = prop_tag_get y k (pc_tags w)" if "y \<in> set (ins k)" for y
    using tgs[of k y] that new fresh(4)[OF kin] by auto
  have old: "\<exists>z. prop_tag_get y k tg = Some z \<and> outp st' (pc_dst w) y z \<and> z \<in> set (mine (pc_tags w) (ins k) k s)"
    if y: "y \<in> set (ins k)" for y
  proof -
    obtain z where z: "prop_tag_get y k (pc_tags w) = Some z" "outp (pc_props w) (pc_dst w) y z"
      using m(5) y by (auto simp: src_ok_def)
    then have zm: "z \<in> set (outs_of (pc_tags w) k (ins k))" using y by (force simp: outs_of_def)
    then have zn: "z \<notin> {p, pc_dst w} \<union> set (opt_list (pcs_header s))" using m(1,3) own by (auto simp: mine_def q)
    show ?thesis using outp_only[OF o(1) zn z(2)] z(1) tgk[OF y] zm by (simp add: mine_def)
  qed
  have inj: "inj_on (\<lambda>y. the (prop_tag_get y k tg)) (insert p (set (ins k)))"
  proof -
    have "inj_on (\<lambda>y. the (prop_tag_get y k (pc_tags w))) (set (ins k))"
      using m(1) by (simp add: mine_def outs_of_def distinct_map)
    then have "inj_on (\<lambda>y. the (prop_tag_get y k tg)) (set (ins k))" by (simp add: inj_on_def tgk)
    moreover have "the (prop_tag_get y k tg) \<in> set (mine (pc_tags w) (ins k) k s)" if "y \<in> set (ins k)" for y
      using old[OF that] by auto
    then have "x \<notin> (\<lambda>y. the (prop_tag_get y k tg)) ` set (ins k)" using fresh(1) by (auto simp: q)
    ultimately show ?thesis using new by (simp add: tgp)
  qed
  have mn: "mine tg ps k s' = opt_list (pcs_header s) @ outs_of tg k ps" "shown tg ps k s' = opt_list (pcs_header s) @ outs_of tg k ps"
    using s(1) ps(1) by (auto simp: mine_def shown_def)
  have os: "set (outs_of tg k ps) = insert x (set (outs_of (pc_tags w) k (ins k)))"
    using ps(1) tgp tgk by (simp add: outs_of_def)
  have ms: "set (mine tg ps k s') = insert x (set (mine (pc_tags w) (ins k) k s))"
    unfolding mn set_append os by (simp add: mine_def)
  have hs: "set (opt_list (pcs_header s)) \<subseteq> set (mine (pc_tags w) (ins k) k s)" by (auto simp: mine_def)
  show "concat_ok (ins(k := ps)) (w\<lparr>pc_queue := q1 @ (k, s') # q2, pc_tags := tg, pc_props := st'\<rparr>)"
  proof (rule concat_change[OF ok q o(1)])
    show "({p, pc_dst w} \<union> set (opt_list (pcs_header s))) \<inter> set (all_mine (pc_tags w) ins (q1 @ q2)) = {}"
      using own m(2,4) hs by (auto simp: q)
    show "prop_tag_get y j tg = prop_tag_get y j (pc_tags w)" if "j \<noteq> k" for j y using tgs that by blast
    have "distinct (outs_of tg k ps)" using inj ps by (simp add: outs_of_def distinct_map)
    then show "distinct (mine tg ps k s')"
      unfolding mn using m(1) os fresh(1) by (auto simp: mine_def q)
    show "set (mine tg ps k s') \<inter> set (all_mine (pc_tags w) ins (q1 @ q2)) = {}" using m(2) fresh(1) by (auto simp: ms q)
    show "pc_dst w \<notin> set (mine tg ps k s')" using m(3) fresh(3) by (auto simp: ms)
    show "y \<notin> set (mine tg ps k s')" if j: "j \<in> fst ` set (q1 @ q2)" and y: "y \<in> set (ins j)" for j y
    proof -
      have "j \<in> fst ` set (pc_queue w)" using j by (auto simp: q)
      from m(9)[OF this y] fresh(4)[OF this] y show ?thesis by (auto simp: ms q)
    qed
    show "dest st' (pc_dst w) (all_shown (pc_tags w) ins q1 @ shown tg ps k s' @ all_shown (pc_tags w) ins q2)"
      using d by (simp add: mn)
    have "y < pnext st' \<and> y \<notin> set (mine tg ps k s') \<union> set (all_mine (pc_tags w) ins (q1 @ q2))" if "y \<in> set ps" for y
      using that ps(1) m(9)[OF kin, of y] own fresh(1-3) p o(2) fresh(4)[OF kin] by (auto simp: ms q x_def)
    moreover have "\<exists>z. prop_tag_get y k tg = Some z \<and> outp st' (pc_dst w) y z" if "y \<in> set ps" for y
      using that ps(1) old[of y] tgp ox by auto
    moreover have "h < pnext st'" if "pcs_header s = Some h" for h
      using m(10)[of h] that o(2) by (auto simp: q mine_def opt_list_def x_def)
    ultimately show "src_ok (set (mine tg ps k s') \<union> set (all_mine (pc_tags w) ins (q1 @ q2))) tg st' (pc_dst w) ps k s'"
      using s h ps m(5) by (auto simp: src_ok_def)
  qed
  show "set (all_mine tg (ins(k := ps)) (q1 @ (k, s') # q2)) \<subseteq> insert x (set (all_mine (pc_tags w) ins (pc_queue w)))"
    using all_other(1)[OF kq(1) tgs, of ins] all_other(1)[OF kq(2) tgs, of ins] by (auto simp: ms q)
qed

lemma add_child_ok:
  assumes ok: "concat_ok ins w" and k: "k \<in> fst ` set (pc_queue w)" and p: "source_child (pc_props w) p"
    and own: "p \<notin> set (all_mine (pc_tags w) ins (pc_queue w))" and new: "p \<notin> set (ins k)"
  shows "\<exists>w'. add_child k p w = Some w' \<and> concat_ok (ins(k := ins k @ [p])) w' \<and> links_kept (pc_props w) (pc_props w')
    \<and> map (\<lambda>(j, s). (j, pcs_header s)) (pc_queue w') = map (\<lambda>(j, s). (j, pcs_header s)) (pc_queue w)
    \<and> set (all_mine (pc_tags w') (ins(k := ins k @ [p])) (pc_queue w'))
        \<subseteq> insert (pnext (pc_props w)) (set (all_mine (pc_tags w) ins (pc_queue w)))"
proof -
  obtain q1 s q2 where q: "pc_queue w = q1 @ (k, s) # q2" "pcs_of w k = Some s"
    and nx: "find_next_out k w = (case all_shown (pc_tags w) ins q2 of [] \<Rightarrow> None | x # _ \<Rightarrow> Some x)"
    and up: "\<And>f t v. pc_queue v = q1 @ (k, t) # q2 \<Longrightarrow> upd_pcs k f v = v\<lparr>pc_queue := q1 @ (k, f t) # q2\<rparr>"
    using concat_split[OF ok k] by metis
  note m = mine_distinct[OF ok q(1)]
  define x where "x = pnext (pc_props w)"
  define tg where "tg = prop_tag_set x k p (prop_tag_set p k x (pc_tags w))"
  let ?A = "all_shown (pc_tags w) ins q1" and ?S = "shown (pc_tags w) (ins k) k s" and ?B = "all_shown (pc_tags w) ins q2"
  let ?d = "pc_dst w"
  have p1: "p < pnext (pc_props w)" using p by (simp add: source_child_def)
  have b: "y \<in> set (?A @ ?S @ ?B)" if "find_next_out k w = Some y" for y
    using that by (auto simp: nx split: list.splits)
  obtain w1 st3 where mo: "make_out k p w = Some (x, w1)"
    and pp: "pc_parent x (find_next_out k w) w1 = Some (w\<lparr>pc_props := st3, pc_tags := tg\<rparr>)"
    and d3: "dest st3 ?d (place (find_next_out k w) x (?A @ ?S @ ?B))" and o3: "outp st3 ?d p x"
    and on3: "only {p, ?d} (pc_props w) st3" and k3: "links_kept (pc_props w) st3" and n3: "pnext st3 = Suc x"
    using place_out[where k = k, OF m(8) m(7) p b, folded x_def, folded tg_def] by blast
  have d3: "dest st3 ?d (?A @ ?S @ x # ?B)"
    using d3 place_next[of "?A @ ?S" ?B x] m(6) by (simp add: nx)
  have xn: "x \<notin> set (all_mine (pc_tags w) ins (pc_queue w))" "x \<notin> set (ins k)" "x \<noteq> p" "x \<noteq> ?d"
    using m(10)[of x] m(9)[OF k, of x] p1 m(7) by (auto simp: x_def dest_def)
  have tgp: "prop_tag_get p k tg = Some x" "outs_of tg k (ins k) = outs_of (pc_tags w) k (ins k)"
    using xn new by (auto simp: tg_def intro!: outs_cong)
  let ?s = "s\<lparr>pcs_first := (if ins k = [] then Some x else pcs_first s), pcs_count := pcs_count s + 1\<rparr>"
  have hin: "h \<in> set (mine (pc_tags w) (ins k) k s)" if "pcs_header s = Some h" for h
    using that by (simp add: mine_def opt_list_def)
  have hsame: "same_at (pc_props w) st3 h" if "pcs_header s = Some h" for h
    using onlyD(3)[OF on3, of h] hin[OF that] own m(3) m(10)[of h] by (auto simp: q(1))
  have "\<exists>st4. add_child k p w = Some (w\<lparr>pc_queue := q1 @ (k, ?s) # q2, pc_tags := tg, pc_props := st4\<rparr>)
      \<and> only ({p, ?d} \<union> set (opt_list (pcs_header s))) (pc_props w) st4 \<and> x < pnext st4 \<and> outp st4 ?d p x
      \<and> links_kept (pc_props w) st4
      \<and> (\<forall>h. pcs_header s = Some h \<longrightarrow> PROP_MULTI_NOTIFY \<notin> hp_flags (props st4 h) \<and> hp_parent (props st4 h) = Some ?d)
      \<and> dest st4 ?d (?A @ opt_list (pcs_header s) @ outs_of tg k (ins k @ [p]) @ ?B)"
  proof (cases "ins k = []")
    case True
    then have S: "?S = []" and c: "pcs_count s = 0" using m(5) by (simp_all add: shown_def src_ok_def)
    let ?v = "w\<lparr>pc_queue := q1 @ (k, s\<lparr>pcs_first := Some x\<rparr>) # q2, pc_tags := tg, pc_props := st3\<rparr>"
    have h: "hp_parent (props st3 h) = None \<and> h < pnext st3 \<and> h \<noteq> ?d \<and> h \<noteq> x \<and> PROP_MULTI_NOTIFY \<notin> hp_flags (props st3 h)"
      if "pcs_header s = Some h" for h
      using that m(5) True xn(1) m(3) hin[OF that] n3 m(10)[of h] same_atD[OF hsame[OF that]]
      by (auto simp: src_ok_def x_def q(1))
    obtain st4 where e: "(case pcs_header s of None \<Rightarrow> Some | Some h \<Rightarrow> pc_parent h (Some x)) ?v = Some (?v\<lparr>pc_props := st4\<rparr>)"
      and d4: "dest st4 ?d (?A @ opt_list (pcs_header s) @ x # ?B)"
      and on4: "only (insert ?d (set (opt_list (pcs_header s)))) st3 st4" and k4: "links_kept st3 st4"
      and h4: "\<And>h. pcs_header s = Some h \<Longrightarrow> hp_parent (props st4 h) = Some ?d \<and> PROP_MULTI_NOTIFY \<notin> hp_flags (props st4 h)"
      and n4: "pnext st4 = pnext st3"
      by (rule enter_header[of st3 ?d ?A x ?B "pcs_header s" ?v])
         (use d3 S h onlyD(1)[OF on3] m(6) xn(1) all_shown_mine[of "pc_tags w" ins] in \<open>auto simp: q(1)\<close>)
    have "outp st4 ?d p x" by (rule outp_only[OF on4 _ o3]) (use xn hin in \<open>auto simp: opt_list_def q(1) split: option.splits\<close>)
    moreover have "only ({p, ?d} \<union> set (opt_list (pcs_header s))) (pc_props w) st4"
      by (rule only_mono[OF only_trans[OF on3 on4]]) auto
    ultimately show ?thesis
      using mo pp e c True d4 h4 n3 n4 links_kept_trans[OF k3 k4] tgp
      by (intro exI[of _ st4]) (simp add: add_child_def q up pc_order)
  next
    case False
    then have c: "pcs_count s \<noteq> 0" using m(5) by (auto simp: src_ok_def)
    have "only ({p, ?d} \<union> set (opt_list (pcs_header s))) (pc_props w) st3" by (rule only_mono[OF on3]) auto
    moreover have "PROP_MULTI_NOTIFY \<notin> hp_flags (props st3 h) \<and> hp_parent (props st3 h) = Some ?d" if "pcs_header s = Some h" for h
      using m(5) that False same_atD[OF hsame[OF that]] by (auto simp: src_ok_def)
    ultimately show ?thesis
      using mo pp c False d3 o3 n3 k3 tgp
      by (intro exI[of _ st3]) (simp add: add_child_def q up pc_order shown_def mine_def)
  qed
  then obtain st4 where r: "add_child k p w = Some (w\<lparr>pc_queue := q1 @ (k, ?s) # q2, pc_tags := tg, pc_props := st4\<rparr>)"
    and f: "only ({p, ?d} \<union> set (opt_list (pcs_header s))) (pc_props w) st4" "x < pnext st4" "outp st4 ?d p x"
      "links_kept (pc_props w) st4"
      "\<And>h. pcs_header s = Some h \<Longrightarrow> PROP_MULTI_NOTIFY \<notin> hp_flags (props st4 h) \<and> hp_parent (props st4 h) = Some ?d"
      "dest st4 ?d (?A @ opt_list (pcs_header s) @ outs_of tg k (ins k @ [p]) @ ?B)"
    by blast
  have fst': "pcs_first ?s = (case ins k @ [p] of [] \<Rightarrow> None | y # _ \<Rightarrow> prop_tag_get y k tg)"
    using m(5) tgp xn new by (auto simp: src_ok_def tg_def split: list.splits)
  have di: "distinct (ins k @ [p])" using m(1) new by (auto simp: mine_def outs_of_def distinct_map)
  have "concat_ok (ins(k := ins k @ [p])) (w\<lparr>pc_queue := q1 @ (k, ?s) # q2, pc_tags := tg, pc_props := st4\<rparr>)"
    "set (all_mine tg (ins(k := ins k @ [p])) (q1 @ (k, ?s) # q2)) \<subseteq> insert x (set (all_mine (pc_tags w) ins (pc_queue w)))"
    unfolding tg_def x_def
    by (rule added_ok[OF ok q(1) p1 own new f(1) f(2)[unfolded x_def] f(3)[unfolded x_def] _ di _ _ _
          fst'[unfolded tg_def x_def] f(5) f(6)[unfolded tg_def x_def]]; simp)+
  then show ?thesis using r f(4) by (auto simp: q(1) x_def)
qed

lemma insert_before_mid:
  "y \<notin> set L \<Longrightarrow> y \<in> set M \<Longrightarrow> insert_before y x (L @ M @ R) = L @ insert_before y x M @ R"
proof (induction L)
  case Nil then show ?case by (induction M) auto
next
  case (Cons a L) then show ?case by auto
qed

lemma outs_insert_before:
  "(\<And>z. z \<in> set ps \<Longrightarrow> the (prop_tag_get z k tg) = the (prop_tag_get q k tg) \<Longrightarrow> z = q) \<Longrightarrow>
   outs_of tg k (insert_before q p ps) = insert_before (the (prop_tag_get q k tg)) (the (prop_tag_get p k tg)) (outs_of tg k ps)"
  by (induction ps) auto

text \<open>What inserting before another child does, whatever the first one is.\<close>

lemma add_before_run:
  fixes w k p defines "x \<equiv> pnext (pc_props w)"
  defines "tg \<equiv> prop_tag_set x k p (prop_tag_set p k x (pc_tags w))"
  assumes ok: "concat_ok ins w" and q: "pc_queue w = q1 @ (k, s) # q2" and p: "source_child (pc_props w) p"
    and own: "p \<notin> set (all_mine (pc_tags w) ins (pc_queue w))" and new: "p \<notin> set (ins k)" and b: "b \<in> set (ins k)"
  obtains st3 where "add_child_before k p b w
      = Some (w\<lparr>pc_queue := q1 @ (k, s\<lparr>pcs_count := pcs_count s + 1\<rparr>) # q2, pc_tags := tg, pc_props := st3\<rparr>)"
    "outp st3 (pc_dst w) p x" "only {p, pc_dst w} (pc_props w) st3" "links_kept (pc_props w) st3" "pnext st3 = Suc x"
    "dest st3 (pc_dst w) (all_shown (pc_tags w) ins q1 @ opt_list (pcs_header s) @ outs_of tg k (insert_before b p (ins k))
       @ all_shown (pc_tags w) ins q2)"
    "hp_originator (props st3 x) = Some p"
proof -
  note m = mine_distinct[OF ok q]
  have kin: "k \<in> fst ` set (pc_queue w)" by (simp add: q)
  have kq: "k \<notin> fst ` set q1" "k \<notin> fst ` set q2" using ok by (auto simp: q concat_ok_def)
  have xn: "x \<notin> set (all_mine (pc_tags w) ins (pc_queue w))" "x \<notin> set (ins k)"
    using m(10)[of x] m(9)[OF kin, of x] by (auto simp: x_def)
  have bt: "prop_tag_get b k tg = prop_tag_get b k (pc_tags w)" using b new xn by (auto simp: tg_def)
  obtain y where y: "prop_tag_get b k (pc_tags w) = Some y" using m(5) b by (auto simp: src_ok_def)
  have yo: "y \<in> set (outs_of (pc_tags w) k (ins k))" using y b by (force simp: outs_of_def)
  have S: "shown (pc_tags w) (ins k) k s = opt_list (pcs_header s) @ outs_of (pc_tags w) k (ins k)"
    using b by (auto simp: shown_def mine_def)
  have pl: "z \<in> set (all_shown (pc_tags w) ins q1 @ shown (pc_tags w) (ins k) k s @ all_shown (pc_tags w) ins q2)"
    if "Some y = Some z" for z using that yo by (simp add: S)
  obtain w1 st3 where mo: "make_out k p w = Some (x, w1)"
    and pp: "pc_parent x (Some y) w1 = Some (w\<lparr>pc_props := st3, pc_tags := tg\<rparr>)" and t1: "pc_tags w1 = tg"
    and d3: "dest st3 (pc_dst w) (place (Some y) x (all_shown (pc_tags w) ins q1 @ shown (pc_tags w) (ins k) k s @ all_shown (pc_tags w) ins q2))"
    and f: "outp st3 (pc_dst w) p x" "hp_originator (props st3 x) = Some p" "only {p, pc_dst w} (pc_props w) st3"
      "links_kept (pc_props w) st3" "pnext st3 = Suc x"
    using place_out[where k = k, OF m(8) m(7) p pl, folded x_def, folded tg_def] by metis
  have run: "add_child_before k p b w
      = Some (w\<lparr>pc_queue := q1 @ (k, s\<lparr>pcs_count := pcs_count s + 1\<rparr>) # q2, pc_tags := tg, pc_props := st3\<rparr>)"
    using mo pp t1 bt y q by (simp add: add_child_before_def upd_pcs_at[OF kq] pc_order)
  have "z = b" if z: "z \<in> set (ins k)" "the (prop_tag_get z k tg) = the (prop_tag_get b k tg)" for z
  proof -
    have "prop_tag_get z k tg = prop_tag_get z k (pc_tags w)" using z(1) new xn by (auto simp: tg_def)
    moreover have "inj_on (\<lambda>y. the (prop_tag_get y k (pc_tags w))) (set (ins k))"
      using m(1) by (simp add: mine_def outs_of_def distinct_map)
    ultimately show ?thesis using z b bt by (simp add: inj_on_def)
  qed
  from outs_insert_before[of "ins k" k tg b p, OF this]
  have "outs_of tg k (insert_before b p (ins k)) = insert_before y x (outs_of tg k (ins k))"
    using bt y p by (simp add: tg_def x_def source_child_def)
  also have "outs_of tg k (ins k) = outs_of (pc_tags w) k (ins k)"
    by (rule outs_cong) (use new xn in \<open>auto simp: tg_def\<close>)
  finally have io: "outs_of tg k (insert_before b p (ins k)) = insert_before y x (outs_of (pc_tags w) k (ins k))" .
  have "y \<notin> set (all_shown (pc_tags w) ins q1 @ opt_list (pcs_header s))" using m(6) yo by (auto simp: S)
  from insert_before_mid[OF this yo, of x "all_shown (pc_tags w) ins q2"]
  have "dest st3 (pc_dst w) (all_shown (pc_tags w) ins q1 @ opt_list (pcs_header s) @ outs_of tg k (insert_before b p (ins k))
       @ all_shown (pc_tags w) ins q2)"
    using d3 by (simp add: place_def S io)
  then show ?thesis using that[OF run f(1,3,4,5)] f(2) by blast
qed

lemma add_before_ok:
  assumes ok: "concat_ok ins w" and k: "k \<in> fst ` set (pc_queue w)" and p: "source_child (pc_props w) p"
    and own: "p \<notin> set (all_mine (pc_tags w) ins (pc_queue w))" and new: "p \<notin> set (ins k)"
    and b: "b \<in> set (ins k)" "hd (ins k) \<noteq> b"
  shows "\<exists>w'. add_child_before k p b w = Some w' \<and> concat_ok (ins(k := insert_before b p (ins k))) w'"
proof -
  obtain q1 s q2 where q: "pc_queue w = q1 @ (k, s) # q2" using concat_split[OF ok k] by metis
  note m = mine_distinct[OF ok q]
  have p1: "p < pnext (pc_props w)" using p by (simp add: source_child_def)
  let ?x = "pnext (pc_props w)" and ?d = "pc_dst w" and ?s = "s\<lparr>pcs_count := pcs_count s + 1\<rparr>"
  let ?tg = "prop_tag_set ?x k p (prop_tag_set p k ?x (pc_tags w))"
  obtain st3 where r: "add_child_before k p b w = Some (w\<lparr>pc_queue := q1 @ (k, ?s) # q2, pc_tags := ?tg, pc_props := st3\<rparr>)"
    and f: "outp st3 ?d p ?x" "only {p, ?d} (pc_props w) st3" "pnext st3 = Suc ?x"
    and d: "dest st3 ?d (all_shown (pc_tags w) ins q1 @ opt_list (pcs_header s) @ outs_of ?tg k (insert_before b p (ins k))
       @ all_shown (pc_tags w) ins q2)"
    using add_before_run[OF ok q p own new b(1)] by metis
  have o: "only ({p, ?d} \<union> set (opt_list (pcs_header s))) (pc_props w) st3" by (rule only_mono[OF f(2)]) auto
  obtain a r where c: "ins k = a # r" using b(1) by (cases "ins k") auto
  have di: "distinct (insert_before b p (ins k))"
    using m(1) new by (simp add: mine_def outs_of_def distinct_map queue_simps)
  have fst': "pcs_first ?s = (case insert_before b p (ins k) of [] \<Rightarrow> None | y # _ \<Rightarrow> prop_tag_get y k ?tg)"
    using m(5) m(9)[OF k, of a] b(2) new by (auto simp: src_ok_def c)
  have h: "PROP_MULTI_NOTIFY \<notin> hp_flags (props st3 h) \<and> hp_parent (props st3 h) = Some ?d" if "pcs_header s = Some h" for h
  proof -
    have a: "h \<in> set (mine (pc_tags w) (ins k) k s)" using that by (simp add: mine_def opt_list_def)
    then have "same_at (pc_props w) st3 h" using onlyD(3)[OF f(2), of h] own m(3) m(10)[of h] by (auto simp: q)
    from same_atD[OF this] show ?thesis using m(5) that by (auto simp: src_ok_def c)
  qed
  have "concat_ok (ins(k := insert_before b p (ins k))) (w\<lparr>pc_queue := q1 @ (k, ?s) # q2, pc_tags := ?tg, pc_props := st3\<rparr>)"
    by (rule added_ok(1)[OF ok q p1 own new o _ f(1) _ di _ _ _ fst' h d]) (simp_all add: f(3) queue_simps)
  then show ?thesis using r by blast
qed

lemma add_vector_ok:
  assumes "concat_ok ins w" "k \<in> fst ` set (pc_queue w)" "\<And>p. p \<in> set ps \<Longrightarrow> source_child (pc_props w) p"
    "set ps \<inter> set (all_mine (pc_tags w) ins (pc_queue w)) = {}" "set ps \<inter> set (ins k) = {}" "distinct ps"
  shows "\<exists>w'. ofold (add_child k) ps w = Some w' \<and> concat_ok (ins(k := ins k @ ps)) w'"
  using assms
proof (induction ps arbitrary: w ins)
  case Nil then show ?case by simp
next
  case (Cons p ps)
  let ?ins = "ins(k := ins k @ [p])"
  obtain w1 where r: "add_child k p w = Some w1" and w1: "concat_ok ?ins w1" "links_kept (pc_props w) (pc_props w1)"
    and keys: "map (\<lambda>(j, s). (j, pcs_header s)) (pc_queue w1) = map (\<lambda>(j, s). (j, pcs_header s)) (pc_queue w)"
    and sub: "set (all_mine (pc_tags w1) ?ins (pc_queue w1)) \<subseteq> insert (pnext (pc_props w)) (set (all_mine (pc_tags w) ins (pc_queue w)))"
    using add_child_ok[OF Cons.prems(1,2), of p] Cons.prems(3-5) by auto
  have t: "tree_ok (pc_props w)" using Cons.prems(1) by (simp add: concat_ok_def)
  have c: "source_child (pc_props w1) y" if "y \<in> set ps" for y
    using source_child_kept[OF t w1(2)] Cons.prems(3) that by simp
  have n: "y \<noteq> pnext (pc_props w)" if "y \<in> set ps" for y
    using Cons.prems(3)[of y] that by (auto simp: source_child_def)
  obtain w2 where "ofold (add_child k) ps w1 = Some w2" "concat_ok (?ins(k := ?ins k @ ps)) w2"
  proof (rule exE[OF Cons.IH[OF w1(1) _ c]])
    have "fst ` set (pc_queue w1) = fst ` set (pc_queue w)"
      using arg_cong[OF keys, of "\<lambda>l. fst ` set l"] by (simp add: image_image case_prod_beta)
    then show "k \<in> fst ` set (pc_queue w1)" using Cons.prems(2) by simp
    show "set ps \<inter> set (all_mine (pc_tags w1) ?ins (pc_queue w1)) = {}" using sub n Cons.prems(4) by auto
    show "set ps \<inter> set (?ins k) = {}" "distinct ps" using Cons.prems(5,6) by auto
  qed blast+
  then show ?case using r by (simp add: fun_upd_same del: fun_upd_apply)
qed

section \<open>Removing and moving\<close>

lemma kept_ok:
  assumes ok: "concat_ok ins w" and q: "pc_queue w = q1 @ (k, s) # q2" and o: "only D (pc_props w) st'"
    and D: "D \<inter> set (all_mine (pc_tags w) ins (q1 @ q2)) = {}" "D \<inter> set (outs_of (pc_tags w) k ps) = {}"
    and tg: "\<And>j y. j \<noteq> k \<Longrightarrow> y \<in> set (ins j) \<Longrightarrow> prop_tag_get y j tg = prop_tag_get y j (pc_tags w)"
      "\<And>y. y \<in> set ps \<Longrightarrow> prop_tag_get y k tg = prop_tag_get y k (pc_tags w)"
    and ps: "set ps \<subseteq> set (ins k)" "distinct ps"
    and s: "pcs_header s' = pcs_header s" "pcs_count s' = int (length ps)"
      "pcs_first s' = (case ps of [] \<Rightarrow> None | y # _ \<Rightarrow> prop_tag_get y k (pc_tags w))"
    and h: "\<And>h. pcs_header s = Some h \<Longrightarrow> PROP_MULTI_NOTIFY \<notin> hp_flags (props st' h)
      \<and> hp_parent (props st' h) = (if ps = [] then None else Some (pc_dst w))"
    and d: "dest st' (pc_dst w) (all_shown (pc_tags w) ins q1 @ shown (pc_tags w) ps k s @ all_shown (pc_tags w) ins q2)"
  shows "concat_ok (ins(k := ps)) (w\<lparr>pc_queue := q1 @ (k, s') # q2, pc_tags := tg, pc_props := st'\<rparr>)"
proof -
  note m = mine_distinct[OF ok q]
  have kin: "k \<in> fst ` set (pc_queue w)" by (simp add: q)
  have n: "pnext (pc_props w) \<le> pnext st'" using onlyD(2)[OF o] .
  have os: "outs_of tg k ps = outs_of (pc_tags w) k ps" by (rule outs_cong[OF tg(2)])
  have mn: "mine tg ps k s' = mine (pc_tags w) ps k s" "shown tg ps k s' = shown (pc_tags w) ps k s"
    by (simp_all add: mine_def shown_def os s(1))
  have ms: "set (mine (pc_tags w) ps k s) \<subseteq> set (mine (pc_tags w) (ins k) k s)" using ps(1) by (auto simp: mine_def outs_of_def)
  show ?thesis
  proof (rule concat_change[OF ok q o D(1) tg(1)])
    have "inj_on (\<lambda>y. the (prop_tag_get y k (pc_tags w))) (set ps)"
      using m(1) ps(1) by (auto simp: mine_def outs_of_def distinct_map intro: inj_on_subset)
    then have "distinct (outs_of (pc_tags w) k ps)" using ps(2) by (simp add: outs_of_def distinct_map)
    moreover have "set (outs_of (pc_tags w) k ps) \<subseteq> set (outs_of (pc_tags w) k (ins k))" using ps(1) by (auto simp: outs_of_def)
    ultimately show "distinct (mine tg ps k s')" unfolding mn using m(1) by (auto simp: mine_def)
    show "set (mine tg ps k s') \<inter> set (all_mine (pc_tags w) ins (q1 @ q2)) = {}" "pc_dst w \<notin> set (mine tg ps k s')"
      unfolding mn using ms m(2,3) by auto
    show "y \<notin> set (mine tg ps k s')" if j: "j \<in> fst ` set (q1 @ q2)" and y: "y \<in> set (ins j)" for j y
    proof -
      have "j \<in> fst ` set (pc_queue w)" using j by (auto simp: q)
      from m(9)[OF this y] show ?thesis unfolding mn using ms by (auto simp: q)
    qed
    show "dest st' (pc_dst w) (all_shown (pc_tags w) ins q1 @ shown tg ps k s' @ all_shown (pc_tags w) ins q2)"
      unfolding mn by (rule d)
    have "y < pnext st' \<and> y \<notin> set (mine tg ps k s') \<union> set (all_mine (pc_tags w) ins (q1 @ q2))
        \<and> (\<exists>z. prop_tag_get y k tg = Some z \<and> outp st' (pc_dst w) y z)" if y: "y \<in> set ps" for y
    proof -
      have yi: "y \<in> set (ins k)" using y ps(1) by auto
      obtain z where z: "prop_tag_get y k (pc_tags w) = Some z" "outp (pc_props w) (pc_dst w) y z"
        using m(5) yi by (auto simp: src_ok_def)
      then have "z \<in> set (outs_of (pc_tags w) k ps)" using y by (force simp: outs_of_def)
      then have "outp st' (pc_dst w) y z" using outp_only[OF o _ z(2)] D(2) by auto
      then show ?thesis using z(1) tg(2)[OF y] m(9)[OF kin yi] n ms unfolding mn by (auto simp: q)
    qed
    moreover have "h < pnext st'" if "pcs_header s = Some h" for h
      using m(10)[of h] that n by (auto simp: q mine_def opt_list_def)
    ultimately show "src_ok (set (mine tg ps k s') \<union> set (all_mine (pc_tags w) ins (q1 @ q2))) tg st' (pc_dst w) ps k s'"
      using s h tg(2) by (auto simp: src_ok_def split: list.split)
  qed
qed

lemma outs_remove1:
  "(\<And>z. z \<in> set ps \<Longrightarrow> the (prop_tag_get z k tg) = the (prop_tag_get p k tg) \<Longrightarrow> z = p) \<Longrightarrow>
   outs_of tg k (remove1 p ps) = remove1 (the (prop_tag_get p k tg)) (outs_of tg k ps)"
proof (induction ps)
  case Nil then show ?case by simp
next
  case (Cons a ps)
  have "a = p \<or> the (prop_tag_get a k tg) \<noteq> the (prop_tag_get p k tg)" using Cons.prems[of a] by auto
  then show ?case using Cons by auto
qed

lemma remove1_mid: "y \<notin> set L \<Longrightarrow> y \<in> set M \<Longrightarrow> remove1 y (L @ M @ R) = L @ remove1 y M @ R"
  by (simp add: remove1_append)

lemma next_of_mid: "x \<notin> set L \<Longrightarrow> next_of x (L @ x # y # R) = Some y"
proof (induction L)
  case Nil then show ?case by simp
next
  case (Cons a L) then show ?case by (cases L) auto
qed

text \<open>The output of a child, and where it is.\<close>

lemma out_of_child:
  assumes ok: "concat_ok ins w" and q: "pc_queue w = q1 @ (k, s) # q2" and p: "p \<in> set (ins k)"
  obtains x where "prop_tag_get p k (pc_tags w) = Some x" "outp (pc_props w) (pc_dst w) p x" "x \<in> set (outs_of (pc_tags w) k (ins k))"
    "x \<notin> set (all_shown (pc_tags w) ins q1 @ opt_list (pcs_header s))" "x \<noteq> pc_dst w" "p \<noteq> x"
    "x \<notin> set (all_mine (pc_tags w) ins (q1 @ q2))"
    "\<And>z. z \<in> set (ins k) \<Longrightarrow> the (prop_tag_get z k (pc_tags w)) = the (prop_tag_get p k (pc_tags w)) \<Longrightarrow> z = p"
    "shown (pc_tags w) (ins k) k s = opt_list (pcs_header s) @ outs_of (pc_tags w) k (ins k)"
proof -
  note m = mine_distinct[OF ok q]
  obtain x where x: "prop_tag_get p k (pc_tags w) = Some x" "outp (pc_props w) (pc_dst w) p x"
    using m(5) p by (auto simp: src_ok_def)
  have xo: "x \<in> set (outs_of (pc_tags w) k (ins k))" using x p by (force simp: outs_of_def)
  have S: "shown (pc_tags w) (ins k) k s = opt_list (pcs_header s) @ outs_of (pc_tags w) k (ins k)"
    using p by (auto simp: shown_def mine_def)
  have xm: "x \<in> set (mine (pc_tags w) (ins k) k s)" using xo by (simp add: mine_def)
  have "p \<notin> set (all_mine (pc_tags w) ins (pc_queue w))" using m(9)[of k p] p by (simp add: q)
  then have "p \<noteq> x" using xm by (auto simp: q)
  moreover have "inj_on (\<lambda>y. the (prop_tag_get y k (pc_tags w))) (set (ins k))"
    using m(1) by (simp add: mine_def outs_of_def distinct_map)
  then have "z = p" if "z \<in> set (ins k)" "the (prop_tag_get z k (pc_tags w)) = the (prop_tag_get p k (pc_tags w))" for z
    using that p by (simp add: inj_on_def)
  moreover have "x \<notin> set (all_shown (pc_tags w) ins q1 @ opt_list (pcs_header s))" using m(6) xo by (auto simp: S)
  moreover have "x \<noteq> pc_dst w" "x \<notin> set (all_mine (pc_tags w) ins (q1 @ q2))" using m(2,3) xm by auto
  ultimately show ?thesis using that[OF x xo] S by blast
qed

lemma move_child_ok:
  assumes ok: "concat_ok ins w" and k: "k \<in> fst ` set (pc_queue w)" and p: "p \<in> set (ins k)"
    and b: "\<And>y. bf = Some y \<Longrightarrow> y \<in> set (ins k) \<and> y \<noteq> p" and hd: "hd (place bf p (remove1 p (ins k))) = hd (ins k)"
  shows "\<exists>w'. move_child k p bf w = Some w' \<and> concat_ok (ins(k := place bf p (remove1 p (ins k)))) w'"
proof -
  obtain q1 s q2 where q: "pc_queue w = q1 @ (k, s) # q2"
    and nx: "find_next_out k w = (case all_shown (pc_tags w) ins q2 of [] \<Rightarrow> None | x # _ \<Rightarrow> Some x)"
    using concat_split[OF ok k] by metis
  note m = mine_distinct[OF ok q]
  let ?A = "all_shown (pc_tags w) ins q1" and ?H = "opt_list (pcs_header s)" and ?B = "all_shown (pc_tags w) ins q2"
    and ?O = "outs_of (pc_tags w) k"
  obtain x where x: "prop_tag_get p k (pc_tags w) = Some x" "x \<in> set (?O (ins k))" "x \<notin> set (?A @ ?H)"
    and inj: "\<And>z. z \<in> set (ins k) \<Longrightarrow> the (prop_tag_get z k (pc_tags w)) = the (prop_tag_get p k (pc_tags w)) \<Longrightarrow> z = p"
    and S: "shown (pc_tags w) (ins k) k s = ?H @ ?O (ins k)"
    using out_of_child[OF ok q p] by metis
  define rs where "rs = remove1 p (ins k)"
  have di: "distinct (ins k)" using m(1) by (simp add: mine_def outs_of_def distinct_map)
  have rs: "?O rs = remove1 x (?O (ins k))" unfolding rs_def by (subst outs_remove1[OF inj]) (simp_all add: x(1))
  have ro: "remove1 x (?A @ ?H @ ?O (ins k) @ ?B) = ?A @ ?H @ ?O rs @ ?B"
    using remove1_mid[of x "?A @ ?H" "?O (ins k)" ?B] x by (simp add: rs)
  have dr: "distinct (?A @ ?H @ ?O rs @ ?B)" using distinct_remove1[OF m(6), of x] unfolding S append_assoc ro .
  define bx where "bx = (case bf of Some y \<Rightarrow> prop_tag_get y k (pc_tags w) | None \<Rightarrow> find_next_out k w)"
  have bx: "(\<forall>y. bx = Some y \<longrightarrow> y \<in> set (?A @ ?H @ ?O (ins k) @ ?B) \<and> y \<noteq> x)
      \<and> place bx x (?A @ ?H @ ?O rs @ ?B) = ?A @ ?H @ ?O (place bf p rs) @ ?B"
  proof (cases bf)
    case None
    then have "bx = (case ?B of [] \<Rightarrow> None | x # _ \<Rightarrow> Some x)" by (simp add: bx_def nx)
    moreover have "x \<notin> set ?B" using m(6) x(2) by (auto simp: S)
    ultimately show ?thesis using place_next[of "?A @ ?H @ ?O rs" ?B x] dr None x(1)
      by (auto simp: place_def split: list.splits)
  next
    case (Some y)
    then have y: "y \<in> set (ins k)" "y \<noteq> p" using b by auto
    obtain z where z: "prop_tag_get y k (pc_tags w) = Some z" "z \<in> set (?O (ins k))" "z \<notin> set (?A @ ?H)"
      and injz: "\<And>u. u \<in> set (ins k) \<Longrightarrow> the (prop_tag_get u k (pc_tags w)) = the (prop_tag_get y k (pc_tags w)) \<Longrightarrow> u = y"
      using out_of_child[OF ok q y(1)] by metis
    have zx: "z \<noteq> x" using inj[OF y(1)] y(2) x(1) z(1) by auto
    have "z \<in> set (?O rs)" using z(2) zx by (simp add: rs in_set_remove1)
    from insert_before_mid[OF z(3) this, of x ?B]
    have "place (Some z) x (?A @ ?H @ ?O rs @ ?B) = ?A @ ?H @ insert_before z x (?O rs) @ ?B" by (simp add: place_def)
    moreover have "?O (insert_before y p rs) = insert_before z x (?O rs)"
      using outs_insert_before[of rs k "pc_tags w" y p] injz x(1) z(1) by (auto simp: rs_def dest: notin_set_remove1)
    ultimately show ?thesis using Some z zx by (simp add: bx_def place_def)
  qed
  obtain st' where r: "prop_move0 x bx None (pc_props w) = Some st'" "only {pc_dst w} (pc_props w) st'"
    and d: "dest st' (pc_dst w) (place bx x (remove1 x (?A @ ?H @ ?O (ins k) @ ?B)))"
    using shift[OF m(8), of "pc_dst w" "?A @ ?H @ ?O (ins k) @ ?B" x bx None] m(7) x(2) bx by (auto simp: S)
  have pl: "set (place bf p rs) = set (ins k)" "distinct (place bf p rs)"
    using p di by (simp_all add: place_facts rs_def insert_absorb)
  then have pn: "place bf p rs \<noteq> []" "length (place bf p rs) = length (ins k)"
    using p distinct_card[OF di] distinct_card[OF pl(2)] by auto
  have w: "move_child k p bf w = Some (w\<lparr>pc_queue := q1 @ (k, s) # q2, pc_tags := pc_tags w, pc_props := st'\<rparr>)"
    using r(1) x(1) by (simp add: move_child_def bx_def[symmetric] pc_run_def q[symmetric])
  have mv: "set (mine (pc_tags w) (ins k) k s) \<inter> {pc_dst w} = {}" using m(3) by simp
  have "concat_ok (ins(k := place bf p rs)) (w\<lparr>pc_queue := q1 @ (k, s) # q2, pc_tags := pc_tags w, pc_props := st'\<rparr>)"
  proof (rule kept_ok[OF ok q r(2)])
    show "{pc_dst w} \<inter> set (all_mine (pc_tags w) ins (q1 @ q2)) = {}" using m(4) by simp
    show "{pc_dst w} \<inter> set (?O (place bf p rs)) = {}" using m(3) pl(1) by (auto simp: mine_def outs_of_def)
    show "pcs_first s = (case place bf p rs of [] \<Rightarrow> None | y # _ \<Rightarrow> prop_tag_get y k (pc_tags w))"
      using m(5) p pn(1) hd[folded rs_def] by (cases "ins k"; cases "place bf p rs") (auto simp: src_ok_def)
    show "pcs_count s = int (length (place bf p rs))" using m(5) pn(2) by (simp add: src_ok_def)
    show "PROP_MULTI_NOTIFY \<notin> hp_flags (props st' h) \<and> hp_parent (props st' h) = (if place bf p rs = [] then None else Some (pc_dst w))"
      if h: "pcs_header s = Some h" for h
    proof -
      have "h \<noteq> pc_dst w" "h < pnext (pc_props w)" using m(3,5) h by (auto simp: mine_def opt_list_def src_ok_def)
      then have "same_at (pc_props w) st' h" using onlyD(3)[OF r(2), of h] by simp
      from same_atD[OF this] show ?thesis using m(5) h p pn(1) by (auto simp: src_ok_def)
    qed
    show "dest st' (pc_dst w) (?A @ shown (pc_tags w) (place bf p rs) k s @ ?B)"
      using d bx pn(1) by (simp add: ro shown_def mine_def)
  qed (simp_all add: pl)
  then show ?thesis using w by (simp add: rs_def)
qed

lemma del_child_ok:
  assumes ok: "concat_ok ins w" and k: "k \<in> fst ` set (pc_queue w)" and p: "p \<in> set (ins k)"
  shows "\<exists>w'. del_child k p w = Some w' \<and> concat_ok (ins(k := remove1 p (ins k))) w'"
proof -
  obtain q1 s q2 where q: "pc_queue w = q1 @ (k, s) # q2" "pcs_of w k = Some s"
    and kq: "k \<notin> fst ` set q1" "k \<notin> fst ` set q2"
    using concat_split[OF ok k] by metis
  note m = mine_distinct[OF ok q(1)]
  let ?A = "all_shown (pc_tags w) ins q1" and ?H = "opt_list (pcs_header s)" and ?B = "all_shown (pc_tags w) ins q2"
    and ?O = "outs_of (pc_tags w) k" and ?d = "pc_dst w" and ?st = "pc_props w"
  obtain x where x: "prop_tag_get p k (pc_tags w) = Some x" "x \<in> set (?O (ins k))" "x \<notin> set (?A @ ?H)"
    and xo: "outp ?st ?d p x" "x \<noteq> ?d" "p \<noteq> x" "x \<notin> set (all_mine (pc_tags w) ins (q1 @ q2))"
    and inj: "\<And>z. z \<in> set (ins k) \<Longrightarrow> the (prop_tag_get z k (pc_tags w)) = the (prop_tag_get p k (pc_tags w)) \<Longrightarrow> z = p"
    and S: "shown (pc_tags w) (ins k) k s = ?H @ ?O (ins k)"
    using out_of_child[OF ok q(1) p] by metis
  define rs where "rs = remove1 p (ins k)"
  define tg where "tg = snd (prop_tag_clear x k (snd (prop_tag_clear p k (pc_tags w))))"
  have di: "distinct (ins k)" using m(1) by (simp add: mine_def outs_of_def distinct_map)
  have rs: "?O rs = remove1 x (?O (ins k))" unfolding rs_def by (subst outs_remove1[OF inj]) (simp_all add: x(1))
  have rset: "set rs = set (ins k) - {p}" using di by (simp add: rs_def)
  have po: "p \<notin> set (all_mine (pc_tags w) ins (pc_queue w))" using m(9)[OF k p] by simp
  have xi: "x \<notin> set (ins j)" if "j \<in> fst ` set (pc_queue w)" for j
    using m(9)[OF that, of x] x(2) by (auto simp: q(1) mine_def)
  obtain st1 where ds: "destroy_now x ?st = Some (True, st1)" and on1: "only {x, ?d, p} ?st st1" and n1: "pnext st1 = pnext ?st"
    and d1: "dest st1 ?d (remove1 x (?A @ ?H @ ?O (ins k) @ ?B))"
    using drop[OF m(8), of ?d "?A @ ?H @ ?O (ins k) @ ?B" p x] m(7) x(2) xo by (auto simp: S)
  have d1: "dest st1 ?d (?A @ ?H @ ?O rs @ ?B)"
    using d1 remove1_mid[of x "?A @ ?H" "?O (ins k)" ?B] x(2,3) by (simp add: rs)
  have xp: "hp_parent (props ?st x) = Some ?d" "hp_childs ?st ?d = ?A @ ?H @ ?O (ins k) @ ?B"
    using xo(1) m(7) by (simp_all add: outp_def dest_def S)
  have hh: "h \<in> set (mine (pc_tags w) (ins k) k s) \<and> h \<noteq> x \<and> h \<noteq> ?d \<and> h \<noteq> p \<and> h < pnext ?st
      \<and> PROP_MULTI_NOTIFY \<notin> hp_flags (props ?st h) \<and> hp_parent (props ?st h) = Some ?d"
    if h: "pcs_header s = Some h" for h
  proof -
    have "h \<in> set (mine (pc_tags w) (ins k) k s)" using h by (simp add: mine_def opt_list_def)
    moreover from this have "h \<noteq> ?d" "h \<noteq> p" using m(3) po by (auto simp: q(1))
    moreover have "h \<noteq> x" using x(3) h by (auto simp: opt_list_def)
    ultimately show ?thesis using m(5) h p by (auto simp: src_ok_def)
  qed
  have h1: "same_at ?st st1 h" if "pcs_header s = Some h" for h using onlyD(3)[OF on1, of h] hh[OF that] by simp
  let ?c = "pcs_count s - 1"
  define f1 where "f1 = (case rs of [] \<Rightarrow> None | y # _ \<Rightarrow> prop_tag_get y k (pc_tags w))"
  let ?s = "s\<lparr>pcs_count := ?c, pcs_first := f1\<rparr>"
  have cnt: "?c = int (length rs)" using m(5) p by (simp add: src_ok_def rs_def length_remove1) (cases "ins k"; simp)
  have "\<exists>st2. del_child k p w = Some (w\<lparr>pc_queue := q1 @ (k, ?s) # q2, pc_tags := tg, pc_props := st2\<rparr>)
      \<and> only ({x, ?d, p} \<union> set ?H) ?st st2 \<and> dest st2 ?d (?A @ shown (pc_tags w) rs k s @ ?B)
      \<and> (\<forall>h. pcs_header s = Some h \<longrightarrow> PROP_MULTI_NOTIFY \<notin> hp_flags (props st2 h)
            \<and> hp_parent (props st2 h) = (if rs = [] then None else Some ?d))"
  proof (cases rs)
    case Nil
    then have c0: "?c = 0" and f0: "f1 = None" using cnt by (simp_all add: f1_def)
    show ?thesis
    proof (cases "pcs_header s")
      case None
      have "only ({x, ?d, p} \<union> set ?H) ?st st1" by (rule only_mono[OF on1]) auto
      then show ?thesis using ds d1 Nil None c0 f0 x(1) q xp(1)
        by (intro exI[of _ st1]) (simp add: del_child_def pc_run_def Let_def tg_def upd_pcs_at[OF kq] shown_def opt_list_def)
    next
      case (Some h)
      note hf = hh[OF Some] and hs = same_atD[OF h1[OF Some]]
      have hA: "h \<notin> set ?A" using m(6) by (auto simp: S opt_list_def Some)
      obtain st2 where u: "prop_unparent0 h st1 = Some st2" and d2: "dest st2 ?d (remove1 h (?A @ ?H @ ?O rs @ ?B))"
        and o2: "only {h, ?d} st1 st2" "hp_parent (props st2 h) = None" "hp_flags (props st2 h) = hp_flags (props st1 h)"
        using leave_dest[OF onlyD(1)[OF on1] d1, of h] hf hs by (auto simp: opt_list_def Some)
      have "dest st2 ?d (?A @ ?B)" using d2 remove1_mid[OF hA, of "[h]" ?B] by (simp add: opt_list_def Some Nil)
      moreover have "only ({x, ?d, p} \<union> set ?H) ?st st2"
        by (rule only_mono[OF only_trans[OF on1 o2(1)]]) (auto simp: opt_list_def Some)
      ultimately show ?thesis using ds u Nil Some c0 f0 x(1) q xp(1) o2 hf hs
        by (intro exI[of _ st2]) (simp add: del_child_def pc_run_def Let_def tg_def upd_pcs_at[OF kq] shown_def)
    qed
  next
    case (Cons y r)
    have "y \<in> set (ins k)" using rset Cons by auto
    then obtain z where z: "prop_tag_get y k (pc_tags w) = Some z" using out_of_child[OF ok q(1)] by metis
    then have f: "f1 = Some z" "?O rs = z # ?O r" using Cons by (simp_all add: f1_def)
    have c0: "?c \<noteq> 0" using cnt Cons by simp
    have first: "pcs_first s = prop_tag_get (hd (ins k)) k (pc_tags w)" using m(5) p by (cases "ins k") (auto simp: src_ok_def)
    have "(if pcs_first s = Some x then next_of x (hp_childs ?st ?d) else pcs_first s) = f1"
    proof (cases "hd (ins k) = p")
      case True
      then have "ins k = p # rs" using p by (cases "ins k") (auto simp: rs_def)
      then have "hp_childs ?st ?d = (?A @ ?H) @ x # z # ?O r @ ?B" using xp(2) x(1) f(2) by simp
      then show ?thesis using next_of_mid[OF x(3), of z "?O r @ ?B"] first True x(1) f(1) by simp
    next
      case False
      then have "hd (ins k) = y" using Cons p by (cases "ins k") (auto simp: rs_def)
      moreover have "pcs_first s \<noteq> Some x" using first False inj[of "hd (ins k)"] p x(1) by (cases "ins k") auto
      ultimately show ?thesis using first z f(1) by simp
    qed
    moreover have "only ({x, ?d, p} \<union> set ?H) ?st st1" by (rule only_mono[OF on1]) auto
    moreover have "PROP_MULTI_NOTIFY \<notin> hp_flags (props st1 h) \<and> hp_parent (props st1 h) = Some ?d" if "pcs_header s = Some h" for h
      using hh[OF that] same_atD[OF h1[OF that]] by simp
    ultimately show ?thesis using ds d1 Cons c0 x(1) q xp
      by (intro exI[of _ st1]) (simp add: del_child_def pc_run_def Let_def tg_def upd_pcs_at[OF kq] shown_def mine_def split: if_splits)
  qed
  then obtain st2 where w: "del_child k p w = Some (w\<lparr>pc_queue := q1 @ (k, ?s) # q2, pc_tags := tg, pc_props := st2\<rparr>)"
    and o: "only ({x, ?d, p} \<union> set ?H) ?st st2" and d: "dest st2 ?d (?A @ shown (pc_tags w) rs k s @ ?B)"
    and h: "\<And>h. pcs_header s = Some h \<Longrightarrow> PROP_MULTI_NOTIFY \<notin> hp_flags (props st2 h)
        \<and> hp_parent (props st2 h) = (if rs = [] then None else Some ?d)" by blast
  have "concat_ok (ins(k := rs)) (w\<lparr>pc_queue := q1 @ (k, ?s) # q2, pc_tags := tg, pc_props := st2\<rparr>)"
  proof (rule kept_ok[OF ok q(1) o])
    have "set ?H \<subseteq> set (mine (pc_tags w) (ins k) k s)" by (auto simp: mine_def)
    then show "({x, ?d, p} \<union> set ?H) \<inter> set (all_mine (pc_tags w) ins (q1 @ q2)) = {}" using m(2,4) xo(4) po by (auto simp: q(1))
    have "x \<notin> set (?O rs)" using m(6) x(2) by (simp add: rs S)
    moreover have "set (?O rs) \<subseteq> set (?O (ins k))" using rset by (auto simp: outs_of_def)
    moreover have "set ?H \<inter> set (?O (ins k)) = {}" "p \<notin> set (?O (ins k))" "?d \<notin> set (?O (ins k))"
      using m(1,3) po by (auto simp: mine_def q(1))
    ultimately show "({x, ?d, p} \<union> set ?H) \<inter> set (?O rs) = {}" by blast
    show "prop_tag_get y j tg = prop_tag_get y j (pc_tags w)" if "j \<noteq> k" for j y using that by (simp add: tg_def)
    show "prop_tag_get y k tg = prop_tag_get y k (pc_tags w)" if y: "y \<in> set rs" for y
    proof -
      have "y \<in> set (ins k)" "y \<noteq> p" using y unfolding rset by simp_all
      moreover from this(1) have "y \<noteq> x" using xi[OF k] by blast
      ultimately show ?thesis by (simp add: tg_def)
    qed
    show "set rs \<subseteq> set (ins k)" "distinct rs" using rset di by (auto simp: rs_def)
    show "pcs_count ?s = int (length rs)" using cnt by simp
    show "pcs_first ?s = (case rs of [] \<Rightarrow> None | y # _ \<Rightarrow> prop_tag_get y k (pc_tags w))" by (simp add: f1_def)
  qed (simp_all add: h d)
  then show ?thesis using w by (simp add: rs_def)
qed

section \<open>Any event\<close>

text \<open>
  The events that fit what the source has told: new children can be linked and are not the
  concatenation's own; a child named is one of the source's; and the first child stays the first
  when one is moved or inserted before another. A new value fits when no child is known.
\<close>

definition addable :: "(nat \<Rightarrow> pid list) \<Rightarrow> nat \<Rightarrow> prop_concat \<Rightarrow> pid \<Rightarrow> bool" where
  "addable ins k w p \<longleftrightarrow> source_child (pc_props w) p \<and> p \<notin> set (all_mine (pc_tags w) ins (pc_queue w)) \<and> p \<notin> set (ins k)"

definition fits :: "(nat \<Rightarrow> pid list) \<Rightarrow> nat \<Rightarrow> prop_notify_t \<Rightarrow> prop_concat \<Rightarrow> bool" where
  "fits ins k n w =
     (case (hpn_event n, hpn_val n) of
        (EV_ADD_CHILD, NV_prop (Some p)) \<Rightarrow> addable ins k w p
      | (EV_ADD_CHILD_VECTOR, NV_propv _ ps) \<Rightarrow> distinct ps \<and> (\<forall>p \<in> set ps. addable ins k w p)
      | (EV_ADD_CHILD_VECTOR_DIRECT, NV_propv _ ps) \<Rightarrow> distinct ps \<and> (\<forall>p \<in> set ps. addable ins k w p)
      | (EV_ADD_CHILD_BEFORE, NV_prop (Some p)) \<Rightarrow>
          addable ins k w p \<and> (\<exists>b. hpn_prop_extra n = Some b \<and> b \<in> set (ins k) \<and> hd (ins k) \<noteq> b)
      | (EV_DEL_CHILD, NV_prop (Some p)) \<Rightarrow> p \<in> set (ins k)
      | (EV_MOVE_CHILD, NV_prop (Some p)) \<Rightarrow>
          p \<in> set (ins k) \<and> (\<forall>b. hpn_prop_extra n = Some b \<longrightarrow> b \<in> set (ins k) \<and> b \<noteq> p)
          \<and> hd (replay1 (ins k) n) = hd (ins k)
      | (ev, _) \<Rightarrow> ev \<in> {EV_SELECT_CHILD, EV_REQ_DELETE_VECTOR, EV_HAVE_MORE_CHILDS_YES, EV_HAVE_MORE_CHILDS_NO,
                        EV_WANT_MORE_CHILDS, EV_REQ_DELETE}
                  \<or> ev \<in> {EV_SET_VOID, EV_SET_DIR} \<and> ins k = [])"

text \<open>The shapes of an event that fits.\<close>

lemma fits_cases:
  assumes "fits ins k n w"
  obtains (add) p where "hpn_event n = EV_ADD_CHILD" "hpn_val n = NV_prop (Some p)" "addable ins k w p"
  | (vector) e ps where "hpn_event n = EV_ADD_CHILD_VECTOR \<or> hpn_event n = EV_ADD_CHILD_VECTOR_DIRECT"
      "hpn_val n = NV_propv e ps" "distinct ps" "\<forall>p \<in> set ps. addable ins k w p"
  | (before) p b where "hpn_event n = EV_ADD_CHILD_BEFORE" "hpn_val n = NV_prop (Some p)" "addable ins k w p"
      "hpn_prop_extra n = Some b" "b \<in> set (ins k)" "hd (ins k) \<noteq> b"
  | (del) p where "hpn_event n = EV_DEL_CHILD" "hpn_val n = NV_prop (Some p)" "p \<in> set (ins k)"
  | (move) p where "hpn_event n = EV_MOVE_CHILD" "hpn_val n = NV_prop (Some p)" "p \<in> set (ins k)"
      "\<forall>b. hpn_prop_extra n = Some b \<longrightarrow> b \<in> set (ins k) \<and> b \<noteq> p" "hd (replay1 (ins k) n) = hd (ins k)"
  | (other) "concat_src_cb k n w = Some w" "replay1 (ins k) n = ins k"
  using assms
  by (cases "hpn_event n"; cases "hpn_val n"; cases "nv_prop (hpn_val n)")
     (auto simp: fits_def concat_src_cb_def replay1_def value_events_def nv_prop_def split: option.splits)

lemma concat_event_ok:
  assumes ok: "concat_ok ins w" and k: "k \<in> fst ` set (pc_queue w)" and f: "fits ins k n w"
  shows "\<exists>w'. concat_src_cb k n w = Some w' \<and> concat_ok (ins(k := replay1 (ins k) n)) w'"
  using f
proof (cases rule: fits_cases)
  case (add p)
  then show ?thesis using add_child_ok[OF ok k, of p]
    by (auto simp: concat_src_cb_def replay1_def value_events_def opt_list_def nv_prop_def addable_def simp del: fun_upd_apply)
next
  case (vector e ps)
  have "\<exists>w'. ofold (add_child k) ps w = Some w' \<and> concat_ok (ins(k := ins k @ ps)) w'"
    by (rule add_vector_ok[OF ok k]) (use vector in \<open>auto simp: addable_def\<close>)
  then show ?thesis using vector(1,2)
    by (auto simp: concat_src_cb_def replay1_def value_events_def nv_propv_def simp del: fun_upd_apply)
next
  case (before p b)
  then show ?thesis using add_before_ok[OF ok k, of p b]
    by (auto simp: concat_src_cb_def replay1_def value_events_def opt_list_def nv_prop_def addable_def place_def
        simp del: fun_upd_apply)
next
  case (del p)
  then show ?thesis using del_child_ok[OF ok k, of p]
    by (auto simp: concat_src_cb_def replay1_def value_events_def opt_list_def nv_prop_def simp del: fun_upd_apply)
next
  case (move p)
  then have r: "replay1 (ins k) n = place (hpn_prop_extra n) p (remove1 p (ins k))"
    by (simp add: replay1_def value_events_def opt_list_def nv_prop_def)
  show ?thesis using move_child_ok[OF ok k move(3), of "hpn_prop_extra n"] move
    by (auto simp: concat_src_cb_def r simp del: fun_upd_apply)
next
  case other
  then show ?thesis using ok by simp
qed

end
