(* ===== verification/Derived_Properties.thy ===== *)
theory Derived_Properties
  imports Prop_Concat_Inv Prop_Session
begin

text \<open>
  What a list derived from other lists guarantees, and where it goes wrong.
\<close>

lemma tree_ok_distinct: "tree_ok st \<Longrightarrow> distinct (hp_childs st d)"
  by (simp add: tree_ok_def)

section \<open>A world to start from\<close>

text \<open>Two sources without children, on a destination without children.\<close>

definition no_source :: prop_concat_source where
  "no_source = \<lparr>pcs_srcsub = None, pcs_first = None, pcs_header = None, pcs_count = 0, pcs_index = 0\<rparr>"

definition two_sources :: "pst \<Rightarrow> pid \<Rightarrow> prop_concat" where
  "two_sources st d = \<lparr>pc_queue = [(0, no_source), (1, no_source)], pc_dst = d, pc_dstsub = None, pc_index_tally = 2,
     pc_refs = 3, pc_tags = (\<lambda>_. []), pc_props = st\<rparr>"

lemma two_sources_ok:
  assumes "tree_ok st" "dest st d []"
  shows "concat_ok (\<lambda>_. []) (two_sources st d)"
  using assms by (simp add: concat_ok_def two_sources_def concat_shows_def src_ok_def mine_def shown_def no_source_def
      opt_list_def)

text \<open>A destination with three properties beside it.\<close>

definition four_props :: pst where
  "four_props = snd (prop_make None False None (snd (prop_make None False None (snd (prop_make None False None
     (set_type 0 (PROP_DIR [] None) prop_init))))))"

lemma four_props_facts:
  "tree_ok four_props" "dest four_props prop_global []" "pnext four_props = 4"
  "p \<in> {1, 2, 3} \<Longrightarrow> source_child four_props p"
proof -
  let ?d = "set_type 0 (PROP_DIR [] None) prop_init"
  have "tree_ok ?d" by (rule tree_ok_set_type[OF init_tree]) (simp add: childs_of_def)
  then show "tree_ok four_props" unfolding four_props_def by (intro tree_ok_make(1)) simp_all
  show p: "pnext four_props = 4" by (simp add: four_props_def type_make init_fields)
  have f: "hp_flags (props four_props 0) = {PROP_NAME_NOT_ALLOCATED}"
    by (simp add: four_props_def prop_make_def set_type_def prop_init_def upd_defs prop_global_def no_prop_def)
  show "dest four_props prop_global []" unfolding dest_def p
    by (simp add: f prop_global_def) (simp add: four_props_def type_make init_fields is_dir_def childs_of_def)
  show "p \<in> {1, 2, 3} \<Longrightarrow> source_child four_props p"
    by (auto simp: source_child_def p) (simp_all add: four_props_def type_make init_fields init_type numeral_eq_Suc)
qed

section \<open>Concatenation\<close>

text \<open>
  C39. A concatenation refines the concatenation of lists. While its invariant holds and the event of
  a source fits what the source has told before, the callback handles the event without failing,
  keeps the invariant, and leaves the destination with the outputs of the sources' children, source
  after source, each non-empty run preceded by its header; the children of the source that sent the
  event are those before, changed as the event says.
\<close>

theorem concat_is_concatenation:
  assumes "concat_ok ins w" "k \<in> fst ` set (pc_queue w)" "fits ins k n w"
  shows "\<exists>w'. concat_src_cb k n w = Some w' \<and> concat_ok (ins(k := replay1 (ins k) n)) w'
     \<and> hp_childs (pc_props w') (pc_dst w') = concat_shows (ins(k := replay1 (ins k) n)) w'"
proof -
  obtain w' where "concat_src_cb k n w = Some w'" "concat_ok (ins(k := replay1 (ins k) n)) w'"
    using concat_event_ok[OF assms] by blast
  then show ?thesis unfolding concat_ok_def dest_def by blast
qed

theorem concat_is_concatenation_witness:
  "\<exists>w'. concat_src_cb 0 (mk_notify 7 EV_ADD_CHILD_VECTOR (NV_propv 0 [2, 1])) (two_sources four_props prop_global) = Some w'
     \<and> concat_ok ((\<lambda>_. [])(0 := [2, 1])) w'"
proof -
  let ?n = "mk_notify 7 EV_ADD_CHILD_VECTOR (NV_propv 0 [2, 1])" and ?w = "two_sources four_props prop_global"
  have "fits (\<lambda>_. []) 0 ?n ?w"
    using four_props_facts(4)[of 1] four_props_facts(4)[of 2]
    by (simp add: fits_def mk_notify_def addable_def two_sources_def no_source_def mine_def opt_list_def)
  moreover have "replay1 [] ?n = [2, 1]" by (simp add: replay1_def mk_notify_def value_events_def nv_propv_def)
  ultimately show ?thesis
    using concat_is_concatenation[OF two_sources_ok[OF four_props_facts(1,2)], of 0 ?n]
    by (auto simp: two_sources_def simp del: fun_upd_apply)
qed

text \<open>
  C40. What the concatenation holds of a source as its first output goes stale. Of two sources without
  headers the second has children, and a child \<open>p\<close> is inserted before the first of them; a child \<open>r\<close>
  that is then appended to the first source is shown after \<open>p\<close>, in the middle of the second source,
  though all children of the first source should come before those of the second.
\<close>

theorem concat_first_goes_stale:
  assumes "concat_ok ins w" "map (\<lambda>(i, s). (i, pcs_header s)) (pc_queue w) = [(j, None), (k, None)]" "ins k = b # bs"
    and "addable ins k w p" "addable ins j w r" "p \<noteq> r"
    and "hpn_event n = EV_ADD_CHILD_BEFORE" "hpn_val n = NV_prop (Some p)" "hpn_prop_extra n = Some b"
    and "hpn_event m = EV_ADD_CHILD" "hpn_val m = NV_prop (Some r)"
  shows "\<exists>w'. ofold (\<lambda>(i, e). concat_src_cb i e) [(k, n), (j, m)] w = Some w'
     \<and> hp_childs (pc_props w') (pc_dst w)
         = outs_of (pc_tags w) j (ins j) @ [pnext (pc_props w), Suc (pnext (pc_props w))] @ outs_of (pc_tags w) k (ins k)
     \<and> hp_originator (props (pc_props w') (pnext (pc_props w))) = Some p
     \<and> hp_originator (props (pc_props w') (Suc (pnext (pc_props w)))) = Some r"
proof -
  let ?x = "pnext (pc_props w)" and ?d = "pc_dst w"
  let ?tg = "prop_tag_set ?x k p (prop_tag_set p k ?x (pc_tags w))"
  obtain s t where q: "pc_queue w = [(j, s), (k, t)]" and h: "pcs_header s = None" "pcs_header t = None"
    using assms(2) by auto
  have jk: "j \<noteq> k" using assms(1) by (auto simp: concat_ok_def q)
  have pa: "source_child (pc_props w) p" "p \<notin> set (all_mine (pc_tags w) ins (pc_queue w))" "p \<notin> set (ins k)"
    and ra: "source_child (pc_props w) r" using assms(4,5) by (auto simp: addable_def)
  note m = mine_distinct[OF assms(1), of "[(j, s)]" k t "[]"]
  obtain st3 where r1: "add_child_before k p b w
      = Some (w\<lparr>pc_queue := [(j, s), (k, t\<lparr>pcs_count := pcs_count t + 1\<rparr>)], pc_tags := ?tg, pc_props := st3\<rparr>)"
    and f: "only {p, ?d} (pc_props w) st3" "links_kept (pc_props w) st3" "pnext st3 = Suc ?x"
      "hp_originator (props st3 ?x) = Some p"
    and d: "dest st3 ?d (all_shown (pc_tags w) ins [(j, s)] @ outs_of ?tg k (insert_before b p (ins k)))"
    using add_before_run[OF assms(1), of "[(j, s)]" k t "[]" p b] pa assms(3) q h by (auto simp: opt_list_def)
  let ?w1 = "w\<lparr>pc_queue := [(j, s), (k, t\<lparr>pcs_count := pcs_count t + 1\<rparr>)], pc_tags := ?tg, pc_props := st3\<rparr>"
  have old: "outs_of ?tg k (ins k) = outs_of (pc_tags w) k (ins k)"
    by (rule outs_cong) (use pa m(9)[of k ?x] m(10)[of ?x] in \<open>auto simp: q\<close>)
  obtain y where y: "prop_tag_get b k (pc_tags w) = Some y" "pcs_first t = Some y"
    using m(5) assms(3) by (auto simp: q src_ok_def)
  have xp: "p < ?x" "prop_tag_get p k ?tg = Some ?x" using pa by (auto simp: source_child_def)
  have so: "all_shown (pc_tags w) ins [(j, s)] = outs_of (pc_tags w) j (ins j)"
    using h by (simp add: shown_def mine_def opt_list_def)
  have "outs_of ?tg k (insert_before b p (ins k)) = ?x # outs_of ?tg k (ins k)" using assms(3) xp(2) by simp
  then have d1: "dest st3 ?d ((outs_of (pc_tags w) j (ins j) @ [?x]) @ outs_of (pc_tags w) k (ins k))"
    using d unfolding so old by simp
  have nx: "find_next_out j ?w1 = Some y" using jk y(2) h by (simp add: find_next_out_def)
  have t3: "tree_ok st3" "source_child st3 r"
    using onlyD(1)[OF f(1)] source_child_kept[OF _ f(2) ra] assms(1) by (auto simp: concat_ok_def)
  have yin: "z \<in> set ((outs_of (pc_tags w) j (ins j) @ [?x]) @ outs_of (pc_tags w) k (ins k))" if "Some y = Some z" for z
    using that assms(3) y(1) by simp
  obtain w2 st4 where mo: "make_out j r ?w1 = Some (Suc ?x, w2)"
    and pp: "pc_parent (Suc ?x) (Some y) w2 = Some (?w1\<lparr>pc_props := st4, pc_tags := pc_tags w2\<rparr>)"
    and g: "dest st4 ?d (place (Some y) (Suc ?x) ((outs_of (pc_tags w) j (ins j) @ [?x]) @ outs_of (pc_tags w) k (ins k)))"
      "hp_originator (props st4 (Suc ?x)) = Some r" "only {r, ?d} st3 st4"
    using place_out[where w = ?w1 and k = j and cs = "(outs_of (pc_tags w) j (ins j) @ [?x]) @ outs_of (pc_tags w) k (ins k)"
        and p = r and bf = "Some y"] t3 d1 yin by (simp add: f(3)) metis
  have "distinct ((outs_of (pc_tags w) j (ins j) @ [?x]) @ outs_of (pc_tags w) k (ins k))"
    using tree_ok_distinct[OF t3(1)] d1 unfolding dest_def by metis
  then have pl: "place (Some y) (Suc ?x) ((outs_of (pc_tags w) j (ins j) @ [?x]) @ outs_of (pc_tags w) k (ins k))
      = outs_of (pc_tags w) j (ins j) @ [?x, Suc ?x] @ outs_of (pc_tags w) k (ins k)"
    using place_next[of "outs_of (pc_tags w) j (ins j) @ [?x]" "outs_of (pc_tags w) k (ins k)" "Suc ?x"] assms(3) y(1) by simp
  have "r < ?x" "?d < ?x" using ra m(7) by (auto simp: source_child_def dest_def q)
  then have "same_at st3 st4 ?x" using onlyD(3)[OF g(3), of ?x] f(3) by simp
  then have ox: "hp_originator (props st4 ?x) = Some p" using same_atD(4) f(4) by metis
  have "\<exists>w'. add_child j r ?w1 = Some w' \<and> pc_props w' = st4"
    using mo pp nx jk h(1) by (auto simp: add_child_def pcs_of_def upd_pcs_def Let_def)
  then obtain w' where "add_child j r ?w1 = Some w'" "pc_props w' = st4" by blast
  moreover have "concat_src_cb k n w = Some ?w1" "concat_src_cb j m ?w1 = add_child j r ?w1"
    using assms(7-11) r1 by (simp_all add: concat_src_cb_def)
  moreover have "hp_childs st4 ?d = outs_of (pc_tags w) j (ins j) @ [?x, Suc ?x] @ outs_of (pc_tags w) k (ins k)"
    using g(1) pl by (simp add: dest_def)
  ultimately show ?thesis using ox g(2) by simp
qed

theorem concat_first_goes_stale_witness:
  "\<exists>w w' x. concat_src_cb 1 (mk_notify 7 EV_ADD_CHILD (NV_prop (Some 1))) (two_sources four_props prop_global) = Some w
     \<and> ofold (\<lambda>(i, e). concat_src_cb i e)
         [(1, (mk_notify 7 EV_ADD_CHILD_BEFORE (NV_prop (Some 2)))\<lparr>hpn_prop_extra := Some 1\<rparr>),
          (0, mk_notify 8 EV_ADD_CHILD (NV_prop (Some 3)))] w = Some w'
     \<and> hp_childs (pc_props w') (pc_dst w) = [x, Suc x, 4]
     \<and> hp_originator (props (pc_props w') x) = Some 2 \<and> hp_originator (props (pc_props w') (Suc x)) = Some 3"
proof -
  let ?w = "two_sources four_props prop_global" and ?i = "(\<lambda>_. [])(1 := [1 :: pid])"
  note s = four_props_facts(4)
  have e: "all_mine (pc_tags ?w) (\<lambda>_. []) (pc_queue ?w) = []"
    by (simp add: two_sources_def mine_def no_source_def opt_list_def)
  obtain w where a: "add_child 1 1 ?w = Some w" and ok: "concat_ok ?i w" and lk: "links_kept four_props (pc_props w)"
    and h: "map (\<lambda>(j, s). (j, pcs_header s)) (pc_queue w) = [(0, None), (1, None)]"
    and sub: "set (all_mine (pc_tags w) ?i (pc_queue w)) \<subseteq> {4}"
    using add_child_ok[OF two_sources_ok[OF four_props_facts(1,2)], of 1 1] s[of 1] e
    by (auto simp: two_sources_def four_props_facts(3) no_source_def simp del: fun_upd_apply)
  have o: "outs_of (pc_tags w) 1 [1] = [4]"
    using sub h by (auto simp: mine_def opt_list_def)
  have add: "addable ?i k w p" if "p \<in> {2, 3}" for k p
    using source_child_kept[OF four_props_facts(1) lk s[of p]] sub that by (auto simp: addable_def)
  have r: "concat_src_cb 1 (mk_notify 7 EV_ADD_CHILD (NV_prop (Some 1))) ?w = Some w"
    using a by (simp add: concat_src_cb_def mk_notify_def)
  show ?thesis
    using concat_first_goes_stale[OF ok h, of 1 "[]" 2 3
        "(mk_notify 7 EV_ADD_CHILD_BEFORE (NV_prop (Some 2)))\<lparr>hpn_prop_extra := Some 1\<rparr>"
        "mk_notify 8 EV_ADD_CHILD (NV_prop (Some 3))"] add[of 2 1] add[of 3 0] r o
    by (auto simp: mk_notify_def)
qed

end
