(* ===== verification/Prop_Trampoline.thy ===== *)
theory Prop_Trampoline
  imports Prop_Request
begin

text \<open>
  Trampolines (\<open>prop_core.c\<close>): what a subscription made with a callback for one type hands to it
  for a notification. A callback is called with \<open>Some\<close> argument or not called (\<open>Some None\<close>); the
  outer \<open>None\<close> is a number that C cannot convert. Doubles come from the floats of notifications
  and are kept as these.
\<close>

definition trampoline_int :: "bool \<Rightarrow> prop_notify_t \<Rightarrow> int option option" where
  "trampoline_int ignore_void n =
     (case (hpn_event n, hpn_val n) of
        (EV_SET_INT, NV_int i) \<Rightarrow> Some (Some (sint i))
      | (EV_SET_FLOAT, NV_float f) \<Rightarrow> map_option (\<lambda>i. Some (sint i)) (int_of_f32 f)
      | (EV_SET_RSTRING, NV_rstring s t) \<Rightarrow> map_option Some (c_atoi s)
      | (EV_SET_CSTRING, NV_cstring s) \<Rightarrow> map_option Some (c_atoi s)
      | _ \<Rightarrow> Some (if ignore_void then None else Some 0))"

definition trampoline_float :: "prop_notify_t \<Rightarrow> f32" where
  "trampoline_float n =
     (case (hpn_event n, hpn_val n) of
        (EV_SET_INT, NV_int i) \<Rightarrow> f32_of_int i
      | (EV_SET_FLOAT, NV_float f) \<Rightarrow> f
      | _ \<Rightarrow> 0)"

text \<open>The variants that store the value at the opaque pointer.\<close>

definition trampoline_int_set :: "prop_notify_t \<Rightarrow> int option" where
  "trampoline_int_set n = Option.bind (trampoline_int False n) id"

definition trampoline_float_set :: "prop_notify_t \<Rightarrow> f32" where
  "trampoline_float_set n = trampoline_float n"

definition trampoline_rstr_set :: "prop_notify_t \<Rightarrow> string option" where
  "trampoline_rstr_set n =
     (case (hpn_event n, hpn_val n) of
        (EV_SET_RSTRING, NV_rstring s t) \<Rightarrow> Some s
      | (EV_SET_CSTRING, NV_cstring s) \<Rightarrow> Some s
      | _ \<Rightarrow> None)"

definition trampoline_string :: "bool \<Rightarrow> prop_notify_t \<Rightarrow> string option option" where
  "trampoline_string ignore_void n =
     (case (hpn_event n, hpn_val n) of
        (EV_SET_RSTRING, NV_rstring s t) \<Rightarrow> Some (Some s)
      | (EV_SET_CSTRING, NV_cstring s) \<Rightarrow> Some (Some s)
      | (EV_SET_URI, NV_uri title uri) \<Rightarrow> Some title
      | _ \<Rightarrow> if ignore_void then None else Some None)"

definition trampoline_rstr :: "bool \<Rightarrow> prop_notify_t \<Rightarrow> string option option" where
  "trampoline_rstr ignore_void n = trampoline_string ignore_void n"

definition trampoline_event :: "prop_notify_t \<Rightarrow> nat option" where
  "trampoline_event n =
     (case (hpn_event n, hpn_val n) of (EV_EXT_EVENT, NV_event e) \<Rightarrow> Some e | _ \<Rightarrow> None)"

definition trampoline_destroyed :: "prop_notify_t \<Rightarrow> sid option" where
  "trampoline_destroyed n = (if hpn_event n = EV_DESTROYED then Some (hpn_sub n) else None)"

text \<open>An integer subscription is told what reading the property as an integer gives.\<close>

lemma trampoline_int_value:
  assumes "value_event v = Some (ev, nv)" and "\<And>t u. v \<noteq> PROP_URI t u"
  shows "trampoline_int False (mk_notify s ev nv) = map_option Some (int_value v)"
  using assms by (cases v) (auto simp: trampoline_int_def int_value_def mk_notify_def option.map_comp comp_def)

end
