(* ===== verification/Redblack.thy ===== *)
theory Redblack
  imports Prelude
begin

text \<open>
  Red-black trees (\<open>src/misc/redblack.h\<close>). The macros work on nodes with pointers to their children
  and to their parent. A node with all that is below it is a tree here, and what its parent pointers
  lead to a path: for each node above it, the colour, the element and the other child, and whether
  this one is its left or its right child. A rotation moves a step between the two. \<open>None\<close> is a null
  pointer that is followed.
\<close>

section \<open>Nodes and paths\<close>

datatype rb_color = RB_TREE_NODE_RED | RB_TREE_NODE_BLACK

datatype 'a rb_node = RB_NULL | RB_NODE rb_color "'a rb_node" 'a "'a rb_node"

datatype 'a rb_above =
    Left_of rb_color 'a "'a rb_node"
  | Right_of rb_color 'a "'a rb_node"

type_synonym 'a rb_path = "'a rb_above list"

record 'a rb_head =
  rb_first :: "'a option"
  rb_last :: "'a option"
  rb_root :: "'a rb_node"

definition RB_INIT :: "'a rb_head" where
  "RB_INIT = \<lparr>rb_first = None, rb_last = None, rb_root = RB_NULL\<rparr>"

fun is_red :: "'a rb_node \<Rightarrow> bool" where
  "is_red RB_NULL = False"
| "is_red (RB_NODE c l a r) = (c = RB_TREE_NODE_RED)"

fun set_black :: "'a rb_node \<Rightarrow> 'a rb_node" where
  "set_black RB_NULL = RB_NULL"
| "set_black (RB_NODE c l a r) = RB_NODE RB_TREE_NODE_BLACK l a r"

text \<open>The tree above a node, with the node in its place.\<close>

fun rb_up :: "'a rb_path \<Rightarrow> 'a rb_node \<Rightarrow> 'a rb_node" where
  "rb_up [] x = x"
| "rb_up (Left_of c a r # ps) x = rb_up ps (RB_NODE c x a r)"
| "rb_up (Right_of c a l # ps) x = rb_up ps (RB_NODE c l a x)"

fun above_elem :: "'a rb_above \<Rightarrow> 'a" where
  "above_elem (Left_of c a r) = a"
| "above_elem (Right_of c a l) = a"

fun above_color :: "'a rb_above \<Rightarrow> rb_color" where
  "above_color (Left_of c a r) = c"
| "above_color (Right_of c a l) = c"

section \<open>Insertion\<close>

text \<open>
  The loop of \<open>RB_INSERT_BALANCE\<close> at a red node \<open>RB_NODE RED xl xa xr\<close>; the colour of the root is
  set at its end. A red node whose parent is red has a grandparent, unless the root is red.
\<close>

fun rb_insert_balance :: "'a rb_node \<Rightarrow> 'a \<Rightarrow> 'a rb_node \<Rightarrow> 'a rb_path \<Rightarrow> 'a rb_node option" where
  "rb_insert_balance xl xa xr [] = Some (RB_NODE RB_TREE_NODE_BLACK xl xa xr)"
| "rb_insert_balance xl xa xr [p] =
     (if above_color p = RB_TREE_NODE_RED then None
      else Some (set_black (rb_up [p] (RB_NODE RB_TREE_NODE_RED xl xa xr))))"
| "rb_insert_balance xl xa xr (p # g # ps) =
     (if above_color p \<noteq> RB_TREE_NODE_RED
      then Some (set_black (rb_up (p # g # ps) (RB_NODE RB_TREE_NODE_RED xl xa xr)))
      else case g of
        Left_of gc ga y \<Rightarrow>
          if is_red y
          then rb_insert_balance (set_black (rb_up [p] (RB_NODE RB_TREE_NODE_RED xl xa xr))) ga (set_black y) ps
          else (case p of
                  Right_of pc pa pl \<Rightarrow>
                    Some (set_black (rb_up ps (RB_NODE RB_TREE_NODE_BLACK (RB_NODE RB_TREE_NODE_RED pl pa xl) xa
                                                 (RB_NODE RB_TREE_NODE_RED xr ga y))))
                | Left_of pc pa pr \<Rightarrow>
                    Some (set_black (rb_up ps (RB_NODE RB_TREE_NODE_BLACK (RB_NODE RB_TREE_NODE_RED xl xa xr) pa
                                                 (RB_NODE RB_TREE_NODE_RED pr ga y)))))
      | Right_of gc ga y \<Rightarrow>
          if is_red y
          then rb_insert_balance (set_black y) ga (set_black (rb_up [p] (RB_NODE RB_TREE_NODE_RED xl xa xr))) ps
          else (case p of
                  Left_of pc pa pr \<Rightarrow>
                    Some (set_black (rb_up ps (RB_NODE RB_TREE_NODE_BLACK (RB_NODE RB_TREE_NODE_RED y ga xl) xa
                                                 (RB_NODE RB_TREE_NODE_RED xr pa pr))))
                | Right_of pc pa pl \<Rightarrow>
                    Some (set_black (rb_up ps (RB_NODE RB_TREE_NODE_BLACK (RB_NODE RB_TREE_NODE_RED y ga pl) pa
                                                 (RB_NODE RB_TREE_NODE_RED xl xa xr))))))"

text \<open>
  The walk down: the place for a new node, or the node that compares equal. The comparison may fail.
\<close>

fun rb_descend :: "('a \<Rightarrow> 'a \<Rightarrow> int option) \<Rightarrow> 'a \<Rightarrow> 'a rb_node \<Rightarrow> 'a rb_path \<Rightarrow> ('a + 'a rb_path) option" where
  "rb_descend cmp x RB_NULL ps = Some (Inr ps)"
| "rb_descend cmp x (RB_NODE c l a r) ps =
     (case cmp x a of
        None \<Rightarrow> None
      | Some res \<Rightarrow>
          if res < 0 then rb_descend cmp x l (Left_of c a r # ps)
          else if 0 < res then rb_descend cmp x r (Right_of c a l # ps)
          else Some (Inl a))"

fun came_from_left :: "'a rb_path \<Rightarrow> bool" where
  "came_from_left [] = True"
| "came_from_left (Left_of c a r # ps) = True"
| "came_from_left (Right_of c a l # ps) = False"

fun came_from_right :: "'a rb_path \<Rightarrow> bool" where
  "came_from_right [] = True"
| "came_from_right (Left_of c a r # ps) = False"
| "came_from_right (Right_of c a l # ps) = True"

definition rb_parent :: "'a rb_path \<Rightarrow> 'a option" where
  "rb_parent ps = (case ps of [] \<Rightarrow> None | p # _ \<Rightarrow> Some (above_elem p))"

definition RB_INSERT_SORTED ::
  "('a \<Rightarrow> 'a \<Rightarrow> int option) \<Rightarrow> 'a \<Rightarrow> 'a rb_head \<Rightarrow> ('a option \<times> 'a rb_head) option" where
  "RB_INSERT_SORTED cmp x h =
     (case rb_descend cmp x (rb_root h) [] of
        None \<Rightarrow> None
      | Some (Inl c) \<Rightarrow> Some (Some c, h)
      | Some (Inr ps) \<Rightarrow>
          map_option (\<lambda>t. (None,
              \<lparr>rb_first = (if rb_parent ps = rb_first h \<and> came_from_left ps then Some x else rb_first h),
               rb_last = (if rb_parent ps = rb_last h \<and> came_from_right ps then Some x else rb_last h),
               rb_root = t\<rparr>))
            (rb_insert_balance RB_NULL x RB_NULL ps))"

section \<open>Walking\<close>

text \<open>The node of an element with the path to it.\<close>

fun rb_focus :: "'a \<Rightarrow> 'a rb_node \<Rightarrow> 'a rb_path \<Rightarrow> ('a rb_path \<times> rb_color \<times> 'a rb_node \<times> 'a rb_node) option" where
  "rb_focus e RB_NULL ps = None"
| "rb_focus e (RB_NODE c l a r) ps =
     (if a = e then Some (ps, c, l, r)
      else case rb_focus e l (Left_of c a r # ps) of
             Some z \<Rightarrow> Some z
           | None \<Rightarrow> rb_focus e r (Right_of c a l # ps))"

fun rb_min :: "'a rb_node \<Rightarrow> 'a option" where
  "rb_min RB_NULL = None"
| "rb_min (RB_NODE c l a r) = (if l = RB_NULL then Some a else rb_min l)"

fun rb_max :: "'a rb_node \<Rightarrow> 'a option" where
  "rb_max RB_NULL = None"
| "rb_max (RB_NODE c l a r) = (if r = RB_NULL then Some a else rb_max r)"

fun next_above :: "'a rb_path \<Rightarrow> 'a option" where
  "next_above [] = None"
| "next_above (Left_of c a r # ps) = Some a"
| "next_above (Right_of c a l # ps) = next_above ps"

fun prev_above :: "'a rb_path \<Rightarrow> 'a option" where
  "prev_above [] = None"
| "prev_above (Right_of c a l # ps) = Some a"
| "prev_above (Left_of c a r # ps) = prev_above ps"

definition RB_NEXT :: "'a \<Rightarrow> 'a rb_head \<Rightarrow> 'a option" where
  "RB_NEXT e h =
     (case rb_focus e (rb_root h) [] of
        None \<Rightarrow> None
      | Some (ps, c, l, r) \<Rightarrow> if r \<noteq> RB_NULL then rb_min r else next_above ps)"

definition RB_PREV :: "'a \<Rightarrow> 'a rb_head \<Rightarrow> 'a option" where
  "RB_PREV e h =
     (case rb_focus e (rb_root h) [] of
        None \<Rightarrow> None
      | Some (ps, c, l, r) \<Rightarrow> if l \<noteq> RB_NULL then rb_max l else prev_above ps)"

text \<open>The nodes in order, as \<open>RB_FOREACH\<close> visits them.\<close>

fun inorder :: "'a rb_node \<Rightarrow> 'a list" where
  "inorder RB_NULL = []"
| "inorder (RB_NODE c l a r) = inorder l @ a # inorder r"

definition rb_list :: "'a rb_head \<Rightarrow> 'a list" where
  "rb_list h = inorder (rb_root h)"

section \<open>Removal\<close>

text \<open>
  One round of the loop of \<open>RB_REMOVE\<close> at a black node \<open>x\<close> that is a left child, once its sibling
  \<open>w\<close> is black: the loop goes on with the parent (\<open>Inr\<close>), or ends (\<open>Inl\<close>).
\<close>

definition remove_left :: "'a rb_node \<Rightarrow> rb_color \<Rightarrow> 'a \<Rightarrow> 'a rb_node \<Rightarrow> ('a rb_node + 'a rb_node) option" where
  "remove_left x pc pa w =
     (case w of
        RB_NULL \<Rightarrow> None
      | RB_NODE wc wl wa wr \<Rightarrow>
          if \<not> is_red wl \<and> \<not> is_red wr then Some (Inr (RB_NODE pc x pa (RB_NODE RB_TREE_NODE_RED wl wa wr)))
          else if \<not> is_red wr then
            (case wl of
               RB_NULL \<Rightarrow> None
             | RB_NODE c ll la lr \<Rightarrow>
                 Some (Inl (RB_NODE pc (RB_NODE RB_TREE_NODE_BLACK x pa ll) la
                                    (RB_NODE RB_TREE_NODE_BLACK lr wa wr))))
          else Some (Inl (RB_NODE pc (RB_NODE RB_TREE_NODE_BLACK x pa wl) wa (set_black wr))))"

definition remove_right :: "'a rb_node \<Rightarrow> rb_color \<Rightarrow> 'a \<Rightarrow> 'a rb_node \<Rightarrow> ('a rb_node + 'a rb_node) option" where
  "remove_right x pc pa w =
     (case w of
        RB_NULL \<Rightarrow> None
      | RB_NODE wc wl wa wr \<Rightarrow>
          if \<not> is_red wr \<and> \<not> is_red wl then Some (Inr (RB_NODE pc (RB_NODE RB_TREE_NODE_RED wl wa wr) pa x))
          else if \<not> is_red wl then
            (case wr of
               RB_NULL \<Rightarrow> None
             | RB_NODE c rl ra rr \<Rightarrow>
                 Some (Inl (RB_NODE pc (RB_NODE RB_TREE_NODE_BLACK wl wa rl) ra
                                    (RB_NODE RB_TREE_NODE_BLACK rr pa x))))
          else Some (Inl (RB_NODE pc (set_black wl) wa (RB_NODE RB_TREE_NODE_BLACK wr pa x))))"

fun round_end :: "'a rb_node + 'a rb_node \<Rightarrow> 'a rb_node" where
  "round_end (Inl t) = t"
| "round_end (Inr y) = set_black y"

text \<open>
  A red sibling is rotated above the parent first, which is red then, so that the loop ends there if
  the round does not end it.
\<close>

fun rb_remove_balance :: "'a rb_node \<Rightarrow> 'a rb_path \<Rightarrow> 'a rb_node option" where
  "rb_remove_balance x [] = Some (set_black x)"
| "rb_remove_balance x (Left_of pc pa w # ps) =
     (if is_red x then Some (rb_up (Left_of pc pa w # ps) (set_black x))
      else case w of
        RB_NODE RB_TREE_NODE_RED wl wa wr \<Rightarrow>
          map_option (\<lambda>s. rb_up (Left_of RB_TREE_NODE_BLACK wa wr # ps) (round_end s))
            (remove_left x RB_TREE_NODE_RED pa wl)
      | _ \<Rightarrow>
          (case remove_left x pc pa w of
             None \<Rightarrow> None
           | Some (Inl t) \<Rightarrow> Some (rb_up ps t)
           | Some (Inr y) \<Rightarrow> rb_remove_balance y ps))"
| "rb_remove_balance x (Right_of pc pa w # ps) =
     (if is_red x then Some (rb_up (Right_of pc pa w # ps) (set_black x))
      else case w of
        RB_NODE RB_TREE_NODE_RED wl wa wr \<Rightarrow>
          map_option (\<lambda>s. rb_up (Right_of RB_TREE_NODE_BLACK wa wl # ps) (round_end s))
            (remove_right x RB_TREE_NODE_RED pa wr)
      | _ \<Rightarrow>
          (case remove_right x pc pa w of
             None \<Rightarrow> None
           | Some (Inl t) \<Rightarrow> Some (rb_up ps t)
           | Some (Inr y) \<Rightarrow> rb_remove_balance y ps))"

text \<open>The first node of a tree that is not empty: its colour, element and right child, and the way to it.\<close>

fun rb_leftmost :: "'a rb_node \<Rightarrow> 'a rb_path \<Rightarrow> ('a rb_path \<times> rb_color \<times> 'a \<times> 'a rb_node) option" where
  "rb_leftmost RB_NULL ps = None"
| "rb_leftmost (RB_NODE c l a r) ps =
     (if l = RB_NULL then Some (ps, c, a, r) else rb_leftmost l (Left_of c a r # ps))"

text \<open>
  What takes the place of the node: the path to the node \<open>x\<close> that moves up, and the colour that is
  lost with it. A node with two children is replaced by the next one, which takes its colour.
\<close>

definition rb_unlink :: "'a rb_path \<times> rb_color \<times> 'a rb_node \<times> 'a rb_node \<Rightarrow> 'a rb_node \<times> 'a rb_path \<times> rb_color" where
  "rb_unlink z =
     (case z of (ps, c, l, r) \<Rightarrow>
        if l = RB_NULL then (r, ps, c)
        else case rb_leftmost r [] of
               None \<Rightarrow> (l, ps, c)
             | Some (qs, yc, ya, yr) \<Rightarrow> (yr, qs @ Right_of c ya l # ps, yc))"

definition RB_REMOVE :: "'a \<Rightarrow> 'a rb_head \<Rightarrow> 'a rb_head option" where
  "RB_REMOVE e h =
     do { z \<leftarrow> rb_focus e (rb_root h) [];
          (case rb_unlink z of (x, ps, c) \<Rightarrow>
             map_option (\<lambda>t.
                 \<lparr>rb_first = (if rb_first h = Some e then RB_NEXT e h else rb_first h),
                  rb_last = (if rb_last h = Some e then RB_PREV e h else rb_last h),
                  rb_root = t\<rparr>)
               (if c = RB_TREE_NODE_RED then Some (rb_up ps x) else rb_remove_balance x ps)) }"

end
