(* ===== verification/Prop_Nodefilter.thy ===== *)
theory Prop_Nodefilter
  imports Prop_Tags Prop_Destroy Prop_Trampoline Redblack Str_Match Str_Misc
begin

text \<open>
  Filtered and sorted lists (\<open>src/prop/prop_nodefilter.c\<close>): of the children of a source directory,
  those that contain the filter text and pass all predicates, in the order of up to four sort keys
  or else in that of the source, as the children of a destination. One record holds what
  \<open>prop_nf_t\<close>, its nodes and its predicates hold, with the tags and the property system they work
  on. A node is known by a number; \<open>nf_addr\<close> is its address, by which nodes of equal keys are
  ordered. \<open>None\<close> is an \<open>abort()\<close>, a failed assertion, a null or a stale pointer, signed overflow,
  or a walk over links and children that does not end.
\<close>

section \<open>State\<close>

datatype sortkey =
    SORTKEY_NONE
  | SORTKEY_RSTR "string option"
  | SORTKEY_INT i32
  | SORTKEY_FLOAT f32
  | SORTKEY_CSTR string
  | SORTKEY_VOID

fun sortkey_type :: "sortkey \<Rightarrow> int" where
  "sortkey_type SORTKEY_NONE = 0"
| "sortkey_type (SORTKEY_RSTR s) = 1"
| "sortkey_type (SORTKEY_INT i) = 2"
| "sortkey_type (SORTKEY_FLOAT f) = 3"
| "sortkey_type (SORTKEY_CSTR s) = 4"
| "sortkey_type SORTKEY_VOID = 5"

datatype prop_nf_cmp = PROP_NF_CMP_EQ | PROP_NF_CMP_NEQ

datatype prop_nf_mode = PROP_NF_MODE_INCLUDE | PROP_NF_MODE_EXCLUDE

text \<open>The strings a key is looked up in, with their values, and the value of any other one.\<close>

type_synonym sortmap = "(string \<times> i32) list \<times> i32"

record nfn_pred =
  nfnp_sub :: "sid option"
  nfnp_conf :: nat
  nfnp_set :: bool

record nfnode =
  nfn_in :: pid
  nfn_out :: "pid option"
  nfn_multisub :: "sid option"
  nfn_preds :: "nfn_pred list"
  nfn_inserted :: bool
  nfn_sk :: "sortkey list"
  nfn_sortsub :: "sid option list"

record prop_nf_pred =
  pnp_path :: "string list"
  pnp_cf :: prop_nf_cmp
  pnp_mode :: prop_nf_mode
  pnp_enable_sub :: "sid option"
  pnp_id :: nat
  pnp_enabled :: bool
  pnp_str :: "string option"
  pnp_int :: int

record prop_nf =
  pnf_refcount :: int
  nf_autodestroy :: bool
  nf_pred_tally :: nat
  nf_nodecount :: int
  nf_sorted :: bool
  nf_src :: pid
  nf_dst :: pid
  nf_srcsub :: "sid option"
  nf_dstsub :: "sid option"
  nf_filtersub :: "sid option"
  nf_in :: "nat list"
  nf_out_queue :: "nat list"
  nf_out_tree :: "nat rb_head"
  nf_filter :: "string option"
  nf_sortkey :: "string option list"
  nf_sortmap :: "sortmap option list"
  nf_preds :: "prop_nf_pred list"
  nf_pending_have_more :: "bool option"
  nf_sortorder :: "int list"
  nf_sort_hide_on_missing :: "bool list"
  nf_nodes :: "nat \<Rightarrow> nfnode option"
  nf_fresh :: nat
  nf_addr :: "nat \<Rightarrow> nat"
  nf_key :: nat
  nf_casefold :: casefold
  nf_ignore_the :: bool
  nf_tags :: prop_tags
  nf_props :: pst

definition MAX_SORT_KEYS :: nat where
  "MAX_SORT_KEYS = 4"

definition upd_nfn :: "nat \<Rightarrow> (nfnode \<Rightarrow> nfnode) \<Rightarrow> prop_nf \<Rightarrow> prop_nf" where
  "upd_nfn n f w = w\<lparr>nf_nodes := (nf_nodes w)(n := map_option f (nf_nodes w n))\<rparr>"

definition nf_run :: "(pst \<Rightarrow> pst option) \<Rightarrow> prop_nf \<Rightarrow> prop_nf option" where
  "nf_run f w = map_option (\<lambda>st. w\<lparr>nf_props := st\<rparr>) (f (nf_props w))"

text \<open>
  A subscription of the filter. The calls made while it is made are handled right after.
\<close>

definition nf_subscribe ::
  "sflag set \<Rightarrow> prop_tag list \<Rightarrow> (prop_notify_t \<Rightarrow> prop_nf \<Rightarrow> prop_nf option) \<Rightarrow> prop_nf \<Rightarrow> (sid option \<times> prop_nf) option" where
  "nf_subscribe flags tags cb w =
     do { (so, st) \<leftarrow> prop_subscribe (flags \<union> {PROP_SUB_INTERNAL, PROP_SUB_DONTLOCK}) tags (nf_props w);
          w1 \<leftarrow> ofold cb (filter (\<lambda>n. hpn_sub n = snext (nf_props w)) (drop (length (calls (nf_props w))) (calls st)))
                 (w\<lparr>nf_props := st\<rparr>);
          Some (so, w1) }"

definition opt_unsubscribe :: "sid option \<Rightarrow> prop_nf \<Rightarrow> prop_nf option" where
  "opt_unsubscribe so w = (case so of None \<Rightarrow> Some w | Some s \<Rightarrow> nf_run (prop_unsubscribe0 s) w)"

definition the_pred :: "nat \<Rightarrow> prop_nf \<Rightarrow> prop_nf_pred option" where
  "the_pred c w = find (\<lambda>p. pnp_id p = c) (nf_preds w)"

section \<open>What is shown\<close>

text \<open>Whether a predicate keeps the node out.\<close>

definition pred_rejects :: "prop_nf \<Rightarrow> nfn_pred \<Rightarrow> bool option" where
  "pred_rejects w p =
     (if \<not> nfnp_set p then Some False
      else do { pnp \<leftarrow> the_pred (nfnp_conf p) w;
                Some (if pnp_mode pnp = PROP_NF_MODE_INCLUDE then \<not> pnp_enabled pnp else pnp_enabled pnp) })"

fun eval_preds :: "prop_nf \<Rightarrow> nfn_pred list \<Rightarrow> bool option" where
  "eval_preds w [] = Some False"
| "eval_preds w (p # ps) = (case pred_rejects w p of None \<Rightarrow> None | Some True \<Rightarrow> Some True | Some False \<Rightarrow> eval_preds w ps)"

definition filterstr :: "casefold \<Rightarrow> string option \<Rightarrow> string \<Rightarrow> bool option" where
  "filterstr cf so q = map_option (\<lambda>s. mystrstr cf s q \<noteq> None) so"

fun any_child :: "('a \<Rightarrow> bool option) \<Rightarrow> 'a list \<Rightarrow> bool option" where
  "any_child f [] = Some False"
| "any_child f (c # cs) = (case f c of None \<Rightarrow> None | Some True \<Rightarrow> Some True | Some False \<Rightarrow> any_child f cs)"

lemma any_child_cong [fundef_cong]:
  "xs = ys \<Longrightarrow> (\<And>x. x \<in> set ys \<Longrightarrow> f x = g x) \<Longrightarrow> any_child f xs = any_child g ys"
  by (induction xs arbitrary: ys) (auto split: option.splits bool.splits)

fun nf_filtercheck :: "nat \<Rightarrow> casefold \<Rightarrow> string \<Rightarrow> pst \<Rightarrow> pid \<Rightarrow> bool option" where
  "nf_filtercheck 0 cf q st p = None"
| "nf_filtercheck (Suc k) cf q st p =
     (case follow_originator (Suc (pnext st)) st p of
        None \<Rightarrow> None
      | Some r \<Rightarrow>
          (case type_of st r of
             PROP_RSTRING s t \<Rightarrow> filterstr cf (Some s) q
           | PROP_CSTRING s \<Rightarrow> filterstr cf (Some s) q
           | PROP_URI title u \<Rightarrow> filterstr cf title q
           | PROP_DIR cs sel \<Rightarrow> any_child (nf_filtercheck k cf q st) cs
           | _ \<Rightarrow> Some False))"

section \<open>Order\<close>

definition int_ok :: "int \<Rightarrow> int option" where
  "int_ok i = (if - (2 ^ 31) \<le> i \<and> i < 2 ^ 31 then Some i else None)"

text \<open>Two keys of the same type.\<close>

definition key_cmp :: "casefold \<Rightarrow> bool \<Rightarrow> sortkey \<Rightarrow> sortkey \<Rightarrow> int option" where
  "key_cmp cf ign a b =
     (case (a, b) of
        (SORTKEY_RSTR (Some s), SORTKEY_RSTR (Some t)) \<Rightarrow> dictcmp cf ign s t
      | (SORTKEY_RSTR _, SORTKEY_RSTR _) \<Rightarrow> None
      | (SORTKEY_CSTR s, SORTKEY_CSTR t) \<Rightarrow> dictcmp cf ign s t
      | (SORTKEY_INT i, SORTKEY_INT j) \<Rightarrow> int_ok (sint i - sint j)
      | (SORTKEY_FLOAT f, SORTKEY_FLOAT g) \<Rightarrow> Some (if f32_lt f g then -1 else if f32_lt g f then 1 else 0)
      | _ \<Rightarrow> Some 0)"

fun keys_cmp :: "prop_nf \<Rightarrow> sortkey list \<Rightarrow> sortkey list \<Rightarrow> nat list \<Rightarrow> int option" where
  "keys_cmp w a b [] = Some 0"
| "keys_cmp w a b (i # is) =
     (if nf_sortkey w ! i = None then keys_cmp w a b is
      else if sortkey_type (a ! i) \<noteq> sortkey_type (b ! i) then Some (sortkey_type (a ! i) - sortkey_type (b ! i))
      else case key_cmp (nf_casefold w) (nf_ignore_the w) (a ! i) (b ! i) of
             None \<Rightarrow> None
           | Some r \<Rightarrow> if r \<noteq> 0 then int_ok (r * nf_sortorder w ! i) else keys_cmp w a b is)"

definition nf_egress_cmp :: "prop_nf \<Rightarrow> nat \<Rightarrow> nat \<Rightarrow> int option" where
  "nf_egress_cmp w n m =
     do { a \<leftarrow> nf_nodes w n; b \<leftarrow> nf_nodes w m;
          r \<leftarrow> keys_cmp w (nfn_sk a) (nfn_sk b) [0..<MAX_SORT_KEYS];
          Some (if r \<noteq> 0 then r else if nf_addr w n < nf_addr w m then -1 else 1) }"

text \<open>The inserted nodes in order, and the elements of a list behind one.\<close>

definition nf_out_list :: "prop_nf \<Rightarrow> nat list" where
  "nf_out_list w = (if nf_sorted w then rb_list (nf_out_tree w) else nf_out_queue w)"

definition behind :: "'a \<Rightarrow> 'a list \<Rightarrow> 'a list" where
  "behind x xs = tl (dropWhile (\<lambda>y. y \<noteq> x) xs)"

definition node_out :: "prop_nf \<Rightarrow> nat \<Rightarrow> pid option" where
  "node_out w n = Option.bind (nf_nodes w n) nfn_out"

definition is_inserted :: "prop_nf \<Rightarrow> nat \<Rightarrow> bool" where
  "is_inserted w n \<longleftrightarrow> (case nf_nodes w n of None \<Rightarrow> False | Some nd \<Rightarrow> nfn_inserted nd)"

text \<open>The output of the next inserted node that has one.\<close>

definition next_out :: "nat \<Rightarrow> prop_nf \<Rightarrow> pid option" where
  "next_out n w = Option.bind (find (\<lambda>m. node_out w m \<noteq> None) (behind n (nf_out_list w))) (node_out w)"

definition nf_take_out :: "nat \<Rightarrow> prop_nf \<Rightarrow> prop_nf option" where
  "nf_take_out n w =
     (if nf_sorted w then map_option (\<lambda>h. w\<lparr>nf_out_tree := h\<rparr>) (RB_REMOVE n (nf_out_tree w))
      else if n \<in> set (nf_out_queue w) then Some (w\<lparr>nf_out_queue := remove1 n (nf_out_queue w)\<rparr>)
      else None)"

definition nf_put_in :: "nat \<Rightarrow> prop_nf \<Rightarrow> prop_nf option" where
  "nf_put_in n w =
     (if nf_sorted w then
        (case RB_INSERT_SORTED (nf_egress_cmp w) n (nf_out_tree w) of
           Some (None, h) \<Rightarrow> Some (w\<lparr>nf_out_tree := h\<rparr>)
         | _ \<Rightarrow> None)
      else case find (is_inserted w) (behind n (nf_in w)) of
             Some b \<Rightarrow> Some (w\<lparr>nf_out_queue := insert_before b n (nf_out_queue w)\<rparr>)
           | None \<Rightarrow> Some (w\<lparr>nf_out_queue := nf_out_queue w @ [n]\<rparr>))"

definition nf_insert_node :: "nat \<Rightarrow> prop_nf \<Rightarrow> prop_nf option" where
  "nf_insert_node n w =
     do { nd \<leftarrow> nf_nodes w n;
          w1 \<leftarrow> (if nfn_inserted nd then nf_take_out n w else Some w);
          w2 \<leftarrow> nf_put_in n (upd_nfn n (\<lambda>x. x\<lparr>nfn_inserted := True\<rparr>) w1);
          (case nfn_out nd of
             None \<Rightarrow> Some w2
           | Some x \<Rightarrow> nf_run (prop_move0 x (next_out n w2) (nf_dstsub w2)) w2) }"

section \<open>Showing and hiding\<close>

definition nf_enabled :: "nfnode \<Rightarrow> prop_nf \<Rightarrow> bool option" where
  "nf_enabled nd w =
     do { let en = (\<forall>i \<in> set [0..<MAX_SORT_KEYS]. \<not> (nf_sortkey w ! i \<noteq> None \<and> nfn_sk nd ! i = SORTKEY_NONE
                       \<and> nf_sort_hide_on_missing w ! i))
          in do {
            en1 \<leftarrow> (case nf_filter w of
                       Some q \<Rightarrow> if en then nf_filtercheck (Suc (pnext (nf_props w))) (nf_casefold w) q (nf_props w) (nfn_in nd)
                                 else Some False
                     | None \<Rightarrow> Some en);
            rej \<leftarrow> eval_preds w (nfn_preds nd);
            Some (en1 \<and> \<not> rej) } }"

definition nf_update_egress :: "nat \<Rightarrow> prop_nf \<Rightarrow> prop_nf option" where
  "nf_update_egress n w =
     do { nd \<leftarrow> nf_nodes w n;
          en \<leftarrow> nf_enabled nd w;
          if en \<noteq> (nfn_out nd = None) then Some w
          else if en then
            (case prop_make (hp_name (props (nf_props w) (nfn_in nd))) True None (nf_props w) of
               (x, st1) \<Rightarrow>
                 do { st2 \<leftarrow> prop_link0 (nfn_in nd) x None PROP_LINK_NORMAL st1;
                      let w1 = upd_nfn n (\<lambda>y. y\<lparr>nfn_out := Some x\<rparr>) (w\<lparr>nf_props := st2\<rparr>)
                      in nf_run (\<lambda>st. map_option snd (prop_set_parent0 x (nf_dst w) (next_out n w1) (nf_dstsub w) st)) w1 })
          else do { x \<leftarrow> nfn_out nd;
                    w1 \<leftarrow> nf_run (\<lambda>st. map_option snd (destroy_now x st)) w;
                    Some (upd_nfn n (\<lambda>y. y\<lparr>nfn_out := None\<rparr>) w1) } }"

definition nf_multi_filter :: "nat \<Rightarrow> prop_notify_t \<Rightarrow> prop_nf \<Rightarrow> prop_nf option" where
  "nf_multi_filter n _ w = nf_update_egress n w"

definition nf_update_multisub :: "nat \<Rightarrow> prop_nf \<Rightarrow> prop_nf option" where
  "nf_update_multisub n w =
     do { nd \<leftarrow> nf_nodes w n;
          if (nf_filter w = None) = (nfn_multisub nd = None) then Some w
          else if nf_filter w \<noteq> None then
            do { (so, w1) \<leftarrow> nf_subscribe {PROP_SUB_MULTI} [TAG_CALLBACK 3 n, TAG_ROOT (Some (nfn_in nd))] (nf_multi_filter n) w;
                 Some (upd_nfn n (\<lambda>y. y\<lparr>nfn_multisub := so\<rparr>) w1) }
          else do { w1 \<leftarrow> opt_unsubscribe (nfn_multisub nd) w;
                    Some (upd_nfn n (\<lambda>y. y\<lparr>nfn_multisub := None\<rparr>) w1) } }"

section \<open>Predicates\<close>

definition set_pred :: "nat \<Rightarrow> nat \<Rightarrow> bool \<Rightarrow> prop_nf \<Rightarrow> prop_nf option" where
  "set_pred n c s w =
     do { nd \<leftarrow> nf_nodes w n;
          p \<leftarrow> find (\<lambda>p. nfnp_conf p = c) (nfn_preds nd);
          if nfnp_set p = s then Some w
          else nf_update_egress n
                 (upd_nfn n (\<lambda>y. y\<lparr>nfn_preds := map (\<lambda>p. if nfnp_conf p = c then p\<lparr>nfnp_set := s\<rparr> else p) (nfn_preds y)\<rparr>) w) }"

definition nfnp_update_str :: "nat \<Rightarrow> nat \<Rightarrow> string option \<Rightarrow> prop_nf \<Rightarrow> prop_nf option" where
  "nfnp_update_str n c str w =
     do { pnp \<leftarrow> the_pred c w;
          t \<leftarrow> pnp_str pnp;
          set_pred n c (let s = (case str of None \<Rightarrow> [] | Some s \<Rightarrow> s)
                        in case pnp_cf pnp of PROP_NF_CMP_EQ \<Rightarrow> s = t | PROP_NF_CMP_NEQ \<Rightarrow> s \<noteq> t) w }"

definition nfnp_update_int :: "nat \<Rightarrow> nat \<Rightarrow> int \<Rightarrow> prop_nf \<Rightarrow> prop_nf option" where
  "nfnp_update_int n c v w =
     do { pnp \<leftarrow> the_pred c w;
          set_pred n c (case pnp_cf pnp of PROP_NF_CMP_EQ \<Rightarrow> v = pnp_int pnp | PROP_NF_CMP_NEQ \<Rightarrow> v \<noteq> pnp_int pnp) w }"

definition nfn_pred_cb :: "nat \<Rightarrow> nat \<Rightarrow> bool \<Rightarrow> prop_notify_t \<Rightarrow> prop_nf \<Rightarrow> prop_nf option" where
  "nfn_pred_cb n c is_str e w =
     (if is_str then (case trampoline_string False e of None \<Rightarrow> Some w | Some s \<Rightarrow> nfnp_update_str n c s w)
      else do { v \<leftarrow> trampoline_int False e; (case v of None \<Rightarrow> Some w | Some i \<Rightarrow> nfnp_update_int n c i w) })"

definition nfn_insert_pred :: "prop_nf_pred \<Rightarrow> nat \<Rightarrow> prop_nf \<Rightarrow> prop_nf option" where
  "nfn_insert_pred pnp n w =
     do { nd \<leftarrow> nf_nodes w n;
          let c = pnp_id pnp;
              w1 = upd_nfn n (\<lambda>y. y\<lparr>nfn_preds := \<lparr>nfnp_sub = None, nfnp_conf = c, nfnp_set = False\<rparr> # nfn_preds y\<rparr>) w
          in do {
            (so, w2) \<leftarrow> nf_subscribe {} [TAG_CALLBACK 4 n, TAG_NAMED_ROOT (Some (nfn_in nd)) (Some ''node''),
                                         TAG_NAME_VECTOR (pnp_path pnp)] (nfn_pred_cb n c (pnp_str pnp \<noteq> None)) w1;
            Some (upd_nfn n (\<lambda>y. y\<lparr>nfn_preds :=
                    map (\<lambda>p. if nfnp_conf p = c then p\<lparr>nfnp_sub := so\<rparr> else p) (nfn_preds y)\<rparr>) w2) } }"

definition nfn_insert_preds :: "nat \<Rightarrow> prop_nf \<Rightarrow> prop_nf option" where
  "nfn_insert_preds n w = ofold (\<lambda>pnp. nfn_insert_pred pnp n) (nf_preds w) w"

definition nfnp_destroy :: "nat \<Rightarrow> nfn_pred \<Rightarrow> prop_nf \<Rightarrow> prop_nf option" where
  "nfnp_destroy n p w =
     do { s \<leftarrow> nfnp_sub p;
          nf_run (prop_unsubscribe0 s) (upd_nfn n (\<lambda>y. y\<lparr>nfn_preds := remove1 p (nfn_preds y)\<rparr>) w) }"

section \<open>Sort keys\<close>

definition map_key :: "sortmap \<Rightarrow> string option \<Rightarrow> i32 option" where
  "map_key m so =
     (case (fst m, so) of
        ([], _) \<Rightarrow> Some (snd m)
      | (_, None) \<Rightarrow> None
      | (kvs, Some s) \<Rightarrow> Some (case map_of kvs s of Some v \<Rightarrow> v | None \<Rightarrow> snd m))"

definition str_key :: "sortmap option \<Rightarrow> string option \<Rightarrow> sortkey option" where
  "str_key mo so = (case mo of None \<Rightarrow> Some (SORTKEY_RSTR so) | Some m \<Rightarrow> map_option SORTKEY_INT (map_key m so))"

definition new_key :: "sortmap option \<Rightarrow> prop_notify_t \<Rightarrow> sortkey option" where
  "new_key mo e =
     (case (hpn_event e, hpn_val e) of
        (EV_SET_RSTRING, NV_rstring s t) \<Rightarrow> str_key mo (Some s)
      | (EV_SET_URI, NV_uri title u) \<Rightarrow> str_key mo title
      | (EV_SET_INT, NV_int i) \<Rightarrow> Some (SORTKEY_INT i)
      | (EV_SET_FLOAT, NV_float f) \<Rightarrow> Some (SORTKEY_FLOAT f)
      | _ \<Rightarrow> Some SORTKEY_VOID)"

definition set_sk :: "nat \<Rightarrow> nat \<Rightarrow> sortkey \<Rightarrow> prop_nf \<Rightarrow> prop_nf" where
  "set_sk n x k w = upd_nfn n (\<lambda>y. y\<lparr>nfn_sk := (nfn_sk y)[x := k]\<rparr>) w"

definition nf_set_sortkey_x :: "nat \<Rightarrow> nat \<Rightarrow> prop_notify_t \<Rightarrow> prop_nf \<Rightarrow> prop_nf option" where
  "nf_set_sortkey_x x n e w =
     do { nd \<leftarrow> nf_nodes w n;
          k \<leftarrow> new_key (nf_sortmap w ! x) e;
          w1 \<leftarrow> nf_insert_node n (set_sk n x k w);
          nf_update_egress n w1 }"

definition nf_update_order_x :: "nat \<Rightarrow> nat \<Rightarrow> prop_nf \<Rightarrow> prop_nf option" where
  "nf_update_order_x n x w =
     do { nd \<leftarrow> nf_nodes w n;
          w1 \<leftarrow> opt_unsubscribe (nfn_sortsub nd ! x) w;
          let w2 = upd_nfn n (\<lambda>y. y\<lparr>nfn_sortsub := (nfn_sortsub y)[x := None]\<rparr>) w1
          in case nf_sortkey w ! x of
               None \<Rightarrow> nf_insert_node n (set_sk n x SORTKEY_NONE w2)
             | Some path \<Rightarrow>
                 do { (so, w3) \<leftarrow> nf_subscribe {PROP_SUB_DIRECT_UPDATE}
                        [TAG_CALLBACK (5 + x) n, TAG_NAMED_ROOT (Some (nfn_in nd)) (Some ''node''), TAG_NAMESTR (Some path)]
                        (nf_set_sortkey_x x n) w2;
                      Some (upd_nfn n (\<lambda>y. y\<lparr>nfn_sortsub := (nfn_sortsub y)[x := so]\<rparr>) w3) } }"

definition nf_update_order_all :: "nat \<Rightarrow> prop_nf \<Rightarrow> prop_nf option" where
  "nf_update_order_all n w = ofold (nf_update_order_x n) [0..<MAX_SORT_KEYS] w"

section \<open>Nodes\<close>

definition put_before :: "nat option \<Rightarrow> nat \<Rightarrow> nat list \<Rightarrow> nat list" where
  "put_before b n ns = (case b of Some m \<Rightarrow> insert_before m n ns | None \<Rightarrow> ns @ [n])"

text \<open>A new node before the node \<open>b\<close> or at the end.\<close>

definition nf_new_node :: "nat option \<Rightarrow> pid \<Rightarrow> prop_nf \<Rightarrow> prop_nf option" where
  "nf_new_node b p w =
     (let n = nf_fresh w;
          w1 = w\<lparr>nf_fresh := Suc n, nf_tags := prop_tag_set p (nf_key w) n (nf_tags w),
                 nf_nodes := (nf_nodes w)(n \<mapsto> \<lparr>nfn_in = p, nfn_out = None, nfn_multisub = None, nfn_preds = [],
                   nfn_inserted = False, nfn_sk = replicate MAX_SORT_KEYS SORTKEY_NONE,
                   nfn_sortsub = replicate MAX_SORT_KEYS None\<rparr>),
                 nf_in := put_before b n (nf_in w)\<rparr>
      in do { w2 \<leftarrow> nf_update_multisub n w1;
              w3 \<leftarrow> nfn_insert_preds n w2;
              w4 \<leftarrow> nf_update_order_all n w3;
              nf_update_egress n w4 })"

definition nf_add_node :: "pid \<Rightarrow> nat option \<Rightarrow> prop_nf \<Rightarrow> prop_nf option" where
  "nf_add_node p b w = nf_new_node b p (w\<lparr>nf_nodecount := nf_nodecount w + 1\<rparr>)"

definition nf_add_nodes :: "pid list \<Rightarrow> nat option \<Rightarrow> prop_nf \<Rightarrow> prop_nf option" where
  "nf_add_nodes ps b w = ofold (nf_new_node b) ps (w\<lparr>nf_nodecount := nf_nodecount w + int (length ps)\<rparr>)"

definition nf_del_node :: "nat \<Rightarrow> prop_nf \<Rightarrow> prop_nf option" where
  "nf_del_node n w =
     do { nd \<leftarrow> nf_nodes w n;
          w1 \<leftarrow> nf_take_out n (w\<lparr>nf_nodecount := nf_nodecount w - 1, nf_in := remove1 n (nf_in w)\<rparr>);
          w2 \<leftarrow> (case nfn_out nd of None \<Rightarrow> Some w1
                  | Some x \<Rightarrow> nf_run (\<lambda>st. map_option snd (destroy_now x st)) w1);
          w3 \<leftarrow> opt_unsubscribe (nfn_multisub nd) w2;
          w4 \<leftarrow> ofold opt_unsubscribe (nfn_sortsub nd) w3;
          w5 \<leftarrow> ofold (nfnp_destroy n) (nfn_preds nd) w4;
          Some (w5\<lparr>nf_nodes := (nf_nodes w5)(n := None)\<rparr>) }"

definition nf_move_node :: "nat \<Rightarrow> nat option \<Rightarrow> prop_nf \<Rightarrow> prop_nf option" where
  "nf_move_node n b w = nf_insert_node n (w\<lparr>nf_in := put_before b n (remove1 n (nf_in w))\<rparr>)"

definition nf_find_node :: "prop_nf \<Rightarrow> pid option \<Rightarrow> nat option option" where
  "nf_find_node w po =
     (case po of None \<Rightarrow> Some None
      | Some p \<Rightarrow> map_option Some (prop_tag_get p (nf_key w) (nf_tags w)))"

definition nf_untag :: "pid \<Rightarrow> prop_nf \<Rightarrow> (nat \<times> prop_nf) option" where
  "nf_untag p w =
     (case prop_tag_clear p (nf_key w) (nf_tags w) of
        (None, _) \<Rightarrow> None
      | (Some n, tg) \<Rightarrow> Some (n, w\<lparr>nf_tags := tg\<rparr>))"

definition nf_destroy_pred :: "prop_nf_pred \<Rightarrow> prop_nf \<Rightarrow> prop_nf option" where
  "nf_destroy_pred pnp w =
     opt_unsubscribe (pnp_enable_sub pnp) (w\<lparr>nf_preds := filter (\<lambda>p. pnp_id p \<noteq> pnp_id pnp) (nf_preds w)\<rparr>)"

definition nf_destroy_preds :: "prop_nf \<Rightarrow> prop_nf option" where
  "nf_destroy_preds w = ofold nf_destroy_pred (nf_preds w) w"

definition nf_clear :: "prop_nf \<Rightarrow> prop_nf option" where
  "nf_clear w =
     ofold (\<lambda>n w. do { nd \<leftarrow> nf_nodes w n;
                       nf_del_node n (w\<lparr>nf_tags := snd (prop_tag_clear (nfn_in nd) (nf_key w) (nf_tags w))\<rparr>) }) (nf_in w) w"

definition prop_nf_release0 :: "prop_nf \<Rightarrow> prop_nf option" where
  "prop_nf_release0 w =
     (let w0 = w\<lparr>pnf_refcount := pnf_refcount w - 1\<rparr>
      in if 0 < pnf_refcount w0 then Some w0
         else do {
           w1 \<leftarrow> opt_unsubscribe (nf_srcsub w0) w0;
           w2 \<leftarrow> (if nf_autodestroy w then Some w1 else nf_clear w1);
           s \<leftarrow> nf_dstsub w2;
           w3 \<leftarrow> nf_run (\<lambda>st. do { st1 \<leftarrow> prop_unsubscribe0 s st; map_option snd (destroy_now (nf_dst w2) st1) }) w2;
           if nf_in w3 \<noteq> [] \<or> nf_out_list w3 \<noteq> [] then None
           else do { w4 \<leftarrow> opt_unsubscribe (nf_filtersub w3) w3;
                     nf_destroy_preds w4 } })"

definition nf_suggest_focus :: "nat \<Rightarrow> prop_nf \<Rightarrow> prop_nf option" where
  "nf_suggest_focus n w =
     do { nd \<leftarrow> nf_nodes w n;
          (case nfn_out nd of None \<Rightarrow> Some w | Some x \<Rightarrow> nf_run (prop_suggest_focus0 x) w) }"

section \<open>Events of the source and the destination\<close>

definition nf_have_more :: "bool \<Rightarrow> prop_nf \<Rightarrow> prop_nf" where
  "nf_have_more yes w = w\<lparr>nf_props := prop_have_more_childs0 (nf_dst w) yes (nf_props w)\<rparr>"

definition prop_nf_src_cb :: "prop_notify_t \<Rightarrow> prop_nf \<Rightarrow> prop_nf option" where
  "prop_nf_src_cb e w =
     (case (hpn_event e, hpn_val e) of
        (EV_ADD_CHILD, NV_prop (Some p)) \<Rightarrow> nf_add_node p None w
      | (EV_ADD_CHILD_BEFORE, NV_prop (Some p)) \<Rightarrow>
          do { b \<leftarrow> nf_find_node w (hpn_prop_extra e); nf_add_node p b w }
      | (EV_ADD_CHILD_VECTOR, NV_propv _ ps) \<Rightarrow> nf_add_nodes ps None w
      | (EV_ADD_CHILD_VECTOR_DIRECT, NV_propv _ ps) \<Rightarrow> nf_add_nodes ps None w
      | (EV_ADD_CHILD_VECTOR_BEFORE, NV_propv _ ps) \<Rightarrow>
          do { b \<leftarrow> nf_find_node w (hpn_prop_extra e); nf_add_nodes ps b w }
      | (EV_DEL_CHILD, NV_prop (Some p)) \<Rightarrow> do { (n, w1) \<leftarrow> nf_untag p w; nf_del_node n w1 }
      | (EV_MOVE_CHILD, NV_prop (Some p)) \<Rightarrow>
          do { no \<leftarrow> nf_find_node w (Some p); n \<leftarrow> no; b \<leftarrow> nf_find_node w (hpn_prop_extra e); nf_move_node n b w }
      | (EV_SET_DIR, _) \<Rightarrow> Some w
      | (EV_SET_VOID, _) \<Rightarrow> nf_clear w
      | (EV_REQ_DELETE_VECTOR, _) \<Rightarrow> Some w
      | (EV_REQ_DELETE, _) \<Rightarrow> Some w
      | (EV_DESTROYED, _) \<Rightarrow>
          do { w1 \<leftarrow> opt_unsubscribe (nf_srcsub w) w; prop_nf_release0 (w1\<lparr>nf_srcsub := None\<rparr>) }
      | (EV_HAVE_MORE_CHILDS_YES, _) \<Rightarrow>
          Some (if nf_filter w = None then nf_have_more True w else w\<lparr>nf_pending_have_more := Some True\<rparr>)
      | (EV_HAVE_MORE_CHILDS_NO, _) \<Rightarrow>
          Some (if nf_filter w = None then nf_have_more False w else w\<lparr>nf_pending_have_more := Some False\<rparr>)
      | (EV_WANT_MORE_CHILDS, _) \<Rightarrow> Some w
      | (EV_REQ_MOVE_CHILD, _) \<Rightarrow> Some w
      | (EV_SELECT_CHILD, _) \<Rightarrow> Some w
      | (EV_SUGGEST_FOCUS, NV_prop (Some p)) \<Rightarrow>
          do { no \<leftarrow> nf_find_node w (Some p); n \<leftarrow> no; nf_suggest_focus n w }
      | _ \<Rightarrow> None)"

fun opt_map :: "('a \<Rightarrow> 'b option) \<Rightarrow> 'a list \<Rightarrow> 'b list option" where
  "opt_map f [] = Some []"
| "opt_map f (x # xs) = do { y \<leftarrow> f x; ys \<leftarrow> opt_map f xs; Some (y # ys) }"

definition nf_translate_del_multi :: "pid list \<Rightarrow> prop_nf \<Rightarrow> prop_nf option" where
  "nf_translate_del_multi ps w =
     do { qs \<leftarrow> opt_map (follow_originator (Suc (pnext (nf_props w))) (nf_props w)) ps;
          nf_run (\<lambda>st. case prop_vec_create st of
              (pv0, st1) \<Rightarrow> do { (pv, st2) \<leftarrow> prop_vec_appends pv0 qs st1;
                                prop_vec_release pv (prop_notify_childv pv (nf_src w) EV_REQ_DELETE_VECTOR (nf_srcsub w) None st2) }) w }"

definition nf_translate_req_move_child :: "pid \<Rightarrow> pid option \<Rightarrow> prop_nf \<Rightarrow> prop_nf option" where
  "nf_translate_req_move_child p b w =
     (if (\<exists>i \<in> set [0..<MAX_SORT_KEYS]. nf_sortkey w ! i \<noteq> None) then Some w
      else if nf_filter w \<noteq> None then Some w
      else if \<exists>pnp \<in> set (nf_preds w). pnp_enabled pnp then Some w
      else let orig = (\<lambda>q. hp_originator (props (nf_props w) q))
           in nf_run (prop_notify_child2 (orig p) (nf_src w) (Option.bind b orig) EV_REQ_MOVE_CHILD (nf_srcsub w)) w)"

definition prop_nf_dst_cb :: "prop_notify_t \<Rightarrow> prop_nf \<Rightarrow> prop_nf option" where
  "prop_nf_dst_cb e w =
     (case (hpn_event e, hpn_val e) of
        (EV_REQ_DELETE_VECTOR, NV_propv _ ps) \<Rightarrow> nf_translate_del_multi ps w
      | (EV_DESTROYED, _) \<Rightarrow> None
      | (EV_REQ_MOVE_CHILD, NV_prop (Some p)) \<Rightarrow> nf_translate_req_move_child p (hpn_prop_extra e) w
      | (EV_WANT_MORE_CHILDS, _) \<Rightarrow>
          (case nf_srcsub w of None \<Rightarrow> Some w | Some s \<Rightarrow> nf_run (prop_want_more_childs0 s) w)
      | _ \<Rightarrow> Some w)"

section \<open>The filter text, predicates and the order of the list\<close>

definition nf_set_filter :: "string option \<Rightarrow> prop_nf \<Rightarrow> prop_nf option" where
  "nf_set_filter str w =
     (let w1 = w\<lparr>nf_filter := (if str = Some [] then None else str)\<rparr>;
          w2 = (case nf_pending_have_more w1 of
                  Some yes \<Rightarrow> if nf_filter w1 = None then (nf_have_more yes w1)\<lparr>nf_pending_have_more := None\<rparr> else w1
                | None \<Rightarrow> w1)
      in ofold (\<lambda>n w. Option.bind (nf_update_multisub n w) (nf_update_egress n)) (nf_in w2) w2)"

definition nf_filter_cb :: "prop_notify_t \<Rightarrow> prop_nf \<Rightarrow> prop_nf option" where
  "nf_filter_cb e w = (case trampoline_string False e of None \<Rightarrow> Some w | Some s \<Rightarrow> nf_set_filter s w)"

definition prop_nf_create ::
  "(nat \<Rightarrow> nat) \<Rightarrow> nat \<Rightarrow> casefold \<Rightarrow> bool \<Rightarrow> pid \<Rightarrow> pid \<Rightarrow> pid option \<Rightarrow> bool \<Rightarrow> bool \<Rightarrow> prop_tags \<Rightarrow> pst \<Rightarrow> prop_nf option" where
  "prop_nf_create addr key cf ign dst src flt take_dst auto tg st =
     do { st1 \<leftarrow> (if take_dst then Some st else prop_xref_addref (Some dst) st);
          let w = \<lparr>pnf_refcount = (if auto then 2 else 1), nf_autodestroy = auto, nf_pred_tally = 0, nf_nodecount = 0,
                   nf_sorted = False, nf_src = src, nf_dst = dst, nf_srcsub = None, nf_dstsub = None, nf_filtersub = None,
                   nf_in = [], nf_out_queue = [], nf_out_tree = RB_INIT, nf_filter = None,
                   nf_sortkey = replicate MAX_SORT_KEYS None, nf_sortmap = replicate MAX_SORT_KEYS None, nf_preds = [],
                   nf_pending_have_more = None, nf_sortorder = replicate MAX_SORT_KEYS 0,
                   nf_sort_hide_on_missing = replicate MAX_SORT_KEYS False, nf_nodes = (\<lambda>_. None), nf_fresh = 0,
                   nf_addr = addr, nf_key = key, nf_casefold = cf, nf_ignore_the = ign, nf_tags = tg, nf_props = st1\<rparr>
          in do {
            (fs, w1) \<leftarrow> (case flt of None \<Rightarrow> Some (None, w)
                          | Some f \<Rightarrow> nf_subscribe {} [TAG_CALLBACK 1 key, TAG_ROOT (Some f)] nf_filter_cb w);
            (ds, w2) \<leftarrow> nf_subscribe {} [TAG_CALLBACK 2 key, TAG_ROOT (Some dst)] prop_nf_dst_cb (w1\<lparr>nf_filtersub := fs\<rparr>);
            (ss, w3) \<leftarrow> nf_subscribe (if auto then {PROP_SUB_TRACK_DESTROY} else {})
                          [TAG_CALLBACK 0 key, TAG_ROOT (Some src)] prop_nf_src_cb (w2\<lparr>nf_dstsub := ds\<rparr>);
            Some (w3\<lparr>nf_srcsub := ss\<rparr>) } }"

definition prop_nf_release :: "prop_nf \<Rightarrow> prop_nf option" where
  "prop_nf_release w = prop_nf_release0 w"

definition prop_nf_retain :: "prop_nf \<Rightarrow> prop_nf" where
  "prop_nf_retain w = w\<lparr>pnf_refcount := pnf_refcount w + 1\<rparr>"

definition upd_conf :: "nat \<Rightarrow> (prop_nf_pred \<Rightarrow> prop_nf_pred) \<Rightarrow> prop_nf \<Rightarrow> prop_nf" where
  "upd_conf c f w = w\<lparr>nf_preds := map (\<lambda>p. if pnp_id p = c then f p else p) (nf_preds w)\<rparr>"

definition pnp_set_enable :: "nat \<Rightarrow> int \<Rightarrow> prop_nf \<Rightarrow> prop_nf option" where
  "pnp_set_enable c v w =
     do { pnp \<leftarrow> the_pred c w;
          if pnp_enabled pnp = (v \<noteq> 0) then Some w
          else ofold nf_update_egress (nf_in w) (upd_conf c (\<lambda>p. p\<lparr>pnp_enabled := v \<noteq> 0\<rparr>) w) }"

definition pnp_enable_cb :: "nat \<Rightarrow> prop_notify_t \<Rightarrow> prop_nf \<Rightarrow> prop_nf option" where
  "pnp_enable_cb c e w =
     do { v \<leftarrow> trampoline_int False e; (case v of None \<Rightarrow> Some w | Some i \<Rightarrow> pnp_set_enable c i w) }"

definition prop_nf_pred_add ::
  "string \<Rightarrow> prop_nf_cmp \<Rightarrow> pid option \<Rightarrow> prop_nf_mode \<Rightarrow> string option \<Rightarrow> int \<Rightarrow> prop_nf \<Rightarrow> (nat \<times> prop_nf) option" where
  "prop_nf_pred_add path cf enable mode str i w =
     do { names \<leftarrow> strvec_split path (CHR ''.'');
          let c = Suc (nf_pred_tally w);
              pnp = \<lparr>pnp_path = names, pnp_cf = cf, pnp_mode = mode, pnp_enable_sub = None, pnp_id = c,
                     pnp_enabled = (enable = None), pnp_str = str, pnp_int = i\<rparr>;
              w1 = w\<lparr>nf_pred_tally := c, nf_preds := pnp # nf_preds w\<rparr>
          in do {
            w2 \<leftarrow> (case enable of None \<Rightarrow> Some w1
                    | Some p \<Rightarrow> do { (so, w2) \<leftarrow> nf_subscribe {} [TAG_CALLBACK 9 c, TAG_ROOT (Some p)] (pnp_enable_cb c) w1;
                                     Some (upd_conf c (\<lambda>p. p\<lparr>pnp_enable_sub := so\<rparr>) w2) });
            w3 \<leftarrow> ofold (nfn_insert_pred pnp) (nf_in w2) w2;
            Some (c, w3) } }"

definition prop_nf_pred_str_add ::
  "string \<Rightarrow> prop_nf_cmp \<Rightarrow> string \<Rightarrow> pid option \<Rightarrow> prop_nf_mode \<Rightarrow> prop_nf \<Rightarrow> (nat \<times> prop_nf) option" where
  "prop_nf_pred_str_add path cf str enable mode w = prop_nf_pred_add path cf enable mode (Some str) 0 w"

definition prop_nf_pred_int_add ::
  "string \<Rightarrow> prop_nf_cmp \<Rightarrow> int \<Rightarrow> pid option \<Rightarrow> prop_nf_mode \<Rightarrow> prop_nf \<Rightarrow> (nat \<times> prop_nf) option" where
  "prop_nf_pred_int_add path cf i enable mode w = prop_nf_pred_add path cf enable mode None i w"

definition prop_nf_pred_remove :: "nat \<Rightarrow> prop_nf \<Rightarrow> prop_nf option" where
  "prop_nf_pred_remove c w =
     (if c = 0 then Some w
      else case the_pred c w of
        None \<Rightarrow> Some w
      | Some pnp \<Rightarrow>
          do { w1 \<leftarrow> ofold (\<lambda>n w. do { nd \<leftarrow> nf_nodes w n;
                                       p \<leftarrow> find (\<lambda>p. nfnp_conf p = c) (nfn_preds nd);
                                       w1 \<leftarrow> nfnp_destroy n p w;
                                       nf_update_egress n w1 }) (nf_in w) w;
               nf_destroy_pred pnp w1 })"

definition chksorted :: "prop_nf \<Rightarrow> bool" where
  "chksorted w \<longleftrightarrow> (\<exists>i \<in> set [0..<MAX_SORT_KEYS]. nf_sortkey w ! i \<noteq> None)"

definition prop_nf_sort :: "string option \<Rightarrow> bool \<Rightarrow> nat \<Rightarrow> sortmap option \<Rightarrow> bool \<Rightarrow> prop_nf \<Rightarrow> prop_nf option" where
  "prop_nf_sort path desc idx mp hide w =
     (let m = (if desc then -1 else 1)
      in if MAX_SORT_KEYS \<le> idx then None
         else if (nf_sortkey w ! idx = None \<and> path = None)
                 \<or> (path \<noteq> None \<and> nf_sortkey w ! idx = path \<and> nf_sortorder w ! idx = m) then Some w
         else let w1 = w\<lparr>nf_sortmap := (nf_sortmap w)[idx := mp], nf_sortkey := (nf_sortkey w)[idx := path],
                         nf_sortorder := (nf_sortorder w)[idx := (if path = None then 0 else m)],
                         nf_sort_hide_on_missing := (nf_sort_hide_on_missing w)[idx := (path \<noteq> None \<and> hide)]\<rparr>;
                  w2 = (if nf_sorted w1 \<noteq> chksorted w1 then
                          let w3 = fold (\<lambda>n. upd_nfn n (\<lambda>y. y\<lparr>nfn_inserted := False\<rparr>)) (nf_in w1) (w1\<lparr>nf_sorted := \<not> nf_sorted w1\<rparr>)
                          in if nf_sorted w3 then w3\<lparr>nf_out_tree := RB_INIT\<rparr> else w3\<lparr>nf_out_queue := []\<rparr>
                        else w1)
              in ofold (\<lambda>n. nf_update_order_x n idx) (nf_in w2) w2)"

section \<open>Beside the property system\<close>

text \<open>Which callback a subscription of the filter has.\<close>

definition node_call :: "prop_notify_t \<Rightarrow> nat \<Rightarrow> prop_nf \<Rightarrow> (prop_nf option) option" where
  "node_call e n w =
     do { nd \<leftarrow> nf_nodes w n;
          let s = Some (hpn_sub e)
          in if nfn_multisub nd = s then Some (nf_multi_filter n e w)
             else case find (\<lambda>p. nfnp_sub p = s) (nfn_preds nd) of
               Some p \<Rightarrow> do { pnp \<leftarrow> the_pred (nfnp_conf p) w; Some (nfn_pred_cb n (nfnp_conf p) (pnp_str pnp \<noteq> None) e w) }
             | None \<Rightarrow>
                 (case find (\<lambda>x. nfn_sortsub nd ! x = s) [0..<MAX_SORT_KEYS] of
                    Some x \<Rightarrow> Some (nf_set_sortkey_x x n e w)
                  | None \<Rightarrow> None) }"

definition nf_call :: "prop_notify_t \<Rightarrow> prop_nf \<Rightarrow> prop_nf option" where
  "nf_call e w =
     (let s = Some (hpn_sub e)
      in if nf_srcsub w = s then prop_nf_src_cb e w
         else if nf_dstsub w = s then prop_nf_dst_cb e w
         else if nf_filtersub w = s then nf_filter_cb e w
         else case find (\<lambda>p. pnp_enable_sub p = s) (nf_preds w) of
           Some p \<Rightarrow> pnp_enable_cb (pnp_id p) e w
         | None \<Rightarrow> (case List.map_filter (\<lambda>n. node_call e n w) (nf_in w) of r # _ \<Rightarrow> r | [] \<Rightarrow> Some w))"

definition nf_do :: "(pst \<Rightarrow> pst option) \<Rightarrow> prop_nf \<Rightarrow> prop_nf option" where
  "nf_do f w =
     do { st \<leftarrow> f (nf_props w);
          ofold nf_call (drop (length (calls (nf_props w))) (calls st)) (w\<lparr>nf_props := st\<rparr>) }"

end
