(* ===== verification/Redblack_Inv.thy ===== *)
theory Redblack_Inv
  imports Redblack
begin

text \<open>
  What the red-black macros guarantee: the elements in order are those of a list that the macros
  insert into and remove from, and the tree stays balanced.
\<close>

section \<open>The list of a tree\<close>

fun before_path :: "'a rb_path \<Rightarrow> 'a list" where
  "before_path [] = []"
| "before_path (Left_of c a r # ps) = before_path ps"
| "before_path (Right_of c a l # ps) = before_path ps @ inorder l @ [a]"

fun after_path :: "'a rb_path \<Rightarrow> 'a list" where
  "after_path [] = []"
| "after_path (Left_of c a r # ps) = a # inorder r @ after_path ps"
| "after_path (Right_of c a l # ps) = after_path ps"

lemma inorder_up [simp]: "inorder (rb_up ps x) = before_path ps @ inorder x @ after_path ps"
  by (induction ps x rule: rb_up.induct) auto

lemma inorder_black [simp]: "inorder (set_black x) = inorder x"
  by (cases x) auto

lemma path_append [simp]:
  "before_path (ps @ qs) = before_path qs @ before_path ps \<and> after_path (ps @ qs) = after_path ps @ after_path qs"
proof (induction ps)
  case Nil then show ?case by simp
next
  case (Cons p ps) then show ?case by (cases p) auto
qed

lemma up_append [simp]: "rb_up (ps @ qs) x = rb_up qs (rb_up ps x)"
proof (induction ps arbitrary: x)
  case Nil then show ?case by simp
next
  case (Cons p ps) then show ?case by (cases p) auto
qed

lemma inorder_insert_balance:
  "rb_insert_balance xl xa xr ps = Some t \<Longrightarrow> inorder t = before_path ps @ inorder xl @ xa # inorder xr @ after_path ps"
proof (induction xl xa xr ps arbitrary: t rule: rb_insert_balance.induct)
  case (1 xl xa xr) then show ?case by auto
next
  case (2 xl xa xr p) then show ?case by (cases p) (auto split: if_splits)
next
  case (3 xl xa xr p g ps)
  then show ?case by (cases p; cases g) (auto split: if_splits)
qed

text \<open>The tree a round leaves, whether it ends the loop or not.\<close>

lemma inorder_remove_left:
  "remove_left x pc pa w = Some (Inl t) \<Longrightarrow> inorder t = inorder x @ pa # inorder w"
  "remove_left x pc pa w = Some (Inr t) \<Longrightarrow> inorder t = inorder x @ pa # inorder w"
  "remove_left x pc pa w = Some s \<Longrightarrow>
   inorder (round_end s) = inorder x @ pa # inorder w"
  by (auto simp: remove_left_def split: rb_node.splits if_splits)

lemma inorder_remove_right:
  "remove_right x pc pa w = Some (Inl t) \<Longrightarrow> inorder t = inorder w @ pa # inorder x"
  "remove_right x pc pa w = Some (Inr t) \<Longrightarrow> inorder t = inorder w @ pa # inorder x"
  "remove_right x pc pa w = Some s \<Longrightarrow>
   inorder (round_end s) = inorder w @ pa # inorder x"
  by (auto simp: remove_right_def split: rb_node.splits if_splits)

lemma inorder_remove_balance:
  "rb_remove_balance x ps = Some t \<Longrightarrow> inorder t = before_path ps @ inorder x @ after_path ps"
proof (induction x ps arbitrary: t rule: rb_remove_balance.induct)
  case (1 x) then show ?case by auto
next
  case (2 x pc pa w ps)
  then show ?case
    by (auto split: if_splits rb_node.splits rb_color.splits option.splits sum.splits(2) simp: inorder_remove_left)
next
  case (3 x pc pa w ps)
  then show ?case
    by (auto split: if_splits rb_node.splits rb_color.splits option.splits sum.splits(2) simp: inorder_remove_right)
qed

lemma inorder_focus:
  "rb_focus e t ps = Some (qs, c, l, r) \<Longrightarrow>
   rb_up qs (RB_NODE c l e r) = rb_up ps t"
  by (induction e t ps rule: rb_focus.induct) (auto split: if_splits option.splits)

lemma focus_total: "e \<in> set (inorder t) \<Longrightarrow> \<exists>z. rb_focus e t ps = Some z"
  by (induction e t ps rule: rb_focus.induct) (auto split: option.splits)

lemma focus_none: "e \<notin> set (inorder t) \<Longrightarrow> rb_focus e t ps = None"
  by (induction e t ps rule: rb_focus.induct) auto

lemma up_leftmost:
  "rb_leftmost t ps = Some (qs, c, a, r) \<Longrightarrow> rb_up qs (RB_NODE c RB_NULL a r) = rb_up ps t"
  by (induction t ps rule: rb_leftmost.induct) (auto split: if_splits)

lemma leftmost_before:
  "rb_leftmost t ps = Some (qs, c, a, r) \<Longrightarrow> before_path qs = before_path ps"
  by (induction t ps rule: rb_leftmost.induct) (auto split: if_splits)

lemma leftmost_none: "rb_leftmost t ps = None \<longleftrightarrow> t = RB_NULL"
  by (induction t ps rule: rb_leftmost.induct) auto

lemma inorder_unlink:
  assumes "rb_unlink (ps, c, l, r) = (x, qs, d)"
  shows "before_path qs @ inorder x @ after_path qs = before_path ps @ inorder l @ inorder r @ after_path ps"
proof (cases "l = RB_NULL \<or> r = RB_NULL")
  case True
  then show ?thesis using assms by (auto simp: rb_unlink_def split: if_splits)
next
  case False
  then obtain rs yc ya yr where y: "rb_leftmost r [] = Some (rs, yc, ya, yr)"
    using leftmost_none[of r "[]"] by (cases "rb_leftmost r []") auto
  have "inorder (rb_up rs (RB_NODE yc RB_NULL ya yr)) = inorder r" using up_leftmost[OF y] by simp
  then have "ya # inorder yr @ after_path rs = inorder r" using leftmost_before[OF y] by simp
  then show ?thesis using assms False y leftmost_before[OF y] by (auto simp: rb_unlink_def)
qed

section \<open>Balance\<close>

fun bheight :: "'a rb_node \<Rightarrow> nat" where
  "bheight RB_NULL = 0"
| "bheight (RB_NODE c l a r) = (if c = RB_TREE_NODE_BLACK then Suc (bheight l) else bheight l)"

fun invh :: "'a rb_node \<Rightarrow> bool" where
  "invh RB_NULL = True"
| "invh (RB_NODE c l a r) = (bheight l = bheight r \<and> invh l \<and> invh r)"

fun invc :: "'a rb_node \<Rightarrow> bool" where
  "invc RB_NULL = True"
| "invc (RB_NODE c l a r) = ((c = RB_TREE_NODE_RED \<longrightarrow> \<not> is_red l \<and> \<not> is_red r) \<and> invc l \<and> invc r)"

definition rb_ok :: "'a rb_node \<Rightarrow> bool" where
  "rb_ok t \<longleftrightarrow> invc t \<and> invh t \<and> \<not> is_red t"

text \<open>The same of a path whose end is \<open>n\<close> black nodes high, and red or not.\<close>

fun path_h :: "nat \<Rightarrow> 'a rb_path \<Rightarrow> bool" where
  "path_h n [] = True"
| "path_h n (Left_of c a r # ps) = (invh r \<and> bheight r = n \<and> path_h (if c = RB_TREE_NODE_BLACK then Suc n else n) ps)"
| "path_h n (Right_of c a l # ps) = (invh l \<and> bheight l = n \<and> path_h (if c = RB_TREE_NODE_BLACK then Suc n else n) ps)"

fun path_c :: "bool \<Rightarrow> 'a rb_path \<Rightarrow> bool" where
  "path_c red [] = (\<not> red)"
| "path_c red (Left_of c a r # ps) =
     ((c = RB_TREE_NODE_RED \<longrightarrow> \<not> red \<and> \<not> is_red r) \<and> invc r \<and> path_c (c = RB_TREE_NODE_RED) ps)"
| "path_c red (Right_of c a l # ps) =
     ((c = RB_TREE_NODE_RED \<longrightarrow> \<not> red \<and> \<not> is_red l) \<and> invc l \<and> path_c (c = RB_TREE_NODE_RED) ps)"

lemma ok_up: "rb_ok (rb_up ps x) \<longleftrightarrow> invc x \<and> invh x \<and> path_h (bheight x) ps \<and> path_c (is_red x) ps"
  by (induction ps x rule: rb_up.induct) (auto simp: rb_ok_def)

lemma path_c_black: "path_c b ps \<Longrightarrow> path_c False ps"
proof (cases ps)
  case (Cons p qs) then show "path_c b ps \<Longrightarrow> path_c False ps" by (cases p) auto
qed simp

lemma path_h_simp [simp]:
  "path_h n (Left_of RB_TREE_NODE_BLACK a r # ps) = (invh r \<and> bheight r = n \<and> path_h (Suc n) ps)"
  by simp

lemma ok_set_black: "rb_ok t \<Longrightarrow> set_black t = t"
  by (cases t) (auto simp: rb_ok_def intro: rb_color.exhaust)

lemma not_red: "c \<noteq> RB_TREE_NODE_RED \<longleftrightarrow> c = RB_TREE_NODE_BLACK"
  by (cases c) auto

lemma red_node: "is_red t \<Longrightarrow> \<exists>l a r. t = RB_NODE RB_TREE_NODE_RED l a r"
  by (cases t) auto

lemma black_facts [simp]:
  "\<not> is_red (set_black t)" "invh (set_black t) = invh t" "invc t \<Longrightarrow> invc (set_black t)"
  "is_red t \<Longrightarrow> bheight (set_black t) = Suc (bheight t)" "\<not> is_red t \<Longrightarrow> set_black t = t"
  by (cases t; auto simp: not_red)+

lemma ok_set_black_up:
  "invc x \<Longrightarrow> invh x \<Longrightarrow> path_h (bheight x) ps \<Longrightarrow> path_c (is_red x) ps \<Longrightarrow> rb_ok (set_black (rb_up ps x))"
  using ok_up[of ps x] ok_set_black by metis

lemma insert_balance_ok:
  assumes "invc xl" "invc xr" "\<not> is_red xl" "\<not> is_red xr" "invh xl" "invh xr" "bheight xl = bheight xr"
    "path_h (bheight xl) ps" "path_c False ps"
  shows "\<exists>t. rb_insert_balance xl xa xr ps = Some t \<and> rb_ok t"
  using assms
proof (induction xl xa xr ps rule: rb_insert_balance.induct)
  case (1 xl xa xr) then show ?case by (simp add: rb_ok_def)
next
  case (2 xl xa xr p)
  then show ?case by (cases p) (auto simp: rb_ok_def not_red)
next
  case (3 xl xa xr p g ps)
  show ?case
  proof (cases "above_color p = RB_TREE_NODE_RED")
    case False
    have "rb_ok (set_black (rb_up (p # g # ps) (RB_NODE RB_TREE_NODE_RED xl xa xr)))"
      by (rule ok_set_black_up) (use 3(3-11) False in \<open>cases p; simp\<close>)+
    then show ?thesis using False by simp
  next
    case True
    have g: "above_color g = RB_TREE_NODE_BLACK" using 3(11) True by (cases p; cases g) (auto simp: not_red)
    define q where "q = set_black (rb_up [p] (RB_NODE RB_TREE_NODE_RED xl xa xr))"
    have q: "invc q" "\<not> is_red q" "invh q" "bheight q = Suc (bheight xl)"
      using 3(3-) True by (cases p; simp add: q_def)+
    have ps: "path_h (bheight xl) (g # ps)" "path_c True (g # ps)"
      using 3(10,11) True by (cases p; simp)+
    show ?thesis
    proof (cases g)
      case (Left_of gc ga y)
      have y: "gc = RB_TREE_NODE_BLACK" "invh y" "bheight y = bheight xl" "invc y" "path_h (Suc (bheight xl)) ps" "path_c False ps"
        using ps g by (auto simp: Left_of)
      show ?thesis
      proof (cases "is_red y")
        case r: True
        have "\<exists>t. rb_insert_balance q ga (set_black y) ps = Some t \<and> rb_ok t"
          unfolding q_def by (rule 3(1)[OF _ Left_of r]) (use True q y r in \<open>simp_all add: q_def[symmetric]\<close>)
        then show ?thesis using True r by (simp add: Left_of q_def)
      next
        case False
        then show ?thesis using 3(3-9) 3(10,11) True y by (cases p) (simp_all add: Left_of ok_set_black_up)
      qed
    next
      case (Right_of gc ga y)
      have y: "gc = RB_TREE_NODE_BLACK" "invh y" "bheight y = bheight xl" "invc y" "path_h (Suc (bheight xl)) ps" "path_c False ps"
        using ps g by (auto simp: Right_of)
      show ?thesis
      proof (cases "is_red y")
        case r: True
        have "\<exists>t. rb_insert_balance (set_black y) ga q ps = Some t \<and> rb_ok t"
          unfolding q_def by (rule 3(2)[OF _ Right_of r]) (use True q y r in \<open>simp_all add: q_def[symmetric]\<close>)
        then show ?thesis using True r by (simp add: Right_of q_def)
      next
        case False
        then show ?thesis using 3(3-9) 3(10,11) True y by (cases p) (simp_all add: Right_of ok_set_black_up)
      qed
    qed
  qed
qed

text \<open>A round of the loop of a removal, with a black sibling one higher than the node.\<close>

definition round_ok :: "rb_color \<Rightarrow> nat \<Rightarrow> 'a rb_node + 'a rb_node \<Rightarrow> bool" where
  "round_ok pc n s =
     (case s of
        Inl t \<Rightarrow> invc t \<and> invh t \<and> is_red t = (pc = RB_TREE_NODE_RED) \<and>
                 bheight t = (if pc = RB_TREE_NODE_RED then Suc n else Suc (Suc n))
      | Inr y \<Rightarrow> invc (set_black y) \<and> invh y \<and> is_red y = (pc = RB_TREE_NODE_RED) \<and>
                 bheight y = (if pc = RB_TREE_NODE_RED then n else Suc n))"

lemma remove_left_ok:
  assumes "\<not> is_red x" "invc x" "invh x" "invc w" "invh w" "\<not> is_red w" "bheight w = Suc (bheight x)"
  shows "\<exists>s. remove_left x pc pa w = Some s \<and> round_ok pc (bheight x) s"
proof -
  obtain wl wa wr where w: "w = RB_NODE RB_TREE_NODE_BLACK wl wa wr"
    using assms(6,7) by (cases w) (auto simp: not_red)
  show ?thesis
  proof (cases "is_red wr")
    case True
    then show ?thesis using assms w by (auto simp: remove_left_def round_ok_def not_red dest!: red_node)
  next
    case False
    then show ?thesis using assms w
      by (cases wl) (auto simp: remove_left_def round_ok_def not_red split: if_splits)
  qed
qed

lemma remove_right_ok:
  assumes "\<not> is_red x" "invc x" "invh x" "invc w" "invh w" "\<not> is_red w" "bheight w = Suc (bheight x)"
  shows "\<exists>s. remove_right x pc pa w = Some s \<and> round_ok pc (bheight x) s"
proof -
  obtain wl wa wr where w: "w = RB_NODE RB_TREE_NODE_BLACK wl wa wr"
    using assms(6,7) by (cases w) (auto simp: not_red)
  show ?thesis
  proof (cases "is_red wl")
    case True
    then show ?thesis using assms w by (auto simp: remove_right_def round_ok_def not_red dest!: red_node)
  next
    case False
    then show ?thesis using assms w
      by (cases wr) (auto simp: remove_right_def round_ok_def not_red split: if_splits)
  qed
qed

lemma round_end_ok:
  "round_ok RB_TREE_NODE_RED n s \<Longrightarrow>
   invc (round_end s) \<and> invh (round_end s) \<and> bheight (round_end s) = Suc n"
  by (cases s) (auto simp: round_ok_def)

lemma remove_balance_ok:
  assumes "invc (set_black x)" "invh x" "path_h (Suc (bheight x)) ps" "path_c False ps"
  shows "\<exists>t. rb_remove_balance x ps = Some t \<and> rb_ok t"
  using assms
proof (induction x ps rule: rb_remove_balance.induct)
  case (1 x) then show ?case by (simp add: rb_ok_def)
next
  case (2 x pc pa w ps)
  show ?case
  proof (cases "is_red x")
    case True
    then have "rb_ok (rb_up (Left_of pc pa w # ps) (set_black x))" using 2(3-) unfolding ok_up by simp
    then show ?thesis using True by simp
  next
    case nr: False
    have w: "invc w" "invh w" "bheight w = Suc (bheight x)" "invc x" using 2(3-) nr by simp_all
    show ?thesis
    proof (cases "is_red w")
      case True
      obtain wl wa wr where w': "w = RB_NODE RB_TREE_NODE_RED wl wa wr" using red_node[OF True] by blast
      have pc: "pc = RB_TREE_NODE_BLACK" using 2(6) True by (cases pc) auto
      obtain s where s: "remove_left x RB_TREE_NODE_RED pa wl = Some s" "round_ok RB_TREE_NODE_RED (bheight x) s"
        using remove_left_ok[OF nr w(4) 2(4), of wl RB_TREE_NODE_RED pa] w w' by auto
      have "rb_ok (rb_up (Left_of RB_TREE_NODE_BLACK wa wr # ps) (round_end s))"
        using round_end_ok[OF s(2)] 2(5,6) w w' pc unfolding ok_up by auto
      then show ?thesis using nr w' s(1) by simp
    next
      case False
      obtain s where s: "remove_left x pc pa w = Some s" "round_ok pc (bheight x) s"
        using remove_left_ok[OF nr w(4) 2(4) w(1,2) False w(3)] by blast
      obtain wl wa wr where w': "w = RB_NODE RB_TREE_NODE_BLACK wl wa wr"
        using False w(3) by (cases w) (auto simp: not_red)
      have ps: "path_h (if pc = RB_TREE_NODE_BLACK then Suc (Suc (bheight x)) else Suc (bheight x)) ps"
        "path_c (pc = RB_TREE_NODE_RED) ps" "path_c False ps"
        using 2(5,6) by (auto simp: not_red intro: path_c_black)
      show ?thesis
      proof (cases s)
        case (Inl t)
        then have "rb_ok (rb_up ps t)" using s(2) ps unfolding ok_up round_ok_def by (auto simp: not_red)
        then show ?thesis using nr w' s(1) Inl by simp
      next
        case (Inr y)
        have "\<exists>t. rb_remove_balance y ps = Some t \<and> rb_ok t"
          by (rule 2(2)[OF nr w' _ _ Inr]) (use s ps w' Inr in \<open>auto simp: round_ok_def not_red split: if_splits\<close>)
        then show ?thesis using nr w' s(1) Inr by simp
      qed
    qed
  qed
next
  case (3 x pc pa w ps)
  show ?case
  proof (cases "is_red x")
    case True
    then have "rb_ok (rb_up (Right_of pc pa w # ps) (set_black x))" using 3(3-) unfolding ok_up by simp
    then show ?thesis using True by simp
  next
    case nr: False
    have w: "invc w" "invh w" "bheight w = Suc (bheight x)" "invc x" using 3(3-) nr by simp_all
    show ?thesis
    proof (cases "is_red w")
      case True
      obtain wl wa wr where w': "w = RB_NODE RB_TREE_NODE_RED wl wa wr" using red_node[OF True] by blast
      have pc: "pc = RB_TREE_NODE_BLACK" using 3(6) True by (cases pc) auto
      obtain s where s: "remove_right x RB_TREE_NODE_RED pa wr = Some s" "round_ok RB_TREE_NODE_RED (bheight x) s"
        using remove_right_ok[OF nr w(4) 3(4), of wr RB_TREE_NODE_RED pa] w w' by auto
      have "rb_ok (rb_up (Right_of RB_TREE_NODE_BLACK wa wl # ps) (round_end s))"
        using round_end_ok[OF s(2)] 3(5,6) w w' pc unfolding ok_up by auto
      then show ?thesis using nr w' s(1) by simp
    next
      case False
      obtain s where s: "remove_right x pc pa w = Some s" "round_ok pc (bheight x) s"
        using remove_right_ok[OF nr w(4) 3(4) w(1,2) False w(3)] by blast
      obtain wl wa wr where w': "w = RB_NODE RB_TREE_NODE_BLACK wl wa wr"
        using False w(3) by (cases w) (auto simp: not_red)
      have ps: "path_h (if pc = RB_TREE_NODE_BLACK then Suc (Suc (bheight x)) else Suc (bheight x)) ps"
        "path_c (pc = RB_TREE_NODE_RED) ps" "path_c False ps"
        using 3(5,6) by (auto simp: not_red intro: path_c_black)
      show ?thesis
      proof (cases s)
        case (Inl t)
        then have "rb_ok (rb_up ps t)" using s(2) ps unfolding ok_up round_ok_def by (auto simp: not_red)
        then show ?thesis using nr w' s(1) Inl by simp
      next
        case (Inr y)
        have "\<exists>t. rb_remove_balance y ps = Some t \<and> rb_ok t"
          by (rule 3(2)[OF nr w' _ _ Inr]) (use s ps w' Inr in \<open>auto simp: round_ok_def not_red split: if_splits\<close>)
        then show ?thesis using nr w' s(1) Inr by simp
      qed
    qed
  qed
qed

text \<open>Unlinking a node leaves a tree that is one black node short, or none.\<close>

lemma path_elem:
  "path_h n (ps @ Right_of c a l # qs) \<Longrightarrow> path_h n (ps @ Right_of c b l # qs)"
  "path_c d (ps @ Right_of c a l # qs) \<Longrightarrow> path_c d (ps @ Right_of c b l # qs)"
proof (induction ps arbitrary: n d)
  case Nil { case 1 then show ?case by simp next case 2 then show ?case by simp }
next
  case (Cons p ps)
  { case 1 then show ?case using Cons by (cases p) auto next case 2 then show ?case using Cons by (cases p) auto }
qed

lemma unlink_ok:
  assumes ok: "rb_ok (rb_up ps (RB_NODE c l e r))" and u: "rb_unlink (ps, c, l, r) = (x, qs, d)"
  shows "if d = RB_TREE_NODE_RED then rb_ok (rb_up qs x)
    else invc x \<and> invh x \<and> path_h (Suc (bheight x)) qs \<and> path_c False qs"
proof (cases "l = RB_NULL \<or> r = RB_NULL")
  case True
  then have "d = c" "qs = ps" "x = (if l = RB_NULL then r else l)" using u by (auto simp: rb_unlink_def split: if_splits)
  then show ?thesis using True ok unfolding ok_up by (auto simp: not_red dest: path_c_black)
next
  case False
  then obtain rs yc ya yr where y: "rb_leftmost r [] = Some (rs, yc, ya, yr)"
    using leftmost_none[of r "[]"] by (cases "rb_leftmost r []") auto
  then have x: "x = yr" "qs = rs @ Right_of c ya l # ps" "d = yc" using u False by (simp_all add: rb_unlink_def)
  have "rb_up (rs @ Right_of c e l # ps) (RB_NODE yc RB_NULL ya yr) = rb_up ps (RB_NODE c l e r)"
    using up_leftmost[OF y] by simp
  then have "rb_ok (rb_up (rs @ Right_of c e l # ps) (RB_NODE yc RB_NULL ya yr))" using ok by simp
  then have "invc (RB_NODE yc RB_NULL ya yr)" "invh (RB_NODE yc RB_NULL ya yr)"
    "path_h (bheight (RB_NODE yc RB_NULL ya yr)) qs" "path_c (is_red (RB_NODE yc RB_NULL ya yr)) qs"
    unfolding ok_up x using path_elem[of _ rs c e l ps ya] by blast+
  then show ?thesis unfolding ok_up x(1,3) by (auto simp: not_red dest: path_c_black)
qed

section \<open>Heads\<close>

definition first_of :: "'a list \<Rightarrow> 'a option" where
  "first_of xs = (case xs of [] \<Rightarrow> None | x # _ \<Rightarrow> Some x)"

definition last_of :: "'a list \<Rightarrow> 'a option" where
  "last_of xs = first_of (rev xs)"

definition head_ok :: "'a rb_head \<Rightarrow> bool" where
  "head_ok h \<longleftrightarrow> rb_ok (rb_root h) \<and> distinct (rb_list h) \<and> rb_first h = first_of (rb_list h) \<and> rb_last h = last_of (rb_list h)"

lemma first_of_simps [simp]:
  "first_of [] = None" "first_of (x # xs) = Some x" "first_of (xs @ ys) = (if xs = [] then first_of ys else first_of xs)"
  "last_of [] = None" "last_of (xs @ [x]) = Some x" "last_of (xs @ ys) = (if ys = [] then last_of xs else last_of ys)"
  "last_of (x # xs) = (if xs = [] then Some x else last_of xs)"
  "first_of xs = None \<longleftrightarrow> xs = []" "last_of xs = None \<longleftrightarrow> xs = []"
  by (auto simp: first_of_def last_of_def split: list.splits)

lemma first_of_in: "first_of xs = Some x \<Longrightarrow> x \<in> set xs" "last_of xs = Some x \<Longrightarrow> x \<in> set xs"
  by (auto simp: first_of_def last_of_def split: list.splits)

lemma inorder_empty [simp]: "inorder t = [] \<longleftrightarrow> t = RB_NULL"
  by (cases t) auto

lemma ends [simp]:
  "rb_min t = first_of (inorder t)" "rb_max t = last_of (inorder t)"
  "next_above ps = first_of (after_path ps)" "prev_above ps = last_of (before_path ps)"
proof -
  show "rb_min t = first_of (inorder t)" by (induction t) auto
  show "rb_max t = last_of (inorder t)"
  proof (induction t)
    case (RB_NODE c l a r)
    have "last_of (inorder l @ [a] @ inorder r) = (if inorder r = [] then Some a else last_of (inorder r))" by simp
    then show ?case using RB_NODE by simp
  qed simp
  show "next_above ps = first_of (after_path ps)" by (induction ps rule: next_above.induct) auto
  show "prev_above ps = last_of (before_path ps)" by (induction ps rule: prev_above.induct) auto
qed

lemma next_of_split: "a \<notin> set xs \<Longrightarrow> next_of a (xs @ a # ys) = first_of ys"
proof (induction xs)
  case Nil then show ?case by (cases ys) auto
next
  case (Cons x xs) then show ?case by (cases xs) auto
qed

lemma focus_list:
  assumes "distinct (rb_list h)" "e \<in> set (rb_list h)"
  obtains ps c l r where "rb_focus e (rb_root h) [] = Some (ps, c, l, r)" "rb_root h = rb_up ps (RB_NODE c l e r)"
    "rb_list h = (before_path ps @ inorder l) @ e # inorder r @ after_path ps" "e \<notin> set (before_path ps @ inorder l)"
proof -
  obtain ps c l r where f: "rb_focus e (rb_root h) [] = Some (ps, c, l, r)"
    using focus_total assms(2) unfolding rb_list_def by (metis prod_cases4)
  have u: "rb_root h = rb_up ps (RB_NODE c l e r)" using inorder_focus[OF f] by simp
  have "rb_list h = (before_path ps @ inorder l) @ e # inorder r @ after_path ps" by (simp add: rb_list_def u)
  then show ?thesis using that[OF f u] assms(1) by auto
qed

lemma RB_NEXT_list:
  assumes "distinct (rb_list h)" "e \<in> set (rb_list h)"
  shows "RB_NEXT e h = next_of e (rb_list h)"
proof -
  obtain ps c l r where f: "rb_focus e (rb_root h) [] = Some (ps, c, l, r)"
    and "rb_root h = rb_up ps (RB_NODE c l e r)"
    and L: "rb_list h = (before_path ps @ inorder l) @ e # inorder r @ after_path ps" "e \<notin> set (before_path ps @ inorder l)"
    by (rule focus_list[OF assms])
  show ?thesis unfolding L(1) next_of_split[OF L(2)] by (simp add: RB_NEXT_def f)
qed

lemma descend_path: "rb_descend cmp x t ps = Some (Inr qs) \<Longrightarrow> rb_up qs RB_NULL = rb_up ps t"
  by (induction cmp x t ps rule: rb_descend.induct) (auto split: if_splits option.splits)

lemma descend_total:
  "(\<And>a. a \<in> set (inorder t) \<Longrightarrow> \<exists>r. cmp x a = Some r \<and> r \<noteq> 0) \<Longrightarrow> \<exists>qs. rb_descend cmp x t ps = Some (Inr qs)"
proof (induction cmp x t ps rule: rb_descend.induct)
  case (2 cmp x c l a r ps)
  obtain v where v: "cmp x a = Some v" "v \<noteq> 0" using 2(3)[of a] by auto
  then consider "v < 0" | "0 < v" by linarith
  then show ?case
  proof cases
    case 1 then show ?thesis using 2(1)[OF v(1)] 2(3) v by simp
  next
    case w: 2 then show ?thesis using 2(2)[OF v(1)] 2(3) v by simp
  qed
qed simp

text \<open>The ends of the list move with a node that is put before or behind all others.\<close>

lemma parent_ends:
  assumes "distinct (before_path ps @ after_path ps)"
  shows "rb_parent ps = first_of (before_path ps @ after_path ps) \<and> came_from_left ps \<longleftrightarrow> before_path ps = []"
    "rb_parent ps = last_of (before_path ps @ after_path ps) \<and> came_from_right ps \<longleftrightarrow> after_path ps = []"
proof -
  have "ps = [] \<or> (\<exists>c a r qs. ps = Left_of c a r # qs) \<or> (\<exists>c a r qs. ps = Right_of c a r # qs)"
    by (metis list.exhaust rb_above.exhaust)
  then show "rb_parent ps = first_of (before_path ps @ after_path ps) \<and> came_from_left ps \<longleftrightarrow> before_path ps = []"
    "rb_parent ps = last_of (before_path ps @ after_path ps) \<and> came_from_right ps \<longleftrightarrow> after_path ps = []"
    using assms by (auto simp: rb_parent_def dest!: first_of_in(1)[OF sym] first_of_in(2)[OF sym])
qed

lemma insert_list:
  assumes h: "head_ok h" and x: "x \<notin> set (rb_list h)" and c: "\<forall>a \<in> set (rb_list h). \<exists>r. cmp x a = Some r \<and> r \<noteq> 0"
  obtains h' ps where "RB_INSERT_SORTED cmp x h = Some (None, h')" "head_ok h'" "rb_descend cmp x (rb_root h) [] = Some (Inr ps)"
    "rb_list h = before_path ps @ after_path ps" "rb_list h' = before_path ps @ x # after_path ps"
proof -
  obtain ps where d: "rb_descend cmp x (rb_root h) [] = Some (Inr ps)" using descend_total[of "rb_root h" cmp x "[]"] c by (auto simp: rb_list_def)
  have u: "rb_up ps RB_NULL = rb_root h" using descend_path[OF d] by simp
  have l: "rb_list h = before_path ps @ after_path ps" using arg_cong[OF u, of inorder] by (simp add: rb_list_def)
  have k: "path_h 0 ps" "path_c False ps" using h ok_up[of ps RB_NULL] by (simp_all add: head_ok_def u)
  obtain t where t: "rb_insert_balance RB_NULL x RB_NULL ps = Some t" "rb_ok t"
    using insert_balance_ok[of RB_NULL RB_NULL ps x] k by auto
  have i: "inorder t = before_path ps @ x # after_path ps" using inorder_insert_balance[OF t(1)] by simp
  have e: "rb_first h = first_of (before_path ps @ after_path ps)" "rb_last h = last_of (before_path ps @ after_path ps)"
    "distinct (before_path ps @ after_path ps)" using h l by (simp_all add: head_ok_def)
  let ?h = "\<lparr>rb_first = (if rb_parent ps = rb_first h \<and> came_from_left ps then Some x else rb_first h),
    rb_last = (if rb_parent ps = rb_last h \<and> came_from_right ps then Some x else rb_last h), rb_root = t\<rparr>"
  have "last_of (before_path ps @ x # after_path ps) = last_of ((before_path ps @ [x]) @ after_path ps)" by simp
  also have "\<dots> = (if after_path ps = [] then Some x else last_of (after_path ps))"
    using first_of_simps(6) first_of_simps(5) by metis
  finally have "head_ok ?h"
    using t(2) i e x l parent_ends[OF e(3)] unfolding head_ok_def rb_list_def e(1,2) by auto
  then show ?thesis using that[of ?h ps] d t(1) l i by (simp add: RB_INSERT_SORTED_def rb_list_def)
qed

lemma remove_list:
  assumes h: "head_ok h" and e: "e \<in> set (rb_list h)"
  obtains h' where "RB_REMOVE e h = Some h'" "head_ok h'" "rb_list h' = remove1 e (rb_list h)"
proof -
  have di: "distinct (rb_list h)" using h by (simp add: head_ok_def)
  obtain ps c l r where f: "rb_focus e (rb_root h) [] = Some (ps, c, l, r)" and u: "rb_root h = rb_up ps (RB_NODE c l e r)"
    and L: "rb_list h = (before_path ps @ inorder l) @ e # inorder r @ after_path ps" "e \<notin> set (before_path ps @ inorder l)"
    by (rule focus_list[OF di e])
  obtain x qs d where z: "rb_unlink (ps, c, l, r) = (x, qs, d)" by (cases "rb_unlink (ps, c, l, r)") auto
  have k: "if d = RB_TREE_NODE_RED then rb_ok (rb_up qs x)
    else invc x \<and> invh x \<and> path_h (Suc (bheight x)) qs \<and> path_c False qs"
  proof -
    have "rb_ok (rb_up ps (RB_NODE c l e r))" using h by (simp add: head_ok_def u)
    from unlink_ok[OF this z] show ?thesis .
  qed
  have "\<exists>t. (if d = RB_TREE_NODE_RED then Some (rb_up qs x) else rb_remove_balance x qs) = Some t \<and> rb_ok t
      \<and> inorder t = before_path qs @ inorder x @ after_path qs"
  proof (cases "d = RB_TREE_NODE_RED")
    case True then show ?thesis using k by simp
  next
    case False
    then show ?thesis using k remove_balance_ok[of x qs] inorder_remove_balance[of x qs] by auto
  qed
  then obtain t where t: "(if d = RB_TREE_NODE_RED then Some (rb_up qs x) else rb_remove_balance x qs) = Some t"
    "rb_ok t" "inorder t = before_path qs @ inorder x @ after_path qs" by blast
  have rl: "remove1 e (rb_list h) = (before_path ps @ inorder l) @ inorder r @ after_path ps"
    using L by (simp add: remove1_append)
  then have i: "inorder t = remove1 e (rb_list h)" using t(3) inorder_unlink[OF z] by simp
  have nx: "RB_NEXT e h = first_of (inorder r @ after_path ps)" by (simp add: RB_NEXT_def f)
  have pv: "RB_PREV e h = last_of (before_path ps @ inorder l)" by (simp add: RB_PREV_def f)
  let ?h = "\<lparr>rb_first = (if rb_first h = Some e then RB_NEXT e h else rb_first h),
    rb_last = (if rb_last h = Some e then RB_PREV e h else rb_last h), rb_root = t\<rparr>"
  have ends: "rb_first h = first_of (rb_list h)" "rb_last h = last_of (rb_list h)" using h by (simp_all add: head_ok_def)
  define A where "A = before_path ps @ inorder l"
  define B where "B = inorder r @ after_path ps"
  have AB: "rb_list h = A @ e # B" "e \<notin> set A" "e \<notin> set B" "remove1 e (rb_list h) = A @ B"
    using L rl di by (auto simp: A_def B_def)
  have "(if rb_first h = Some e then RB_NEXT e h else rb_first h) = first_of (A @ B)"
    using ends(1) AB first_of_in(1)[of A e] unfolding nx B_def[symmetric] by (cases A) auto
  moreover have "last_of (A @ e # B) = (if B = [] then Some e else last_of B)"
    using first_of_simps(6)[of "A @ [e]" B] by simp
  then have "(if rb_last h = Some e then RB_PREV e h else rb_last h) = last_of (A @ B)"
    using ends(2) AB first_of_in(2)[of B e] unfolding pv A_def[symmetric] by auto
  ultimately have "head_ok ?h" using t(2) i di AB unfolding head_ok_def rb_list_def[symmetric] by (auto simp: rb_list_def)
  moreover have "RB_REMOVE e h = Some ?h" using f z t(1) by (simp add: RB_REMOVE_def)
  ultimately show ?thesis using that i by (simp add: rb_list_def)
qed

section \<open>Order and height\<close>

definition cmp_less :: "('a \<Rightarrow> 'a \<Rightarrow> int option) \<Rightarrow> 'a \<Rightarrow> 'a \<Rightarrow> bool" where
  "cmp_less cmp a b \<longleftrightarrow> (case cmp a b of None \<Rightarrow> False | Some r \<Rightarrow> r < 0)"

definition cmp_total :: "('a \<Rightarrow> 'a \<Rightarrow> int option) \<Rightarrow> 'a set \<Rightarrow> bool" where
  "cmp_total cmp A \<longleftrightarrow> (\<forall>a \<in> A. \<forall>b \<in> A. a \<noteq> b \<longrightarrow> (\<exists>r. cmp a b = Some r \<and> r \<noteq> 0))"

definition cmp_order :: "('a \<Rightarrow> 'a \<Rightarrow> int option) \<Rightarrow> 'a set \<Rightarrow> bool" where
  "cmp_order cmp A \<longleftrightarrow> cmp_total cmp A
     \<and> (\<forall>a \<in> A. \<forall>b \<in> A. a \<noteq> b \<longrightarrow> (cmp_less cmp a b \<longleftrightarrow> \<not> cmp_less cmp b a))
     \<and> (\<forall>a \<in> A. \<forall>b \<in> A. \<forall>c \<in> A. cmp_less cmp a b \<longrightarrow> cmp_less cmp b c \<longrightarrow> cmp_less cmp a c)"

abbreviation cmp_sorted :: "('a \<Rightarrow> 'a \<Rightarrow> int option) \<Rightarrow> 'a list \<Rightarrow> bool" where
  "cmp_sorted cmp \<equiv> sorted_wrt (cmp_less cmp)"

lemma cmp_orderD:
  assumes "cmp_order cmp A"
  shows "cmp_total cmp A"
    "a \<in> A \<Longrightarrow> b \<in> A \<Longrightarrow> a \<noteq> b \<Longrightarrow> cmp_less cmp a b \<longleftrightarrow> \<not> cmp_less cmp b a"
    "a \<in> A \<Longrightarrow> b \<in> A \<Longrightarrow> c \<in> A \<Longrightarrow> cmp_less cmp a b \<Longrightarrow> cmp_less cmp b c \<Longrightarrow> cmp_less cmp a c"
  using assms unfolding cmp_order_def by blast+

lemma descend_sorted:
  assumes "rb_descend cmp x t ps = Some (Inr qs)" "cmp_order cmp A" "x \<in> A" "set (inorder t) \<subseteq> A" "x \<notin> set (inorder t)"
    "cmp_sorted cmp (inorder t)"
    "\<forall>b \<in> set (before_path ps). cmp_less cmp b x" "\<forall>b \<in> set (after_path ps). cmp_less cmp x b"
  shows "(\<forall>b \<in> set (before_path qs). cmp_less cmp b x) \<and> (\<forall>b \<in> set (after_path qs). cmp_less cmp x b)"
  using assms
proof (induction cmp x t ps rule: rb_descend.induct)
  case (1 cmp x ps) then show ?case by simp
next
  case (2 cmp x c l a r ps)
  note o = cmp_orderD[OF 2(4)]
  have xa: "x \<noteq> a" "a \<in> A" using 2(6,7) by auto
  obtain v where v: "cmp x a = Some v" "v \<noteq> 0" using o(1) 2(5) xa by (auto simp: cmp_total_def)
  then have lt: "cmp_less cmp x a \<longleftrightarrow> v < 0" by (simp add: cmp_less_def)
  consider (less) "v < 0" | (more) "0 < v" using v(2) by linarith
  then show ?case
  proof cases
    case less
    have "cmp_less cmp x b" if "b \<in> set (inorder r)" for b
      by (rule o(3)[OF 2(5) xa(2) _]) (use 2(6,8) that lt less in \<open>auto simp: sorted_wrt_append\<close>)
    then show ?thesis using 2(1)[OF v(1) less] 2(3-) v(1) less lt by (auto simp: sorted_wrt_append)
  next
    case more
    have ax: "cmp_less cmp a x" using o(2)[OF xa(2) 2(5)] xa more lt by auto
    have "cmp_less cmp b x" if "b \<in> set (inorder l)" for b
      by (rule o(3)[OF _ xa(2) 2(5) _ ax]) (use 2(6,8) that in \<open>auto simp: sorted_wrt_append\<close>)
    then show ?thesis using 2(2)[OF v(1)] 2(3-) v(1) more ax by (auto simp: sorted_wrt_append)
  qed
qed

lemma insert_sorted_list:
  assumes h: "head_ok h" and x: "x \<notin> set (rb_list h)" and o: "cmp_order cmp (insert x (set (rb_list h)))"
    and s: "cmp_sorted cmp (rb_list h)"
  obtains h' as bs where "RB_INSERT_SORTED cmp x h = Some (None, h')" "head_ok h'" "rb_list h = as @ bs"
    "rb_list h' = as @ x # bs" "cmp_sorted cmp (rb_list h')"
proof -
  have c: "\<forall>a \<in> set (rb_list h). \<exists>r. cmp x a = Some r \<and> r \<noteq> 0"
    using cmp_orderD(1)[OF o] x unfolding cmp_total_def by (metis insertCI)
  obtain h' ps where i: "RB_INSERT_SORTED cmp x h = Some (None, h')" "head_ok h'" "rb_descend cmp x (rb_root h) [] = Some (Inr ps)"
    "rb_list h = before_path ps @ after_path ps" "rb_list h' = before_path ps @ x # after_path ps"
    by (rule insert_list[where cmp = cmp, OF h x c])
  have d: "(\<forall>b \<in> set (before_path ps). cmp_less cmp b x) \<and> (\<forall>b \<in> set (after_path ps). cmp_less cmp x b)"
    by (rule descend_sorted[OF i(3) o]) (use x s in \<open>auto simp: rb_list_def\<close>)
  have "cmp_sorted cmp (rb_list h')" using s d by (auto simp: i(4,5) sorted_wrt_append)
  then show ?thesis using that i by blast
qed

fun rb_height :: "'a rb_node \<Rightarrow> nat" where
  "rb_height RB_NULL = 0"
| "rb_height (RB_NODE c l a r) = Suc (max (rb_height l) (rb_height r))"

lemma height_bheight:
  "invc t \<Longrightarrow> invh t \<Longrightarrow> rb_height t \<le> 2 * bheight t + (if is_red t then 1 else 0)"
  by (induction t) (auto split: if_splits simp: not_red)

lemma bheight_size: "invh t \<Longrightarrow> 2 ^ bheight t \<le> length (inorder t) + 1"
proof (induction t)
  case (RB_NODE c l a r)
  then have "2 ^ bheight l \<le> length (inorder l) + 1" "2 ^ bheight r \<le> length (inorder r) + 1" "bheight l = bheight r" by auto
  then show ?case by (cases c) auto
qed simp

lemma head_height:
  assumes "head_ok h"
  shows "2 ^ (rb_height (rb_root h) div 2) \<le> length (rb_list h) + 1"
proof -
  have r: "invc (rb_root h)" "invh (rb_root h)" "\<not> is_red (rb_root h)" using assms by (auto simp: head_ok_def rb_ok_def)
  have "rb_height (rb_root h) div 2 \<le> bheight (rb_root h)" using height_bheight[OF r(1,2)] r(3) by simp
  then have "(2::nat) ^ (rb_height (rb_root h) div 2) \<le> 2 ^ bheight (rb_root h)" by (rule power_increasing) simp
  then show ?thesis using bheight_size[OF r(2)] unfolding rb_list_def by linarith
qed

end
