(* ===== verification/Prop_Nodefilter_Inv.thy ===== *)
theory Prop_Nodefilter_Inv
  imports Prop_Nodefilter Redblack_Inv Prop_Outs
begin

text \<open>
  What a filtered list shows. The invariant \<open>nf_wf\<close> holds between callbacks: all nodes are inserted,
  and the children of the destination are the outputs of the nodes in the order of the tree or the
  queue. \<open>nf_ordered\<close> says that this is the order of the sort keys, or that of the source.
\<close>

section \<open>Lists\<close>

definition nf_shown :: "prop_nf \<Rightarrow> pid list" where
  "nf_shown w = List.map_filter (node_out w) (nf_out_list w)"

lemma find_map_filter: "Option.bind (find (\<lambda>m. f m \<noteq> None) xs) f = first_of (List.map_filter f xs)"
  by (induction xs) (auto simp: List.map_filter_def first_of_def)

lemma behind_split: "x \<notin> set xs \<Longrightarrow> behind x (xs @ x # ys) = ys"
  unfolding behind_def by (subst dropWhile_append2) auto

lemma place_first:
  assumes "distinct (A @ B)"
  shows "place (first_of B) x (A @ B) = A @ x # B"
  using place_next[OF assms] by (simp add: first_of_def)

lemma next_out_first:
  "nf_out_list w = A @ n # B \<Longrightarrow> n \<notin> set A \<Longrightarrow> next_out n w = first_of (List.map_filter (node_out w) B)"
  using behind_split[of n A B] find_map_filter[of "node_out w" B] by (simp add: next_out_def)

section \<open>The invariant\<close>

definition node_ok :: "prop_nf \<Rightarrow> nfnode \<Rightarrow> bool" where
  "node_ok w nd \<longleftrightarrow> nfn_inserted nd \<and> length (nfn_sk nd) = MAX_SORT_KEYS
     \<and> (\<forall>p \<in> set (nfn_preds nd). the_pred (nfnp_conf p) w \<noteq> None)
     \<and> source_child (nf_props w) (nfn_in nd) \<and> nfn_in nd \<notin> set (nf_shown w)
     \<and> (\<forall>x. nfn_out nd = Some x \<longrightarrow> outp (nf_props w) (nf_dst w) (nfn_in nd) x)"

definition nf_wf :: "prop_nf \<Rightarrow> bool" where
  "nf_wf w \<longleftrightarrow>
     tree_ok (nf_props w) \<and> distinct (nf_in w) \<and> distinct (nf_out_list w) \<and> set (nf_out_list w) = set (nf_in w)
     \<and> (nf_sorted w \<longrightarrow> head_ok (nf_out_tree w))
     \<and> (\<forall>n \<in> set (nf_in w). \<exists>nd. nf_nodes w n = Some nd \<and> node_ok w nd)
     \<and> dest (nf_props w) (nf_dst w) (nf_shown w) \<and> nf_dst w \<notin> set (nf_shown w)"

definition nf_ordered :: "prop_nf \<Rightarrow> bool" where
  "nf_ordered w \<longleftrightarrow>
     (if nf_sorted w then cmp_sorted (nf_egress_cmp w) (nf_out_list w) else nf_out_list w = nf_in w)"

text \<open>The comparison is defined on all pairs of nodes, or an order of them.\<close>

definition nf_comparable :: "prop_nf \<Rightarrow> bool" where
  "nf_comparable w \<longleftrightarrow> (nf_sorted w \<longrightarrow> cmp_total (nf_egress_cmp w) (set (nf_in w)))"

definition nf_keys_order :: "prop_nf \<Rightarrow> bool" where
  "nf_keys_order w \<longleftrightarrow> (nf_sorted w \<longrightarrow> cmp_order (nf_egress_cmp w) (set (nf_in w)))"

lemma keys_comparable: "nf_keys_order w \<Longrightarrow> nf_comparable w"
  by (auto simp: nf_keys_order_def nf_comparable_def cmp_order_def)

lemma keys_cmp_cong:
  "nf_sortkey w' = nf_sortkey w \<Longrightarrow> nf_casefold w' = nf_casefold w \<Longrightarrow> nf_ignore_the w' = nf_ignore_the w
    \<Longrightarrow> nf_sortorder w' = nf_sortorder w \<Longrightarrow> keys_cmp w' a b is = keys_cmp w a b is"
  by (induction "is") (auto split: option.split)

text \<open>What the comparison looks at.\<close>

lemma egress_cmp_cong:
  assumes "nf_sortkey w' = nf_sortkey w" "nf_casefold w' = nf_casefold w" "nf_ignore_the w' = nf_ignore_the w"
    "nf_sortorder w' = nf_sortorder w" "nf_addr w' = nf_addr w"
    "\<And>n. map_option nfn_sk (nf_nodes w' n) = map_option nfn_sk (nf_nodes w n)"
  shows "nf_egress_cmp w' = nf_egress_cmp w"
proof (intro ext)
  fix n m
  show "nf_egress_cmp w' n m = nf_egress_cmp w n m"
    using assms(6)[of n] assms(6)[of m] keys_cmp_cong[OF assms(1-4)] assms(5)
    by (cases "nf_nodes w n"; cases "nf_nodes w m"; cases "nf_nodes w' n"; cases "nf_nodes w' m")
       (auto simp: nf_egress_cmp_def)
qed

lemma egress_cmp_upd [simp]:
  "nf_egress_cmp (w\<lparr>nf_out_tree := h\<rparr>) = nf_egress_cmp w" "nf_egress_cmp (w\<lparr>nf_out_queue := q\<rparr>) = nf_egress_cmp w"
  "nf_egress_cmp (w\<lparr>nf_props := st\<rparr>) = nf_egress_cmp w" "nf_egress_cmp (w\<lparr>nf_in := ns\<rparr>) = nf_egress_cmp w"
  by (rule egress_cmp_cong; simp)+

lemma nf_wfD:
  assumes "nf_wf w"
  shows "tree_ok (nf_props w)" "distinct (nf_in w)" "distinct (nf_out_list w)" "set (nf_out_list w) = set (nf_in w)"
    "nf_sorted w \<Longrightarrow> head_ok (nf_out_tree w)" "dest (nf_props w) (nf_dst w) (nf_shown w)" "nf_dst w \<notin> set (nf_shown w)"
    "n \<in> set (nf_in w) \<Longrightarrow> \<exists>nd. nf_nodes w n = Some nd \<and> node_ok w nd" "distinct (nf_shown w)"
  using assms unfolding nf_wf_def by blast+
    (use assms tree_okD(6) in \<open>unfold nf_wf_def dest_def, metis\<close>)

lemma upd_nfn_id: "nf_nodes w n = Some nd \<Longrightarrow> f nd = nd \<Longrightarrow> upd_nfn n f w = w"
  by (auto simp: upd_nfn_def fun_eq_iff intro!: prop_nf.equality)

section \<open>Inserting\<close>

lemma find_all: "(\<And>x. x \<in> set xs \<Longrightarrow> P x) \<Longrightarrow> find P xs = first_of xs"
  by (cases xs) (auto simp: first_of_def)

text \<open>
  Taking a node out and putting it in again. In the tree it goes where the comparison leads, in the
  queue before the node that follows it in the source.
\<close>

lemma nf_reinsert:
  assumes wf: "nf_wf w" and n: "n \<in> set (nf_in w)" and c: "nf_comparable w"
  obtains w1 w2 A B where "nf_take_out n w = Some w1" "nf_put_in n w1 = Some w2"
    "remove1 n (nf_out_list w) = A @ B" "nf_out_list w2 = A @ n # B"
    "w2 = w\<lparr>nf_out_tree := nf_out_tree w2, nf_out_queue := nf_out_queue w2\<rparr>"
    "nf_sorted w \<longrightarrow> head_ok (nf_out_tree w2)"
    "nf_sorted w \<and> nf_keys_order w \<and> cmp_sorted (nf_egress_cmp w) (A @ B) \<longrightarrow> cmp_sorted (nf_egress_cmp w) (A @ n # B)"
    "\<not> nf_sorted w \<and> remove1 n (nf_out_list w) = remove1 n (nf_in w) \<longrightarrow> nf_out_list w2 = nf_in w"
proof (cases "nf_sorted w")
  case True
  note d = nf_wfD[OF wf]
  have h: "head_ok (nf_out_tree w)" "n \<in> set (rb_list (nf_out_tree w))" using d(4,5) n True by (auto simp: nf_out_list_def)
  obtain h1 where r: "RB_REMOVE n (nf_out_tree w) = Some h1" "head_ok h1" "rb_list h1 = remove1 n (rb_list (nf_out_tree w))"
    by (rule remove_list[OF h])
  have s1: "set (rb_list h1) = set (nf_in w) - {n}" using d(3,4) True by (simp add: r(3) nf_out_list_def)
  have x: "n \<notin> set (rb_list h1)" by (simp add: s1)
  have ct: "\<forall>a \<in> set (rb_list h1). \<exists>r. nf_egress_cmp w n a = Some r \<and> r \<noteq> 0"
    using c True n unfolding nf_comparable_def cmp_total_def s1 by auto
  obtain h2 ps where i: "RB_INSERT_SORTED (nf_egress_cmp w) n h1 = Some (None, h2)" "head_ok h2"
    "rb_descend (nf_egress_cmp w) n (rb_root h1) [] = Some (Inr ps)"
    "rb_list h1 = before_path ps @ after_path ps" "rb_list h2 = before_path ps @ n # after_path ps"
    by (rule insert_list[where cmp = "nf_egress_cmp w", OF r(2) x ct])
  have o: "cmp_sorted (nf_egress_cmp w) (before_path ps @ n # after_path ps)"
    if k: "nf_keys_order w" and s: "cmp_sorted (nf_egress_cmp w) (before_path ps @ after_path ps)"
  proof -
    have o: "cmp_order (nf_egress_cmp w) (set (nf_in w))" using k True by (simp add: nf_keys_order_def)
    have "(\<forall>b \<in> set (before_path ps). cmp_less (nf_egress_cmp w) b n) \<and> (\<forall>b \<in> set (after_path ps). cmp_less (nf_egress_cmp w) n b)"
      by (rule descend_sorted[OF i(3) o n]) (use s1 x s i(4) in \<open>auto simp: rb_list_def\<close>)
    then show ?thesis using s by (auto simp: sorted_wrt_append)
  qed
  show ?thesis
    by (rule that[of "w\<lparr>nf_out_tree := h1\<rparr>" "w\<lparr>nf_out_tree := h2\<rparr>" "before_path ps" "after_path ps"])
       (use True r i o in \<open>auto simp: nf_take_out_def nf_put_in_def nf_out_list_def\<close>)
next
  case False
  note d = nf_wfD[OF wf]
  let ?q = "remove1 n (nf_out_queue w)"
  obtain C D where cd: "nf_in w = C @ n # D" "n \<notin> set C" "n \<notin> set D"
    using split_list[OF n] d(2) by auto
  have ins: "is_inserted (w\<lparr>nf_out_queue := ?q\<rparr>) m" if "m \<in> set D" for m
    using d(8)[of m] that cd by (auto simp: is_inserted_def node_ok_def)
  have f: "find (is_inserted (w\<lparr>nf_out_queue := ?q\<rparr>)) (behind n (nf_in w)) = first_of D"
    unfolding cd(1) behind_split[OF cd(2)] by (rule find_all) (use ins in blast)
  have q: "distinct (nf_out_queue w)" "set (nf_out_queue w) = set (nf_in w)" using d(3,4) False by (simp_all add: nf_out_list_def)
  have t: "nf_take_out n w = Some (w\<lparr>nf_out_queue := ?q\<rparr>)" using False n q(2) by (simp add: nf_take_out_def)
  show ?thesis
  proof (cases D)
    case Nil
    show ?thesis
      by (rule that[of "w\<lparr>nf_out_queue := ?q\<rparr>" "w\<lparr>nf_out_queue := ?q @ [n]\<rparr>" ?q "[]"])
         (use False t f Nil cd in \<open>auto simp: nf_put_in_def nf_out_list_def remove1_append\<close>)
  next
    case (Cons b D')
    then have b: "b \<in> set ?q" using q cd by auto
    then obtain A B where ab: "?q = A @ b # B" "b \<notin> set A" using split_list_first by metis
    have r: "remove1 n (nf_in w) = C @ b # D'" "b \<notin> set C" using cd Cons d(2) by (auto simp: remove1_append)
    have "A = C \<and> B = D'" if "remove1 n (nf_out_queue w) = remove1 n (nf_in w)"
      by (rule split_eq[OF _ ab(2) r(2)]) (use that ab(1) r(1) in simp)
    then have e: "remove1 n (nf_out_queue w) = remove1 n (nf_in w) \<Longrightarrow> A @ n # b # B = nf_in w" using cd Cons by auto
    show ?thesis
      by (rule that[of "w\<lparr>nf_out_queue := ?q\<rparr>" "w\<lparr>nf_out_queue := A @ n # b # B\<rparr>" A "b # B"])
         (use False t f Cons ab e in \<open>simp_all add: nf_put_in_def nf_out_list_def insert_before_in first_of_def\<close>)
  qed
qed

text \<open>Whether a node is well-formed depends on the destination and on what is shown.\<close>

lemma node_ok_kept:
  assumes nd: "node_ok w nd" and t: "tree_ok (nf_props w)"
    and o: "only D (nf_props w) (nf_props w')" and D: "set_option (nfn_out nd) \<inter> D = {}"
    and p: "nf_preds w' = nf_preds w" "nf_dst w' = nf_dst w"
    and s: "set (nf_shown w') \<subseteq> set (nf_shown w) \<union> {pnext (nf_props w)..}"
    and l: "type_of (nf_props w') (nfn_in nd) \<noteq> PROP_ZOMBIE"
      "\<And>y. y < pnext (nf_props w) \<Longrightarrow> hp_originator (props (nf_props w') y) = hp_originator (props (nf_props w) y)
        \<or> hp_originator (props (nf_props w') y) = None"
  shows "node_ok w' nd"
proof -
  have 1: "source_child (nf_props w') (nfn_in nd)"
    by (rule source_child_cut[OF t onlyD(2)[OF o] _ l(1) l(2)]) (use nd in \<open>auto simp: node_ok_def\<close>)
  have 2: "outp (nf_props w') (nf_dst w') (nfn_in nd) x" if "nfn_out nd = Some x" for x
    using outp_only[OF o, of x] nd D that p(2) by (auto simp: node_ok_def)
  have 3: "nfn_in nd < pnext (nf_props w)" using nd by (auto simp: node_ok_def source_child_def)
  show ?thesis using nd 1 2 3 s by (auto simp: node_ok_def the_pred_def p)
qed

lemma shown_split:
  assumes "nf_wf w" "n \<in> set (nf_in w)" "remove1 n (nf_out_list w) = A @ B"
  shows "List.map_filter (node_out w) (A @ B) = (case node_out w n of None \<Rightarrow> nf_shown w | Some x \<Rightarrow> remove1 x (nf_shown w))"
    "set (A @ B) = set (nf_in w) - {n}" "distinct (A @ B)" "n \<notin> set A" "n \<notin> set B"
proof -
  note d = nf_wfD[OF assms(1)]
  have "n \<in> set (nf_out_list w)" using d(4) assms(2) by simp
  then obtain C D where cd: "nf_out_list w = C @ n # D" "n \<notin> set C" "n \<notin> set D" using split_list d(3) by fastforce
  then have ab: "A @ B = C @ D" using assms(3) by (simp add: remove1_append)
  show "set (A @ B) = set (nf_in w) - {n}" "distinct (A @ B)" using ab cd d(3,4) by auto
  then show "n \<notin> set A" "n \<notin> set B" by auto
  show "List.map_filter (node_out w) (A @ B) = (case node_out w n of None \<Rightarrow> nf_shown w | Some x \<Rightarrow> remove1 x (nf_shown w))"
    unfolding ab using d(9) unfolding nf_shown_def cd(1)
    by (auto simp: List.map_filter_simps remove1_append split: option.split)
qed

lemma nf_insert_ok:
  assumes wf: "nf_wf w" and n: "n \<in> set (nf_in w)" and c: "nf_comparable w"
  obtains w' where "nf_insert_node n w = Some w'" "nf_wf w'"
    "w' = w\<lparr>nf_out_tree := nf_out_tree w', nf_out_queue := nf_out_queue w', nf_props := nf_props w'\<rparr>"
    "nf_sorted w \<and> nf_keys_order w \<and> cmp_sorted (nf_egress_cmp w) (remove1 n (nf_out_list w)) \<longrightarrow> nf_ordered w'"
    "\<not> nf_sorted w \<and> remove1 n (nf_out_list w) = remove1 n (nf_in w) \<longrightarrow> nf_ordered w'"
proof -
  note d = nf_wfD[OF wf]
  obtain w1 w2 A B where r: "nf_take_out n w = Some w1" "nf_put_in n w1 = Some w2"
    and ab: "remove1 n (nf_out_list w) = A @ B" "nf_out_list w2 = A @ n # B"
    and w2: "w2 = w\<lparr>nf_out_tree := nf_out_tree w2, nf_out_queue := nf_out_queue w2\<rparr>"
    and h: "nf_sorted w \<longrightarrow> head_ok (nf_out_tree w2)"
    and o: "nf_sorted w \<and> nf_keys_order w \<and> cmp_sorted (nf_egress_cmp w) (A @ B) \<longrightarrow> cmp_sorted (nf_egress_cmp w) (A @ n # B)"
    and q: "\<not> nf_sorted w \<and> remove1 n (nf_out_list w) = remove1 n (nf_in w) \<longrightarrow> nf_out_list w2 = nf_in w"
    by (rule nf_reinsert[OF assms])
  obtain nd where nd: "nf_nodes w n = Some nd" "node_ok w nd" using d(8)[OF n] by blast
  note sp = shown_split[OF wf n ab(1)]
  have f2: "nf_nodes w2 = nf_nodes w" "nf_props w2 = nf_props w" "nf_dst w2 = nf_dst w" "nf_in w2 = nf_in w"
    "nf_preds w2 = nf_preds w" "nf_sorted w2 = nf_sorted w" "nf_dstsub w2 = nf_dstsub w"
    by (subst w2, simp)+
  have no: "node_out w2 = node_out w" by (simp add: node_out_def fun_eq_iff f2)
  let ?a = "List.map_filter (node_out w) A" and ?b = "List.map_filter (node_out w) B"
  have sh2: "nf_shown w2 = ?a @ opt_list (node_out w n) @ ?b"
    by (simp add: nf_shown_def ab(2) no List.map_filter_simps opt_list_def split: option.split)
  have nx: "next_out n w2 = first_of ?b"
    using next_out_first[OF ab(2) sp(4)] by (simp add: no)
  have st: "nf_nodes w1 = nf_nodes w"
    using r(1) by (auto simp: nf_take_out_def split: if_splits)
  have i: "nfn_inserted nd" using nd(2) by (simp add: node_ok_def)
  have e: "upd_nfn n (\<lambda>x. x\<lparr>nfn_inserted := True\<rparr>) w1 = w1"
    by (rule upd_nfn_id[of _ _ nd]) (use nd i st in simp_all)
  have run: "nf_insert_node n w = (case nfn_out nd of None \<Rightarrow> Some w2
      | Some x \<Rightarrow> nf_run (prop_move0 x (first_of ?b) (nf_dstsub w)) w2)"
    using nd(1) i r e by (simp add: nf_insert_node_def nx f2 split: option.split)
  have "set (nf_out_list w) = insert n (set A \<union> set B)" using d(4) n sp(2) by auto
  then have mem: "set (?a @ opt_list (node_out w n) @ ?b) = set (nf_shown w)"
    by (auto simp: nf_shown_def map_filter_set opt_list_def split: option.splits)
  have "\<exists>st'. nf_insert_node n w = Some (w2\<lparr>nf_props := st'\<rparr>) \<and> only {nf_dst w} (nf_props w) st'
      \<and> dest st' (nf_dst w) (nf_shown w2) \<and> (\<forall>y. hp_originator (props st' y) = hp_originator (props (nf_props w) y))"
  proof (cases "nfn_out nd")
    case None
    then have "node_out w n = None" using nd(1) by (simp add: node_out_def)
    then have "nf_shown w2 = nf_shown w" using sp(1) sh2 by (simp add: opt_list_def)
    moreover have "w2\<lparr>nf_props := nf_props w\<rparr> = w2" using f2(2) by (intro prop_nf.equality) simp_all
    ultimately show ?thesis using run None d(1,6) by (intro exI[of _ "nf_props w"]) (simp add: only_def)
  next
    case (Some x)
    then have x: "node_out w n = Some x" using nd(1) by (simp add: node_out_def)
    have xin: "x \<in> set (nf_shown w)" using x d(4) n by (auto simp: nf_shown_def map_filter_set)
    have rm: "?a @ ?b = remove1 x (nf_shown w)" using sp(1) x by simp
    have xn: "x \<notin> set (?a @ ?b)" "distinct (?a @ ?b)" using d(9) rm by simp_all
    have b: "y \<in> set (nf_shown w) \<and> y \<noteq> x" if "first_of ?b = Some y" for y
      using first_of_in(1)[OF that] mem xn(1) by auto
    obtain st' where m: "prop_move0 x (first_of ?b) (nf_dstsub w) (nf_props w) = Some st'"
      "dest st' (nf_dst w) (place (first_of ?b) x (remove1 x (nf_shown w)))" "only {nf_dst w} (nf_props w) st'"
      "\<forall>y. hp_originator (props st' y) = hp_originator (props (nf_props w) y)"
      using shift[OF d(1,6) xin, of "first_of ?b" "nf_dstsub w"] b by blast
    have "place (first_of ?b) x (remove1 x (nf_shown w)) = nf_shown w2"
      using place_first[OF xn(2), of x] rm sh2 x by (simp add: opt_list_def)
    then show ?thesis using run Some m by (intro exI[of _ st']) (simp add: nf_run_def f2)
  qed
  then obtain st' where w': "nf_insert_node n w = Some (w2\<lparr>nf_props := st'\<rparr>)" and on: "only {nf_dst w} (nf_props w) st'"
    and ds: "dest st' (nf_dst w) (nf_shown w2)" and og: "\<forall>y. hp_originator (props st' y) = hp_originator (props (nf_props w) y)"
    by blast
  let ?w = "w2\<lparr>nf_props := st'\<rparr>"
  have no2: "node_out ?w = node_out w2" by (simp add: node_out_def fun_eq_iff)
  have sh: "nf_shown ?w = nf_shown w2" "nf_out_list ?w = nf_out_list w2" "node_out ?w = node_out w2"
    by (simp_all only: nf_shown_def no2) (simp_all add: nf_out_list_def)
  have sets: "set (nf_shown ?w) = set (nf_shown w)" using mem sh2 sh(1) by simp
  have nodes: "\<exists>nd. nf_nodes ?w m = Some nd \<and> node_ok ?w nd" if m: "m \<in> set (nf_in w)" for m
  proof -
    obtain nm where nm: "nf_nodes w m = Some nm" "node_ok w nm" using d(8)[OF m] by blast
    have "type_of st' (nfn_in nm) \<noteq> PROP_ZOMBIE"
    proof (cases "nfn_in nm = nf_dst w")
      case True then show ?thesis using ds by (auto simp: dest_def)
    next
      case False
      then show ?thesis using same_atD(1)[OF onlyD(3)[OF on]] nm(2) by (auto simp: node_ok_def source_child_def)
    qed
    moreover have "set_option (nfn_out nm) \<inter> {nf_dst w} = {}"
      using d(4,7) m nm(1) by (auto simp: nf_shown_def map_filter_set node_out_def)
    ultimately have "node_ok ?w nm"
      by (intro node_ok_kept[OF nm(2) d(1), of "{nf_dst w}"]) (use on og sets f2 in auto)
    then show ?thesis using nm(1) f2(1) by simp
  qed
  have "nf_wf ?w" unfolding nf_wf_def
    using onlyD(1)[OF on] d(2,7) sp(2,3) n nodes ds h ab(2) sets sh f2 by auto
  moreover have "?w = w\<lparr>nf_out_tree := nf_out_tree ?w, nf_out_queue := nf_out_queue ?w, nf_props := nf_props ?w\<rparr>"
    by (subst (1) w2) simp
  moreover have "nf_egress_cmp ?w = nf_egress_cmp w" by (subst w2) simp
  ultimately show ?thesis
    using that[OF w'] o q ab sh(2) f2(4,6) unfolding nf_ordered_def by auto
qed

section \<open>Showing and hiding\<close>

text \<open>A node of the list, with what is shown before and behind it.\<close>

lemma node_split:
  assumes "nf_wf w" "n \<in> set (nf_in w)"
  obtains A B where "nf_out_list w = A @ n # B" "n \<notin> set A" "n \<notin> set B"
    "nf_shown w = List.map_filter (node_out w) A @ opt_list (node_out w n) @ List.map_filter (node_out w) B"
proof -
  note d = nf_wfD[OF assms(1)]
  have "n \<in> set (nf_out_list w)" using d(4) assms(2) by simp
  then obtain A B where ab: "nf_out_list w = A @ n # B" "n \<notin> set A" "n \<notin> set B" using split_list d(3) by fastforce
  show ?thesis
    by (rule that[OF ab]) (simp add: nf_shown_def ab(1) List.map_filter_simps opt_list_def split: option.split)
qed

definition same_list :: "nat \<Rightarrow> prop_nf \<Rightarrow> prop_nf \<Rightarrow> bool" where
  "same_list n w w' \<longleftrightarrow>
     w' = w\<lparr>nf_nodes := nf_nodes w', nf_props := nf_props w'\<rparr>
     \<and> (\<forall>m. m \<noteq> n \<longrightarrow> nf_nodes w' m = nf_nodes w m)
     \<and> map_option (nfn_out_update (\<lambda>_. None)) (nf_nodes w' n) = map_option (nfn_out_update (\<lambda>_. None)) (nf_nodes w n)"

lemma same_listD:
  assumes "same_list n w w'"
  shows "nf_in w' = nf_in w" "nf_out_list w' = nf_out_list w" "nf_sorted w' = nf_sorted w" "nf_out_tree w' = nf_out_tree w"
    "nf_dst w' = nf_dst w" "nf_preds w' = nf_preds w" "nf_egress_cmp w' = nf_egress_cmp w"
    "nf_ordered w' = nf_ordered w" "m \<noteq> n \<Longrightarrow> nf_nodes w' m = nf_nodes w m" "nf_filter w' = nf_filter w"
    "nf_sortkey w' = nf_sortkey w" "nf_sort_hide_on_missing w' = nf_sort_hide_on_missing w"
proof -
  have w: "w' = w\<lparr>nf_nodes := nf_nodes w', nf_props := nf_props w'\<rparr>" using assms by (simp add: same_list_def)
  show 1: "nf_in w' = nf_in w" "nf_out_list w' = nf_out_list w" "nf_sorted w' = nf_sorted w" "nf_out_tree w' = nf_out_tree w"
    "nf_dst w' = nf_dst w" "nf_preds w' = nf_preds w" "nf_filter w' = nf_filter w"
    "nf_sortkey w' = nf_sortkey w" "nf_sort_hide_on_missing w' = nf_sort_hide_on_missing w"
    by (subst w, simp add: nf_out_list_def)+
  show 3: "m \<noteq> n \<Longrightarrow> nf_nodes w' m = nf_nodes w m" for m using assms by (simp add: same_list_def)
  have sk: "nfn_sk y = nfn_sk (y\<lparr>nfn_out := None\<rparr>)" for y by simp
  have "map_option nfn_sk (nf_nodes w' m) = map_option nfn_sk (nf_nodes w m)" for m
  proof (cases "m = n")
    case True
    then show ?thesis using assms unfolding same_list_def
      by (cases "nf_nodes w' n"; cases "nf_nodes w n") (auto, metis sk)
  qed (use 3 in simp)
  then show 2: "nf_egress_cmp w' = nf_egress_cmp w"
    by (intro egress_cmp_cong) ((subst w, simp)+)
  show "nf_ordered w' = nf_ordered w" by (simp add: nf_ordered_def 1 2)
qed

lemma node_ok_out:
  "node_ok w nd \<Longrightarrow> (\<And>x. xo = Some x \<Longrightarrow> outp (nf_props w) (nf_dst w) (nfn_in nd) x) \<Longrightarrow> node_ok w (nd\<lparr>nfn_out := xo\<rparr>)"
  by (simp add: node_ok_def)

lemma nf_egress_ok:
  assumes wf: "nf_wf w" and n: "n \<in> set (nf_in w)" and nd: "nf_nodes w n = Some nd" and en: "nf_enabled nd w = Some en"
  obtains w' where "nf_update_egress n w = Some w'" "nf_wf w'" "same_list n w w'" "node_out w' n \<noteq> None \<longleftrightarrow> en"
proof -
  note res = that and d = nf_wfD[OF wf]
  have ok: "node_ok w nd" using d(8)[OF n] nd by auto
  then have p: "source_child (nf_props w) (nfn_in nd)" "nfn_in nd \<notin> set (nf_shown w)" by (auto simp: node_ok_def)
  obtain A B where ab: "nf_out_list w = A @ n # B" "n \<notin> set A" "n \<notin> set B"
    and sh: "nf_shown w = List.map_filter (node_out w) A @ opt_list (node_out w n) @ List.map_filter (node_out w) B"
    by (rule node_split[OF wf n])
  let ?a = "List.map_filter (node_out w) A" and ?b = "List.map_filter (node_out w) B" and ?p = "nfn_in nd"
  have no: "node_out w n = nfn_out nd" by (simp add: node_out_def nd)
  \<comment> \<open>the list after the output of the node has become \<open>xo\<close>\<close>
  have fin: thesis
    if r: "nf_update_egress n w = Some w'"
      and w': "w' = (upd_nfn n (\<lambda>y. y\<lparr>nfn_out := xo\<rparr>) w)\<lparr>nf_props := st'\<rparr>"
      and on: "only D (nf_props w) st'" and D: "\<forall>m \<in> set (nf_in w). m \<noteq> n \<longrightarrow> set_option (node_out w m) \<inter> D = {}"
      and s': "dest st' (nf_dst w) (?a @ opt_list xo @ ?b)" "nf_dst w \<notin> set (opt_list xo)"
      and xo: "\<And>x. xo = Some x \<Longrightarrow> outp st' (nf_dst w) ?p x \<and> pnext (nf_props w) \<le> x" and e: "xo \<noteq> None \<longleftrightarrow> en"
      and l: "\<And>m nm. m \<in> set (nf_in w) \<Longrightarrow> nf_nodes w m = Some nm \<Longrightarrow> type_of st' (nfn_in nm) \<noteq> PROP_ZOMBIE"
        "\<And>y. y < pnext (nf_props w) \<Longrightarrow> hp_originator (props st' y) = hp_originator (props (nf_props w) y)
          \<or> hp_originator (props st' y) = None"
    for w' xo st' D
  proof -
    have f: "nf_in w' = nf_in w" "nf_out_list w' = nf_out_list w" "nf_sorted w' = nf_sorted w" "nf_out_tree w' = nf_out_tree w"
      "nf_dst w' = nf_dst w" "nf_preds w' = nf_preds w" "nf_props w' = st'"
      "nf_nodes w' = (nf_nodes w)(n := Some (nd\<lparr>nfn_out := xo\<rparr>))"
      using nd by (simp_all add: w' upd_nfn_def nf_out_list_def)
    have o': "node_out w' m = (if m = n then xo else node_out w m)" for m by (simp add: node_out_def f(8))
    have mf: "List.map_filter (node_out w') A = ?a" "List.map_filter (node_out w') B = ?b"
      using ab(2,3) o' by (auto intro!: map_filter_cong)
    have sh': "nf_shown w' = ?a @ opt_list xo @ ?b"
      by (simp add: nf_shown_def f(2) ab(1) mf List.map_filter_simps o' opt_list_def split: option.split)
    have sub: "set (nf_shown w') \<subseteq> set (nf_shown w) \<union> {pnext (nf_props w)..}"
      using xo by (auto simp: sh' sh opt_list_def split: option.splits)
    have nodes: "\<exists>nd. nf_nodes w' m = Some nd \<and> node_ok w' nd" if m: "m \<in> set (nf_in w')" for m
    proof -
      obtain nm where nm: "nf_nodes w m = Some nm" "node_ok w nm" using d(8)[of m] m f(1) by auto
      have t: "type_of (nf_props w') (nfn_in nm) \<noteq> PROP_ZOMBIE" using l(1)[of m nm] m f(1,7) nm by simp
      show ?thesis
      proof (cases "m = n")
        case False
        have "node_ok w' nm"
          by (rule node_ok_kept[where D = D, OF nm(2) d(1)]) (use on D False m nm(1) f sub t l(2) in \<open>auto simp: node_out_def\<close>)
        then show ?thesis using nm(1) False f(8) by simp
      next
        case True
        have "node_ok w (nd\<lparr>nfn_out := None\<rparr>)" by (rule node_ok_out[OF ok]) simp
        then have "node_ok w' (nd\<lparr>nfn_out := None\<rparr>)"
          by (rule node_ok_kept[where D = D, OF _ d(1)]) (use on f sub t l(2) True nm nd in auto)
        then have "node_ok w' (nd\<lparr>nfn_out := None\<rparr>\<lparr>nfn_out := xo\<rparr>)"
          by (rule node_ok_out) (use xo f(5,7) in auto)
        then show ?thesis using True f(8) by simp
      qed
    qed
    have "nf_wf w'" unfolding nf_wf_def
      using onlyD(1)[OF on] d(2-5,7) nodes s' f sh sh' by auto
    moreover have "same_list n w w'"
      by (simp add: same_list_def f(8) nd w' upd_nfn_def)
    moreover have "node_out w' n \<noteq> None \<longleftrightarrow> en" using o' e by simp
    ultimately show thesis using res[OF r] by blast
  qed
  consider (same) "en \<noteq> (nfn_out nd = None)" | (up) "en" "nfn_out nd = None" | (down) x where "\<not> en" "nfn_out nd = Some x"
    by (cases en; cases "nfn_out nd") auto
  then show ?thesis
  proof cases
    case same
    then have "nf_update_egress n w = Some w" using nd en by (simp add: nf_update_egress_def)
    moreover have "same_list n w w" by (simp add: same_list_def)
    moreover have "node_out w n \<noteq> None \<longleftrightarrow> en" using same no by auto
    ultimately show ?thesis using res wf by blast
  next
    case up
    let ?x = "pnext (nf_props w)" and ?nm = "hp_name (props (nf_props w) ?p)"
    have s0: "nf_shown w = ?a @ ?b" using sh no up by (simp add: opt_list_def)
    obtain r where fo: "follow_originator (Suc ?x) (nf_props w) ?p = Some r" "?p < ?x" "type_of (nf_props w) ?p \<noteq> PROP_ZOMBIE"
      using p(1) by (auto simp: source_child_def)
    have bin: "y \<in> set (nf_shown w)" if "first_of ?b = Some y" for y using first_of_in(1)[OF that] s0 by simp
    obtain st2 st3 where
      l: "prop_link0 ?p ?x None PROP_LINK_NORMAL (snd (prop_make ?nm True None (nf_props w))) = Some st2"
      and s: "prop_set_parent0 ?x (nf_dst w) (first_of ?b) (nf_dstsub w) st2 = Some (True, st3)"
      and f: "dest st3 (nf_dst w) (place (first_of ?b) ?x (nf_shown w))" "outp st3 (nf_dst w) ?p ?x"
        "only {?p, nf_dst w} (nf_props w) st3"
        "\<forall>x < ?x. hp_originator (props st3 x) = hp_originator (props (nf_props w) x)
           \<and> (type_of (nf_props w) x \<noteq> PROP_ZOMBIE \<longrightarrow> type_of st3 x \<noteq> PROP_ZOMBIE)"
      using put[OF d(1,6) fo(2,3,1), of "first_of ?b" ?nm True "nf_dstsub w"] bin by blast
    have m: "fst (prop_make ?nm True None (nf_props w)) = ?x" by (simp add: prop_make_def)
    let ?w1 = "upd_nfn n (\<lambda>y. y\<lparr>nfn_out := Some ?x\<rparr>) (w\<lparr>nf_props := st2\<rparr>)"
    have o1: "node_out ?w1 k = (if k = n then Some ?x else node_out w k)" for k
      by (simp add: node_out_def upd_nfn_def nd)
    have "List.map_filter (node_out ?w1) B = ?b" using ab(3) o1 by (auto intro!: map_filter_cong)
    moreover have "nf_out_list ?w1 = A @ n # B" using ab(1) by (simp add: upd_nfn_def nf_out_list_def split: if_splits)
    ultimately have nx: "next_out n ?w1 = first_of ?b"
      using next_out_first[OF _ ab(2), of ?w1 B] by simp
    have r: "nf_update_egress n w = Some ((upd_nfn n (\<lambda>y. y\<lparr>nfn_out := Some ?x\<rparr>) w)\<lparr>nf_props := st3\<rparr>)"
      using nd en up l s m nx
      by (cases "prop_make ?nm True None (nf_props w)") (simp add: nf_update_egress_def Let_def nf_run_def upd_nfn_def)
    have outs: "set_option (node_out w k) \<inter> {?p, nf_dst w} = {}" if k: "k \<in> set (nf_in w)" for k
    proof -
      have "set_option (node_out w k) \<subseteq> set (nf_shown w)" using k d(4) by (auto simp: nf_shown_def map_filter_set)
      then show ?thesis using p(2) d(7) by auto
    qed
    have pl: "place (first_of ?b) ?x (nf_shown w) = ?a @ ?x # ?b"
      unfolding s0 by (rule place_first) (use d(9) s0 in simp)
    show ?thesis
    proof (rule fin[OF r refl f(3)])
      show "dest st3 (nf_dst w) (?a @ opt_list (Some ?x) @ ?b)" using f(1) pl by (simp add: opt_list_def)
      show "nf_dst w \<notin> set (opt_list (Some ?x))" using d(6) by (simp add: opt_list_def dest_def)
      show "type_of st3 (nfn_in nm) \<noteq> PROP_ZOMBIE" if "m \<in> set (nf_in w)" "nf_nodes w m = Some nm" for m nm
      proof -
        have "source_child (nf_props w) (nfn_in nm)" using d(8)[OF that(1)] that(2) by (auto simp: node_ok_def)
        then show ?thesis using f(4) by (simp add: source_child_def)
      qed
    qed (use up outs f(2,4) in auto)
  next
    case (down x)
    have x: "outp (nf_props w) (nf_dst w) ?p x" "x \<in> set (nf_shown w)" using ok down sh no by (auto simp: node_ok_def opt_list_def)
    have xd: "x \<noteq> nf_dst w" "?p \<noteq> x" using x(2) d(7) p(2) by auto
    obtain st' where st: "destroy_now x (nf_props w) = Some (True, st')" "dest st' (nf_dst w) (remove1 x (nf_shown w))"
      "only {x, nf_dst w, ?p} (nf_props w) st'"
      "\<forall>y. y \<noteq> x \<longrightarrow> hp_originator (props st' y) = hp_originator (props (nf_props w) y)"
      "hp_originator (props st' x) = None" "\<forall>y. y \<noteq> x \<longrightarrow> y \<noteq> nf_dst w \<longrightarrow> type_of st' y = type_of (nf_props w) y"
      using drop[OF d(1,6) x xd] by blast
    have r: "nf_update_egress n w = Some ((upd_nfn n (\<lambda>y. y\<lparr>nfn_out := None\<rparr>) w)\<lparr>nf_props := st'\<rparr>)"
      using nd en down st(1) by (simp add: nf_update_egress_def nf_run_def upd_nfn_def)
    have s0: "nf_shown w = ?a @ x # ?b" using sh no down by (simp add: opt_list_def)
    have rm: "remove1 x (nf_shown w) = ?a @ ?b" using d(9) by (simp add: s0 remove1_append)
    show ?thesis
    proof (rule fin[OF r refl st(3)])
      show "dest st' (nf_dst w) (?a @ opt_list None @ ?b)" using st(2) rm by (simp add: opt_list_def)
      show "\<forall>m \<in> set (nf_in w). m \<noteq> n \<longrightarrow> set_option (node_out w m) \<inter> {x, nf_dst w, ?p} = {}"
      proof (intro ballI impI)
        fix m assume m: "m \<in> set (nf_in w)" "m \<noteq> n"
        have "z \<noteq> x" if "node_out w m = Some z" for z
          using map_filter_inj[of "node_out w" "nf_out_list w" m n x] d(3,4,9) m n that no down by (auto simp: nf_shown_def)
        moreover have "set_option (node_out w m) \<subseteq> set (nf_shown w)" using m d(4) by (auto simp: nf_shown_def map_filter_set)
        ultimately show "set_option (node_out w m) \<inter> {x, nf_dst w, ?p} = {}" using p(2) d(7) by auto
      qed
      show "type_of st' (nfn_in nm) \<noteq> PROP_ZOMBIE" if "m \<in> set (nf_in w)" "nf_nodes w m = Some nm" for m nm
      proof -
        have q: "source_child (nf_props w) (nfn_in nm)" "nfn_in nm \<noteq> x" using d(8)[OF that(1)] that(2) x(2) by (auto simp: node_ok_def)
        show ?thesis
        proof (cases "nfn_in nm = nf_dst w")
          case True then show ?thesis using st(2) by (auto simp: dest_def)
        next
          case False then show ?thesis using st(6) q by (simp add: source_child_def)
        qed
      qed
      show "hp_originator (props st' y) = hp_originator (props (nf_props w) y) \<or> hp_originator (props st' y) = None" for y
        using st(4,5) by (cases "y = x") auto
    qed (use down in \<open>auto simp: opt_list_def\<close>)
  qed
qed

section \<open>Callbacks\<close>

text \<open>Without a filter text, whether a node is to be shown depends on its keys and predicates.\<close>

definition enabled_inputs :: "prop_nf \<Rightarrow> string option list \<times> bool list \<times> prop_nf_pred list" where
  "enabled_inputs w = (nf_sortkey w, nf_sort_hide_on_missing w, nf_preds w)"

lemma eval_preds_cong: "nf_preds w' = nf_preds w \<Longrightarrow> eval_preds w' ps = eval_preds w ps"
  by (induction ps) (auto simp: pred_rejects_def the_pred_def split: option.split bool.split)

lemma enabled_cong:
  assumes "nf_filter w = None" "nf_filter w' = None" "enabled_inputs w' = enabled_inputs w"
    "nfn_sk nd' = nfn_sk nd" "nfn_preds nd' = nfn_preds nd"
  shows "nf_enabled nd' w' = nf_enabled nd w"
  using assms eval_preds_cong[of w' w] by (simp add: nf_enabled_def enabled_inputs_def)

lemma eval_preds_defined: "(\<forall>p \<in> set ps. the_pred (nfnp_conf p) w \<noteq> None) \<Longrightarrow> eval_preds w ps \<noteq> None"
  by (induction ps) (auto simp: pred_rejects_def split: option.split bool.split)

lemma enabled_defined: "nf_filter w = None \<Longrightarrow> node_ok w nd \<Longrightarrow> \<exists>en. nf_enabled nd w = Some en"
  using eval_preds_defined[of "nfn_preds nd" w] by (auto simp: nf_enabled_def node_ok_def)

definition node_right :: "prop_nf \<Rightarrow> nat \<Rightarrow> bool" where
  "node_right w n \<longleftrightarrow> (case nf_nodes w n of None \<Rightarrow> False
     | Some nd \<Rightarrow> (nfn_out nd \<noteq> None) = (nf_enabled nd w = Some True))"

text \<open>The list shows what it should, in order.\<close>

definition nf_view_ok :: "prop_nf \<Rightarrow> bool" where
  "nf_view_ok w \<longleftrightarrow> nf_wf w \<and> nf_ordered w \<and> nf_filter w = None \<and> (\<forall>n \<in> set (nf_in w). node_right w n)"

lemma egress_right:
  assumes wf: "nf_wf w" and o: "nf_ordered w" and f: "nf_filter w = None" and n: "n \<in> set (nf_in w)"
  obtains w' where "nf_update_egress n w = Some w'" "nf_wf w'" "nf_ordered w'" "same_list n w w'" "node_right w' n"
    "nf_filter w' = None" "\<forall>m. m \<noteq> n \<longrightarrow> node_right w' m = node_right w m" "enabled_inputs w' = enabled_inputs w"
proof -
  obtain nd where nd: "nf_nodes w n = Some nd" "node_ok w nd" using nf_wfD(8)[OF wf n] by blast
  obtain en where en: "nf_enabled nd w = Some en" using enabled_defined[OF f nd(2)] by blast
  obtain w' where w': "nf_update_egress n w = Some w'" "nf_wf w'" "same_list n w w'" "node_out w' n \<noteq> None \<longleftrightarrow> en"
    by (rule nf_egress_ok[OF wf n nd(1) en])
  note sl = same_listD[OF w'(3)]
  have e: "enabled_inputs w' = enabled_inputs w" using sl by (simp add: enabled_inputs_def)
  have f': "nf_filter w' = None" using sl(10) f by simp
  obtain nd' where nd': "nf_nodes w' n = Some nd'" "nd'\<lparr>nfn_out := None\<rparr> = nd\<lparr>nfn_out := None\<rparr>"
    using w'(3) nd(1) by (auto simp: same_list_def)
  have "nfn_sk nd' = nfn_sk nd" "nfn_preds nd' = nfn_preds nd"
    using arg_cong[OF nd'(2), of nfn_sk] arg_cong[OF nd'(2), of nfn_preds] by simp_all
  from enabled_cong[OF f f' e this] have "node_right w' n" using w'(4) nd'(1) en by (auto simp: node_right_def node_out_def)
  moreover have "node_right w' m = node_right w m" if "m \<noteq> n" for m
    using sl(9)[OF that] enabled_cong[OF f f' e] by (auto simp: node_right_def split: option.split)
  ultimately show ?thesis using that[OF w'(1,2) _ w'(3)] sl(8) o f' e by blast
qed

lemma egress_all:
  assumes "nf_wf w" "nf_ordered w" "nf_filter w = None" "set ns \<subseteq> set (nf_in w)"
    "\<forall>n \<in> set (nf_in w) - set ns. node_right w n"
  shows "\<exists>w'. ofold nf_update_egress ns w = Some w' \<and> nf_view_ok w' \<and> nf_in w' = nf_in w"
  using assms
proof (induction ns arbitrary: w)
  case Nil then show ?case by (simp add: nf_view_ok_def)
next
  case (Cons n ns)
  then have n: "n \<in> set (nf_in w)" by simp
  obtain w1 where r: "nf_update_egress n w = Some w1" and w1: "nf_wf w1" "nf_ordered w1" "same_list n w w1" "node_right w1 n"
    "nf_filter w1 = None" "\<forall>m. m \<noteq> n \<longrightarrow> node_right w1 m = node_right w m" "enabled_inputs w1 = enabled_inputs w"
    by (rule egress_right[OF Cons.prems(1-3) n])
  have i: "nf_in w1 = nf_in w" using same_listD(1)[OF w1(3)] .
  have "set ns \<subseteq> set (nf_in w1)" using Cons.prems(4) i by simp
  moreover have "\<forall>a \<in> set (nf_in w1) - set ns. node_right w1 a"
  proof
    fix a assume a: "a \<in> set (nf_in w1) - set ns"
    show "node_right w1 a"
    proof (cases "a = n")
      case False
      then have "node_right w a" using a i Cons.prems(5) by simp
      then show ?thesis using w1(6) False by simp
    qed (simp add: w1(4))
  qed
  ultimately have "\<exists>w'. ofold nf_update_egress ns w1 = Some w' \<and> nf_view_ok w' \<and> nf_in w' = nf_in w1"
    by (rule Cons.IH[OF w1(1,2,5)])
  then show ?case using r i by simp
qed

lemma view_egress:
  assumes "nf_wf w" "nf_ordered w" "nf_filter w = None" "n \<in> set (nf_in w)" "\<forall>m \<in> set (nf_in w) - {n}. node_right w m"
  shows "\<exists>w'. nf_update_egress n w = Some w' \<and> nf_view_ok w' \<and> nf_in w' = nf_in w"
  using egress_all[of w "[n]"] assms by (auto split: option.splits)

text \<open>Another key of a node.\<close>

lemma set_sk_facts:
  assumes wf: "nf_wf w" and n: "n \<in> set (nf_in w)"
  shows "nf_wf (set_sk n x k w)" "nf_in (set_sk n x k w) = nf_in w" "nf_out_list (set_sk n x k w) = nf_out_list w"
    "nf_filter (set_sk n x k w) = nf_filter w" "nf_sorted (set_sk n x k w) = nf_sorted w"
    "enabled_inputs (set_sk n x k w) = enabled_inputs w" "nf_sortmap (set_sk n x k w) = nf_sortmap w"
    "m \<noteq> n \<Longrightarrow> nf_nodes (set_sk n x k w) m = nf_nodes w m"
    "a \<noteq> n \<Longrightarrow> b \<noteq> n \<Longrightarrow> nf_egress_cmp (set_sk n x k w) a b = nf_egress_cmp w a b"
proof -
  show f: "nf_in (set_sk n x k w) = nf_in w" "nf_out_list (set_sk n x k w) = nf_out_list w"
    "nf_filter (set_sk n x k w) = nf_filter w" "nf_sorted (set_sk n x k w) = nf_sorted w"
    "enabled_inputs (set_sk n x k w) = enabled_inputs w" "nf_sortmap (set_sk n x k w) = nf_sortmap w"
    "m \<noteq> n \<Longrightarrow> nf_nodes (set_sk n x k w) m = nf_nodes w m" for m
    by (simp_all add: set_sk_def upd_nfn_def nf_out_list_def enabled_inputs_def)
  have o: "node_out (set_sk n x k w) = node_out w"
    by (auto simp: node_out_def set_sk_def upd_nfn_def fun_eq_iff split: option.split) (cases "nf_nodes w n"; simp)
  have sh: "nf_shown (set_sk n x k w) = nf_shown w" by (simp add: nf_shown_def o f)
  have g: "nf_props (set_sk n x k w) = nf_props w" "nf_dst (set_sk n x k w) = nf_dst w" "nf_preds (set_sk n x k w) = nf_preds w"
    "nf_out_tree (set_sk n x k w) = nf_out_tree w"
    by (simp_all add: set_sk_def upd_nfn_def)
  have ok: "node_ok (set_sk n x k w) nd = node_ok w nd" for nd
    by (simp add: node_ok_def g sh the_pred_def)
  have "\<exists>nd. nf_nodes (set_sk n x k w) m = Some nd \<and> node_ok (set_sk n x k w) nd" if m: "m \<in> set (nf_in w)" for m
  proof -
    obtain nm where nm: "nf_nodes w m = Some nm" "node_ok w nm" using nf_wfD(8)[OF wf m] by blast
    show ?thesis
    proof (cases "m = n")
      case True
      then have "nf_nodes (set_sk n x k w) m = Some (nm\<lparr>nfn_sk := (nfn_sk nm)[x := k]\<rparr>)"
        using nm(1) by (simp add: set_sk_def upd_nfn_def)
      moreover have "node_ok w (nm\<lparr>nfn_sk := (nfn_sk nm)[x := k]\<rparr>)" using nm(2) by (simp add: node_ok_def)
      ultimately show ?thesis by (simp add: ok)
    next
      case False
      then show ?thesis using nm by (simp add: ok f(7))
    qed
  qed
  then show "nf_wf (set_sk n x k w)" using wf by (simp add: nf_wf_def f g sh)
  show "a \<noteq> n \<Longrightarrow> b \<noteq> n \<Longrightarrow> nf_egress_cmp (set_sk n x k w) a b = nf_egress_cmp w a b"
    using keys_cmp_cong[of "set_sk n x k w" w] by (simp add: nf_egress_cmp_def set_sk_def upd_nfn_def)
qed

lemma sorted_wrt_remove1: "sorted_wrt P xs \<Longrightarrow> sorted_wrt P (remove1 x xs)"
  by (induction xs) (auto dest: subsetD[OF set_remove1_subset])

lemma remove_put: "n \<notin> set ns \<Longrightarrow> remove1 n (insert_before m n ns) = ns"
  by (induction ns) auto

lemma sorted_others:
  assumes "cmp_sorted c xs" "distinct xs" "\<And>a b. a \<noteq> n \<Longrightarrow> b \<noteq> n \<Longrightarrow> c' a b = c a b"
  shows "cmp_sorted c' (remove1 n xs)"
proof -
  have l: "cmp_less c' a b = cmp_less c a b" if "a \<noteq> n" "b \<noteq> n" for a b
    using assms(3)[OF that] by (simp add: cmp_less_def)
  have "a \<noteq> n" if "a \<in> set (remove1 n xs)" for a using that assms(2) by auto
  then show ?thesis using sorted_wrt_mono_rel[of "remove1 n xs" "cmp_less c" "cmp_less c'"] l sorted_wrt_remove1[OF assms(1)]
    by blast
qed

lemma reinsert_ordered:
  assumes wf: "nf_wf w" and n: "n \<in> set (nf_in w)" and k: "nf_keys_order w" and f: "nf_filter w = None"
    and o: "nf_sorted w \<Longrightarrow> cmp_sorted (nf_egress_cmp w) (remove1 n (nf_out_list w))"
      "\<not> nf_sorted w \<Longrightarrow> remove1 n (nf_out_list w) = remove1 n (nf_in w)"
  obtains w' where "nf_insert_node n w = Some w'" "nf_wf w'" "nf_ordered w'" "nf_in w' = nf_in w" "nf_filter w' = None"
    "\<forall>m. node_right w' m = node_right w m"
proof -
  obtain w' where w': "nf_insert_node n w = Some w'" "nf_wf w'"
    "w' = w\<lparr>nf_out_tree := nf_out_tree w', nf_out_queue := nf_out_queue w', nf_props := nf_props w'\<rparr>"
    "nf_sorted w \<and> nf_keys_order w \<and> cmp_sorted (nf_egress_cmp w) (remove1 n (nf_out_list w)) \<longrightarrow> nf_ordered w'"
    "\<not> nf_sorted w \<and> remove1 n (nf_out_list w) = remove1 n (nf_in w) \<longrightarrow> nf_ordered w'"
    by (rule nf_insert_ok[OF wf n keys_comparable[OF k]])
  have e: "nf_in w' = nf_in w" "nf_filter w' = nf_filter w" "enabled_inputs w' = enabled_inputs w" "nf_nodes w' = nf_nodes w"
    by (subst w'(3), simp add: enabled_inputs_def)+
  have "node_right w' m = node_right w m" for m
    using enabled_cong[of w w'] e f by (auto simp: node_right_def split: option.split)
  then show ?thesis using that[OF w'(1,2)] w'(4,5) o k e f by metis
qed

lemma key_ok:
  assumes v: "nf_view_ok w" and n: "n \<in> set (nf_in w)" and k: "new_key (nf_sortmap w ! x) e = Some k"
    and o: "nf_keys_order (set_sk n x k w)"
  shows "\<exists>w'. nf_set_sortkey_x x n e w = Some w' \<and> nf_view_ok w' \<and> nf_in w' = nf_in w"
proof -
  have wf: "nf_wf w" "nf_ordered w" "nf_filter w = None" using v by (auto simp: nf_view_ok_def)
  note s = set_sk_facts[where x = x and k = k, OF wf(1) n]
  have srt: "cmp_sorted (nf_egress_cmp (set_sk n x k w)) (remove1 n (nf_out_list w))" if "nf_sorted w"
    by (rule sorted_others[of "nf_egress_cmp w"]) (use wf(2) that nf_wfD(3)[OF wf(1)] s(9) in \<open>auto simp: nf_ordered_def\<close>)
  obtain w1 where w1: "nf_insert_node n (set_sk n x k w) = Some w1" "nf_wf w1" "nf_ordered w1" "nf_in w1 = nf_in w"
    "nf_filter w1 = None" "\<forall>m. node_right w1 m = node_right (set_sk n x k w) m"
    using reinsert_ordered[OF s(1) _ o] n s wf(2,3) srt unfolding nf_ordered_def by metis
  have "node_right w1 m" if "m \<in> set (nf_in w) - {n}" for m
    using that v s enabled_cong[of w "set_sk n x k w"] wf(3) spec[OF w1(6), of m]
    by (auto simp: nf_view_ok_def node_right_def split: option.splits)
  then have "\<exists>w'. nf_update_egress n w1 = Some w' \<and> nf_view_ok w' \<and> nf_in w' = nf_in w1"
    by (intro view_egress[OF w1(2,3,5)]) (use n w1(4) in auto)
  then show ?thesis using nf_wfD(8)[OF wf(1) n] k w1(1,4) by (auto simp: nf_set_sortkey_x_def)
qed

text \<open>A move in the source.\<close>

lemma move_ok:
  assumes v: "nf_view_ok w" and n: "n \<in> set (nf_in w)" and k: "nf_keys_order w"
    and b: "\<And>m. b = Some m \<Longrightarrow> m \<in> set (nf_in w) \<and> m \<noteq> n"
  shows "\<exists>w'. nf_move_node n b w = Some w' \<and> nf_view_ok w' \<and> nf_in w' = put_before b n (remove1 n (nf_in w))"
proof -
  have wf: "nf_wf w" "nf_ordered w" "nf_filter w = None" using v by (auto simp: nf_view_ok_def)
  note d = nf_wfD[OF wf(1)]
  let ?ns = "put_before b n (remove1 n (nf_in w))" let ?w = "w\<lparr>nf_in := ?ns\<rparr>"
  have ns: "set ?ns = set (nf_in w)" "distinct ?ns" "remove1 n ?ns = remove1 n (nf_in w)"
    using place_facts[of b n "remove1 n (nf_in w)"] d(2) n
    by (auto simp: put_before_def place_def queue_simps remove1_append remove_put split: option.splits)
  have o: "node_out ?w = node_out w" by (simp add: node_out_def fun_eq_iff)
  have l: "nf_out_list ?w = nf_out_list w" by (simp add: nf_out_list_def)
  have sh: "nf_shown ?w = nf_shown w" by (simp add: nf_shown_def o l)
  have ok: "node_ok ?w nd = node_ok w nd" for nd by (simp add: node_ok_def sh the_pred_def)
  have w: "nf_wf ?w" using wf(1) ns by (simp add: nf_wf_def l sh ok)
  have k': "nf_keys_order ?w" using k ns(1) by (simp add: nf_keys_order_def)
  have s: "cmp_sorted (nf_egress_cmp w) (remove1 n (nf_out_list w))" if "nf_sorted w"
    using wf(2) that sorted_wrt_remove1 by (auto simp: nf_ordered_def)
  have u: "remove1 n (nf_out_list w) = remove1 n ?ns" if "\<not> nf_sorted w" using wf(2) that ns(3) by (simp add: nf_ordered_def)
  obtain w' where w': "nf_insert_node n ?w = Some w'" "nf_wf w'" "nf_ordered w'" "nf_in w' = ?ns" "nf_filter w' = None"
    "\<forall>m. node_right w' m = node_right ?w m"
    by (rule reinsert_ordered[OF w _ k']) (use n s u ns(1) wf(3) l in simp_all)
  have "node_right ?w m = node_right w m" for m
    using enabled_cong[of w ?w] wf(3) by (auto simp: node_right_def enabled_inputs_def split: option.split)
  then have "nf_view_ok w'" using w' v ns(1) by (auto simp: nf_view_ok_def)
  then show ?thesis using w'(1,4) by (simp add: nf_move_node_def)
qed

text \<open>A predicate of a node becomes true or false, or a predicate is switched on or off.\<close>

lemma set_pred_ok:
  assumes v: "nf_view_ok w" and n: "n \<in> set (nf_in w)" and nd: "nf_nodes w n = Some nd"
    and c: "find (\<lambda>p. nfnp_conf p = c) (nfn_preds nd) \<noteq> None"
  shows "\<exists>w'. set_pred n c s w = Some w' \<and> nf_view_ok w' \<and> nf_in w' = nf_in w"
proof -
  have wf: "nf_wf w" "nf_ordered w" "nf_filter w = None" using v by (auto simp: nf_view_ok_def)
  obtain p where p: "find (\<lambda>p. nfnp_conf p = c) (nfn_preds nd) = Some p" using c by blast
  let ?f = "\<lambda>y. y\<lparr>nfn_preds := map (\<lambda>p. if nfnp_conf p = c then p\<lparr>nfnp_set := s\<rparr> else p) (nfn_preds y)\<rparr>"
  let ?w = "upd_nfn n ?f w"
  show ?thesis
  proof (cases "nfnp_set p = s")
    case True then show ?thesis using v nd p by (simp add: set_pred_def)
  next
    case False
    have f: "nf_in ?w = nf_in w" "nf_out_list ?w = nf_out_list w" "nf_filter ?w = nf_filter w" "nf_sorted ?w = nf_sorted w"
      "enabled_inputs ?w = enabled_inputs w" "nf_props ?w = nf_props w" "nf_dst ?w = nf_dst w" "nf_preds ?w = nf_preds w"
      "nf_out_tree ?w = nf_out_tree w" "m \<noteq> n \<Longrightarrow> nf_nodes ?w m = nf_nodes w m" for m
      by (simp_all add: upd_nfn_def nf_out_list_def enabled_inputs_def)
    have o: "node_out ?w = node_out w"
      by (auto simp: node_out_def upd_nfn_def fun_eq_iff nd)
    have sh: "nf_shown ?w = nf_shown w" by (simp add: nf_shown_def o f)
    have ok: "node_ok ?w nm = node_ok w nm" for nm by (simp add: node_ok_def f sh the_pred_def)
    have "\<exists>nm. nf_nodes ?w m = Some nm \<and> node_ok ?w nm" if m: "m \<in> set (nf_in w)" for m
    proof (cases "m = n")
      case True
      have "node_ok w nd" using nf_wfD(8)[OF wf(1) n] nd by auto
      then have "node_ok w (?f nd)" by (auto simp: node_ok_def)
      then show ?thesis using True nd ok by (simp add: upd_nfn_def)
    next
      case False then show ?thesis using nf_wfD(8)[OF wf(1) m] f(10) ok by simp
    qed
    then have wf': "nf_wf ?w" using wf(1) by (simp add: nf_wf_def f sh)
    have "nf_egress_cmp ?w = nf_egress_cmp w" by (rule egress_cmp_cong) (simp_all add: upd_nfn_def nd)
    then have o': "nf_ordered ?w" using wf(2) by (simp add: nf_ordered_def f)
    have "node_right ?w m" if "m \<in> set (nf_in w) - {n}" for m
      using that v enabled_cong[of w ?w] wf(3) f(10)[of m] f(3,5) by (auto simp: nf_view_ok_def node_right_def split: option.splits)
    then have "\<exists>w'. nf_update_egress n ?w = Some w' \<and> nf_view_ok w' \<and> nf_in w' = nf_in ?w"
      using view_egress[OF wf' o'] wf(3) n f(1,3) by simp
    then show ?thesis using nd p False f(1) by (simp add: set_pred_def)
  qed
qed

lemma find_map_conf:
  "(\<And>p. pnp_id (f p) = pnp_id p) \<Longrightarrow> find (\<lambda>p. pnp_id p = k) (map (\<lambda>p. if pnp_id p = c then f p else p) ps)
     = map_option (\<lambda>p. if pnp_id p = c then f p else p) (find (\<lambda>p. pnp_id p = k) ps)"
  by (induction ps) auto

lemma the_pred_upd:
  "(\<And>p. pnp_id (f p) = pnp_id p) \<Longrightarrow> the_pred k (upd_conf c f w) = map_option (\<lambda>p. if pnp_id p = c then f p else p) (the_pred k w)"
  unfolding the_pred_def upd_conf_def by (simp add: find_map_conf)

lemma enable_ok:
  assumes v: "nf_view_ok w" and c: "the_pred c w \<noteq> None"
  shows "\<exists>w'. pnp_set_enable c i w = Some w' \<and> nf_view_ok w' \<and> nf_in w' = nf_in w"
proof -
  have wf: "nf_wf w" "nf_ordered w" "nf_filter w = None" using v by (auto simp: nf_view_ok_def)
  obtain pnp where p: "the_pred c w = Some pnp" using c by blast
  let ?w = "upd_conf c (\<lambda>p. p\<lparr>pnp_enabled := i \<noteq> 0\<rparr>) w"
  show ?thesis
  proof (cases "pnp_enabled pnp = (i \<noteq> 0)")
    case True then show ?thesis using v p by (simp add: pnp_set_enable_def)
  next
    case False
    have f: "nf_in ?w = nf_in w" "nf_out_list ?w = nf_out_list w" "nf_filter ?w = nf_filter w" "nf_sorted ?w = nf_sorted w"
      "nf_props ?w = nf_props w" "nf_dst ?w = nf_dst w" "nf_nodes ?w = nf_nodes w" "nf_out_tree ?w = nf_out_tree w"
      by (simp_all add: upd_conf_def nf_out_list_def)
    have o: "node_out ?w = node_out w" by (simp add: node_out_def f fun_eq_iff)
    have sh: "nf_shown ?w = nf_shown w" by (simp add: nf_shown_def o f)
    have tp: "(the_pred k ?w \<noteq> None) = (the_pred k w \<noteq> None)" for k
      by (subst the_pred_upd) simp_all
    have "node_ok ?w nm = node_ok w nm" for nm by (simp only: node_ok_def f sh tp)
    then have wf': "nf_wf ?w" using wf(1) by (simp add: nf_wf_def f sh)
    have "nf_egress_cmp ?w = nf_egress_cmp w" by (rule egress_cmp_cong) (simp_all add: upd_conf_def)
    then have o': "nf_ordered ?w" using wf(2) by (simp add: nf_ordered_def f)
    have "\<exists>w'. ofold nf_update_egress (nf_in w) ?w = Some w' \<and> nf_view_ok w' \<and> nf_in w' = nf_in ?w"
      by (rule egress_all[OF wf' o']) (use wf(3) f in simp_all)
    then show ?thesis using p False f(1) by (simp add: pnp_set_enable_def)
  qed
qed

text \<open>What the destination holds, without the tree and the outputs the nodes remember.\<close>

definition shows_node :: "prop_nf \<Rightarrow> nat \<Rightarrow> bool" where
  "shows_node w n \<longleftrightarrow> (case nf_nodes w n of None \<Rightarrow> False | Some nd \<Rightarrow> nf_enabled nd w = Some True)"

definition shows_filtered :: "prop_nf \<Rightarrow> bool" where
  "shows_filtered w \<longleftrightarrow> (\<exists>ns xs.
     distinct ns \<and> set ns = set (nf_in w) \<and> (if nf_sorted w then cmp_sorted (nf_egress_cmp w) ns else ns = nf_in w)
     \<and> is_dir (type_of (nf_props w) (nf_dst w)) \<and> hp_childs (nf_props w) (nf_dst w) = xs
     \<and> list_all2 (\<lambda>n x. \<exists>nd. nf_nodes w n = Some nd \<and> outp (nf_props w) (nf_dst w) (nfn_in nd) x)
          (filter (shows_node w) ns) xs)"

lemma map_filter_list_all2:
  "(\<And>x. x \<in> set xs \<Longrightarrow> f x \<noteq> None \<longleftrightarrow> P x) \<Longrightarrow> (\<And>x y. x \<in> set xs \<Longrightarrow> f x = Some y \<Longrightarrow> R x y)
    \<Longrightarrow> list_all2 R (filter P xs) (List.map_filter f xs)"
proof (induction xs)
  case Nil then show ?case by (simp add: List.map_filter_simps)
next
  case (Cons x xs)
  have "list_all2 R (filter P xs) (List.map_filter f xs)" by (rule Cons.IH) (use Cons.prems in auto)
  then show ?case using Cons.prems(1)[of x] Cons.prems(2)[of x]
    by (cases "f x") (auto simp: List.map_filter_simps)
qed

lemma view_shows:
  assumes "nf_view_ok w"
  shows "shows_filtered w"
proof -
  have wf: "nf_wf w" "nf_ordered w" and r: "\<forall>n \<in> set (nf_in w). node_right w n" using assms by (auto simp: nf_view_ok_def)
  note d = nf_wfD[OF wf(1)]
  have "list_all2 (\<lambda>n x. \<exists>nd. nf_nodes w n = Some nd \<and> outp (nf_props w) (nf_dst w) (nfn_in nd) x)
          (filter (shows_node w) (nf_out_list w)) (nf_shown w)"
    unfolding nf_shown_def
  proof (rule map_filter_list_all2)
    fix n assume n: "n \<in> set (nf_out_list w)"
    then obtain nd where nd: "nf_nodes w n = Some nd" "node_ok w nd" using d(4,8) by blast
    show "(node_out w n \<noteq> None) = shows_node w n" using r n d(4) nd(1) by (auto simp: node_right_def shows_node_def node_out_def)
    show "\<exists>nd. nf_nodes w n = Some nd \<and> outp (nf_props w) (nf_dst w) (nfn_in nd) x" if "node_out w n = Some x" for x
      using that nd by (auto simp: node_out_def node_ok_def)
  qed
  then show ?thesis unfolding shows_filtered_def
    using d(3,4,6) wf(2) by (intro exI[of _ "nf_out_list w"] exI[of _ "nf_shown w"]) (auto simp: nf_ordered_def dest_def)
qed

section \<open>Sorting again\<close>

text \<open>Two lists of the same nodes, whatever is shown of them and in whatever order they are.\<close>

definition alike :: "prop_nf \<Rightarrow> prop_nf \<Rightarrow> bool" where
  "alike w w' \<longleftrightarrow>
     w' = w\<lparr>nf_nodes := nf_nodes w', nf_props := nf_props w', nf_out_tree := nf_out_tree w', nf_out_queue := nf_out_queue w'\<rparr>
     \<and> (\<forall>n. map_option (nfn_out_update (\<lambda>_. None)) (nf_nodes w' n) = map_option (nfn_out_update (\<lambda>_. None)) (nf_nodes w n))"

lemma alike_refl [simp]: "alike w w"
  by (simp add: alike_def)

lemma alike_trans: "alike u v \<Longrightarrow> alike v w \<Longrightarrow> alike u w"
  by (cases u; cases v; cases w) (simp add: alike_def)

lemma alike_sk:
  assumes "alike w w'"
  shows "map_option nfn_sk (nf_nodes w' n) = map_option nfn_sk (nf_nodes w n)"
proof -
  have "map_option (nfn_out_update (\<lambda>_. None)) (nf_nodes w' n) = map_option (nfn_out_update (\<lambda>_. None)) (nf_nodes w n)"
    using assms by (simp add: alike_def)
  moreover have "nfn_sk nd = nfn_sk nd'" if "nd\<lparr>nfn_out := None\<rparr> = nd'\<lparr>nfn_out := None\<rparr>" for nd nd'
    using arg_cong[OF that, of nfn_sk] by simp
  ultimately show ?thesis by (cases "nf_nodes w' n"; cases "nf_nodes w n") auto
qed

lemma alikeD:
  assumes "alike w w'"
  shows "nf_in w' = nf_in w" "nf_sorted w' = nf_sorted w" "nf_dst w' = nf_dst w" "nf_preds w' = nf_preds w"
    "nf_egress_cmp w' = nf_egress_cmp w" "nf_filter w' = nf_filter w" "enabled_inputs w' = enabled_inputs w"
    "nf_sortmap w' = nf_sortmap w"
    "nf_nodes w n = Some nd \<Longrightarrow> \<exists>nd'. nf_nodes w' n = Some nd' \<and> nfn_sk nd' = nfn_sk nd \<and> nfn_preds nd' = nfn_preds nd"
proof -
  have w: "w' = w\<lparr>nf_nodes := nf_nodes w', nf_props := nf_props w', nf_out_tree := nf_out_tree w', nf_out_queue := nf_out_queue w'\<rparr>"
    and n: "\<And>n. map_option (nfn_out_update (\<lambda>_. None)) (nf_nodes w' n) = map_option (nfn_out_update (\<lambda>_. None)) (nf_nodes w n)"
    using assms by (simp_all add: alike_def)
  show "nf_in w' = nf_in w" "nf_sorted w' = nf_sorted w" "nf_dst w' = nf_dst w" "nf_preds w' = nf_preds w"
    "nf_filter w' = nf_filter w" "enabled_inputs w' = enabled_inputs w" "nf_sortmap w' = nf_sortmap w"
    by (subst w, simp add: enabled_inputs_def)+
  have sk: "nfn_sk nd = nfn_sk nd' \<and> nfn_preds nd = nfn_preds nd'" if "nd\<lparr>nfn_out := None\<rparr> = nd'\<lparr>nfn_out := None\<rparr>" for nd nd'
    using arg_cong[OF that, of nfn_sk] arg_cong[OF that, of nfn_preds] by simp
  then show "nf_nodes w n = Some nd \<Longrightarrow> \<exists>nd'. nf_nodes w' n = Some nd' \<and> nfn_sk nd' = nfn_sk nd \<and> nfn_preds nd' = nfn_preds nd"
    using n[of n] by auto
  show "nf_egress_cmp w' = nf_egress_cmp w" by (intro egress_cmp_cong alike_sk[OF assms]) ((subst w, simp)+)
qed

lemma same_list_alike: "same_list n w w' \<Longrightarrow> alike w w' \<and> nf_out_tree w' = nf_out_tree w"
proof -
  assume s: "same_list n w w'"
  then have "w' = w\<lparr>nf_nodes := nf_nodes w', nf_props := nf_props w'\<rparr>" by (simp add: same_list_def)
  then have "w' = w\<lparr>nf_nodes := nf_nodes w', nf_props := nf_props w', nf_out_tree := nf_out_tree w', nf_out_queue := nf_out_queue w'\<rparr>"
    by (cases w; cases w') simp
  moreover have "map_option (nfn_out_update (\<lambda>_. None)) (nf_nodes w' m) = map_option (nfn_out_update (\<lambda>_. None)) (nf_nodes w m)" for m
    using s by (cases "m = n") (auto simp: same_list_def)
  ultimately show ?thesis using same_listD(4)[OF s] by (simp add: alike_def)
qed

lemma egress_same_list: "nf_update_egress n w = Some w' \<Longrightarrow> same_list n w w'"
proof -
  assume r: "nf_update_egress n w = Some w'"
  obtain nd en where nd: "nf_nodes w n = Some nd" "nf_enabled nd w = Some en"
    using r by (auto simp: nf_update_egress_def bind_eq_Some_conv)
  obtain x st1 where m: "prop_make (hp_name (props (nf_props w) (nfn_in nd))) True None (nf_props w) = (x, st1)" by fastforce
  have u: "(upd_nfn n f (w\<lparr>nf_props := a\<rparr>))\<lparr>nf_props := b\<rparr> = (upd_nfn n f w)\<lparr>nf_props := b\<rparr>"
    "upd_nfn n f (w\<lparr>nf_props := b\<rparr>) = (upd_nfn n f w)\<lparr>nf_props := b\<rparr>" for f a b
    by (cases w; simp add: upd_nfn_def)+
  have "w' = w \<or> (\<exists>xo st. w' = (upd_nfn n (\<lambda>y. y\<lparr>nfn_out := xo\<rparr>) w)\<lparr>nf_props := st\<rparr>)"
  proof (cases "en \<noteq> (nfn_out nd = None)")
    case True then show ?thesis using r nd by (simp add: nf_update_egress_def)
  next
    case False
    then show ?thesis using r nd m
      by (cases en, auto simp: nf_update_egress_def nf_run_def Let_def bind_eq_Some_conv u, blast)
  qed
  moreover have "same_list n w ((upd_nfn n (\<lambda>y. y\<lparr>nfn_out := xo\<rparr>) w)\<lparr>nf_props := st\<rparr>)" for xo st
    by (cases "nf_nodes w n") (simp_all add: same_list_def upd_nfn_def)
  ultimately show ?thesis by (auto simp: same_list_def)
qed

lemma egress_fold: "ofold nf_update_egress ns w = Some w' \<Longrightarrow> alike w w' \<and> nf_out_tree w' = nf_out_tree w"
proof (induction ns arbitrary: w)
  case (Cons n ns)
  then obtain w1 where "nf_update_egress n w = Some w1" "ofold nf_update_egress ns w1 = Some w'" by (auto split: option.splits)
  then show ?case using Cons.IH[of w1] same_list_alike[OF egress_same_list] alike_trans by metis
qed simp

text \<open>A node, then several nodes, taken out of a tree and inserted again.\<close>

definition resort1 :: "(nat \<Rightarrow> nat \<Rightarrow> int option) \<Rightarrow> nat \<Rightarrow> nat rb_head \<Rightarrow> nat rb_head option" where
  "resort1 cmp n h = do { h1 \<leftarrow> RB_REMOVE n h;
     (case RB_INSERT_SORTED cmp n h1 of Some (None, h2) \<Rightarrow> Some h2 | _ \<Rightarrow> None) }"

lemma insert_tree:
  assumes "nf_insert_node n w = Some w'" "nf_sorted w" "nf_nodes w n = Some nd" "nfn_inserted nd"
  shows "resort1 (nf_egress_cmp w) n (nf_out_tree w) = Some (nf_out_tree w')"
proof -
  obtain w1 where w1: "nf_take_out n w = Some w1" using assms by (auto simp: nf_insert_node_def bind_eq_Some_conv)
  then obtain h1 where h1: "RB_REMOVE n (nf_out_tree w) = Some h1" "w1 = w\<lparr>nf_out_tree := h1\<rparr>"
    using assms(2) by (auto simp: nf_take_out_def)
  have "upd_nfn n (\<lambda>x. x\<lparr>nfn_inserted := True\<rparr>) w1 = w1"
    by (rule upd_nfn_id[of _ _ nd]) (use assms h1 in simp_all)
  then have "\<exists>w2. nf_put_in n w1 = Some w2 \<and> nf_out_tree w' = nf_out_tree w2"
    using assms w1 by (auto simp: nf_insert_node_def nf_run_def bind_eq_Some_conv split: option.splits)
  then show ?thesis using h1 assms(2)
    by (auto simp: nf_put_in_def resort1_def split: option.splits)
qed

fun resort :: "(nat \<Rightarrow> nat \<Rightarrow> int option) \<Rightarrow> nat list \<Rightarrow> nat rb_head \<Rightarrow> nat rb_head option" where
  "resort cmp [] h = Some h"
| "resort cmp (n # ns) h = Option.bind (resort1 cmp n h) (resort cmp ns)"

text \<open>Consistent, with the right nodes shown, in any order.\<close>

definition nf_shows_right :: "prop_nf \<Rightarrow> bool" where
  "nf_shows_right w \<longleftrightarrow> nf_wf w \<and> nf_filter w = None \<and> (\<forall>n \<in> set (nf_in w). node_right w n)"

lemma shows_right_order:
  assumes "nf_view_ok w"
  shows "nf_shows_right (w\<lparr>nf_sortorder := s\<rparr>)"
proof -
  let ?w = "w\<lparr>nf_sortorder := s\<rparr>"
  have wf: "nf_wf w" "nf_filter w = None" using assms by (auto simp: nf_view_ok_def)
  have o: "node_out ?w = node_out w" by (simp add: node_out_def fun_eq_iff)
  have l: "nf_out_list ?w = nf_out_list w" by (simp add: nf_out_list_def)
  have sh: "nf_shown ?w = nf_shown w" by (simp add: nf_shown_def o l)
  have ok: "node_ok ?w nd = node_ok w nd" for nd by (simp add: node_ok_def sh the_pred_def)
  have "nf_wf ?w" using wf(1) by (simp add: nf_wf_def l sh ok)
  moreover have "node_right ?w m = node_right w m" for m
    using enabled_cong[of w ?w] wf(2) by (auto simp: node_right_def enabled_inputs_def split: option.split)
  ultimately show ?thesis using assms by (simp add: nf_shows_right_def nf_view_ok_def)
qed

lemma key_again:
  assumes r: "nf_shows_right w" and s: "nf_sorted w" "nf_comparable w" and n: "n \<in> set (nf_in w)" "nf_nodes w n = Some nd"
    and k: "new_key (nf_sortmap w ! x) e = Some (nfn_sk nd ! x)" "x < MAX_SORT_KEYS"
  obtains w' where "nf_set_sortkey_x x n e w = Some w'" "nf_shows_right w'" "alike w w'"
    "resort1 (nf_egress_cmp w) n (nf_out_tree w) = Some (nf_out_tree w')"
proof -
  have wf: "nf_wf w" "nf_filter w = None" using r by (auto simp: nf_shows_right_def)
  have ok: "node_ok w nd" using nf_wfD(8)[OF wf(1) n(1)] n(2) by auto
  have "set_sk n x (nfn_sk nd ! x) w = w"
    unfolding set_sk_def by (rule upd_nfn_id[OF n(2)]) (simp add: list_update_id)
  then have run: "nf_set_sortkey_x x n e w = Option.bind (nf_insert_node n w) (nf_update_egress n)"
    using n(2) k(1) by (simp add: nf_set_sortkey_x_def)
  obtain w1 where w1: "nf_insert_node n w = Some w1" "nf_wf w1"
    "w1 = w\<lparr>nf_out_tree := nf_out_tree w1, nf_out_queue := nf_out_queue w1, nf_props := nf_props w1\<rparr>"
    by (rule nf_insert_ok[OF wf(1) n(1) s(2)])
  have f: "nf_in w1 = nf_in w" "nf_filter w1 = None" "enabled_inputs w1 = enabled_inputs w" "nf_nodes w1 = nf_nodes w"
    by (subst w1(3), simp add: enabled_inputs_def wf)+
  have a1: "alike w w1" using w1(3) f(4) by (cases w; cases w1) (simp add: alike_def)
  have n1: "n \<in> set (nf_in w1)" using n(1) f(1) by simp
  obtain en where en: "nf_enabled nd w1 = Some en"
    using enabled_defined[OF f(2), of nd] nf_wfD(8)[OF w1(2) n1] n(2) f(4) by auto
  obtain w2 where w2: "nf_update_egress n w1 = Some w2" "nf_wf w2" "same_list n w1 w2" "node_out w2 n \<noteq> None \<longleftrightarrow> en"
    by (rule nf_egress_ok[OF w1(2) n1 _ en]) (use n(2) f(4) in simp)
  note al = same_list_alike[OF w2(3)]
  note d = alikeD[OF alike_trans[OF a1 conjunct1[OF al]]]
  have e: "nf_enabled nd' w2 = nf_enabled nd'' w" if "nfn_sk nd' = nfn_sk nd''" "nfn_preds nd' = nfn_preds nd''" for nd' nd''
    by (rule enabled_cong[OF wf(2) _ d(7) that]) (simp add: d(6) wf)
  have "node_right w2 m" if "m \<in> set (nf_in w)" for m
  proof (cases "m = n")
    case True
    obtain nd' where nd': "nf_nodes w2 n = Some nd'" "nfn_sk nd' = nfn_sk nd" "nfn_preds nd' = nfn_preds nd"
      using d(9)[OF n(2)] by blast
    have "nf_enabled nd w1 = nf_enabled nd w" by (rule enabled_cong) (simp_all add: f wf)
    then have "nf_enabled nd' w2 = Some en" using en e[OF nd'(2,3)] by simp
    then show ?thesis using True w2(4) nd'(1) by (simp add: node_right_def node_out_def)
  next
    case False
    have "nf_nodes w2 m = nf_nodes w m" using same_listD(9)[OF w2(3) False] f(4) by simp
    then show ?thesis using r that e by (auto simp: node_right_def nf_shows_right_def split: option.splits)
  qed
  then have "nf_shows_right w2" using w2(2) d(1,6) wf(2) by (simp add: nf_shows_right_def)
  moreover have "resort1 (nf_egress_cmp w) n (nf_out_tree w) = Some (nf_out_tree w2)"
    using insert_tree[OF w1(1) s(1) n(2)] ok al by (simp add: node_ok_def)
  ultimately show ?thesis
    using that[of w2] run w1(1) w2(1) alike_trans[OF a1 conjunct1[OF al]] by simp
qed

text \<open>The key of every node is delivered again.\<close>

lemma keys_again:
  assumes "nf_shows_right w" "nf_sorted w" "nf_comparable w" "set ns \<subseteq> set (nf_in w)" "x < MAX_SORT_KEYS"
    and "\<forall>n \<in> set ns. \<exists>nd. nf_nodes w n = Some nd \<and> new_key (nf_sortmap w ! x) (e n) = Some (nfn_sk nd ! x)"
  shows "\<exists>w'. ofold (\<lambda>n. nf_set_sortkey_x x n (e n)) ns w = Some w' \<and> nf_shows_right w' \<and> alike w w'
    \<and> resort (nf_egress_cmp w) ns (nf_out_tree w) = Some (nf_out_tree w')"
  using assms
proof (induction ns arbitrary: w)
  case (Cons n ns)
  obtain nd where nd: "nf_nodes w n = Some nd" "new_key (nf_sortmap w ! x) (e n) = Some (nfn_sk nd ! x)" using Cons.prems(6) by auto
  have "n \<in> set (nf_in w)" using Cons.prems(4) by simp
  then obtain w1 where w1: "nf_set_sortkey_x x n (e n) w = Some w1" "nf_shows_right w1" "alike w w1"
    "resort1 (nf_egress_cmp w) n (nf_out_tree w) = Some (nf_out_tree w1)"
    by (rule key_again[OF Cons.prems(1-3) _ nd Cons.prems(5)])
  note d = alikeD[OF w1(3)]
  have c: "nf_comparable w1" using Cons.prems(3) d(1,2,5) by (simp add: nf_comparable_def)
  have k: "\<forall>m \<in> set ns. \<exists>nd. nf_nodes w1 m = Some nd \<and> new_key (nf_sortmap w1 ! x) (e m) = Some (nfn_sk nd ! x)"
  proof
    fix m assume "m \<in> set ns"
    then obtain nm where "nf_nodes w m = Some nm" "new_key (nf_sortmap w ! x) (e m) = Some (nfn_sk nm ! x)" using Cons.prems(6) by auto
    then show "\<exists>nd. nf_nodes w1 m = Some nd \<and> new_key (nf_sortmap w1 ! x) (e m) = Some (nfn_sk nd ! x)"
      using d(9)[of m nm] by (auto simp: d(8))
  qed
  obtain w' where "ofold (\<lambda>n. nf_set_sortkey_x x n (e n)) ns w1 = Some w'" "nf_shows_right w'" "alike w1 w'"
    "resort (nf_egress_cmp w1) ns (nf_out_tree w1) = Some (nf_out_tree w')"
    using Cons.IH[OF w1(2) _ c _ Cons.prems(5) k] Cons.prems(2,4) d(1,2) by auto
  then show ?case using w1(1,3,4) alike_trans[OF w1(3)] d(5) by simp
qed simp

end
