(* ===== verification/Sorted_Properties.thy ===== *)
theory Sorted_Properties
  imports Prop_Nodefilter_Inv Derived_Properties
begin

text \<open>
  The red-black trees, and the filtered and sorted lists that are kept in them.
\<close>

section \<open>Red-black trees\<close>

definition tree_after :: "'a rb_head \<Rightarrow> 'a list \<Rightarrow> bool" where
  "tree_after h xs \<longleftrightarrow> head_ok h \<and> rb_list h = xs \<and> 2 ^ (rb_height (rb_root h) div 2) \<le> length xs + 1"

lemma tree_afterI: "head_ok h \<Longrightarrow> rb_list h = xs \<Longrightarrow> tree_after h xs"
  using head_height[of h] by (simp add: tree_after_def)

text \<open>
  C31. A red-black tree that is consistent and in order stays so: a new element is inserted between
  the elements below it and those above it, an element of the tree is taken out of the list, neither
  fails, the first and last element and the colours are kept up to date, and the height stays
  logarithmic.
\<close>

theorem redblack_is_a_sorted_list:
  assumes "head_ok h" "cmp_sorted cmp (rb_list h)"
  shows "(\<forall>x. x \<notin> set (rb_list h) \<and> cmp_order cmp (insert x (set (rb_list h)))
       \<longrightarrow> (\<exists>h' as bs. RB_INSERT_SORTED cmp x h = Some (None, h') \<and> rb_list h = as @ bs
             \<and> tree_after h' (as @ x # bs) \<and> cmp_sorted cmp (as @ x # bs)))
     \<and> (\<forall>x \<in> set (rb_list h). \<exists>h'. RB_REMOVE x h = Some h' \<and> tree_after h' (remove1 x (rb_list h))
             \<and> cmp_sorted cmp (remove1 x (rb_list h)))"
proof (intro conjI allI impI ballI)
  fix x assume x: "x \<notin> set (rb_list h) \<and> cmp_order cmp (insert x (set (rb_list h)))"
  obtain h' as bs where "RB_INSERT_SORTED cmp x h = Some (None, h')" "head_ok h'" "rb_list h = as @ bs"
    "rb_list h' = as @ x # bs" "cmp_sorted cmp (rb_list h')"
    by (rule insert_sorted_list[where cmp = cmp, OF assms(1) conjunct1[OF x] conjunct2[OF x] assms(2)])
  then show "\<exists>h' as bs. RB_INSERT_SORTED cmp x h = Some (None, h') \<and> rb_list h = as @ bs
      \<and> tree_after h' (as @ x # bs) \<and> cmp_sorted cmp (as @ x # bs)"
    using tree_afterI by metis
next
  fix x assume x: "x \<in> set (rb_list h)"
  obtain h' where "RB_REMOVE x h = Some h'" "head_ok h'" "rb_list h' = remove1 x (rb_list h)"
    by (rule remove_list[OF assms(1) x])
  then show "\<exists>h'. RB_REMOVE x h = Some h' \<and> tree_after h' (remove1 x (rb_list h)) \<and> cmp_sorted cmp (remove1 x (rb_list h))"
    using sorted_wrt_remove1[OF assms(2)] tree_afterI by blast
qed

definition small_tree :: "nat rb_head" where
  "small_tree = \<lparr>rb_first = Some 1, rb_last = Some 5,
     rb_root = RB_NODE RB_TREE_NODE_BLACK (RB_NODE RB_TREE_NODE_RED RB_NULL 1 RB_NULL) 3 (RB_NODE RB_TREE_NODE_RED RB_NULL 5 RB_NULL)\<rparr>"

theorem redblack_is_a_sorted_list_witness:
  "\<exists>h' as bs. RB_INSERT_SORTED (\<lambda>a b. Some (int a - int b)) 4 small_tree = Some (None, h')
     \<and> [1, 3, 5] = as @ bs \<and> tree_after h' (as @ 4 # bs) \<and> cmp_sorted (\<lambda>a b. Some (int a - int b)) (as @ 4 # bs)"
proof -
  have h: "head_ok small_tree" "rb_list small_tree = [1, 3, 5]"
    by (simp_all add: head_ok_def small_tree_def rb_list_def rb_ok_def first_of_def)
  have "cmp_order (\<lambda>a b. Some (int a - int b)) A" for A
    by (auto simp: cmp_order_def cmp_total_def cmp_less_def)
  then show ?thesis
    using redblack_is_a_sorted_list[OF h(1), of "\<lambda>a b. Some (int a - int b)"] by (simp add: h(2) cmp_less_def)
qed

section \<open>Filtered lists\<close>

text \<open>The step returns, with the list in order over these nodes.\<close>

definition view_after :: "prop_nf option \<Rightarrow> nat list \<Rightarrow> bool" where
  "view_after r ns \<longleftrightarrow> (\<exists>w. r = Some w \<and> nf_view_ok w \<and> shows_filtered w \<and> nf_in w = ns)"

lemma view_afterI: "\<exists>w. r = Some w \<and> nf_view_ok w \<and> nf_in w = ns \<Longrightarrow> view_after r ns"
  using view_shows by (auto simp: view_after_def)

text \<open>
  C5. A filtered list shows what it should. When the sort key of a node changes, a node moves in the
  source, a predicate of a node becomes true or false, or a predicate is switched on or off, no step
  fails, and the children of the destination are again one output, linked to its node, for every node
  that is to be shown and no other, in the order of the sort keys or else in that of the source,
  provided that the keys are comparable. This is without a filter text.
\<close>

theorem nodefilter_shows_what_it_should:
  assumes "nf_view_ok w" "n \<in> set (nf_in w)"
  shows "(\<forall>x e k. new_key (nf_sortmap w ! x) e = Some k \<and> nf_keys_order (set_sk n x k w)
            \<longrightarrow> view_after (nf_set_sortkey_x x n e w) (nf_in w))
     \<and> (\<forall>b. nf_keys_order w \<and> (\<forall>m. b = Some m \<longrightarrow> m \<in> set (nf_in w) \<and> m \<noteq> n)
            \<longrightarrow> view_after (nf_move_node n b w) (put_before b n (remove1 n (nf_in w))))
     \<and> (\<forall>c s nd. nf_nodes w n = Some nd \<and> find (\<lambda>p. nfnp_conf p = c) (nfn_preds nd) \<noteq> None
            \<longrightarrow> view_after (set_pred n c s w) (nf_in w))
     \<and> (\<forall>c v. the_pred c w \<noteq> None \<longrightarrow> view_after (pnp_set_enable c v w) (nf_in w))"
  using key_ok[OF assms] move_ok[OF assms] set_pred_ok[OF assms] enable_ok[OF assms(1)]
  by (intro conjI allI impI view_afterI) blast+

subsection \<open>A list of five nodes\<close>

text \<open>A directory without children, and \<open>k\<close> properties beside it.\<close>

definition some_props :: "nat \<Rightarrow> pst" where
  "some_props k = ((\<lambda>st. snd (prop_make None False None st)) ^^ k) (set_type 0 (PROP_DIR [] None) prop_init)"

lemma some_props_facts:
  "pnext (some_props k) = Suc k \<and> tree_ok (some_props k) \<and> dest (some_props k) prop_global []
    \<and> (\<forall>q. hp_originator (props (some_props k) q) = None) \<and> (\<forall>p. 0 < p \<and> p \<le> k \<longrightarrow> type_of (some_props k) p = PROP_VOID)"
proof (induction k)
  case 0
  let ?d = "set_type 0 (PROP_DIR [] None) prop_init"
  have "tree_ok ?d" by (rule tree_ok_set_type[OF init_tree]) (simp add: childs_of_def)
  moreover have "hp_flags (props ?d 0) = {PROP_NAME_NOT_ALLOCATED}"
    by (simp add: set_type_def prop_init_def prop_make_def upd_defs prop_global_def no_prop_def)
  ultimately show ?case
    by (auto simp: some_props_def dest_def init_fields is_dir_def childs_of_def prop_global_def)
next
  case (Suc k)
  have e: "some_props (Suc k) = snd (prop_make None False None (some_props k))" by (simp add: some_props_def)
  have "tree_ok (some_props (Suc k))" unfolding e using Suc by (intro tree_ok_make(1)) simp_all
  moreover have "dest (some_props (Suc k)) prop_global []"
    using Suc unfolding e by (auto simp: dest_def type_make)
  ultimately show ?case using Suc by (auto simp: e type_make)
qed

lemma some_props_child: "0 < p \<Longrightarrow> p \<le> k \<Longrightarrow> source_child (some_props k) p"
  using some_props_facts[of k] by (auto simp: source_child_def)

text \<open>
  Five nodes with the integer keys 2, 0, 1, 3 and 4, in the tree that they form when they are inserted
  in this order, hidden by a predicate that includes only what passes it, and is not enabled.
\<close>

definition five_keys :: "i32 list" where
  "five_keys = [2, 0, 1, 3, 4]"

definition five_node :: "nat \<Rightarrow> nfnode" where
  "five_node n = \<lparr>nfn_in = Suc n, nfn_out = None, nfn_multisub = None,
     nfn_preds = [\<lparr>nfnp_sub = None, nfnp_conf = 1, nfnp_set = True\<rparr>], nfn_inserted = True,
     nfn_sk = [SORTKEY_INT (five_keys ! n), SORTKEY_NONE, SORTKEY_NONE, SORTKEY_NONE], nfn_sortsub = replicate 4 None\<rparr>"

definition five_tree :: "nat rb_head" where
  "five_tree = \<lparr>rb_first = Some 1, rb_last = Some 4,
     rb_root = RB_NODE RB_TREE_NODE_BLACK (RB_NODE RB_TREE_NODE_BLACK RB_NULL 1 RB_NULL) 2
       (RB_NODE RB_TREE_NODE_BLACK (RB_NODE RB_TREE_NODE_RED RB_NULL 0 RB_NULL) 3 (RB_NODE RB_TREE_NODE_RED RB_NULL 4 RB_NULL))\<rparr>"

definition five_pred :: prop_nf_pred where
  "five_pred = \<lparr>pnp_path = [''kind''], pnp_cf = PROP_NF_CMP_EQ, pnp_mode = PROP_NF_MODE_INCLUDE, pnp_enable_sub = None,
     pnp_id = 1, pnp_enabled = False, pnp_str = Some ''x'', pnp_int = 0\<rparr>"

definition five_nodes :: prop_nf where
  "five_nodes = \<lparr>pnf_refcount = 1, nf_autodestroy = False, nf_pred_tally = 1, nf_nodecount = 5, nf_sorted = True,
     nf_src = 0, nf_dst = prop_global, nf_srcsub = None, nf_dstsub = None, nf_filtersub = None,
     nf_in = [0, 1, 2, 3, 4], nf_out_queue = [], nf_out_tree = five_tree, nf_filter = None,
     nf_sortkey = [Some ''key'', None, None, None], nf_sortmap = replicate 4 None, nf_preds = [five_pred],
     nf_pending_have_more = None, nf_sortorder = [1, 0, 0, 0], nf_sort_hide_on_missing = replicate 4 False,
     nf_nodes = (\<lambda>n. if n < 5 then Some (five_node n) else None), nf_fresh = 5, nf_addr = id, nf_key = 0,
     nf_casefold = \<lparr>casefoldtablelen = 0, casefoldtable = (\<lambda>_. 0)\<rparr>, nf_ignore_the = False, nf_tags = (\<lambda>_. []), nf_props = some_props 5\<rparr>"

lemma five_tree_facts: "head_ok five_tree" "rb_list five_tree = [1, 2, 0, 3, 4]"
  by (simp_all add: head_ok_def five_tree_def rb_list_def rb_ok_def first_of_def)

lemma upt_four: "[0..<MAX_SORT_KEYS] = [0, 1, 2, 3]"
  by (simp add: MAX_SORT_KEYS_def upt_rec)

text \<open>The nodes and their comparison, whatever the sign of the order.\<close>

abbreviation five_ordered :: "int \<Rightarrow> prop_nf" where
  "five_ordered s \<equiv> five_nodes\<lparr>nf_sortorder := [s, 0, 0, 0]\<rparr>"

lemma five_fields [simp]:
  "nf_in five_nodes = [0, 1, 2, 3, 4]" "nf_sorted five_nodes" "nf_out_tree five_nodes = five_tree" "nf_filter five_nodes = None"
  "nf_sortkey five_nodes = [Some ''key'', None, None, None]" "nf_sort_hide_on_missing five_nodes = replicate 4 False"
  "nf_props five_nodes = some_props 5" "nf_dst five_nodes = prop_global" "nf_addr five_nodes = id"
  "nf_preds five_nodes = [five_pred]" "n < 5 \<Longrightarrow> nf_nodes five_nodes n = Some (five_node n)"
  "nf_sortmap five_nodes = replicate 4 None" "five_ordered 1 = five_nodes"
  by (simp_all add: five_nodes_def)

definition five_val :: "nat \<Rightarrow> int" where
  "five_val n = sint (five_keys ! n)"

lemma five_val_simps [simp]:
  "five_val 0 = 2" "five_val (Suc 0) = 0" "five_val 2 = 1" "five_val 3 = 3" "five_val 4 = 4"
  by (simp_all add: five_val_def five_keys_def numeral_eq_Suc)

lemma five_cases: "n < 5 \<Longrightarrow> n = 0 \<or> n = 1 \<or> n = 2 \<or> n = 3 \<or> n = (4 :: nat)"
  by arith

lemma five_val_facts:
  "n < 5 \<Longrightarrow> 0 \<le> five_val n \<and> five_val n \<le> 4" "m < 5 \<Longrightarrow> n < 5 \<Longrightarrow> m \<noteq> n \<Longrightarrow> five_val n \<noteq> five_val m"
  by (auto dest!: five_cases)

lemma five_cmp:
  assumes n: "n < 5" "m < 5" and s: "s = 1 \<or> s = - 1"
  shows "nf_egress_cmp (five_ordered s) n m = Some (if n = m then 1 else s * (five_val n - five_val m))"
proof -
  have k: "key_cmp cf b (SORTKEY_INT (five_keys ! n)) (SORTKEY_INT (five_keys ! m)) = Some (five_val n - five_val m)" for cf b
    using five_val_facts(1)[OF n(1)] five_val_facts(1)[OF n(2)] by (simp add: key_cmp_def int_ok_def five_val_def)
  have i: "int_ok ((five_val n - five_val m) * s) = Some (s * (five_val n - five_val m))"
    using five_val_facts(1)[OF n(1)] five_val_facts(1)[OF n(2)] s by (auto simp: int_ok_def)
  show ?thesis
  proof (cases "n = m")
    case True
    then show ?thesis using n k by (simp add: nf_egress_cmp_def upt_four five_node_def)
  next
    case False
    then show ?thesis using n k i five_val_facts(2)[OF n(2,1)] s
      by (auto simp: nf_egress_cmp_def upt_four five_node_def)
  qed
qed

lemma five_order:
  assumes "s = 1 \<or> s = - 1"
  shows "nf_keys_order (five_ordered s)"
proof -
  let ?c = "nf_egress_cmp (five_ordered s)"
  have l: "cmp_less ?c n m \<longleftrightarrow> s * five_val n < s * five_val m" if "n < 5" "m < 5" for m n
    using five_cmp[OF that assms] by (cases "m = n") (auto simp: cmp_less_def right_diff_distrib)
  have "cmp_total ?c {..<5}" using five_cmp[OF _ _ assms] five_val_facts(2) assms by (auto simp: cmp_total_def)
  moreover have "cmp_less ?c a b \<longleftrightarrow> \<not> cmp_less ?c b a" if "a < 5" "b < 5" "a \<noteq> b" for a b
    using five_val_facts(2)[OF that] assms unfolding l[OF that(1,2)] l[OF that(2,1)] by auto
  moreover have "cmp_less ?c a d" if "a < 5" "b < 5" "d < 5" "cmp_less ?c a b" "cmp_less ?c b d" for a b d
    using that(4,5) unfolding l[OF that(1,2)] l[OF that(2,3)] l[OF that(1,3)] by simp
  ultimately have "cmp_order ?c {..<5}" unfolding cmp_order_def by blast
  moreover have "set [0, 1, 2, 3, 4] = {..<5 :: nat}" by auto
  ultimately show ?thesis by (simp add: nf_keys_order_def)
qed

lemma five_ok: "nf_view_ok five_nodes"
proof -
  note f = some_props_facts[of 5]
  have l: "nf_out_list five_nodes = [1, 2, 0, 3, 4]" using five_tree_facts(2) by (simp add: nf_out_list_def)
  have lt: "n < 5" if "n \<in> {0, 1, 2, 3, 4 :: nat}" for n using that by auto
  have o: "node_out five_nodes n = None" if "n < 5" for n using that by (simp add: node_out_def five_node_def)
  have sh: "nf_shown five_nodes = []" by (simp add: nf_shown_def l List.map_filter_simps o)
  have p: "the_pred 1 five_nodes = Some five_pred" by (simp add: the_pred_def five_pred_def)
  have ok: "node_ok five_nodes (five_node n)" if n: "n < 5" for n
    using some_props_child[of "Suc n" 5] n p sh by (simp add: node_ok_def) (simp add: five_node_def MAX_SORT_KEYS_def)
  have "\<forall>n \<in> set (nf_in five_nodes). \<exists>nd. nf_nodes five_nodes n = Some nd \<and> node_ok five_nodes nd"
    using ok five_fields(11) lt by (metis five_fields(1) list.set)
  then have wf: "nf_wf five_nodes"
    using f five_tree_facts(1) unfolding nf_wf_def l sh by auto
  have "cmp_sorted (nf_egress_cmp five_nodes) [1, 2, 0, 3, 4]"
    using five_cmp[of _ _ 1] by (simp add: cmp_less_def)
  then have "nf_ordered five_nodes" by (simp add: nf_ordered_def l)
  moreover have "node_right five_nodes n" if "n < 5" for n
    using that p by (simp add: node_right_def nf_enabled_def upt_four)
      (simp add: five_node_def pred_rejects_def p five_pred_def)
  ultimately show ?thesis using wf lt by (simp add: nf_view_ok_def)
qed

theorem nodefilter_shows_what_it_should_witness:
  "view_after (nf_set_sortkey_x 0 0 (mk_notify 0 EV_SET_INT (NV_int 2)) five_nodes) [0, 1, 2, 3, 4]
    \<and> view_after (nf_move_node 0 None five_nodes) [1, 2, 3, 4, 0]
    \<and> view_after (set_pred 0 1 False five_nodes) [0, 1, 2, 3, 4]
    \<and> view_after (pnp_set_enable 1 1 five_nodes) [0, 1, 2, 3, 4]"
proof -
  have k: "nf_keys_order five_nodes" using five_order[of 1] by simp
  have n: "nf_nodes five_nodes 0 = Some (five_node 0)" by simp
  have e: "set_sk 0 0 (SORTKEY_INT 2) five_nodes = five_nodes"
    unfolding set_sk_def by (rule upd_nfn_id[OF n]) (simp add: five_node_def five_keys_def)
  have m: "new_key (nf_sortmap five_nodes ! 0) (mk_notify 0 EV_SET_INT (NV_int 2)) = Some (SORTKEY_INT 2)"
    by (simp add: new_key_def mk_notify_def)
  have z: "0 \<in> set (nf_in five_nodes)" by simp
  note t = nodefilter_shows_what_it_should[OF five_ok z]
  show ?thesis
  proof (intro conjI)
    show "view_after (nf_set_sortkey_x 0 0 (mk_notify 0 EV_SET_INT (NV_int 2)) five_nodes) [0, 1, 2, 3, 4]"
      using t m k e by (metis five_fields(1))
    show "view_after (nf_move_node 0 None five_nodes) [1, 2, 3, 4, 0]"
      using t k by (force simp: put_before_def)
    show "view_after (set_pred 0 1 False five_nodes) [0, 1, 2, 3, 4]"
      using t n by (force simp: five_node_def)
    show "view_after (pnp_set_enable 1 1 five_nodes) [0, 1, 2, 3, 4]"
      using t by (force simp: the_pred_def five_pred_def)
  qed
qed

text \<open>The five nodes in the wrong order after they have been inserted again, largest key first.\<close>

lemma five_resort:
  "\<exists>h. resort (nf_egress_cmp (five_ordered (- 1))) [0, 1, 2, 3, 4] five_tree = Some h \<and> rb_list h = [4, 0, 3, 2, 1]"
  using five_cmp[of _ _ "- 1"]
  by (simp add: resort1_def five_tree_def RB_REMOVE_def RB_INSERT_SORTED_def rb_unlink_def remove_left_def remove_right_def
      RB_NEXT_def RB_PREV_def rb_parent_def rb_list_def)

text \<open>The five nodes once their predicate is enabled, so that all are shown.\<close>

definition five_shown :: "prop_nf \<Rightarrow> bool" where
  "five_shown w \<longleftrightarrow> nf_view_ok w \<and> nf_in w = [0, 1, 2, 3, 4] \<and> nf_sortorder w = [1, 0, 0, 0] \<and> nf_out_tree w = five_tree
     \<and> nf_sorted w \<and> nf_sortmap w = replicate 4 None
     \<and> nf_egress_cmp (w\<lparr>nf_sortorder := [- 1, 0, 0, 0]\<rparr>) = nf_egress_cmp (five_ordered (- 1))
     \<and> enabled_inputs w = ([Some ''key'', None, None, None], replicate 4 False, [five_pred\<lparr>pnp_enabled := True\<rparr>])
     \<and> (\<forall>n < 5. \<exists>nd. nf_nodes w n = Some nd \<and> nfn_sk nd = nfn_sk (five_node n) \<and> nfn_preds nd = nfn_preds (five_node n))"

lemma five_enabled: "\<exists>w. five_shown w"
proof -
  let ?v = "upd_conf 1 (\<lambda>p. p\<lparr>pnp_enabled := True\<rparr>) five_nodes"
  have p1: "the_pred 1 five_nodes = Some five_pred" by (simp add: the_pred_def five_pred_def)
  obtain w where w: "pnp_set_enable 1 1 five_nodes = Some w" "nf_view_ok w" "nf_in w = [0, 1, 2, 3, 4]"
    using enable_ok[OF five_ok, of 1 1] p1 by auto
  then have "ofold nf_update_egress [0, 1, 2, 3, 4] ?v = Some w"
    using p1 by (simp add: pnp_set_enable_def five_pred_def del: ofold.simps)
  then have al: "alike ?v w" and tr: "nf_out_tree w = five_tree"
    using egress_fold[of "[0, 1, 2, 3, 4]" ?v w] by (simp_all add: upd_conf_def)
  have wv: "w = ?v\<lparr>nf_nodes := nf_nodes w, nf_props := nf_props w, nf_out_tree := nf_out_tree w, nf_out_queue := nf_out_queue w\<rparr>"
    using al by (simp add: alike_def)
  have f: "nf_sorted w" "nf_sortkey w = nf_sortkey five_nodes" "nf_casefold w = nf_casefold five_nodes"
    "nf_ignore_the w = nf_ignore_the five_nodes" "nf_addr w = nf_addr five_nodes" "nf_sortorder w = [1, 0, 0, 0]"
    "nf_sort_hide_on_missing w = replicate 4 False" "nf_sortmap w = replicate 4 None"
    by (subst wv, simp add: upd_conf_def; simp add: five_nodes_def)+
  have "nf_egress_cmp (w\<lparr>nf_sortorder := [- 1, 0, 0, 0]\<rparr>) = nf_egress_cmp (five_ordered (- 1))"
  proof (rule egress_cmp_cong)
    show "map_option nfn_sk (nf_nodes (w\<lparr>nf_sortorder := [- 1, 0, 0, 0]\<rparr>) n) = map_option nfn_sk (nf_nodes (five_ordered (- 1)) n)" for n
      using alike_sk[OF al, of n] by (simp add: upd_conf_def)
  qed (simp_all add: f)
  moreover have "enabled_inputs w = ([Some ''key'', None, None, None], replicate 4 False, [five_pred\<lparr>pnp_enabled := True\<rparr>])"
    using alikeD(4)[OF al] f by (simp add: enabled_inputs_def upd_conf_def five_pred_def)
  moreover have "\<forall>n < 5. \<exists>nd. nf_nodes w n = Some nd \<and> nfn_sk nd = nfn_sk (five_node n) \<and> nfn_preds nd = nfn_preds (five_node n)"
    using alikeD(9)[OF al] by (simp add: upd_conf_def)
  ultimately show ?thesis using w(2,3) tr f(1,6,8) unfolding five_shown_def by blast
qed

text \<open>All keys delivered again after the order has been turned around.\<close>

lemma five_turned:
  assumes "five_shown w"
  shows "nf_keys_order (w\<lparr>nf_sortorder := [- 1, 0, 0, 0]\<rparr>)"
    "\<exists>w'. ofold (\<lambda>n. nf_set_sortkey_x 0 n (mk_notify 0 EV_SET_INT (NV_int (five_keys ! n)))) [0, 1, 2, 3, 4]
         (w\<lparr>nf_sortorder := [- 1, 0, 0, 0]\<rparr>) = Some w' \<and> nf_shows_right w' \<and> nf_out_list w' = [4, 0, 3, 2, 1]
       \<and> (\<forall>n < 5. node_out w' n \<noteq> None \<and> (\<exists>nd. nf_nodes w' n = Some nd \<and> nfn_sk nd = nfn_sk (five_node n)))"
proof -
  let ?w = "w\<lparr>nf_sortorder := [- 1, 0, 0, 0]\<rparr>"
  note s = assms[unfolded five_shown_def]
  have nd: "\<exists>nd. nf_nodes w n = Some nd \<and> nfn_sk nd = nfn_sk (five_node n) \<and> nfn_preds nd = nfn_preds (five_node n)" if "n < 5" for n
    using s that by blast
  show k: "nf_keys_order ?w" using five_order[of "- 1"] s by (simp add: nf_keys_order_def)
  have e: "\<forall>n \<in> set [0, 1, 2, 3, 4]. \<exists>nd. nf_nodes ?w n = Some nd
      \<and> new_key (nf_sortmap ?w ! 0) (mk_notify 0 EV_SET_INT (NV_int (five_keys ! n))) = Some (nfn_sk nd ! 0)"
  proof
    fix n :: nat assume "n \<in> set [0, 1, 2, 3, 4]"
    then have "n < 5" by auto
    then show "\<exists>nd. nf_nodes ?w n = Some nd
        \<and> new_key (nf_sortmap ?w ! 0) (mk_notify 0 EV_SET_INT (NV_int (five_keys ! n))) = Some (nfn_sk nd ! 0)"
      using nd[of n] s by (auto simp: new_key_def mk_notify_def five_node_def)
  qed
  have r: "nf_shows_right ?w" using shows_right_order s by blast
  obtain w' where w': "ofold (\<lambda>n. nf_set_sortkey_x 0 n (mk_notify 0 EV_SET_INT (NV_int (five_keys ! n)))) [0, 1, 2, 3, 4] ?w = Some w'"
    "nf_shows_right w'" "alike ?w w'" "resort (nf_egress_cmp ?w) [0, 1, 2, 3, 4] (nf_out_tree ?w) = Some (nf_out_tree w')"
    using keys_again[OF r _ keys_comparable[OF k] _ _ e] s by (auto simp: MAX_SORT_KEYS_def simp del: ofold.simps resort.simps)
  note d = alikeD[OF w'(3)]
  have "nf_out_list w' = [4, 0, 3, 2, 1]"
    using five_resort w'(4) d(2) s by (auto simp: nf_out_list_def simp del: resort.simps)
  moreover have "node_out w' n \<noteq> None \<and> (\<exists>nd. nf_nodes w' n = Some nd \<and> nfn_sk nd = nfn_sk (five_node n))" if n: "n < 5" for n
  proof -
    obtain nd1 where n1: "nf_nodes w n = Some nd1" "nfn_sk nd1 = nfn_sk (five_node n)" "nfn_preds nd1 = nfn_preds (five_node n)"
      using nd[OF n] by blast
    obtain nd2 where n2: "nf_nodes w' n = Some nd2" "nfn_sk nd2 = nfn_sk nd1" "nfn_preds nd2 = nfn_preds nd1"
      using d(9)[of n nd1] n1(1) by auto
    have i: "enabled_inputs w' = enabled_inputs w" using d(7) by (simp add: enabled_inputs_def)
    have "nf_filter w' = None" "node_right w' n"
      using w'(2) d(1) s five_cases[OF n] by (auto simp: nf_shows_right_def)
    moreover from this(1) have "nf_enabled nd2 w' = Some True"
      using i s n1 n2 n
      by (simp add: nf_enabled_def upt_four enabled_inputs_def five_node_def pred_rejects_def the_pred_def five_pred_def)
    ultimately show ?thesis using n1 n2 by (simp add: node_right_def node_out_def)
  qed
  ultimately show "\<exists>w'. ofold (\<lambda>n. nf_set_sortkey_x 0 n (mk_notify 0 EV_SET_INT (NV_int (five_keys ! n)))) [0, 1, 2, 3, 4]
       ?w = Some w' \<and> nf_shows_right w' \<and> nf_out_list w' = [4, 0, 3, 2, 1]
     \<and> (\<forall>n < 5. node_out w' n \<noteq> None \<and> (\<exists>nd. nf_nodes w' n = Some nd \<and> nfn_sk nd = nfn_sk (five_node n)))"
    using w'(1,2) by blast
qed

text \<open>
  C8. Turning the order of a list around leaves it out of order. \<open>prop_nf_sort\<close> changes the sign of
  the comparison and then subscribes to the key of one node after the other, which calls back at once:
  the node is taken out of a tree that is still in the old order, and put in where the new comparison
  leads in it. Of five nodes that show 0, 1, 2, 3 and 4 the destination then shows 4, 2, 3, 1 and 0,
  though the keys can be ordered.
\<close>

theorem sorting_again_leaves_disorder:
  "\<exists>w w'. nf_view_ok w \<and> nf_in w = [0, 1, 2, 3, 4] \<and> nf_sortorder w = [1, 0, 0, 0]
     \<and> nf_keys_order (w\<lparr>nf_sortorder := [- 1, 0, 0, 0]\<rparr>)
     \<and> ofold (\<lambda>n. nf_set_sortkey_x 0 n (mk_notify 0 EV_SET_INT (NV_int (five_keys ! n)))) (nf_in w)
         (w\<lparr>nf_sortorder := [- 1, 0, 0, 0]\<rparr>) = Some w'
     \<and> None \<notin> node_out w' ` set (nf_in w)
     \<and> hp_childs (nf_props w') (nf_dst w') = map (\<lambda>n. the (node_out w' n)) [4, 0, 3, 2, 1]
     \<and> map (\<lambda>n. map_option (\<lambda>nd. nfn_sk nd ! 0) (nf_nodes w' n)) [4, 0, 3, 2, 1]
         = map (\<lambda>i. Some (SORTKEY_INT i)) [4, 2, 3, 1, 0]"
proof -
  obtain w where w: "five_shown w" using five_enabled by blast
  obtain w' where w': "ofold (\<lambda>n. nf_set_sortkey_x 0 n (mk_notify 0 EV_SET_INT (NV_int (five_keys ! n)))) [0, 1, 2, 3, 4]
      (w\<lparr>nf_sortorder := [- 1, 0, 0, 0]\<rparr>) = Some w'" "nf_shows_right w'" "nf_out_list w' = [4, 0, 3, 2, 1]"
    and n: "\<forall>n < 5. node_out w' n \<noteq> None \<and> (\<exists>nd. nf_nodes w' n = Some nd \<and> nfn_sk nd = nfn_sk (five_node n))"
    using five_turned(2)[OF w] by blast
  have s: "node_out w' n \<noteq> None" "\<exists>nd. nf_nodes w' n = Some nd \<and> nfn_sk nd = nfn_sk (five_node n)" if "n < 5" for n
    using n that by blast+
  have "hp_childs (nf_props w') (nf_dst w') = nf_shown w'"
    using w'(2) nf_wfD(6) by (auto simp: nf_shows_right_def dest_def)
  moreover have "nf_shown w' = map (\<lambda>n. the (node_out w' n)) [4, 0, 3, 2, 1]"
    using s(1)[of 0] s(1)[of 1] s(1)[of 2] s(1)[of 3] s(1)[of 4] by (auto simp: nf_shown_def w'(3) List.map_filter_simps)
  moreover have "map (\<lambda>n. map_option (\<lambda>nd. nfn_sk nd ! 0) (nf_nodes w' n)) [4, 0, 3, 2, 1] = map (\<lambda>i. Some (SORTKEY_INT i)) [4, 2, 3, 1, 0]"
    using s(2)[of 0] s(2)[of 1] s(2)[of 2] s(2)[of 3] s(2)[of 4] by (auto simp: five_node_def five_keys_def)
  moreover have "None \<notin> node_out w' ` set [0, 1, 2, 3, 4]" using s(1)[of 0] s(1)[of 1] s(1)[of 2] s(1)[of 3] s(1)[of 4] by force
  ultimately show ?thesis
    using w w'(1) five_turned(1)[OF w] unfolding five_shown_def by (metis (no_types, lifting))
qed

end
