(* ===== verification/Prop_Window.thy ===== *)
theory Prop_Window
  imports Prop_Tags Prop_Destroy
begin

text \<open>
  A window on a list (\<open>src/prop/prop_window.c\<close>): of the children of a source, those that are added
  at a position within the window, as the children of a destination. The record holds
  \<open>struct prop_window\<close> with its nodes, the tags and the property system; a node is known by a number.
  \<open>None\<close> is an \<open>abort()\<close>, signed overflow, a null or a stale pointer.
\<close>

record prop_window_node =
  pwn_in :: pid
  pwn_out :: "pid option"
  pwn_pos :: int

record prop_window =
  pw_srcsub :: "sid option"
  pw_dst :: pid
  pw_win_start :: int
  pw_win_length :: int
  pw_count :: int
  pw_queue :: "(nat \<times> prop_window_node) list"
  pw_fresh :: nat
  pw_key :: nat
  pw_tags :: prop_tags
  pw_props :: pst

definition pw_run :: "(pst \<Rightarrow> pst option) \<Rightarrow> prop_window \<Rightarrow> prop_window option" where
  "pw_run f w = map_option (\<lambda>st. w\<lparr>pw_props := st\<rparr>) (f (pw_props w))"

definition pw_unqueue :: "nat \<Rightarrow> prop_window \<Rightarrow> prop_window" where
  "pw_unqueue n w = w\<lparr>pw_queue := filter (\<lambda>(m, _). m \<noteq> n) (pw_queue w)\<rparr>"

text \<open>The output of a node, if it has one, is destroyed.\<close>

definition pw_hide :: "prop_window_node \<Rightarrow> prop_window \<Rightarrow> prop_window option" where
  "pw_hide nd w = (case pwn_out nd of None \<Rightarrow> Some w | Some x \<Rightarrow> pw_run (\<lambda>st. map_option snd (destroy_now x st)) w)"

definition pw_clear :: "prop_window \<Rightarrow> prop_window option" where
  "pw_clear w =
     ofold (\<lambda>(n, nd) w. map_option (\<lambda>w1. w1\<lparr>pw_tags := snd (prop_tag_clear (pwn_in nd) (pw_key w1) (pw_tags w1))\<rparr>)
                          (pw_hide nd (pw_unqueue n w))) (pw_queue w) w"

definition int_sum :: "int \<Rightarrow> int \<Rightarrow> int option" where
  "int_sum i j = (if - (2 ^ 31) \<le> i + j \<and> i + j < 2 ^ 31 then Some (i + j) else None)"

definition in_window :: "prop_window \<Rightarrow> bool option" where
  "in_window w =
     (if pw_win_start w \<le> pw_count w
      then map_option (\<lambda>e. pw_count w < e) (int_sum (pw_win_start w) (pw_win_length w))
      else Some False)"

definition pw_add_child :: "pid \<Rightarrow> prop_window \<Rightarrow> prop_window option" where
  "pw_add_child p w =
     do { shown \<leftarrow> in_window w;
          (xo, st) \<leftarrow> (if shown then
                         (case prop_make None False None (pw_props w) of
                            (x, st1) \<Rightarrow> do { st2 \<leftarrow> prop_link0 p x None PROP_LINK_NORMAL st1;
                                            (_, st3) \<leftarrow> prop_set_parent0 x (pw_dst w) None None st2;
                                            Some (Some x, st3) })
                       else Some (None, pw_props w));
          c \<leftarrow> int_sum (pw_count w) 1;
          Some (w\<lparr>pw_count := c, pw_fresh := Suc (pw_fresh w), pw_props := st,
                  pw_queue := pw_queue w @ [(pw_fresh w, \<lparr>pwn_in = p, pwn_out = xo, pwn_pos = pw_count w\<rparr>)],
                  pw_tags := prop_tag_set p (pw_key w) (pw_fresh w) (pw_tags w)\<rparr>) }"

text \<open>Moves in the source are ignored.\<close>

definition pw_move_child :: "nat option \<Rightarrow> nat option \<Rightarrow> prop_window \<Rightarrow> prop_window" where
  "pw_move_child n before w = w"

definition pw_del_child :: "nat \<Rightarrow> prop_window \<Rightarrow> prop_window option" where
  "pw_del_child n w = do { nd \<leftarrow> map_of (pw_queue w) n; pw_hide nd (pw_unqueue n w) }"

definition pw_src_cb :: "prop_notify_t \<Rightarrow> prop_window \<Rightarrow> prop_window option" where
  "pw_src_cb e w =
     (case (hpn_event e, hpn_val e) of
        (EV_ADD_CHILD, NV_prop (Some p)) \<Rightarrow> pw_add_child p w
      | (EV_ADD_CHILD_VECTOR, NV_propv _ ps) \<Rightarrow> ofold pw_add_child ps w
      | (EV_ADD_CHILD_VECTOR_DIRECT, NV_propv _ ps) \<Rightarrow> ofold pw_add_child ps w
      | (EV_MOVE_CHILD, NV_prop (Some p)) \<Rightarrow>
          Some (pw_move_child (prop_tag_get p (pw_key w) (pw_tags w))
                  (Option.bind (hpn_prop_extra e) (\<lambda>q. prop_tag_get q (pw_key w) (pw_tags w))) w)
      | (EV_SET_DIR, _) \<Rightarrow> Some w
      | (EV_DEL_CHILD, NV_prop (Some p)) \<Rightarrow>
          (case prop_tag_clear p (pw_key w) (pw_tags w) of
             (None, _) \<Rightarrow> None
           | (Some n, tg) \<Rightarrow> pw_del_child n (w\<lparr>pw_tags := tg\<rparr>))
      | (EV_SET_VOID, _) \<Rightarrow> pw_clear w
      | (EV_HAVE_MORE_CHILDS_YES, _) \<Rightarrow> Some w
      | (EV_HAVE_MORE_CHILDS_NO, _) \<Rightarrow> Some w
      | (EV_WANT_MORE_CHILDS, _) \<Rightarrow> Some w
      | (EV_SELECT_CHILD, _) \<Rightarrow> Some w
      | _ \<Rightarrow> None)"

text \<open>
  The bounds are unsigned, and stored as signed integers. The calls made while the source is
  subscribed to are handled right after.
\<close>

definition prop_window_create ::
  "nat \<Rightarrow> pid \<Rightarrow> pid \<Rightarrow> u32 \<Rightarrow> u32 \<Rightarrow> bool \<Rightarrow> prop_tags \<Rightarrow> pst \<Rightarrow> prop_window option" where
  "prop_window_create key dst src start len take_dst tg st =
     do { st1 \<leftarrow> (if take_dst then Some st else prop_xref_addref (Some dst) st);
          (so, st2) \<leftarrow> prop_subscribe {PROP_SUB_INTERNAL, PROP_SUB_DONTLOCK} [TAG_CALLBACK 0 key, TAG_ROOT (Some src)] st1;
          w \<leftarrow> ofold pw_src_cb (filter (\<lambda>n. hpn_sub n = snext st1) (drop (length (calls st1)) (calls st2)))
                 \<lparr>pw_srcsub = None, pw_dst = dst, pw_win_start = sint start, pw_win_length = sint len, pw_count = 0,
                  pw_queue = [], pw_fresh = 0, pw_key = key, pw_tags = tg, pw_props = st2\<rparr>;
          Some (w\<lparr>pw_srcsub := so\<rparr>) }"

definition prop_window_destroy :: "prop_window \<Rightarrow> prop_window option" where
  "prop_window_destroy w =
     do { w1 \<leftarrow> pw_clear w;
          s \<leftarrow> pw_srcsub w1;
          pw_run (\<lambda>st. do { st1 \<leftarrow> prop_unsubscribe0 s st; map_option snd (destroy_now (pw_dst w1) st1) }) w1 }"

end
