(* ===== verification/Prop_Window_Inv.thy ===== *)
theory Prop_Window_Inv
  imports Prop_Window Prop_Outs
begin

text \<open>
  What a window shows. The invariant \<open>win_ok ins w\<close> relates the window to the children \<open>ins\<close> its
  source has told of: there is a node for each, with an output exactly when its position is within
  the window, and the outputs are the children of the destination, in order.
\<close>

definition win_shown :: "prop_window \<Rightarrow> pid list" where
  "win_shown w = List.map_filter (\<lambda>(n, nd). pwn_out nd) (pw_queue w)"

definition within :: "prop_window \<Rightarrow> int \<Rightarrow> bool" where
  "within w i \<longleftrightarrow> pw_win_start w \<le> i \<and> i < pw_win_start w + pw_win_length w"

definition win_node_ok :: "prop_window \<Rightarrow> nat \<times> prop_window_node \<Rightarrow> bool" where
  "win_node_ok w q \<longleftrightarrow> (case q of (n, nd) \<Rightarrow>
     n < pw_fresh w \<and> prop_tag_get (pwn_in nd) (pw_key w) (pw_tags w) = Some n
     \<and> pwn_in nd < pnext (pw_props w) \<and> pwn_in nd \<notin> set (win_shown w)
     \<and> (\<forall>x. pwn_out nd = Some x \<longrightarrow> outp (pw_props w) (pw_dst w) (pwn_in nd) x)
     \<and> (pwn_out nd \<noteq> None \<longleftrightarrow> within w (pwn_pos nd)) \<and> 0 \<le> pwn_pos nd \<and> pwn_pos nd < pw_count w)"

definition win_ok :: "pid list \<Rightarrow> prop_window \<Rightarrow> bool" where
  "win_ok ins w \<longleftrightarrow>
     tree_ok (pw_props w) \<and> dest (pw_props w) (pw_dst w) (win_shown w) \<and> pw_dst w \<notin> set (win_shown w)
     \<and> map (\<lambda>(n, nd). pwn_in nd) (pw_queue w) = ins \<and> distinct ins \<and> distinct (map fst (pw_queue w))
     \<and> (\<forall>q \<in> set (pw_queue w). win_node_ok w q)
     \<and> sorted_wrt (<) (map (\<lambda>(n, nd). pwn_pos nd) (pw_queue w))
     \<and> 0 \<le> pw_win_start w \<and> 0 \<le> pw_win_length w \<and> pw_win_start w + pw_win_length w < 2 ^ 31 \<and> 0 \<le> pw_count w"

lemma win_okD:
  assumes "win_ok ins w"
  shows "tree_ok (pw_props w)" "dest (pw_props w) (pw_dst w) (win_shown w)" "pw_dst w \<notin> set (win_shown w)"
    "map (\<lambda>(n, nd). pwn_in nd) (pw_queue w) = ins" "distinct ins" "distinct (map fst (pw_queue w))"
    "q \<in> set (pw_queue w) \<Longrightarrow> win_node_ok w q" "0 \<le> pw_win_start w" "0 \<le> pw_win_length w"
    "pw_win_start w + pw_win_length w < 2 ^ 31" "0 \<le> pw_count w"
    "sorted_wrt (<) (map (\<lambda>(n, nd). pwn_pos nd) (pw_queue w))" "distinct (win_shown w)"
  using assms unfolding win_ok_def by blast+
    (use assms tree_okD(6) in \<open>unfold win_ok_def dest_def, metis\<close>)

lemma in_shown: "(n, nd) \<in> set (pw_queue w) \<Longrightarrow> pwn_out nd = Some x \<Longrightarrow> x \<in> set (win_shown w)"
  by (force simp: win_shown_def List.map_filter_def)

lemma shown_pnext: "win_ok ins w \<Longrightarrow> x \<in> set (win_shown w) \<Longrightarrow> x < pnext (pw_props w)"
  using child_facts(2)[OF win_okD(1,2)] by blast

section \<open>Adding\<close>

text \<open>A new child of the source, not yet known and not one of the outputs.\<close>

definition win_addable :: "pid list \<Rightarrow> prop_window \<Rightarrow> pid \<Rightarrow> bool" where
  "win_addable ins w p \<longleftrightarrow> source_child (pw_props w) p \<and> p \<notin> set ins \<and> p \<notin> set (win_shown w)"

text \<open>A node is still right after the property system has changed in other places.\<close>

lemma win_node_kept:
  assumes "win_node_ok w q" "only D (pw_props w) (pw_props w')" "set_option (pwn_out (snd q)) \<inter> D = {}"
    and "pw_dst w' = pw_dst w" "pw_key w' = pw_key w" "pw_fresh w \<le> pw_fresh w'" "pw_count w \<le> pw_count w'"
    and "pw_win_start w' = pw_win_start w" "pw_win_length w' = pw_win_length w"
    and "prop_tag_get (pwn_in (snd q)) (pw_key w) (pw_tags w') = prop_tag_get (pwn_in (snd q)) (pw_key w) (pw_tags w)"
    and "set (win_shown w') \<subseteq> set (win_shown w) \<union> {pnext (pw_props w)..}"
  shows "win_node_ok w' q"
proof -
  obtain n nd where q: "q = (n, nd)" by fastforce
  note a = assms[unfolded q, simplified]
  have "outp (pw_props w') (pw_dst w') (pwn_in nd) x" if "pwn_out nd = Some x" for x
    using outp_only[OF a(2), of x] that a(1,3,4) by (auto simp: win_node_ok_def)
  moreover have "pwn_in nd \<notin> set (win_shown w')" using a(1,11) by (auto simp: win_node_ok_def)
  moreover have "pnext (pw_props w) \<le> pnext (pw_props w')" using onlyD(2)[OF a(2)] .
  ultimately show ?thesis using a by (auto simp: q win_node_ok_def within_def)
qed

lemma win_add:
  assumes w: "win_ok ins w" and p: "win_addable ins w p" and c: "pw_count w + 1 < 2 ^ 31"
  obtains w' where "pw_add_child p w = Some w'" "win_ok (ins @ [p]) w'" "pw_count w' = pw_count w + 1"
    "links_kept (pw_props w) (pw_props w')" "set (win_shown w') \<subseteq> set (win_shown w) \<union> {pnext (pw_props w)..}"
    "pw_win_start w' = pw_win_start w" "pw_win_length w' = pw_win_length w"
    "map (\<lambda>(n, nd). pwn_pos nd) (pw_queue w') = map (\<lambda>(n, nd). pwn_pos nd) (pw_queue w) @ [pw_count w]"
proof -
  note d = win_okD[OF w] and res = that
  let ?x = "pnext (pw_props w)"
  have sp: "p < ?x" "type_of (pw_props w) p \<noteq> PROP_ZOMBIE" "p \<notin> set ins" "p \<notin> set (win_shown w)"
    using p by (auto simp: win_addable_def source_child_def)
  obtain r where r: "follow_originator (Suc ?x) (pw_props w) p = Some r" using p by (auto simp: win_addable_def source_child_def)
  have iw: "in_window w = Some (within w (pw_count w))" using d(8-11) by (auto simp: in_window_def int_sum_def within_def)
  have cc: "int_sum (pw_count w) 1 = Some (pw_count w + 1)" using c d(11) by (simp add: int_sum_def)
  have nin: "p \<noteq> pwn_in nd" if "(n, nd) \<in> set (pw_queue w)" for n nd
    using d(4) that sp(3) by force
  \<comment> \<open>the window after the new node got the output \<open>xo\<close>\<close>
  have fin: thesis
    if run: "pw_add_child p w = Some w'" and w': "w' = w\<lparr>pw_count := pw_count w + 1, pw_fresh := Suc (pw_fresh w), pw_props := st,
          pw_queue := pw_queue w @ [(pw_fresh w, \<lparr>pwn_in = p, pwn_out = xo, pwn_pos = pw_count w\<rparr>)],
          pw_tags := prop_tag_set p (pw_key w) (pw_fresh w) (pw_tags w)\<rparr>"
      and on: "only {p, pw_dst w} (pw_props w) st" and ds: "dest st (pw_dst w) (win_shown w @ opt_list xo)"
      and lk: "links_kept (pw_props w) st" and xo: "xo \<noteq> None \<longleftrightarrow> within w (pw_count w)"
      and ox: "\<And>x. xo = Some x \<Longrightarrow> x = ?x \<and> outp st (pw_dst w) p x"
    for w' st xo
  proof -
    have sh: "win_shown w' = win_shown w @ opt_list xo"
      by (simp add: w' win_shown_def List.map_filter_def opt_list_def split: option.split)
    have sub: "set (win_shown w') \<subseteq> set (win_shown w) \<union> {?x..}" using ox by (auto simp: sh opt_list_def split: option.split)
    have n1: "?x \<le> pnext st" using onlyD(2)[OF on] .
    have old: "win_node_ok w' q" if q: "q \<in> set (pw_queue w)" for q
    proof -
      have "set_option (pwn_out (snd q)) \<inter> {p, pw_dst w} = {}"
        using in_shown[of "fst q" "snd q" w] q sp(4) d(3) by auto
      moreover have "p \<noteq> pwn_in (snd q)" using nin[of "fst q" "snd q"] q by simp
      ultimately show ?thesis using sub on
        by (intro win_node_kept[OF d(7)[OF q], of "{p, pw_dst w}"]) (auto simp: w')
    qed
    have new: "win_node_ok w' (pw_fresh w, \<lparr>pwn_in = p, pwn_out = xo, pwn_pos = pw_count w\<rparr>)"
      using sp n1 ox xo d(11) sub by (auto simp: win_node_ok_def within_def w' sh opt_list_def split: option.splits)
    have fr: "pw_fresh w \<notin> fst ` set (pw_queue w)" using d(7) by (force simp: win_node_ok_def)
    have ps: "\<forall>q \<in> set (pw_queue w). pwn_pos (snd q) < pw_count w" using d(7) by (force simp: win_node_ok_def)
    have dx: "pw_dst w \<notin> set (opt_list xo)" using ox d(2) by (auto simp: opt_list_def dest_def split: option.split)
    have "win_ok (ins @ [p]) w'" unfolding win_ok_def
    proof (intro conjI)
      show "\<forall>q \<in> set (pw_queue w'). win_node_ok w' q" using old new by (auto simp: w')
      show "sorted_wrt (<) (map (\<lambda>(n, nd). pwn_pos nd) (pw_queue w'))"
        using d(12) ps by (auto simp: w' sorted_wrt_append)
      show "map (\<lambda>(n, nd). pwn_in nd) (pw_queue w') = ins @ [p]" using d(4) by (simp add: w')
      show "distinct (map fst (pw_queue w'))" using d(6) fr by (simp add: w')
      show "dest (pw_props w') (pw_dst w') (win_shown w')" "pw_dst w' \<notin> set (win_shown w')"
        using ds dx d(3) unfolding sh by (simp_all add: w')
    qed (use onlyD(1)[OF on] d(5,8-11) sp(3) in \<open>simp_all add: w'\<close>)
    then show thesis using res[OF run] lk sub by (simp add: w')
  qed
  show ?thesis
  proof (cases "within w (pw_count w)")
    case True
    obtain st2 st3 where
      l: "prop_link0 p ?x None PROP_LINK_NORMAL (snd (prop_make None False None (pw_props w))) = Some st2"
      and s: "prop_set_parent0 ?x (pw_dst w) None None st2 = Some (True, st3)" and n3: "pnext st3 = Suc ?x"
      and f: "dest st3 (pw_dst w) (place None ?x (win_shown w))" "outp st3 (pw_dst w) p ?x"
        "only {p, pw_dst w} (pw_props w) st3"
        "\<forall>x < ?x. hp_originator (props st3 x) = hp_originator (props (pw_props w) x)
           \<and> (type_of (pw_props w) x \<noteq> PROP_ZOMBIE \<longrightarrow> type_of st3 x \<noteq> PROP_ZOMBIE)"
      using put[OF d(1,2) sp(1,2) r, of None None False None] by blast
    have m: "fst (prop_make None False None (pw_props w)) = ?x" by (simp add: prop_make_def)
    have run: "pw_add_child p w = Some (w\<lparr>pw_count := pw_count w + 1, pw_fresh := Suc (pw_fresh w), pw_props := st3,
          pw_queue := pw_queue w @ [(pw_fresh w, \<lparr>pwn_in = p, pwn_out = Some ?x, pwn_pos = pw_count w\<rparr>)],
          pw_tags := prop_tag_set p (pw_key w) (pw_fresh w) (pw_tags w)\<rparr>)"
      using iw True cc l s m by (cases "prop_make None False None (pw_props w)") (simp add: pw_add_child_def)
    show ?thesis
      by (rule fin[OF run refl f(3)]) (use f n3 True in \<open>auto simp: place_def opt_list_def links_kept_def\<close>)
  next
    case False
    have run: "pw_add_child p w = Some (w\<lparr>pw_count := pw_count w + 1, pw_fresh := Suc (pw_fresh w), pw_props := pw_props w,
          pw_queue := pw_queue w @ [(pw_fresh w, \<lparr>pwn_in = p, pwn_out = None, pwn_pos = pw_count w\<rparr>)],
          pw_tags := prop_tag_set p (pw_key w) (pw_fresh w) (pw_tags w)\<rparr>)"
      using iw False cc by (simp add: pw_add_child_def)
    show ?thesis
      by (rule fin[OF run refl]) (use d(1,2) False in \<open>auto simp: only_def opt_list_def links_kept_def\<close>)
  qed
qed

section \<open>Removing\<close>

lemma filter_others: "\<forall>x \<in> set qs. fst x \<noteq> n \<Longrightarrow> filter (\<lambda>(m, _). m \<noteq> n) qs = qs"
  by (induction qs) auto

lemma win_remove:
  assumes w: "win_ok ins w" and q: "(n, nd) \<in> set (pw_queue w)"
  obtains w' where "pw_hide nd (pw_unqueue n w) = Some w'" "win_ok (remove1 (pwn_in nd) ins) w'"
    "w' = w\<lparr>pw_queue := filter (\<lambda>(m, _). m \<noteq> n) (pw_queue w), pw_props := pw_props w'\<rparr>"
proof -
  note d = win_okD[OF w] and res = that
  obtain A B where ab: "pw_queue w = A @ (n, nd) # B" using split_list[OF q] by blast
  have nn: "\<forall>x \<in> set A. fst x \<noteq> n" "\<forall>x \<in> set B. fst x \<noteq> n" using d(6) by (force simp: ab)+
  have fl: "filter (\<lambda>(m, _). m \<noteq> n) (pw_queue w) = A @ B"
    using filter_others[OF nn(1)] filter_others[OF nn(2)] by (simp add: ab)
  have ins: "ins = map (\<lambda>(n, nd). pwn_in nd) A @ pwn_in nd # map (\<lambda>(n, nd). pwn_in nd) B" using d(4) by (simp add: ab)
  have rm: "remove1 (pwn_in nd) ins = map (\<lambda>(n, nd). pwn_in nd) (A @ B)"
    using d(5) unfolding ins by (subst remove1_append) auto
  have ok: "win_node_ok w (n, nd)" using d(7)[OF q] .
  have sw: "win_shown w = List.map_filter (\<lambda>(n, nd). pwn_out nd) (A @ (n, nd) # B)" by (simp only: win_shown_def ab)
  have sh: "List.map_filter (\<lambda>(n, nd). pwn_out nd) (A @ B) = (case pwn_out nd of None \<Rightarrow> win_shown w | Some x \<Rightarrow> remove1 x (win_shown w))"
    unfolding sw using map_filter_remove[OF d(13)[unfolded sw]] by (simp only: prod.case)
  have fin: thesis
    if run: "pw_hide nd (pw_unqueue n w) = Some w'" and w': "w' = w\<lparr>pw_queue := A @ B, pw_props := st\<rparr>"
      and on: "only D (pw_props w) st" and D: "D = set_option (pwn_out nd) \<union> {pw_dst w, pwn_in nd}"
      and ds: "dest st (pw_dst w) (List.map_filter (\<lambda>(n, nd). pwn_out nd) (A @ B))" for w' st D
  proof -
    have sh': "win_shown w' = List.map_filter (\<lambda>(n, nd). pwn_out nd) (A @ B)" by (simp add: w' win_shown_def)
    have sub: "set (win_shown w') \<subseteq> set (win_shown w)"
      unfolding sh' sh by (auto split: option.splits dest: subsetD[OF set_remove1_subset])
    have old: "win_node_ok w' p" if p: "p \<in> set (A @ B)" for p
    proof -
      have pq: "p \<in> set (pw_queue w)" using p by (auto simp: ab)
      have "x \<notin> D" if "pwn_out (snd p) = Some x" for x
      proof -
        have "x \<in> set (win_shown w)" using in_shown[of "fst p" "snd p" w x] pq that by simp
        moreover have "x \<in> set (List.map_filter (\<lambda>(n, nd). pwn_out nd) (A @ B))"
          unfolding map_filter_set using p that by (intro bexI[of _ p]) (auto split: prod.split)
        then have "pwn_out nd \<noteq> Some x" using d(13) unfolding sh by (auto split: option.splits)
        ultimately show ?thesis using ok d(3) by (auto simp: D win_node_ok_def)
      qed
      then have "set_option (pwn_out (snd p)) \<inter> D = {}" by auto
      then show ?thesis using sub on
        by (intro win_node_kept[OF d(7)[OF pq], of D]) (auto simp: w')
    qed
    have "win_ok (remove1 (pwn_in nd) ins) w'" unfolding win_ok_def rm
    proof (intro conjI)
      show "\<forall>q \<in> set (pw_queue w'). win_node_ok w' q" using old by (simp add: w')
      show "sorted_wrt (<) (map (\<lambda>(n, nd). pwn_pos nd) (pw_queue w'))"
        using d(12) by (auto simp: w' ab sorted_wrt_append)
      show "distinct (map fst (pw_queue w'))" using d(6) by (auto simp: w' ab)
      show "distinct (map (\<lambda>(n, nd). pwn_in nd) (A @ B))" using d(5) by (auto simp: ins)
      show "dest (pw_props w') (pw_dst w') (win_shown w')" unfolding sh' using ds by (simp add: w')
      show "pw_dst w' \<notin> set (win_shown w')" using sub d(3) by (auto simp: w')
    qed (use onlyD(1)[OF on] d(8-11) in \<open>simp_all add: w'\<close>)
    then show thesis using res[OF run] fl by (simp add: w')
  qed
  show ?thesis
  proof (cases "pwn_out nd")
    case None
    have "pw_hide nd (pw_unqueue n w) = Some (w\<lparr>pw_queue := A @ B, pw_props := pw_props w\<rparr>)"
      using None fl by (simp add: pw_hide_def pw_unqueue_def)
    then show ?thesis by (rule fin[OF _ refl _ refl]) (use d(1,2) sh None in \<open>auto simp: only_def\<close>)
  next
    case (Some x)
    have x: "outp (pw_props w) (pw_dst w) (pwn_in nd) x" "x \<in> set (win_shown w)" "x \<noteq> pw_dst w" "pwn_in nd \<noteq> x"
      using ok in_shown[OF q Some] d(3) Some by (auto simp: win_node_ok_def)
    obtain st' where st: "destroy_now x (pw_props w) = Some (True, st')" "dest st' (pw_dst w) (remove1 x (win_shown w))"
      "only {x, pw_dst w, pwn_in nd} (pw_props w) st'"
      using drop[OF d(1,2) x] by blast
    have "pw_hide nd (pw_unqueue n w) = Some (w\<lparr>pw_queue := A @ B, pw_props := st'\<rparr>)"
      using Some fl st(1) by (simp add: pw_hide_def pw_unqueue_def pw_run_def)
    then show ?thesis by (rule fin[OF _ refl st(3)]) (use st(2) sh Some in auto)
  qed
qed

lemma win_untag:
  assumes "win_ok ins w" "p \<notin> set ins"
  shows "win_ok ins (w\<lparr>pw_tags := snd (prop_tag_clear p (pw_key w) (pw_tags w))\<rparr>)"
proof -
  let ?w = "w\<lparr>pw_tags := snd (prop_tag_clear p (pw_key w) (pw_tags w))\<rparr>"
  have sh: "win_shown ?w = win_shown w" by (simp add: win_shown_def)
  have "win_node_ok ?w q" if q: "q \<in> set (pw_queue w)" for q
  proof -
    have "pwn_in (snd q) \<noteq> p" using win_okD(4)[OF assms(1)] assms(2) q by (cases q) force
    then show ?thesis using win_okD(7)[OF assms(1) q] by (auto simp: win_node_ok_def sh within_def split: prod.splits)
  qed
  then show ?thesis using assms(1) by (simp add: win_ok_def sh)
qed

lemma hide_tags:
  "pw_hide nd (pw_unqueue n (w\<lparr>pw_tags := tg\<rparr>)) = map_option (\<lambda>w'. w'\<lparr>pw_tags := tg\<rparr>) (pw_hide nd (pw_unqueue n w))"
  by (cases "pwn_out nd"; cases w) (simp_all add: pw_hide_def pw_unqueue_def pw_run_def option.map_comp comp_def)

lemma win_del:
  assumes w: "win_ok ins w" and p: "p \<in> set ins"
  obtains n tg w' where "prop_tag_clear p (pw_key w) (pw_tags w) = (Some n, tg)" "pw_del_child n (w\<lparr>pw_tags := tg\<rparr>) = Some w'"
    "win_ok (remove1 p ins) w'" "pw_count w' = pw_count w" "pw_win_start w' = pw_win_start w" "pw_win_length w' = pw_win_length w"
    "pw_queue w' = filter (\<lambda>q. pwn_in (snd q) \<noteq> p) (pw_queue w)"
proof -
  note d = win_okD[OF w] and res = that
  obtain n nd where q: "(n, nd) \<in> set (pw_queue w)" and i: "pwn_in nd = p" using d(4) p by force
  obtain w1 where w1: "pw_hide nd (pw_unqueue n w) = Some w1" "win_ok (remove1 (pwn_in nd) ins) w1"
    "w1 = w\<lparr>pw_queue := filter (\<lambda>(m, _). m \<noteq> n) (pw_queue w), pw_props := pw_props w1\<rparr>"
    by (rule win_remove[OF w q])
  define tg where "tg = snd (prop_tag_clear p (pw_key w) (pw_tags w))"
  have t: "prop_tag_clear p (pw_key w) (pw_tags w) = (Some n, tg)"
    using d(7)[OF q] i tag_get_clear(2)[of p "pw_key w" "pw_tags w"]
    by (simp add: tg_def win_node_ok_def prod_eq_iff)
  have m: "map_of (pw_queue w) n = Some nd" using q d(6) by (simp add: map_of_is_SomeI)
  have k: "pw_key w1 = pw_key w" "pw_tags w1 = pw_tags w" "pw_count w1 = pw_count w" "pw_win_start w1 = pw_win_start w"
    "pw_win_length w1 = pw_win_length w" "pw_queue w1 = filter (\<lambda>(m, _). m \<noteq> n) (pw_queue w)" by (subst w1(3), simp)+
  have "fst r \<noteq> n \<longleftrightarrow> pwn_in (snd r) \<noteq> p" if "r \<in> set (pw_queue w)" for r
  proof -
    have "distinct (map (\<lambda>q. pwn_in (snd q)) (pw_queue w))" using d(4,5) by (simp add: split_def)
    then have "pwn_in (snd r) = p \<Longrightarrow> r = (n, nd)" using that q i inj_onD[of "\<lambda>q. pwn_in (snd q)" "set (pw_queue w)" r "(n, nd)"] by (simp add: distinct_map)
    moreover have "fst r = n \<Longrightarrow> r = (n, nd)" using d(6) that q inj_onD[of fst "set (pw_queue w)" r "(n, nd)"] by (simp add: distinct_map)
    ultimately show ?thesis using i by (cases r) auto
  qed
  then have fl: "filter (\<lambda>(m, _). m \<noteq> n) (pw_queue w) = filter (\<lambda>q. pwn_in (snd q) \<noteq> p) (pw_queue w)"
    by (intro filter_cong) (auto simp: split_def)
  have "win_ok (remove1 p ins) (w1\<lparr>pw_tags := tg\<rparr>)"
    using win_untag[OF w1(2), of p] d(5) by (simp add: i k tg_def)
  then show ?thesis
    using res[OF t, of "w1\<lparr>pw_tags := tg\<rparr>"] m w1(1) k fl by (simp add: pw_del_child_def hide_tags)
qed

lemma win_clear:
  assumes "win_ok ins w"
  shows "\<exists>w'. pw_clear w = Some w' \<and> win_ok [] w' \<and> pw_count w' = pw_count w"
proof -
  have "\<exists>w'. ofold (\<lambda>(n, nd) w. map_option (\<lambda>w1. w1\<lparr>pw_tags := snd (prop_tag_clear (pwn_in nd) (pw_key w1) (pw_tags w1))\<rparr>)
                          (pw_hide nd (pw_unqueue n w))) qs w = Some w' \<and> win_ok [] w' \<and> pw_count w' = pw_count w"
    if "win_ok ins w" "pw_queue w = qs" for qs ins w
    using that
  proof (induction qs arbitrary: ins w)
    case Nil
    then have "ins = []" using win_okD(4)[OF Nil(1)] by simp
    then show ?case using Nil by simp
  next
    case (Cons q qs)
    obtain n nd where q: "q = (n, nd)" by fastforce
    note d = win_okD[OF Cons.prems(1)]
    obtain w1 where w1: "pw_hide nd (pw_unqueue n w) = Some w1" "win_ok (remove1 (pwn_in nd) ins) w1"
      "w1 = w\<lparr>pw_queue := filter (\<lambda>(m, _). m \<noteq> n) (pw_queue w), pw_props := pw_props w1\<rparr>"
      by (rule win_remove[OF Cons.prems(1)]) (use Cons.prems(2) q in auto)
    let ?w = "w1\<lparr>pw_tags := snd (prop_tag_clear (pwn_in nd) (pw_key w1) (pw_tags w1))\<rparr>"
    have "\<forall>x \<in> set qs. fst x \<noteq> n" using d(6) Cons.prems(2) q by force
    then have "filter (\<lambda>(m, _). m \<noteq> n) (pw_queue w) = qs" using Cons.prems(2) q filter_others by simp
    then have qw: "pw_queue ?w = qs" "pw_count ?w = pw_count w" by (subst w1(3), simp)+
    have "win_ok (remove1 (pwn_in nd) ins) ?w" using win_untag[OF w1(2), of "pwn_in nd"] d(5) by simp
    from Cons.IH[OF this qw(1)] show ?case using w1(1) qw(2) by (simp add: q)
  qed
  from this[OF assms refl] show ?thesis unfolding pw_clear_def .
qed

section \<open>Events\<close>

lemma win_add_all:
  assumes "win_ok ins w" "distinct ps" "\<forall>p \<in> set ps. win_addable ins w p" "pw_count w + int (length ps) < 2 ^ 31"
  shows "\<exists>w'. ofold pw_add_child ps w = Some w' \<and> win_ok (ins @ ps) w' \<and> pw_count w' = pw_count w + int (length ps)
    \<and> pw_win_start w' = pw_win_start w \<and> pw_win_length w' = pw_win_length w
    \<and> map (\<lambda>(n, nd). pwn_pos nd) (pw_queue w')
        = map (\<lambda>(n, nd). pwn_pos nd) (pw_queue w) @ map (\<lambda>i. pw_count w + int i) [0..<length ps]"
  using assms
proof (induction ps arbitrary: ins w)
  case (Cons p ps)
  obtain w1 where w1: "pw_add_child p w = Some w1" "win_ok (ins @ [p]) w1" "pw_count w1 = pw_count w + 1"
    "links_kept (pw_props w) (pw_props w1)" "set (win_shown w1) \<subseteq> set (win_shown w) \<union> {pnext (pw_props w)..}"
    "pw_win_start w1 = pw_win_start w" "pw_win_length w1 = pw_win_length w"
    "map (\<lambda>(n, nd). pwn_pos nd) (pw_queue w1) = map (\<lambda>(n, nd). pwn_pos nd) (pw_queue w) @ [pw_count w]"
    by (rule win_add[OF Cons.prems(1), of p]) (use Cons.prems(3,4) in auto)
  have "win_addable (ins @ [p]) w1 q" if "q \<in> set ps" for q
  proof -
    have q: "source_child (pw_props w) q" "q \<notin> set ins" "q \<notin> set (win_shown w)" "q \<noteq> p"
      using Cons.prems(2,3) that by (auto simp: win_addable_def)
    then have "q < pnext (pw_props w)" by (simp add: source_child_def)
    then show ?thesis using q source_child_kept[OF win_okD(1)[OF Cons.prems(1)] w1(4)] w1(5) by (auto simp: win_addable_def)
  qed
  then obtain w' where w': "ofold pw_add_child ps w1 = Some w'" "win_ok ((ins @ [p]) @ ps) w'"
    "pw_count w' = pw_count w1 + int (length ps)" "pw_win_start w' = pw_win_start w1" "pw_win_length w' = pw_win_length w1"
    "map (\<lambda>(n, nd). pwn_pos nd) (pw_queue w')
        = map (\<lambda>(n, nd). pwn_pos nd) (pw_queue w1) @ map (\<lambda>i. pw_count w1 + int i) [0..<length ps]"
    using Cons.IH[OF w1(2)] Cons.prems(2,4) w1(3) by auto
  have "map (\<lambda>i. pw_count w + int i) [0..<Suc (length ps)] = pw_count w # map (\<lambda>i. pw_count w1 + int i) [0..<length ps]"
    by (subst upt_conv_Cons) (simp_all add: map_Suc_upt[symmetric] w1(3) algebra_simps del: upt_Suc)
  then show ?case using w1(1,3,6-8) w' by simp
qed simp

section \<open>What is shown\<close>

text \<open>The children of the source whose position is within the window, in order.\<close>

definition window_inputs :: "prop_window \<Rightarrow> pid list" where
  "window_inputs w = map (\<lambda>q. pwn_in (snd q)) (filter (\<lambda>q. within w (pwn_pos (snd q))) (pw_queue w))"

text \<open>The children of a directory are outputs for these, linked to them unless the link was cut.\<close>

definition outputs_for :: "pst \<Rightarrow> pid \<Rightarrow> pid list \<Rightarrow> bool" where
  "outputs_for st d ps \<longleftrightarrow> list_all2 (outp st d) ps (hp_childs st d)"

lemma win_outputs:
  assumes "win_ok ins w"
  shows "outputs_for (pw_props w) (pw_dst w) (window_inputs w)"
proof -
  have "list_all2 (outp (pw_props w) (pw_dst w)) (map (\<lambda>q. pwn_in (snd q)) (filter (\<lambda>q. within w (pwn_pos (snd q))) qs))
      (List.map_filter (\<lambda>(n, nd). pwn_out nd) qs)" if "\<forall>q \<in> set qs. win_node_ok w q" for qs
    using that
  proof (induction qs)
    case (Cons q qs)
    then show ?case by (cases q) (auto simp: win_node_ok_def List.map_filter_simps split: option.split)
  qed (simp add: List.map_filter_simps)
  then show ?thesis
    using win_okD(2,7)[OF assms] by (simp add: outputs_for_def window_inputs_def win_shown_def dest_def)
qed

text \<open>No child has been removed yet.\<close>

definition win_whole :: "pid list \<Rightarrow> prop_window \<Rightarrow> bool" where
  "win_whole ins w \<longleftrightarrow> map (\<lambda>(n, nd). pwn_pos nd) (pw_queue w) = map int [0..<length ins] \<and> pw_count w = int (length ins)"

lemma take_drop_filter: "map fst (filter (\<lambda>q. a \<le> snd q \<and> snd q < a + b) (zip xs [0..<length xs])) = take b (drop a xs)"
proof (induction xs rule: rev_induct)
  case (snoc x xs)
  then show ?case by (auto simp: zip_append)
qed simp

lemma win_slice:
  assumes "win_ok ins w" "win_whole ins w"
  shows "window_inputs w = take (nat (pw_win_length w)) (drop (nat (pw_win_start w)) ins)"
proof -
  note d = win_okD[OF assms(1)]
  let ?in = "\<lambda>q. pwn_in (snd q)" and ?pos = "\<lambda>q. nat (pwn_pos (snd q))"
  have i: "map ?in (pw_queue w) = ins" using d(4) by (simp add: split_def)
  have "map (\<lambda>q. pwn_pos (snd q)) (pw_queue w) = map int [0..<length ins]" using assms(2) by (simp add: win_whole_def split_def)
  then have "map nat (map (\<lambda>q. pwn_pos (snd q)) (pw_queue w)) = map nat (map int [0..<length ins])" by (rule arg_cong)
  then have p: "map ?pos (pw_queue w) = [0..<length ins]" by (simp add: comp_def)
  have z: "zip ins [0..<length ins] = map (\<lambda>q. (?in q, ?pos q)) (pw_queue w)"
    unfolding i[symmetric] p[symmetric, unfolded i[symmetric]] by (simp only: zip_map_map zip_same_conv_map) simp
  have "within w (pwn_pos (snd q)) \<longleftrightarrow> nat (pw_win_start w) \<le> ?pos q \<and> ?pos q < nat (pw_win_start w) + nat (pw_win_length w)"
    if "q \<in> set (pw_queue w)" for q
    using d(7)[OF that] d(8,9) by (auto simp: win_node_ok_def within_def split: prod.splits)
  then have "filter (\<lambda>q. within w (pwn_pos (snd q))) (pw_queue w)
      = filter (\<lambda>q. nat (pw_win_start w) \<le> ?pos q \<and> ?pos q < nat (pw_win_start w) + nat (pw_win_length w)) (pw_queue w)"
    by (intro filter_cong) auto
  then show ?thesis
    by (simp add: window_inputs_def take_drop_filter[symmetric] z filter_map comp_def)
qed

end
