(* ===== verification/Prop_Reorder.thy ===== *)
theory Prop_Reorder
  imports Prop_Tags Prop_Destroy Htsmsg
begin

text \<open>
  Lists in an order of the user (\<open>src/prop/prop_reorder.c\<close>): the children of a source as the
  children of a destination, in the order that a request to move one left behind. The order is a
  message with the names of the children, which the settings keep under \<open>pr_store\<close>. The record holds
  \<open>prop_reorder_t\<close>, the tags and the property system; \<open>pr_saved\<close> has what was saved, the last first.
  \<open>None\<close> is an \<open>abort()\<close>, a failed assertion, a null or a stale pointer, or a walk along links that
  does not end.
\<close>

record prop_reorder =
  pr_dst :: pid
  pr_srcsub :: "sid option"
  pr_dstsub :: "sid option"
  pr_order :: htsmsg
  pr_store :: string
  pr_saved :: "(htsmsg \<times> string) list"
  pr_key :: nat
  pr_tags :: prop_tags
  pr_props :: pst

definition pr_run :: "(pst \<Rightarrow> pst option) \<Rightarrow> prop_reorder \<Rightarrow> prop_reorder option" where
  "pr_run f w = map_option (\<lambda>st. w\<lparr>pr_props := st\<rparr>) (f (pr_props w))"

text \<open>The name at the end of the links.\<close>

definition get_id :: "pst \<Rightarrow> pid \<Rightarrow> string option option" where
  "get_id st p = map_option (\<lambda>r. hp_name (props st r)) (follow_originator (Suc (pnext st)) st p)"

definition save_order :: "prop_reorder \<Rightarrow> prop_reorder option" where
  "save_order w =
     do { out \<leftarrow> ofold (\<lambda>p out. do { io \<leftarrow> get_id (pr_props w) p; i \<leftarrow> io; htsmsg_add_str out None i })
                   (if is_dir (type_of (pr_props w) (pr_dst w)) then hp_childs (pr_props w) (pr_dst w) else [])
                   htsmsg_create_list;
          Some (w\<lparr>pr_saved := (out, pr_store w) # pr_saved w, pr_order := out\<rparr>) }"

text \<open>The fields behind the one with this name, and the child with the name of one of these.\<close>

fun behind_id :: "string \<Rightarrow> hfield list \<Rightarrow> hfield list" where
  "behind_id i [] = []"
| "behind_id i (f # fs) = (if snd f = HMF_STR i then fs else behind_id i fs)"

fun with_id :: "pst \<Rightarrow> string \<Rightarrow> pid list \<Rightarrow> pid option option" where
  "with_id st i [] = Some None"
| "with_id st i (c # cs) =
     do { io \<leftarrow> get_id st c;
          if (case io of None \<Rightarrow> [] | Some j \<Rightarrow> j) = i then Some (Some c) else with_id st i cs }"

fun first_with_id :: "pst \<Rightarrow> pid list \<Rightarrow> hfield list \<Rightarrow> pid option option" where
  "first_with_id st cs [] = Some None"
| "first_with_id st cs ((_, HMF_STR i) # fs) =
     do { co \<leftarrow> with_id st i cs; (case co of Some c \<Rightarrow> Some (Some c) | None \<Rightarrow> first_with_id st cs fs) }"
| "first_with_id st cs (_ # fs) = first_with_id st cs fs"

text \<open>A child without a name is compared only if the order has a string.\<close>

definition get_before :: "prop_reorder \<Rightarrow> string option \<Rightarrow> pid option option" where
  "get_before w io =
     (case io of
        None \<Rightarrow> if \<exists>f \<in> set (hm_fields (pr_order w)). (case snd f of HMF_STR _ \<Rightarrow> True | _ \<Rightarrow> False) then None else Some None
      | Some i \<Rightarrow>
          if is_dir (type_of (pr_props w) (pr_dst w))
          then first_with_id (pr_props w) (hp_childs (pr_props w) (pr_dst w)) (behind_id i (hm_fields (pr_order w)))
          else Some None)"

definition pr_add_child :: "pid \<Rightarrow> prop_reorder \<Rightarrow> prop_reorder option" where
  "pr_add_child p w =
     (case prop_make None False None (pr_props w) of
        (x, st1) \<Rightarrow>
          do { st2 \<leftarrow> prop_link0 p x None PROP_LINK_NORMAL st1;
               let w1 = w\<lparr>pr_tags := prop_tag_set p (pr_key w) x (pr_tags w), pr_props := st2\<rparr>
               in do { io \<leftarrow> get_id st2 p;
                       b \<leftarrow> get_before w1 io;
                       pr_run (\<lambda>st. map_option snd (prop_set_parent0 x (pr_dst w) b None st)) w1 } })"

definition pr_src_cb :: "prop_notify_t \<Rightarrow> prop_reorder \<Rightarrow> prop_reorder option" where
  "pr_src_cb e w =
     (case (hpn_event e, hpn_val e) of
        (EV_ADD_CHILD, NV_prop (Some p)) \<Rightarrow> pr_add_child p w
      | (EV_ADD_CHILD_BEFORE, NV_prop (Some p)) \<Rightarrow> pr_add_child p w
      | (EV_ADD_CHILD_VECTOR, NV_propv _ ps) \<Rightarrow> ofold pr_add_child ps w
      | (EV_ADD_CHILD_VECTOR_DIRECT, NV_propv _ ps) \<Rightarrow> ofold pr_add_child ps w
      | (EV_DEL_CHILD, NV_prop (Some p)) \<Rightarrow>
          (case prop_tag_clear p (pr_key w) (pr_tags w) of
             (None, _) \<Rightarrow> None
           | (Some x, tg) \<Rightarrow> pr_run (\<lambda>st. map_option snd (destroy_now x st)) (w\<lparr>pr_tags := tg\<rparr>))
      | (EV_MOVE_CHILD, _) \<Rightarrow> Some w
      | (EV_SET_VOID, _) \<Rightarrow> Some w
      | (EV_SET_DIR, _) \<Rightarrow> Some w
      | (EV_HAVE_MORE_CHILDS_YES, _) \<Rightarrow> Some w
      | (EV_HAVE_MORE_CHILDS_NO, _) \<Rightarrow> Some w
      | (EV_WANT_MORE_CHILDS, _) \<Rightarrow> Some w
      | (EV_REQ_DELETE_VECTOR, _) \<Rightarrow> Some w
      | (EV_REQ_DELETE, _) \<Rightarrow> Some w
      | _ \<Rightarrow> None)"

definition pr_dst_cb :: "prop_notify_t \<Rightarrow> prop_reorder \<Rightarrow> prop_reorder option" where
  "pr_dst_cb e w =
     (case (hpn_event e, hpn_val e) of
        (EV_REQ_MOVE_CHILD, NV_prop (Some p)) \<Rightarrow>
          do { w1 \<leftarrow> pr_run (prop_move0 p (hpn_prop_extra e) (pr_dstsub w)) w; save_order w1 }
      | (EV_REQ_MOVE_CHILD, _) \<Rightarrow> None
      | _ \<Rightarrow> Some w)"

text \<open>\<open>loaded\<close> is what the settings have under the name. The calls made while it subscribes are handled right after.\<close>

definition prop_reorder_create ::
  "nat \<Rightarrow> htsmsg option \<Rightarrow> pid \<Rightarrow> pid \<Rightarrow> bool \<Rightarrow> string \<Rightarrow> prop_tags \<Rightarrow> pst \<Rightarrow> prop_reorder option" where
  "prop_reorder_create key loaded dst src take_dst ident tg st =
     do { st1 \<leftarrow> (if take_dst then Some st else prop_xref_addref (Some dst) st);
          (ss, st2) \<leftarrow> prop_subscribe {PROP_SUB_INTERNAL, PROP_SUB_DONTLOCK, PROP_SUB_TRACK_DESTROY}
                         [TAG_CALLBACK 0 key, TAG_ROOT (Some src)] st1;
          w \<leftarrow> ofold pr_src_cb (filter (\<lambda>n. hpn_sub n = snext st1) (drop (length (calls st1)) (calls st2)))
                 \<lparr>pr_dst = dst, pr_srcsub = None, pr_dstsub = None,
                  pr_order = (case loaded of None \<Rightarrow> htsmsg_create_list | Some m \<Rightarrow> m), pr_store = ident, pr_saved = [],
                  pr_key = key, pr_tags = tg, pr_props = st2\<rparr>;
          (ds, st3) \<leftarrow> prop_subscribe {PROP_SUB_INTERNAL, PROP_SUB_DONTLOCK, PROP_SUB_TRACK_DESTROY}
                         [TAG_CALLBACK 1 key, TAG_ROOT (Some dst)] (pr_props w);
          w1 \<leftarrow> ofold pr_dst_cb (filter (\<lambda>n. hpn_sub n = snext (pr_props w)) (drop (length (calls (pr_props w))) (calls st3)))
                 (w\<lparr>pr_srcsub := ss, pr_props := st3\<rparr>);
          Some (w1\<lparr>pr_dstsub := ds\<rparr>) }"

end
