(* ===== verification/Prop_Reorder_Inv.thy ===== *)
theory Prop_Reorder_Inv
  imports Prop_Reorder Prop_Outs
begin

text \<open>
  What a list in the order of the user shows. The invariant \<open>ro_ok ins w\<close> relates it to the children
  \<open>ins\<close> its source has told of, and \<open>ro_in_order L w\<close> says that those named in the saved order \<open>L\<close>
  come in this order.
\<close>

section \<open>Names\<close>

definition named_as :: "pst \<Rightarrow> (pid \<Rightarrow> string) \<Rightarrow> pid list \<Rightarrow> bool" where
  "named_as st ident cs \<longleftrightarrow> (\<forall>c \<in> set cs. get_id st c = Some (Some (ident c)))"

definition id_of :: "pst \<Rightarrow> pid \<Rightarrow> string" where
  "id_of st c = (case get_id st c of Some (Some i) \<Rightarrow> i | _ \<Rightarrow> [])"

text \<open>The links from \<open>p\<close> end where they did, if they do not pass a property that has changed.\<close>

lemma follow_same:
  assumes "tree_ok st" "follow_originator k st p = Some r" "p < pnext st" "p \<noteq> z"
    and "\<And>y. y < pnext st \<Longrightarrow> y \<noteq> z \<Longrightarrow> hp_originator (props st' y) = hp_originator (props st y)"
    and "\<And>y. y < pnext st \<Longrightarrow> hp_originator (props st y) \<noteq> Some z"
  shows "follow_originator k st' p = Some r"
  using assms(2-4)
proof (induction k arbitrary: p)
  case 0 then show ?case by simp
next
  case (Suc k)
  then show ?case using assms(5)[of p] assms(6)[of p] tree_okD(4)[OF assms(1), of p] by (auto split: option.splits)
qed

lemma get_id_same:
  assumes t: "tree_ok st" and g: "get_id st p = Some io" and p: "p < pnext st" "p \<noteq> z" and n: "pnext st \<le> pnext st'"
    and o: "\<And>y. y < pnext st \<Longrightarrow> y \<noteq> z \<Longrightarrow> hp_originator (props st' y) = hp_originator (props st y)"
    and c: "\<And>y. y < pnext st \<Longrightarrow> hp_originator (props st y) \<noteq> Some z"
    and nm: "\<And>y. y < pnext st \<Longrightarrow> hp_name (props st' y) = hp_name (props st y)"
  shows "get_id st' p = Some io"
proof -
  obtain r where r: "follow_originator (Suc (pnext st)) st p = Some r" "io = hp_name (props st r)"
    using g unfolding get_id_def by (auto simp del: follow_originator.simps)
  have "r < pnext st" using follow_originator_less[OF t p(1) r(1)] .
  moreover have "follow_originator (Suc (pnext st)) st' p = Some r"
    by (rule follow_same[OF t r(1) p o c])
  then have "follow_originator (Suc (pnext st')) st' p = Some r" by (rule follow_more) (use n in simp)
  ultimately show ?thesis using r(2) nm by (simp add: get_id_def del: follow_originator.simps)
qed

text \<open>Nothing is linked to a property that is not allocated yet.\<close>

lemma get_id_fresh:
  assumes "tree_ok st" "get_id st p = Some io" "p < pnext st" "pnext st \<le> pnext st'"
    and "\<And>y. y < pnext st \<Longrightarrow> hp_originator (props st' y) = hp_originator (props st y) \<and> hp_name (props st' y) = hp_name (props st y)"
  shows "get_id st' p = Some io"
  using get_id_same[OF assms(1-3), of "pnext st" st'] assms(3-5) tree_okD(4)[OF assms(1)] by fastforce

text \<open>A new property that is linked to \<open>p\<close> has its name.\<close>

lemma get_id_new:
  assumes t: "tree_ok st" and g: "get_id st p = Some io" and p: "p < pnext st" and n: "pnext st' = Suc (pnext st)"
    and o: "hp_originator (props st' (pnext st)) = Some p"
    and s: "\<And>y. y < pnext st \<Longrightarrow> hp_originator (props st' y) = hp_originator (props st y) \<and> hp_name (props st' y) = hp_name (props st y)"
  shows "get_id st' (pnext st) = Some io"
proof -
  obtain r where r: "follow_originator (Suc (pnext st)) st p = Some r" "io = hp_name (props st r)"
    using g unfolding get_id_def by (auto simp del: follow_originator.simps)
  have l: "r < pnext st" using follow_originator_less[OF t p r(1)] .
  have "follow_originator (Suc (pnext st)) st' p = Some r" by (rule follow_fresh[OF t p r(1)]) (use s in blast)
  then have "follow_originator (Suc (pnext st')) st' (pnext st) = Some r"
    using o by (subst n, subst follow_originator.simps) (simp del: follow_originator.simps)
  then show ?thesis using r(2) l s by (simp add: get_id_def del: follow_originator.simps)
qed

lemma id_of_eq: "get_id st c = Some (Some i) \<Longrightarrow> id_of st c = i"
  by (simp add: id_of_def)

lemma with_id_find: "named_as st ident cs \<Longrightarrow> with_id st i cs = Some (find (\<lambda>c. ident c = i) cs)"
  by (induction cs) (auto simp: named_as_def)

lemma first_with_id_strs:
  assumes "named_as st ident cs" "map snd fs = map HMF_STR L"
  shows "first_with_id st cs fs = Some (case filter (\<lambda>j. j \<in> ident ` set cs) L of [] \<Rightarrow> None | j # _ \<Rightarrow> find (\<lambda>c. ident c = j) cs)"
  using assms(2)
proof (induction fs arbitrary: L)
  case Nil then show ?case by simp
next
  case (Cons f fs)
  obtain n j L' where f: "f = (n, HMF_STR j)" "L = j # L'" "map snd fs = map HMF_STR L'"
    using Cons.prems by (cases f; cases L) auto
  have w: "with_id st j cs = Some (find (\<lambda>c. ident c = j) cs)" by (rule with_id_find[OF assms(1)])
  show ?case
  proof (cases "find (\<lambda>c. ident c = j) cs")
    case None
    then have "j \<notin> ident ` set cs" by (auto simp: find_None_iff)
    then show ?thesis using Cons.IH[OF f(3)] w None by (simp add: f)
  next
    case (Some c)
    then have "j \<in> ident ` set cs" by (auto simp: find_Some_iff)
    then show ?thesis using w Some by (simp add: f)
  qed
qed

lemma behind_id_strs:
  assumes "map snd fs = map HMF_STR L"
  shows "i \<notin> set L \<Longrightarrow> behind_id i fs = []"
    "L = L1 @ i # L2 \<Longrightarrow> i \<notin> set L1 \<Longrightarrow> map snd (behind_id i fs) = map HMF_STR L2"
  using assms
proof (induction fs arbitrary: L L1)
  case Nil
  { case 1 then show ?case by simp }
  { case 2 then show ?case by simp }
next
  case (Cons f fs)
  { case 1 then show ?case using Cons.IH(1)[of "tl L"] by (cases L) auto }
  { case 2
    show ?case
    proof (cases L1)
      case Nil then show ?thesis using 2 by simp
    next
      case (Cons j L1')
      then show ?thesis using 2 Cons.IH(2)[of "L1' @ i # L2" L1'] by auto
    qed }
qed

section \<open>Order\<close>

text \<open>The elements of \<open>ids\<close> that are in \<open>L\<close> come in the order of \<open>L\<close>.\<close>

definition in_order :: "'a list \<Rightarrow> 'a list \<Rightarrow> bool" where
  "in_order L ids \<longleftrightarrow> filter (\<lambda>i. i \<in> set L) ids = filter (\<lambda>i. i \<in> set ids) L"

lemma in_order_self: "in_order L L"
  by (simp add: in_order_def)

lemma in_order_all: "in_order L ids \<Longrightarrow> set ids \<subseteq> set L \<Longrightarrow> ids = filter (\<lambda>i. i \<in> set ids) L"
  unfolding in_order_def by (metis filter_True subsetD)

lemma in_order_remove:
  assumes "in_order L ids" "distinct L" "distinct ids"
  shows "in_order L (remove1 i ids)"
proof -
  have "filter (\<lambda>j. j \<in> set L) (remove1 i ids) = filter (\<lambda>j. j \<noteq> i) (filter (\<lambda>j. j \<in> set L) ids)"
    using assms(3) by (simp add: distinct_remove1_removeAll removeAll_filter_not_eq conj_commute eq_commute)
  also have "\<dots> = filter (\<lambda>j. j \<in> set (remove1 i ids)) L"
    using assms(1,3) by (auto simp: in_order_def intro!: filter_cong)
  finally show ?thesis by (simp add: in_order_def)
qed

lemma in_order_new: "in_order L ids \<Longrightarrow> i \<notin> set L \<Longrightarrow> in_order L (ids @ [i])"
  unfolding in_order_def by (simp add: filter_empty_conv) (metis (mono_tags, lifting) filter_cong)

text \<open>A new element goes before the next one of \<open>L\<close> that is there.\<close>

definition put_at :: "'a option \<Rightarrow> 'a \<Rightarrow> 'a list \<Rightarrow> 'a list" where
  "put_at b x xs = (case b of Some c \<Rightarrow> insert_before c x xs | None \<Rightarrow> xs @ [x])"

lemma in_order_place:
  assumes o: "in_order (L1 @ i # L2) ids" and d: "distinct (L1 @ i # L2)" and i: "i \<notin> set ids"
  shows "in_order (L1 @ i # L2) (put_at (case filter (\<lambda>j. j \<in> set ids) L2 of [] \<Rightarrow> None | j # _ \<Rightarrow> Some j) i ids)"
proof -
  let ?L = "L1 @ i # L2" and ?F = "\<lambda>xs. filter (\<lambda>j. j \<in> set ids) xs" and ?G = "\<lambda>xs. filter (\<lambda>j. j \<in> set (L1 @ i # L2)) xs"
  have e: "?G ids = ?F L1 @ ?F L2" using o i by (simp add: in_order_def)
  have f: "filter (\<lambda>j. j = i \<or> j \<in> set ids) ?L = ?F L1 @ i # ?F L2"
  proof -
    have "filter (\<lambda>j. j = i \<or> j \<in> set ids) L1 = ?F L1" "filter (\<lambda>j. j = i \<or> j \<in> set ids) L2 = ?F L2"
      using d by (auto intro!: filter_cong)
    then show ?thesis by simp
  qed
  show ?thesis
  proof (cases "?F L2")
    case Nil
    then have "?G (ids @ [i]) = ?F L1 @ i # ?F L2" using e by simp
    then show ?thesis using f Nil by (simp add: in_order_def put_at_def)
  next
    case (Cons j js)
    then have "j \<in> set (?F L2)" by simp
    then have j: "j \<in> set L2" "j \<in> set ids" by simp_all
    then obtain A B where ab: "ids = A @ j # B" "j \<notin> set A" using split_list_first by metis
    have g: "?G ids = ?G A @ j # ?G B" using j(1) by (simp add: ab(1))
    have "?G A @ j # ?G B = ?F L1 @ j # js" using e g Cons by simp
    then have "?G A = ?F L1 \<and> ?G B = js" by (rule split_eq) (use ab(2) d j(1) in auto)
    then have "?G (A @ i # j # B) = ?F L1 @ i # ?F L2" using j(1) Cons by simp
    moreover have "put_at (Some j) i ids = A @ i # j # B" using ab by (simp add: put_at_def insert_before_in)
    moreover have "(\<lambda>k. k \<in> set (A @ i # j # B)) = (\<lambda>k. k = i \<or> k \<in> set ids)" by (auto simp: ab(1))
    ultimately show ?thesis using f Cons by (simp add: in_order_def del: set_append)
  qed
qed

lemma put_at_facts:
  "set (put_at b x xs) = insert x (set xs)" "distinct (put_at b x xs) \<longleftrightarrow> x \<notin> set xs \<and> distinct xs"
  "length (put_at b x xs) = Suc (length xs)"
  by (auto simp: put_at_def queue_simps split: option.split)

lemma place_put_at: "place b x xs = put_at b x xs"
  by (simp add: place_def put_at_def)

lemma map_place:
  assumes "distinct (map f cs)" "x \<notin> set cs" "\<And>c. c \<in> set cs \<Longrightarrow> g c = f c" "g x = i" "b = Some c \<Longrightarrow> c \<in> set cs" "b = None \<or> b = Some c"
  shows "map g (place b x cs) = put_at (map_option f b) i (map f cs)"
proof (cases b)
  case None
  then show ?thesis using assms(3,4) by (simp add: place_def put_at_def)
next
  case (Some c)
  then have "c \<in> set cs" using assms(5,6) by auto
  then obtain A B where ab: "cs = A @ c # B" "c \<notin> set A" using split_list_first by metis
  moreover have "f c \<notin> set (map f A)" using assms(1) by (auto simp: ab(1))
  ultimately show ?thesis using assms(3,4) Some by (simp add: place_def put_at_def insert_before_in)
qed

section \<open>The invariant\<close>

definition ro_shown :: "prop_reorder \<Rightarrow> pid list" where
  "ro_shown w = hp_childs (pr_props w) (pr_dst w)"

definition ro_ids :: "prop_reorder \<Rightarrow> string list" where
  "ro_ids w = map (id_of (pr_props w)) (ro_shown w)"

definition ro_child_ok :: "prop_reorder \<Rightarrow> pid \<Rightarrow> bool" where
  "ro_child_ok w p \<longleftrightarrow> p < pnext (pr_props w) \<and> p \<notin> set (ro_shown w)
     \<and> (\<exists>x. prop_tag_get p (pr_key w) (pr_tags w) = Some x \<and> x \<in> set (ro_shown w) \<and> outp (pr_props w) (pr_dst w) p x)"

definition ro_out_ok :: "prop_reorder \<Rightarrow> pid \<Rightarrow> bool" where
  "ro_out_ok w x \<longleftrightarrow> (\<exists>i. get_id (pr_props w) x = Some (Some i)) \<and> (\<forall>y < pnext (pr_props w). hp_originator (props (pr_props w) y) \<noteq> Some x)"

definition ro_ok :: "pid list \<Rightarrow> prop_reorder \<Rightarrow> bool" where
  "ro_ok ins w \<longleftrightarrow>
     tree_ok (pr_props w) \<and> dest (pr_props w) (pr_dst w) (ro_shown w) \<and> pr_dst w \<notin> set (ro_shown w)
     \<and> distinct ins \<and> (\<forall>p \<in> set ins. ro_child_ok w p) \<and> (\<forall>x \<in> set (ro_shown w). ro_out_ok w x)
     \<and> inj_on (\<lambda>p. prop_tag_get p (pr_key w) (pr_tags w)) (set ins) \<and> length (ro_shown w) = length ins"

text \<open>The saved order is a list of strings without repetition, and the list is in this order.\<close>

definition ro_saved :: "string list \<Rightarrow> prop_reorder \<Rightarrow> bool" where
  "ro_saved L w \<longleftrightarrow> map snd (hm_fields (pr_order w)) = map HMF_STR L \<and> distinct L \<and> distinct (ro_ids w) \<and> in_order L (ro_ids w)"

lemma ro_okD:
  assumes "ro_ok ins w"
  shows "tree_ok (pr_props w)" "dest (pr_props w) (pr_dst w) (ro_shown w)" "pr_dst w \<notin> set (ro_shown w)" "distinct ins"
    "p \<in> set ins \<Longrightarrow> ro_child_ok w p" "x \<in> set (ro_shown w) \<Longrightarrow> ro_out_ok w x"
    "inj_on (\<lambda>p. prop_tag_get p (pr_key w) (pr_tags w)) (set ins)" "length (ro_shown w) = length ins"
    "distinct (ro_shown w)" "x \<in> set (ro_shown w) \<Longrightarrow> x < pnext (pr_props w)"
  using assms child_facts(2) unfolding ro_ok_def by blast+
    (use assms tree_okD(6) child_facts(2) in \<open>unfold ro_ok_def ro_shown_def, blast+\<close>)

lemma ro_named: "ro_ok ins w \<Longrightarrow> named_as (pr_props w) (id_of (pr_props w)) (ro_shown w)"
  using ro_okD(6) by (fastforce simp: named_as_def ro_out_ok_def id_of_def)

text \<open>A child is still right after the property system has changed in other places.\<close>

lemma ro_child_kept:
  assumes "ro_child_ok w p" "only D (pr_props w) (pr_props w')" "pr_dst w' = pr_dst w" "pr_key w' = pr_key w"
    and "\<And>x. prop_tag_get p (pr_key w) (pr_tags w) = Some x \<Longrightarrow> x \<notin> D \<and> x \<in> set (ro_shown w')"
    and "prop_tag_get p (pr_key w) (pr_tags w') = prop_tag_get p (pr_key w) (pr_tags w)"
    and "set (ro_shown w') \<subseteq> set (ro_shown w) \<union> {pnext (pr_props w)..}"
  shows "ro_child_ok w' p"
proof -
  obtain x where x: "prop_tag_get p (pr_key w) (pr_tags w) = Some x" "outp (pr_props w) (pr_dst w) p x"
    using assms(1) by (auto simp: ro_child_ok_def)
  have "outp (pr_props w') (pr_dst w') p x" using outp_only[OF assms(2) _ x(2)] assms(3) assms(5)[OF x(1)] by simp
  then show ?thesis
    using x assms(4,5,6,7) onlyD(2)[OF assms(2)] assms(1) by (auto simp: ro_child_ok_def)
qed

section \<open>Adding\<close>

text \<open>A new child of the source that has a name no other one has.\<close>

definition ro_addable :: "pid list \<Rightarrow> prop_reorder \<Rightarrow> pid \<Rightarrow> bool" where
  "ro_addable ins w p \<longleftrightarrow> source_child (pr_props w) p \<and> p \<notin> set ins \<and> p \<notin> set (ro_shown w)
     \<and> (\<exists>i. get_id (pr_props w) p = Some (Some i) \<and> i \<notin> set (ro_ids w))"

text \<open>Where it goes.\<close>

lemma before_place:
  assumes nm: "named_as st ident cs" and di: "distinct (map ident cs)" and d: "is_dir (type_of st (pr_dst w))"
    "hp_childs st (pr_dst w) = cs" "pr_props w = st"
    and o: "map snd (hm_fields (pr_order w)) = map HMF_STR L" "distinct L" "in_order L (map ident cs)" and i: "i \<notin> ident ` set cs"
  obtains b where "get_before w (Some i) = Some b" "\<And>c. b = Some c \<Longrightarrow> c \<in> set cs"
    "in_order L (put_at (map_option ident b) i (map ident cs))"
proof (cases "i \<in> set L")
  case False
  have "get_before w (Some i) = Some None" using behind_id_strs(1)[OF o(1) False] d by (simp add: get_before_def)
  then show ?thesis using that[of None] in_order_new[OF o(3) False] by (simp add: put_at_def)
next
  case True
  then obtain L1 L2 where L: "L = L1 @ i # L2" "i \<notin> set L1" using split_list_first by metis
  let ?j = "filter (\<lambda>j. j \<in> ident ` set cs) L2"
  define b where "b = (case ?j of [] \<Rightarrow> None | j # _ \<Rightarrow> find (\<lambda>c. ident c = j) cs)"
  have g: "get_before w (Some i) = Some b"
    using first_with_id_strs[OF nm behind_id_strs(2)[OF o(1) L]] d by (simp add: get_before_def b_def)
  have m: "map_option ident b = (case ?j of [] \<Rightarrow> None | j # _ \<Rightarrow> Some j)"
  proof (cases ?j)
    case Nil then show ?thesis by (simp add: b_def)
  next
    case (Cons j js)
    then have "j \<in> set ?j" by simp
    then have "j \<in> ident ` set cs" by simp
    then have "find (\<lambda>c. ident c = j) cs \<noteq> None" by (auto simp: find_None_iff)
    then show ?thesis using Cons by (auto simp: b_def find_Some_iff)
  qed
  have "in_order L (put_at (map_option ident b) i (map ident cs))"
    using in_order_place[of L1 i L2 "map ident cs"] o(2,3) i unfolding L(1) m by simp
  moreover have "c \<in> set cs" if "b = Some c" for c
    using that by (auto simp: b_def find_Some_iff split: list.splits)
  ultimately show ?thesis using that[OF g] by blast
qed

lemma dest_type: "type_of st' d = type_of st d \<Longrightarrow> hp_flags (props st' d) = hp_flags (props st d) \<Longrightarrow> pnext st \<le> pnext st' \<Longrightarrow>
    dest st d cs \<Longrightarrow> dest st' d cs"
  by (simp add: dest_def)

text \<open>What the callback does to the property system.\<close>

lemma ro_add_run:
  assumes w: "ro_ok ins w" and s: "ro_saved L w" and p: "ro_addable ins w p"
  shows "\<exists>b st3. pr_add_child p w = Some (w\<lparr>pr_tags := prop_tag_set p (pr_key w) (pnext (pr_props w)) (pr_tags w), pr_props := st3\<rparr>)
    \<and> set_option b \<subseteq> set (ro_shown w)
    \<and> in_order L (put_at (map_option (id_of (pr_props w)) b) (id_of (pr_props w) p) (ro_ids w))
    \<and> pnext st3 = Suc (pnext (pr_props w)) \<and> dest st3 (pr_dst w) (place b (pnext (pr_props w)) (ro_shown w))
    \<and> outp st3 (pr_dst w) p (pnext (pr_props w)) \<and> hp_originator (props st3 (pnext (pr_props w))) = Some p
    \<and> only {p, pr_dst w} (pr_props w) st3
    \<and> (\<forall>y < pnext (pr_props w). hp_originator (props st3 y) = hp_originator (props (pr_props w) y)
        \<and> (type_of (pr_props w) y \<noteq> PROP_ZOMBIE \<longrightarrow> type_of st3 y \<noteq> PROP_ZOMBIE) \<and> hp_name (props st3 y) = hp_name (props (pr_props w) y))"
proof -
  note d = ro_okD[OF w]
  let ?st = "pr_props w" and ?d = "pr_dst w" and ?cs = "ro_shown w"
  let ?x = "pnext ?st" and ?id = "id_of ?st"
  obtain i where i: "get_id ?st p = Some (Some i)" "i \<notin> set (ro_ids w)" using p by (auto simp: ro_addable_def)
  have sp: "p < ?x" "type_of ?st p \<noteq> PROP_ZOMBIE" "p \<notin> set ins" "p \<notin> set ?cs"
    using p by (auto simp: ro_addable_def source_child_def)
  obtain r where r: "follow_originator (Suc ?x) ?st p = Some r" using p by (auto simp: ro_addable_def source_child_def)
  obtain st2 where l: "prop_link0 p ?x None PROP_LINK_NORMAL (snd (prop_make None False None ?st)) = Some st2"
    and n2: "pnext st2 = Suc ?x" and k2: "\<And>y. y \<noteq> ?x \<Longrightarrow> y \<noteq> p \<Longrightarrow> same_at ?st st2 y"
    and p2: "type_of st2 p = type_of ?st p" "hp_originator (props st2 p) = hp_originator (props ?st p)"
      "hp_flags (props st2 p) = hp_flags (props ?st p)" "hp_name (props st2 p) = hp_name (props ?st p)"
    by (rule make_link[OF d(1) sp(1,2) r, of None False]) blast
  have e2: "hp_originator (props st2 y) = hp_originator (props ?st y) \<and> hp_name (props st2 y) = hp_name (props ?st y)
      \<and> hp_flags (props st2 y) = hp_flags (props ?st y) \<and> type_of st2 y = type_of ?st y" if "y < ?x" for y
    using same_atD[OF k2[of y]] p2 that by (cases "y = p") auto
  have g2: "get_id st2 y = Some io" if "get_id ?st y = Some io" "y < ?x" for y io
    by (rule get_id_fresh[OF d(1) that]) (use e2 n2 in auto)
  have nm: "named_as st2 ?id ?cs" using ro_named[OF w] g2 d(10) by (simp add: named_as_def)
  have ds: "dest st2 ?d ?cs" by (rule dest_type[OF _ _ _ d(2)]) (use e2 n2 d(2) in \<open>auto simp: dest_def\<close>)
  define w1 where "w1 = w\<lparr>pr_tags := prop_tag_set p (pr_key w) ?x (pr_tags w), pr_props := st2\<rparr>"
  have sv: "map snd (hm_fields (pr_order w)) = map HMF_STR L" "distinct L" "distinct (map ?id ?cs)" "in_order L (map ?id ?cs)"
    using s by (simp_all add: ro_saved_def ro_ids_def)
  obtain b where b: "get_before w1 (Some i) = Some b" "\<And>c. b = Some c \<Longrightarrow> c \<in> set ?cs"
    and io: "in_order L (put_at (map_option ?id b) i (map ?id ?cs))"
    by (rule before_place[OF nm sv(3), of w1 L i]) (use ds sv i(2) in \<open>auto simp: w1_def dest_def ro_ids_def\<close>)
  obtain st3 where s3: "prop_set_parent0 ?x ?d b None st2 = Some (True, st3)" and n3: "pnext st3 = Suc ?x"
    and f: "dest st3 ?d (place b ?x ?cs)" "outp st3 ?d p ?x" "hp_originator (props st3 ?x) = Some p" "only {p, ?d} ?st st3"
    and e3: "\<And>y. y < ?x \<Longrightarrow> hp_originator (props st3 y) = hp_originator (props ?st y)
        \<and> (type_of ?st y \<noteq> PROP_ZOMBIE \<longrightarrow> type_of st3 y \<noteq> PROP_ZOMBIE) \<and> hp_name (props st3 y) = hp_name (props ?st y)"
    using put[OF d(1,2) sp(1,2) r b(2), of b None False None] l by auto
  have mk: "fst (prop_make None False None ?st) = ?x" by (simp add: prop_make_def)
  have run: "pr_add_child p w = Some (w1\<lparr>pr_props := st3\<rparr>)"
    using l g2[OF i(1) sp(1)] b(1) s3 mk
    by (cases "prop_make None False None ?st") (simp add: pr_add_child_def w1_def[symmetric] pr_run_def Let_def, simp add: w1_def)
  have "set_option b \<subseteq> set ?cs" using b(2) by auto
  moreover have "in_order L (put_at (map_option ?id b) (?id p) (ro_ids w))" using io id_of_eq[OF i(1)] by (simp add: ro_ids_def)
  moreover have "w1\<lparr>pr_props := st3\<rparr> = w\<lparr>pr_tags := prop_tag_set p (pr_key w) ?x (pr_tags w), pr_props := st3\<rparr>"
    by (simp add: w1_def)
  ultimately show ?thesis using run n3 f e3 by metis
qed

lemma ro_add:
  assumes w: "ro_ok ins w" and s: "ro_saved L w" and p: "ro_addable ins w p"
  obtains w' where "pr_add_child p w = Some w'" "ro_ok (ins @ [p]) w'" "ro_saved L w'"
    "set (ro_ids w') = insert (id_of (pr_props w) p) (set (ro_ids w))" "links_kept (pr_props w) (pr_props w')"
    "set (ro_shown w') = insert (pnext (pr_props w)) (set (ro_shown w))" "pr_dst w' = pr_dst w" "pr_order w' = pr_order w"
    "\<And>y io. y < pnext (pr_props w) \<Longrightarrow> get_id (pr_props w) y = Some io \<Longrightarrow> get_id (pr_props w') y = Some io"
proof -
  note d = ro_okD[OF w] and res = that
  let ?st = "pr_props w" and ?d = "pr_dst w" and ?cs = "ro_shown w"
  let ?x = "pnext ?st" and ?id = "id_of ?st"
  obtain i where i: "get_id ?st p = Some (Some i)" "i \<notin> set (ro_ids w)" using p by (auto simp: ro_addable_def)
  have sp: "p < ?x" "p \<notin> set ins" "p \<notin> set ?cs" using p by (auto simp: ro_addable_def source_child_def)
  obtain b st3 where run: "pr_add_child p w = Some (w\<lparr>pr_tags := prop_tag_set p (pr_key w) ?x (pr_tags w), pr_props := st3\<rparr>)"
    and b: "set_option b \<subseteq> set ?cs" and io: "in_order L (put_at (map_option ?id b) (?id p) (ro_ids w))"
    and n3: "pnext st3 = Suc ?x" and f: "dest st3 ?d (place b ?x ?cs)" "outp st3 ?d p ?x"
      "hp_originator (props st3 ?x) = Some p" "only {p, ?d} ?st st3"
    and e3: "\<And>y. y < ?x \<Longrightarrow> hp_originator (props st3 y) = hp_originator (props ?st y)
        \<and> (type_of ?st y \<noteq> PROP_ZOMBIE \<longrightarrow> type_of st3 y \<noteq> PROP_ZOMBIE) \<and> hp_name (props st3 y) = hp_name (props ?st y)"
    using ro_add_run[OF w s p] by blast
  define w' where "w' = w\<lparr>pr_tags := prop_tag_set p (pr_key w) ?x (pr_tags w), pr_props := st3\<rparr>"
  have w'[simp]: "pr_props w' = st3" "pr_dst w' = ?d" "pr_key w' = pr_key w" "pr_order w' = pr_order w"
    "pr_tags w' = prop_tag_set p (pr_key w) ?x (pr_tags w)" by (simp_all add: w'_def)
  have sh: "ro_shown w' = place b ?x ?cs" using f(1) by (simp add: ro_shown_def dest_def)
  note pf = put_at_facts[of b ?x ?cs, folded place_put_at, folded sh]
  have fr: "?x \<notin> set ?cs" using d(10) by blast
  have g3: "get_id st3 y = Some io" if "y < ?x" "get_id ?st y = Some io" for y io
    by (rule get_id_fresh[OF d(1) that(2,1)]) (use e3 n3 in auto)
  have gx: "get_id st3 ?x = Some (Some i)" by (rule get_id_new[OF d(1) i(1) sp(1) n3 f(3)]) (use e3 in blast)
  have gc: "get_id st3 c = Some (Some (?id c))" if "c \<in> set ?cs" for c
    using ro_named[OF w] that g3[OF d(10)] by (simp add: named_as_def)
  have ids: "ro_ids w' = put_at (map_option ?id b) i (ro_ids w)" unfolding ro_ids_def sh w'(1)
    by (rule map_place[where c = "the b"]) (use s fr b gx id_of_eq[OF gc] in \<open>auto simp: ro_saved_def ro_ids_def id_of_eq\<close>)
  have "ro_saved L w'"
    using s i(2) io id_of_eq[OF i(1)] by (simp add: ro_saved_def ids put_at_facts)
  moreover have "ro_out_ok w' c" if c: "c \<in> set (ro_shown w')" for c
  proof (cases "c = ?x")
    case True
    have "hp_originator (props st3 y) \<noteq> Some ?x" if "y < Suc ?x" for y
      using that e3[of y] tree_okD(4)[OF d(1), of y ?x] f(3) sp(1) by (cases "y = ?x") auto
    then show ?thesis using gx n3 by (auto simp: ro_out_ok_def True)
  next
    case False
    then have m: "c \<in> set ?cs" using c pf by simp
    have "hp_originator (props st3 y) \<noteq> Some c" if "y < Suc ?x" for y
      using that e3[of y] d(6)[OF m] f(3) sp(3) m by (cases "y = ?x") (auto simp: ro_out_ok_def)
    then show ?thesis using gc[OF m] n3 by (auto simp: ro_out_ok_def)
  qed
  moreover have "ro_child_ok w' q" if q: "q \<in> set ins" for q
    by (rule ro_child_kept[OF d(5)[OF q], of "{p, ?d}"])
      (use f(4) pf d(3) sp q d(5)[OF q] in \<open>auto simp: tag_get_set ro_child_ok_def\<close>)
  moreover have "ro_child_ok w' p" using sp(1,3) f(2) pf n3 by (auto simp: ro_child_ok_def tag_get_set)
  moreover have "inj_on (\<lambda>q. prop_tag_get q (pr_key w) (pr_tags w')) (set (ins @ [p]))"
  proof -
    have "Some ?x \<noteq> prop_tag_get q (pr_key w) (pr_tags w)" if "q \<in> set ins" for q
      using d(5)[OF that] fr by (auto simp: ro_child_ok_def)
    note nt = this this[symmetric]
    show ?thesis using d(7) sp(2) by (auto simp: inj_on_def nt)
  qed
  moreover have "?d \<noteq> ?x" using d(2) by (simp add: dest_def)
  ultimately have "ro_ok (ins @ [p]) w'"
    using onlyD(1)[OF f(4)] f(1) d(3,4,8) sp(2) pf by (simp add: ro_ok_def sh)
  show thesis
    by (rule res[OF run[folded w'_def] \<open>ro_ok (ins @ [p]) w'\<close> \<open>ro_saved L w'\<close>])
      (use e3 n3 pf g3 id_of_eq[OF i(1)] in \<open>auto simp: ids put_at_facts links_kept_def\<close>)
qed

text \<open>Several at once, all with names of their own.\<close>

lemma ro_addable_kept:
  assumes w: "ro_ok ins w" and q: "ro_addable ins w q" and n: "q \<noteq> p" "id_of (pr_props w) q \<noteq> id_of (pr_props w) p"
    and a: "set (ro_ids w') = insert (id_of (pr_props w) p) (set (ro_ids w))" "links_kept (pr_props w) (pr_props w')"
      "set (ro_shown w') = insert (pnext (pr_props w)) (set (ro_shown w))"
      "\<And>y io. y < pnext (pr_props w) \<Longrightarrow> get_id (pr_props w) y = Some io \<Longrightarrow> get_id (pr_props w') y = Some io"
  shows "ro_addable (ins @ [p]) w' q" "id_of (pr_props w') q = id_of (pr_props w) q"
proof -
  obtain i where q': "source_child (pr_props w) q" "q \<notin> set ins" "q \<notin> set (ro_shown w)" "get_id (pr_props w) q = Some (Some i)"
    "i \<notin> set (ro_ids w)" using q by (auto simp: ro_addable_def)
  have l: "q < pnext (pr_props w)" using q'(1) by (simp add: source_child_def)
  have g: "get_id (pr_props w') q = Some (Some i)" by (rule a(4)[OF l q'(4)])
  show "id_of (pr_props w') q = id_of (pr_props w) q" using g q'(4) by (simp add: id_of_eq)
  show "ro_addable (ins @ [p]) w' q"
    using q' l g n a(1,3) source_child_kept[OF ro_okD(1)[OF w] a(2) q'(1)] by (auto simp: ro_addable_def id_of_eq)
qed

lemma ro_add_all:
  assumes "ro_ok ins w" "ro_saved L w" "distinct (map (id_of (pr_props w)) ps)" "\<forall>p \<in> set ps. ro_addable ins w p"
  shows "\<exists>w'. ofold pr_add_child ps w = Some w' \<and> ro_ok (ins @ ps) w' \<and> ro_saved L w' \<and> pr_dst w' = pr_dst w
    \<and> set (ro_ids w') = set (ro_ids w) \<union> id_of (pr_props w) ` set ps"
  using assms
proof (induction ps arbitrary: ins w)
  case (Cons p ps)
  have ap: "ro_addable ins w p" using Cons.prems(4) by simp
  obtain w1 where w1: "pr_add_child p w = Some w1" "ro_ok (ins @ [p]) w1" "ro_saved L w1"
    "set (ro_ids w1) = insert (id_of (pr_props w) p) (set (ro_ids w))" "links_kept (pr_props w) (pr_props w1)"
    "set (ro_shown w1) = insert (pnext (pr_props w)) (set (ro_shown w))" "pr_dst w1 = pr_dst w"
    and g1: "\<And>y io. y < pnext (pr_props w) \<Longrightarrow> get_id (pr_props w) y = Some io \<Longrightarrow> get_id (pr_props w1) y = Some io"
    by (rule ro_add[OF Cons.prems(1,2) ap]) blast
  note k = ro_addable_kept[OF Cons.prems(1) _ _ _ w1(4-6) g1]
  have q: "ro_addable (ins @ [p]) w1 q \<and> id_of (pr_props w1) q = id_of (pr_props w) q" if "q \<in> set ps" for q
  proof -
    have "ro_addable ins w q" "q \<noteq> p" "id_of (pr_props w) q \<noteq> id_of (pr_props w) p"
      using Cons.prems(3,4) that by (auto simp: image_iff)
    then show ?thesis using k by blast
  qed
  then have m: "map (id_of (pr_props w1)) ps = map (id_of (pr_props w)) ps" by simp
  obtain w' where "ofold pr_add_child ps w1 = Some w'" "ro_ok ((ins @ [p]) @ ps) w'" "ro_saved L w'" "pr_dst w' = pr_dst w1"
    "set (ro_ids w') = set (ro_ids w1) \<union> id_of (pr_props w1) ` set ps"
    using Cons.IH[OF w1(2,3)] Cons.prems(3) q unfolding m by auto
  moreover have "id_of (pr_props w1) ` set ps = id_of (pr_props w) ` set ps" using q by simp
  ultimately show ?case using w1(1,4,7) by auto
qed simp

section \<open>Removing\<close>

lemma map_remove1_eq: "distinct (map f xs) \<Longrightarrow> x \<in> set xs \<Longrightarrow> map f (remove1 x xs) = remove1 (f x) (map f xs)"
  by (induction xs) (auto, metis imageI)

lemma ro_del:
  assumes w: "ro_ok ins w" and s: "ro_saved L w" and p: "p \<in> set ins"
  obtains x tg w' where "prop_tag_clear p (pr_key w) (pr_tags w) = (Some x, tg)"
    "pr_run (\<lambda>st. map_option snd (destroy_now x st)) (w\<lparr>pr_tags := tg\<rparr>) = Some w'"
    "ro_ok (remove1 p ins) w'" "ro_saved L w'" "pr_dst w' = pr_dst w" "x \<in> set (ro_shown w)"
    "ro_shown w' = remove1 x (ro_shown w)" "ro_ids w' = remove1 (id_of (pr_props w) x) (ro_ids w)"
proof -
  note d = ro_okD[OF w] and res = that
  let ?st = "pr_props w" and ?d = "pr_dst w" and ?cs = "ro_shown w"
  let ?id = "id_of ?st"
  obtain x where x: "prop_tag_get p (pr_key w) (pr_tags w) = Some x" "x \<in> set ?cs" "outp ?st ?d p x" "p \<notin> set ?cs"
    using d(5)[OF p] by (auto simp: ro_child_ok_def)
  have ne: "x \<noteq> ?d" "p \<noteq> x" using x d(3) by auto
  obtain st' where st: "destroy_now x ?st = Some (True, st')" "pnext st' = pnext ?st" "dest st' ?d (remove1 x ?cs)"
      "only {x, ?d, p} ?st st'" "\<And>y. hp_name (props st' y) = hp_name (props ?st y)"
    and o: "\<And>y. y \<noteq> x \<Longrightarrow> hp_originator (props st' y) = hp_originator (props ?st y)" "hp_originator (props st' x) = None"
    using drop[OF d(1,2) x(3,2) ne] by blast
  define tg where "tg = snd (prop_tag_clear p (pr_key w) (pr_tags w))"
  define w' where "w' = w\<lparr>pr_tags := tg, pr_props := st'\<rparr>"
  have [simp]: "pr_props w' = st'" "pr_dst w' = ?d" "pr_key w' = pr_key w" "pr_order w' = pr_order w" "pr_tags w' = tg"
    by (simp_all add: w'_def)
  have sh: "ro_shown w' = remove1 x ?cs" using st(3) by (simp add: ro_shown_def dest_def)
  have in1: "c \<in> set (ro_shown w') \<longleftrightarrow> c \<in> set ?cs \<and> c \<noteq> x" for c using d(9) by (simp add: sh)
  have g: "get_id st' c = Some (Some (?id c))" if "c \<in> set ?cs" "c \<noteq> x" for c
  proof (rule get_id_same[OF d(1) _ d(10)[OF that(1)] that(2)])
    show "get_id ?st c = Some (Some (?id c))" using ro_named[OF w] that(1) by (simp add: named_as_def)
  qed (use st(2,5) o(1) d(6)[OF x(2)] in \<open>auto simp: ro_out_ok_def\<close>)
  have dm: "distinct (map ?id ?cs)" using s by (simp add: ro_saved_def ro_ids_def)
  have "ro_ids w' = map ?id (remove1 x ?cs)" unfolding ro_ids_def sh
    using g d(9) by (auto simp: id_of_eq)
  then have ids: "ro_ids w' = remove1 (?id x) (ro_ids w)" using map_remove1_eq[OF dm x(2)] by (simp add: ro_ids_def)
  have sv: "ro_saved L w'"
    using s in_order_remove[of L "ro_ids w"] by (simp add: ro_saved_def ids)
  have "ro_out_ok w' c" if "c \<in> set (ro_shown w')" for c
  proof -
    have c: "c \<in> set ?cs" "c \<noteq> x" using that in1 by blast+
    have "hp_originator (props st' y) \<noteq> Some c" if "y < pnext ?st" for y
      using o(1)[of y] o(2) d(6)[OF c(1)] that by (cases "y = x") (auto simp: ro_out_ok_def)
    then show ?thesis using g[OF c] st(2) by (simp add: ro_out_ok_def)
  qed
  moreover have "ro_child_ok w' q" if q: "q \<in> set (remove1 p ins)" for q
  proof (rule ro_child_kept[OF d(5), of q "{x, ?d, p}"])
    have q': "q \<in> set ins" "q \<noteq> p" using q d(4) by auto
    then show "q \<in> set ins" by blast
    show "prop_tag_get q (pr_key w) (pr_tags w') = prop_tag_get q (pr_key w) (pr_tags w)" using q'(2) by (simp add: tg_def)
    show "y \<notin> {x, ?d, p} \<and> y \<in> set (ro_shown w')" if y: "prop_tag_get q (pr_key w) (pr_tags w) = Some y" for y
    proof -
      have "y \<in> set ?cs" using d(5)[OF q'(1)] y by (auto simp: ro_child_ok_def)
      moreover have "y \<noteq> x" using inj_onD[OF d(7), of q p] q' p x(1) y by auto
      ultimately show ?thesis using x(4) d(3) in1 by blast
    qed
  qed (use st(4) in1 in auto)
  moreover have "inj_on (\<lambda>q. prop_tag_get q (pr_key w) tg) (set (remove1 p ins))"
    using d(4,7) by (simp add: inj_on_def tg_def)
  moreover have "length (remove1 x ?cs) = length (remove1 p ins)" using d(8) x(2) p by (simp add: length_remove1)
  ultimately have "ro_ok (remove1 p ins) w'"
    using onlyD(1)[OF st(4)] st(3) d(3,4) in1 by (simp add: ro_ok_def sh[symmetric])
  moreover have "prop_tag_clear p (pr_key w) (pr_tags w) = (Some x, tg)"
    using x(1) tag_get_clear(2)[of p "pr_key w" "pr_tags w"] by (simp add: tg_def prod_eq_iff)
  moreover have "pr_run (\<lambda>st. map_option snd (destroy_now x st)) (w\<lparr>pr_tags := tg\<rparr>) = Some w'"
    using st(1) by (simp add: pr_run_def w'_def)
  ultimately show thesis using res sv x(2) sh ids by simp
qed

section \<open>Moving\<close>

text \<open>The message with these names.\<close>

definition order_list :: "string list \<Rightarrow> htsmsg" where
  "order_list ids = \<lparr>hm_islist = True, hm_fields = map (\<lambda>i. (None, HMF_STR i)) ids\<rparr>"

lemma add_strs:
  "named_as st ident cs \<Longrightarrow> ofold (\<lambda>p out. do { io \<leftarrow> get_id st p; i \<leftarrow> io; htsmsg_add_str out None i }) cs (order_list js)
     = Some (order_list (js @ map ident cs))"
proof (induction cs arbitrary: js)
  case (Cons c cs)
  then show ?case using Cons.IH[of "js @ [ident c]"]
    by (simp add: named_as_def htsmsg_add_str_def htsmsg_field_add_def order_list_def)
qed simp

lemma ro_move:
  assumes w: "ro_ok ins w" and s: "distinct (ro_ids w)" and x: "x \<in> set (ro_shown w)"
    and b: "\<And>y. hpn_prop_extra e = Some y \<Longrightarrow> y \<in> set (ro_shown w) \<and> y \<noteq> x"
    and e: "hpn_event e = EV_REQ_MOVE_CHILD" "hpn_val e = NV_prop (Some x)"
  obtains w' where "pr_dst_cb e w = Some w'" "ro_ok ins w'" "ro_saved (ro_ids w') w'" "pr_dst w' = pr_dst w"
    "ro_shown w' = place (hpn_prop_extra e) x (remove1 x (ro_shown w))"
    "ro_ids w' = map (id_of (pr_props w)) (ro_shown w')"
    "pr_order w' = order_list (ro_ids w')" "pr_saved w' = (order_list (ro_ids w'), pr_store w) # pr_saved w"
proof -
  note d = ro_okD[OF w] and res = that
  let ?st = "pr_props w" and ?d = "pr_dst w" and ?cs = "place (hpn_prop_extra e) x (remove1 x (ro_shown w))"
  let ?id = "id_of ?st"
  obtain st' where st: "prop_move0 x (hpn_prop_extra e) (pr_dstsub w) ?st = Some st'" "pnext st' = pnext ?st" "dest st' ?d ?cs"
      "only {?d} ?st st'" "\<And>y. hp_originator (props st' y) = hp_originator (props ?st y)"
      "\<And>y. hp_name (props st' y) = hp_name (props ?st y)"
    using shift[OF d(1,2) x b] by blast
  define w1 where "w1 = w\<lparr>pr_props := st'\<rparr>"
  have dc: "is_dir (type_of st' ?d)" "hp_childs st' ?d = ?cs" using st(3) by (simp_all add: dest_def)
  have pf: "set ?cs = set (ro_shown w)" "distinct ?cs" "length ?cs = length (ro_shown w)"
    using x d(9) by (auto simp: place_put_at put_at_facts length_remove1) (use length_pos_if_in_set[OF x] in linarith)
  have g: "get_id st' c = Some (Some (?id c))" if "c \<in> set ?cs" for c
    by (rule get_id_fresh[OF d(1)]) (use ro_named[OF w] that pf(1) d(10) st(2,5,6) in \<open>auto simp: named_as_def\<close>)
  have nm: "named_as st' ?id ?cs" using g by (simp add: named_as_def)
  have ids: "map (id_of st') ?cs = map ?id ?cs" using g by (simp add: id_of_eq)
  have di: "distinct (map ?id ?cs)"
    using s pf by (simp add: ro_ids_def distinct_map)
  define w' where "w' = w1\<lparr>pr_saved := (order_list (map ?id ?cs), pr_store w) # pr_saved w, pr_order := order_list (map ?id ?cs)\<rparr>"
  have [simp]: "pr_props w' = st'" "pr_dst w' = ?d" "pr_key w' = pr_key w" "pr_tags w' = pr_tags w"
    "pr_order w' = order_list (map ?id ?cs)" "pr_saved w' = (order_list (map ?id ?cs), pr_store w) # pr_saved w"
    by (simp_all add: w'_def w1_def)
  have sh: "ro_shown w' = ?cs" using dc by (simp add: ro_shown_def)
  have "save_order w1 = Some w'"
    using add_strs[OF nm, of "[]"] dc by (simp add: save_order_def w1_def w'_def order_list_def htsmsg_create_list_def)
  then have run: "pr_dst_cb e w = Some w'" using e st(1) by (simp add: pr_dst_cb_def pr_run_def w1_def)
  have "ro_child_ok w' q" if q: "q \<in> set ins" for q
    by (rule ro_child_kept[OF d(5)[OF q] st(4)[folded \<open>pr_props w' = st'\<close>]])
      (use pf(1) d(3) d(5)[OF q] in \<open>auto simp: sh ro_child_ok_def\<close>)
  moreover have "ro_out_ok w' c" if "c \<in> set (ro_shown w')" for c
    using g d(6) that st(2,5) pf(1) by (auto simp: ro_out_ok_def sh)
  ultimately have "ro_ok ins w'"
    using onlyD(1)[OF st(4)] st(3) d(3,4,7,8) pf by (simp add: ro_ok_def sh)
  moreover have "ro_saved (map ?id ?cs) w'"
    using di by (simp add: ro_saved_def ro_ids_def sh ids in_order_self order_list_def comp_def)
  ultimately show thesis using res[OF run] by (simp add: ro_ids_def sh ids)
qed

end
