(* ===== verification/View_Properties.thy ===== *)
theory View_Properties
  imports Prop_Window_Inv Prop_Reorder_Inv Sorted_Properties
begin

text \<open>
  Windows on lists, and lists in the order of the user.
\<close>

section \<open>Windows\<close>

text \<open>What the source tells fits: new children are not known yet, and one that is deleted is.\<close>

definition win_fits :: "prop_notify_t \<Rightarrow> pid list \<Rightarrow> prop_window \<Rightarrow> bool" where
  "win_fits e ins w =
     (case (hpn_event e, hpn_val e) of
        (EV_ADD_CHILD, NV_prop (Some p)) \<Rightarrow> win_addable ins w p \<and> pw_count w + 1 < 2 ^ 31
      | (EV_ADD_CHILD_VECTOR, NV_propv _ ps) \<Rightarrow>
          distinct ps \<and> list_all (win_addable ins w) ps \<and> pw_count w + int (length ps) < 2 ^ 31
      | (EV_ADD_CHILD_VECTOR_DIRECT, NV_propv _ ps) \<Rightarrow>
          distinct ps \<and> list_all (win_addable ins w) ps \<and> pw_count w + int (length ps) < 2 ^ 31
      | (EV_DEL_CHILD, NV_prop (Some p)) \<Rightarrow> p \<in> set ins
      | (EV_MOVE_CHILD, NV_prop (Some p)) \<Rightarrow> True
      | (ev, _) \<Rightarrow> ev \<in> {EV_SET_VOID, EV_SET_DIR, EV_HAVE_MORE_CHILDS_YES, EV_HAVE_MORE_CHILDS_NO, EV_WANT_MORE_CHILDS, EV_SELECT_CHILD})"

text \<open>The children a source has, by what it has told, leaving their order aside when one moves.\<close>

definition told_children :: "prop_notify_t \<Rightarrow> pid list" where
  "told_children e = (case hpn_val e of NV_prop (Some p) \<Rightarrow> [p] | NV_propv _ ps \<Rightarrow> ps | _ \<Rightarrow> [])"

definition told :: "prop_notify_t \<Rightarrow> pid list \<Rightarrow> pid list" where
  "told e ins =
     (if hpn_event e \<in> {EV_ADD_CHILD, EV_ADD_CHILD_VECTOR, EV_ADD_CHILD_VECTOR_DIRECT} then ins @ told_children e
      else if hpn_event e = EV_DEL_CHILD then fold remove1 (told_children e) ins
      else if hpn_event e = EV_SET_VOID then []
      else ins)"

lemma win_add_list:
  assumes "win_ok ins w" "distinct ps" "list_all (win_addable ins w) ps" "pw_count w + int (length ps) < 2 ^ 31"
  shows "\<exists>w'. ofold pw_add_child ps w = Some w' \<and> win_ok (ins @ ps) w' \<and> (win_whole ins w \<longrightarrow> win_whole (ins @ ps) w')
    \<and> pw_win_start w' = pw_win_start w \<and> pw_win_length w' = pw_win_length w"
proof -
  obtain w' where w': "ofold pw_add_child ps w = Some w'" "win_ok (ins @ ps) w'" "pw_count w' = pw_count w + int (length ps)"
    "pw_win_start w' = pw_win_start w" "pw_win_length w' = pw_win_length w"
    "map (\<lambda>(n, nd). pwn_pos nd) (pw_queue w')
        = map (\<lambda>(n, nd). pwn_pos nd) (pw_queue w) @ map (\<lambda>i. pw_count w + int i) [0..<length ps]"
    by (rule exE[OF win_add_all[OF assms(1,2) assms(3)[unfolded list_all_iff] assms(4)]], elim conjE, rule that)
  have "win_whole (ins @ ps) w'" if "win_whole ins w"
  proof -
    have "[0..<length (ins @ ps)] = [0..<length ins] @ [length ins..<length ins + length ps]"
      by (simp only: length_append upt_add_eq_append[OF le0])
    also have "[length ins..<length ins + length ps] = map (\<lambda>i. i + length ins) [0..<length ps]"
      by (simp only: map_add_upt add.commute)
    finally have "map int [0..<length (ins @ ps)] = map int [0..<length ins] @ map (\<lambda>i. int (length ins) + int i) [0..<length ps]"
      by (simp add: comp_def add.commute)
    then show ?thesis using that w'(3,6) by (simp add: win_whole_def)
  qed
  then show ?thesis using w'(1,2,4,5) by blast
qed

lemma del_inputs:
  assumes "pw_queue w' = filter (\<lambda>q. pwn_in (snd q) \<noteq> p) (pw_queue w)" "win_ok ins w"
    "pw_win_start w' = pw_win_start w" "pw_win_length w' = pw_win_length w"
  shows "window_inputs w' = remove1 p (window_inputs w)"
proof -
  have "distinct (map (\<lambda>q. pwn_in (snd q)) (pw_queue w))" using win_okD(4,5)[OF assms(2)] by (simp add: split_def)
  then have "distinct (window_inputs w)" unfolding window_inputs_def by (rule distinct_map_filter)
  moreover have "within w' = within w" using assms(3,4) by (simp add: within_def fun_eq_iff)
  ultimately show ?thesis
    by (simp add: distinct_remove1_removeAll removeAll_filter_not_eq)
      (simp add: window_inputs_def assms(1) filter_map comp_def conj_commute eq_commute)
qed

text \<open>
  C7. A window shows its part of the source. The callback handles every event that fits, and the
  children of the destination are then one linked output for each child of the source whose position
  is within the window, in order. As long as no child has been removed these are the \<open>pw_win_length\<close>
  children from \<open>pw_win_start\<close> on. When a child is removed only its output goes: the ones behind it
  do not move up, and the window is not refilled.
\<close>

theorem window_shows_its_part:
  assumes "win_ok ins w" "win_fits e ins w"
  shows "\<exists>w'. pw_src_cb e w = Some w' \<and> win_ok (told e ins) w' \<and> outputs_for (pw_props w') (pw_dst w') (window_inputs w')
     \<and> (win_whole ins w \<and> hpn_event e \<notin> {EV_DEL_CHILD, EV_SET_VOID} \<longrightarrow>
          win_whole (told e ins) w'
          \<and> window_inputs w' = take (nat (pw_win_length w)) (drop (nat (pw_win_start w)) (told e ins)))
     \<and> (hpn_event e = EV_DEL_CHILD \<longrightarrow> window_inputs w' = fold remove1 (told_children e) (window_inputs w))"
proof -
  have one: "pw_add_child p w = ofold pw_add_child [p] w" for p by (cases "pw_add_child p w") simp_all
  consider (add) "pw_src_cb e w = ofold pw_add_child (told_children e) w" "told e ins = ins @ told_children e"
      "distinct (told_children e)" "list_all (win_addable ins w) (told_children e)"
      "pw_count w + int (length (told_children e)) < 2 ^ 31" "hpn_event e \<noteq> EV_DEL_CHILD"
    | (del) p where "hpn_event e = EV_DEL_CHILD" "hpn_val e = NV_prop (Some p)" "p \<in> set ins"
    | (clear) "hpn_event e = EV_SET_VOID" "pw_src_cb e w = pw_clear w"
    | (none) "pw_src_cb e w = Some w" "told e ins = ins" "hpn_event e \<notin> {EV_DEL_CHILD, EV_SET_VOID}"
    using assms(2) unfolding win_fits_def pw_src_cb_def told_def told_children_def pw_move_child_def
    by (auto split: prop_event.splits notify_val.splits option.splits simp: one simp del: ofold.simps)
  then show ?thesis
  proof cases
    case add
    then show ?thesis using win_add_list[OF assms(1) add(3-5)] win_outputs win_slice by metis
  next
    case del
    obtain n tg w' where w': "prop_tag_clear p (pw_key w) (pw_tags w) = (Some n, tg)" "pw_del_child n (w\<lparr>pw_tags := tg\<rparr>) = Some w'"
      "win_ok (remove1 p ins) w'" "pw_win_start w' = pw_win_start w" "pw_win_length w' = pw_win_length w"
      "pw_queue w' = filter (\<lambda>q. pwn_in (snd q) \<noteq> p) (pw_queue w)"
      by (rule win_del[OF assms(1) del(3)])
    have "pw_src_cb e w = Some w'" "told e ins = remove1 p ins" "told_children e = [p]"
      using del w'(1,2) by (simp_all add: pw_src_cb_def told_def told_children_def)
    then show ?thesis using w'(3) win_outputs[OF w'(3)] del_inputs[OF w'(6) assms(1) w'(4,5)] del(1) by simp
  next
    case clear
    then show ?thesis using win_clear[OF assms(1)] win_outputs by (auto simp: told_def)
  next
    case none
    then show ?thesis using assms(1) win_outputs win_slice by auto
  qed
qed

text \<open>A window on the second and third of four children.\<close>

definition demo_window :: prop_window where
  "demo_window = \<lparr>pw_srcsub = None, pw_dst = prop_global, pw_win_start = 1, pw_win_length = 2, pw_count = 0,
     pw_queue = [], pw_fresh = 0, pw_key = 0, pw_tags = (\<lambda>_. []), pw_props = some_props 4\<rparr>"

lemma demo_window_ok: "win_ok [] demo_window" "win_whole [] demo_window"
  "0 < p \<Longrightarrow> p \<le> 4 \<Longrightarrow> win_addable [] demo_window p"
  using some_props_facts[of 4] some_props_child[of p 4]
  by (simp_all add: win_ok_def win_whole_def win_addable_def demo_window_def win_shown_def List.map_filter_simps)

theorem window_shows_its_part_witness:
  "\<exists>w1 w2. pw_src_cb (mk_notify 0 EV_ADD_CHILD_VECTOR (NV_propv 0 [1, 2, 3, 4])) demo_window = Some w1
     \<and> outputs_for (pw_props w1) (pw_dst w1) [2, 3]
     \<and> pw_src_cb (mk_notify 0 EV_DEL_CHILD (NV_prop (Some 2))) w1 = Some w2
     \<and> outputs_for (pw_props w2) (pw_dst w2) [3]"
proof -
  let ?e = "mk_notify 0 EV_ADD_CHILD_VECTOR (NV_propv 0 [1, 2, 3, 4])" and ?d = "mk_notify 0 EV_DEL_CHILD (NV_prop (Some 2))"
  have "win_fits ?e [] demo_window"
    using demo_window_ok(3) by (simp add: win_fits_def mk_notify_def) (simp add: demo_window_def)
  from window_shows_its_part[OF demo_window_ok(1) this] demo_window_ok(2)
  obtain w1 where w1: "pw_src_cb ?e demo_window = Some w1" "win_ok [1, 2, 3, 4] w1" "outputs_for (pw_props w1) (pw_dst w1) (window_inputs w1)"
    and i: "window_inputs w1 = [2, 3]"
    by (auto simp: told_def told_children_def mk_notify_def demo_window_def)
  have "win_fits ?d [1, 2, 3, 4] w1" by (simp add: win_fits_def mk_notify_def)
  from window_shows_its_part[OF w1(2) this]
  obtain w2 where "pw_src_cb ?d w1 = Some w2" "outputs_for (pw_props w2) (pw_dst w2) (window_inputs w2)" "window_inputs w2 = [3]"
    by (auto simp: told_children_def mk_notify_def i)
  then show ?thesis using w1(1,3) i by metis
qed

section \<open>Lists in the order of the user\<close>

definition ro_fits :: "prop_notify_t \<Rightarrow> pid list \<Rightarrow> prop_reorder \<Rightarrow> bool" where
  "ro_fits e ins w =
     (case (hpn_event e, hpn_val e) of
        (EV_ADD_CHILD, NV_prop (Some p)) \<Rightarrow> ro_addable ins w p
      | (EV_ADD_CHILD_BEFORE, NV_prop (Some p)) \<Rightarrow> ro_addable ins w p
      | (EV_ADD_CHILD_VECTOR, NV_propv _ ps) \<Rightarrow> distinct (map (id_of (pr_props w)) ps) \<and> list_all (ro_addable ins w) ps
      | (EV_ADD_CHILD_VECTOR_DIRECT, NV_propv _ ps) \<Rightarrow> distinct (map (id_of (pr_props w)) ps) \<and> list_all (ro_addable ins w) ps
      | (EV_DEL_CHILD, NV_prop (Some p)) \<Rightarrow> p \<in> set ins
      | (ev, _) \<Rightarrow> ev \<in> {EV_MOVE_CHILD, EV_SET_VOID, EV_SET_DIR, EV_HAVE_MORE_CHILDS_YES, EV_HAVE_MORE_CHILDS_NO,
                       EV_WANT_MORE_CHILDS, EV_REQ_DELETE_VECTOR, EV_REQ_DELETE})"

definition adds :: "prop_notify_t \<Rightarrow> bool" where
  "adds e \<longleftrightarrow> hpn_event e \<in> {EV_ADD_CHILD, EV_ADD_CHILD_BEFORE, EV_ADD_CHILD_VECTOR, EV_ADD_CHILD_VECTOR_DIRECT}"

definition ro_told :: "prop_notify_t \<Rightarrow> pid list \<Rightarrow> pid list" where
  "ro_told e ins =
     (if adds e then ins @ told_children e
      else if hpn_event e = EV_DEL_CHILD then fold remove1 (told_children e) ins
      else ins)"

text \<open>The names in the list after an event: new children bring theirs, one that is deleted takes one away.\<close>

definition names_after :: "prop_notify_t \<Rightarrow> prop_reorder \<Rightarrow> prop_reorder \<Rightarrow> bool" where
  "names_after e w w' \<longleftrightarrow>
     (if adds e then set (ro_ids w') = set (ro_ids w) \<union> id_of (pr_props w) ` set (told_children e)
      else if hpn_event e = EV_DEL_CHILD then \<exists>i \<in> set (ro_ids w). ro_ids w' = remove1 i (ro_ids w)
      else ro_ids w' = ro_ids w)"

text \<open>A request to move one of the children before another one or to the end.\<close>

definition move_fits :: "prop_notify_t \<Rightarrow> pid \<Rightarrow> prop_reorder \<Rightarrow> bool" where
  "move_fits e x w \<longleftrightarrow> hpn_event e = EV_REQ_MOVE_CHILD \<and> hpn_val e = NV_prop (Some x) \<and> x \<in> set (ro_shown w)
     \<and> (\<forall>y. hpn_prop_extra e = Some y \<longrightarrow> y \<in> set (ro_shown w) \<and> y \<noteq> x)"

lemma ro_src:
  assumes w: "ro_ok ins w" "ro_saved L w" and f: "ro_fits e ins w"
  shows "\<exists>w'. pr_src_cb e w = Some w' \<and> ro_ok (ro_told e ins) w' \<and> ro_saved L w' \<and> names_after e w w'"
proof -
  have one: "pr_add_child p w = ofold pr_add_child [p] w" for p by (cases "pr_add_child p w") simp_all
  consider (add) "pr_src_cb e w = ofold pr_add_child (told_children e) w" "ro_told e ins = ins @ told_children e"
      "distinct (map (id_of (pr_props w)) (told_children e))" "list_all (ro_addable ins w) (told_children e)" "adds e"
    | (del) p where "hpn_event e = EV_DEL_CHILD" "hpn_val e = NV_prop (Some p)" "p \<in> set ins"
    | (none) "pr_src_cb e w = Some w" "ro_told e ins = ins" "\<not> adds e" "hpn_event e \<noteq> EV_DEL_CHILD"
    using f unfolding ro_fits_def pr_src_cb_def ro_told_def told_children_def adds_def
    by (auto split: prop_event.splits notify_val.splits option.splits simp: one simp del: ofold.simps)
  then show ?thesis
  proof cases
    case add
    then show ?thesis using ro_add_all[OF w add(3)] by (simp add: list_all_iff names_after_def) blast
  next
    case del
    obtain x tg w' where w': "prop_tag_clear p (pr_key w) (pr_tags w) = (Some x, tg)"
      "pr_run (\<lambda>st. map_option snd (destroy_now x st)) (w\<lparr>pr_tags := tg\<rparr>) = Some w'" "ro_ok (remove1 p ins) w'" "ro_saved L w'"
      "x \<in> set (ro_shown w)" "ro_ids w' = remove1 (id_of (pr_props w) x) (ro_ids w)"
      by (rule ro_del[OF w del(3)])
    moreover have "id_of (pr_props w) x \<in> set (ro_ids w)" using w'(5) by (simp add: ro_ids_def)
    ultimately show ?thesis using del by (auto simp: pr_src_cb_def ro_told_def told_children_def adds_def names_after_def)
  next
    case none
    then show ?thesis using w by (simp add: names_after_def)
  qed
qed

text \<open>
  C13. The order of the user is kept. As long as the children of the source have different names, no
  event that fits fails, and the children of the destination, one linked output for each child of the
  source, come in the saved order, those it does not name wherever they were; once all names of the
  saved order are there and no others, in exactly this order, whatever the order in which the source
  told of them. A request to move a child puts it where it was asked to go, and the names in their
  new order are saved.
\<close>

theorem user_order_is_kept:
  assumes "ro_ok ins w" "ro_saved L w"
  shows "(\<forall>e. ro_fits e ins w \<longrightarrow>
           (\<exists>w'. pr_src_cb e w = Some w' \<and> ro_ok (ro_told e ins) w' \<and> ro_saved L w' \<and> names_after e w w' \<and> in_order L (ro_ids w')
              \<and> (set (ro_ids w') = set L \<longrightarrow> ro_ids w' = L)))
     \<and> (\<forall>e x. move_fits e x w \<longrightarrow>
           (\<exists>w'. pr_dst_cb e w = Some w' \<and> ro_ok ins w' \<and> ro_saved (ro_ids w') w'
              \<and> ro_shown w' = place (hpn_prop_extra e) x (remove1 x (ro_shown w))
              \<and> ro_ids w' = map (id_of (pr_props w)) (ro_shown w')
              \<and> pr_saved w' = (order_list (ro_ids w'), pr_store w) # pr_saved w))"
proof (intro conjI allI impI)
  fix e assume "ro_fits e ins w"
  then obtain w' where w': "pr_src_cb e w = Some w'" "ro_ok (ro_told e ins) w'" "ro_saved L w'" "names_after e w w'" using ro_src[OF assms] by blast
  moreover have "in_order L (ro_ids w')" using w'(3) by (simp add: ro_saved_def)
  moreover have "ro_ids w' = L" if "set (ro_ids w') = set L" using in_order_all[OF calculation(5)] that by (metis filter_True order_refl)
  ultimately show "\<exists>w'. pr_src_cb e w = Some w' \<and> ro_ok (ro_told e ins) w' \<and> ro_saved L w' \<and> names_after e w w' \<and> in_order L (ro_ids w')
      \<and> (set (ro_ids w') = set L \<longrightarrow> ro_ids w' = L)" by blast
next
  fix e x assume m: "move_fits e x w"
  then have d: "x \<in> set (ro_shown w)" "hpn_event e = EV_REQ_MOVE_CHILD" "hpn_val e = NV_prop (Some x)"
    "\<And>y. hpn_prop_extra e = Some y \<Longrightarrow> y \<in> set (ro_shown w) \<and> y \<noteq> x" by (simp_all add: move_fits_def)
  have "distinct (ro_ids w)" using assms(2) by (simp add: ro_saved_def)
  from ro_move[OF assms(1) this d(1,4,2,3)]
  show "\<exists>w'. pr_dst_cb e w = Some w' \<and> ro_ok ins w' \<and> ro_saved (ro_ids w') w'
      \<and> ro_shown w' = place (hpn_prop_extra e) x (remove1 x (ro_shown w))
      \<and> ro_ids w' = map (id_of (pr_props w)) (ro_shown w')
      \<and> pr_saved w' = (order_list (ro_ids w'), pr_store w) # pr_saved w" by metis
qed

text \<open>Properties with these names, the last one first.\<close>

fun named_props :: "string list \<Rightarrow> pst" where
  "named_props [] = some_props 0"
| "named_props (n # ns) = snd (prop_make (Some n) False None (named_props ns))"

lemma named_props_facts:
  "pnext (named_props ns) = Suc (length ns) \<and> tree_ok (named_props ns) \<and> dest (named_props ns) prop_global []
    \<and> (\<forall>q. hp_originator (props (named_props ns) q) = None)
    \<and> (\<forall>p < length ns. type_of (named_props ns) (Suc p) = PROP_VOID \<and> hp_name (props (named_props ns) (Suc p)) = Some (rev ns ! p))"
proof (induction ns)
  case Nil
  then show ?case using some_props_facts[of 0] by simp
next
  case (Cons n ns)
  then have "tree_ok (named_props (n # ns))" unfolding named_props.simps by (intro tree_ok_make(1)) simp_all
  moreover have "dest (named_props (n # ns)) prop_global []" using Cons by (auto simp: dest_def type_make)
  moreover have "hp_name (props (named_props (n # ns)) q) = (if q = pnext (named_props ns) then Some n else hp_name (props (named_props ns) q))" for q
    by (simp add: prop_make_def)
  ultimately show ?case using Cons by (auto simp: type_make nth_append less_Suc_eq)
qed

definition demo_order :: prop_reorder where
  "demo_order = \<lparr>pr_dst = prop_global, pr_srcsub = None, pr_dstsub = None, pr_order = order_list [''a'', ''b'', ''c''],
     pr_store = ''order'', pr_saved = [], pr_key = 0, pr_tags = (\<lambda>_. []), pr_props = named_props [''b'', ''a'', ''c'']\<rparr>"

lemma demo_order_id: "p < 3 \<Longrightarrow> get_id (pr_props demo_order) (Suc p) = Some (Some ([''c'', ''a'', ''b''] ! p))"
  using named_props_facts[of "[''b'', ''a'', ''c'']"] by (simp add: demo_order_def get_id_def del: named_props.simps)

lemma demo_order_ok: "ro_ids demo_order = []" "ro_ok [] demo_order" "ro_saved [''a'', ''b'', ''c''] demo_order"
  "p < 3 \<Longrightarrow> ro_addable [] demo_order (Suc p)"
proof -
  note f = named_props_facts[of "[''b'', ''a'', ''c'']"]
  have "ro_shown demo_order = []" using f by (simp add: ro_shown_def demo_order_def dest_def del: named_props.simps)
  note s = this this[unfolded demo_order_def]
  show "ro_ids demo_order = []" "ro_ok [] demo_order" "ro_saved [''a'', ''b'', ''c''] demo_order"
    using f s by (auto simp: ro_ok_def ro_saved_def ro_ids_def in_order_def demo_order_def order_list_def simp del: named_props.simps)
  show "p < 3 \<Longrightarrow> ro_addable [] demo_order (Suc p)"
    using f s demo_order_id[of p] by (auto simp: ro_addable_def ro_ids_def source_child_def demo_order_def simp del: named_props.simps)
qed

theorem user_order_is_kept_witness:
  "\<exists>w1 x y z. pr_src_cb (mk_notify 0 EV_ADD_CHILD_VECTOR (NV_propv 0 [1, 2, 3])) demo_order = Some w1
     \<and> ro_ids w1 = [''a'', ''b'', ''c''] \<and> ro_shown w1 = [x, y, z]
     \<and> (\<exists>w2. pr_dst_cb ((mk_notify 0 EV_REQ_MOVE_CHILD (NV_prop (Some z)))\<lparr>hpn_prop_extra := Some x\<rparr>) w1 = Some w2
          \<and> ro_shown w2 = [z, x, y] \<and> ro_ids w2 = [''c'', ''a'', ''b'']
          \<and> hd (pr_saved w2) = (order_list [''c'', ''a'', ''b''], pr_store w1))"
proof -
  let ?e = "mk_notify 0 EV_ADD_CHILD_VECTOR (NV_propv 0 [1, 2, 3])"
  have id: "id_of (pr_props demo_order) (Suc 0) = ''c''" "id_of (pr_props demo_order) 2 = ''a''" "id_of (pr_props demo_order) 3 = ''b''"
    using demo_order_id[of 0] demo_order_id[of 1] demo_order_id[of 2] by (simp_all add: id_of_def numeral_2_eq_2 numeral_3_eq_3)
  have "ro_fits ?e [] demo_order"
    using demo_order_ok(4)[of 0] demo_order_ok(4)[of 1] demo_order_ok(4)[of 2]
    by (simp add: ro_fits_def mk_notify_def id) (simp add: numeral_2_eq_2 numeral_3_eq_3)
  with user_order_is_kept[OF demo_order_ok(2,3)]
  obtain w1 where w1: "pr_src_cb ?e demo_order = Some w1" "ro_ok (ro_told ?e []) w1" "ro_saved [''a'', ''b'', ''c''] w1"
    "names_after ?e demo_order w1" "set (ro_ids w1) = set [''a'', ''b'', ''c''] \<longrightarrow> ro_ids w1 = [''a'', ''b'', ''c'']" by blast
  have "set (ro_ids w1) = {''a'', ''b'', ''c''}"
    using w1(4) by (auto simp: names_after_def adds_def mk_notify_def told_children_def demo_order_ok(1) id)
  then have ids: "ro_ids w1 = [''a'', ''b'', ''c'']" using w1(5) by simp
  then obtain x y z where sh: "ro_shown w1 = [x, y, z]"
    by (auto simp: ro_ids_def map_eq_Cons_conv)
  let ?m = "(mk_notify 0 EV_REQ_MOVE_CHILD (NV_prop (Some z)))\<lparr>hpn_prop_extra := Some x\<rparr>"
  have di: "distinct [x, y, z]" using ro_okD(9)[OF w1(2)] by (simp add: sh)
  then have "move_fits ?m z w1" by (auto simp: move_fits_def mk_notify_def sh)
  from conjunct2[OF user_order_is_kept[OF w1(2,3)], rule_format, OF this]
  obtain w2 where w2: "pr_dst_cb ?m w1 = Some w2" "ro_shown w2 = place (hpn_prop_extra ?m) z (remove1 z (ro_shown w1))"
    "ro_ids w2 = map (id_of (pr_props w1)) (ro_shown w2)" "pr_saved w2 = (order_list (ro_ids w2), pr_store w1) # pr_saved w1" by blast
  have s2: "ro_shown w2 = [z, x, y]" using w2(2) di by (simp add: sh place_def)
  have i2: "ro_ids w2 = [''c'', ''a'', ''b'']" using w2(3) ids by (simp add: s2 sh ro_ids_def)
  then show ?thesis using w1(1) ids sh w2(1,4) s2 by (metis list.sel(1))
qed

end
