(* ===== verification/Prop_Grouper.thy ===== *)
theory Prop_Grouper
  imports Prop_Tags Prop_Destroy Prop_Value Str_Misc
begin

text \<open>
  Grouped lists (\<open>src/prop/prop_grouper.c\<close>): a group for each value that a property of the
  children of a source has, with a name and the children of that value, as the children of a
  destination. The record holds \<open>struct prop_grouper\<close> with its nodes and groups, the tags and the
  property system; nodes and groups are known by numbers, the last one first on every list.
  \<open>None\<close> is an \<open>abort()\<close>, a failed assertion, a null or a stale pointer.
\<close>

record pg_node =
  pgn_in :: pid
  pgn_out :: "pid option"
  pgn_sub :: "sid option"
  pgn_group :: "nat option"

record pg_group =
  pgg_name :: string
  pgg_root :: pid
  pgg_nodes :: pid
  pgg_entries :: "nat list"

record prop_grouper =
  pg_nodes :: "(nat \<times> pg_node) list"
  pg_groups :: "(nat \<times> pg_group) list"
  pg_groupingpath :: "string list"
  pg_srcsub :: "sid option"
  pg_dst :: pid
  pg_key :: nat
  pg_fresh :: nat
  pg_tags :: prop_tags
  pg_props :: pst

definition pg_run :: "(pst \<Rightarrow> pst option) \<Rightarrow> prop_grouper \<Rightarrow> prop_grouper option" where
  "pg_run f w = map_option (\<lambda>st. w\<lparr>pg_props := st\<rparr>) (f (pg_props w))"

definition upd_pgn :: "nat \<Rightarrow> (pg_node \<Rightarrow> pg_node) \<Rightarrow> prop_grouper \<Rightarrow> prop_grouper" where
  "upd_pgn n f w = w\<lparr>pg_nodes := map (\<lambda>(m, x). (m, if m = n then f x else x)) (pg_nodes w)\<rparr>"

definition upd_pgg :: "nat \<Rightarrow> (pg_group \<Rightarrow> pg_group) \<Rightarrow> prop_grouper \<Rightarrow> prop_grouper" where
  "upd_pgg g f w = w\<lparr>pg_groups := map (\<lambda>(m, x). (m, if m = g then f x else x)) (pg_groups w)\<rparr>"

section \<open>Groups\<close>

definition group_find :: "string \<Rightarrow> prop_grouper \<Rightarrow> (nat \<times> prop_grouper) option" where
  "group_find name w =
     (case find (\<lambda>(_, g). pgg_name g = name) (pg_groups w) of
        Some (k, _) \<Rightarrow> Some (k, w)
      | None \<Rightarrow>
          do { (root, st1) \<leftarrow> prop_create0 (pg_dst w) None None False (pg_props w);
               (nm, st2) \<leftarrow> prop_create0 root (Some ''name'') None False st1;
               st3 \<leftarrow> prop_set_string_exl nm None name PROP_STR_UTF8 st2;
               (ns, st4) \<leftarrow> prop_create0 root (Some ''nodes'') None False st3;
               Some (pg_fresh w,
                     w\<lparr>pg_fresh := Suc (pg_fresh w), pg_props := st4,
                       pg_groups := (pg_fresh w, \<lparr>pgg_name = name, pgg_root = root, pgg_nodes = ns, pgg_entries = []\<rparr>)
                                      # pg_groups w\<rparr>) })"

definition group_destroy :: "nat \<Rightarrow> pg_group \<Rightarrow> prop_grouper \<Rightarrow> prop_grouper option" where
  "group_destroy k g w =
     pg_run (\<lambda>st. map_option snd (destroy_now (pgg_root g) st)) (w\<lparr>pg_groups := filter (\<lambda>(m, _). m \<noteq> k) (pg_groups w)\<rparr>)"

definition node_unset :: "nat \<Rightarrow> pg_node \<Rightarrow> prop_grouper \<Rightarrow> prop_grouper option" where
  "node_unset n nd w =
     do { w1 \<leftarrow> (case pgn_out nd of None \<Rightarrow> Some w | Some x \<Rightarrow> pg_run (\<lambda>st. map_option snd (destroy_now x st)) w);
          (case pgn_group nd of
             None \<Rightarrow> Some w1
           | Some k \<Rightarrow>
               do { g \<leftarrow> map_of (pg_groups w1) k;
                    let rest = remove1 n (pgg_entries g)
                    in if n \<notin> set (pgg_entries g) then None
                       else if rest = [] then group_destroy k g w1
                       else Some (upd_pgg k (\<lambda>g. g\<lparr>pgg_entries := rest\<rparr>) w1) }) }"

definition node_update_group :: "nat \<Rightarrow> string option \<Rightarrow> prop_grouper \<Rightarrow> prop_grouper option" where
  "node_update_group n go w =
     do { nd \<leftarrow> map_of (pg_nodes w) n;
          w1 \<leftarrow> node_unset n nd w;
          (case go of
             None \<Rightarrow> Some (upd_pgn n (\<lambda>y. y\<lparr>pgn_out := None, pgn_group := None\<rparr>) w1)
           | Some name \<Rightarrow>
               do { (k, w2) \<leftarrow> group_find name w1;
                    g \<leftarrow> map_of (pg_groups w2) k;
                    (case prop_make None False None (pg_props w2) of
                       (x, st1) \<Rightarrow>
                         do { st2 \<leftarrow> prop_link0 (pgn_in nd) x None PROP_LINK_NORMAL st1;
                              pg_run (\<lambda>st. map_option snd (prop_set_parent0 x (pgg_nodes g) None None st))
                                (upd_pgn n (\<lambda>y. y\<lparr>pgn_out := Some x, pgn_group := Some k\<rparr>)
                                  (upd_pgg k (\<lambda>g. g\<lparr>pgg_entries := n # pgg_entries g\<rparr>) (w2\<lparr>pg_props := st2\<rparr>))) }) }) }"

section \<open>The value of a node\<close>

text \<open>
  The conversion \<open>%f\<close> of a float: six digits after the point, rounded to the nearest, ties to even.
  A buffer of 32 bytes holds 31 characters of it.
\<close>

definition div_even :: "nat \<Rightarrow> nat \<Rightarrow> nat" where
  "div_even n d =
     (let q = n div d; r = n mod d in if d < 2 * r \<or> (2 * r = d \<and> odd q) then Suc q else q)"

definition f32_millionths :: "f32 \<Rightarrow> nat" where
  "f32_millionths f =
     (let m = nat (if f32_exp f = 0 then f32_man f else f32_man f + 2 ^ 23);
          e = max 1 (f32_exp f) - 150
      in if 0 \<le> e then m * 2 ^ nat e * 10 ^ 6 else div_even (m * 10 ^ 6) (2 ^ nat (- e)))"

definition printf_f :: "f32 \<Rightarrow> string" where
  "printf_f f =
     (if f32_neg f then ''-'' else []) @
     (if f32_exp f = 255 then (if f32_man f = 0 then ''inf'' else ''nan'')
      else let v = f32_millionths f; d = nat_dec (v mod 10 ^ 6)
           in nat_dec (v div 10 ^ 6) @ ''.'' @ replicate (6 - length d) (CHR ''0'') @ d)"

definition node_group :: "prop_notify_t \<Rightarrow> string option" where
  "node_group e =
     (case (hpn_event e, hpn_val e) of
        (EV_SET_RSTRING, NV_rstring s t) \<Rightarrow> Some s
      | (EV_SET_URI, NV_uri title u) \<Rightarrow> title
      | (EV_SET_CSTRING, NV_cstring s) \<Rightarrow> Some s
      | (EV_SET_INT, NV_int i) \<Rightarrow> Some (take 31 (int_dec (sint i)))
      | (EV_SET_FLOAT, NV_float f) \<Rightarrow> Some (take 31 (printf_f f))
      | _ \<Rightarrow> None)"

definition node_set_group :: "nat \<Rightarrow> prop_notify_t \<Rightarrow> prop_grouper \<Rightarrow> prop_grouper option" where
  "node_set_group n e w = node_update_group n (node_group e) w"

section \<open>Events of the source\<close>

text \<open>The calls made while a subscription is made are handled right after.\<close>

definition pg_subscribe ::
  "prop_tag list \<Rightarrow> (prop_notify_t \<Rightarrow> prop_grouper \<Rightarrow> prop_grouper option) \<Rightarrow> prop_grouper
    \<Rightarrow> (sid option \<times> prop_grouper) option" where
  "pg_subscribe tags cb w =
     do { (so, st) \<leftarrow> prop_subscribe {PROP_SUB_INTERNAL, PROP_SUB_DONTLOCK} tags (pg_props w);
          w1 \<leftarrow> ofold cb (filter (\<lambda>n. hpn_sub n = snext (pg_props w)) (drop (length (calls (pg_props w))) (calls st)))
                 (w\<lparr>pg_props := st\<rparr>);
          Some (so, w1) }"

definition pg_add_node :: "pid \<Rightarrow> prop_grouper \<Rightarrow> prop_grouper option" where
  "pg_add_node p w =
     (let n = pg_fresh w;
          w1 = w\<lparr>pg_fresh := Suc n, pg_tags := prop_tag_set p (pg_key w) n (pg_tags w),
                 pg_nodes := (n, \<lparr>pgn_in = p, pgn_out = None, pgn_sub = None, pgn_group = None\<rparr>) # pg_nodes w\<rparr>
      in do { (so, w2) \<leftarrow> pg_subscribe [TAG_CALLBACK 1 n, TAG_NAMED_ROOT (Some p) (Some ''node''),
                                        TAG_NAME_VECTOR (pg_groupingpath w)] (node_set_group n) w1;
              Some (upd_pgn n (\<lambda>y. y\<lparr>pgn_sub := so\<rparr>) w2) })"

definition pg_add_nodes :: "pid list \<Rightarrow> prop_grouper \<Rightarrow> prop_grouper option" where
  "pg_add_nodes ps w = ofold pg_add_node ps w"

definition pg_del_node :: "nat \<Rightarrow> prop_grouper \<Rightarrow> prop_grouper option" where
  "pg_del_node n w =
     do { nd \<leftarrow> map_of (pg_nodes w) n;
          w1 \<leftarrow> node_unset n nd (w\<lparr>pg_nodes := filter (\<lambda>(m, _). m \<noteq> n) (pg_nodes w)\<rparr>);
          s \<leftarrow> pgn_sub nd;
          pg_run (prop_unsubscribe0 s) w1 }"

definition pg_clear :: "prop_grouper \<Rightarrow> prop_grouper option" where
  "pg_clear w =
     ofold (\<lambda>(n, nd) w. pg_del_node n (w\<lparr>pg_tags := snd (prop_tag_clear (pgn_in nd) (pg_key w) (pg_tags w))\<rparr>)) (pg_nodes w) w"

definition pg_src_cb :: "prop_notify_t \<Rightarrow> prop_grouper \<Rightarrow> prop_grouper option" where
  "pg_src_cb e w =
     (case (hpn_event e, hpn_val e) of
        (EV_ADD_CHILD, NV_prop (Some p)) \<Rightarrow> pg_add_node p w
      | (EV_ADD_CHILD_BEFORE, NV_prop (Some p)) \<Rightarrow> pg_add_node p w
      | (EV_ADD_CHILD_VECTOR, NV_propv _ ps) \<Rightarrow> pg_add_nodes ps w
      | (EV_ADD_CHILD_VECTOR_BEFORE, NV_propv _ ps) \<Rightarrow> pg_add_nodes ps w
      | (EV_ADD_CHILD_VECTOR_DIRECT, NV_propv _ ps) \<Rightarrow> pg_add_nodes ps w
      | (EV_DEL_CHILD, NV_prop (Some p)) \<Rightarrow>
          (case prop_tag_clear p (pg_key w) (pg_tags w) of
             (None, _) \<Rightarrow> None
           | (Some n, tg) \<Rightarrow> pg_del_node n (w\<lparr>pg_tags := tg\<rparr>))
      | (EV_SET_VOID, _) \<Rightarrow> pg_clear w
      | (EV_REQ_DELETE_VECTOR, _) \<Rightarrow> Some w
      | (EV_WANT_MORE_CHILDS, _) \<Rightarrow> Some w
      | (EV_MOVE_CHILD, _) \<Rightarrow> Some w
      | (EV_SET_DIR, _) \<Rightarrow> Some w
      | (EV_REQ_DELETE, _) \<Rightarrow> Some w
      | _ \<Rightarrow> None)"

definition prop_grouper_create ::
  "nat \<Rightarrow> pid \<Rightarrow> pid \<Rightarrow> string \<Rightarrow> bool \<Rightarrow> prop_tags \<Rightarrow> pst \<Rightarrow> prop_grouper option" where
  "prop_grouper_create key dst src groupkey take_dst tg st =
     do { st1 \<leftarrow> (if take_dst then Some st else prop_xref_addref (Some dst) st);
          path \<leftarrow> strvec_split groupkey (CHR ''.'');
          (so, w) \<leftarrow> pg_subscribe [TAG_CALLBACK 0 key, TAG_ROOT (Some src)] pg_src_cb
                       \<lparr>pg_nodes = [], pg_groups = [], pg_groupingpath = path, pg_srcsub = None, pg_dst = dst,
                        pg_key = key, pg_fresh = 0, pg_tags = tg, pg_props = st1\<rparr>;
          Some (w\<lparr>pg_srcsub := so\<rparr>) }"

definition prop_grouper_destroy :: "prop_grouper \<Rightarrow> prop_grouper option" where
  "prop_grouper_destroy w =
     do { w1 \<leftarrow> pg_clear w;
          s \<leftarrow> pg_srcsub w1;
          w2 \<leftarrow> pg_run (\<lambda>st. do { st1 \<leftarrow> prop_unsubscribe0 s st; map_option snd (destroy_now (pg_dst w1) st1) }) w1;
          if pg_nodes w2 = [] \<and> pg_groups w2 = [] then Some w2 else None }"

end
