(* ===== verification/Prop_Linkselected.thy ===== *)
theory Prop_Linkselected
  imports Prop_Request Prop_Destroy Prop_Value
begin

text \<open>
  The selected child of a directory, linked to another property
  (\<open>src/prop/prop_linkselected.c\<close>). The record holds \<open>lspriv_t\<close> and the property system; it is
  gone (\<open>lp_freed\<close>) once the directory has been destroyed. \<open>None\<close> is a null or a stale pointer. The callback runs on a dispatch thread,
  one notification after the other.
\<close>

record lspriv =
  lp_current :: "pid option"
  lp_target :: "pid option"
  lp_name :: "pid option"
  lp_freed :: bool
  lp_props :: pst

definition lp_run :: "(pst \<Rightarrow> pst option) \<Rightarrow> lspriv \<Rightarrow> lspriv option" where
  "lp_run f w = map_option (\<lambda>st. w\<lparr>lp_props := st\<rparr>) (f (lp_props w))"

definition ls_set :: "pid option \<Rightarrow> lspriv \<Rightarrow> lspriv option" where
  "ls_set po w =
     do { w1 \<leftarrow> lp_run (prop_link_ex po (lp_target w) None PROP_LINK_NORMAL) (w\<lparr>lp_current := po\<rparr>);
          if lp_name w1 = None then Some w1
          else do { p \<leftarrow> po;
                    lp_run (\<lambda>st. prop_set_rstring_ex (lp_name w1) None (hp_name (props st p)) PROP_STR_UTF8 st) w1 } }"

definition child_added :: "pid \<Rightarrow> bool \<Rightarrow> lspriv \<Rightarrow> lspriv option" where
  "child_added p selected w = (if selected then ls_set (Some p) w else Some w)"

definition prop_linkselected_cb :: "prop_notify_t \<Rightarrow> lspriv \<Rightarrow> lspriv option" where
  "prop_linkselected_cb e w =
     (if lp_freed w then None
      else case (hpn_event e, hpn_val e) of
        (EV_DESTROYED, _) \<Rightarrow>
          lp_run (\<lambda>st. do { st1 \<leftarrow> prop_ref_dec_locked (lp_target w) st;
                          st2 \<leftarrow> prop_ref_dec_locked (lp_name w) st1;
                          prop_unsubscribe (Some (hpn_sub e)) st2 }) (w\<lparr>lp_freed := True\<rparr>)
      | (EV_SELECT_CHILD, NV_prop po) \<Rightarrow> ls_set po w
      | (EV_ADD_CHILD, NV_prop (Some p)) \<Rightarrow> child_added p (hpn_selected e) w
      | (EV_ADD_CHILD_BEFORE, NV_prop (Some p)) \<Rightarrow> child_added p (hpn_selected e) w
      | (EV_DEL_CHILD, NV_prop po) \<Rightarrow>
          (if po = lp_current w then
             lp_run (\<lambda>st. do { st1 \<leftarrow> prop_unlink_ex (lp_target w) None st; prop_set_void_ex (lp_name w) None st1 })
               (w\<lparr>lp_current := None\<rparr>)
           else Some w)
      | _ \<Rightarrow> Some w)"

definition prop_linkselected_create :: "pid \<Rightarrow> pid option \<Rightarrow> string \<Rightarrow> string option \<Rightarrow> pst \<Rightarrow> lspriv option" where
  "prop_linkselected_create dir p target name st =
     do { (t, st1) \<leftarrow> prop_create_ex p (Some target) None False True st;
          (n, st2) \<leftarrow> (case name of None \<Rightarrow> Some (None, st1) | Some s \<Rightarrow> prop_create_ex p (Some s) None False True st1);
          (so, st3) \<leftarrow> prop_subscribe {PROP_SUB_TRACK_DESTROY} [TAG_CALLBACK 0 0, TAG_ROOT (Some dir)] st2;
          Some \<lparr>lp_current = None, lp_target = t, lp_name = n, lp_freed = False, lp_props = st3\<rparr> }"

end
