(* ===== verification/Spec2Isabelle.thy ===== *)
theory Spec2Isabelle
  imports Prop_Properties Dispatch_Properties Str_Properties Htsmsg_Properties Misc_Properties Derived_Properties
    Sorted_Properties View_Properties Prop_Grouper Prop_Linkselected
begin

text \<open>
  A verification library for the core of Movian, a media player written in C.

  Every part of Movian that shows or stores something does so through the property system
  (\<open>src/prop\<close>): a tree of properties with values, links between properties, and subscriptions
  that are told of every change through queues. The development models that system as it is
  written and proves what its users rely on.

  THE PROPERTY SYSTEM (\<open>src/prop/prop_core.c\<close>, \<open>prop_i.h\<close>, \<open>prop.h\<close>, \<open>prop_vector.c\<close>)

  State: \<open>Prop_State\<close> has \<open>struct prop\<close>, \<open>struct prop_sub\<close>, \<open>prop_notify_t\<close>,
  \<open>struct prop_courier\<close> and \<open>prop_sub_dispatch_t\<close> as records in a store \<open>pst\<close> that maps
  identifiers to objects. All operations run under \<open>prop_mutex\<close>, so each is one state
  transformer \<open>pst \<Rightarrow> pst option\<close>; \<open>None\<close> is a failed assertion, an \<open>abort()\<close>, an access to a null
  pointer, signed overflow, or a walk that does not end. \<open>calls\<close> records the callbacks made,
  \<open>proxy_log\<close> the requests handed to the connection of a remote tree.

  Operations, one theory per group, in the order of the code: \<open>Prop_Courier\<close> (queues, polling,
  delivery), \<open>Prop_Notify\<close> (the \<open>prop_build_notify\<close> and \<open>prop_notify\<close> functions), \<open>Prop_Tree\<close>
  (create, insert, move, reparent), \<open>Prop_Link\<close> (link, unlink, retarget, restore),
  \<open>Prop_Destroy\<close>, \<open>Prop_Value\<close> (setters and number conversions), \<open>Prop_Subscribe\<close> (lookup by
  name, subscription, unsubscription), \<open>Prop_Request\<close> (selection, requests, queries). Recursion
  over the shared graph carries fuel: \<open>pnext\<close> + 1 steps for a walk along parents, links or
  children, more than there are properties, and 2 \<open>pnext\<close> + 1 for the mutual recursion of
  destruction; a walk that exceeds it is one that the C code does not end on a cyclic graph, or,
  for destruction, one that passes the 8-bit \<open>hp_xref\<close> counter through zero twice.
  \<open>Float32\<close> is the IEEE arithmetic of the float properties and \<open>Clib\<close> the few C library
  functions; \<open>Prelude\<close> has lists and folds.

  Proofs: \<open>Prop_Shape\<close> says what queueing leaves alone; \<open>Prop_Inv\<close> has the tree invariant
  \<open>tree_ok\<close>; the locale \<open>prop_inv\<close> of \<open>Prop_Kept\<close> is the contract of an invariant, one law for
  each elementary step of the code, and \<open>Prop_Kept\<close>, \<open>Prop_Kept_Link\<close>, \<open>Prop_Kept_Destroy\<close>
  (with the locale \<open>destroyer_inv\<close> for the recursion through destruction) and \<open>Prop_Kept_Ops\<close> derive
  that every operation keeps it. \<open>Prop_Mirror\<close> interprets the contract twice, for the tree alone
  and for \<open>mirror\<close>: replaying what a subscription was and will be called with gives the children
  of the property it follows. \<open>Prop_Theorems\<close> adds subscribing and polling, \<open>Prop_Session\<close> runs of
  both, \<open>Prop_Facts\<close> and \<open>Prop_Values\<close> facts about single operations, and \<open>Prop_Properties\<close> the
  properties C1 to C4, C6 and C9 to C12, with concrete instances.

  DISPATCH THREADS (\<open>prop_core.c\<close>, \<open>prop_global_dispatch_thread\<close>)

  \<open>Dispatch\<close> cuts the loop of a dispatch thread where it drops \<open>prop_mutex\<close> and lets any other
  thread, caller or operation run in between (\<open>g_step\<close>). \<open>Dispatch_Inv\<close> proves where a dispatch
  structure can be, \<open>Dispatch_Wake\<close> that some thread is awake when there is work, \<open>Dispatch_Fifo\<close>
  the order of delivery, \<open>Dispatch_Live\<close> progress by a rank that every thread step lowers, and
  \<open>Dispatch_Properties\<close> C14 to C17. A condition wait is taken to end only by a signal, and the
  rest of the system to leave dispatch structures alone (\<open>env_ok\<close>).

  DERIVED LISTS (\<open>src/prop/prop_tags.c\<close>, \<open>prop_concat.c\<close>, \<open>prop_nodefilter.c\<close>, \<open>prop_window.c\<close>,
  \<open>prop_reorder.c\<close>, \<open>prop_grouper.c\<close>, \<open>prop_linkselected.c\<close>, \<open>src/misc/redblack.h\<close>)

  \<open>Prop_Tags\<close> has the tags by which a list finds the output it made for a child, \<open>Prop_Concat\<close> the
  concatenation of lists: its state (\<open>prop_concat_t\<close> with its sources) beside the property system
  in one record, one definition for each event of \<open>src_cb\<close> and \<open>dst_cb\<close>. The property system makes
  these callbacks in the middle of an operation; here they run after it, in order (\<open>concat_do\<close>).
  \<open>Prop_Outs\<close> has the laws of linking, placing and destroying outputs, \<open>Prop_Concat_Inv\<close> the
  invariant \<open>concat_ok\<close> and that every event keeps it that \<open>fits\<close>: the children it names are known
  or new, and the first child stays the first when one is inserted before another or moved.
  \<open>Derived_Properties\<close> has C39 and, for what happens when it does not stay the first, C40.

  \<open>Redblack\<close> has the red-black trees: a tree as a value, a node in it as the path to it, from the
  node up, and each operation on the head with its first and last element. \<open>Redblack_Inv\<close> proves
  the laws of colours and heights and that the operations are those of a sorted list.
  \<open>Prop_Nodefilter\<close> is the filter and sorter of lists: the record \<open>prop_nf\<close> holds \<open>prop_nf_t\<close> with
  its nodes (\<open>nfnode_t\<close>) in a map, its predicates and the property system; the nodes are in
  \<open>nf_out_tree\<close> when there is a sort key and in \<open>nf_out_queue\<close> when there is none. Its subscriptions
  of strings and integers go through \<open>Prop_Trampoline\<close> (the functions of \<open>prop_core.c\<close> that turn an
  event into the argument of a typed callback). \<open>Prop_Nodefilter_Inv\<close> has the invariant: \<open>nf_wf\<close>
  (tree, queue, nodes and the children of the destination agree), \<open>nf_ordered\<close> and \<open>node_right\<close> (a
  node has an output when it is to be shown), together \<open>nf_view_ok\<close>, without a filter text; and that
  inserting a node (\<open>nf_insert_ok\<close>) and showing or hiding it (\<open>nf_egress_ok\<close>) keep it.
  \<open>Sorted_Properties\<close> has C31 of the trees and C5 and C8 of the filter. That adding and removing
  nodes and predicates keep the invariant, with the subscriptions this makes, is not proved.

  \<open>Prop_Window\<close> is the window on a list, \<open>Prop_Reorder\<close> the list in the order of the user, \<open>Prop_Grouper\<close>
  the list of groups by a value and \<open>Prop_Linkselected\<close> the link to the selected child, each with its
  structs as a record beside the property system and its callbacks run after the operation that
  caused them. \<open>Prop_Window_Inv\<close> has the invariant \<open>win_ok\<close> of a window (a node for each child the
  source has told of, with an output exactly when its position is within the window) and
  \<open>Prop_Reorder_Inv\<close> the one of an ordered list: \<open>ro_ok\<close>, with \<open>ro_saved\<close> for the saved order when
  the children have different names; each has one law for each kind of event.
  \<open>View_Properties\<close> has C7 of windows and C13 of ordered lists. Groups and the link to the selected
  child are modelled without properties of their own.

  STRINGS (\<open>src/misc/str.c\<close>)

  A C string is the list of its characters before the NUL, a pointer into it the rest of the list,
  a buffer that is written a list of its size. \<open>Utf8\<close> decodes and encodes UTF-8, \<open>Str_Url\<close> has
  hexadecimal, URL escaping and relative references, \<open>Str_Html\<close> the entities, \<open>Str_Match\<close>
  pattern matching, searching and the dictionary order, \<open>Str_Misc\<close> the rest. Each theory ends with
  the laws of its functions; \<open>Str_Properties\<close> has C18 to C24.

  MESSAGES (\<open>src/htsmsg\<close>, \<open>src/misc/json.c\<close>, \<open>src/misc/dbl.c\<close>)

  \<open>Htsmsg\<close> has messages (\<open>htsmsg_t\<close>) as values and every operation on them, \<open>Htsbuf\<close> the byte
  queues with their chunks; the locale \<open>byte_sink\<close> is what a writer needs of a queue, and
  \<open>append_bytes\<close>, \<open>htsbuf_read_spec\<close> and so on relate a queue to the list of its bytes.
  \<open>Htsmsg_Binary\<close> is the binary form. \<open>Json\<close> is the parser over its table of callbacks
  (\<open>json_deserializer_t\<close>) and the scanner of numbers, with the proofs that it moves forward and
  that its fuel, 2 steps for each character and 3 more, is enough; the locale \<open>json_builder\<close> of
  \<open>Htsmsg_Json\<close> is what the parser needs of its callbacks, interpreted on those that build a
  message. \<open>Json_Roundtrip\<close> proves that the parser reads what the writer wrote;
  \<open>Htsmsg_Properties\<close> has C25 to C32, but C31. The value of a double is a parameter: \<open>dbl\<close> takes the scanned
  parts of a number, \<open>d2s\<close> gives the text of \<open>my_double2str\<close>.

  RANGES, TIMERS, TORRENTS (\<open>src/misc/extents.c\<close>, \<open>src/misc/callout.c\<close>,
  \<open>src/backend/bittorrent/bencode.c\<close>)

  \<open>Extents\<close> has a pool of free ranges with its two trees as ordered lists, the invariant \<open>pool_ok\<close>
  and the abstraction \<open>free_addrs\<close>; positions are \<open>int\<close>, exact within \<open>0 .. 2 ^ 31\<close>. \<open>Callout\<close> has
  the timers and the loop of their thread as the step relation \<open>co_step\<close>, with the calls of lock
  managers as steps of their own; whoever arms a timer that is armed is taken to keep its lock
  manager and opaque value. \<open>Bencode\<close> reads and writes the encoding of torrents; 2 steps of fuel
  for each byte and 3 more are enough (\<open>bencode_no_fuel\<close>). \<open>Misc_Properties\<close> has C33 to C38.

  NOT MODELLED

  In the property system: the tracing and
  printing code under \<open>PROP_DEBUG\<close>, remote trees (\<open>prop_proxy.c\<close>) and what a callback of a
  courier does: it runs without the mutex, as further operations. Of the messages: reference counts, printing and
  the conversions from and to floating point. Outside them: the user interface, playback,
  networking, the database layer, scripting and all vendored code.
\<close>

end
